(* ===== verification/Prelude.thy ===== *)
theory Prelude
  imports Main "HOL-Library.Word" "HOL-Library.Monad_Syntax"
begin

text \<open>
  Shared vocabulary of the development: bytes and C strings, the character classes and the
  string functions of the C library that the sources call (in the "C" locale, as glibc has
  them), the outcome type of operations that may not return normally, and the hint collections
  of the component theories.

  A \<open>char\<close> is one byte. A C array is the list of all its bytes; \<open>cstr\<close> reads the
  NUL-terminated string that starts at its beginning.
\<close>

named_theorems buf_simps \<open>reading and writing C arrays\<close>
named_theorems cstr_simps \<open>C strings inside arrays\<close>

section \<open>Bytes\<close>

abbreviation NUL :: char where "NUL \<equiv> CHR 0x00"
abbreviation LF :: char where "LF \<equiv> CHR 0x0A"
abbreviation CR :: char where "CR \<equiv> CHR 0x0D"

definition ord :: "char \<Rightarrow> nat" where
  "ord c = of_char c"

definition chr :: "nat \<Rightarrow> char" where
  "chr n = char_of (n mod 256)"

lemma ord_less [simp]: "ord c < 256"
  by (simp add: ord_def)

lemma chr_ord [simp]: "chr (ord c) = c"
  by (simp add: chr_def ord_def)

lemma ord_chr: "ord (chr n) = n mod 256"
  by (simp add: chr_def ord_def)

lemma ord_inject [simp]: "ord a = ord b \<longleftrightarrow> a = b"
  by (metis chr_ord)

section \<open>ctype.h\<close>

definition isspace :: "char \<Rightarrow> bool" where
  "isspace c = (ord c = 32 \<or> (9 \<le> ord c \<and> ord c \<le> 13))"

definition isdigit :: "char \<Rightarrow> bool" where
  "isdigit c = (48 \<le> ord c \<and> ord c \<le> 57)"

definition isxdigit :: "char \<Rightarrow> bool" where
  "isxdigit c = (isdigit c \<or> (65 \<le> ord c \<and> ord c \<le> 70) \<or> (97 \<le> ord c \<and> ord c \<le> 102))"

definition tolower :: "char \<Rightarrow> char" where
  "tolower c = (if 65 \<le> ord c \<and> ord c \<le> 90 then chr (ord c + 32) else c)"

definition toupper :: "char \<Rightarrow> char" where
  "toupper c = (if 97 \<le> ord c \<and> ord c \<le> 122 then chr (ord c - 32) else c)"

lemma char_of_eq: "char_of (n :: nat) = c \<longleftrightarrow> n mod 256 = of_char c"
  by (metis char_of_char char_of_mod_256 of_char_of)

lemma eq_char_of: "c = char_of (n :: nat) \<longleftrightarrow> of_char c = n mod 256"
  using char_of_eq [of n c] by auto

lemmas char_eval =
  tolower_def toupper_def isspace_def isdigit_def isxdigit_def ord_def chr_def char_of_eq eq_char_of

lemma isspace_NUL [simp]: "\<not> isspace NUL"
  by (simp add: isspace_def ord_def)

lemma ord_tolower: "ord (tolower c) = (if 65 \<le> ord c \<and> ord c \<le> 90 then ord c + 32 else ord c)"
  by (simp add: tolower_def ord_chr)

lemma tolower_non_letter:
  "ord d < 97 \<or> 122 < ord d \<Longrightarrow> tolower c = d \<Longrightarrow> c = d"
  using ord_tolower [of c] by (auto split: if_splits)

lemma tolower_idem [simp]: "tolower (tolower c) = tolower c"
  by (auto simp: tolower_def ord_chr)

section \<open>string.h\<close>

definition cstr :: "string \<Rightarrow> string" where
  "cstr buf = takeWhile (\<lambda>c. c \<noteq> NUL) buf"

definition strcaseeq :: "string \<Rightarrow> string \<Rightarrow> bool" where
  \<comment> \<open>\<open>strcasecmp(a, b) == 0\<close>\<close>
  "strcaseeq a b = (map tolower (cstr a) = map tolower (cstr b))"

definition strneq :: "string \<Rightarrow> string \<Rightarrow> nat \<Rightarrow> bool" where
  \<comment> \<open>\<open>strncmp(a, b, n) == 0\<close>\<close>
  "strneq a b n = (take n (cstr a) = take n (cstr b))"

definition strncaseeq :: "string \<Rightarrow> string \<Rightarrow> nat \<Rightarrow> bool" where
  \<comment> \<open>\<open>strncasecmp(a, b, n) == 0\<close>\<close>
  "strncaseeq a b n = (map tolower (take n (cstr a)) = map tolower (take n (cstr b)))"

fun strrchr :: "char \<Rightarrow> string \<Rightarrow> string option" where
  \<comment> \<open>the suffix that starts at the last occurrence\<close>
  "strrchr c [] = None"
| "strrchr c (x # xs) =
     (case strrchr c xs of
        Some s \<Rightarrow> Some s
      | None \<Rightarrow> (if x = c then Some (x # xs) else None))"

lemma cstr_Nil [cstr_simps, simp]: "cstr [] = []"
  by (simp add: cstr_def)

lemma cstr_Cons [cstr_simps, simp]: "cstr (c # s) = (if c = NUL then [] else c # cstr s)"
  by (simp add: cstr_def)

lemma cstr_id [cstr_simps]: "NUL \<notin> set s \<Longrightarrow> cstr s = s"
  by (auto simp: cstr_def takeWhile_eq_all_conv)

lemma cstr_append_NUL [cstr_simps]: "NUL \<notin> set s \<Longrightarrow> cstr (s @ NUL # t) = s"
  by (induction s) auto

lemma cstr_no_NUL: "NUL \<notin> set (cstr s)"
  by (induction s) auto

lemma cstr_idem [simp]: "cstr (cstr s) = cstr s"
  by (simp add: cstr_id cstr_no_NUL)

lemma length_cstr: "length (cstr s) \<le> length s"
  by (simp add: cstr_def length_takeWhile_le)

lemma cstr_append: "cstr (s @ t) = (if NUL \<in> set s then cstr s else s @ cstr t)"
  by (induction s) auto

lemma strcaseeq_refl [simp]: "strcaseeq a a"
  by (simp add: strcaseeq_def)

lemma strcaseeq_sym: "strcaseeq a b = strcaseeq b a"
  by (auto simp: strcaseeq_def)

lemma strcaseeq_trans: "strcaseeq a b \<Longrightarrow> strcaseeq b c \<Longrightarrow> strcaseeq a c"
  by (simp add: strcaseeq_def)

lemma strrchr_None: "strrchr c s = None \<longleftrightarrow> c \<notin> set s"
  by (induction s) (auto split: option.splits)

lemma strrchr_last: "c \<notin> set t \<Longrightarrow> strrchr c (s @ c # t) = Some (c # t)"
proof (induction s)
  case Nil
  then have "strrchr c t = None" by (simp add: strrchr_None)
  then show ?case by simp
next
  case (Cons x xs)
  then show ?case by simp
qed

lemma strrchr_SomeD:
  "strrchr c s = Some t \<Longrightarrow> \<exists>p r. s = p @ t \<and> t = c # r \<and> c \<notin> set r"
proof (induction s arbitrary: t)
  case Nil
  then show ?case by simp
next
  case (Cons x xs)
  show ?case
  proof (cases "strrchr c xs")
    case None
    with Cons.prems show ?thesis by (auto simp: strrchr_None split: if_splits)
  next
    case (Some u)
    with Cons.prems have "strrchr c xs = Some t" by simp
    then obtain p r where "xs = p @ t \<and> t = c # r \<and> c \<notin> set r" using Cons.IH by blast
    then show ?thesis by (metis append_Cons)
  qed
qed

section \<open>stdlib.h\<close>

definition digit_val :: "char \<Rightarrow> nat" where
  "digit_val c = ord c - 48"

fun digits_val :: "nat \<Rightarrow> nat \<Rightarrow> string \<Rightarrow> nat" where
  \<comment> \<open>the value of the longest prefix of digits below the base, with the value read so far\<close>
  "digits_val base acc [] = acc"
| "digits_val base acc (c # s) =
     (if 48 \<le> ord c \<and> ord c < 48 + base then digits_val base (base * acc + digit_val c) s else acc)"

definition strtol_raw :: "nat \<Rightarrow> string \<Rightarrow> int" where
  \<comment> \<open>leading blanks, an optional sign, digits; for bases up to ten\<close>
  "strtol_raw base s =
     (case dropWhile isspace s of
        [] \<Rightarrow> 0
      | c # t \<Rightarrow> if c = CHR ''-'' then - int (digits_val base 0 t)
                 else if c = CHR ''+'' then int (digits_val base 0 t)
                 else int (digits_val base 0 (c # t)))"

definition to_int32 :: "int \<Rightarrow> int" where
  \<comment> \<open>conversion to a 32-bit \<open>int\<close>\<close>
  "to_int32 x = signed_take_bit 31 x"

definition atoi :: "string \<Rightarrow> int" where
  \<comment> \<open>glibc: \<open>(int) strtol(s, NULL, 10)\<close>, \<open>strtol\<close> saturating at 64 bits\<close>
  "atoi s = to_int32 (max (- (2 ^ 63)) (min (2 ^ 63 - 1) (strtol_raw 10 s)))"

fun dec_nat :: "nat \<Rightarrow> string" where
  "dec_nat n = (if n < 10 then [chr (48 + n)] else dec_nat (n div 10) @ [chr (48 + n mod 10)])"

declare dec_nat.simps [simp del]

lemma length_dec_nat: "0 < k \<Longrightarrow> n < 10 ^ k \<Longrightarrow> length (dec_nat n) \<le> k"
proof (induction n arbitrary: k rule: dec_nat.induct)
  case (1 n)
  show ?case
  proof (cases "n < 10")
    case True
    then show ?thesis using "1.prems" by (simp add: dec_nat.simps [of n])
  next
    case False
    with "1.prems"(2) have "k \<noteq> 1" by auto
    with "1.prems"(1) obtain j where k: "k = Suc j" "0 < j" by (cases k) auto
    with "1.prems"(2) have "n div 10 < 10 ^ j" by (simp add: div_less_iff_less_mult mult.commute)
    with "1.IH" [OF False k(2)] k False show ?thesis by (simp add: dec_nat.simps [of n])
  qed
qed

definition dec_int :: "int \<Rightarrow> string" where
  \<comment> \<open>\<open>%d\<close>\<close>
  "dec_int x = (if x < 0 then CHR ''-'' # dec_nat (nat (- x)) else dec_nat (nat x))"

lemma to_int32_range: "- (2 ^ 31) \<le> to_int32 x \<and> to_int32 x < 2 ^ 31"
  unfolding to_int32_def
  using signed_take_bit_int_greater_eq_minus_exp [of 31 x] signed_take_bit_int_less_exp [of 31 x]
  by simp

definition int32 :: "int \<Rightarrow> bool" where
  "int32 x \<longleftrightarrow> - (2 ^ 31) \<le> x \<and> x < 2 ^ 31"

lemma int32_atoi [simp]: "int32 (atoi s)"
  using to_int32_range by (simp add: int32_def atoi_def)

lemma length_dec_int:
  assumes "int32 x" shows "length (dec_int x) \<le> 11"
proof -
  have "nat \<bar>x\<bar> < 10 ^ 10" using assms by (auto simp: int32_def)
  then have "length (dec_nat (nat \<bar>x\<bar>)) \<le> 10" by (intro length_dec_nat) simp_all
  then show ?thesis by (auto simp: dec_int_def abs_if split: if_splits)
qed

definition sprintf_at :: "nat \<Rightarrow> string \<Rightarrow> string \<Rightarrow> string option" where
  \<comment> \<open>\<open>sprintf\<close>, \<open>strcpy\<close> or \<open>strcat\<close> of \<open>s\<close> behind the \<open>p\<close> already in an array of
      \<open>cap\<close> bytes; \<open>None\<close> when the text and its NUL do not fit\<close>
  "sprintf_at cap p s = (if length p + length s < cap then Some (p @ s) else None)"

section \<open>Arrays\<close>

definition put :: "string \<Rightarrow> nat \<Rightarrow> char \<Rightarrow> string" where
  \<comment> \<open>\<open>buf[i] = c\<close>, for an index of the array\<close>
  "put buf i c = buf[i := c]"

lemma length_put [buf_simps, simp]: "length (put buf i c) = length buf"
  by (simp add: put_def)

definition at :: "(nat \<Rightarrow> char) \<Rightarrow> string \<Rightarrow> nat \<Rightarrow> char" where
  \<comment> \<open>\<open>buf[i]\<close>; what lies behind the array is the parameter \<open>junk\<close>\<close>
  "at junk buf i = (if i < length buf then buf ! i else junk i)"

lemma at_in [buf_simps]: "i < length buf \<Longrightarrow> at junk buf i = buf ! i"
  by (simp add: at_def)

section \<open>Outcomes\<close>

text \<open>
  \<open>Ret\<close> is a normal return. \<open>Fault\<close> is undefined behaviour of the C program, with
  the state in which it happens; \<open>Hang\<close> is a loop that never ends.
\<close>

datatype fault =
    Buffer_overflow
  | Null_deref
  | Out_of_bounds
  | Broken_pipe  \<comment> \<open>\<open>SIGPIPE\<close>, which ends a process that has no handler for it\<close>

datatype 'a run = Ret 'a | Fault fault 'a | Hang

fun bind_run :: "'a run \<Rightarrow> ('a \<Rightarrow> 'a run) \<Rightarrow> 'a run" where
  "bind_run (Ret x) f = f x"
| "bind_run (Fault e x) f = Fault e x"
| "bind_run Hang f = Hang"

lemma bind_run_Ret [simp]: "bind_run m Ret = m"
  by (cases m) auto

lemma bind_run_assoc: "bind_run (bind_run m f) g = bind_run m (\<lambda>x. bind_run (f x) g)"
  by (cases m) auto

end
