(* ===== verification/Socket.thy ===== *)
theory Socket
  imports Prelude
begin

text \<open>
  The client socket as \<open>src/src/httpd.c\<close> reads it, \<open>httpd_get_line\<close> and the loop that
  discards the request headers. What a \<open>recv\<close> of one byte meets is a list of events: a
  byte, or a call that fails (which consumes no data); at the end of the list the peer has
  closed the connection and every \<open>recv\<close> returns 0.
\<close>

section \<open>One-byte reads\<close>

datatype recv_ev = Got char | Fail

fun recv1 :: "char \<Rightarrow> recv_ev list \<Rightarrow> int \<times> char \<times> recv_ev list" where
  \<comment> \<open>\<open>n = recv(sock, &c, 1, 0)\<close>: the result, \<open>c\<close> afterwards, what is left\<close>
  "recv1 c [] = (0, c, [])"
| "recv1 c (Got x # es) = (1, x, es)"
| "recv1 c (Fail # es) = (-1, c, es)"

fun peek1 :: "char \<Rightarrow> recv_ev list \<Rightarrow> int \<times> char \<times> recv_ev list" where
  \<comment> \<open>\<open>n = recv(sock, &c, 1, MSG_PEEK)\<close>\<close>
  "peek1 c [] = (0, c, [])"
| "peek1 c (Got x # es) = (1, x, Got x # es)"
| "peek1 c (Fail # es) = (-1, c, es)"

section \<open>\<open>httpd_get_line\<close>\<close>

definition after_cr :: "char \<Rightarrow> recv_ev list \<Rightarrow> char \<times> recv_ev list" where
  \<comment> \<open>the block under \<open>if (c == '\r')\<close>: a carriage return becomes a line feed, a line feed
      that follows it is consumed\<close>
  "after_cr c es =
     (let (n, c1, es1) = peek1 c es
      in if n > 0 \<and> c1 = LF
         then (let (n2, c2, es2) = recv1 c1 es1 in (c2, es2))
         else (LF, es1))"

function get_line_loop ::
  "nat \<Rightarrow> nat \<Rightarrow> char \<Rightarrow> string \<Rightarrow> recv_ev list \<Rightarrow> nat \<times> string \<times> recv_ev list" where
  "get_line_loop sz i c buf es =
     (if i + 1 < sz \<and> c \<noteq> LF
      then (let (n, c1, es1) = recv1 c es
            in if n > 0
               then (let (c2, es2) = (if c1 = CR then after_cr c1 es1 else (c1, es1))
                     in get_line_loop sz (i + 1) c2 (put buf i c2) es2)
               else get_line_loop sz i LF buf es1)
      else (i, put buf i NUL, es))"
  by pat_completeness auto
termination
  by (relation "measure (\<lambda>(sz, i, c, buf, es). 2 * (sz - i) + (if c = LF then 0 else 1))")
    (auto split: if_splits)

declare get_line_loop.simps [simp del]

definition httpd_get_line :: "string \<Rightarrow> nat \<Rightarrow> recv_ev list \<Rightarrow> nat \<times> string \<times> recv_ev list" where
  "httpd_get_line buf sz es = get_line_loop sz 0 NUL buf es"

section \<open>What a line is\<close>

text \<open>
  The abstract reader: at most \<open>k\<close> characters, the terminator (LF, CR or CR LF) read as
  one line feed; a failed read or the end of the stream ends the line without a line feed.
\<close>

fun drop_lf :: "recv_ev list \<Rightarrow> recv_ev list" where
  "drop_lf [] = []"
| "drop_lf (Fail # es) = es"
| "drop_lf (Got x # es) = (if x = LF then es else Got x # es)"

fun read_line :: "nat \<Rightarrow> recv_ev list \<Rightarrow> string \<times> recv_ev list" where
  "read_line 0 es = ([], es)"
| "read_line (Suc k) [] = ([], [])"
| "read_line (Suc k) (Fail # es) = ([], es)"
| "read_line (Suc k) (Got x # es) =
     (if x = CR then ([LF], drop_lf es)
      else if x = LF then ([LF], es)
      else (let (l, r) = read_line k es in (x # l, r)))"

lemma after_cr_eq: "after_cr c es = (LF, drop_lf es)"
  by (cases es rule: drop_lf.cases) (auto simp: after_cr_def)

lemma length_drop_lf: "length (drop_lf es) \<le> length es"
  by (cases es rule: drop_lf.cases) auto

lemma read_line_length: "length (fst (read_line k es)) \<le> k"
  by (induction k es rule: read_line.induct) (auto split: prod.splits)

lemma read_line_rest: "length (snd (read_line k es)) \<le> length es"
  by (induction k es rule: read_line.induct)
    (use length_drop_lf in \<open>auto split: prod.splits intro: le_SucI\<close>)

lemma read_line_Got_rest: "length (snd (read_line (Suc k) (Got x # es))) \<le> length es"
  using length_drop_lf [of es] read_line_rest [of k es] by (cases "read_line k es") auto

lemma read_line_progress:
  assumes "fst (read_line k es) \<noteq> []"
  shows "length (snd (read_line k es)) < length es"
proof (cases "(k, es)" rule: read_line.cases)
  case (4 k' x es')
  then show ?thesis using read_line_Got_rest [of k' x es'] by simp
qed (use assms in simp_all)

lemma read_line_LF_last: "LF \<in> set (butlast (fst (read_line k es))) \<Longrightarrow> False"
  by (induction k es rule: read_line.induct) (auto split: prod.splits if_splits)

text \<open>The bytes in the buffer after a call: the line, a NUL, and what was there before.\<close>

definition line_buf :: "string \<Rightarrow> nat \<Rightarrow> string \<Rightarrow> string" where
  "line_buf buf i l = take i buf @ l @ NUL # drop (Suc (i + length l)) buf"

lemma put_shift:
  "i < length buf \<Longrightarrow> put buf i c = take i buf @ c # drop (Suc i) buf"
  by (simp add: put_def upd_conv_take_nth_drop)

lemma line_buf_Cons:
  "i + Suc (length l) < length buf \<Longrightarrow>
   line_buf (put buf i c) (Suc i) l = line_buf buf i (c # l)"
  by (simp add: line_buf_def put_shift add.commute)

lemma get_line_loop_LF:
  "i < length buf \<Longrightarrow> get_line_loop sz i LF buf es = (i, line_buf buf i [], es)"
  by (simp add: get_line_loop.simps line_buf_def put_shift)

lemma get_line_loop_eq:
  assumes "i + Suc k = sz" "sz \<le> length buf" "c \<noteq> LF"
  shows "get_line_loop sz i c buf es =
    (let (l, r) = read_line k es in (i + length l, line_buf buf i l, r))"
  using assms
proof (induction k es arbitrary: i c buf rule: read_line.induct)
  case (1 es)
  then show ?case by (simp add: get_line_loop.simps line_buf_def put_shift)
next
  case (2 k)
  then show ?case by (simp add: get_line_loop.simps [of sz i c] get_line_loop_LF)
next
  case (3 k es)
  then show ?case by (simp add: get_line_loop.simps [of sz i c] get_line_loop_LF)
next
  case (4 k x es)
  show ?case
  proof (cases "x = CR \<or> x = LF")
    case True
    with 4 show ?thesis
      by (auto simp: get_line_loop.simps [of sz i c] get_line_loop_LF after_cr_eq line_buf_Cons)
  next
    case False
    then have "get_line_loop sz i c buf (Got x # es) =
      get_line_loop sz (Suc i) x (put buf i x) es"
      using "4.prems" by (simp add: get_line_loop.simps [of sz i c])
    also have "\<dots> = (let (l, r) = read_line k es
      in (Suc i + length l, line_buf (put buf i x) (Suc i) l, r))"
      by (rule "4.IH") (use False "4.prems" in auto)
    finally show ?thesis
      using False "4.prems" read_line_length [of k es]
      by (simp add: line_buf_Cons split: prod.splits)
  qed
qed

lemma httpd_get_line_eq:
  assumes "0 < sz" "sz \<le> length buf"
  shows "httpd_get_line buf sz es =
    (let (l, r) = read_line (sz - 1) es
     in (length l, l @ NUL # drop (Suc (length l)) buf, r))"
  using get_line_loop_eq [of 0 "sz - 1" sz buf NUL es] assms
  by (simp add: httpd_get_line_def line_buf_def split: prod.splits)

section \<open>Progress and bounds\<close>

lemma get_line_loop_progress:
  "get_line_loop sz i c buf es = (j, b, r) \<Longrightarrow>
   i \<le> j \<and> length r \<le> length es \<and> (i < j \<longrightarrow> length r < length es)"
proof (induction sz i c buf es arbitrary: j b r rule: get_line_loop.induct)
  case (1 sz i c buf es)
  show ?case
  proof (cases "i + 1 < sz \<and> c \<noteq> LF")
    case False
    with "1.prems" show ?thesis by (auto simp: get_line_loop.simps [of sz i c])
  next
    case run: True
    show ?thesis
    proof (cases es)
      case Nil
      with run "1.prems" have "get_line_loop sz i LF buf [] = (j, b, r)"
        by (simp add: get_line_loop.simps [of sz i c])
      then show ?thesis using Nil by (auto simp: get_line_loop.simps)
    next
      case (Cons e es')
      show ?thesis
      proof (cases e)
        case (Got x)
        define y where "y = (if x = CR then after_cr x es' else (x, es'))"
        have y: "length (snd y) \<le> length es'"
          by (simp add: y_def after_cr_eq length_drop_lf)
        have "get_line_loop sz (i + 1) (fst y) (put buf i (fst y)) (snd y) = (j, b, r)"
          using run "1.prems" Cons Got
          by (cases "x = CR")
            (simp_all add: get_line_loop.simps [of sz i c] y_def after_cr_eq)
        moreover have "i + 1 \<le> j \<and> length r \<le> length (snd y) \<and>
            (i + 1 < j \<longrightarrow> length r < length (snd y))"
          by (rule "1.IH"(1) [OF run, of "(1, x, es')" 1 "(x, es')" x es' y "fst y" "snd y"])
            (use run Cons Got calculation in \<open>auto simp: y_def\<close>)
        ultimately show ?thesis using y Cons by auto
      next
        case Fail
        with run Cons "1.prems" have "get_line_loop sz i LF buf es' = (j, b, r)"
          by (simp add: get_line_loop.simps [of sz i c])
        then show ?thesis using Cons by (auto simp: get_line_loop.simps)
      qed
    qed
  qed
qed

lemma httpd_get_line_progress:
  "httpd_get_line buf sz es = (n, b, r) \<Longrightarrow> length r \<le> length es \<and> (0 < n \<longrightarrow> length r < length es)"
  unfolding httpd_get_line_def by (auto dest: get_line_loop_progress)

section \<open>Reading and discarding the headers\<close>

definition SERVER_BUFF_SZ :: nat where
  "SERVER_BUFF_SZ = 1024"

function discard_headers :: "nat \<Rightarrow> string \<Rightarrow> recv_ev list \<Rightarrow> nat \<times> string \<times> recv_ev list" where
  \<comment> \<open>\<open>while ((numchars > 0) && strcmp("\n", buf)) numchars = httpd_get_line(...)\<close>\<close>
  "discard_headers numchars buf es =
     (if numchars > 0 \<and> cstr buf \<noteq> [LF]
      then (let (n, b, r) = httpd_get_line buf SERVER_BUFF_SZ es in discard_headers n b r)
      else (numchars, buf, es))"
  by pat_completeness auto
termination
  by (relation "measure (\<lambda>(n, buf, es). 2 * length es + (if n > 0 then 1 else 0))")
    (auto split: prod.splits dest!: httpd_get_line_progress)

declare discard_headers.simps [simp del]

text \<open>The same on the abstract stream: lines are dropped up to the first empty one.\<close>

function skip_lines :: "recv_ev list \<Rightarrow> recv_ev list" where
  "skip_lines es =
     (case read_line (SERVER_BUFF_SZ - 1) es of
        (l, r) \<Rightarrow> if l = [] \<or> l = [LF] then r else skip_lines r)"
  by pat_completeness auto
termination
proof (relation "measure length")
  fix es l r
  assume "(l, r) = read_line (SERVER_BUFF_SZ - 1) es" and "\<not> (l = [] \<or> l = [LF])"
  then show "(r, es) \<in> measure length"
    using read_line_progress [of "SERVER_BUFF_SZ - 1" es] by (metis fst_conv in_measure snd_conv)
qed simp

declare skip_lines.simps [simp del]

lemma read_line_LF_iff:
  "(l, r) = read_line k es \<Longrightarrow> cstr (l @ NUL # t) = [LF] \<longleftrightarrow> l = [LF]"
proof (cases "(k, es)" rule: read_line.cases)
  case (4 k' x es')
  assume "(l, r) = read_line k es"
  with 4 show ?thesis
    by (cases "read_line k' es'") (auto simp: cstr_append split: if_splits)
qed (auto split: prod.splits)

lemma line_into_buf:
  assumes "httpd_get_line buf SERVER_BUFF_SZ es = (n, b, r)" "length buf = SERVER_BUFF_SZ"
  shows "length b = SERVER_BUFF_SZ"
    and "n = length (fst (read_line (SERVER_BUFF_SZ - 1) es))"
    and "r = snd (read_line (SERVER_BUFF_SZ - 1) es)"
    and "cstr b = [LF] \<longleftrightarrow> fst (read_line (SERVER_BUFF_SZ - 1) es) = [LF]"
proof -
  let ?l = "fst (read_line (SERVER_BUFF_SZ - 1) es)"
  have len: "length ?l \<le> SERVER_BUFF_SZ - 1" by (rule read_line_length)
  have eq: "n = length ?l \<and> b = ?l @ NUL # drop (Suc (length ?l)) buf \<and>
      r = snd (read_line (SERVER_BUFF_SZ - 1) es)"
    using assms httpd_get_line_eq [of SERVER_BUFF_SZ buf es]
    by (auto simp: SERVER_BUFF_SZ_def split: prod.splits)
  then show "n = length ?l" "r = snd (read_line (SERVER_BUFF_SZ - 1) es)" by auto
  show "length b = SERVER_BUFF_SZ" using eq len assms(2) by (simp add: SERVER_BUFF_SZ_def)
  show "cstr b = [LF] \<longleftrightarrow> ?l = [LF]"
    using eq read_line_LF_iff [of ?l "snd (read_line (SERVER_BUFF_SZ - 1) es)"] by simp
qed

lemma discard_headers_eq:
  assumes "n > 0 \<Longrightarrow> cstr buf \<noteq> [LF] \<Longrightarrow> length buf = SERVER_BUFF_SZ"
  shows "snd (snd (discard_headers n buf es)) =
    (if n > 0 \<and> cstr buf \<noteq> [LF] then skip_lines es else es)"
  using assms
proof (induction n buf es rule: discard_headers.induct)
  case (1 n buf es)
  show ?case
  proof (cases "n > 0 \<and> cstr buf \<noteq> [LF]")
    case False
    then show ?thesis by (subst discard_headers.simps) auto
  next
    case True
    obtain m b r where get: "httpd_get_line buf SERVER_BUFF_SZ es = (m, b, r)"
      by (cases "httpd_get_line buf SERVER_BUFF_SZ es") auto
    note line = line_into_buf [OF get] "1.prems" True
    have "snd (snd (discard_headers m b r)) =
        (if m > 0 \<and> cstr b \<noteq> [LF] then skip_lines r else r)"
      using True get by (intro "1.IH" [OF True get [symmetric] refl]) (use line in auto)
    then show ?thesis
      using True get line
      by (simp add: discard_headers.simps [of n buf] skip_lines.simps [of es] split: prod.splits)
  qed
qed

section \<open>Streams of whole lines\<close>

definition sent_bytes :: "string \<Rightarrow> recv_ev list" where
  "sent_bytes s = map Got s"

lemma sent_bytes_simps [simp]:
  "sent_bytes [] = []" "sent_bytes (x # s) = Got x # sent_bytes s"
  "sent_bytes (s @ t) = sent_bytes s @ sent_bytes t"
  by (simp_all add: sent_bytes_def)

definition plain :: "string \<Rightarrow> bool" where
  "plain l \<longleftrightarrow> CR \<notin> set l \<and> LF \<notin> set l"

lemma plain_Cons [simp]: "plain (x # l) \<longleftrightarrow> x \<noteq> CR \<and> x \<noteq> LF \<and> plain l"
  by (auto simp: plain_def)

lemma read_line_append:
  "plain l \<Longrightarrow> length l \<le> k \<Longrightarrow>
   read_line k (sent_bytes l @ es) =
     (let (m, r) = read_line (k - length l) es in (l @ m, r))"
proof (induction l arbitrary: k)
  case Nil
  then show ?case by simp
next
  case (Cons x l)
  then obtain k' where "k = Suc k'" by (cases k) auto
  with Cons show ?case by (simp split: prod.splits)
qed

datatype eol = EolLF | EolCR | EolCRLF

fun eol_bytes :: "eol \<Rightarrow> string" where
  "eol_bytes EolLF = [LF]"
| "eol_bytes EolCR = [CR]"
| "eol_bytes EolCRLF = [CR, LF]"

definition starts_lf :: "recv_ev list \<Rightarrow> bool" where
  "starts_lf es = (case es of Got x # r \<Rightarrow> x = LF | _ \<Rightarrow> False)"

definition starts_fail :: "recv_ev list \<Rightarrow> bool" where
  "starts_fail es = (case es of Fail # r \<Rightarrow> True | _ \<Rightarrow> False)"

lemma drop_lf_id: "\<not> starts_lf es \<Longrightarrow> \<not> starts_fail es \<Longrightarrow> drop_lf es = es"
  by (cases es rule: drop_lf.cases) (auto simp: starts_lf_def starts_fail_def)

lemma read_line_eol:
  assumes "plain l" "length l < k" "eol = EolCR \<Longrightarrow> \<not> starts_lf es \<and> \<not> starts_fail es"
  shows "read_line k (sent_bytes (l @ eol_bytes eol) @ es) = (l @ [LF], es)"
proof -
  obtain m where "k - length l = Suc m" using assms(2) by (cases "k - length l") auto
  with assms show ?thesis
    by (cases eol) (auto simp: read_line_append drop_lf_id)
qed

lemma skip_lines_header:
  assumes "plain l" "l \<noteq> []" "length l < SERVER_BUFF_SZ - 1"
    "eol = EolCR \<Longrightarrow> \<not> starts_lf es \<and> \<not> starts_fail es"
  shows "skip_lines (sent_bytes (l @ eol_bytes eol) @ es) = skip_lines es"
  using assms(2) read_line_eol [OF assms(1,3,4)]
  by (subst skip_lines.simps) (auto split: list.splits simp: append_eq_Cons_conv)

lemma skip_lines_blank:
  assumes "eol = EolCR \<Longrightarrow> \<not> starts_lf es \<and> \<not> starts_fail es"
  shows "skip_lines (sent_bytes (eol_bytes eol) @ es) = es"
  using read_line_eol [of "[]" "SERVER_BUFF_SZ - 1" eol es] assms
  by (subst skip_lines.simps) (simp add: plain_def SERVER_BUFF_SZ_def)

definition header_block :: "string list \<Rightarrow> string" where
  \<comment> \<open>header lines and the empty line, each ended by CR LF\<close>
  "header_block hs = concat (map (\<lambda>h. h @ [CR, LF]) hs) @ [CR, LF]"

definition header_line :: "string \<Rightarrow> bool" where
  "header_line h \<longleftrightarrow> plain h \<and> h \<noteq> [] \<and> length h < SERVER_BUFF_SZ - 1"

lemma skip_lines_block:
  "\<forall>h \<in> set hs. header_line h \<Longrightarrow> skip_lines (sent_bytes (header_block hs) @ es) = es"
proof (induction hs)
  case Nil
  then show ?case using skip_lines_blank [of EolCRLF es] by (simp add: header_block_def)
next
  case (Cons h hs)
  then show ?case
    using skip_lines_header [of h EolCRLF "sent_bytes (header_block hs) @ es"]
    by (simp add: header_block_def header_line_def)
qed

section \<open>Properties\<close>

text \<open>C4: \<open>httpd_get_line\<close> stores exactly the line of the abstract reader and a NUL, keeps
  within the size it is given, leaves the bytes behind the NUL alone and consumes what the
  abstract reader consumes.\<close>

theorem get_line_refines:
  assumes "0 < sz" "sz \<le> length buf" "httpd_get_line buf sz es = (n, b, r)"
  shows "n < sz \<and> (take n b, r) = read_line (sz - 1) es \<and> b ! n = NUL \<and>
    length b = length buf \<and> (\<forall>i. n < i \<longrightarrow> i < length buf \<longrightarrow> b ! i = buf ! i)"
proof -
  obtain l q where l: "read_line (sz - 1) es = (l, q)" by (cases "read_line (sz - 1) es")
  have "length l < sz" using read_line_length [of "sz - 1" es] assms(1) l by simp
  with l assms httpd_get_line_eq [OF assms(1,2), of es] show ?thesis
    by (auto simp: nth_append nth_Cons split: nat.splits intro!: arg_cong [where f = "(!) buf"])
qed

theorem get_line_refines_witness:
  "(2::nat) < 8 \<and> (take 2 [CHR ''a'', LF, NUL, NUL, NUL, NUL, NUL, NUL], [Got (CHR ''b'')]) =
     read_line 7 [Got (CHR ''a''), Got CR, Got LF, Got (CHR ''b'')]"
proof -
  have "httpd_get_line (replicate 8 NUL) 8 [Got (CHR ''a''), Got CR, Got LF, Got (CHR ''b'')] =
      (2, [CHR ''a'', LF, NUL, NUL, NUL, NUL, NUL, NUL], [Got (CHR ''b'')])"
    by (simp add: httpd_get_line_eq numeral_eq_Suc)
  from get_line_refines [OF _ _ this] show ?thesis by simp
qed

text \<open>LF, CR and CR LF all end a line and are stored as one line feed; the next read starts
  right behind the terminator.\<close>

theorem get_line_terminators:
  assumes "plain l" "length l + 1 < sz" "sz \<le> length buf"
    "eol = EolCR \<Longrightarrow> \<not> starts_lf es \<and> \<not> starts_fail es"
  shows "\<exists>b. httpd_get_line buf sz (sent_bytes (l @ eol_bytes eol) @ es) = (length l + 1, b, es) \<and>
    take (length l + 2) b = l @ [LF, NUL]"
proof -
  have "read_line (sz - 1) (sent_bytes (l @ eol_bytes eol) @ es) = (l @ [LF], es)"
    using assms by (intro read_line_eol) auto
  then show ?thesis using assms(2,3) by (simp add: httpd_get_line_eq)
qed

theorem get_line_terminators_witness:
  "\<exists>b. httpd_get_line (replicate 8 NUL) 8 (sent_bytes (''ab'' @ eol_bytes EolCR) @ [Got (CHR ''c'')]) =
     (length ''ab'' + 1, b, [Got (CHR ''c'')]) \<and> take (length ''ab'' + 2) b = ''ab'' @ [LF, NUL]"
  by (rule get_line_terminators) (auto simp: plain_def starts_lf_def starts_fail_def)

text \<open>The header loop consumes the header lines and the empty line, and nothing of the body
  behind them.\<close>

theorem discard_headers_exact:
  assumes "n > 0" "length buf = SERVER_BUFF_SZ" "cstr buf \<noteq> [LF]" "\<forall>h \<in> set hs. header_line h"
  shows "snd (snd (discard_headers n buf (sent_bytes (header_block hs) @ body))) = body"
  using assms by (simp add: discard_headers_eq skip_lines_block)

theorem discard_headers_exact_witness:
  "snd (snd (discard_headers 1 (replicate SERVER_BUFF_SZ NUL)
     (sent_bytes (header_block [''Host: a'']) @ [Got (CHR ''x'')]))) = [Got (CHR ''x'')]"
  by (rule discard_headers_exact)
    (auto simp: header_line_def plain_def SERVER_BUFF_SZ_def cstr_def)

end
