(* ===== verification/Serve.thy ===== *)
theory Serve
  imports Tables Socket
begin

text \<open>
  Responses and static files of \<open>src/src/httpd.c\<close>: \<open>httpd_resp_headers\<close>, the four
  error pages, \<open>httpd_cat_file\<close> and \<open>httpd_serve_file\<close>. The connection is a record of
  what can still be received, the arguments of the \<open>send\<close> calls so far (their results are
  ignored by the code), whether the descriptor is open, and the \<open>send\<close> call, if any, from which on the client
  has reset the connection: that call raises \<open>SIGPIPE\<close>, for which the program has no handler. The operating system is the record
  \<open>os\<close> of parameters.
\<close>

section \<open>The connection and the operating system\<close>

record conn =
  rx :: "recv_ev list"
  tx :: "string list"
  is_open :: bool
  reset_after :: "nat option"
    \<comment> \<open>the number of \<open>send\<close> calls that the client lives to see; \<open>None\<close>: all\<close>

datatype script_act =
    Script_reads  \<comment> \<open>the next byte of its standard input, for which it waits\<close>
  | Script_writes char
  | Script_exits
  | Script_loops  \<comment> \<open>it never reads, writes or exits again\<close>

type_synonym script = "string \<Rightarrow> nat \<Rightarrow> script_act"
  \<comment> \<open>what a program does next, from the input it has read and the number of bytes it has written\<close>

record os =
  os_stat :: "string \<Rightarrow> 32 word option"
    \<comment> \<open>\<open>st_mode\<close> of a path, \<open>None\<close> when \<open>stat\<close> returns -1\<close>
  os_fopen :: "string \<Rightarrow> (string \<times> bool) option"
    \<comment> \<open>the bytes \<open>fread\<close> can read, and whether a read behind them fails instead of meeting the
        end of the file; \<open>None\<close> when \<open>fopen\<close> returns NULL\<close>
  os_pipe1 :: bool
  os_pipe2 :: bool
  os_fork :: bool
  os_cgi :: "string \<Rightarrow> string list \<Rightarrow> script"
    \<comment> \<open>the program at a path, started with the environment strings the child sets\<close>
  os_pipe_room :: nat
    \<comment> \<open>how many bytes a pipe holds\<close>
  os_turns :: "nat \<Rightarrow> nat"
    \<comment> \<open>how many moves the program gets before the next one of the server, which is the \<open>n\<close>th\<close>

definition client_gone :: "conn \<Rightarrow> bool" where
  "client_gone c \<longleftrightarrow> (case reset_after c of None \<Rightarrow> False | Some k \<Rightarrow> k \<le> length (tx c))"

definition stays :: "conn \<Rightarrow> bool" where
  \<comment> \<open>the client does not reset the connection\<close>
  "stays c \<longleftrightarrow> reset_after c = None"

definition sent :: "string \<Rightarrow> conn \<Rightarrow> conn" where
  "sent s c = c\<lparr>tx := tx c @ [s]\<rparr>"

definition send :: "string \<Rightarrow> conn \<Rightarrow> conn run" where
  "send s c = (if client_gone c then Fault Broken_pipe c else Ret (sent s c))"

definition close_client :: "conn \<Rightarrow> conn" where
  "close_client c = c\<lparr>is_open := False\<rparr>"

lemma sent_simps [simp]:
  "rx (sent s c) = rx c" "tx (sent s c) = tx c @ [s]" "is_open (sent s c) = is_open c"
  "reset_after (sent s c) = reset_after c" "stays (sent s c) = stays c"
  by (simp_all add: sent_def stays_def)

lemma stays_simps [simp]:
  "stays c \<Longrightarrow> \<not> client_gone c" "stays (c\<lparr>rx := r\<rparr>) = stays c" "client_gone (c\<lparr>rx := r\<rparr>) = client_gone c"
  "stays (c\<lparr>tx := t\<rparr>) = stays c"
  by (simp_all add: stays_def client_gone_def split: option.split)

lemma send_stays [simp]: "stays c \<Longrightarrow> send s c = Ret (sent s c)"
  by (simp add: send_def)

lemma close_client_simps [simp]:
  "rx (close_client c) = rx c" "tx (close_client c) = tx c" "\<not> is_open (close_client c)"
  "client_gone (close_client c) = client_gone c"
  by (simp_all add: close_client_def client_gone_def split: option.split)

section \<open>Status line and headers\<close>

abbreviation crlf :: string where "crlf \<equiv> [CR, LF]"

definition HTTPD_HEADERS :: string where
  "HTTPD_HEADERS = ''Server: Tiny Httpd/0.2.0'' @ crlf @ ''Cache-control: no-cache'' @ crlf @
     ''Pragma: no-cache'' @ crlf @ ''Expires: 0''"

definition resp_text :: "32 word \<Rightarrow> string \<Rightarrow> string option \<Rightarrow> string option" where
  \<comment> \<open>the text in \<open>buf\<close> when \<open>send\<close> is called\<close>
  "resp_text status_code content_type message =
     do {
       b1 \<leftarrow> sprintf_at SERVER_BUFF_SZ [] (''HTTP/1.0 '' @ httpd_status_type status_code @ crlf);
       b2 \<leftarrow> sprintf_at SERVER_BUFF_SZ b1 (HTTPD_HEADERS @ crlf);
       b3 \<leftarrow> sprintf_at SERVER_BUFF_SZ b2 (''Content-Type: '' @ content_type @ crlf @ crlf);
       (case message of
          None \<Rightarrow> Some b3
        | Some m \<Rightarrow> if length m > 0 then sprintf_at SERVER_BUFF_SZ b3 (m @ crlf) else Some b3)
     }"

definition httpd_resp_headers :: "conn \<Rightarrow> 32 word \<Rightarrow> string \<Rightarrow> string option \<Rightarrow> conn run" where
  "httpd_resp_headers c status_code content_type message =
     (case resp_text status_code content_type message of
        None \<Rightarrow> Fault Buffer_overflow c
      | Some buf \<Rightarrow> send buf c)"

section \<open>Error pages\<close>

definition page :: "string \<Rightarrow> string \<Rightarrow> string option" where
  \<comment> \<open>the three \<open>sprintf\<close> calls that every error function makes into its \<open>buf\<close>\<close>
  "page title text =
     do {
       b1 \<leftarrow> sprintf_at SERVER_BUFF_SZ []
               (''<HTML>'' @ crlf @ ''<HEAD>'' @ crlf @ ''<TITLE>'' @ title @ ''</TITLE>'' @ crlf @
                ''</HEAD>'' @ crlf @ ''<BODY>'' @ crlf);
       b2 \<leftarrow> sprintf_at SERVER_BUFF_SZ b1 (''<H1>'' @ text @ ''</H1>'');
       sprintf_at SERVER_BUFF_SZ b2 (crlf @ ''</BODY>'' @ crlf @ ''</HTML>'')
     }"

definition send_page :: "conn \<Rightarrow> 32 word \<Rightarrow> string option \<Rightarrow> conn run" where
  "send_page c code buf =
     (case buf of
        None \<Rightarrow> Fault Buffer_overflow c
      | Some b \<Rightarrow> httpd_resp_headers c code MINE_TYPE_DEFAULT (Some b))"

definition bad_request_text :: string where
  "bad_request_text =
     ''Your browser sent a bad request, such as a POST without a Content-Length.''"

definition httpd_error_bad_request :: "conn \<Rightarrow> conn run" where
  "httpd_error_bad_request c = send_page c 400 (page ''Bad Request'' bad_request_text)"

definition cannot_execute_text :: string where
  "cannot_execute_text = ''Error prohibited CGI execution.''"

definition httpd_error_cannot_execute :: "conn \<Rightarrow> conn run" where
  "httpd_error_cannot_execute c =
     send_page c 500 (page ''Internal Server Error'' cannot_execute_text)"

definition not_found_text :: string where
  "not_found_text = ''The server could not fulfill your request because the resource specified is '' @
     ''unavailable or nonexistent.''"

definition httpd_error_not_found :: "conn \<Rightarrow> conn run" where
  "httpd_error_not_found c = send_page c 404 (page ''Not Found'' not_found_text)"

definition unimplemented_text :: string where
  "unimplemented_text = ''HTTP request method not supported.''"

definition httpd_error_unimplemented :: "conn \<Rightarrow> conn run" where
  "httpd_error_unimplemented c =
     send_page c 501 (page ''Method Not Implemented'' unimplemented_text)"

section \<open>Files\<close>

partial_function (option) cat_loop ::
  "string \<Rightarrow> bool \<Rightarrow> bool \<Rightarrow> conn \<Rightarrow> conn run option" where
  \<comment> \<open>\<open>while (!feof(resource))\<close>: \<open>fread\<close> takes up to \<open>sizeof(buf)\<close> bytes; a short read sets
      the end-of-file indicator, unless it is short because of a read error; \<open>None\<close> is a loop that
      never ends\<close>
  "cat_loop rest err eof c =
     (if eof then Some (Ret c)
      else (case send (take SERVER_BUFF_SZ rest) c of
              Ret c1 \<Rightarrow>
                cat_loop (drop SERVER_BUFF_SZ rest) err
                  (length (take SERVER_BUFF_SZ rest) < SERVER_BUFF_SZ \<and> \<not> err) c1
            | r \<Rightarrow> Some r))"

definition httpd_cat_file :: "conn \<Rightarrow> string \<times> bool \<Rightarrow> conn run" where
  "httpd_cat_file c resource =
     (case cat_loop (fst resource) (snd resource) False c of
        None \<Rightarrow> Hang
      | Some r \<Rightarrow> r)"

definition header_buf :: string where
  \<comment> \<open>\<open>char buf[SERVER_BUFF_SZ] = {0}; buf[0] = 'A'; buf[1] = '\0';\<close>\<close>
  "header_buf = put (put (replicate SERVER_BUFF_SZ NUL) 0 (CHR ''A'')) 1 NUL"

definition httpd_serve_file :: "os \<Rightarrow> conn \<Rightarrow> string \<Rightarrow> conn run" where
  "httpd_serve_file os c filename =
     (let (numchars, buf, es) = discard_headers 1 header_buf (rx c);
          c1 = c\<lparr>rx := es\<rparr>
      in case os_fopen os filename of
           None \<Rightarrow> bind_run (httpd_error_not_found c1) (\<lambda>c2. Fault Null_deref c2)
             \<comment> \<open>\<open>fclose(resource)\<close> with \<open>resource == NULL\<close>\<close>
         | Some resource \<Rightarrow>
             bind_run (httpd_resp_headers c1 200 (httpd_content_type (Some filename)) None)
               (\<lambda>c2. httpd_cat_file c2 resource))"

section \<open>No response overruns its buffer\<close>

lemma sprintf_at_SomeI: "length p + length s < cap \<Longrightarrow> sprintf_at cap p s = Some (p @ s)"
  by (simp add: sprintf_at_def)

definition status_line :: "32 word \<Rightarrow> string" where
  "status_line code = ''HTTP/1.0 '' @ httpd_status_type code @ crlf"

definition head_text :: "32 word \<Rightarrow> string \<Rightarrow> string" where
  "head_text code content_type =
     status_line code @ HTTPD_HEADERS @ crlf @ ''Content-Type: '' @ content_type @ crlf @ crlf"

lemma length_HTTPD_HEADERS: "length HTTPD_HEADERS = 79"
  by (simp add: HTTPD_HEADERS_def)

lemma resp_text_Some:
  assumes "length ct \<le> 64" "\<And>m. msg = Some m \<Longrightarrow> length m \<le> 700"
  shows "resp_text code ct msg =
    Some (head_text code ct @ (case msg of None \<Rightarrow> [] | Some m \<Rightarrow> if m = [] then [] else m @ crlf))"
proof -
  have "length (httpd_status_type code) \<le> 40" by (rule status_type_length)
  then show ?thesis
    using assms
    by (auto simp: resp_text_def head_text_def status_line_def SERVER_BUFF_SZ_def sprintf_at_def
        length_HTTPD_HEADERS split: option.splits)
qed

definition page_text :: "string \<Rightarrow> string \<Rightarrow> string" where
  "page_text title text =
     ''<HTML>'' @ crlf @ ''<HEAD>'' @ crlf @ ''<TITLE>'' @ title @ ''</TITLE>'' @ crlf @
     ''</HEAD>'' @ crlf @ ''<BODY>'' @ crlf @ ''<H1>'' @ text @ ''</H1>'' @
     crlf @ ''</BODY>'' @ crlf @ ''</HTML>''"

lemma page_Some:
  "length title + length text \<le> 300 \<Longrightarrow> page title text = Some (page_text title text)"
  by (simp add: page_def page_text_def sprintf_at_def SERVER_BUFF_SZ_def)

lemma send_page_Ret:
  assumes "length title + length text \<le> 300"
  shows "send_page c code (page title text) =
    send (head_text code MINE_TYPE_DEFAULT @ page_text title text @ crlf) c"
proof -
  have "length (page_text title text) \<le> 700" using assms by (simp add: page_text_def)
  then have "resp_text code MINE_TYPE_DEFAULT (Some (page_text title text)) =
      Some (head_text code MINE_TYPE_DEFAULT @ page_text title text @ crlf)"
    by (subst resp_text_Some) (auto simp: MINE_TYPE_DEFAULT_def page_text_def)
  then show ?thesis
    using assms by (simp add: send_page_def page_Some httpd_resp_headers_def)
qed

definition error_response :: "32 word \<Rightarrow> string \<Rightarrow> string \<Rightarrow> string" where
  "error_response code title text =
     head_text code MINE_TYPE_DEFAULT @ page_text title text @ crlf"

lemmas error_pages =
  httpd_error_bad_request_def httpd_error_cannot_execute_def httpd_error_not_found_def
  httpd_error_unimplemented_def
  bad_request_text_def cannot_execute_text_def not_found_text_def unimplemented_text_def

lemma error_pages_send [simp]:
  "httpd_error_bad_request c = send (error_response 400 ''Bad Request'' bad_request_text) c"
  "httpd_error_cannot_execute c =
     send (error_response 500 ''Internal Server Error'' cannot_execute_text) c"
  "httpd_error_not_found c = send (error_response 404 ''Not Found'' not_found_text) c"
  "httpd_error_unimplemented c =
     send (error_response 501 ''Method Not Implemented'' unimplemented_text) c"
  by (simp_all add: error_response_def error_pages send_page_Ret)

lemma resp_headers_send [simp]:
  "httpd_resp_headers c code (httpd_content_type f) None = send (head_text code (httpd_content_type f)) c"
  unfolding httpd_resp_headers_def
  by (subst resp_text_Some) (simp_all add: content_type_length)

lemma error_pages_length:
  "length (error_response 400 ''Bad Request'' bad_request_text) < SERVER_BUFF_SZ"
  "length (error_response 500 ''Internal Server Error'' cannot_execute_text) < SERVER_BUFF_SZ"
  "length (error_response 404 ''Not Found'' not_found_text) < SERVER_BUFF_SZ"
  "length (error_response 501 ''Method Not Implemented'' unimplemented_text) < SERVER_BUFF_SZ"
  by (simp_all add: error_response_def head_text_def status_line_def length_HTTPD_HEADERS
      page_text_def SERVER_BUFF_SZ_def error_pages MINE_TYPE_DEFAULT_def)

section \<open>Copying a file\<close>

lemma cat_loop_done [simp]: "cat_loop rest err True c = Some (Ret c)"
  by (simp add: cat_loop.simps)

lemma cat_loop_step:
  "cat_loop rest err False c =
     (case send (take SERVER_BUFF_SZ rest) c of
        Ret c1 \<Rightarrow> cat_loop (drop SERVER_BUFF_SZ rest) err (length rest < SERVER_BUFF_SZ \<and> \<not> err) c1
      | r \<Rightarrow> Some r)"
  by (subst cat_loop.simps) (auto simp: min_def split: run.split)

function chunks :: "string \<Rightarrow> string list" where
  "chunks s = (if length s < SERVER_BUFF_SZ then [s]
               else take SERVER_BUFF_SZ s # chunks (drop SERVER_BUFF_SZ s))"
  by pat_completeness auto
termination
  by (relation "measure length") (auto simp: SERVER_BUFF_SZ_def)

declare chunks.simps [simp del]

lemma chunks_facts:
  "concat (chunks s) = s \<and> (\<forall>k \<in> set (chunks s). length k \<le> SERVER_BUFF_SZ) \<and>
   length (chunks s) = length s div SERVER_BUFF_SZ + 1"
proof (induction s rule: chunks.induct)
  case (1 s)
  show ?case
  proof (cases "length s < SERVER_BUFF_SZ")
    case True
    then show ?thesis by (simp add: chunks.simps [of s])
  next
    case False
    then have "length s div SERVER_BUFF_SZ = length (drop SERVER_BUFF_SZ s) div SERVER_BUFF_SZ + 1"
      by (simp add: SERVER_BUFF_SZ_def)
    with False "1.IH" show ?thesis by (simp add: chunks.simps [of s])
  qed
qed

lemma cat_loop_eq: "stays c \<Longrightarrow> cat_loop s False False c = Some (Ret (c\<lparr>tx := tx c @ chunks s\<rparr>))"
proof (induction s arbitrary: c rule: chunks.induct)
  case (1 s)
  show ?case
  proof (cases "length s < SERVER_BUFF_SZ")
    case True
    then show ?thesis using "1.prems" by (simp add: cat_loop_step chunks.simps [of s] sent_def)
  next
    case False
    then show ?thesis
      using "1.IH" [OF False] "1.prems"
      by (simp add: cat_loop_step [of s] chunks.simps [of s] sent_def)
  qed
qed

lemma cat_loop_error:
  assumes "stays c"
  shows "cat_loop s True False c = None"
proof (rule ccontr)
  assume "cat_loop s True False c \<noteq> None"
  then obtain r where ret: "cat_loop s True False c = Some r" by auto
  have "stays c \<and> True \<longrightarrow> False"
  proof (rule cat_loop.raw_induct [where P = "\<lambda>rest err eof c r. stays c \<and> err \<longrightarrow> eof", OF _ ret])
    fix f :: "string \<Rightarrow> bool \<Rightarrow> bool \<Rightarrow> conn \<Rightarrow> conn run option" and rest err eof c r
    assume IH: "\<And>rest err eof c r. f rest err eof c = Some r \<Longrightarrow> stays c \<and> err \<longrightarrow> eof"
      and eq: "(if eof then Some (Ret c)
        else (case send (take SERVER_BUFF_SZ rest) c of
                Ret c1 \<Rightarrow> f (drop SERVER_BUFF_SZ rest) err (length (take SERVER_BUFF_SZ rest) < SERVER_BUFF_SZ \<and> \<not> err) c1
              | r \<Rightarrow> Some r)) = Some r"
    show "stays c \<and> err \<longrightarrow> eof"
    proof (cases "eof \<or> \<not> stays c")
      case False
      with eq IH [of "drop SERVER_BUFF_SZ rest" err _ "sent (take SERVER_BUFF_SZ rest) c" r] show ?thesis
        by (cases err) auto
    qed auto
  qed
  with assms show False by simp
qed

definition only_cut :: "conn \<Rightarrow> conn run \<Rightarrow> bool" where
  \<comment> \<open>more is sent, and nothing goes wrong but a client that is gone\<close>
  "only_cut c r \<longleftrightarrow>
     (case r of
        Ret c' \<Rightarrow> \<exists>p. tx c' = tx c @ p
      | Fault e c' \<Rightarrow> e = Broken_pipe \<and> client_gone c'
      | Hang \<Rightarrow> False)"

lemma only_cut_send [simp]: "only_cut c (send s c)"
  by (simp add: only_cut_def send_def)

lemma only_cut_more: "tx c1 = tx c @ p \<Longrightarrow> only_cut c1 r \<Longrightarrow> only_cut c r"
  by (auto simp: only_cut_def split: run.splits)

lemma cat_loop_ends: "\<exists>r. cat_loop s False False c = Some r \<and> only_cut c r"
proof (induction s arbitrary: c rule: chunks.induct)
  case (1 s)
  show ?case
  proof (cases "client_gone c \<or> length s < SERVER_BUFF_SZ")
    case True
    then show ?thesis by (auto simp: cat_loop_step send_def only_cut_def)
  next
    case False
    then obtain r where "cat_loop (drop SERVER_BUFF_SZ s) False False (sent (take SERVER_BUFF_SZ s) c) = Some r"
      "only_cut (sent (take SERVER_BUFF_SZ s) c) r" using "1.IH" by blast
    with False show ?thesis using only_cut_more [of "sent (take SERVER_BUFF_SZ s) c" c "[take SERVER_BUFF_SZ s]" r]
      by (simp add: cat_loop_step [of s] send_def)
  qed
qed

lemma cat_loop_broken: "cat_loop s err eof c = Some r \<Longrightarrow> only_cut c r"
proof (rule cat_loop.raw_induct [where P = "\<lambda>rest err eof c r. only_cut c r"])
  fix f :: "string \<Rightarrow> bool \<Rightarrow> bool \<Rightarrow> conn \<Rightarrow> conn run option" and rest err eof c r
  assume IH: "\<And>rest err eof c r. f rest err eof c = Some r \<Longrightarrow> only_cut c r"
    and eq: "(if eof then Some (Ret c)
      else (case send (take SERVER_BUFF_SZ rest) c of
              Ret c1 \<Rightarrow> f (drop SERVER_BUFF_SZ rest) err (length (take SERVER_BUFF_SZ rest) < SERVER_BUFF_SZ \<and> \<not> err) c1
            | r \<Rightarrow> Some r)) = Some r"
  let ?b = "take SERVER_BUFF_SZ rest"
  show "only_cut c r"
  proof (cases "eof \<or> client_gone c")
    case True
    with eq show ?thesis by (auto simp: send_def only_cut_def split: if_splits)
  next
    case False
    with eq have "only_cut (sent ?b c) r" by (intro IH) (simp add: send_def)
    then show ?thesis by (rule only_cut_more [rotated]) simp
  qed
qed

lemma cat_file_eq:
  "stays c \<Longrightarrow> httpd_cat_file c (s, err) = (if err then Hang else Ret (c\<lparr>tx := tx c @ chunks s\<rparr>))"
  by (cases err) (simp_all add: httpd_cat_file_def cat_loop_eq cat_loop_error)

lemma cat_file_end: "httpd_cat_file c (s, err) = Hang \<and> err \<or> only_cut c (httpd_cat_file c (s, err))"
proof (cases "cat_loop s err False c")
  case None
  then have err using cat_loop_ends [of s c] by (cases err) auto
  with None show ?thesis by (simp add: httpd_cat_file_def)
next
  case (Some r)
  with cat_loop_broken [OF Some] show ?thesis by (simp add: httpd_cat_file_def)
qed

lemma header_buf_ok: "cstr header_buf \<noteq> [LF]" "length header_buf = SERVER_BUFF_SZ"
proof -
  have "replicate SERVER_BUFF_SZ NUL = NUL # NUL # replicate 1022 NUL"
    by (simp add: SERVER_BUFF_SZ_def numeral_eq_Suc)
  then show "cstr header_buf \<noteq> [LF]" by (simp add: header_buf_def put_def)
qed (simp add: header_buf_def)

lemma serve_file_unfold:
  "httpd_serve_file os c f =
     (let c1 = c\<lparr>rx := skip_lines (rx c)\<rparr>
      in case os_fopen os f of
           None \<Rightarrow> bind_run (send (error_response 404 ''Not Found'' not_found_text) c1) (Fault Null_deref)
         | Some resource \<Rightarrow>
             bind_run (send (head_text 200 (httpd_content_type (Some f))) c1) (\<lambda>c2. httpd_cat_file c2 resource))"
proof -
  have "snd (snd (discard_headers 1 header_buf (rx c))) = skip_lines (rx c)"
    using header_buf_ok by (simp add: discard_headers_eq)
  then show ?thesis
    by (auto simp: httpd_serve_file_def Let_def split: option.splits prod.splits)
qed

lemma serve_file_eq:
  assumes "stays c"
  shows "httpd_serve_file os c f =
     (let c1 = c\<lparr>rx := skip_lines (rx c)\<rparr>
      in case os_fopen os f of
           None \<Rightarrow> Fault Null_deref (sent (error_response 404 ''Not Found'' not_found_text) c1)
         | Some (s, err) \<Rightarrow>
             if err then Hang
             else Ret (c1\<lparr>tx := tx c @ head_text 200 (httpd_content_type (Some f)) # chunks s\<rparr>))"
  using assms by (auto simp: serve_file_unfold cat_file_eq Let_def sent_def split: option.splits)

section \<open>Properties\<close>

text \<open>No response overruns the 1024 bytes of its buffer: the header of every status code and
  every file name, and each of the four error pages, is sent whole.\<close>

theorem responses_fit:
  "httpd_resp_headers c code (httpd_content_type f) None = send (head_text code (httpd_content_type f)) c \<and>
   length (head_text code (httpd_content_type f)) < SERVER_BUFF_SZ \<and>
   (\<exists>t. length t < SERVER_BUFF_SZ \<and> httpd_error_bad_request c = send t c) \<and>
   (\<exists>t. length t < SERVER_BUFF_SZ \<and> httpd_error_cannot_execute c = send t c) \<and>
   (\<exists>t. length t < SERVER_BUFF_SZ \<and> httpd_error_not_found c = send t c) \<and>
   (\<exists>t. length t < SERVER_BUFF_SZ \<and> httpd_error_unimplemented c = send t c)"
proof (intro conjI)
  show "length (head_text code (httpd_content_type f)) < SERVER_BUFF_SZ"
    using content_type_length [of f] status_type_length [of code]
    by (simp add: head_text_def status_line_def length_HTTPD_HEADERS SERVER_BUFF_SZ_def)
qed (auto intro: error_pages_length)

end
