(* ===== verification/Cgi.thy ===== *)
theory Cgi
  imports Serve
begin

text \<open>
  \<open>httpd_execute_cgi\<close> of \<open>src/src/httpd.c\<close>: the two ways it reads the request headers,
  the environment the child process sets up in its fixed-size arrays, and the two processes behind the
  \<open>fork\<close>: the server, which first writes the request body into one pipe and then copies the other pipe to the client, and
  the program, which is a parameter. They run in turns; a pipe holds a bounded number of bytes, a full or empty one makes
  its writer or reader wait, and a write to a program that is gone raises \<open>SIGPIPE\<close>. The server closes its end of the
  input pipe only behind the output loop, so the program never sees an end of its input.
\<close>

section \<open>Headers of a POST\<close>

function post_headers ::
  "nat \<Rightarrow> string \<Rightarrow> int \<Rightarrow> recv_ev list \<Rightarrow> int \<times> string \<times> recv_ev list" where
  \<comment> \<open>the \<open>while\<close> loop of the POST branch; \<open>buf[15]\<close> is overwritten in every line\<close>
  "post_headers numchars buf content_length es =
     (if numchars > 0 \<and> cstr buf \<noteq> [LF]
      then (let buf1 = put buf 15 NUL;
                len1 = (if strcaseeq buf1 ''Content-Length:'' then atoi (cstr (drop 16 buf1))
                        else content_length);
                (n, buf2, es2) = httpd_get_line buf1 SERVER_BUFF_SZ es
            in post_headers n buf2 len1 es2)
      else (content_length, buf, es))"
  by pat_completeness auto
termination
  by (relation "measure (\<lambda>(n, buf, len, es). 2 * length es + (if n > 0 then 1 else 0))")
    (auto split: prod.splits dest!: httpd_get_line_progress httpd_get_line_progress [OF sym])

declare post_headers.simps [simp del]

section \<open>The child\<close>

definition ENV_SZ :: nat where
  "ENV_SZ = 255"

definition child_env :: "string \<Rightarrow> string \<Rightarrow> int \<Rightarrow> string list option" where
  \<comment> \<open>\<open>meth_env\<close>, \<open>query_env\<close> and \<open>length_env\<close>; \<open>None\<close> when a \<open>sprintf\<close> runs over its array\<close>
  "child_env method query_string content_length =
     do {
       meth_env \<leftarrow> sprintf_at ENV_SZ [] (''REQUEST_METHOD='' @ method);
       (if strcaseeq method ''GET''
        then do {
          query_env \<leftarrow> sprintf_at ENV_SZ [] (''QUERY_STRING='' @ query_string);
          Some [meth_env, query_env]
        }
        else do {
          length_env \<leftarrow> sprintf_at ENV_SZ [] (''CONTENT_LENGTH='' @ dec_int content_length);
          Some [meth_env, length_env]
        })
     }"

section \<open>The parent and the program\<close>

record cgi_state =
  cs_conn :: conn
  cs_char :: char  \<comment> \<open>\<open>c\<close>\<close>
  cs_left :: nat  \<comment> \<open>\<open>content_length - i\<close>, 0 when the \<open>for\<close> loop is over\<close>
  cs_in :: string  \<comment> \<open>the bytes in \<open>cgi_input\<close>\<close>
  cs_out :: string  \<comment> \<open>the bytes in \<open>cgi_output\<close>\<close>
  cs_took :: string  \<comment> \<open>what the program has read\<close>
  cs_wrote :: nat  \<comment> \<open>how much it has written\<close>
  cs_ended :: bool  \<comment> \<open>it has exited; its ends of the pipes are closed\<close>

definition script_move :: "script \<Rightarrow> nat \<Rightarrow> cgi_state \<Rightarrow> cgi_state" where
  \<comment> \<open>one move of the program; it stays where it is while it has to wait\<close>
  "script_move prog room s =
     (if cs_ended s then s
      else (case prog (cs_took s) (cs_wrote s) of
              Script_reads \<Rightarrow>
                (case cs_in s of
                   [] \<Rightarrow> s
                 | x # xs \<Rightarrow> s\<lparr>cs_in := xs, cs_took := cs_took s @ [x]\<rparr>)
            | Script_writes x \<Rightarrow>
                (if length (cs_out s) < room then s\<lparr>cs_out := cs_out s @ [x], cs_wrote := cs_wrote s + 1\<rparr> else s)
            | Script_exits \<Rightarrow> s\<lparr>cs_ended := True\<rparr>
            | Script_loops \<Rightarrow> s))"

definition server_move :: "nat \<Rightarrow> cgi_state \<Rightarrow> conn run + cgi_state" where
  \<comment> \<open>one round of \<open>recv(client, &c, 1, 0); write(cgi_input[1], &c, 1);\<close> for \<open>i < content_length\<close>, the result of
      \<open>recv\<close> not being looked at; then of \<open>while (read(cgi_output[0], &c, 1) > 0) send(client, &c, 1, 0);\<close>,
      which ends when the program has; \<open>Inl\<close>: the server is through\<close>
  "server_move room s =
     (case cs_left s of
        Suc n \<Rightarrow>
          (let (r, c1, es) = recv1 (cs_char s) (rx (cs_conn s))
           in if cs_ended s then Inl (Fault Broken_pipe ((cs_conn s)\<lparr>rx := es\<rparr>))
              else if length (cs_in s) < room
              then Inr (s\<lparr>cs_conn := (cs_conn s)\<lparr>rx := es\<rparr>, cs_char := c1, cs_left := n, cs_in := cs_in s @ [c1]\<rparr>)
              else Inr s)
      | 0 \<Rightarrow>
          (case cs_out s of
             x # xs \<Rightarrow>
               (case send [x] (cs_conn s) of
                  Ret c \<Rightarrow> Inr (s\<lparr>cs_conn := c, cs_out := xs\<rparr>)
                | r \<Rightarrow> Inl r)
           | [] \<Rightarrow> if cs_ended s then Inl (Ret (cs_conn s)) else Inr s))"

partial_function (option) cgi_rounds ::
  "script \<Rightarrow> nat \<Rightarrow> (nat \<Rightarrow> nat) \<Rightarrow> nat \<Rightarrow> cgi_state \<Rightarrow> conn run option" where
  \<comment> \<open>the two processes from the \<open>k\<close>th move of the server on; \<open>None\<close>: the server never gets through\<close>
  "cgi_rounds prog room turns k s =
     (case server_move room ((script_move prog room ^^ turns k) s) of
        Inl r \<Rightarrow> Some r
      | Inr s1 \<Rightarrow> cgi_rounds prog room turns (Suc k) s1)"

definition cgi_start :: "conn \<Rightarrow> nat \<Rightarrow> cgi_state" where
  "cgi_start c n =
     \<lparr>cs_conn = c, cs_char = NUL, cs_left = n, cs_in = [], cs_out = [], cs_took = [], cs_wrote = 0, cs_ended = False\<rparr>"

definition cgi_run :: "os \<Rightarrow> conn \<Rightarrow> string \<Rightarrow> string \<Rightarrow> string \<Rightarrow> int \<Rightarrow> conn run" where
  \<comment> \<open>from the \<open>fork\<close> on, in both processes\<close>
  "cgi_run os c path method query_string content_length =
     (case child_env method query_string content_length of
        None \<Rightarrow> Fault Buffer_overflow c
      | Some env \<Rightarrow>
          (case cgi_rounds (os_cgi os path env) (os_pipe_room os) (os_turns os) 0
                  (cgi_start c (if strcaseeq method ''POST'' then nat content_length else 0)) of
             None \<Rightarrow> Hang
           | Some r \<Rightarrow> r))"

section \<open>\<open>httpd_execute_cgi\<close>\<close>

definition cgi_headers :: "string \<Rightarrow> recv_ev list \<Rightarrow> int \<times> recv_ev list" where
  \<comment> \<open>the header loops: \<open>content_length\<close> and what is left to receive\<close>
  "cgi_headers method es =
     (if strcaseeq method ''GET''
      then (let (n, buf, es1) = discard_headers 1 header_buf es in (-1, es1))
      else (let (n, buf1, es1) = httpd_get_line header_buf SERVER_BUFF_SZ es;
                (len, buf2, es2) = post_headers n buf1 (-1) es1
            in (len, es2)))"

definition status_200 :: string where
  "status_200 = ''HTTP/1.0 200 OK'' @ crlf"

definition httpd_execute_cgi :: "os \<Rightarrow> conn \<Rightarrow> string \<Rightarrow> string \<Rightarrow> string \<Rightarrow> conn run" where
  "httpd_execute_cgi os c path method query_string =
     (let (content_length, es) = cgi_headers method (rx c);
          c1 = c\<lparr>rx := es\<rparr>
      in if \<not> strcaseeq method ''GET'' \<and> content_length = -1 then httpd_error_bad_request c1
         else bind_run (send status_200 c1) (\<lambda>c2.
                if \<not> os_pipe1 os then httpd_error_cannot_execute c2
                else if \<not> os_pipe2 os then httpd_error_cannot_execute c2
                else if \<not> os_fork os then httpd_error_cannot_execute c2
                else cgi_run os c2 path method query_string content_length))"

section \<open>The header loop of a POST\<close>

definition length_step :: "string \<Rightarrow> int \<Rightarrow> int" where
  \<comment> \<open>what one header line (without its line feed) does to \<open>content_length\<close>\<close>
  "length_step h len =
     (if strcaseeq (take 15 (h @ [LF])) ''Content-Length:'' then atoi (drop 16 (h @ [LF])) else len)"

lemma post_step_line:
  assumes "b = l @ NUL # t" "NUL \<notin> set l" "LF \<in> set l" "length b = SERVER_BUFF_SZ"
  shows "(if strcaseeq (put b 15 NUL) ''Content-Length:''
          then atoi (cstr (drop 16 (put b 15 NUL))) else len) =
         (if strcaseeq (take 15 l) ''Content-Length:'' then atoi (drop 16 l) else len)"
proof (cases "15 < length l")
  case True
  then have put: "put b 15 NUL = take 15 l @ NUL # drop 16 l @ NUL # t"
    by (simp add: assms(1) put_def upd_conv_take_nth_drop)
  have nul: "NUL \<notin> set (take 15 l)" "NUL \<notin> set (drop 16 l)"
    using assms(2) by (auto dest: in_set_takeD in_set_dropD)
  then have "cstr (put b 15 NUL) = take 15 l" "cstr (drop 16 (put b 15 NUL)) = drop 16 l"
    using True by (simp_all add: put cstr_append_NUL)
  with nul show ?thesis by (simp add: strcaseeq_def cstr_id)
next
  case False
  then have "cstr (put b 15 NUL) = l"
    using assms(1,2,4)
    by (cases "length l = 15")
      (simp_all add: put_def list_update_append cstr_append_NUL SERVER_BUFF_SZ_def
        split: nat.splits)
  moreover have "\<not> strcaseeq l ''Content-Length:''"
  proof
    assume "strcaseeq l ''Content-Length:''"
    then have "map tolower l = map tolower ''Content-Length:''"
      using assms(2) by (simp add: strcaseeq_def cstr_id)
    then have "tolower LF \<in> set (map tolower ''Content-Length:'')"
      using assms(3) by (metis image_eqI list.set_map)
    moreover have "tolower LF \<notin> set (map tolower ''Content-Length:'')" by code_simp
    ultimately show False by blast
  qed
  ultimately show ?thesis using False assms(2) by (simp add: strcaseeq_def cstr_id)
qed

definition text_header :: "string \<Rightarrow> bool" where
  "text_header h \<longleftrightarrow> header_line h \<and> NUL \<notin> set h"

lemma header_block_read:
  assumes "length buf = SERVER_BUFF_SZ" "header_line h"
  shows "\<exists>t. httpd_get_line buf SERVER_BUFF_SZ (sent_bytes (h @ [CR, LF]) @ es) =
      (Suc (length h), (h @ [LF]) @ NUL # t, es) \<and> length ((h @ [LF]) @ NUL # t) = SERVER_BUFF_SZ"
proof -
  have "read_line (SERVER_BUFF_SZ - 1) (sent_bytes (h @ eol_bytes EolCRLF) @ es) = (h @ [LF], es)"
    using assms(2) by (intro read_line_eol) (auto simp: header_line_def)
  then show ?thesis
    using assms by (simp add: httpd_get_line_eq SERVER_BUFF_SZ_def header_line_def)
qed

lemma blank_line_read:
  assumes "length buf = SERVER_BUFF_SZ"
  shows "\<exists>t. httpd_get_line buf SERVER_BUFF_SZ (sent_bytes [CR, LF] @ es) = (1, LF # NUL # t, es)"
proof -
  have "read_line (SERVER_BUFF_SZ - 1) (sent_bytes ([] @ eol_bytes EolCRLF) @ es) = ([LF], es)"
    using read_line_eol [of "[]" "SERVER_BUFF_SZ - 1" EolCRLF es]
    by (simp add: plain_def SERVER_BUFF_SZ_def)
  then show ?thesis using assms by (simp add: httpd_get_line_eq SERVER_BUFF_SZ_def)
qed

lemma post_headers_block:
  assumes "\<forall>h \<in> set hs. text_header h" "length buf = SERVER_BUFF_SZ"
    "httpd_get_line buf SERVER_BUFF_SZ (sent_bytes (header_block hs) @ body) = (n, b, r)"
  shows "\<exists>b'. post_headers n b len r = (fold length_step hs len, b', body)"
  using assms
proof (induction hs arbitrary: buf n b r len)
  case Nil
  then obtain t where "n = 1 \<and> b = LF # NUL # t \<and> r = body"
    using blank_line_read [of buf body] by (auto simp: header_block_def)
  then show ?case by (auto simp: post_headers.simps [of "Suc 0"])
next
  case (Cons h hs)
  let ?r = "sent_bytes (header_block hs) @ body"
  have h: "text_header h" using Cons.prems(1) by simp
  obtain t where b: "n = Suc (length h)" "b = (h @ [LF]) @ NUL # t" "r = ?r"
    "length b = SERVER_BUFF_SZ"
    using header_block_read [OF Cons.prems(2), of h ?r] h Cons.prems(3)
    by (auto simp: header_block_def text_header_def)
  have no_nul: "NUL \<notin> set (h @ [LF])" using h by (simp add: text_header_def)
  have "cstr b \<noteq> [LF]"
    using h no_nul cstr_append_NUL [OF no_nul, of t]
    by (auto simp: b(2) text_header_def header_line_def)
  moreover obtain n2 b2 r2 where
    get: "httpd_get_line (put b 15 NUL) SERVER_BUFF_SZ ?r = (n2, b2, r2)"
    by (cases "httpd_get_line (put b 15 NUL) SERVER_BUFF_SZ ?r") auto
  ultimately have "post_headers n b len r = post_headers n2 b2
      (if strcaseeq (put b 15 NUL) ''Content-Length:''
       then atoi (cstr (drop 16 (put b 15 NUL))) else len) r2"
    by (subst post_headers.simps) (simp add: b(1,3) Let_def)
  then have "post_headers n b len r = post_headers n2 b2 (length_step h len) r2"
    unfolding length_step_def by (subst (asm) post_step_line [OF b(2) no_nul _ b(4)]) simp_all
  moreover have "\<exists>b'. post_headers n2 b2 (length_step h len) r2 =
      (fold length_step hs (length_step h len), b', body)"
    using Cons.prems(1) b(4) get by (intro Cons.IH [of "put b 15 NUL"]) auto
  ultimately show ?case by simp
qed

lemma cgi_headers_block:
  assumes "\<forall>h \<in> set hs. text_header h"
  shows "cgi_headers m (sent_bytes (header_block hs) @ body) =
    (if strcaseeq m ''GET'' then -1 else fold length_step hs (-1), body)"
proof (cases "strcaseeq m ''GET''")
  case True
  then show ?thesis
    using assms header_buf_ok skip_lines_block [of hs body]
      discard_headers_eq [of 1 header_buf "sent_bytes (header_block hs) @ body"]
    by (auto simp: cgi_headers_def text_header_def split: prod.splits)
next
  case False
  obtain n b r where
    get: "httpd_get_line header_buf SERVER_BUFF_SZ (sent_bytes (header_block hs) @ body) = (n, b, r)"
    by (cases "httpd_get_line header_buf SERVER_BUFF_SZ (sent_bytes (header_block hs) @ body)") auto
  show ?thesis
    using False get post_headers_block [OF assms header_buf_ok(2) get, of "-1"]
    by (auto simp: cgi_headers_def)
qed

lemma post_headers_int32:
  "int32 len \<Longrightarrow> int32 (fst (post_headers n buf len es))"
proof (induction n buf len es rule: post_headers.induct)
  case (1 n buf len es)
  show ?case
  proof (cases "n > 0 \<and> cstr buf \<noteq> [LF]")
    case False
    then show ?thesis using "1.prems" by (subst post_headers.simps) auto
  next
    case True
    obtain m b r where get: "httpd_get_line (put buf 15 NUL) SERVER_BUFF_SZ es = (m, b, r)"
      by (cases "httpd_get_line (put buf 15 NUL) SERVER_BUFF_SZ es") auto
    show ?thesis
      using "1.IH" [OF True refl refl get [symmetric] refl] "1.prems" True get
      by (simp add: post_headers.simps [of n buf] Let_def split: if_splits)
  qed
qed

lemma cgi_headers_int32: "int32 (fst (cgi_headers m es))"
  using post_headers_int32 [of "-1"]
  by (auto simp: cgi_headers_def int32_def split: prod.splits) (metis fst_conv)+

section \<open>The two processes\<close>

lemma cgi_rounds_ended: "cs_ended s \<Longrightarrow> \<exists>r. cgi_rounds prog room turns k s = Some r"
proof (induction "length (cs_out s)" arbitrary: s k rule: less_induct)
  case less
  have m: "(script_move prog room ^^ n) s = s" for n
    by (induction n) (simp_all add: script_move_def less.prems)
  show ?case
  proof (cases "server_move room s")
    case (Inl r)
    then show ?thesis by (subst cgi_rounds.simps) (simp add: m)
  next
    case (Inr s1)
    have "cs_ended s1 \<and> length (cs_out s1) < length (cs_out s)"
      using Inr less.prems by (auto simp: server_move_def send_def split: nat.splits list.splits prod.splits if_splits)
    with less.hyps [of s1 "Suc k"] Inr show ?thesis by (subst cgi_rounds.simps) (simp add: m)
  qed
qed

fun cgi_from :: "script \<Rightarrow> nat \<Rightarrow> (nat \<Rightarrow> nat) \<Rightarrow> nat \<Rightarrow> nat \<Rightarrow> cgi_state \<Rightarrow> conn run + cgi_state" where
  \<comment> \<open>\<open>j\<close> rounds, from the \<open>k\<close>th on\<close>
  "cgi_from prog room turns k 0 s = Inr s"
| "cgi_from prog room turns k (Suc j) s =
     (case server_move room ((script_move prog room ^^ turns k) s) of
        Inl r \<Rightarrow> Inl r
      | Inr s1 \<Rightarrow> cgi_from prog room turns (Suc k) j s1)"

definition script_never_ends :: "os \<Rightarrow> string \<Rightarrow> string list \<Rightarrow> nat \<Rightarrow> conn \<Rightarrow> bool" where
  \<comment> \<open>however long one waits, the program has not exited\<close>
  "script_never_ends os path env n c \<longleftrightarrow>
     (\<forall>j. case cgi_from (os_cgi os path env) (os_pipe_room os) (os_turns os) 0 j (cgi_start c n) of
            Inl r \<Rightarrow> False | Inr s \<Rightarrow> \<not> cs_ended s)"

definition script_left_early :: "os \<Rightarrow> string \<Rightarrow> string list \<Rightarrow> nat \<Rightarrow> conn \<Rightarrow> bool" where
  \<comment> \<open>the program has exited while the server still has bytes of the body to write\<close>
  "script_left_early os path env n c \<longleftrightarrow>
     (\<exists>j s. cgi_from (os_cgi os path env) (os_pipe_room os) (os_turns os) 0 j (cgi_start c n) = Inr s \<and> 0 < cs_left s \<and>
        cs_ended ((script_move (os_cgi os path env) (os_pipe_room os) ^^ os_turns os j) s))"

lemma cgi_rounds_None:
  "cgi_rounds prog room turns k s = None \<Longrightarrow>
   \<exists>s1. cgi_from prog room turns k j s = Inr s1 \<and> cgi_rounds prog room turns (k + j) s1 = None"
proof (induction j arbitrary: k s)
  case (Suc j)
  then obtain s1 where "server_move room ((script_move prog room ^^ turns k) s) = Inr s1"
    "cgi_rounds prog room turns (Suc k) s1 = None"
    by (subst (asm) (2) cgi_rounds.simps) (auto split: sum.splits)
  with Suc.IH [of "Suc k" s1] show ?case by simp
qed simp

lemma cgi_hangs: "cgi_rounds prog room turns 0 s = None \<Longrightarrow>
    (\<forall>j. case cgi_from prog room turns 0 j s of Inl r \<Rightarrow> False | Inr s1 \<Rightarrow> \<not> cs_ended s1)"
proof
  fix j assume "cgi_rounds prog room turns 0 s = None"
  from cgi_rounds_None [OF this, of j] obtain s1 where
    "cgi_from prog room turns 0 j s = Inr s1" "cgi_rounds prog room turns j s1 = None" by auto
  with cgi_rounds_ended [of s1 prog room turns j]
  show "case cgi_from prog room turns 0 j s of Inl r \<Rightarrow> False | Inr s1 \<Rightarrow> \<not> cs_ended s1" by auto
qed

lemma script_move_conn: "cs_conn ((script_move prog room ^^ n) s) = cs_conn s" "cs_left ((script_move prog room ^^ n) s) = cs_left s"
proof -
  have "cs_conn (script_move prog room s) = cs_conn s" "cs_left (script_move prog room s) = cs_left s" for s
    by (auto simp: script_move_def split: script_act.split list.split)
  then show "cs_conn ((script_move prog room ^^ n) s) = cs_conn s" "cs_left ((script_move prog room ^^ n) s) = cs_left s"
    by (induction n) simp_all
qed

definition rounds_end :: "script \<Rightarrow> nat \<Rightarrow> (nat \<Rightarrow> nat) \<Rightarrow> nat \<Rightarrow> cgi_state \<Rightarrow> conn run \<Rightarrow> bool" where
  "rounds_end prog room turns k s r \<longleftrightarrow>
     (case r of
        Ret c' \<Rightarrow> \<exists>p. tx c' = tx (cs_conn s) @ p
      | Fault e c' \<Rightarrow> e = Broken_pipe \<and> (client_gone c' \<or>
          (\<exists>j s1. cgi_from prog room turns k j s = Inr s1 \<and> 0 < cs_left s1 \<and>
             cs_ended ((script_move prog room ^^ turns (k + j)) s1)))
      | Hang \<Rightarrow> False)"

lemma cgi_rounds_end: "cgi_rounds prog room turns k s = Some r \<Longrightarrow> rounds_end prog room turns k s r"
proof (rule cgi_rounds.raw_induct [where P = rounds_end])
  fix f :: "script \<Rightarrow> nat \<Rightarrow> (nat \<Rightarrow> nat) \<Rightarrow> nat \<Rightarrow> cgi_state \<Rightarrow> conn run option" and prog room turns k s r
  assume IH: "\<And>prog room turns k s r. f prog room turns k s = Some r \<Longrightarrow> rounds_end prog room turns k s r"
    and eq: "(case server_move room ((script_move prog room ^^ turns k) s) of
        Inl r \<Rightarrow> Some r | Inr s1 \<Rightarrow> f prog room turns (Suc k) s1) = Some r"
  let ?s = "(script_move prog room ^^ turns k) s"
  note c = script_move_conn [where prog = prog and room = room and n = "turns k" and s = s]
  show "rounds_end prog room turns k s r"
  proof (cases "server_move room ?s")
    case (Inl q)
    with eq have q: "q = r" by simp
    show ?thesis
    proof (cases "0 < cs_left s \<and> cs_ended ?s")
      case True
      then have "cgi_from prog room turns k 0 s = Inr s \<and> 0 < cs_left s \<and> cs_ended ((script_move prog room ^^ turns (k + 0)) s)"
        by simp
      moreover obtain c' where "r = Fault Broken_pipe c'"
        using Inl q True c(2) by (cases "cs_left s") (auto simp: server_move_def split: prod.splits)
      ultimately show ?thesis unfolding rounds_end_def by (auto intro!: exI [of _ 0])
    next
      case False
      with Inl q c show ?thesis
        by (auto simp: server_move_def rounds_end_def send_def split: nat.splits list.splits prod.splits if_splits)
    qed
  next
    case (Inr s1)
    with eq have r: "rounds_end prog room turns (Suc k) s1 r" by (intro IH) simp
    have t: "\<exists>p. tx (cs_conn s1) = tx (cs_conn s) @ p"
      using Inr c by (auto simp: server_move_def send_def split: nat.splits list.splits prod.splits if_splits)
    show ?thesis
    proof (cases r)
      case (Ret c')
      with r t show ?thesis by (auto simp: rounds_end_def)
    next
      case (Fault e c')
      have "\<exists>j s2. cgi_from prog room turns k j s = Inr s2 \<and> 0 < cs_left s2 \<and> cs_ended ((script_move prog room ^^ turns (k + j)) s2)"
        if h: "cgi_from prog room turns (Suc k) j s1 = Inr s2" "0 < cs_left s2"
          "cs_ended ((script_move prog room ^^ turns (Suc k + j)) s2)" for j s2
        using h Inr by (intro exI [of _ "Suc j"] exI [of _ s2]) simp
      with r Fault show ?thesis unfolding rounds_end_def by auto
    next
      case Hang
      with r show ?thesis by (simp add: rounds_end_def)
    qed
  qed
qed

lemma server_move_waits:
  "\<not> cs_ended s \<Longrightarrow> stays (cs_conn s) \<Longrightarrow> \<exists>s1. server_move room s = Inr s1 \<and> \<not> cs_ended s1 \<and> stays (cs_conn s1)"
  by (cases "cs_left s"; cases "cs_out s") (simp_all add: server_move_def Let_def split: prod.split)

text \<open>The program never sees an end of its input: one that does not exit by itself before it, such as a filter that copies
  its input to its output, is waited for without end, whatever the client sent.\<close>

lemma waits_for_end_of_input:
  assumes "\<And>inp n. prog inp n \<noteq> Script_exits" "stays c"
  shows "cgi_rounds prog room turns 0 (cgi_start c n) = None"
proof (rule ccontr)
  assume "cgi_rounds prog room turns 0 (cgi_start c n) \<noteq> None"
  then obtain r where r: "cgi_rounds prog room turns 0 (cgi_start c n) = Some r" by auto
  have "\<not> ((\<forall>inp n. prog inp n \<noteq> Script_exits) \<and> stays (cs_conn (cgi_start c n)) \<and> \<not> cs_ended (cgi_start c n))"
  proof (rule cgi_rounds.raw_induct [where P = "\<lambda>prog room turns k s r.
      \<not> ((\<forall>inp n. prog inp n \<noteq> Script_exits) \<and> stays (cs_conn s) \<and> \<not> cs_ended s)", OF _ r])
    fix f :: "script \<Rightarrow> nat \<Rightarrow> (nat \<Rightarrow> nat) \<Rightarrow> nat \<Rightarrow> cgi_state \<Rightarrow> conn run option" and prog room turns k s r
    assume IH: "\<And>prog room turns k s r. f prog room turns k s = Some r \<Longrightarrow>
        \<not> ((\<forall>inp n. prog inp n \<noteq> Script_exits) \<and> stays (cs_conn s) \<and> \<not> cs_ended s)"
      and eq: "(case server_move room ((script_move prog room ^^ turns k) s) of
        Inl r \<Rightarrow> Some r | Inr s1 \<Rightarrow> f prog room turns (Suc k) s1) = Some r"
    show "\<not> ((\<forall>inp n. prog inp n \<noteq> Script_exits) \<and> stays (cs_conn s) \<and> \<not> cs_ended s)"
    proof
      assume a: "(\<forall>inp n. prog inp n \<noteq> Script_exits) \<and> stays (cs_conn s) \<and> \<not> cs_ended s"
      let ?s = "(script_move prog room ^^ turns k) s"
      have "\<not> cs_ended (script_move prog room s)" if "\<not> cs_ended s" for s
        using a that by (auto simp: script_move_def split: script_act.split list.split)
      then have e: "\<not> cs_ended ((script_move prog room ^^ n) s)" for n
        using a by (induction n) simp_all
      have st: "stays (cs_conn ?s)" using a script_move_conn by simp
      obtain s1 where s1: "server_move room ?s = Inr s1" "\<not> cs_ended s1" "stays (cs_conn s1)"
        using server_move_waits [OF e st] by blast
      with eq IH [of prog room turns "Suc k" s1 r] a show False by simp
    qed
  qed
  with assms show False by (simp add: cgi_start_def)
qed

section \<open>A program that reads the announced length\<close>

fun copy_body :: "nat \<Rightarrow> char \<Rightarrow> recv_ev list \<Rightarrow> string \<times> recv_ev list" where
  \<comment> \<open>the bytes that \<open>n\<close> rounds of the server's first loop write, and what is left to receive\<close>
  "copy_body 0 c es = ([], es)"
| "copy_body (Suc n) c es =
     (let (r, c1, es1) = recv1 c es; (w, es2) = copy_body n c1 es1 in (c1 # w, es2))"

lemma copy_body_eq:
  "copy_body n c (sent_bytes xs) =
     (take n xs @ replicate (n - length xs) (last (c # xs)), sent_bytes (drop n xs))"
proof (induction n arbitrary: c xs)
  case 0
  then show ?case by simp
next
  case (Suc n)
  show ?case
  proof (cases xs)
    case Nil
    then show ?thesis using Suc.IH [of c "[]"] by simp
  next
    case (Cons x ys)
    then show ?thesis using Suc.IH [of x ys] by simp
  qed
qed

lemma copy_body_length: "length (fst (copy_body n c es)) = n"
proof (induction n arbitrary: c es)
  case (Suc n)
  obtain q c1 es1 where "recv1 c es = (q, c1, es1)" by (cases "recv1 c es") auto
  with Suc.IH [of c1 es1] show ?case by (cases "copy_body n c1 es1") simp
qed simp

definition polite :: "nat \<Rightarrow> (string \<Rightarrow> string) \<Rightarrow> script" where
  \<comment> \<open>it reads \<open>len\<close> bytes, as \<open>CONTENT_LENGTH\<close> says, writes its answer and exits\<close>
  "polite len f inp n =
     (if length inp < len then Script_reads
      else if n < length (f inp) then Script_writes (f inp ! n) else Script_exits)"

definition part_done :: "conn \<Rightarrow> recv_ev list \<Rightarrow> string \<Rightarrow> string \<Rightarrow> cgi_state \<Rightarrow> bool" where
  \<comment> \<open>\<open>body\<close> is underway to the program, \<open>out\<close> to the client\<close>
  "part_done c es body out s \<longleftrightarrow>
     cs_took s @ cs_in s @ fst (copy_body (cs_left s) (cs_char s) (rx (cs_conn s))) = body \<and>
     snd (copy_body (cs_left s) (cs_char s) (rx (cs_conn s))) = es \<and>
     cs_conn s = c\<lparr>rx := rx (cs_conn s), tx := tx (cs_conn s)\<rparr> \<and>
     (length (cs_took s) < length body \<longrightarrow> cs_wrote s = 0) \<and> cs_wrote s \<le> length out \<and>
     tx (cs_conn s) @ map (\<lambda>x. [x]) (cs_out s) = tx c @ map (\<lambda>x. [x]) (take (cs_wrote s) out) \<and>
     (cs_ended s \<longrightarrow> cs_took s = body \<and> cs_wrote s = length out)"

definition to_do :: "string \<Rightarrow> string \<Rightarrow> cgi_state \<Rightarrow> nat" where
  "to_do body out s = 2 * cs_left s + (length body - length (cs_took s)) + 2 * (length out - cs_wrote s) +
     length (cs_out s) + (if cs_ended s then 0 else 1)"

lemma polite_script_move:
  assumes "part_done c es body (f body) s" "s1 = script_move (polite (length body) f) room s"
  shows "part_done c es body (f body) s1 \<and> (s1 = s \<or> to_do body (f body) s1 < to_do body (f body) s)"
proof (cases "cs_ended s")
  case False
  note p = assms(1) [unfolded part_done_def]
  show ?thesis
  proof (cases "length (cs_took s) < length body")
    case True
    then show ?thesis using p False assms(2)
      by (cases "cs_in s") (auto simp: script_move_def polite_def part_done_def to_do_def)
  next
    case took: False
    with p have e: "cs_took s = body" "cs_in s = []" "fst (copy_body (cs_left s) (cs_char s) (rx (cs_conn s))) = []"
      by (metis append_eq_conv_conj append_is_Nil_conv append_take_drop_id drop_eq_Nil linorder_not_less self_append_conv)+
    show ?thesis
    proof (cases "cs_wrote s < length (f body)")
      case True
      then have "take (Suc (cs_wrote s)) (f body) = take (cs_wrote s) (f body) @ [f body ! cs_wrote s]"
        by (simp add: take_Suc_conv_app_nth)
      with True False e p assms(2) show ?thesis
        by (auto simp: script_move_def polite_def part_done_def to_do_def)
    next
      case wrote: False
      with False e p assms(2) show ?thesis
        by (auto simp: script_move_def polite_def part_done_def to_do_def)
    qed
  qed
qed (use assms in \<open>simp add: script_move_def\<close>)

lemma polite_script_moves:
  assumes "part_done c es body (f body) s" "s1 = (script_move (polite (length body) f) room ^^ n) s"
  shows "part_done c es body (f body) s1 \<and> (s1 = s \<or> to_do body (f body) s1 < to_do body (f body) s)"
  using assms(2)
proof (induction n arbitrary: s1)
  case (Suc n)
  let ?s = "(script_move (polite (length body) f) room ^^ n) s"
  from Suc.IH [OF refl] have "part_done c es body (f body) ?s" "?s = s \<or> to_do body (f body) ?s < to_do body (f body) s" by blast+
  with polite_script_move [of c es body f ?s "script_move (polite (length body) f) room ?s" room] Suc.prems show ?case by auto
qed (use assms(1) in simp)

lemma polite_server_move:
  assumes "part_done c es body (f body) s" "stays c"
  shows "server_move room s = Inl (Ret (c\<lparr>rx := es, tx := tx c @ map (\<lambda>x. [x]) (f body)\<rparr>)) \<or>
    (\<exists>s1. server_move room s = Inr s1 \<and> part_done c es body (f body) s1 \<and>
      (s1 = s \<or> to_do body (f body) s1 < to_do body (f body) s))"
proof -
  note p = assms(1) [unfolded part_done_def]
  have cn: "cs_conn s = c\<lparr>rx := rx (cs_conn s), tx := tx (cs_conn s)\<rparr>" using p by blast
  then have st: "stays (cs_conn s)" using assms(2) by (metis stays_simps(2,4))
  show ?thesis
  proof (cases "cs_left s")
    case 0
    show ?thesis
    proof (cases "cs_out s")
      case Nil
      have "cs_conn s = c\<lparr>rx := es, tx := tx c @ map (\<lambda>x. [x]) (f body)\<rparr>" if "cs_ended s"
      proof -
        have "tx (cs_conn s) = tx c @ map (\<lambda>x. [x]) (f body)" using p Nil that by simp
        moreover have "rx (cs_conn s) = es" using p 0 by simp
        ultimately show ?thesis using cn by simp
      qed
      then show ?thesis using 0 Nil assms(1) by (simp add: server_move_def)
    next
      case (Cons x xs)
      let ?s = "s\<lparr>cs_conn := sent [x] (cs_conn s), cs_out := xs\<rparr>"
      have "sent [x] (cs_conn s) = c\<lparr>rx := rx (cs_conn s), tx := tx (sent [x] (cs_conn s))\<rparr>"
        by (subst cn) (simp add: sent_def)
      then have "part_done c es body (f body) ?s \<and> to_do body (f body) ?s < to_do body (f body) s"
        using p 0 Cons by (auto simp: part_done_def to_do_def)
      then show ?thesis using 0 Cons st by (simp add: server_move_def)
    qed
  next
    case (Suc n)
    obtain q c1 es1 where r1: "recv1 (cs_char s) (rx (cs_conn s)) = (q, c1, es1)" by (cases "recv1 (cs_char s) (rx (cs_conn s))") auto
    have cb: "copy_body (Suc n) (cs_char s) (rx (cs_conn s)) = (c1 # fst (copy_body n c1 es1), snd (copy_body n c1 es1))"
      using r1 by (auto split: prod.split)
    have "\<not> cs_ended s" using p Suc cb by auto
    moreover have "part_done c es body (f body) s1 \<and> to_do body (f body) s1 < to_do body (f body) s"
      if "s1 = s\<lparr>cs_conn := (cs_conn s)\<lparr>rx := es1\<rparr>, cs_char := c1, cs_left := n, cs_in := cs_in s @ [c1]\<rparr>" for s1
    proof -
      have "(cs_conn s)\<lparr>rx := es1\<rparr> = c\<lparr>rx := es1, tx := tx (cs_conn s)\<rparr>" by (subst cn) simp
      with p Suc cb that show ?thesis by (auto simp: part_done_def to_do_def)
    qed
    ultimately show ?thesis using Suc r1 assms(1) by (simp add: server_move_def)
  qed
qed

lemma polite_not_stuck:
  assumes "part_done c es body (f body) s" "stays c" "server_move room s = Inr s" "0 < room"
  shows "script_move (polite (length body) f) room s \<noteq> s"
proof -
  note p = assms(1) [unfolded part_done_def]
  have "cs_conn s = c\<lparr>rx := rx (cs_conn s), tx := tx (cs_conn s)\<rparr>" using p by blast
  then have st: "stays (cs_conn s)" using assms(2) by (metis stays_simps(2,4))
  show ?thesis
  proof (cases "cs_left s")
    case 0
    have o: "cs_out s = []" "\<not> cs_ended s"
      using assms(3) 0 st by (auto simp: server_move_def split: list.splits if_splits dest!: arg_cong [where f = "\<lambda>s. length (cs_out s)"])
    show ?thesis
    proof
      assume e: "script_move (polite (length body) f) room s = s"
      have l: "length body = length (cs_took s) + length (cs_in s)" using p 0 by auto
      show False
      proof (cases "length (cs_took s) < length body")
        case True
        with e l o show False
          by (cases "cs_in s") (auto simp: script_move_def polite_def dest!: arg_cong [where f = "\<lambda>s. length (cs_took s)"])
      next
        case False
        with e o assms(4) show False
          by (auto simp: script_move_def polite_def split: if_splits
              dest: arg_cong [where f = cs_wrote] arg_cong [where f = cs_ended])
      qed
    qed
  next
    case (Suc n)
    have o: "\<not> length (cs_in s) < room" "\<not> cs_ended s"
      using assms(3) Suc by (auto simp: server_move_def split: prod.splits if_splits dest!: arg_cong [where f = cs_left])
    moreover have "length body = length (cs_took s) + length (cs_in s) + cs_left s"
      using p copy_body_length [of "cs_left s" "cs_char s" "rx (cs_conn s)"] by auto
    ultimately show ?thesis using assms(4)
      by (cases "cs_in s") (auto simp: script_move_def polite_def dest!: arg_cong [where f = "\<lambda>s. length (cs_took s)"])
  qed
qed

lemma polite_rounds:
  assumes "\<And>n. \<exists>k \<ge> n. 0 < turns k" "0 < room" "stays c" "part_done c es body (f body) s"
  shows "cgi_rounds (polite (length body) f) room turns k s =
    Some (Ret (c\<lparr>rx := es, tx := tx c @ map (\<lambda>x. [x]) (f body)\<rparr>))"
  using assms(4)
proof (induction "(to_do body (f body) s, LEAST m. 0 < turns (k + m))" arbitrary: s k
    rule: wf_induct_rule [OF wf_lex_prod [OF wf_less_than wf_less_than]])
  case (1 s k)
  let ?p = "polite (length body) f" and ?out = "f body"
  let ?s = "(script_move ?p room ^^ turns k) s"
  have m: "part_done c es body ?out ?s" "?s = s \<or> to_do body ?out ?s < to_do body ?out s"
    using polite_script_moves [of c es body f s, OF "1.prems" refl] by blast+
  from polite_server_move [of c es body f ?s room, OF m(1) assms(3)] show ?case
  proof (elim disjE exE conjE)
    assume "server_move room ?s = Inl (Ret (c\<lparr>rx := es, tx := tx c @ map (\<lambda>x. [x]) ?out\<rparr>))"
    then show ?thesis by (subst cgi_rounds.simps) simp
  next
    fix s1 assume s1: "server_move room ?s = Inr s1" "part_done c es body ?out s1" and "to_do body ?out s1 < to_do body ?out ?s"
    with m(2) have "to_do body ?out s1 < to_do body ?out s" by auto
    with "1.hyps" [of s1 "Suc k"] s1 show ?thesis by (subst cgi_rounds.simps) simp
  next
    fix s1 assume s1: "server_move room ?s = Inr s1" "part_done c es body ?out s1" and e: "s1 = ?s"
    show ?thesis
    proof (cases "to_do body ?out ?s < to_do body ?out s")
      case True
      with "1.hyps" [of s1 "Suc k"] s1 e show ?thesis by (subst cgi_rounds.simps) simp
    next
      case False
      with m(2) have q: "?s = s" by blast
      have t: "turns k = 0"
      proof (rule ccontr)
        assume "turns k \<noteq> 0"
        then obtain n where n: "turns k = Suc n" by (cases "turns k") auto
        have "script_move ?p room s \<noteq> s" using polite_not_stuck [of c es body f ?s room, OF m(1) assms(3) _ assms(2)] s1(1) e q by simp
        then have "to_do body ?out (script_move ?p room s) < to_do body ?out s" "part_done c es body ?out (script_move ?p room s)"
          using polite_script_move [of c es body f s _ room, OF "1.prems" refl] by blast+
        moreover have "?s = (script_move ?p room ^^ n) (script_move ?p room s)" unfolding n by (simp add: funpow_swap1)
        ultimately have "to_do body ?out ?s < to_do body ?out s"
          using polite_script_moves [of c es body f "script_move ?p room s" ?s n room] by force
        with False show False by simp
      qed
      obtain m where "0 < turns (k + m)" using assms(1) [of k] by (metis le_Suc_ex)
      then have w: "0 < turns (k + (LEAST m. 0 < turns (k + m)))" by (rule LeastI)
      with t have "(LEAST m. 0 < turns (k + m)) \<noteq> 0" by (metis add_0_right less_irrefl)
      then obtain d where d: "(LEAST m. 0 < turns (k + m)) = Suc d" by (cases "LEAST m. 0 < turns (k + m)") auto
      with w have "(LEAST m. 0 < turns (Suc k + m)) \<le> d" by (intro Least_le) simp
      with d have "(LEAST m. 0 < turns (Suc k + m)) < (LEAST m. 0 < turns (k + m))" by simp
      with "1.hyps" [of s1 "Suc k"] s1 e q show ?thesis by (subst cgi_rounds.simps) simp
    qed
  qed
qed

section \<open>The environment\<close>

lemma child_env_eq:
  assumes "length m \<le> 200" "int32 len"
  shows "child_env m q len =
    (if strcaseeq m ''GET''
     then (if length q < 242 then Some [''REQUEST_METHOD='' @ m, ''QUERY_STRING='' @ q] else None)
     else Some [''REQUEST_METHOD='' @ m, ''CONTENT_LENGTH='' @ dec_int len])"
  using assms length_dec_int [OF assms(2)]
  by (simp add: child_env_def sprintf_at_def ENV_SZ_def)

section \<open>Properties\<close>

text \<open>For a POST whose header block is well formed, \<open>content_length\<close> becomes the value in
  the last \<open>Content-Length\<close> line (or stays -1), and the header loop stops exactly in front of
  the body.\<close>

theorem post_content_length:
  assumes "list_all text_header hs"
  shows "cgi_headers ''POST'' (sent_bytes (header_block hs) @ body) = (fold length_step hs (-1), body)"
  using cgi_headers_block [of hs "''POST''" body] assms
  by (simp add: list_all_iff strcaseeq_def char_eval)

theorem post_content_length_witness:
  "cgi_headers ''POST'' (sent_bytes (header_block [''Host: a'', ''content-length: 12'']) @ [Fail]) =
     (12, [Fail])"
proof -
  have "list_all text_header [''Host: a'', ''content-length: 12'']"
    by (simp add: text_header_def header_line_def plain_def SERVER_BUFF_SZ_def)
  from post_content_length [OF this, of "[Fail]"] show ?thesis
    by (simp add: length_step_def strcaseeq_def char_eval atoi_def to_int32_def strtol_raw_def
        digit_val_def)
qed

text \<open>The character behind the colon is overwritten before the value is read: whatever it is,
  it does not count. A client that sends the length without a blank loses its first digit.\<close>

theorem content_length_first_digit_lost:
  assumes "text_header (''Content-Length:'' @ d # s)"
  shows "cgi_headers ''POST'' (sent_bytes (header_block [''Content-Length:'' @ d # s]) @ body) =
    (atoi (s @ [LF]), body)"
proof -
  have "length_step (''Content-Length:'' @ d # s) (-1) = atoi (s @ [LF])"
    by (simp add: length_step_def strcaseeq_def char_eval)
  then show ?thesis
    using cgi_headers_block [of "[''Content-Length:'' @ d # s]" "''POST''" body] assms
    by (simp add: strcaseeq_def char_eval)
qed

theorem content_length_first_digit_lost_witness:
  "cgi_headers ''POST'' (sent_bytes (header_block [''Content-Length:57'']) @ []) = (7, [])"
proof -
  have "text_header (''Content-Length:'' @ CHR ''5'' # ''7'')"
    by (simp add: text_header_def header_line_def plain_def SERVER_BUFF_SZ_def)
  from content_length_first_digit_lost [OF this, of "[]"] show ?thesis
    by (simp add: char_eval atoi_def to_int32_def strtol_raw_def digit_val_def)
qed

text \<open>Setting up the environment of the child overruns an array exactly for a GET whose query
  string has 242 characters or more.\<close>

theorem child_env_overrun:
  assumes "m = ''GET'' \<or> m = ''POST''" "int32 len"
  shows "child_env m q len = None \<longleftrightarrow> m = ''GET'' \<and> 242 \<le> length q"
  using assms child_env_eq [of m len q] by (auto simp: strcaseeq_def char_eval split: if_splits)

theorem child_env_overrun_witness:
  "child_env ''GET'' (replicate 250 (CHR ''a'')) (-1) = None \<longleftrightarrow>
     ''GET'' = ''GET'' \<and> 242 \<le> length (replicate 250 (CHR ''a''))"
  by (rule child_env_overrun) (simp_all add: int32_def)

text \<open>A POST without a usable length (none, or -1) gets the 400 page and no process is started. Otherwise, when pipes and
  fork succeed, the client stays, both processes keep running, and the program reads exactly the announced number of bytes before it
  writes its answer and exits, the request ends: the client gets the status line and then the answer, byte by byte, to the body, which
  is the first \<open>content_length\<close> bytes that arrive (when the client closes earlier, the last byte repeated up to the announced length,
  because the result of \<open>recv\<close> is not looked at). This holds for every order of the two processes and every size of the pipes.\<close>

theorem post_execute:
  assumes "list_all text_header hs" "rx c = sent_bytes (header_block hs) @ sent_bytes body" "stays c"
    "os_pipe1 os" "os_pipe2 os" "os_fork os" "len = fold length_step hs (-1)"
    "\<forall>n. \<exists>k \<ge> n. 0 < os_turns os k" "0 < os_pipe_room os"
    "os_cgi os path [''REQUEST_METHOD=POST'', ''CONTENT_LENGTH='' @ dec_int len] = polite (nat len) f"
  shows "\<exists>c'. httpd_execute_cgi os c path ''POST'' q = Ret c' \<and> is_open c' = is_open c \<and>
    tx c' = tx c @ (if len = -1 then [error_response 400 ''Bad Request'' bad_request_text]
      else status_200 # map (\<lambda>x. [x]) (f (take (nat len) body @ replicate (nat len - length body) (last (NUL # body)))))"
proof -
  have post: "\<not> strcaseeq ''POST'' ''GET''" "strcaseeq ''POST'' ''POST''" by (simp_all add: strcaseeq_def char_eval)
  have heads: "cgi_headers ''POST'' (rx c) = (len, sent_bytes body)"
    using cgi_headers_block [of hs "''POST''" "sent_bytes body"] assms(1,2,7) post
    by (simp add: list_all_iff)
  then have "int32 len" using cgi_headers_int32 [of "''POST''" "rx c"] by simp
  then have env: "child_env ''POST'' q len = Some [''REQUEST_METHOD=POST'', ''CONTENT_LENGTH='' @ dec_int len]"
    using child_env_eq [of "''POST''" len q] post by simp
  let ?c = "c\<lparr>rx := sent_bytes body\<rparr>" and ?s = "cgi_start (sent status_200 (c\<lparr>rx := sent_bytes body\<rparr>)) (nat len)"
  let ?b = "take (nat len) body @ replicate (nat len - length body) (last (NUL # body))"
  have "part_done (sent status_200 ?c) (sent_bytes (drop (nat len) body)) ?b (f ?b) ?s"
    by (auto simp: part_done_def cgi_start_def copy_body_eq sent_def)
  moreover have "length ?b = nat len" by simp
  moreover have "stays (sent status_200 ?c)" using assms(3) by simp
  ultimately have r: "cgi_rounds (polite (nat len) f) (os_pipe_room os) (os_turns os) 0 ?s =
      Some (Ret ((sent status_200 ?c)\<lparr>rx := sent_bytes (drop (nat len) body), tx := tx (sent status_200 ?c) @ map (\<lambda>x. [x]) (f ?b)\<rparr>))"
    using polite_rounds [of "os_turns os" "os_pipe_room os"] assms(8,9) by metis
  show ?thesis
  proof (cases "len = -1")
    case True
    with heads post assms(3) show ?thesis by (simp add: httpd_execute_cgi_def)
  next
    case False
    have "httpd_execute_cgi os c path ''POST'' q = cgi_run os (sent status_200 ?c) path ''POST'' q len"
      using False heads assms(3-6) by (simp add: httpd_execute_cgi_def)
    with False env assms(10) r post show ?thesis by (simp add: cgi_run_def)
  qed
qed

definition echo_os :: os where
  \<comment> \<open>a system where everything succeeds and every program sends back the first two bytes of its input\<close>
  "echo_os = \<lparr>os_stat = (\<lambda>p. Some 0x81ED), os_fopen = (\<lambda>p. Some (p, False)), os_pipe1 = True,
     os_pipe2 = True, os_fork = True, os_cgi = (\<lambda>path env. polite 2 (\<lambda>inp. inp)), os_pipe_room = 1, os_turns = (\<lambda>k. 1)\<rparr>"

theorem post_execute_witness:
  "\<exists>c'. httpd_execute_cgi echo_os
      \<lparr>rx = sent_bytes (header_block [''Content-Length: 2'']) @ sent_bytes ''hi'', tx = [], is_open = True, reset_after = None\<rparr>
      ''/x'' ''POST'' [] = Ret c' \<and> tx c' = [status_200, ''h'', ''i'']"
proof -
  have hs: "list_all text_header [''Content-Length: 2'']"
    by (simp add: text_header_def header_line_def plain_def SERVER_BUFF_SZ_def)
  have len: "fold length_step [''Content-Length: 2''] (-1) = 2"
    by (simp add: length_step_def strcaseeq_def char_eval atoi_def to_int32_def strtol_raw_def
        digit_val_def)
  from post_execute [OF hs, of "\<lparr>rx = sent_bytes (header_block [''Content-Length: 2'']) @ sent_bytes ''hi'',
      tx = [], is_open = True, reset_after = None\<rparr>" "''hi''" echo_os 2 "''/x''" "\<lambda>inp. inp" "[]"]
  show ?thesis by (auto simp: len [simplified] echo_os_def stays_def)
qed

text \<open>The server closes its end of the input pipe only behind the loop that copies the program's output, so the program never
  meets the end of its input: on a POST with a length, a program that does not exit before it has seen it (any filter, such as one
  that copies its input) is waited for without end, whatever the client sends and the size of the pipes is, and the
  single-threaded server with it.\<close>

theorem filter_waits_forever:
  assumes "list_all text_header hs" "rx c = sent_bytes (header_block hs) @ es" "stays c"
    "os_pipe1 os" "os_pipe2 os" "os_fork os" "fold length_step hs (-1) \<noteq> -1"
    "\<forall>env inp n. os_cgi os path env inp n \<noteq> Script_exits"
  shows "httpd_execute_cgi os c path ''POST'' q = Hang"
proof -
  let ?len = "fold length_step hs (-1)"
  have post: "\<not> strcaseeq ''POST'' ''GET''" by (simp add: strcaseeq_def char_eval)
  have heads: "cgi_headers ''POST'' (rx c) = (?len, es)"
    using cgi_headers_block [of hs "''POST''" es] assms(1,2) post by (simp add: list_all_iff)
  then have "int32 ?len" using cgi_headers_int32 [of "''POST''" "rx c"] by simp
  then obtain env where env: "child_env ''POST'' q ?len = Some env"
    using child_env_eq [of "''POST''" ?len q] post by simp
  let ?c = "sent status_200 (c\<lparr>rx := es\<rparr>)"
  have "cgi_rounds (os_cgi os path env) (os_pipe_room os) (os_turns os) 0 (cgi_start ?c n) = None" for n
    using assms(3,8) by (intro waits_for_end_of_input) simp_all
  then have "cgi_run os ?c path ''POST'' q ?len = Hang" using env by (simp add: cgi_run_def)
  then show ?thesis using heads assms(3-7) post by (simp add: httpd_execute_cgi_def)
qed

definition copying_os :: os where
  \<comment> \<open>every program writes what it reads\<close>
  "copying_os = echo_os\<lparr>os_cgi := (\<lambda>path env inp n. if n < length inp then Script_writes (inp ! n) else Script_reads)\<rparr>"

theorem filter_waits_forever_witness:
  "httpd_execute_cgi copying_os
     \<lparr>rx = sent_bytes (header_block [''Content-Length: 2'']) @ sent_bytes ''hi'', tx = [], is_open = True, reset_after = None\<rparr>
     ''/x'' ''POST'' [] = Hang"
proof (rule filter_waits_forever)
  show "list_all text_header [''Content-Length: 2'']"
    by (simp add: text_header_def header_line_def plain_def SERVER_BUFF_SZ_def)
  show "fold length_step [''Content-Length: 2''] (-1) \<noteq> -1"
    by (simp add: length_step_def strcaseeq_def char_eval atoi_def to_int32_def strtol_raw_def digit_val_def)
qed (simp_all add: copying_os_def echo_os_def stays_def)

end
