(* ===== verification/Request.thy ===== *)
theory Request
  imports Cgi
begin

unbundle bit_operations_syntax

text \<open>
  \<open>httpd_accept_request\<close> of \<open>src/src/httpd.c\<close>: the request line is split into method and
  URL in fixed-size arrays, the query string is cut off, the URL is mapped to a path, and the
  request goes to a static file, to a CGI program or to an error page. What lies behind the
  array of the request line is the parameter \<open>junk\<close>.
\<close>

section \<open>The request line\<close>

definition METHOD_SZ :: nat where "METHOD_SZ = 255"
definition URL_SZ :: nat where "URL_SZ = 255"
definition PATH_SZ :: nat where "PATH_SZ = 512"

function method_loop ::
  "(nat \<Rightarrow> char) \<Rightarrow> string \<Rightarrow> string \<Rightarrow> nat \<Rightarrow> nat \<Rightarrow> string \<times> nat \<times> nat" where
  "method_loop junk buf method i j =
     (if \<not> isspace (at junk buf j) \<and> i < METHOD_SZ - 1
      then method_loop junk buf (put method i (at junk buf j)) (i + 1) (j + 1)
      else (put method i NUL, i, j))"
  by pat_completeness auto
termination
  by (relation "measure (\<lambda>(junk, buf, method, i, j). METHOD_SZ - i)") auto

function skip_loop :: "(nat \<Rightarrow> char) \<Rightarrow> string \<Rightarrow> nat \<Rightarrow> nat" where
  "skip_loop junk buf j =
     (if isspace (at junk buf j) \<and> j < SERVER_BUFF_SZ then skip_loop junk buf (j + 1) else j)"
  by pat_completeness auto
termination
  by (relation "measure (\<lambda>(junk, buf, j). SERVER_BUFF_SZ - j)") auto

function url_loop ::
  "(nat \<Rightarrow> char) \<Rightarrow> string \<Rightarrow> string \<Rightarrow> nat \<Rightarrow> nat \<Rightarrow> string \<times> nat \<times> nat" where
  "url_loop junk buf url i j =
     (if \<not> isspace (at junk buf j) \<and> i < URL_SZ - 1 \<and> j < SERVER_BUFF_SZ
      then url_loop junk buf (put url i (at junk buf j)) (i + 1) (j + 1)
      else (put url i NUL, i, j))"
  by pat_completeness auto
termination
  by (relation "measure (\<lambda>(junk, buf, url, i, j). URL_SZ - i)") auto

declare method_loop.simps [simp del] skip_loop.simps [simp del] url_loop.simps [simp del]

definition parse_method :: "(nat \<Rightarrow> char) \<Rightarrow> string \<Rightarrow> string \<times> nat" where
  "parse_method junk buf =
     (let (method, i, j) = method_loop junk buf (replicate METHOD_SZ NUL) 0 0
      in (cstr method, j))"

definition parse_url :: "(nat \<Rightarrow> char) \<Rightarrow> string \<Rightarrow> nat \<Rightarrow> string" where
  "parse_url junk buf j =
     (let (url, i, j') = url_loop junk buf (replicate URL_SZ NUL) 0 (skip_loop junk buf j)
      in cstr url)"

fun split_query :: "string \<Rightarrow> string \<times> string option" where
  \<comment> \<open>\<open>query_string\<close> runs over \<open>url\<close> to the first question mark, which is overwritten by NUL\<close>
  "split_query [] = ([], None)"
| "split_query (x # xs) =
     (if x = CHR ''?'' then ([], Some xs)
      else (let (u, q) = split_query xs in (x # u, q)))"

section \<open>The path\<close>

definition request_path :: "string \<Rightarrow> string option" where
  \<comment> \<open>the content of \<open>path\<close> before \<open>stat\<close>; \<open>None\<close> when it runs over its array\<close>
  "request_path url =
     (case httpd_alias_check url of
        Some p \<Rightarrow> sprintf_at PATH_SZ [] p
      | None \<Rightarrow>
          do {
            path \<leftarrow> sprintf_at PATH_SZ [] (SERVER_BASEDIR @ url);
            (if path \<noteq> [] \<and> last path = CHR ''/'' then sprintf_at PATH_SZ path SERVER_INDEX
             else Some path)
          })"

definition S_IFMT :: "32 word" where "S_IFMT = 0xF000"
definition S_IFDIR :: "32 word" where "S_IFDIR = 0x4000"
definition S_IXUSR :: "32 word" where "S_IXUSR = 0x40"
definition S_IXGRP :: "32 word" where "S_IXGRP = 0x8"
definition S_IXOTH :: "32 word" where "S_IXOTH = 0x1"

definition s_isdir :: "32 word \<Rightarrow> bool" where
  "s_isdir st_mode = (st_mode AND S_IFMT = S_IFDIR)"

definition s_exec :: "32 word \<Rightarrow> bool" where
  "s_exec st_mode =
     (st_mode AND S_IXUSR \<noteq> 0 \<or> st_mode AND S_IXGRP \<noteq> 0 \<or> st_mode AND S_IXOTH \<noteq> 0)"

definition serve_path ::
  "os \<Rightarrow> conn \<Rightarrow> string \<Rightarrow> 32 word \<Rightarrow> bool \<Rightarrow> string \<Rightarrow> string \<Rightarrow> conn run" where
  \<comment> \<open>the branch after a successful \<open>stat\<close>\<close>
  "serve_path os c path0 st_mode is_cgi0 method query_string =
     (case (if s_isdir st_mode then sprintf_at PATH_SZ path0 (CHR ''/'' # SERVER_INDEX)
            else Some path0) of
        None \<Rightarrow> Fault Buffer_overflow c
      | Some path \<Rightarrow>
          (let is_cgi = (is_cgi0 \<or> (is_mime_type_cgi path \<and> s_exec st_mode))
           in if \<not> is_cgi then httpd_serve_file os c path
              else httpd_execute_cgi os c path method query_string))"

section \<open>\<open>httpd_accept_request\<close>\<close>

definition dispatch ::
  "os \<Rightarrow> conn \<Rightarrow> nat \<Rightarrow> string \<Rightarrow> string \<Rightarrow> string \<Rightarrow> string option \<Rightarrow> bool \<Rightarrow> conn run" where
  \<comment> \<open>from the alias check to the end of the \<open>if (stat(path, &st) == -1)\<close> statement\<close>
  "dispatch os c numchars buf method url query is_cgi =
     (case request_path url of
        None \<Rightarrow> Fault Buffer_overflow c
      | Some path \<Rightarrow>
          (case os_stat os path of
             None \<Rightarrow>
               (let (n, buf', es) = discard_headers numchars buf (rx c)
                in httpd_error_not_found (c\<lparr>rx := es\<rparr>))
           | Some st_mode \<Rightarrow>
               serve_path os c path st_mode (is_cgi \<or> httpd_alias_check url \<noteq> None) method
                 (case query of None \<Rightarrow> [] | Some q \<Rightarrow> q)))"

definition httpd_accept_request :: "os \<Rightarrow> (nat \<Rightarrow> char) \<Rightarrow> conn \<Rightarrow> conn run" where
  "httpd_accept_request os junk c =
     (let (numchars, buf, es) =
            httpd_get_line (replicate SERVER_BUFF_SZ NUL) SERVER_BUFF_SZ (rx c);
          c1 = c\<lparr>rx := es\<rparr>;
          (method, j) = parse_method junk buf
      in if \<not> strcaseeq method ''GET'' \<and> \<not> strcaseeq method ''POST''
         then bind_run (httpd_error_unimplemented c1) (\<lambda>c2. Ret (close_client c2))
         else
           (let url0 = parse_url junk buf j;
                (url, query) = (if strcaseeq method ''GET'' then split_query url0 else (url0, None));
                is_cgi = (strcaseeq method ''POST'' \<or> query \<noteq> None)
            in bind_run (dispatch os c1 numchars buf method url query is_cgi)
                 (\<lambda>c2. Ret (close_client c2))))"

section \<open>What the scanning loops compute\<close>

abbreviation word_of :: "nat \<Rightarrow> string \<Rightarrow> string" where
  "word_of n s \<equiv> takeWhile (\<lambda>c. \<not> isspace c) (take n s)"

lemma drop_at: "j < length buf \<Longrightarrow> drop j buf = at junk buf j # drop (Suc j) buf"
  by (simp add: at_in Cons_nth_drop_Suc)

lemma put_prefix:
  "i < length m \<Longrightarrow> take (Suc i) (put m i c) = take i m @ [c]"
  "Suc i \<le> k \<Longrightarrow> drop k (put m i c) = drop k m"
  by (simp_all add: put_def take_Suc_conv_app_nth)

lemma method_loop_eq:
  assumes "j + (METHOD_SZ - 1 - i) < length buf" "i < METHOD_SZ" "length m = METHOD_SZ"
  shows "method_loop junk buf m i j =
    (let w = word_of (METHOD_SZ - 1 - i) (drop j buf)
     in (take i m @ w @ NUL # drop (Suc (i + length w)) m, i + length w, j + length w))"
  using assms
proof (induction junk buf m i j rule: method_loop.induct)
  case (1 junk buf m i j)
  have j: "j < length buf" using "1.prems"(1) by simp
  show ?case
  proof (cases "\<not> isspace (at junk buf j) \<and> i < METHOD_SZ - 1")
    case False
    then have "word_of (METHOD_SZ - 1 - i) (drop j buf) = []"
      by (cases "METHOD_SZ - 1 - i") (auto simp: drop_at [OF j, of junk])
    with False "1.prems" show ?thesis
      by (subst method_loop.simps) (auto simp: put_shift)
  next
    case True
    then have "METHOD_SZ - 1 - i = Suc (METHOD_SZ - 1 - Suc i)" by arith
    with True have w: "word_of (METHOD_SZ - 1 - i) (drop j buf) =
        at junk buf j # word_of (METHOD_SZ - 1 - Suc i) (drop (Suc j) buf)"
      by (simp add: drop_at [OF j, of junk])
    have "method_loop junk buf (put m i (at junk buf j)) (i + 1) (j + 1) =
      (let w = word_of (METHOD_SZ - 1 - (i + 1)) (drop (j + 1) buf)
       in (take (i + 1) (put m i (at junk buf j)) @ w @
             NUL # drop (Suc (i + 1 + length w)) (put m i (at junk buf j)),
           i + 1 + length w, j + 1 + length w))"
      using "1.prems" True by (intro "1.IH") auto
    with True w "1.prems" show ?thesis
      by (subst method_loop.simps) (auto simp: Let_def put_prefix)
  qed
qed

lemma skip_loop_eq:
  assumes "\<exists>k \<ge> j. k < SERVER_BUFF_SZ \<and> \<not> isspace (buf ! k)" "length buf = SERVER_BUFF_SZ"
  shows "skip_loop junk buf j = j + length (takeWhile isspace (drop j buf))"
  using assms
proof (induction junk buf j rule: skip_loop.induct)
  case (1 junk buf j)
  then have j: "j < length buf" by auto
  show ?case
  proof (cases "isspace (at junk buf j)")
    case False
    then show ?thesis by (subst skip_loop.simps) (simp add: drop_at [OF j, of junk])
  next
    case True
    then have "\<exists>k \<ge> j + 1. k < SERVER_BUFF_SZ \<and> \<not> isspace (buf ! k)"
      using "1.prems"(1) j by (metis Suc_eq_plus1 at_in le_antisym not_less_eq_eq)
    then have "skip_loop junk buf (j + 1) = j + 1 + length (takeWhile isspace (drop (j + 1) buf))"
      using "1.prems" True j by (intro "1.IH") auto
    with True j "1.prems"(2) show ?thesis
      by (subst skip_loop.simps) (simp add: drop_at [OF j, of junk])
  qed
qed

lemma url_loop_eq:
  assumes "length buf = SERVER_BUFF_SZ" "i < URL_SZ" "length u = URL_SZ"
  shows "url_loop junk buf u i j =
    (let w = word_of (URL_SZ - 1 - i) (drop j buf)
     in (take i u @ w @ NUL # drop (Suc (i + length w)) u, i + length w, j + length w))"
  using assms
proof (induction junk buf u i j rule: url_loop.induct)
  case (1 junk buf u i j)
  show ?case
  proof (cases "\<not> isspace (at junk buf j) \<and> i < URL_SZ - 1 \<and> j < SERVER_BUFF_SZ")
    case False
    then have "word_of (URL_SZ - 1 - i) (drop j buf) = []"
      using "1.prems"(1)
      by (cases "URL_SZ - 1 - i"; cases "j < length buf") (auto simp: drop_at [of j buf junk])
    with False "1.prems" show ?thesis
      by (subst url_loop.simps) (auto simp: put_shift)
  next
    case True
    then have "URL_SZ - 1 - i = Suc (URL_SZ - 1 - Suc i)" by arith
    with True "1.prems"(1) have w: "word_of (URL_SZ - 1 - i) (drop j buf) =
        at junk buf j # word_of (URL_SZ - 1 - Suc i) (drop (Suc j) buf)"
      by (simp add: drop_at [of j buf junk])
    have "url_loop junk buf (put u i (at junk buf j)) (i + 1) (j + 1) =
      (let w = word_of (URL_SZ - 1 - (i + 1)) (drop (j + 1) buf)
       in (take (i + 1) (put u i (at junk buf j)) @ w @
             NUL # drop (Suc (i + 1 + length w)) (put u i (at junk buf j)),
           i + 1 + length w, j + 1 + length w))"
      using "1.prems" True by (intro "1.IH") auto
    with True w "1.prems" show ?thesis
      by (subst url_loop.simps) (auto simp: Let_def put_prefix)
  qed
qed

text \<open>The request line as words, without arrays and indices.\<close>

definition request_words :: "string \<Rightarrow> string \<times> string" where
  "request_words buf =
     (let m = word_of 254 buf; r = dropWhile isspace (drop (length m) buf)
      in (cstr m, cstr (word_of 254 r)))"

lemma word_of_length: "length (word_of n s) \<le> n"
  by (metis length_take length_takeWhile_le min.cobounded2 order_trans)

lemma cstr_NUL_end: "cstr (w @ NUL # t) = cstr w"
  by (simp add: cstr_append cstr_id)

lemma parse_eq:
  assumes "length buf = SERVER_BUFF_SZ" "last buf = NUL"
  shows "(fst (parse_method junk buf), parse_url junk buf (snd (parse_method junk buf))) =
    request_words buf"
proof -
  let ?w = "word_of 254 buf"
  have len: "length ?w \<le> 254" by (rule word_of_length)
  have m: "parse_method junk buf = (cstr ?w, length ?w)"
    using assms(1) method_loop_eq [of 0 0 buf "replicate METHOD_SZ NUL" junk]
    by (simp add: parse_method_def METHOD_SZ_def SERVER_BUFF_SZ_def Let_def cstr_NUL_end)
  have "buf ! 1023 = NUL"
    using assms by (cases "buf = []") (simp_all add: last_conv_nth SERVER_BUFF_SZ_def)
  then have "\<exists>k \<ge> length ?w. k < SERVER_BUFF_SZ \<and> \<not> isspace (buf ! k)"
    using len by (intro exI [of _ 1023]) (simp add: SERVER_BUFF_SZ_def)
  then have "skip_loop junk buf (length ?w) =
      length ?w + length (takeWhile isspace (drop (length ?w) buf))"
    using assms(1) by (rule skip_loop_eq)
  moreover have "drop (length ?w + length (takeWhile isspace (drop (length ?w) buf))) buf =
      dropWhile isspace (drop (length ?w) buf)"
    by (metis add.commute drop_drop dropWhile_eq_drop)
  ultimately have "parse_url junk buf (length ?w) =
      cstr (word_of 254 (dropWhile isspace (drop (length ?w) buf)))"
    using assms(1) url_loop_eq [of buf 0 "replicate URL_SZ NUL" junk]
    by (simp add: parse_url_def URL_SZ_def Let_def cstr_NUL_end)
  with m show ?thesis by (simp add: request_words_def Let_def)
qed

section \<open>The request as a whole\<close>

definition request_buf :: "recv_ev list \<Rightarrow> nat \<times> string \<times> recv_ev list" where
  \<comment> \<open>\<open>numchars\<close>, \<open>buf\<close> and the rest of the stream after the request line is read\<close>
  "request_buf es = httpd_get_line (replicate SERVER_BUFF_SZ NUL) SERVER_BUFF_SZ es"

lemma request_buf_eq:
  "request_buf es = (let (l, r) = read_line (SERVER_BUFF_SZ - 1) es
     in (length l, l @ replicate (SERVER_BUFF_SZ - length l) NUL, r))"
proof -
  have "length (fst (read_line (SERVER_BUFF_SZ - 1) es)) \<le> SERVER_BUFF_SZ - 1"
    by (rule read_line_length)
  then show ?thesis
    by (auto simp: request_buf_def httpd_get_line_eq SERVER_BUFF_SZ_def Suc_diff_le
        simp flip: replicate_Suc split: prod.splits)
qed

lemma request_buf_array:
  assumes "request_buf es = (n, buf, r)"
  shows "length buf = SERVER_BUFF_SZ" "last buf = NUL"
proof -
  have "length (fst (read_line (SERVER_BUFF_SZ - 1) es)) \<le> SERVER_BUFF_SZ - 1"
    by (rule read_line_length)
  with assms show "length buf = SERVER_BUFF_SZ" "last buf = NUL"
    by (auto simp: request_buf_eq SERVER_BUFF_SZ_def split: prod.splits)
qed

definition request_query :: "string \<Rightarrow> string \<Rightarrow> string \<times> string option" where
  "request_query method url0 =
     (if strcaseeq method ''GET'' then split_query url0 else (url0, None))"

lemma accept_eq:
  assumes "request_buf (rx c) = (n, buf, r)" "request_words buf = (m, u)"
    "request_query m u = (url, q)"
  shows "httpd_accept_request os junk c =
    (if \<not> strcaseeq m ''GET'' \<and> \<not> strcaseeq m ''POST''
     then bind_run (send (error_response 501 ''Method Not Implemented'' unimplemented_text) (c\<lparr>rx := r\<rparr>))
            (\<lambda>c2. Ret (close_client c2))
     else bind_run (dispatch os (c\<lparr>rx := r\<rparr>) n buf m url q (strcaseeq m ''POST'' \<or> q \<noteq> None))
            (\<lambda>c2. Ret (close_client c2)))"
proof -
  obtain j where j: "parse_method junk buf = (m, j)" "parse_url junk buf j = u"
    using parse_eq [OF request_buf_array [OF assms(1)], of junk] assms(2)
    by (cases "parse_method junk buf") auto
  show ?thesis
    using assms(1,3) j
    by (auto simp: httpd_accept_request_def request_buf_def request_query_def split: if_splits)
qed

section \<open>Paths\<close>

lemma request_words_length:
  "length (fst (request_words buf)) \<le> 254" "length (snd (request_words buf)) \<le> 254"
  by (auto simp: request_words_def Let_def intro: order_trans [OF length_cstr word_of_length])

lemma split_query_length:
  "length (fst (split_query u)) \<le> length u"
  "snd (split_query u) = Some q \<Longrightarrow> length q < length u"
  by (induction u) (auto split: prod.splits if_splits)

lemma split_query_none: "CHR ''?'' \<notin> set u \<Longrightarrow> split_query u = (u, None)"
  by (induction u) auto

lemma split_query_mark: "CHR ''?'' \<notin> set u \<Longrightarrow> split_query (u @ CHR ''?'' # q) = (u, Some q)"
  by (induction u) auto

lemma request_path_Some:
  assumes "length url \<le> 254"
  shows "\<exists>p. request_path url = Some p \<and> length p \<le> 280"
proof (cases "strcaseeq ''/app'' url")
  case True
  then show ?thesis
    by (simp add: request_path_def httpd_alias_check_def ALIAS_URL_def sprintf_at_def PATH_SZ_def
        SERVER_BASEDIR_def HTTPD_DEFCGI_def)
next
  case False
  with assms show ?thesis
    by (simp add: request_path_def httpd_alias_check_def ALIAS_URL_def sprintf_at_def PATH_SZ_def
        SERVER_BASEDIR_def SERVER_INDEX_def)
qed

lemma request_path_plain:
  assumes "length url \<le> 254" "\<not> strcaseeq ''/app'' url" "url \<noteq> []" "last url \<noteq> CHR ''/''"
  shows "request_path url = Some (SERVER_BASEDIR @ url)"
  using assms
  by (simp add: request_path_def httpd_alias_check_def ALIAS_URL_def sprintf_at_def PATH_SZ_def
      SERVER_BASEDIR_def)

section \<open>How a request can end\<close>

definition answered :: "conn \<Rightarrow> conn \<Rightarrow> bool" where
  \<comment> \<open>the first thing sent is a status line\<close>
  "answered c c' \<longleftrightarrow> (\<exists>t rest. tx c' = tx c @ (''HTTP/1.0 '' @ t) # rest)"

lemma answered_rx [simp]: "answered (c\<lparr>rx := r\<rparr>) c' = answered c c'"
  by (simp add: answered_def)

lemma answered_close [simp]: "answered c (close_client c') = answered c c'"
  by (simp add: answered_def)

lemma answered_first: "only_cut (sent (''HTTP/1.0 '' @ t) c) (Ret c') \<Longrightarrow> answered c c'"
  by (auto simp: only_cut_def answered_def)

lemma http_first: "\<exists>t. error_response code title text = ''HTTP/1.0 '' @ t" "\<exists>t. head_text code ct = ''HTTP/1.0 '' @ t"
  "\<exists>t. status_200 = ''HTTP/1.0 '' @ t"
  by (simp_all add: error_response_def head_text_def status_line_def status_200_def)

lemma answered_sent:
  "tx c' = tx (sent (error_response code title text) c) @ p \<Longrightarrow> answered c c'"
  "tx c' = tx (sent (head_text code ct) c) @ p \<Longrightarrow> answered c c'"
  "tx c' = tx (sent status_200 c) @ p \<Longrightarrow> answered c c'"
  using http_first by (force simp: answered_def)+

lemma answered_error [simp]: "answered c (sent (error_response code title text) c)"
  "answered c (sent (error_response code title text) (c\<lparr>rx := r\<rparr>))"
  using answered_sent(1) [of "sent (error_response code title text) c" code title "text" c "[]"]
    answered_sent(1) [of "sent (error_response code title text) (c\<lparr>rx := r\<rparr>)" code title "text" "c\<lparr>rx := r\<rparr>" "[]"]
  by simp_all

lemma serve_file_end:
  "case httpd_serve_file os c f of
     Ret c' \<Rightarrow> answered c c'
   | Fault e c' \<Rightarrow> (e = Null_deref \<and> os_fopen os f = None) \<or> (e = Broken_pipe \<and> client_gone c')
   | Hang \<Rightarrow> (\<exists>s. os_fopen os f = Some (s, True))"
proof (cases "client_gone c")
  case True
  then show ?thesis by (auto simp: serve_file_unfold Let_def send_def split: option.split)
next
  case False
  let ?c = "c\<lparr>rx := skip_lines (rx c)\<rparr>"
  show ?thesis
  proof (cases "os_fopen os f")
    case None
    with False show ?thesis by (simp add: serve_file_unfold send_def)
  next
    case (Some res)
    obtain s err where res: "res = (s, err)" by (cases res)
    let ?h = "sent (head_text 200 (httpd_content_type (Some f))) ?c"
    have e: "httpd_serve_file os c f = httpd_cat_file ?h (s, err)"
      using False Some res by (simp add: serve_file_unfold send_def)
    from cat_file_end [of ?h s err] show ?thesis
      unfolding e using Some res answered_sent(2) [of _ 200 "httpd_content_type (Some f)" ?c]
      by (auto simp: only_cut_def split: run.splits)
  qed
qed

definition script_fails :: "os \<Rightarrow> bool" where
  \<comment> \<open>some program leaves before it has read the body announced for it\<close>
  "script_fails os \<longleftrightarrow> (\<exists>path env n c. script_left_early os path env n c)"

definition script_stays :: "os \<Rightarrow> bool" where
  \<comment> \<open>some program never ends\<close>
  "script_stays os \<longleftrightarrow> (\<exists>path env n c. script_never_ends os path env n c)"

lemma cgi_run_end:
  "case cgi_run os c path m q len of
     Ret c' \<Rightarrow> \<exists>p. tx c' = tx c @ p
   | Fault e c' \<Rightarrow> (e = Buffer_overflow \<and> child_env m q len = None) \<or> (e = Broken_pipe \<and> (client_gone c' \<or> script_fails os))
   | Hang \<Rightarrow> script_stays os"
proof (cases "child_env m q len")
  case None
  then show ?thesis by (simp add: cgi_run_def)
next
  case (Some env)
  let ?n = "if strcaseeq m ''POST'' then nat len else 0"
  let ?r = "cgi_rounds (os_cgi os path env) (os_pipe_room os) (os_turns os) 0 (cgi_start c ?n)"
  show ?thesis
  proof (cases ?r)
    case None
    from cgi_hangs [OF this] have "script_never_ends os path env ?n c" unfolding script_never_ends_def .
    with None Some show ?thesis by (auto simp: cgi_run_def script_stays_def)
  next
    case r: (Some r)
    from cgi_rounds_end [OF r] have e: "rounds_end (os_cgi os path env) (os_pipe_room os) (os_turns os) 0 (cgi_start c ?n) r" .
    have "script_fails os" if "cgi_from (os_cgi os path env) (os_pipe_room os) (os_turns os) 0 j (cgi_start c ?n) = Inr s1"
      "0 < cs_left s1" "cs_ended ((script_move (os_cgi os path env) (os_pipe_room os) ^^ os_turns os j) s1)" for j s1
      unfolding script_fails_def script_left_early_def using that by blast
    with e have "case r of Ret c' \<Rightarrow> \<exists>p. tx c' = tx c @ p
        | Fault e c' \<Rightarrow> e = Broken_pipe \<and> (client_gone c' \<or> script_fails os) | Hang \<Rightarrow> False"
      by (auto simp: rounds_end_def cgi_start_def split: run.splits)
    with r Some show ?thesis by (auto simp: cgi_run_def split: run.splits)
  qed
qed

lemma execute_cgi_end:
  assumes "cstr m = m" "strcaseeq m ''GET'' \<or> strcaseeq m ''POST''"
  shows "case httpd_execute_cgi os c path m q of
     Ret c' \<Rightarrow> answered c c'
   | Fault e c' \<Rightarrow> (e = Buffer_overflow \<and> 242 \<le> length q) \<or> (e = Broken_pipe \<and> (client_gone c' \<or> script_fails os))
   | Hang \<Rightarrow> script_stays os"
proof -
  obtain len es where h: "cgi_headers m (rx c) = (len, es)" by (cases "cgi_headers m (rx c)") auto
  have "length m \<le> 4"
    using assms by (auto simp: strcaseeq_def dest!: arg_cong [where f = length])
  moreover have "int32 len" using cgi_headers_int32 [of m "rx c"] h by simp
  ultimately have env: "child_env m q len = None \<Longrightarrow> 242 \<le> length q"
    by (simp add: child_env_eq split: if_splits)
  show ?thesis
  proof (cases "client_gone c")
    case True
    then show ?thesis by (simp add: httpd_execute_cgi_def h send_def Let_def)
  next
    case False
    let ?c = "c\<lparr>rx := es\<rparr>"
    have pg: "answered c c'" if "tx c' = tx (sent status_200 ?c) @ p" for c' p
      using answered_sent(3) [OF that] by simp
    have err: "case send (error_response code title msg) (sent status_200 ?c) of Ret c' \<Rightarrow> answered c c'
        | Fault e c' \<Rightarrow> e = Broken_pipe \<and> client_gone c' | Hang \<Rightarrow> False" for code title msg
      using pg [of _ "[error_response code title msg]"] by (auto simp: send_def)
    have u: "httpd_execute_cgi os c path m q =
        (if \<not> strcaseeq m ''GET'' \<and> len = -1 then Ret (sent (error_response 400 ''Bad Request'' bad_request_text) ?c)
         else if os_pipe1 os \<and> os_pipe2 os \<and> os_fork os then cgi_run os (sent status_200 ?c) path m q len
         else send (error_response 500 ''Internal Server Error'' cannot_execute_text) (sent status_200 ?c))"
      using False by (simp add: httpd_execute_cgi_def h send_def [of _ ?c] Let_def)
    consider "httpd_execute_cgi os c path m q = Ret (sent (error_response 400 ''Bad Request'' bad_request_text) ?c)"
      | "httpd_execute_cgi os c path m q = cgi_run os (sent status_200 ?c) path m q len"
      | "httpd_execute_cgi os c path m q = send (error_response 500 ''Internal Server Error'' cannot_execute_text) (sent status_200 ?c)"
      unfolding u by (cases "\<not> strcaseeq m ''GET'' \<and> len = -1"; cases "os_pipe1 os \<and> os_pipe2 os \<and> os_fork os") auto
    then show ?thesis
    proof cases
      case 2
      show ?thesis
        using cgi_run_end [where os = os and c = "sent status_200 ?c" and path = path and m = m and q = q and len = len] env pg
        unfolding 2 by (auto split: run.splits)
    next
      case 3
      show ?thesis using err [of 500 "''Internal Server Error''" cannot_execute_text]
        unfolding 3 by (auto split: run.splits)
    qed simp
  qed
qed

lemma dispatch_end:
  assumes "cstr m = m" "strcaseeq m ''GET'' \<or> strcaseeq m ''POST''" "length url \<le> 254"
  shows "case dispatch os c n buf m url q is_cgi of
     Ret c' \<Rightarrow> answered c c'
   | Fault e c' \<Rightarrow> (e = Null_deref \<and> (\<exists>p st f. os_stat os p = Some st \<and>
         (f = p \<or> f = p @ CHR ''/'' # SERVER_INDEX) \<and> os_fopen os f = None)) \<or>
       (e = Buffer_overflow \<and> (\<exists>s. q = Some s \<and> 242 \<le> length s)) \<or>
       (e = Broken_pipe \<and> (client_gone c' \<or> script_fails os))
   | Hang \<Rightarrow> (\<exists>f s. os_fopen os f = Some (s, True)) \<or> script_stays os"
proof -
  obtain p where p: "request_path url = Some p" "length p \<le> 280"
    using request_path_Some [OF assms(3)] by auto
  show ?thesis
  proof (cases "os_stat os p")
    case None
    then show ?thesis by (auto simp: dispatch_def p send_def split: prod.split)
  next
    case (Some st)
    define f where "f = (if s_isdir st then p @ CHR ''/'' # SERVER_INDEX else p)"
    have f: "(if s_isdir st then sprintf_at PATH_SZ p (CHR ''/'' # SERVER_INDEX) else Some p) = Some f"
      using p(2) by (simp add: f_def sprintf_at_def SERVER_INDEX_def PATH_SZ_def)
    define s where "s = (case q of None \<Rightarrow> [] | Some s \<Rightarrow> s)"
    have s: "242 \<le> length s \<Longrightarrow> q = Some s" by (simp add: s_def split: option.splits)
    have cases_f: "f = p \<or> f = p @ CHR ''/'' # SERVER_INDEX" by (simp add: f_def)
    show ?thesis
      using serve_file_end [where os = os and c = c and f = f]
        execute_cgi_end [OF assms(1,2), where os = os and c = c and path = f and q = s] Some cases_f s
      by (auto simp: dispatch_def p serve_path_def f s_def [symmetric] Let_def split: run.splits)
  qed
qed

lemma accept_end:
  "case httpd_accept_request os junk c of
     Ret c' \<Rightarrow> \<not> is_open c' \<and> answered c c'
   | Fault e c' \<Rightarrow>
       (e = Null_deref \<and> (\<exists>p st f. os_stat os p = Some st \<and>
          (f = p \<or> f = p @ CHR ''/'' # SERVER_INDEX) \<and> os_fopen os f = None)) \<or>
       (e = Buffer_overflow \<and>
          (\<exists>q. snd (split_query (snd (request_words (fst (snd (request_buf (rx c))))))) = Some q \<and>
               242 \<le> length q)) \<or>
       (e = Broken_pipe \<and> (client_gone c' \<or> script_fails os))
   | Hang \<Rightarrow> (\<exists>f s. os_fopen os f = Some (s, True)) \<or> script_stays os"
proof -
  obtain n buf r where b: "request_buf (rx c) = (n, buf, r)" by (cases "request_buf (rx c)") auto
  obtain m u where w: "request_words buf = (m, u)" by (cases "request_words buf") auto
  obtain url q where q: "request_query m u = (url, q)" by (cases "request_query m u") auto
  have m: "cstr m = m" using w by (auto simp: request_words_def Let_def)
  have "length u \<le> 254" using request_words_length(2) [of buf] w by simp
  then have url: "length url \<le> 254"
    using q split_query_length(1) [of u] by (auto simp: request_query_def split: if_splits)
  have qs: "q = Some s \<Longrightarrow> snd (split_query u) = Some s" for s
    using q by (auto simp: request_query_def split: if_splits)
  show ?thesis
  proof (cases "strcaseeq m ''GET'' \<or> strcaseeq m ''POST''")
    case False
    then show ?thesis by (auto simp: accept_eq [OF b w q] send_def)
  next
    case True
    then show ?thesis
      using dispatch_end [OF m True url, where os = os and c = "c\<lparr>rx := r\<rparr>" and n = n and
          buf = buf and q = q and is_cgi = "strcaseeq m ''POST'' \<or> q \<noteq> None"] qs
      by (auto simp: accept_eq [OF b w q] b w split: run.splits)
  qed
qed

lemma accept_request_returns:
  "httpd_accept_request os junk c = Ret c' \<Longrightarrow> \<not> is_open c' \<and> answered c c'"
  using accept_end [where os = os and junk = junk and c = c] by simp

section \<open>Well-formed requests\<close>

definition token :: "string \<Rightarrow> bool" where
  "token w \<longleftrightarrow> list_all (\<lambda>c. \<not> isspace c \<and> c \<noteq> NUL) w"

lemma isspace_plain: "token w \<Longrightarrow> plain w"
  by (induction w) (auto simp: token_def plain_def char_eval)

lemma word_of_token:
  "token w \<Longrightarrow> length w \<le> n \<Longrightarrow> isspace c \<Longrightarrow> word_of n (w @ c # t) = w"
proof (induction w arbitrary: n)
  case Nil
  then show ?case by (cases n) auto
next
  case (Cons x w)
  then show ?case by (cases n) (auto simp: token_def)
qed

lemma request_words_tokens:
  assumes "token m" "token u" "length m \<le> 254" "length u \<le> 254" "u \<noteq> []"
  shows "request_words (m @ CHR '' '' # u @ CHR '' '' # t) = (m, u)"
proof -
  have sp: "isspace (CHR '' '')" by (simp add: char_eval)
  have "dropWhile isspace (CHR '' '' # u @ CHR '' '' # t) = u @ CHR '' '' # t"
    using assms(2,5) sp by (cases u) (auto simp: token_def)
  moreover have "cstr m = m" "cstr u = u"
    using assms(1,2) by (auto simp: token_def list_all_iff intro!: cstr_id)
  ultimately show ?thesis
    using assms word_of_token [OF assms(1,3) sp] word_of_token [OF assms(2,4) sp]
    by (simp add: request_words_def Let_def)
qed

definition request_line :: "string \<Rightarrow> string \<Rightarrow> string \<Rightarrow> string" where
  "request_line m u v = m @ CHR '' '' # u @ CHR '' '' # v"

lemma request_buf_line:
  assumes "plain (request_line m u v)" "length (request_line m u v) < SERVER_BUFF_SZ - 1"
  shows "\<exists>t. request_buf (sent_bytes (request_line m u v @ [CR, LF]) @ es) =
    (Suc (length (request_line m u v)), request_line m u v @ LF # t, es) \<and>
    cstr (request_line m u v @ LF # t) \<noteq> [LF]"
proof -
  have "read_line (SERVER_BUFF_SZ - 1) (sent_bytes (request_line m u v @ eol_bytes EolCRLF) @ es) =
      (request_line m u v @ [LF], es)"
    using assms by (intro read_line_eol) auto
  moreover have "cstr (request_line m u v @ LF # t) \<noteq> [LF]" for t
    using assms(1) by (cases m) (auto simp: request_line_def plain_def cstr_append)
  ultimately show ?thesis by (simp add: request_buf_eq)
qed

text \<open>A request whose method and URL are tokens, up to the dispatch.\<close>

definition request_ok :: "string \<Rightarrow> string \<Rightarrow> string \<Rightarrow> bool" where
  "request_ok m u v \<longleftrightarrow> token m \<and> token u \<and> u \<noteq> [] \<and> length m \<le> 254 \<and> length u \<le> 254 \<and> plain v \<and>
     length (request_line m u v) < SERVER_BUFF_SZ - 1"

lemma accept_request_ok:
  assumes "request_ok m u v" "rx c = sent_bytes (request_line m u v @ [CR, LF]) @ es"
    "request_query m u = (url, q)"
  shows "\<exists>n buf. n > 0 \<and> length buf = SERVER_BUFF_SZ \<and> cstr buf \<noteq> [LF] \<and>
    httpd_accept_request os junk c =
    (if \<not> strcaseeq m ''GET'' \<and> \<not> strcaseeq m ''POST''
     then bind_run (send (error_response 501 ''Method Not Implemented'' unimplemented_text) (c\<lparr>rx := es\<rparr>))
            (\<lambda>c2. Ret (close_client c2))
     else bind_run (dispatch os (c\<lparr>rx := es\<rparr>) n buf m url q (strcaseeq m ''POST'' \<or> q \<noteq> None))
            (\<lambda>c2. Ret (close_client c2)))"
proof -
  have "plain (request_line m u v)"
    using assms(1) isspace_plain by (auto simp: request_ok_def request_line_def plain_def)
  then obtain t where b: "request_buf (rx c) =
      (Suc (length (request_line m u v)), request_line m u v @ LF # t, es)"
    "cstr (request_line m u v @ LF # t) \<noteq> [LF]"
    using request_buf_line [of m u v es] assms(1,2) by (auto simp: request_ok_def)
  have "request_words (request_line m u v @ LF # t) = (m, u)"
    using assms(1) request_words_tokens [of m u "v @ LF # t"]
    by (simp add: request_ok_def request_line_def)
  from accept_eq [OF b(1) this assms(3)] request_buf_array [OF b(1)] b(2) show ?thesis
    by (intro exI conjI) auto
qed

lemma get_is_get [simp]: "strcaseeq ''GET'' ''GET''" "\<not> strcaseeq ''GET'' ''POST''"
    "\<not> strcaseeq ''POST'' ''GET''" "strcaseeq ''POST'' ''POST''"
  by (simp_all add: strcaseeq_def char_eval)

section \<open>Properties\<close>

text \<open>C3: the scanning loops compute the words of the request line, whatever lies in memory behind
  the array (one byte of it can be read, but it does not influence the result).\<close>

theorem request_line_words:
  "let buf = fst (snd (request_buf es)); (method, j) = parse_method junk buf
   in (method, parse_url junk buf j) = request_words buf"
proof -
  obtain n buf r where b: "request_buf es = (n, buf, r)" by (cases "request_buf es") auto
  show ?thesis
    using parse_eq [OF request_buf_array [OF b], where junk = junk] b
    by (cases "parse_method junk buf") simp
qed


text \<open>A method other than GET and POST is answered with the 501 page and the connection is
  closed, without any use of the file system or of a process (the answer does not depend on the
  operating system).\<close>

theorem unknown_method:
  assumes "request_ok m u v" "rx c = sent_bytes (request_line m u v @ [CR, LF]) @ es"
    "\<not> strcaseeq m ''GET''" "\<not> strcaseeq m ''POST''" "stays c"
  shows "httpd_accept_request os junk c =
    Ret (c\<lparr>rx := es, tx := tx c @ [error_response 501 ''Method Not Implemented'' unimplemented_text],
           is_open := False\<rparr>)"
  using accept_request_ok [OF assms(1,2), of u None os junk] assms(3-5)
  by (auto simp: request_query_def close_client_def sent_def)

theorem unknown_method_witness:
  "httpd_accept_request echo_os (\<lambda>_. NUL)
     \<lparr>rx = sent_bytes (request_line ''PUT'' ''/a'' ''x'' @ [CR, LF]) @ [], tx = [], is_open = True, reset_after = None\<rparr> =
   Ret \<lparr>rx = [], tx = [error_response 501 ''Method Not Implemented'' unimplemented_text],
         is_open = False, reset_after = None\<rparr>"
proof -
  have ok: "request_ok ''PUT'' ''/a'' ''x''"
    by (simp add: request_ok_def token_def plain_def request_line_def SERVER_BUFF_SZ_def char_eval)
  show ?thesis
    by (subst unknown_method [OF ok]) (simp_all add: strcaseeq_def char_eval stays_def)
qed

text \<open>C2: to a client that does not reset the connection, a GET of a plain file sends the 200 header with the content type of the name and then
  exactly the bytes of the file, after the request headers are consumed; the connection is closed
  and what follows the headers is left unread.\<close>

theorem get_file:
  assumes "request_ok ''GET'' u v" "CHR ''?'' \<notin> set u" "\<not> strcaseeq ''/app'' u" "last u \<noteq> CHR ''/''"
    "rx c = sent_bytes (request_line ''GET'' u v @ [CR, LF]) @ sent_bytes (header_block hs) @ es"
    "list_all header_line hs"
    "os_stat os (SERVER_BASEDIR @ u) = Some st" "\<not> s_isdir st"
    "\<not> (is_mime_type_cgi (SERVER_BASEDIR @ u) \<and> s_exec st)"
    "os_fopen os (SERVER_BASEDIR @ u) = Some (s, False)" "stays c"
  shows "\<exists>pieces. httpd_accept_request os junk c = Ret (c\<lparr>rx := es, is_open := False,
      tx := tx c @ head_text 200 (httpd_content_type (Some (SERVER_BASEDIR @ u))) # pieces\<rparr>) \<and>
    concat pieces = s"
proof -
  have path: "request_path u = Some (SERVER_BASEDIR @ u)"
    using assms(1,3,4) by (intro request_path_plain) (auto simp: request_ok_def)
  have noalias: "httpd_alias_check u = None"
    using assms(3) by (simp add: httpd_alias_check_def ALIAS_URL_def)
  have q: "request_query ''GET'' u = (u, None)"
    using assms(2) by (simp add: request_query_def split_query_none)
  have skip: "skip_lines (sent_bytes (header_block hs) @ es) = es"
    using assms(6) by (intro skip_lines_block) (simp add: list_all_iff)
  obtain n buf where "httpd_accept_request os junk c =
      bind_run (dispatch os (c\<lparr>rx := sent_bytes (header_block hs) @ es\<rparr>) n buf ''GET'' u None False)
        (\<lambda>c2. Ret (close_client c2))"
    using accept_request_ok [OF assms(1,5) q, of os junk] by auto
  then show ?thesis
    using assms(7-11) chunks_facts [of s]
    by (auto simp: dispatch_def path noalias serve_path_def serve_file_eq skip Let_def
        close_client_def intro!: exI [of _ "chunks s"])
qed

theorem get_file_witness:
  "\<exists>pieces. httpd_accept_request echo_os (\<lambda>_. NUL)
     \<lparr>rx = sent_bytes (request_line ''GET'' ''/a.css'' ''x'' @ [CR, LF]) @ sent_bytes (header_block []) @ [],
      tx = [], is_open = True, reset_after = None\<rparr> =
   Ret \<lparr>rx = [], tx = head_text 200 ''text/css'' # pieces, is_open = False, reset_after = None\<rparr> \<and>
   concat pieces = ''/tmp/www/htdocs//a.css''"
proof -
  have ok: "request_ok ''GET'' ''/a.css'' ''x''"
    by (simp add: request_ok_def token_def plain_def request_line_def SERVER_BUFF_SZ_def char_eval)
  have css: "httpd_file_suffix (Some ''/tmp/www/htdocs//a.css'') = Some ''css''"
    using httpd_file_suffix_dot [of "''css''" "''/tmp/www/htdocs//a''"] by simp
  have ctype: "httpd_content_type (Some ''/tmp/www/htdocs//a.css'') = ''text/css''"
    by (simp add: httpd_content_type_def css MINE_TYPES_def strcaseeq_def char_eval)
  have nocgi: "\<not> is_mime_type_cgi (SERVER_BASEDIR @ ''/a.css'')"
    by (simp add: is_mime_type_cgi_def SERVER_BASEDIR_def ctype MINE_TYPE_CGI_def strcaseeq_def char_eval)
  let ?c = "\<lparr>rx = sent_bytes (request_line ''GET'' ''/a.css'' ''x'' @ [CR, LF]) @
      sent_bytes (header_block []) @ [], tx = [], is_open = True, reset_after = None\<rparr>"
  have "\<exists>pieces. httpd_accept_request echo_os (\<lambda>_. NUL) ?c = Ret (?c\<lparr>rx := [], is_open := False,
      tx := tx ?c @ head_text 200 (httpd_content_type (Some (SERVER_BASEDIR @ ''/a.css''))) # pieces\<rparr>) \<and>
    concat pieces = SERVER_BASEDIR @ ''/a.css''"
    by (rule get_file [OF ok, where hs = "[]" and st = "0x81ED"])
      (use nocgi in \<open>simp_all add: echo_os_def strcaseeq_def char_eval s_isdir_def S_IFMT_def
        S_IFDIR_def stays_def\<close>)
  then show ?thesis by (simp add: ctype SERVER_BASEDIR_def)
qed

text \<open>The path is the document root followed by the URL as it was sent; no component is
  inspected, so a URL with \<open>..\<close> names a file outside the root.\<close>

theorem path_is_verbatim:
  assumes "length url \<le> 254" "\<not> strcaseeq ''/app'' url" "url \<noteq> []" "last url \<noteq> CHR ''/''"
  shows "request_path url = Some (SERVER_BASEDIR @ url)"
  by (rule request_path_plain [OF assms])

theorem path_is_verbatim_witness:
  "request_path ''/../../../etc/passwd'' = Some ''/tmp/www/htdocs//../../../etc/passwd''"
  by (subst path_is_verbatim) (simp_all add: strcaseeq_def char_eval SERVER_BASEDIR_def)

text \<open>A GET with a query of 242 characters or more, for any path that exists, makes the child
  write behind the end of its array.\<close>

theorem long_query_overruns:
  assumes "request_ok ''GET'' (u @ CHR ''?'' # q) v" "CHR ''?'' \<notin> set u" "242 \<le> length q"
    "rx c = sent_bytes (request_line ''GET'' (u @ CHR ''?'' # q) v @ [CR, LF]) @ es"
    "request_path u = Some p" "os_stat os p = Some st" "\<not> s_isdir st"
    "os_pipe1 os" "os_pipe2 os" "os_fork os" "stays c"
  shows "\<exists>c'. httpd_accept_request os junk c = Fault Buffer_overflow c'"
proof -
  have q: "request_query ''GET'' (u @ CHR ''?'' # q) = (u, Some q)"
    using assms(2) by (simp add: request_query_def split_query_mark)
  obtain n buf where "httpd_accept_request os junk c =
      bind_run (dispatch os (c\<lparr>rx := es\<rparr>) n buf ''GET'' u (Some q) True)
        (\<lambda>c2. Ret (close_client c2))"
    using accept_request_ok [OF assms(1,4) q, of os junk] by auto
  moreover have "child_env ''GET'' q (fst (cgi_headers ''GET'' es)) = None"
    using assms(3) cgi_headers_int32 by (simp add: child_env_eq)
  ultimately show ?thesis
    using assms(5-11)
    by (cases "cgi_headers ''GET'' es")
      (auto simp: dispatch_def serve_path_def httpd_execute_cgi_def cgi_run_def Let_def)
qed

theorem long_query_overruns_witness:
  "\<exists>c'. httpd_accept_request echo_os (\<lambda>_. NUL)
     \<lparr>rx = sent_bytes (request_line ''GET'' (''/'' @ CHR ''?'' # replicate 250 (CHR ''a'')) ''x'' @ [CR, LF]) @ [],
      tx = [], is_open = True, reset_after = None\<rparr> = Fault Buffer_overflow c'"
proof -
  have ok: "request_ok ''GET'' (''/'' @ CHR ''?'' # replicate 250 (CHR ''a'')) ''x''"
    by (simp add: request_ok_def token_def plain_def request_line_def SERVER_BUFF_SZ_def char_eval
        list_all_iff)
  have path: "request_path ''/'' = Some (SERVER_BASEDIR @ ''/'' @ SERVER_INDEX)"
    by (simp add: request_path_def httpd_alias_check_def ALIAS_URL_def sprintf_at_def PATH_SZ_def
        SERVER_BASEDIR_def SERVER_INDEX_def strcaseeq_def char_eval)
  show ?thesis
    by (rule long_query_overruns [OF ok, where es = "[]" and st = "0x81ED" and
          p = "SERVER_BASEDIR @ ''/'' @ SERVER_INDEX"])
      (simp_all add: path echo_os_def s_isdir_def S_IFMT_def S_IFDIR_def stays_def)
qed

end
