(* ===== verification/Server.thy ===== *)
theory Server
  imports Request
begin

text \<open>
  \<open>httpd_startup\<close> and \<open>main\<close> of \<open>src/src/httpd.c\<close>: the socket calls with their failure
  exits, and the accept loop of the single-threaded build (\<open>SERVER_MUTI_THREAD\<close> is not
  defined), which handles one connection to its end before the next \<open>accept\<close>.
\<close>

section \<open>Starting up\<close>

definition SERVER_PORT :: "16 word" where "SERVER_PORT = 8888"

definition htons :: "16 word \<Rightarrow> 16 word" where
  "htons x = (push_bit 8 x OR drop_bit 8 x)"

definition ntohs :: "16 word \<Rightarrow> 16 word" where
  "ntohs x = (push_bit 8 x OR drop_bit 8 x)"

record net =
  net_socket :: int  \<comment> \<open>the result of \<open>socket\<close>\<close>
  net_bind :: "16 word \<Rightarrow> int"  \<comment> \<open>the result of \<open>bind\<close> for a \<open>sin_port\<close>\<close>
  net_getsockname :: "int \<times> 16 word"  \<comment> \<open>the result of \<open>getsockname\<close> and the \<open>sin_port\<close> it stores\<close>
  net_listen :: int  \<comment> \<open>the result of \<open>listen\<close>\<close>

definition httpd_startup :: "net \<Rightarrow> 16 word \<Rightarrow> string + int \<times> 16 word" where
  \<comment> \<open>\<open>Inl sc\<close>: \<open>httpd_error_die(sc)\<close> ends the process; \<open>Inr\<close>: the socket and \<open>*port\<close>\<close>
  "httpd_startup nt port =
     (if net_socket nt < 0 then Inl ''socket''
      else if net_bind nt (htons port) < 0 then Inl ''bind''
      else if port = 0 \<and> fst (net_getsockname nt) < 0 then Inl ''getsockname''
      else (let port' = (if port = 0 then ntohs (snd (net_getsockname nt)) else port)
            in if net_listen nt < 0 then Inl ''listen'' else Inr (net_socket nt, port')))"

section \<open>The accept loop\<close>

datatype accept_ev =
    Accepted os "nat \<Rightarrow> char" "recv_ev list" "nat option"
  | Accept_fails

datatype server =
    Accepting "conn list"  \<comment> \<open>waiting in \<open>accept\<close>; the connections handled so far\<close>
  | Exited string "conn list"  \<comment> \<open>\<open>exit(1)\<close> in \<open>httpd_error_die\<close>\<close>
  | Crashed fault conn "conn list"
  | Stuck "conn list"

definition new_conn :: "recv_ev list \<Rightarrow> nat option \<Rightarrow> conn" where
  "new_conn es k = \<lparr>rx = es, tx = [], is_open = True, reset_after = k\<rparr>"

fun main_loop :: "accept_ev list \<Rightarrow> conn list \<Rightarrow> server" where
  "main_loop [] served = Accepting served"
| "main_loop (Accept_fails # evs) served = Exited ''accept'' served"
| "main_loop (Accepted os junk es k # evs) served =
     (case httpd_accept_request os junk (new_conn es k) of
        Ret c \<Rightarrow> main_loop evs (served @ [c])
      | Fault e c \<Rightarrow> Crashed e c served
      | Hang \<Rightarrow> Stuck served)"

definition main_httpd :: "net \<Rightarrow> accept_ev list \<Rightarrow> server" where
  "main_httpd nt evs =
     (case httpd_startup nt SERVER_PORT of
        Inl sc \<Rightarrow> Exited sc []
      | Inr (server_sock, port) \<Rightarrow> main_loop evs [])"

section \<open>Byte order and the accept loop\<close>

lemma htons_ntohs [simp]: "htons (ntohs x) = x" "ntohs (htons x) = x"
  by (rule bit_word_eqI; auto simp: htons_def ntohs_def bit_simps)+

fun handled :: "server \<Rightarrow> conn list" where
  "handled (Accepting cs) = cs"
| "handled (Exited sc cs) = cs"
| "handled (Crashed e c cs) = cs"
| "handled (Stuck cs) = cs"

definition finished :: "conn \<Rightarrow> bool" where
  "finished c \<longleftrightarrow> \<not> is_open c \<and> (\<exists>t rest. tx c = (''HTTP/1.0 '' @ t) # rest)"

lemma accept_Ret_finished:
  assumes "httpd_accept_request os junk (new_conn es k) = Ret c"
  shows "finished c"
  using accept_request_returns [OF assms] by (simp add: finished_def answered_def new_conn_def)

lemma main_loop_handled:
  "\<exists>ds. handled (main_loop evs served) = served @ ds \<and> list_all finished ds \<and>
     length ds \<le> length evs"
proof (induction evs served rule: main_loop.induct)
  case (3 os junk es k evs served)
  show ?case
  proof (cases "httpd_accept_request os junk (new_conn es k)")
    case (Ret c)
    then obtain ds where "handled (main_loop evs (served @ [c])) = (served @ [c]) @ ds"
      "list_all finished ds" "length ds \<le> length evs"
      using "3.IH" by blast
    with Ret accept_Ret_finished [OF Ret] show ?thesis by (intro exI [of _ "c # ds"]) simp
  qed simp_all
qed simp_all

section \<open>Properties\<close>

text \<open>When \<open>httpd_startup\<close> returns, socket, bind and listen have succeeded; the port is the
  requested one, or the one the kernel chose when 0 was requested, in host byte order.\<close>

theorem startup_port:
  assumes "httpd_startup nt port = Inr (fd, port')"
  shows "fd = net_socket nt \<and> 0 \<le> fd \<and> 0 \<le> net_bind nt (htons port) \<and> 0 \<le> net_listen nt \<and>
    (if port = 0 then htons port' = snd (net_getsockname nt) else port' = port)"
  using assms by (auto simp: httpd_startup_def Let_def split: if_splits)

theorem startup_port_witness:
  "httpd_startup \<lparr>net_socket = 3, net_bind = (\<lambda>p. 0), net_getsockname = (0, 0x3412), net_listen = 0\<rparr> 0 =
     Inr (3, 0x1234) \<and> htons 0x1234 = 0x3412"
proof -
  have "httpd_startup \<lparr>net_socket = 3, net_bind = (\<lambda>p. 0), net_getsockname = (0, 0x3412),
      net_listen = 0\<rparr> 0 = Inr (3, 0x1234)"
    by (simp add: httpd_startup_def ntohs_def)
  from this startup_port [OF this] show ?thesis by simp
qed

text \<open>The server handles connections one after the other, each finished (closed, with a status
  line sent) before the next is accepted; the first request that faults or hangs, and the first
  failing \<open>accept\<close>, end the service for everything that follows.\<close>

theorem main_loop_sequential:
  "main_loop (evs @ evs') served =
     (case main_loop evs served of
        Accepting cs \<Rightarrow> main_loop evs' cs
      | s \<Rightarrow> s) \<and>
   (\<exists>ds. handled (main_loop evs []) = ds \<and> list_all finished ds \<and> length ds \<le> length evs)"
proof
  show "main_loop (evs @ evs') served =
     (case main_loop evs served of Accepting cs \<Rightarrow> main_loop evs' cs | s \<Rightarrow> s)"
    by (induction evs served rule: main_loop.induct) (auto split: run.splits)
  show "\<exists>ds. handled (main_loop evs []) = ds \<and> list_all finished ds \<and> length ds \<le> length evs"
    using main_loop_handled [of evs "[]"] by auto
qed

end
