(* ===== verification/Multipart.thy ===== *)
theory Multipart
  imports Prelude
begin

text \<open>
  The multipart parser of \<open>src/cgi/cgi-io/src/multipart_parser.c\<close>: a byte-driven state machine
  that calls back into its client for header fields, header values and part data. The parser's
  heap block is the boundary, its NUL and the look-behind array; a data callback gets the memory
  from the pointer it is passed on, and a length. Callbacks transform the client's state and may
  refuse by returning a non-zero value, which stops the parser at the current byte.
\<close>

section \<open>Parser and settings\<close>

datatype mp_state =
    s_uninitialized | s_start | s_start_boundary | s_header_field_start | s_header_field
  | s_headers_almost_done | s_header_value_start | s_header_value | s_header_value_almost_done
  | s_part_data_start | s_part_data | s_part_data_almost_boundary | s_part_data_boundary
  | s_part_data_almost_end | s_part_data_end | s_part_data_final_hyphen | s_end

record parser =
  data :: nat  \<comment> \<open>the client's pointer\<close>
  index :: nat
  boundary_length :: nat
  state :: mp_state
  lookbehind :: string
  multipart_boundary :: string

type_synonym 'u data_cb = "string \<Rightarrow> nat \<Rightarrow> 'u \<Rightarrow> int \<times> 'u"
type_synonym 'u notify_cb = "'u \<Rightarrow> int \<times> 'u"

record 'u settings =
  on_header_field :: "'u data_cb option"
  on_header_value :: "'u data_cb option"
  on_part_data :: "'u data_cb option"
  on_part_data_begin :: "'u notify_cb option"
  on_headers_complete :: "'u notify_cb option"
  on_part_data_end :: "'u notify_cb option"
  on_body_end :: "'u notify_cb option"

definition notify_cb :: "'u notify_cb option \<Rightarrow> 'u \<Rightarrow> bool \<times> 'u" where
  \<comment> \<open>\<open>NOTIFY_CB\<close>: whether the parser goes on\<close>
  "notify_cb f u = (case f of None \<Rightarrow> (True, u) | Some g \<Rightarrow> (case g u of (r, u') \<Rightarrow> (r = 0, u')))"

definition emit_data_cb :: "'u data_cb option \<Rightarrow> string \<Rightarrow> nat \<Rightarrow> 'u \<Rightarrow> bool \<times> 'u" where
  \<comment> \<open>\<open>EMIT_DATA_CB\<close>\<close>
  "emit_data_cb f ptr len u =
     (case f of None \<Rightarrow> (True, u) | Some g \<Rightarrow> (case g ptr len u of (r, u') \<Rightarrow> (r = 0, u')))"

definition multipart_parser_init :: "nat \<Rightarrow> (nat \<Rightarrow> char) \<Rightarrow> string \<Rightarrow> parser" where
  \<comment> \<open>\<open>ptr\<close> and \<open>fresh\<close> are what \<open>malloc\<close> leaves in \<open>data\<close> and in the look-behind array\<close>
  "multipart_parser_init ptr fresh boundary =
     \<lparr>data = ptr, index = 0, boundary_length = length boundary, state = s_start,
      lookbehind = map fresh [0 ..< length boundary + 9], multipart_boundary = boundary\<rparr>"

definition multipart_parser_set_data :: "parser \<Rightarrow> nat \<Rightarrow> parser" where
  "multipart_parser_set_data p ptr = p\<lparr>data := ptr\<rparr>"

definition multipart_parser_get_data :: "parser \<Rightarrow> nat" where
  "multipart_parser_get_data p = data p"

definition boundary_at :: "parser \<Rightarrow> nat \<Rightarrow> char" where
  \<comment> \<open>\<open>multipart_boundary[k]\<close>; behind the boundary come its NUL and the look-behind array\<close>
  "boundary_at p k = at (\<lambda>_. NUL) (multipart_boundary p @ NUL # lookbehind p) k"

section \<open>One byte\<close>

datatype 'u mp_result =
    Stop parser 'u  \<comment> \<open>\<open>return i\<close>\<close>
  | Next parser nat 'u  \<comment> \<open>\<open>break\<close>, then \<open>++ i\<close>; the new \<open>mark\<close>\<close>
  | Again parser nat 'u  \<comment> \<open>\<open>mark = i --; break\<close>, then \<open>++ i\<close>\<close>
  | Dead parser 'u  \<comment> \<open>\<open>default: return 0\<close>\<close>

definition step_start_boundary :: "'u settings \<Rightarrow> char \<Rightarrow> nat \<Rightarrow> parser \<Rightarrow> 'u \<Rightarrow> 'u mp_result" where
  "step_start_boundary st c mark p u =
     (if index p = boundary_length p
      then (if c \<noteq> CR then Stop p u else Next (p\<lparr>index := index p + 1\<rparr>) mark u)
      else if index p = boundary_length p + 1
      then (if c \<noteq> LF then Stop p u
            else (let p1 = p\<lparr>index := 0\<rparr>;
                      (ok, u1) = notify_cb (on_part_data_begin st) u
                  in if \<not> ok then Stop p1 u1
                     else Next (p1\<lparr>state := s_header_field_start\<rparr>) mark u1))
      else if c \<noteq> boundary_at p (index p) then Stop p u
      else Next (p\<lparr>index := index p + 1\<rparr>) mark u)"

definition step_header_field ::
  "'u settings \<Rightarrow> string \<Rightarrow> nat \<Rightarrow> char \<Rightarrow> bool \<Rightarrow> nat \<Rightarrow> parser \<Rightarrow> 'u \<Rightarrow> 'u mp_result" where
  "step_header_field st mem i c is_last mark p u =
     (if c = CR then Next (p\<lparr>state := s_headers_almost_done\<rparr>) mark u
      else if c = CHR ''-'' then Next p mark u
      else if c = CHR '':''
      then (let (ok, u1) = emit_data_cb (on_header_field st) (drop mark mem) (i - mark) u
            in if \<not> ok then Stop p u1 else Next (p\<lparr>state := s_header_value_start\<rparr>) mark u1)
      else if ord (tolower c) < 97 \<or> 122 < ord (tolower c) then Stop p u
      else if is_last
      then (let (ok, u1) = emit_data_cb (on_header_field st) (drop mark mem) (i - mark + 1) u
            in if \<not> ok then Stop p u1 else Next p mark u1)
      else Next p mark u)"

definition step_header_value ::
  "'u settings \<Rightarrow> string \<Rightarrow> nat \<Rightarrow> char \<Rightarrow> bool \<Rightarrow> nat \<Rightarrow> parser \<Rightarrow> 'u \<Rightarrow> 'u mp_result" where
  "step_header_value st mem i c is_last mark p u =
     (let (ok, u1) = (if c = CR then emit_data_cb (on_header_value st) (drop mark mem) (i - mark) u
                      else (True, u))
      in if \<not> ok then Stop p u1
         else (let p1 = (if c = CR then p\<lparr>state := s_header_value_almost_done\<rparr> else p);
                   (ok2, u2) = (if is_last
                      then emit_data_cb (on_header_value st) (drop mark mem) (i - mark + 1) u1
                      else (True, u1))
               in if \<not> ok2 then Stop p1 u2 else Next p1 mark u2))"

definition step_part_data ::
  "'u settings \<Rightarrow> string \<Rightarrow> nat \<Rightarrow> char \<Rightarrow> bool \<Rightarrow> nat \<Rightarrow> parser \<Rightarrow> 'u \<Rightarrow> 'u mp_result" where
  "step_part_data st mem i c is_last mark p u =
     (if c = CR
      then (let (ok, u1) = emit_data_cb (on_part_data st) (drop mark mem) (i - mark) u
            in if \<not> ok then Stop p u1
               else Next (p\<lparr>state := s_part_data_almost_boundary,
                            lookbehind := put (lookbehind p) 0 CR\<rparr>) i u1)
      else if is_last
      then (let (ok, u1) = emit_data_cb (on_part_data st) (drop mark mem) (i - mark + 1) u
            in if \<not> ok then Stop p u1 else Next p mark u1)
      else Next p mark u)"

definition step_almost_boundary ::
  "'u settings \<Rightarrow> nat \<Rightarrow> char \<Rightarrow> nat \<Rightarrow> parser \<Rightarrow> 'u \<Rightarrow> 'u mp_result" where
  "step_almost_boundary st i c mark p u =
     (if c = LF
      then Next (p\<lparr>state := s_part_data_boundary, lookbehind := put (lookbehind p) 1 LF,
                   index := 0\<rparr>) mark u
      else (let (ok, u1) = emit_data_cb (on_part_data st) (lookbehind p) 1 u
            in if \<not> ok then Stop p u1 else Again (p\<lparr>state := s_part_data\<rparr>) i u1))"

definition step_boundary ::
  "'u settings \<Rightarrow> nat \<Rightarrow> char \<Rightarrow> nat \<Rightarrow> parser \<Rightarrow> 'u \<Rightarrow> 'u mp_result" where
  "step_boundary st i c mark p u =
     (if boundary_at p (index p) \<noteq> c
      then (let (ok, u1) = emit_data_cb (on_part_data st) (lookbehind p) (2 + index p) u
            in if \<not> ok then Stop p u1 else Again (p\<lparr>state := s_part_data\<rparr>) i u1)
      else (let p1 = p\<lparr>lookbehind := put (lookbehind p) (2 + index p) c, index := index p + 1\<rparr>
            in if index p1 = boundary_length p1
               then (let (ok, u1) = notify_cb (on_part_data_end st) u
                     in if \<not> ok then Stop p1 u1
                        else Next (p1\<lparr>state := s_part_data_almost_end\<rparr>) mark u1)
               else Next p1 mark u))"

definition mp_step ::
  "'u settings \<Rightarrow> string \<Rightarrow> nat \<Rightarrow> nat \<Rightarrow> nat \<Rightarrow> parser \<Rightarrow> 'u \<Rightarrow> 'u mp_result" where
  \<comment> \<open>the body of the \<open>while\<close> loop\<close>
  "mp_step st mem len i mark p u =
     (let c = mem ! i; is_last = (i = len - 1)
      in case state p of
           s_start \<Rightarrow> step_start_boundary st c mark (p\<lparr>index := 0, state := s_start_boundary\<rparr>) u
         | s_start_boundary \<Rightarrow> step_start_boundary st c mark p u
         | s_header_field_start \<Rightarrow>
             step_header_field st mem i c is_last i (p\<lparr>state := s_header_field\<rparr>) u
         | s_header_field \<Rightarrow> step_header_field st mem i c is_last mark p u
         | s_headers_almost_done \<Rightarrow>
             (if c \<noteq> LF then Stop p u else Next (p\<lparr>state := s_part_data_start\<rparr>) mark u)
         | s_header_value_start \<Rightarrow>
             (if c = CHR '' '' then Next p mark u
              else step_header_value st mem i c is_last i (p\<lparr>state := s_header_value\<rparr>) u)
         | s_header_value \<Rightarrow> step_header_value st mem i c is_last mark p u
         | s_header_value_almost_done \<Rightarrow>
             (if c \<noteq> LF then Stop p u else Next (p\<lparr>state := s_header_field_start\<rparr>) mark u)
         | s_part_data_start \<Rightarrow>
             (let (ok, u1) = notify_cb (on_headers_complete st) u
              in if \<not> ok then Stop p u1
                 else step_part_data st mem i c is_last i (p\<lparr>state := s_part_data\<rparr>) u1)
         | s_part_data \<Rightarrow> step_part_data st mem i c is_last mark p u
         | s_part_data_almost_boundary \<Rightarrow> step_almost_boundary st i c mark p u
         | s_part_data_boundary \<Rightarrow> step_boundary st i c mark p u
         | s_part_data_almost_end \<Rightarrow>
             (if c = CHR ''-'' then Next (p\<lparr>state := s_part_data_final_hyphen\<rparr>) mark u
              else if c = CR then Next (p\<lparr>state := s_part_data_end\<rparr>) mark u
              else Stop p u)
         | s_part_data_final_hyphen \<Rightarrow>
             (if c = CHR ''-''
              then (let (ok, u1) = notify_cb (on_body_end st) u
                    in if \<not> ok then Stop p u1 else Next (p\<lparr>state := s_end\<rparr>) mark u1)
              else Stop p u)
         | s_part_data_end \<Rightarrow>
             (if c = LF
              then (let p1 = p\<lparr>state := s_header_field_start\<rparr>;
                        (ok, u1) = notify_cb (on_part_data_begin st) u
                    in if \<not> ok then Stop p1 u1 else Next p1 mark u1)
              else Stop p u)
         | s_end \<Rightarrow> Next p mark u
         | s_uninitialized \<Rightarrow> Dead p u)"

lemmas step_defs =
  step_start_boundary_def step_header_field_def step_header_value_def step_part_data_def
  step_almost_boundary_def step_boundary_def

definition rescans :: "mp_state \<Rightarrow> nat" where
  "rescans s = (if s = s_part_data_almost_boundary \<or> s = s_part_data_boundary then 1 else 0)"

lemma mp_step_Again:
  assumes "mp_step st mem len i mark p u = Again p' mark' u'"
  shows "rescans (state p) = 1" "state p' = s_part_data" "mark' = i"
  using assms
  by (auto simp: mp_step_def step_defs Let_def rescans_def
      split: mp_state.splits if_splits prod.splits)

section \<open>\<open>multipart_parser_execute\<close>\<close>

function mp_loop ::
  "'u settings \<Rightarrow> string \<Rightarrow> nat \<Rightarrow> nat \<Rightarrow> nat \<Rightarrow> parser \<Rightarrow> 'u \<Rightarrow> nat \<times> parser \<times> 'u" where
  "mp_loop st mem len i mark p u =
     (if i < len
      then (case mp_step st mem len i mark p u of
              Stop p' u' \<Rightarrow> (i, p', u')
            | Dead p' u' \<Rightarrow> (0, p', u')
            | Next p' mark' u' \<Rightarrow> mp_loop st mem len (i + 1) mark' p' u'
            | Again p' mark' u' \<Rightarrow> mp_loop st mem len i mark' p' u')
      else (len, p, u))"
  by pat_completeness auto
termination
proof (relation "measure (\<lambda>(st, mem, len, i, mark, p, u). 2 * (len - i) + rescans (state p))")
  fix st :: "'u settings" and mem len i mark p and u :: 'u and p' mark' u'
  assume "mp_step st mem len i mark p u = Again p' mark' u'"
  from mp_step_Again [OF this]
  show "((st, mem, len, i, mark', p', u'), st, mem, len, i, mark, p, u)
      \<in> measure (\<lambda>(st, mem, len, i, mark, p, u). 2 * (len - i) + rescans (state p))"
    by (simp add: rescans_def)
qed (auto simp: rescans_def)

declare mp_loop.simps [simp del]

definition multipart_parser_execute ::
  "'u settings \<Rightarrow> parser \<Rightarrow> string \<Rightarrow> nat \<Rightarrow> 'u \<Rightarrow> nat \<times> parser \<times> 'u" where
  \<comment> \<open>\<open>mem\<close> is the array that \<open>buf\<close> points to, \<open>len\<close> bytes of it are input\<close>
  "multipart_parser_execute st p mem len u = mp_loop st mem len 0 0 p u"

section \<open>The parser's own invariant\<close>

definition in_data :: "mp_state \<Rightarrow> bool" where
  "in_data s \<longleftrightarrow> s = s_part_data \<or> s = s_part_data_almost_boundary \<or> s = s_part_data_boundary"

definition parser_dims :: "parser \<Rightarrow> bool" where
  \<comment> \<open>the block is laid out as \<open>multipart_parser_init\<close> made it, the index is inside it\<close>
  "parser_dims p \<longleftrightarrow>
     multipart_boundary p \<noteq> [] \<and> boundary_length p = length (multipart_boundary p) \<and>
     length (lookbehind p) = boundary_length p + 9 \<and> index p \<le> boundary_length p + 1"

definition parser_ok :: "parser \<Rightarrow> bool" where
  "parser_ok p \<longleftrightarrow> parser_dims p \<and>
     (state p = s_part_data_almost_boundary \<longrightarrow> take (Suc 0) (lookbehind p) = [CR]) \<and>
     (state p = s_part_data_boundary \<longrightarrow> index p < boundary_length p \<and>
        take (Suc (Suc (index p))) (lookbehind p) = CR # LF # take (index p) (multipart_boundary p))"

lemmas parser_ok_defs = parser_ok_def parser_dims_def

lemma parser_ok_init: "boundary \<noteq> [] \<Longrightarrow> parser_ok (multipart_parser_init ptr fresh boundary)"
  by (simp add: parser_ok_defs multipart_parser_init_def)

lemma parser_ok_dims: "parser_ok p \<Longrightarrow> parser_dims p"
  by (simp add: parser_ok_def)

lemma parser_ok_state:
  "parser_dims p \<Longrightarrow> s \<noteq> s_part_data_almost_boundary \<Longrightarrow> s \<noteq> s_part_data_boundary \<Longrightarrow>
   parser_ok (p\<lparr>state := s\<rparr>)"
  by (simp add: parser_ok_defs)

lemma boundary_at_in:
  "k < length (multipart_boundary p) \<Longrightarrow> boundary_at p k = multipart_boundary p ! k"
  by (simp add: boundary_at_def at_def nth_append)

lemma take_put_snoc: "n < length l \<Longrightarrow> take (Suc n) (put l n c) = take n l @ [c]"
  by (simp add: put_def take_Suc_conv_app_nth)

definition step_ok :: "'u mp_result \<Rightarrow> bool" where
  "step_ok r = (case r of
      Stop p u \<Rightarrow> parser_dims p | Dead p u \<Rightarrow> parser_dims p
    | Next p m u \<Rightarrow> parser_ok p | Again p m u \<Rightarrow> parser_ok p)"

lemma step_ok_simps [simp]:
  "step_ok (Stop p u) = parser_dims p" "step_ok (Dead p u) = parser_dims p"
  "step_ok (Next p m u) = parser_ok p" "step_ok (Again p m u) = parser_ok p"
  by (simp_all add: step_ok_def)

lemma step_start_boundary_ok:
  "parser_dims p \<Longrightarrow> state p = s_start_boundary \<Longrightarrow> step_ok (step_start_boundary st c mark p u)"
  by (auto simp: step_start_boundary_def parser_ok_defs Let_def split: prod.splits)

lemma step_header_field_ok:
  "parser_dims p \<Longrightarrow> state p = s_header_field \<Longrightarrow> step_ok (step_header_field st mem i c l mark p u)"
  by (auto simp: step_header_field_def parser_ok_defs Let_def split: prod.splits)

lemma step_header_value_ok:
  "parser_dims p \<Longrightarrow> state p = s_header_value \<Longrightarrow> step_ok (step_header_value st mem i c l mark p u)"
  by (auto simp: step_header_value_def parser_ok_defs Let_def split: prod.splits)

lemma step_part_data_ok:
  "parser_dims p \<Longrightarrow> state p = s_part_data \<Longrightarrow> step_ok (step_part_data st mem i c l mark p u)"
  by (auto simp: step_part_data_def parser_ok_defs take_put_snoc split: prod.splits)

lemma step_almost_boundary_ok:
  "parser_ok p \<Longrightarrow> state p = s_part_data_almost_boundary \<Longrightarrow>
   step_ok (step_almost_boundary st i c mark p u)"
  by (auto simp: step_almost_boundary_def parser_ok_defs take_put_snoc split: prod.splits)

lemma step_boundary_ok:
  assumes "parser_ok p" "state p = s_part_data_boundary"
  shows "step_ok (step_boundary st i c mark p u)"
proof (cases "boundary_at p (index p) = c")
  case False
  with assms show ?thesis by (auto simp: step_boundary_def parser_ok_defs split: prod.splits)
next
  case True
  have idx: "index p < length (multipart_boundary p)" using assms by (simp add: parser_ok_defs)
  have "take (Suc (Suc (Suc (index p)))) (put (lookbehind p) (Suc (Suc (index p))) c) =
      CR # LF # take (index p) (multipart_boundary p) @ [multipart_boundary p ! index p]"
    using assms True idx by (subst take_put_snoc) (auto simp: parser_ok_defs boundary_at_in)
  then have "take (Suc (Suc (Suc (index p)))) (put (lookbehind p) (Suc (Suc (index p))) c) =
      CR # LF # take (Suc (index p)) (multipart_boundary p)"
    using idx by (simp add: take_Suc_conv_app_nth)
  with True assms idx show ?thesis
    by (auto simp: step_boundary_def parser_ok_defs Let_def split: prod.splits)
qed

lemma mp_step_ok:
  assumes "parser_ok p"
  shows "step_ok (mp_step st mem len i mark p u)"
proof -
  note dims = parser_ok_dims [OF assms]
  have upd: "parser_dims (p\<lparr>state := s\<rparr>)" "parser_dims (p\<lparr>index := 0, state := s\<rparr>)" for s
    using dims by (simp_all add: parser_dims_def)
  show ?thesis
    using assms dims
    by (cases "state p")
      (simp_all add: mp_step_def Let_def step_start_boundary_ok step_header_field_ok
        step_header_value_ok step_part_data_ok step_almost_boundary_ok step_boundary_ok upd
        parser_ok_state split: prod.splits)
qed

lemma mp_loop_done: "\<not> i < len \<Longrightarrow> mp_loop st mem len i mark p u = (len, p, u)"
  by (simp add: mp_loop.simps)

lemma mp_loop_invariant:
  assumes step: "\<And>i mark p u. P p u \<Longrightarrow> i < len \<Longrightarrow>
      case mp_step st mem len i mark p u of
        Stop p' u' \<Rightarrow> Q p' u' | Dead p' u' \<Rightarrow> Q p' u' | Next p' m u' \<Rightarrow> P p' u' | Again p' m u' \<Rightarrow> P p' u'"
    and "P p u" "i \<le> len" "mp_loop st mem len i mark p u = (r, p', u')"
  shows "(r = len \<and> P p' u') \<or> (r < len \<and> Q p' u')"
  using assms
proof (induction st mem len i mark p u rule: mp_loop.induct)
  case (1 st mem len i mark p u)
  show ?case
  proof (cases "i < len")
    case False
    with "1.prems"(2-4) show ?thesis by (simp add: mp_loop_done)
  next
    case True
    note step1 = "1.prems"(1) [OF "1.prems"(2) True, of mark]
    show ?thesis
    proof (cases "mp_step st mem len i mark p u")
      case (Next p1 m u1)
      show ?thesis
        by (rule "1.IH"(1) [OF True Next "1.prems"(1)])
          (use Next step1 True "1.prems"(4) in \<open>auto simp: mp_loop.simps [of st mem len i]\<close>)
    next
      case (Again p1 m u1)
      show ?thesis
        by (rule "1.IH"(2) [OF True Again "1.prems"(1)])
          (use Again step1 True "1.prems"(4) in \<open>auto simp: mp_loop.simps [of st mem len i]\<close>)
    qed (use step1 True "1.prems"(4) in \<open>auto simp: mp_loop.simps [of st mem len i]\<close>)
  qed
qed

text \<open>Part data without CR is delivered with the last byte of the buffer, in one piece.\<close>

lemma loop_plain:
  assumes "CR \<notin> set (drop i (take len mem))" "i < len" "len \<le> length mem" "mark \<le> i"
    "state p = s_part_data"
  shows "mp_loop st mem len i mark p u =
    (case emit_data_cb (on_part_data st) (drop mark mem) (len - mark) u of
       (ok, u') \<Rightarrow> if ok then (len, p, u') else (len - 1, p, u'))"
  using assms
proof (induction "len - i" arbitrary: i)
  case (Suc n)
  have d: "drop i (take len mem) = mem ! i # drop (Suc i) (take len mem)"
    using Suc.prems(2,3) by (subst Cons_nth_drop_Suc [symmetric]) simp_all
  then have c: "mem ! i \<noteq> CR" using Suc.prems(1) by auto
  show ?case
  proof (cases "Suc i = len")
    case True
    then have len: "len = Suc i" by simp
    with c Suc.prems(4,5) show ?thesis
      by (simp add: len mp_loop.simps [of st mem "Suc i" i] mp_step_def Let_def step_part_data_def
          mp_loop_done Suc_diff_le split: prod.splits)
  next
    case False
    with Suc d have "mp_loop st mem len (Suc i) mark p u =
      (case emit_data_cb (on_part_data st) (drop mark mem) (len - mark) u of
         (ok, u') \<Rightarrow> if ok then (len, p, u') else (len - 1, p, u'))"
      by (intro Suc.hyps(1)) auto
    moreover have "i \<noteq> len - 1" using False Suc.prems(2) by simp
    ultimately show ?thesis
      using c Suc.prems(2,5)
      by (simp add: mp_loop.simps [of st mem len i] mp_step_def Let_def step_part_data_def)
  qed
qed simp

lemma execute_ok:
  assumes "parser_ok p" "multipart_parser_execute st p mem len u = (r, p', u')"
  shows "(r = len \<and> parser_ok p') \<or> (r < len \<and> parser_dims p')"
proof (rule mp_loop_invariant [where P = "\<lambda>p u. parser_ok p" and Q = "\<lambda>p u. parser_dims p"])
  show "mp_loop st mem len 0 0 p u = (r, p', u')"
    using assms(2) by (simp add: multipart_parser_execute_def)
  fix i mark p u
  assume "parser_ok p"
  then show "case mp_step st mem len i mark p u of
      Stop p' u' \<Rightarrow> parser_dims p' | Dead p' u' \<Rightarrow> parser_dims p'
    | Next p' m u' \<Rightarrow> parser_ok p' | Again p' m u' \<Rightarrow> parser_ok p'"
    using mp_step_ok [of p st mem len i mark u] by (simp add: step_ok_def)
qed (use assms in simp_all)

section \<open>Clients\<close>

text \<open>
  What a client keeps, phase by phase: one predicate between the parts and in the headers, one
  while part data is delivered, one for the state left behind when a callback refuses. The
  parser then keeps the phase invariant over any input.
\<close>

locale multipart_client =
  fixes st :: "'u settings"
    and outside :: "'u \<Rightarrow> bool"
    and inside :: "'u \<Rightarrow> bool"
    and refused :: "'u \<Rightarrow> bool"
  assumes field: "outside u \<Longrightarrow> emit_data_cb (on_header_field st) ptr n u = (ok, u') \<Longrightarrow>
      if ok then outside u' else refused u'"
    and hvalue: "outside u \<Longrightarrow> emit_data_cb (on_header_value st) ptr n u = (ok, u') \<Longrightarrow>
      if ok then outside u' else refused u'"
    and part_begin: "outside u \<Longrightarrow> notify_cb (on_part_data_begin st) u = (ok, u') \<Longrightarrow>
      if ok then outside u' else refused u'"
    and headers_complete: "outside u \<Longrightarrow> notify_cb (on_headers_complete st) u = (ok, u') \<Longrightarrow>
      if ok then inside u' else refused u'"
    and part_data: "inside u \<Longrightarrow> emit_data_cb (on_part_data st) ptr n u = (ok, u') \<Longrightarrow>
      if ok then inside u' else refused u'"
    and part_end: "inside u \<Longrightarrow> notify_cb (on_part_data_end st) u = (ok, u') \<Longrightarrow>
      if ok then outside u' else refused u'"
    and body_end: "outside u \<Longrightarrow> notify_cb (on_body_end st) u = (ok, u') \<Longrightarrow>
      if ok then outside u' else refused u'"
begin

definition phase :: "parser \<Rightarrow> 'u \<Rightarrow> bool" where
  "phase p u = (if in_data (state p) then inside u else outside u)"

definition step_keeps :: "'u mp_result \<Rightarrow> bool" where
  "step_keeps r = (case r of
      Stop p' u' \<Rightarrow> refused u' \<or> phase p' u' | Next p' m u' \<Rightarrow> phase p' u'
    | Again p' m u' \<Rightarrow> phase p' u' | Dead p' u' \<Rightarrow> phase p' u')"

lemma step_keeps_simps [simp]:
  "step_keeps (Stop p u) = (refused u \<or> phase p u)" "step_keeps (Next p m u) = phase p u"
  "step_keeps (Again p m u) = phase p u" "step_keeps (Dead p u) = phase p u"
  by (simp_all add: step_keeps_def)

lemma phase_states [simp]:
  "\<not> in_data (state p) \<Longrightarrow> phase p u = outside u"
  "in_data (state p) \<Longrightarrow> phase p u = inside u"
  by (simp_all add: phase_def)

lemma step_part_data_phase:
  assumes "inside u" "state p = s_part_data"
  shows "step_keeps (step_part_data st mem i c l mark p u)"
proof -
  obtain ok u1 where e: "emit_data_cb (on_part_data st) (drop mark mem) (i - mark) u = (ok, u1)"
    by fastforce
  obtain ok2 u2 where e2: "emit_data_cb (on_part_data st) (drop mark mem) (i - mark + 1) u = (ok2, u2)"
    by fastforce
  from part_data [OF assms(1) e] part_data [OF assms(1) e2] assms show ?thesis
    by (auto simp: step_part_data_def e e2 in_data_def simp del: One_nat_def add_Suc_right
        Nat.add_0_right)
qed

lemma step_header_field_phase:
  assumes "outside u" "state p = s_header_field"
  shows "step_keeps (step_header_field st mem i c l mark p u)"
proof -
  obtain ok u1 where e: "emit_data_cb (on_header_field st) (drop mark mem) (i - mark) u = (ok, u1)"
    by fastforce
  obtain ok2 u2 where
    e2: "emit_data_cb (on_header_field st) (drop mark mem) (i - mark + 1) u = (ok2, u2)"
    by fastforce
  from field [OF assms(1) e] field [OF assms(1) e2] assms show ?thesis
    by (auto simp: step_header_field_def e e2 in_data_def simp del: One_nat_def
        add_Suc_right Nat.add_0_right)
qed

lemma step_header_value_phase:
  assumes "outside u" "state p = s_header_value"
  shows "step_keeps (step_header_value st mem i c l mark p u)"
proof -
  obtain ok u1 where e: "(if c = CR then emit_data_cb (on_header_value st) (drop mark mem) (i - mark) u
      else (True, u)) = (ok, u1)" by fastforce
  then have u1: "if ok then outside u1 else refused u1"
    using hvalue [OF assms(1)] assms(1) by (auto split: if_splits)
  obtain ok2 u2 where
    e2: "(if l then emit_data_cb (on_header_value st) (drop mark mem) (i - mark + 1) u1
      else (True, u1)) = (ok2, u2)" by fastforce
  then have "ok \<Longrightarrow> if ok2 then outside u2 else refused u2"
    using hvalue [of u1] u1 by (auto split: if_splits)
  with u1 assms show ?thesis
    by (auto simp: step_header_value_def e e2 in_data_def Let_def)
qed

lemma step_almost_boundary_phase:
  assumes "inside u" "in_data (state p)"
  shows "step_keeps (step_almost_boundary st i c mark p u)"
proof -
  obtain ok u1 where e: "emit_data_cb (on_part_data st) (lookbehind p) 1 u = (ok, u1)"
    by fastforce
  from part_data [OF assms(1) e] assms show ?thesis
    by (auto simp: step_almost_boundary_def e [simplified] in_data_def)
qed

lemma step_boundary_phase:
  assumes "inside u" "state p = s_part_data_boundary"
  shows "step_keeps (step_boundary st i c mark p u)"
proof -
  obtain ok u1 where e: "emit_data_cb (on_part_data st) (lookbehind p) (2 + index p) u = (ok, u1)"
    by fastforce
  obtain ok2 u2 where e2: "notify_cb (on_part_data_end st) u = (ok2, u2)" by fastforce
  from part_data [OF assms(1) e] part_end [OF assms(1) e2] assms show ?thesis
    by (auto simp: step_boundary_def e [simplified] e2 in_data_def Let_def)
qed

lemma step_start_boundary_phase:
  assumes "outside u" "state p = s_start_boundary"
  shows "step_keeps (step_start_boundary st c mark p u)"
proof -
  obtain ok u1 where e: "notify_cb (on_part_data_begin st) u = (ok, u1)" by fastforce
  from part_begin [OF assms(1) e] assms show ?thesis
    by (auto simp: step_start_boundary_def e Let_def in_data_def)
qed

lemma mp_step_phase:
  assumes "phase p u"
  shows "step_keeps (mp_step st mem len i mark p u)"
proof (cases "in_data (state p)")
  case True
  with assms have u: "inside u" by simp
  from True consider "state p = s_part_data" | "state p = s_part_data_almost_boundary"
    | "state p = s_part_data_boundary" by (auto simp: in_data_def)
  then show ?thesis
    using step_part_data_phase [OF u] step_almost_boundary_phase [OF u True] step_boundary_phase [OF u]
    by cases (simp_all add: mp_step_def Let_def)
next
  case out: False
  with assms have u: "outside u" by simp
  obtain ok1 u1 where h: "notify_cb (on_headers_complete st) u = (ok1, u1)" by fastforce
  obtain ok2 u2 where b: "notify_cb (on_body_end st) u = (ok2, u2)" by fastforce
  obtain ok3 u3 where g: "notify_cb (on_part_data_begin st) u = (ok3, u3)" by fastforce
  note cbs = headers_complete [OF u h] body_end [OF u b] part_begin [OF u g]
  show ?thesis
    using out u cbs
    by (cases "state p")
      (simp_all add: mp_step_def Let_def h b g in_data_def step_header_field_phase
        step_header_value_phase step_part_data_phase step_start_boundary_phase)
qed

lemma execute_phase:
  assumes "phase p u" "multipart_parser_execute st p mem len u = (r, p', u')"
  shows "phase p' u' \<or> (refused u' \<and> r < len)"
proof -
  have "(r = len \<and> phase p' u') \<or> (r < len \<and> (refused u' \<or> phase p' u'))"
  proof (rule mp_loop_invariant [where P = phase and Q = "\<lambda>p u. refused u \<or> phase p u"])
    show "mp_loop st mem len 0 0 p u = (r, p', u')"
      using assms(2) by (simp add: multipart_parser_execute_def)
    fix i mark p u
    assume "phase p u"
    then show "case mp_step st mem len i mark p u of
        Stop p' u' \<Rightarrow> refused u' \<or> phase p' u' | Dead p' u' \<Rightarrow> refused u' \<or> phase p' u'
      | Next p' m u' \<Rightarrow> phase p' u' | Again p' m u' \<Rightarrow> phase p' u'"
      using mp_step_phase [of p u mem len i mark]
      by (auto simp: step_keeps_def split: mp_result.splits)
  qed (use assms in simp_all)
  then show ?thesis by blast
qed

end

section \<open>Properties\<close>

text \<open>C8: over any input and any client, the parser keeps its heap block: the index never passes the
  boundary's NUL by more than one, every write to the look-behind array is inside it, the result is
  at most the number of bytes given; and when all bytes are taken, the look-behind array holds
  exactly the part of the delimiter matched so far.\<close>

theorem parser_stays_in_bounds:
  assumes "parser_ok p" "multipart_parser_execute st p mem len u = (r, p', u')"
  shows "parser_dims p' \<and> r \<le> len \<and> (r = len \<longrightarrow> parser_ok p')"
  using execute_ok [OF assms] parser_ok_dims by auto

definition no_callbacks :: "unit settings" where
  "no_callbacks = \<lparr>on_header_field = None, on_header_value = None, on_part_data = None,
     on_part_data_begin = None, on_headers_complete = None, on_part_data_end = None,
     on_body_end = None\<rparr>"

theorem parser_stays_in_bounds_witness:
  "parser_ok (fst (snd (multipart_parser_execute no_callbacks
     (multipart_parser_init 0 (\<lambda>_. NUL) ''--x'') ''--x'' 3 ())))"
proof -
  obtain r p' u' where e: "multipart_parser_execute no_callbacks
      (multipart_parser_init 0 (\<lambda>_. NUL) ''--x'') ''--x'' 3 () = (r, p', u')" by (metis prod_cases3)
  have "r = 3"
    using e by (simp add: multipart_parser_execute_def mp_loop.simps mp_step_def
        multipart_parser_init_def step_start_boundary_def boundary_at_def at_def)
  with parser_stays_in_bounds [OF parser_ok_init e] e show ?thesis by simp
qed

end
