(* ===== verification/Multipart_Data.thy ===== *)
theory Multipart_Data
  imports Multipart
begin

text \<open>
  What the parser delivers: a client that records every callback, the abstract machine that
  splits part data from the delimiter byte by byte, and the theorem that the parser's batched
  callbacks deliver exactly the part data, however the input is cut into buffers.
\<close>

section \<open>A recording client\<close>

datatype mp_event =
  EvField string | EvValue string | EvData string | EvPartBegin | EvHeaders | EvPartEnd | EvBodyEnd

definition rec_data :: "(string \<Rightarrow> mp_event) \<Rightarrow> mp_event list data_cb option" where
  "rec_data ev = Some (\<lambda>ptr n log. (0, log @ [ev (take n ptr)]))"

definition rec_notify :: "mp_event \<Rightarrow> mp_event list notify_cb option" where
  "rec_notify ev = Some (\<lambda>log. (0, log @ [ev]))"

definition recorder :: "mp_event list settings" where
  "recorder =
     \<lparr>on_header_field = rec_data EvField, on_header_value = rec_data EvValue,
      on_part_data = rec_data EvData, on_part_data_begin = rec_notify EvPartBegin,
      on_headers_complete = rec_notify EvHeaders, on_part_data_end = rec_notify EvPartEnd,
      on_body_end = rec_notify EvBodyEnd\<rparr>"

lemma recorder_emits [simp]:
  "emit_data_cb (on_header_field recorder) ptr n log = (True, log @ [EvField (take n ptr)])"
  "emit_data_cb (on_header_value recorder) ptr n log = (True, log @ [EvValue (take n ptr)])"
  "emit_data_cb (on_part_data recorder) ptr n log = (True, log @ [EvData (take n ptr)])"
  "notify_cb (on_part_data_begin recorder) log = (True, log @ [EvPartBegin])"
  "notify_cb (on_headers_complete recorder) log = (True, log @ [EvHeaders])"
  "notify_cb (on_part_data_end recorder) log = (True, log @ [EvPartEnd])"
  "notify_cb (on_body_end recorder) log = (True, log @ [EvBodyEnd])"
  by (simp_all add: recorder_def rec_data_def rec_notify_def emit_data_cb_def notify_cb_def)

fun data_of :: "mp_event list \<Rightarrow> string" where
  "data_of [] = []"
| "data_of (EvData s # evs) = s @ data_of evs"
| "data_of (e # evs) = data_of evs"

lemma data_of_append [simp]: "data_of (xs @ ys) = data_of xs @ data_of ys"
  by (induction xs rule: data_of.induct) auto

definition only_data :: "mp_event list \<Rightarrow> bool" where
  "only_data = list_all (\<lambda>e. case e of EvData s \<Rightarrow> True | _ \<Rightarrow> False)"

lemma only_data_simps [simp]:
  "only_data []" "only_data (EvData s # evs) = only_data evs"
  "only_data (xs @ ys) = (only_data xs \<and> only_data ys)"
  by (simp_all add: only_data_def)

section \<open>The delimiter machine\<close>

text \<open>
  The part data ends at the first CR LF boundary. The machine reads one byte at a time; what it
  has matched of the delimiter is held back and released when the match fails.
\<close>

datatype dstate = Data | Almost | Bnd nat | Found

fun held :: "string \<Rightarrow> dstate \<Rightarrow> string" where
  "held b Data = []"
| "held b Almost = [CR]"
| "held b (Bnd k) = CR # LF # take k b"
| "held b Found = CR # LF # b"

definition dm_data :: "char \<Rightarrow> string \<times> dstate" where
  "dm_data c = (if c = CR then ([], Almost) else ([c], Data))"

fun dm_step :: "string \<Rightarrow> dstate \<Rightarrow> char \<Rightarrow> string \<times> dstate" where
  "dm_step b Data c = dm_data c"
| "dm_step b Almost c =
     (if c = LF then ([], Bnd 0) else (CR # fst (dm_data c), snd (dm_data c)))"
| "dm_step b (Bnd k) c =
     (if b ! k = c then ([], if Suc k = length b then Found else Bnd (Suc k))
      else (CR # LF # take k b @ fst (dm_data c), snd (dm_data c)))"
| "dm_step b Found c = ([], Found)"

fun dm_run :: "string \<Rightarrow> dstate \<Rightarrow> string \<Rightarrow> string \<times> dstate \<times> string" where
  \<comment> \<open>what is released, the state reached, the input behind the delimiter\<close>
  "dm_run b d [] = ([], d, [])"
| "dm_run b d (c # cs) =
     (if d = Found then ([], Found, c # cs)
      else (let (o1, d1) = dm_step b d c; (o2, d2, r) = dm_run b d1 cs in (o1 @ o2, d2, r)))"

definition dm_ok :: "string \<Rightarrow> dstate \<Rightarrow> bool" where
  "dm_ok b d = (case d of Bnd k \<Rightarrow> k < length b | _ \<Rightarrow> True)"

lemma dm_step_ok: "dm_ok b d \<Longrightarrow> b \<noteq> [] \<Longrightarrow> dm_ok b (snd (dm_step b d c))"
  by (cases d) (auto simp: dm_ok_def dm_data_def)

lemma dm_step_conserves:
  "dm_ok b d \<Longrightarrow> d \<noteq> Found \<Longrightarrow> dm_step b d c = (out, d') \<Longrightarrow> held b d @ [c] = out @ held b d'"
  by (cases d)
    (auto simp: dm_ok_def dm_data_def simp flip: take_Suc_conv_app_nth split: if_splits)

lemma dm_run_conserves:
  "dm_ok b d \<Longrightarrow> b \<noteq> [] \<Longrightarrow> dm_run b d cs = (out, d', r) \<Longrightarrow>
   held b d @ cs = out @ held b d' @ r \<and> dm_ok b d' \<and> (d' \<noteq> Found \<longrightarrow> r = [])"
proof (induction cs arbitrary: d out d' r)
  case Nil
  then show ?case by auto
next
  case (Cons c cs)
  show ?case
  proof (cases "d = Found")
    case True
    with Cons.prems show ?thesis by (auto simp: dm_ok_def)
  next
    case False
    obtain o1 d1 where s: "dm_step b d c = (o1, d1)" by fastforce
    obtain o2 d2 r2 where q: "dm_run b d1 cs = (o2, d2, r2)" by (metis prod_cases3)
    have "held b d @ [c] = o1 @ held b d1"
      using dm_step_conserves [OF Cons.prems(1) False s] .
    moreover have "held b d1 @ cs = o2 @ held b d2 @ r2 \<and> dm_ok b d2 \<and> (d2 \<noteq> Found \<longrightarrow> r2 = [])"
      using dm_step_ok [OF Cons.prems(1,2), of c] s Cons.prems(2) q by (intro Cons.IH) simp_all
    ultimately show ?thesis
      using Cons.prems(3) False s q
      by simp (metis append.assoc append_Cons append_Nil)
  qed
qed

lemma dm_run_append:
  "dm_run b d (xs @ ys) =
     (let (o1, d1, r1) = dm_run b d xs
      in if d1 = Found then (o1, Found, r1 @ ys)
         else (let (o2, d2, r2) = dm_run b d1 ys in (o1 @ o2, d2, r2)))"
proof (induction xs arbitrary: d)
  case Nil
  show ?case by (cases ys) (auto split: prod.splits)
next
  case (Cons x xs)
  then show ?case by (auto simp: Let_def split: prod.splits)
qed

lemma dm_run_boundary:
  "k < length b \<Longrightarrow> dm_run b (Bnd k) (drop k b @ r) = ([], Found, r)"
proof (induction "length b - k" arbitrary: k)
  case 0
  then show ?case by simp
next
  case (Suc n)
  have "drop k b @ r = b ! k # drop (Suc k) b @ r"
    using Suc.prems by (simp add: Cons_nth_drop_Suc)
  then show ?case
    using Suc.hyps(1) [of "Suc k"] Suc.hyps(2) Suc.prems
    by (cases r) (auto simp: not_less_eq)
qed

lemma dm_run_delimiter:
  assumes "b \<noteq> []" "CR \<notin> set b" "dm_ok b d" "d \<noteq> Found"
  shows "dm_run b d (CR # LF # b @ r) = (held b d, Found, r)"
proof -
  have "d = Bnd k \<Longrightarrow> b ! k \<noteq> CR" for k
    using assms(2,3) by (auto simp: dm_ok_def dest: nth_mem)
  then have "dm_step b d CR = (held b d, Almost)"
    using assms(4) by (cases d) (auto simp: dm_data_def)
  then show ?thesis
    using assms(1,4) dm_run_boundary [of 0 b r] by simp
qed

text \<open>Part data without the delimiter comes out whole, in front of the delimiter.\<close>

definition delimiter_free :: "string \<Rightarrow> string \<Rightarrow> bool" where
  "delimiter_free b s \<longleftrightarrow> \<not> (\<exists>x y. s = x @ CR # LF # b @ y)"

lemma dm_run_part:
  assumes "b \<noteq> []" "CR \<notin> set b" "delimiter_free b s"
  shows "dm_run b Data (s @ CR # LF # b @ r) = (s, Found, r)"
proof -
  obtain o1 d1 r1 where q: "dm_run b Data s = (o1, d1, r1)" by (metis prod_cases3)
  have c: "s = o1 @ held b d1 @ r1 \<and> dm_ok b d1 \<and> (d1 \<noteq> Found \<longrightarrow> r1 = [])"
    using dm_run_conserves [OF _ assms(1) q] by (simp add: dm_ok_def)
  have "d1 \<noteq> Found"
  proof
    assume "d1 = Found"
    with c have "s = o1 @ CR # LF # b @ r1" by simp
    with assms(3) show False by (auto simp: delimiter_free_def)
  qed
  then have run: "dm_run b Data (s @ CR # LF # b @ r) =
      (let (o2, d2, r2) = dm_run b d1 (CR # LF # b @ r) in (o1 @ o2, d2, r2))"
    by (simp only: dm_run_append q) simp
  from c \<open>d1 \<noteq> Found\<close> have "dm_ok b d1" "s = o1 @ held b d1" by simp_all
  with dm_run_delimiter [OF assms(1,2) _ \<open>d1 \<noteq> Found\<close>, of r] run show ?thesis by simp
qed

section \<open>The parser follows the machine\<close>

fun dstate_of :: "parser \<Rightarrow> dstate" where
  "dstate_of p =
     (if state p = s_part_data then Data
      else if state p = s_part_data_almost_boundary then Almost
      else Bnd (index p))"

definition pending :: "parser \<Rightarrow> string \<Rightarrow> nat \<Rightarrow> nat \<Rightarrow> nat \<Rightarrow> string" where
  \<comment> \<open>bytes read in state \<open>s_part_data\<close> and not yet delivered\<close>
  "pending p mem len i mark =
     (if state p = s_part_data \<and> i < len then take (i - mark) (drop mark mem) else [])"

definition data_inv :: "parser \<Rightarrow> nat \<Rightarrow> nat \<Rightarrow> bool" where
  "data_inv p i mark \<longleftrightarrow> parser_ok p \<and> in_data (state p) \<and> (state p = s_part_data \<longrightarrow> mark \<le> i)"

lemma take_pending_Suc:
  "mark \<le> i \<Longrightarrow> i < length mem \<Longrightarrow>
   take (Suc i - mark) (drop mark mem) = take (i - mark) (drop mark mem) @ [mem ! i]"
  by (simp add: Suc_diff_le take_Suc_conv_app_nth)

lemma mp_loop_Next:
  "i < len \<Longrightarrow> mp_step st mem len i mark p u = Next p' m u' \<Longrightarrow>
   mp_loop st mem len i mark p u = mp_loop st mem len (Suc i) m p' u'"
  by (subst mp_loop.simps) simp

lemma mp_loop_Again:
  "i < len \<Longrightarrow> mp_step st mem len i mark p u = Again p' m u' \<Longrightarrow>
   mp_loop st mem len i mark p u = mp_loop st mem len i m p' u'"
  by (subst mp_loop.simps) simp

text \<open>One byte of the loop moves the parser as the machine moves, and what is delivered or pending
  afterwards is what was pending before and what the machine releases.\<close>

definition tracks ::
  "string \<Rightarrow> nat \<Rightarrow> nat \<Rightarrow> nat \<Rightarrow> parser \<Rightarrow> mp_event list \<Rightarrow> string \<Rightarrow> dstate \<Rightarrow> bool" where
  "tracks mem len i mark p u out d' \<longleftrightarrow>
     (\<exists>p' mark' E. mp_loop recorder mem len i mark p u = mp_loop recorder mem len (Suc i) mark' p' (u @ E) \<and>
        multipart_boundary p' = multipart_boundary p \<and>
        (if d' = Found
         then state p' = s_part_data_almost_end \<and> parser_ok p' \<and>
              (\<exists>D. E = D @ [EvPartEnd] \<and> only_data D \<and> data_of D = pending p mem len i mark @ out)
         else data_inv p' (Suc i) mark' \<and> dstate_of p' = d' \<and> only_data E \<and>
              data_of E @ pending p' mem len (Suc i) mark' = pending p mem len i mark @ out))"

lemma dm_data_not_Found: "snd (dm_data c) \<noteq> Found"
  by (simp add: dm_data_def)

lemma tracksI:
  assumes "i < len" "mp_step recorder mem len i mark p u = Next p' mark' (u @ E)"
    "multipart_boundary p' = multipart_boundary p" "d' \<noteq> Found" "data_inv p' (Suc i) mark'"
    "dstate_of p' = d'" "only_data E"
    "data_of E @ pending p' mem len (Suc i) mark' = pending p mem len i mark @ out"
  shows "tracks mem len i mark p u out d'"
  unfolding tracks_def
  by (intro exI [of _ p'] exI [of _ mark'] exI [of _ E])
    (use assms mp_loop_Next [OF assms(1,2)] in simp)

lemma tracks_data:
  assumes "data_inv p i mark" "state p = s_part_data" "i < len" "len \<le> length mem"
  shows "tracks mem len i mark p u (fst (dm_data (mem ! i))) (snd (dm_data (mem ! i)))"
proof -
  have ok: "parser_ok p" "mark \<le> i" using assms(1,2) by (simp_all add: data_inv_def)
  have pend: "pending p mem len i mark = take (i - mark) (drop mark mem)"
    using assms by (simp add: pending_def)
  consider (cr) "mem ! i = CR" | (last) "mem ! i \<noteq> CR" "len = Suc i"
    | (more) "mem ! i \<noteq> CR" "Suc i < len" using assms(3) by linarith
  then show ?thesis
  proof cases
    case cr
    let ?p = "p\<lparr>state := s_part_data_almost_boundary, lookbehind := put (lookbehind p) 0 CR\<rparr>"
    have step: "mp_step recorder mem len i mark p u =
        Next ?p i (u @ [EvData (take (i - mark) (drop mark mem))])"
      using assms(2) cr by (simp add: mp_step_def Let_def step_part_data_def)
    have inv: "data_inv ?p (Suc i) i"
      using ok by (simp add: data_inv_def parser_ok_defs in_data_def take_put_snoc)
    show ?thesis
      by (rule tracksI [OF assms(3) step _ dm_data_not_Found inv])
        (use cr pend in \<open>simp_all add: dm_data_def pending_def\<close>)
  next
    case last
    have step: "mp_step recorder mem len i mark p u =
        Next p mark (u @ [EvData (take (Suc i - mark) (drop mark mem))])"
      using assms(2) last ok(2) by (simp add: mp_step_def Let_def step_part_data_def Suc_diff_le)
    have inv: "data_inv p (Suc i) mark" using assms(1) by (auto simp: data_inv_def)
    show ?thesis
      by (rule tracksI [OF assms(3) step _ dm_data_not_Found inv])
        (use assms last ok pend in \<open>simp_all add: dm_data_def pending_def take_pending_Suc\<close>)
  next
    case more
    have step: "mp_step recorder mem len i mark p u = Next p mark (u @ [])"
      using assms(2) more by (simp add: mp_step_def Let_def step_part_data_def)
    have inv: "data_inv p (Suc i) mark" using assms(1) by (auto simp: data_inv_def)
    show ?thesis
      by (rule tracksI [OF assms(3) step _ dm_data_not_Found inv])
        (use assms more ok pend in \<open>simp_all add: dm_data_def pending_def take_pending_Suc\<close>)
  qed
qed

text \<open>A failed match: the held bytes are delivered and the byte is read again as data.\<close>

lemma tracks_Again:
  assumes "mp_step recorder mem len i mark p u = Again (p\<lparr>state := s_part_data\<rparr>) i (u @ [EvData h])"
    "parser_ok p" "in_data (state p)" "state p \<noteq> s_part_data" "i < len" "len \<le> length mem"
  shows "tracks mem len i mark p u (h @ fst (dm_data (mem ! i))) (snd (dm_data (mem ! i)))"
proof -
  let ?p = "p\<lparr>state := s_part_data\<rparr>"
  have "data_inv ?p i i" using assms(2) by (simp add: data_inv_def parser_ok_defs in_data_def)
  from tracks_data [OF this _ assms(5,6), of "u @ [EvData h]"]
  obtain p' mark' E where t:
    "mp_loop recorder mem len i i ?p (u @ [EvData h]) =
       mp_loop recorder mem len (Suc i) mark' p' ((u @ [EvData h]) @ E)"
    "multipart_boundary p' = multipart_boundary p"
    "data_inv p' (Suc i) mark'" "dstate_of p' = snd (dm_data (mem ! i))" "only_data E"
    "data_of E @ pending p' mem len (Suc i) mark' = fst (dm_data (mem ! i))"
    using dm_data_not_Found [of "mem ! i"] by (auto simp: tracks_def pending_def)
  have "pending p mem len i mark = []" using assms(4) by (simp add: pending_def)
  with t mp_loop_Again [OF assms(5,1)] dm_data_not_Found [of "mem ! i"] show ?thesis
    unfolding tracks_def
    by (intro exI [of _ p'] exI [of _ mark'] exI [of _ "EvData h # E"]) simp
qed

lemma tracks_byte:
  assumes "data_inv p i mark" "i < len" "len \<le> length mem"
  shows "tracks mem len i mark p u
    (fst (dm_step (multipart_boundary p) (dstate_of p) (mem ! i)))
    (snd (dm_step (multipart_boundary p) (dstate_of p) (mem ! i)))"
proof -
  have ok: "parser_ok p" "in_data (state p)" using assms(1) by (simp_all add: data_inv_def)
  consider (data) "state p = s_part_data" | (almost) "state p = s_part_data_almost_boundary"
    | (bnd) "state p = s_part_data_boundary" using ok(2) by (auto simp: in_data_def)
  then show ?thesis
  proof cases
    case data
    with tracks_data [OF assms(1) data assms(2,3)] show ?thesis by simp
  next
    case almost
    show ?thesis
    proof (cases "mem ! i = LF")
      case True
      let ?p = "p\<lparr>state := s_part_data_boundary, lookbehind := put (lookbehind p) 1 LF, index := 0\<rparr>"
      have step: "mp_step recorder mem len i mark p u = Next ?p mark (u @ [])"
        using almost True by (simp add: mp_step_def Let_def step_almost_boundary_def)
      have "data_inv ?p (Suc i) mark"
        using ok almost by (simp add: data_inv_def parser_ok_defs in_data_def take_put_snoc)
      with almost True mp_loop_Next [OF assms(2) step] show ?thesis
        unfolding tracks_def
        by (intro exI [of _ ?p] exI [of _ mark] exI [of _ "[]"]) (simp add: pending_def)
    next
      case False
      have "take 1 (lookbehind p) = [CR]" using ok almost by (simp add: parser_ok_def)
      then have "mp_step recorder mem len i mark p u =
          Again (p\<lparr>state := s_part_data\<rparr>) i (u @ [EvData [CR]])"
        using almost False by (simp add: mp_step_def Let_def step_almost_boundary_def)
      from tracks_Again [OF this ok _ assms(2,3)] almost False show ?thesis by simp
    qed
  next
    case bnd
    let ?b = "multipart_boundary p"
    have idx: "index p < length ?b" using ok bnd by (simp add: parser_ok_defs)
    have at: "boundary_at p (index p) = ?b ! index p" using idx by (rule boundary_at_in)
    have len: "boundary_length p = length ?b" using ok by (simp add: parser_ok_defs)
    show ?thesis
    proof (cases "?b ! index p = mem ! i")
      case False
      have "take (2 + index p) (lookbehind p) = CR # LF # take (index p) ?b"
        using ok bnd by (simp add: parser_ok_def)
      then have "mp_step recorder mem len i mark p u =
          Again (p\<lparr>state := s_part_data\<rparr>) i (u @ [EvData (CR # LF # take (index p) ?b)])"
        using bnd False at by (simp add: mp_step_def Let_def step_boundary_def)
      from tracks_Again [OF this ok _ assms(2,3)] bnd False show ?thesis by simp
    next
      case True
      let ?p = "p\<lparr>lookbehind := put (lookbehind p) (2 + index p) (mem ! i), index := index p + 1\<rparr>"
      have step_ok: "step_ok (mp_step recorder mem len i mark p u)" by (rule mp_step_ok [OF ok(1)])
      show ?thesis
      proof (cases "Suc (index p) = length ?b")
        case complete: True
        have step: "mp_step recorder mem len i mark p u =
            Next (?p\<lparr>state := s_part_data_almost_end\<rparr>) mark (u @ [EvPartEnd])"
          using bnd True at len complete by (simp add: mp_step_def Let_def step_boundary_def)
        with step_ok have "parser_ok (?p\<lparr>state := s_part_data_almost_end\<rparr>)" by simp
        with bnd True complete mp_loop_Next [OF assms(2) step] show ?thesis
          unfolding tracks_def
          by (intro exI [of _ "?p\<lparr>state := s_part_data_almost_end\<rparr>"] exI [of _ mark]
              exI [of _ "[EvPartEnd]"]) (simp add: pending_def)
      next
        case more: False
        have step: "mp_step recorder mem len i mark p u = Next ?p mark (u @ [])"
          using bnd True at len more by (simp add: mp_step_def Let_def step_boundary_def)
        with step_ok have "parser_ok ?p" by simp
        with bnd True more mp_loop_Next [OF assms(2) step] show ?thesis
          unfolding tracks_def
          by (intro exI [of _ ?p] exI [of _ mark] exI [of _ "[]"])
            (simp add: pending_def data_inv_def in_data_def)
      qed
    qed
  qed
qed

section \<open>A buffer of part data\<close>

lemma tracks_Found_step:
  assumes "data_inv p i mark" "i < len" "len \<le> length mem"
    "dm_step (multipart_boundary p) (dstate_of p) (mem ! i) = (o1, Found)"
  shows "\<exists>p' mark' D. mp_loop recorder mem len i mark p u =
      mp_loop recorder mem len (Suc i) mark' p' (u @ D @ [EvPartEnd]) \<and>
    state p' = s_part_data_almost_end \<and> parser_ok p' \<and>
    multipart_boundary p' = multipart_boundary p \<and> only_data D \<and>
    data_of D = pending p mem len i mark @ o1"
  using tracks_byte [OF assms(1-3), of u] unfolding assms(4) tracks_def by auto

lemma tracks_on:
  assumes "data_inv p i mark" "i < len" "len \<le> length mem"
    "dm_step (multipart_boundary p) (dstate_of p) (mem ! i) = (o1, d1)" "d1 \<noteq> Found"
  obtains p' mark' E where
    "mp_loop recorder mem len i mark p u = mp_loop recorder mem len (Suc i) mark' p' (u @ E)"
    "data_inv p' (Suc i) mark'" "dstate_of p' = d1"
    "multipart_boundary p' = multipart_boundary p" "only_data E"
    "data_of E @ pending p' mem len (Suc i) mark' = pending p mem len i mark @ o1"
  using tracks_byte [OF assms(1-3), of u] assms(5) unfolding assms(4) tracks_def by auto

lemma dstate_of_not_Found: "dstate_of p \<noteq> Found" by simp

lemma pending_end: "pending p mem len len mark = []" by (simp add: pending_def)

text \<open>The loop over the rest of the buffer: either the delimiter is not complete, and everything
  released has been delivered when the buffer is used up, or the part ends behind it.\<close>

definition runs_on ::
  "string \<Rightarrow> nat \<Rightarrow> nat \<Rightarrow> nat \<Rightarrow> parser \<Rightarrow> mp_event list \<Rightarrow> string \<Rightarrow> dstate \<Rightarrow> bool" where
  "runs_on mem len i mark p u out d \<longleftrightarrow>
     (\<exists>p' E. mp_loop recorder mem len i mark p u = (len, p', u @ E) \<and> parser_ok p' \<and>
        in_data (state p') \<and> dstate_of p' = d \<and> multipart_boundary p' = multipart_boundary p \<and>
        only_data E \<and> data_of E = pending p mem len i mark @ out)"

definition runs_out ::
  "string \<Rightarrow> nat \<Rightarrow> nat \<Rightarrow> nat \<Rightarrow> parser \<Rightarrow> mp_event list \<Rightarrow> string \<Rightarrow> nat \<Rightarrow> bool" where
  "runs_out mem len i mark p u out rest \<longleftrightarrow>
     (\<exists>p' mark' D. mp_loop recorder mem len i mark p u =
          mp_loop recorder mem len (len - rest) mark' p' (u @ D @ [EvPartEnd]) \<and>
        state p' = s_part_data_almost_end \<and> parser_ok p' \<and>
        multipart_boundary p' = multipart_boundary p \<and> only_data D \<and>
        data_of D = pending p mem len i mark @ out)"

lemma data_loop:
  assumes "data_inv p i mark" "i \<le> len" "len \<le> length mem"
    "dm_run (multipart_boundary p) (dstate_of p) (drop i (take len mem)) = (out, d, r)"
  shows "if d = Found then runs_out mem len i mark p u out (length r)
         else runs_on mem len i mark p u out d"
  using assms
proof (induction "len - i" arbitrary: i mark p u out)
  case 0
  then have "i = len" "out = []" "d = dstate_of p" by simp_all
  with "0.prems"(1) dstate_of_not_Found [of p] show ?case
    by (simp add: runs_on_def mp_loop_done pending_end data_inv_def exI [of _ "[]"])
next
  case (Suc n)
  then have i: "i < len" by simp
  let ?b = "multipart_boundary p"
  obtain o1 d1 where s: "dm_step ?b (dstate_of p) (mem ! i) = (o1, d1)" by fastforce
  obtain o2 d2 r2 where q: "dm_run ?b d1 (drop (Suc i) (take len mem)) = (o2, d2, r2)"
    by (metis prod_cases3)
  have "drop i (take len mem) = mem ! i # drop (Suc i) (take len mem)"
    using i Suc.prems(3) by (subst Cons_nth_drop_Suc [symmetric]) simp_all
  with Suc.prems(4) s q dstate_of_not_Found [of p]
  have out: "out = o1 @ o2" "d = d2" "r = r2" by simp_all
  show ?case
  proof (cases "d1 = Found")
    case True
    with q have "o2 = []" "d2 = Found" "r2 = drop (Suc i) (take len mem)"
      by (cases "drop (Suc i) (take len mem)"; simp)+
    with out i Suc.prems(3) have eq: "d = Found" "out = o1" "len - length r = Suc i" by simp_all
    from tracks_Found_step [OF Suc.prems(1) i Suc.prems(3) s [unfolded True], of u]
    show ?thesis unfolding runs_out_def eq by simp
  next
    case False
    obtain p' mark' E where t:
      "mp_loop recorder mem len i mark p u = mp_loop recorder mem len (Suc i) mark' p' (u @ E)"
      "data_inv p' (Suc i) mark'" "dstate_of p' = d1"
      "multipart_boundary p' = multipart_boundary p" "only_data E"
      "data_of E @ pending p' mem len (Suc i) mark' = pending p mem len i mark @ o1"
      by (rule tracks_on [OF Suc.prems(1) i Suc.prems(3) s False])
    have "if d = Found then runs_out mem len (Suc i) mark' p' (u @ E) o2 (length r)
        else runs_on mem len (Suc i) mark' p' (u @ E) o2 d"
      using Suc.hyps(2) i q t(2-4) out Suc.prems(3) by (intro Suc.hyps(1)) simp_all
    moreover have "only_data F \<Longrightarrow> data_of F = pending p' mem len (Suc i) mark' @ o2 \<Longrightarrow>
        only_data (E @ F) \<and> data_of (E @ F) = pending p mem len i mark @ out" for F
      using t(5,6) out by simp
    ultimately show ?thesis
      unfolding runs_on_def runs_out_def t(1) t(4) by (metis append.assoc)
  qed
qed

section \<open>Buffer after buffer\<close>

fun feed :: "'u settings \<Rightarrow> (string \<times> nat) list \<Rightarrow> parser \<Rightarrow> 'u \<Rightarrow> bool \<times> parser \<times> 'u" where
  \<comment> \<open>the client's loop over its buffers; it stops when the parser takes less than it was given\<close>
  "feed st [] p u = (True, p, u)"
| "feed st ((mem, len) # bufs) p u =
     (case multipart_parser_execute st p mem len u of (r, p', u') \<Rightarrow>
        if r = len then feed st bufs p' u' else (False, p', u'))"

definition input_of :: "(string \<times> nat) list \<Rightarrow> string" where
  "input_of bufs = concat (map (\<lambda>(mem, len). take len mem) bufs)"

definition bufs_ok :: "(string \<times> nat) list \<Rightarrow> bool" where
  "bufs_ok = list_all (\<lambda>(mem, len). len \<le> length mem)"

lemma input_of_simps [simp]:
  "input_of [] = []" "input_of ((mem, len) # bufs) = take len mem @ input_of bufs"
  by (simp_all add: input_of_def)

lemma bufs_ok_simps [simp]:
  "bufs_ok []" "bufs_ok ((mem, len) # bufs) = (len \<le> length mem \<and> bufs_ok bufs)"
  by (simp_all add: bufs_ok_def)

definition delivers :: "parser \<Rightarrow> (string \<times> nat) list \<Rightarrow> mp_event list \<Rightarrow> string \<Rightarrow> bool" where
  \<comment> \<open>the buffers are taken, the data is delivered, and the part ends with the last byte\<close>
  "delivers p bufs u s \<longleftrightarrow>
     (\<exists>p' D. feed recorder bufs p u = (True, p', u @ D @ [EvPartEnd]) \<and> only_data D \<and>
        data_of D = s \<and> state p' = s_part_data_almost_end \<and> parser_ok p')"

lemma data_inv_0: "parser_ok p \<Longrightarrow> in_data (state p) \<Longrightarrow> data_inv p 0 0"
  by (simp add: data_inv_def)

lemma feed_empty: "input_of bufs = [] \<Longrightarrow> bufs_ok bufs \<Longrightarrow> feed st bufs p u = (True, p, u)"
proof (induction bufs arbitrary: p u)
  case (Cons b bufs)
  obtain mem len where b: "b = (mem, len)" by fastforce
  with Cons show ?case by (auto simp: multipart_parser_execute_def mp_loop_done)
qed simp

lemma delivers_data:
  assumes "parser_ok p" "in_data (state p)" "bufs_ok bufs"
    "dm_run (multipart_boundary p) (dstate_of p) (input_of bufs) = (s, Found, [])"
  shows "delivers p bufs u s"
  using assms
proof (induction bufs arbitrary: p u s)
  case Nil
  with dstate_of_not_Found [of p] show ?case by simp
next
  case (Cons b bufs)
  obtain mem len where b: "b = (mem, len)" by fastforce
  with Cons.prems(3) have ok: "len \<le> length mem" "bufs_ok bufs" by simp_all
  obtain o1 d1 r1 where q: "dm_run (multipart_boundary p) (dstate_of p) (take len mem) = (o1, d1, r1)"
    by (metis prod_cases3)
  have pend: "pending p mem len 0 0 = []" by (simp add: pending_def)
  have run: "if d1 = Found then runs_out mem len 0 0 p u o1 (length r1)
      else runs_on mem len 0 0 p u o1 d1"
    using data_loop [OF data_inv_0 [OF Cons.prems(1,2)] _ ok(1)] q by simp
  show ?case
  proof (cases "d1 = Found")
    case True
    with Cons.prems(4) b q have "r1 = []" "input_of bufs = []" "o1 = s"
      by (simp_all add: dm_run_append)
    with run True ok(2) b pend show ?thesis
      unfolding delivers_def runs_out_def
      by (fastforce simp: multipart_parser_execute_def mp_loop_done feed_empty)
  next
    case False
    obtain o2 r2 where q2: "dm_run (multipart_boundary p) d1 (input_of bufs) = (o2, Found, r2)"
      and out: "s = o1 @ o2" "r2 = []"
      using Cons.prems(4) b q False by (simp add: dm_run_append Let_def split: prod.splits)
    from run False pend obtain p' E where t:
      "mp_loop recorder mem len 0 0 p u = (len, p', u @ E)" "parser_ok p'" "in_data (state p')"
      "dstate_of p' = d1" "multipart_boundary p' = multipart_boundary p" "only_data E"
      "data_of E = o1"
      by (auto simp: runs_on_def simp del: dstate_of.simps)
    have "delivers p' bufs (u @ E) o2"
      using q2 out t by (intro Cons.IH [OF t(2,3) ok(2)]) (simp del: dstate_of.simps)
    then obtain p'' D where "feed recorder bufs p' (u @ E) = (True, p'', (u @ E) @ D @ [EvPartEnd])"
      "only_data D" "data_of D = o2" "state p'' = s_part_data_almost_end" "parser_ok p''"
      by (auto simp: delivers_def)
    with t out b show ?thesis
      unfolding delivers_def
      by (intro exI [of _ p''] exI [of _ "E @ D"]) (simp add: multipart_parser_execute_def)
  qed
qed

text \<open>The first byte of a part: the headers are complete, then it is part data.\<close>

lemma mp_loop_data_start:
  assumes "state p = s_part_data_start" "i < len"
  shows "mp_loop recorder mem len i mark p u =
    mp_loop recorder mem len i i (p\<lparr>state := s_part_data\<rparr>) (u @ [EvHeaders])"
proof -
  have "mp_step recorder mem len i mark p u =
      mp_step recorder mem len i i (p\<lparr>state := s_part_data\<rparr>) (u @ [EvHeaders])"
    using assms by (simp add: mp_step_def Let_def)
  then show ?thesis
    using assms(2) by (subst (1 2) mp_loop.simps) simp
qed

lemma feed_data_start:
  assumes "state p = s_part_data_start" "input_of bufs \<noteq> []"
  shows "feed recorder bufs p u = feed recorder bufs (p\<lparr>state := s_part_data\<rparr>) (u @ [EvHeaders])"
  using assms
proof (induction bufs)
  case (Cons b bufs)
  obtain mem len where b: "b = (mem, len)" by fastforce
  show ?case
  proof (cases "len = 0")
    case True
    with Cons b show ?thesis by (simp add: multipart_parser_execute_def mp_loop_done)
  next
    case False
    with b Cons.prems(1) show ?thesis
      by (simp add: multipart_parser_execute_def mp_loop_data_start)
  qed
qed simp

section \<open>Properties\<close>

text \<open>C6: a part's data is delivered exactly: if the input behind the part's headers is the data, then
  CR LF and the boundary, then however the input is cut into buffers (empty ones and single bytes
  included, bytes of earlier reads lying behind the input of each buffer) the callbacks are
  headers-complete, then data callbacks whose pieces put together are the data, then part-end.
  The data may contain CR, LF, and beginnings of the delimiter, but not the delimiter.\<close>

theorem part_data_roundtrip:
  assumes "parser_ok p" "state p = s_part_data_start" "CR \<notin> set (multipart_boundary p)"
    and "delimiter_free (multipart_boundary p) s" "bufs_ok bufs"
    and "input_of bufs = s @ CR # LF # multipart_boundary p"
  shows "\<exists>p' D. feed recorder bufs p u = (True, p', u @ EvHeaders # D @ [EvPartEnd]) \<and>
    only_data D \<and> data_of D = s \<and> state p' = s_part_data_almost_end"
proof -
  let ?p = "p\<lparr>state := s_part_data\<rparr>"
  have ok: "parser_ok ?p" "in_data (state ?p)" "multipart_boundary ?p \<noteq> []"
    using assms(1) by (simp_all add: parser_ok_defs in_data_def)
  have "dm_run (multipart_boundary ?p) (dstate_of ?p) (input_of bufs) = (s, Found, [])"
    using dm_run_part [OF ok(3), of s "[]"] assms(3,4,6) by simp
  from delivers_data [OF ok(1,2) assms(5) this, of "u @ [EvHeaders]"]
    feed_data_start [OF assms(2), of bufs u] assms(6)
  show ?thesis by (auto simp: delivers_def)
qed

text \<open>The witness cuts the data \<open>a CR LF -- CR b\<close> and its delimiter \<open>CR LF --x\<close> inside the data's
  CR LF and inside the delimiter, with stale bytes behind the second buffer's input.\<close>

definition demo_parser :: parser where
  "demo_parser = (multipart_parser_init 0 (\<lambda>_. NUL) ''--x'')\<lparr>state := s_part_data_start\<rparr>"

theorem part_data_roundtrip_witness:
  "\<exists>p' D. feed recorder [([CHR ''a'', CR], 2), ([LF, CHR ''-'', CHR ''-'', CR, CHR ''b'', CR, LF, CR, LF], 6),
      ([LF, CHR ''-''], 2), (''-x'', 2)] demo_parser [] = (True, p', EvHeaders # D @ [EvPartEnd]) \<and>
    only_data D \<and> data_of D = [CHR ''a'', CR, LF, CHR ''-'', CHR ''-'', CR, CHR ''b''] \<and>
    state p' = s_part_data_almost_end"
proof -
  have "delimiter_free ''--x'' [CHR ''a'', CR, LF, CHR ''-'', CHR ''-'', CR, CHR ''b'']"
    by (auto simp: delimiter_free_def append_eq_Cons_conv Cons_eq_append_conv)
  then show ?thesis
    by (intro part_data_roundtrip [where u = "[]", simplified])
      (simp_all add: demo_parser_def multipart_parser_init_def parser_ok_defs)
qed

end
