(* ===== verification/Multipart_Message.thy ===== *)
theory Multipart_Message
  imports Multipart_Data
begin

text \<open>
  Whole messages: a printer for multipart bodies, a reader of the recorded callbacks, and the
  theorem that parsing a printed body gives its parts back. Then what happens to headers that are
  cut by the end of a buffer.
\<close>

section \<open>Printing a body, reading the callbacks\<close>

type_synonym header = "string \<times> string"
type_synonym body_part = "header list \<times> string"

definition print_header :: "header \<Rightarrow> string" where
  "print_header h = fst h @ '': '' @ snd h @ [CR, LF]"

definition print_headers :: "header list \<Rightarrow> string" where
  "print_headers hs = concat (map print_header hs) @ [CR, LF]"

definition print_part :: "string \<Rightarrow> body_part \<Rightarrow> string" where
  \<comment> \<open>from the line end behind a boundary to the next boundary\<close>
  "print_part b pt = CR # LF # print_headers (fst pt) @ snd pt @ CR # LF # b"

definition print_body :: "string \<Rightarrow> body_part list \<Rightarrow> string" where
  "print_body b pts = b @ concat (map (print_part b) pts) @ ''--''"

fun read_event ::
  "body_part list \<times> header list \<times> string \<Rightarrow> mp_event \<Rightarrow> body_part list \<times> header list \<times> string" where
  "read_event (pts, hs, d) (EvField n) = (pts, hs @ [(n, [])], d)"
| "read_event (pts, hs, d) (EvValue v) = (pts, butlast hs @ [(fst (last hs), v)], d)"
| "read_event (pts, hs, d) (EvData s) = (pts, hs, d @ s)"
| "read_event (pts, hs, d) EvPartEnd = (pts @ [(hs, d)], [], [])"
| "read_event acc e = acc"

definition parts_of :: "mp_event list \<Rightarrow> body_part list" where
  "parts_of evs = fst (foldl read_event ([], [], []) evs)"

definition name_ok :: "string \<Rightarrow> bool" where
  \<comment> \<open>what the parser takes as a field name: letters and hyphens\<close>
  "name_ok = list_all (\<lambda>c. c = CHR ''-'' \<or> 97 \<le> ord (tolower c) \<and> ord (tolower c) \<le> 122)"

definition value_ok :: "string \<Rightarrow> bool" where
  "value_ok v \<longleftrightarrow> CR \<notin> set v \<and> (v = [] \<or> hd v \<noteq> CHR '' '')"

definition header_ok :: "header \<Rightarrow> bool" where
  "header_ok h \<longleftrightarrow> name_ok (fst h) \<and> value_ok (snd h)"

definition part_ok :: "string \<Rightarrow> body_part \<Rightarrow> bool" where
  "part_ok b pt \<longleftrightarrow> list_all header_ok (fst pt) \<and> delimiter_free b (snd pt)"

section \<open>The loop over a header block\<close>

lemma drop_Cons_iff:
  "drop i mem = c # cs \<longleftrightarrow> i < length mem \<and> mem ! i = c \<and> drop (Suc i) mem = cs"
  by (cases "i < length mem") (auto simp: Cons_nth_drop_Suc [symmetric])

lemma mp_loop_resume:
  assumes "mp_step st mem len i mark p u = mp_step st mem len i mark' p' u'" "i < len"
  shows "mp_loop st mem len i mark p u = mp_loop st mem len i mark' p' u'"
  using assms by (subst (1 2) mp_loop.simps) simp

lemma drop_last: "drop i mem = c # cs \<Longrightarrow> (i = length mem - 1) = (cs = [])"
  by (auto simp: drop_Cons_iff)

lemma not_alpha [simp]:
  "name_ok (n @ m) = (name_ok n \<and> name_ok m)" "name_ok []"
  "name_ok (c # n) = ((c = CHR ''-'' \<or> 97 \<le> ord (tolower c) \<and> ord (tolower c) \<le> 122) \<and> name_ok n)"
  "\<not> name_ok (CR # n)" "\<not> name_ok (CHR '':'' # n)"
  by (auto simp: name_ok_def char_eval)

lemma loop_name:
  assumes "drop i mem = n @ CHR '':'' # cs" "name_ok n" "state p = s_header_field" "mark \<le> i"
  shows "mp_loop recorder mem (length mem) i mark p u =
    mp_loop recorder mem (length mem) (i + length n + 1) mark (p\<lparr>state := s_header_value_start\<rparr>)
      (u @ [EvField (take (i + length n - mark) (drop mark mem))])"
  using assms
proof (induction n arbitrary: i)
  case Nil
  then have i: "i < length mem" "mem ! i = CHR '':''" by (simp_all add: drop_Cons_iff)
  have "mp_step recorder mem (length mem) i mark p u =
      Next (p\<lparr>state := s_header_value_start\<rparr>) mark (u @ [EvField (take (i - mark) (drop mark mem))])"
    using Nil(3) i(2) by (simp add: mp_step_def Let_def step_header_field_def char_eval)
  from mp_loop_Next [OF i(1) this] show ?case by simp
next
  case (Cons c n)
  then have i: "i < length mem" "mem ! i = c" "drop (Suc i) mem = n @ CHR '':'' # cs"
    by (simp_all add: drop_Cons_iff)
  have "c \<noteq> CR" "c \<noteq> CHR '':''" using Cons.prems(2) not_alpha(4,5) [of n] by metis+
  then have "mp_step recorder mem (length mem) i mark p u = Next p mark u"
    using Cons.prems(2,3) i(2) drop_last [of i mem] Cons.prems(1)
    by (auto simp: mp_step_def Let_def step_header_field_def)
  from mp_loop_Next [OF i(1) this] Cons.IH [OF i(3)] Cons.prems show ?case by simp
qed

lemma loop_value:
  assumes "drop i mem = v @ CR # c # cs" "CR \<notin> set v" "state p = s_header_value" "mark \<le> i"
  shows "mp_loop recorder mem (length mem) i mark p u =
    mp_loop recorder mem (length mem) (i + length v + 1) mark (p\<lparr>state := s_header_value_almost_done\<rparr>)
      (u @ [EvValue (take (i + length v - mark) (drop mark mem))])"
  using assms
proof (induction v arbitrary: i)
  case Nil
  then have i: "i < length mem" "mem ! i = CR" "i \<noteq> length mem - 1"
    using drop_last [of i mem] by (simp_all add: drop_Cons_iff)
  have "mp_step recorder mem (length mem) i mark p u =
      Next (p\<lparr>state := s_header_value_almost_done\<rparr>) mark
        (u @ [EvValue (take (i - mark) (drop mark mem))])"
    using Nil(3) i(2,3) by (simp add: mp_step_def Let_def step_header_value_def)
  from mp_loop_Next [OF i(1) this] show ?case by simp
next
  case (Cons x v)
  then have i: "i < length mem" "mem ! i = x" "drop (Suc i) mem = v @ CR # c # cs"
    "i \<noteq> length mem - 1"
    using drop_last [of i mem] by (simp_all add: drop_Cons_iff)
  have "mp_step recorder mem (length mem) i mark p u = Next p mark u"
    using Cons.prems(2,3) i(2,4) by (auto simp: mp_step_def Let_def step_header_value_def)
  from mp_loop_Next [OF i(1) this] Cons.IH [OF i(3)] Cons.prems show ?case by simp
qed

lemma loop_header:
  assumes "drop i mem = print_header h @ cs" "header_ok h" "state p = s_header_field_start"
  shows "mp_loop recorder mem (length mem) i mark p u =
    mp_loop recorder mem (length mem) (i + length (print_header h)) (i + length (fst h) + 2) p
      (u @ [EvField (fst h), EvValue (snd h)])"
proof -
  let ?n = "fst h" and ?v = "snd h" and ?len = "length mem"
  have d: "drop i mem = ?n @ CHR '':'' # CHR '' '' # ?v @ CR # LF # cs"
    using assms(1) by (simp add: print_header_def)
  then have i: "i < ?len" by (metis drop_eq_Nil append_is_Nil_conv list.distinct(1) not_le)
  have n: "take (length ?n) (drop i mem) = ?n" by (simp add: d)
  let ?i1 = "i + length ?n + 1"
  have "drop ?i1 mem = drop (length ?n + 1) (drop i mem)" by (simp add: add.commute)
  then have d1: "drop ?i1 mem = CHR '' '' # ?v @ CR # LF # cs" unfolding d by simp
  then have i1: "?i1 < ?len" "mem ! ?i1 = CHR '' ''" "drop (Suc ?i1) mem = ?v @ CR # LF # cs"
    by (simp_all only: drop_Cons_iff)
  have v: "take (length ?v) (drop (Suc ?i1) mem) = ?v" unfolding i1(3) by simp
  let ?i2 = "Suc ?i1 + length ?v + 1"
  have "drop ?i2 mem = drop (length ?v + 1) (drop (Suc ?i1) mem)" by (simp add: add.commute)
  then have "drop ?i2 mem = LF # cs" unfolding i1(3) by simp
  then have i2: "?i2 < ?len" "mem ! ?i2 = LF" by (simp_all only: drop_Cons_iff)
  let ?p = "\<lambda>s. p\<lparr>state := s\<rparr>"
  have "mp_loop recorder mem ?len i mark p u = mp_loop recorder mem ?len i i (?p s_header_field) u"
    using assms(3) i by (intro mp_loop_resume) (simp_all add: mp_step_def Let_def)
  also have "\<dots> = mp_loop recorder mem ?len ?i1 i (?p s_header_value_start) (u @ [EvField ?n])"
    using loop_name [OF d, of "?p s_header_field" i u] assms(2) n by (simp add: header_ok_def)
  also have "\<dots> = mp_loop recorder mem ?len (Suc ?i1) i (?p s_header_value_start) (u @ [EvField ?n])"
    using i1(2) by (intro mp_loop_Next [OF i1(1)]) (simp add: mp_step_def Let_def)
  also have "\<dots> = mp_loop recorder mem ?len (Suc ?i1) (Suc ?i1) (?p s_header_value) (u @ [EvField ?n])"
  proof (rule mp_loop_resume)
    have "mem ! Suc ?i1 \<noteq> CHR '' ''"
      using i1(3) assms(2) by (cases ?v) (auto simp: drop_Cons_iff header_ok_def value_ok_def char_eval)
    then show "mp_step recorder mem ?len (Suc ?i1) i (?p s_header_value_start) (u @ [EvField ?n]) =
        mp_step recorder mem ?len (Suc ?i1) (Suc ?i1) (?p s_header_value) (u @ [EvField ?n])"
      by (simp add: mp_step_def Let_def)
    show "Suc ?i1 < ?len" using i2(1) by simp
  qed
  also have "\<dots> = mp_loop recorder mem ?len ?i2 (Suc ?i1) (?p s_header_value_almost_done)
      (u @ [EvField ?n, EvValue ?v])"
    using loop_value [OF i1(3), of "?p s_header_value" "Suc ?i1"] assms(2) v
    by (simp add: header_ok_def value_ok_def)
  also have "\<dots> = mp_loop recorder mem ?len (Suc ?i2) (Suc ?i1) p (u @ [EvField ?n, EvValue ?v])"
    using i2(2) assms(3) by (intro mp_loop_Next [OF i2(1)]) (simp add: mp_step_def Let_def)
  finally show ?thesis by (simp add: print_header_def add.assoc)
qed

definition header_events :: "header \<Rightarrow> mp_event list" where
  "header_events h = [EvField (fst h), EvValue (snd h)]"

lemma drop_append_drop: "drop i mem = xs @ ys \<Longrightarrow> drop (i + length xs) mem = ys"
  by (metis add.commute append_eq_conv_conj drop_drop)

lemma loop_headers:
  assumes "drop i mem = print_headers hs @ c # cs" "list_all header_ok hs"
    "state p = s_header_field_start"
  shows "\<exists>mark'. mp_loop recorder mem (length mem) i mark p u =
    mp_loop recorder mem (length mem) (i + length (print_headers hs)) mark'
      (p\<lparr>state := s_part_data_start\<rparr>) (u @ concat (map header_events hs))"
  using assms
proof (induction hs arbitrary: i mark u)
  case Nil
  then have i: "i < length mem" "mem ! i = CR" "Suc i < length mem" "mem ! Suc i = LF"
    by (simp_all add: print_headers_def drop_Cons_iff)
  let ?p = "p\<lparr>state := s_headers_almost_done\<rparr>"
  have s1: "mp_step recorder mem (length mem) i mark p u = Next ?p i u"
    using Nil(3) i(2) by (simp add: mp_step_def Let_def step_header_field_def)
  have s2: "mp_step recorder mem (length mem) (Suc i) i ?p u = Next (p\<lparr>state := s_part_data_start\<rparr>) i u"
    using i(4) by (simp add: mp_step_def Let_def)
  show ?case
    using mp_loop_Next [OF i(1) s1] mp_loop_Next [OF i(3) s2]
    by (intro exI [of _ i]) (simp add: print_headers_def)
next
  case (Cons h hs)
  then have d: "drop i mem = print_header h @ print_headers hs @ c # cs"
    by (simp add: print_headers_def)
  from loop_header [OF d] Cons.prems(2,3) have
    one: "mp_loop recorder mem (length mem) i mark p u =
      mp_loop recorder mem (length mem) (i + length (print_header h)) (i + length (fst h) + 2) p
        (u @ header_events h)" by (simp add: header_events_def)
  show ?case
    using Cons.IH [OF drop_append_drop [OF d], of "i + length (fst h) + 2" "u @ header_events h"]
      Cons.prems(2,3)
    unfolding one by (simp add: print_headers_def add.assoc)
qed

lemma pending_start: "pending p mem len i i = []" by (simp add: pending_def)

lemma drop_position:
  assumes "drop i mem = xs @ cs" "cs \<noteq> []"
  shows "i + length xs = length mem - length cs" "drop (length mem - length cs) mem = cs"
proof -
  have "length mem - i = length xs + length cs" using assms(1) by (metis length_append length_drop)
  moreover have "0 < length cs" using assms(2) by simp
  ultimately show p: "i + length xs = length mem - length cs" by linarith
  show "drop (length mem - length cs) mem = cs" using drop_append_drop [OF assms(1)] p by simp
qed

lemma loop_data:
  assumes "drop i mem = s @ CR # LF # multipart_boundary p @ cs" "cs \<noteq> []" "parser_ok p"
    "state p = s_part_data_start" "CR \<notin> set (multipart_boundary p)"
    "delimiter_free (multipart_boundary p) s"
  shows "\<exists>p' mark' D. mp_loop recorder mem (length mem) i mark p u =
      mp_loop recorder mem (length mem) (length mem - length cs) mark' p'
        (u @ EvHeaders # D @ [EvPartEnd]) \<and>
    state p' = s_part_data_almost_end \<and> parser_ok p' \<and>
    multipart_boundary p' = multipart_boundary p \<and> only_data D \<and> data_of D = s"
proof -
  let ?p = "p\<lparr>state := s_part_data\<rparr>" and ?b = "multipart_boundary p"
  have inv: "data_inv ?p i i" "?b \<noteq> []"
    using assms(3) by (simp_all add: data_inv_def in_data_def parser_ok_defs)
  have i: "i < length mem"
    using assms(1) by (metis drop_eq_Nil append_is_Nil_conv list.distinct(1) not_le)
  have "dm_run ?b (dstate_of ?p) (drop i (take (length mem) mem)) = (s, Found, cs)"
    using dm_run_part [OF inv(2) assms(5,6), of cs] assms(1) by simp
  with data_loop [OF inv(1) less_imp_le [OF i] order_refl, of s Found cs
      "u @ [EvHeaders]"]
  have "runs_out mem (length mem) i i ?p (u @ [EvHeaders]) s (length cs)" by simp
  then show ?thesis
    unfolding mp_loop_data_start [OF assms(4) i] by (simp add: runs_out_def pending_start)
qed

section \<open>The loop over a body\<close>

definition part_events :: "body_part \<Rightarrow> mp_event list \<Rightarrow> mp_event list" where
  "part_events pt D =
     EvPartBegin # concat (map header_events (fst pt)) @ EvHeaders # D @ [EvPartEnd]"

definition at_end :: "parser \<Rightarrow> string \<Rightarrow> bool" where
  \<comment> \<open>behind a boundary\<close>
  "at_end p b \<longleftrightarrow> parser_ok p \<and> multipart_boundary p = b \<and> CR \<notin> set b"

lemma loop_part:
  assumes "drop i mem = print_part b pt @ cs" "cs \<noteq> []" "part_ok b pt"
    and "\<And>u. \<exists>p' m'. mp_loop recorder mem (length mem) i0 mark p u =
      mp_loop recorder mem (length mem) (i + 2) m' p' (u @ [EvPartBegin]) \<and>
      at_end p' b \<and> state p' = s_header_field_start"
  shows "\<exists>p' mark' D. mp_loop recorder mem (length mem) i0 mark p u =
      mp_loop recorder mem (length mem) (length mem - length cs) mark' p' (u @ part_events pt D) \<and>
    state p' = s_part_data_almost_end \<and> at_end p' b \<and> only_data D \<and> data_of D = snd pt"
proof -
  obtain p1 m1 where one: "mp_loop recorder mem (length mem) i0 mark p u =
      mp_loop recorder mem (length mem) (i + 2) m1 p1 (u @ [EvPartBegin])"
    "at_end p1 b" "state p1 = s_header_field_start" using assms(4) by blast
  have d: "drop (i + 2) mem = print_headers (fst pt) @ snd pt @ CR # LF # b @ cs"
    using drop_append_drop [of i mem "[CR, LF]"] assms(1) by (simp add: print_part_def)
  obtain c r where "snd pt @ CR # LF # b @ cs = c # r" by (cases "snd pt") auto
  with d loop_headers [of "i + 2" mem "fst pt" c r p1 m1 "u @ [EvPartBegin]"] assms(3) one(3)
  obtain m2 where two: "mp_loop recorder mem (length mem) (i + 2) m1 p1 (u @ [EvPartBegin]) =
      mp_loop recorder mem (length mem) (i + 2 + length (print_headers (fst pt))) m2
        (p1\<lparr>state := s_part_data_start\<rparr>) ((u @ [EvPartBegin]) @ concat (map header_events (fst pt)))"
    by (auto simp: part_ok_def)
  let ?p = "p1\<lparr>state := s_part_data_start\<rparr>"
  have ok: "parser_ok ?p" "multipart_boundary ?p = b" "CR \<notin> set b"
    using one(2) by (auto simp: at_end_def parser_ok_defs)
  from loop_data [of "i + 2 + length (print_headers (fst pt))" mem "snd pt" ?p cs m2
      "u @ EvPartBegin # concat (map header_events (fst pt))"]
    drop_append_drop [OF d] assms(2,3) ok
  show ?thesis
    unfolding one(1) two by (simp add: part_ok_def at_end_def part_events_def)
qed

lemma loop_boundary:
  assumes "drop i mem = drop k b @ CR # LF # cs" "k \<le> length b" "at_end p b"
    "state p = s_start_boundary" "index p = k"
  shows "\<exists>p' m'. mp_loop recorder mem (length mem) i mark p u =
      mp_loop recorder mem (length mem) (i + (length b - k) + 2) m' p' (u @ [EvPartBegin]) \<and>
    at_end p' b \<and> state p' = s_header_field_start"
  using assms
proof (induction "length b - k" arbitrary: i k p)
  case 0
  then have i: "i < length mem" "mem ! i = CR" "Suc i < length mem" "mem ! Suc i = LF"
    by (simp_all add: drop_Cons_iff)
  have k: "k = length b" "boundary_length p = length b"
    using 0 by (auto simp: at_end_def parser_ok_defs)
  let ?p1 = "p\<lparr>index := index p + 1\<rparr>" and ?p2 = "p\<lparr>index := 0, state := s_header_field_start\<rparr>"
  have s1: "mp_step recorder mem (length mem) i mark p u = Next ?p1 mark u"
    using 0 i(2) k by (simp add: mp_step_def Let_def step_start_boundary_def)
  have s2: "mp_step recorder mem (length mem) (Suc i) mark ?p1 u = Next ?p2 mark (u @ [EvPartBegin])"
    using 0 i(4) k by (simp add: mp_step_def Let_def step_start_boundary_def)
  have "at_end ?p2 b" using "0.prems"(3) by (auto simp: at_end_def parser_ok_defs)
  with mp_loop_Next [OF i(1) s1] mp_loop_Next [OF i(3) s2] k show ?case
    by (intro exI [of _ ?p2] exI [of _ mark]) simp
next
  case (Suc n)
  then have k: "k < length b" by simp
  with Suc.prems(1) have "drop i mem = b ! k # drop (Suc k) b @ CR # LF # cs"
    by (simp add: Cons_nth_drop_Suc [symmetric])
  then have i: "i < length mem" "mem ! i = b ! k" "drop (Suc i) mem = drop (Suc k) b @ CR # LF # cs"
    by (simp_all only: drop_Cons_iff)
  have len: "boundary_length p = length b" "multipart_boundary p = b"
    using Suc.prems(3) by (auto simp: at_end_def parser_ok_defs)
  let ?p1 = "p\<lparr>index := index p + 1\<rparr>"
  have s1: "mp_step recorder mem (length mem) i mark p u = Next ?p1 mark u"
    using Suc.prems(4,5) k i(2) len boundary_at_in [of k p]
    by (simp add: mp_step_def Let_def step_start_boundary_def)
  have "at_end ?p1 b" using Suc.prems(3-5) k by (auto simp: at_end_def parser_ok_defs)
  moreover have "Suc i + (length b - Suc k) + 2 = i + (length b - k) + 2" "n = length b - Suc k"
    using k Suc.hyps(2) by simp_all
  ultimately show ?case
    using Suc.hyps(1) [of "Suc k" "Suc i" ?p1] Suc.prems(4,5) k i(3)
    unfolding mp_loop_Next [OF i(1) s1] by simp
qed

lemma loop_next_part:
  assumes "drop i mem = CR # LF # cs" "at_end p b" "state p = s_part_data_almost_end"
  shows "\<exists>p' m'. mp_loop recorder mem (length mem) i mark p u =
      mp_loop recorder mem (length mem) (i + 2) m' p' (u @ [EvPartBegin]) \<and>
    at_end p' b \<and> state p' = s_header_field_start"
proof -
  have i: "i < length mem" "mem ! i = CR" "Suc i < length mem" "mem ! Suc i = LF"
    using assms(1) by (simp_all add: drop_Cons_iff)
  let ?p1 = "p\<lparr>state := s_part_data_end\<rparr>" and ?p2 = "p\<lparr>state := s_header_field_start\<rparr>"
  have s1: "mp_step recorder mem (length mem) i mark p u = Next ?p1 mark u"
    using assms(3) i(2) by (simp add: mp_step_def Let_def)
  have s2: "mp_step recorder mem (length mem) (Suc i) mark ?p1 u = Next ?p2 mark (u @ [EvPartBegin])"
    using i(4) by (simp add: mp_step_def Let_def)
  have "at_end ?p2 b" using assms(2) by (auto simp: at_end_def parser_ok_defs)
  with mp_loop_Next [OF i(1) s1] mp_loop_Next [OF i(3) s2] show ?thesis
    by (intro exI [of _ ?p2] exI [of _ mark]) simp
qed

lemma loop_parts:
  assumes "drop i mem = concat (map (print_part b) pts) @ cs" "cs \<noteq> []" "list_all (part_ok b) pts"
    "at_end p b" "state p = s_part_data_almost_end"
  shows "\<exists>p' mark' Ds. mp_loop recorder mem (length mem) i mark p u =
      mp_loop recorder mem (length mem) (length mem - length cs) mark' p'
        (u @ concat (map2 part_events pts Ds)) \<and>
    state p' = s_part_data_almost_end \<and> at_end p' b \<and> list_all only_data Ds \<and>
    map data_of Ds = map snd pts"
  using assms
proof (induction pts arbitrary: i mark p u)
  case Nil
  with drop_position(1) [of i mem "[]" cs] show ?case
    by (intro exI [of _ p] exI [of _ mark] exI [of _ "[]"]) simp
next
  case (Cons pt pts)
  let ?cs = "concat (map (print_part b) pts) @ cs"
  have d: "drop i mem = print_part b pt @ ?cs" using Cons.prems(1) by simp
  obtain r where "drop i mem = CR # LF # r" using d by (simp add: print_part_def)
  note next1 = loop_next_part [OF this Cons.prems(4,5)]
  from loop_part [OF d _ _ next1] Cons.prems(2,3)
  obtain p1 m1 D where one: "mp_loop recorder mem (length mem) i mark p u =
      mp_loop recorder mem (length mem) (length mem - length ?cs) m1 p1 (u @ part_events pt D)"
    "state p1 = s_part_data_almost_end" "at_end p1 b" "only_data D" "data_of D = snd pt"
    by fastforce
  have "drop (length mem - length ?cs) mem = ?cs"
    using drop_position(2) [OF d] Cons.prems(2) by simp
  from Cons.IH [OF this Cons.prems(2) _ one(3,2)] Cons.prems(3)
  obtain p2 m2 Ds where "mp_loop recorder mem (length mem) (length mem - length ?cs) m1 p1
      (u @ part_events pt D) = mp_loop recorder mem (length mem) (length mem - length cs) m2 p2
        ((u @ part_events pt D) @ concat (map2 part_events pts Ds))"
    "state p2 = s_part_data_almost_end" "at_end p2 b" "list_all only_data Ds"
    "map data_of Ds = map snd pts" by fastforce
  with one show ?case
    by (intro exI [of _ p2] exI [of _ m2] exI [of _ "D # Ds"]) simp
qed

lemma loop_end:
  "state p = s_end \<Longrightarrow> i \<le> len \<Longrightarrow> mp_loop recorder mem len i mark p u = (len, p, u)"
proof (induction "len - i" arbitrary: i)
  case 0
  then show ?case by (simp add: mp_loop_done)
next
  case (Suc n)
  then have "mp_step recorder mem len i mark p u = Next p mark u" by (simp add: mp_step_def Let_def)
  with Suc show ?case by (simp add: mp_loop_Next)
qed

lemma loop_final:
  assumes "drop i mem = CHR ''-'' # CHR ''-'' # cs" "state p = s_part_data_almost_end"
  shows "mp_loop recorder mem (length mem) i mark p u =
    (length mem, p\<lparr>state := s_end\<rparr>, u @ [EvBodyEnd])"
proof -
  have i: "i < length mem" "mem ! i = CHR ''-''" "Suc i < length mem" "mem ! Suc i = CHR ''-''"
    using assms(1) by (simp_all add: drop_Cons_iff)
  let ?p = "p\<lparr>state := s_part_data_final_hyphen\<rparr>"
  have s1: "mp_step recorder mem (length mem) i mark p u = Next ?p mark u"
    using assms(2) i(2) by (simp add: mp_step_def Let_def)
  have s2: "mp_step recorder mem (length mem) (Suc i) mark ?p u =
      Next (p\<lparr>state := s_end\<rparr>) mark (u @ [EvBodyEnd])"
    using i(4) by (simp add: mp_step_def Let_def)
  show ?thesis using i(3) by (simp add: mp_loop_Next [OF i(1) s1] mp_loop_Next [OF i(3) s2] loop_end)
qed

definition body_events :: "body_part list \<Rightarrow> mp_event list list \<Rightarrow> mp_event list" where
  "body_events pts Ds = concat (map2 part_events pts Ds) @ [EvBodyEnd]"

lemma execute_body:
  assumes "b \<noteq> []" "CR \<notin> set b" "pts \<noteq> []" "list_all (part_ok b) pts"
    "mem = print_body b pts @ epilogue"
  shows "\<exists>p Ds. multipart_parser_execute recorder (multipart_parser_init ptr fresh b) mem
      (length mem) [] = (length mem, p, body_events pts Ds) \<and>
    state p = s_end \<and> list_all only_data Ds \<and> map data_of Ds = map snd pts"
proof -
  let ?init = "multipart_parser_init ptr fresh b" and ?len = "length mem"
  let ?p = "?init\<lparr>index := 0, state := s_start_boundary\<rparr>"
  obtain pt rest where pts: "pts = pt # rest" using assms(3) by (cases pts) auto
  let ?cs = "''--'' @ epilogue" and ?tl = "concat (map (print_part b) rest) @ ''--'' @ epilogue"
  have at0: "at_end ?p b"
    using assms(1,2) by (simp add: at_end_def parser_ok_defs multipart_parser_init_def)
  have d: "drop (length b) mem = print_part b pt @ ?tl"
    by (simp add: assms(5) pts print_body_def)
  have "mp_loop recorder mem ?len 0 0 ?init u = mp_loop recorder mem ?len 0 0 ?p u" for u
    using assms(1,5) by (intro mp_loop_resume)
      (simp_all add: mp_step_def Let_def multipart_parser_init_def print_body_def)
  moreover obtain r where "drop 0 mem = drop 0 b @ CR # LF # r"
    by (simp add: assms(5) pts print_body_def print_part_def)
  note loop_boundary [OF this _ at0]
  ultimately have "\<exists>p' m'. mp_loop recorder mem ?len 0 0 ?init u =
      mp_loop recorder mem ?len (length b + 2) m' p' (u @ [EvPartBegin]) \<and> at_end p' b \<and>
      state p' = s_header_field_start" for u by simp
  from loop_part [OF d _ _ this, of "[]"] assms(4) pts obtain p1 m1 D where one:
    "mp_loop recorder mem ?len 0 0 ?init [] =
       mp_loop recorder mem ?len (?len - length ?tl) m1 p1 (part_events pt D)"
    "state p1 = s_part_data_almost_end" "at_end p1 b" "only_data D" "data_of D = snd pt"
    by fastforce
  have "drop (?len - length ?tl) mem = ?tl" using drop_position(2) [OF d] by simp
  from loop_parts [OF this _ _ one(3,2)] assms(4) pts obtain p2 m2 Ds where two:
    "mp_loop recorder mem ?len (?len - length ?tl) m1 p1 (part_events pt D) =
       mp_loop recorder mem ?len (?len - length ?cs) m2 p2
         (part_events pt D @ concat (map2 part_events rest Ds))"
    "state p2 = s_part_data_almost_end" "list_all only_data Ds" "map data_of Ds = map snd rest"
    by fastforce
  have "drop (?len - length ?cs) mem = CHR ''-'' # CHR ''-'' # epilogue"
    by (simp add: assms(5) print_body_def)
  from loop_final [OF this two(2), of m2 "part_events pt D @ concat (map2 part_events rest Ds)"]
  have "mp_loop recorder mem ?len 0 0 ?init [] =
      (?len, p2\<lparr>state := s_end\<rparr>, body_events pts (D # Ds))"
    unfolding one(1) two(1) by (simp add: body_events_def pts)
  with one(4,5) two(3,4) pts show ?thesis
    by (intro exI [of _ "p2\<lparr>state := s_end\<rparr>"] exI [of _ "D # Ds"])
      (simp add: multipart_parser_execute_def)
qed

section \<open>Reading the callbacks back\<close>

lemma read_headers:
  "foldl read_event (pts, hs0, d) (concat (map header_events hs)) = (pts, hs0 @ hs, d)"
  by (induction hs arbitrary: hs0) (auto simp: header_events_def)

lemma read_data: "only_data D \<Longrightarrow> foldl read_event (pts, hs, d) D = (pts, hs, d @ data_of D)"
  by (induction D arbitrary: d rule: data_of.induct) (auto simp: only_data_def)

lemma read_parts:
  "list_all only_data Ds \<Longrightarrow> map data_of Ds = map snd pts \<Longrightarrow>
   foldl read_event (pts0, [], []) (concat (map2 part_events pts Ds)) = (pts0 @ pts, [], [])"
proof (induction pts arbitrary: Ds pts0)
  case (Cons pt pts)
  moreover from Cons obtain D Ds' where "Ds = D # Ds'" by (cases Ds) auto
  moreover obtain hs d where "pt = (hs, d)" by fastforce
  ultimately show ?case by (simp add: part_events_def read_headers read_data)
qed simp

section \<open>Headers cut by the end of a buffer\<close>

lemma loop_name_hyphen:
  assumes "drop i mem = n @ ''-''" "name_ok n" "state p = s_header_field"
  shows "mp_loop recorder mem (length mem) i mark p u = (length mem, p, u)"
  using assms
proof (induction n arbitrary: i)
  case Nil
  then have i: "i < length mem" "mem ! i = CHR ''-''" "Suc i = length mem"
    by (auto simp: drop_Cons_iff)
  have "mp_step recorder mem (length mem) i mark p u = Next p mark u"
    using Nil(3) i(2) by (simp add: mp_step_def Let_def step_header_field_def)
  with mp_loop_Next [OF i(1) this] i(3) show ?case by (simp add: mp_loop_done)
next
  case (Cons c n)
  then have i: "i < length mem" "mem ! i = c" "drop (Suc i) mem = n @ ''-''" "i \<noteq> length mem - 1"
    using drop_last [of i mem] by (simp_all add: drop_Cons_iff)
  have "c \<noteq> CR" "c \<noteq> CHR '':''" using Cons.prems(2) not_alpha(4,5) [of n] by metis+
  then have "mp_step recorder mem (length mem) i mark p u = Next p mark u"
    using Cons.prems(2,3) i(2,4) by (auto simp: mp_step_def Let_def step_header_field_def)
  from mp_loop_Next [OF i(1) this] Cons.IH [OF i(3)] Cons.prems show ?case by simp
qed

lemma loop_value_last:
  assumes "drop i mem = v @ [CR]" "CR \<notin> set v" "state p = s_header_value" "mark \<le> i"
  shows "mp_loop recorder mem (length mem) i mark p u =
    (length mem, p\<lparr>state := s_header_value_almost_done\<rparr>,
      u @ [EvValue (take (i + length v - mark) (drop mark mem)),
           EvValue (take (i + length v - mark + 1) (drop mark mem))])"
  using assms
proof (induction v arbitrary: i)
  case Nil
  then have i: "i < length mem" "mem ! i = CR" "i = length mem - 1"
    using drop_last [of i mem] by (simp_all add: drop_Cons_iff)
  have "mp_step recorder mem (length mem) i mark p u =
      Next (p\<lparr>state := s_header_value_almost_done\<rparr>) mark
        (u @ [EvValue (take (i - mark) (drop mark mem)), EvValue (take (i - mark + 1) (drop mark mem))])"
    using Nil(3) i(2,3) by (simp add: mp_step_def Let_def step_header_value_def)
  from mp_loop_Next [OF i(1) this] i(1,3) show ?case by (simp add: mp_loop_done)
next
  case (Cons x v)
  then have i: "i < length mem" "mem ! i = x" "drop (Suc i) mem = v @ [CR]" "i \<noteq> length mem - 1"
    using drop_last [of i mem] by (simp_all add: drop_Cons_iff)
  have "mp_step recorder mem (length mem) i mark p u = Next p mark u"
    using Cons.prems(2,3) i(2,4) by (auto simp: mp_step_def Let_def step_header_value_def)
  from mp_loop_Next [OF i(1) this] Cons.IH [OF i(3)] Cons.prems show ?case by simp
qed

section \<open>Properties\<close>

text \<open>C7: parsing gives back what was printed: a body of one or more parts, each with any headers (names of
  letters and hyphens, values without CR that do not start with a space) and any data that does
  not contain the delimiter, is parsed to the end by the parser in its fresh state, and the callbacks read
  off the parts, in order, with their headers and data; whatever follows the closing hyphens
  is ignored.\<close>

theorem multipart_roundtrip:
  assumes "b \<noteq> []" "CR \<notin> set b" "pts \<noteq> []" "list_all (part_ok b) pts"
    "mem = print_body b pts @ epilogue"
  shows "case multipart_parser_execute recorder (multipart_parser_init ptr fresh b) mem (length mem) []
      of (r, p, evs) \<Rightarrow> r = length mem \<and> state p = s_end \<and> parts_of evs = pts"
  using execute_body [OF assms, of ptr fresh] read_parts [of _ pts "[]"]
  by (fastforce simp: parts_of_def body_events_def)

theorem multipart_roundtrip_witness:
  "\<exists>p evs. multipart_parser_execute recorder (multipart_parser_init 0 (\<lambda>_. NUL) ''--x'')
      (print_body ''--x'' [([(''name'', ''a'')], [CR, LF, CHR ''-'']), ([], [])])
      (length (print_body ''--x'' [([(''name'', ''a'')], [CR, LF, CHR ''-'']), ([], [])])) [] =
        (length (print_body ''--x'' [([(''name'', ''a'')], [CR, LF, CHR ''-'']), ([], [])]), p, evs) \<and>
    parts_of evs = [([(''name'', ''a'')], [CR, LF, CHR ''-'']), ([], [])]"
proof -
  have "list_all (part_ok ''--x'') [([(''name'', ''a'')], [CR, LF, CHR ''-'']), ([], [])]"
    by (auto simp: part_ok_def header_ok_def name_ok_def value_ok_def char_eval delimiter_free_def
        Cons_eq_append_conv)
  from multipart_roundtrip [OF _ _ _ this, of _ "[]" 0 "\<lambda>_. NUL"] show ?thesis
    by (auto split: prod.splits)
qed

text \<open>A header value whose CR is the last byte of a buffer is delivered twice, once as it is and once
  with the CR: the code emits at the CR and, without leaving the case, emits again because the byte
  is the last one.\<close>

theorem value_delivered_twice:
  assumes "state p = s_header_value" "CR \<notin> set v"
  shows "multipart_parser_execute recorder p (v @ [CR]) (length (v @ [CR])) u =
    (length (v @ [CR]), p\<lparr>state := s_header_value_almost_done\<rparr>, u @ [EvValue v, EvValue (v @ [CR])])"
  using loop_value_last [of 0 "v @ [CR]" v p 0 u] assms by (simp add: multipart_parser_execute_def)

theorem value_delivered_twice_witness:
  "multipart_parser_execute recorder (demo_parser\<lparr>state := s_header_value\<rparr>) [CHR ''a'', CR] 2 [] =
     (2, demo_parser\<lparr>state := s_header_value_almost_done\<rparr>, [EvValue ''a'', EvValue [CHR ''a'', CR]])"
  using value_delivered_twice [of "demo_parser\<lparr>state := s_header_value\<rparr>" "''a''" "[]"]
  by (simp add: numeral_2_eq_2)

text \<open>A field name cut behind a hyphen loses what comes before the cut: at a hyphen that ends a buffer the code
  leaves the case before it delivers what it holds, and the next buffer starts a new mark.\<close>

theorem field_lost_behind_hyphen:
  assumes "state p = s_header_field_start" "name_ok n" "name_ok m"
  shows "feed recorder [(n @ ''-'', length n + 1), (m @ '':'', length m + 1)] p u =
    (True, p\<lparr>state := s_header_value_start\<rparr>, u @ [EvField m])"
proof -
  let ?p = "p\<lparr>state := s_header_field\<rparr>"
  have "mp_loop recorder (n @ ''-'') (length (n @ ''-'')) 0 0 p u =
      mp_loop recorder (n @ ''-'') (length (n @ ''-'')) 0 0 ?p u"
    using assms(1) by (intro mp_loop_resume) (simp_all add: mp_step_def Let_def)
  with loop_name_hyphen [of 0 "n @ ''-''" n ?p 0 u] assms(2)
  have one: "multipart_parser_execute recorder p (n @ ''-'') (length n + 1) u = (length n + 1, ?p, u)"
    by (simp add: multipart_parser_execute_def)
  have "multipart_parser_execute recorder ?p (m @ '':'') (length m + 1) u =
      (length m + 1, p\<lparr>state := s_header_value_start\<rparr>, u @ [EvField m])"
    using loop_name [of 0 "m @ '':''" m "[]" ?p 0 u] assms(3)
    by (simp add: multipart_parser_execute_def mp_loop_done)
  with one show ?thesis by simp
qed

theorem field_lost_behind_hyphen_witness:
  "feed recorder [(''content-'', 8), (''type:'', 5)] (demo_parser\<lparr>state := s_header_field_start\<rparr>) [] =
     (True, demo_parser\<lparr>state := s_header_value_start\<rparr>, [EvField ''type''])"
  using field_lost_behind_hyphen [of "demo_parser\<lparr>state := s_header_field_start\<rparr>" "''content''" "''type''" "[]"]
  by (simp add: char_eval eval_nat_numeral del: feed.simps)

end
