(* ===== verification/Upload.thy ===== *)
theory Upload
  imports Multipart
begin

text \<open>
  The upload helper of \<open>src/cgi/cgi-io/src/main.c\<close>: the state the callbacks share, the
  callbacks, \<open>filecopy\<close>, \<open>response\<close> and \<open>main_upload\<close>. What the system answers is the
  environment, a record of results; the file system, the temporary file and the output are part
  of the state. Reading behind the end of the input array sets \<open>overread\<close>.
\<close>

section \<open>State and environment\<close>

datatype part =
  PART_UNKNOWN | PART_SESSIONID | PART_FILENAME | PART_FILEMODE | PART_FILEDATA

definition parts :: "(string \<times> part) list" where
  \<comment> \<open>\<open>parts[1..]\<close> with the enum value of each index\<close>
  "parts = [(''sessionid'', PART_SESSIONID), (''filename'', PART_FILENAME),
     (''filemode'', PART_FILEMODE), (''filedata'', PART_FILEDATA)]"

record upload =
  is_content_disposition :: bool
  parttype :: part
  sessionid :: "string option"
  filename :: "string option"
  filedata :: bool
  filemode :: int
  filefd :: int
  tempfd :: int
  errno :: int
  temp :: string  \<comment> \<open>content of the temporary file\<close>
  files :: "string \<Rightarrow> (string \<times> int) option"  \<comment> \<open>content and mode\<close>
  out :: string  \<comment> \<open>standard output\<close>
  overread :: bool

record env =
  ubus_connect :: bool
  ubus_lookup_id :: bool
  ubus_invoke :: "(string \<times> string option) list \<Rightarrow> bool option option"
    \<comment> \<open>the reply to the request: none, or its \<open>access\<close> attribute\<close>
  pipe_fork :: bool
  busybox_md5sum :: "string \<Rightarrow> string"
  strerror :: "int \<Rightarrow> string"
  fail_errno :: int  \<comment> \<open>\<open>errno\<close> after a call that failed\<close>
  malloc_ok :: "nat \<Rightarrow> bool"
  mkstemp_fd :: int
  write_temp :: "nat \<Rightarrow> nat \<Rightarrow> int"  \<comment> \<open>result of writing so many bytes at that position\<close>
  lseek_rc :: int
  open_fd :: "string \<Rightarrow> int"
  new_mode :: int  \<comment> \<open>0600 less the umask\<close>
  read_temp :: "nat \<Rightarrow> int"  \<comment> \<open>how much a read at that position delivers, if that much is there\<close>
  write_file :: "nat \<Rightarrow> nat \<Rightarrow> int"
  chmod_rc :: "string \<Rightarrow> int \<Rightarrow> int"
  stat_rc :: "string \<Rightarrow> int"

section \<open>Sessions, checksums, answers\<close>

definition session_access_cb :: "bool option option \<Rightarrow> bool \<Rightarrow> bool" where
  "session_access_cb msg allow = (case msg of Some (Some a) \<Rightarrow> a | _ \<Rightarrow> allow)"

definition session_access :: "env \<Rightarrow> string option \<Rightarrow> string \<Rightarrow> string \<Rightarrow> bool" where
  "session_access e sid obj func =
     (if \<not> ubus_connect e \<or> \<not> ubus_lookup_id e then False
      else session_access_cb
        (ubus_invoke e [(''ubus_rpc_session'', sid), (''scope'', Some ''cgi-io''),
           (''object'', Some obj), (''function'', Some func)]) False)"

definition md5sum :: "env \<Rightarrow> string \<Rightarrow> string option" where
  \<comment> \<open>the parent: the first 32 bytes of the pipe, as a C string\<close>
  "md5sum e file = (if pipe_fork e then Some (cstr (take 32 (busybox_md5sum e file))) else None)"

definition datadup :: "env \<Rightarrow> string \<Rightarrow> nat \<Rightarrow> string option" where
  "datadup e ptr len = (if malloc_ok e (len + 1) then Some (take len ptr) else None)"

definition print :: "string \<Rightarrow> upload \<Rightarrow> upload" where
  "print s u = u\<lparr>out := out u @ s\<rparr>"

definition crlf :: string where "crlf = [CR, LF]"
definition tab :: string where "tab = [CHR 0x09]"
definition nl :: string where "nl = [LF]"

definition name_of :: "upload \<Rightarrow> string" where
  "name_of u = (case filename u of None \<Rightarrow> [] | Some f \<Rightarrow> cstr f)"

definition unlink_target :: "upload \<Rightarrow> upload" where
  \<comment> \<open>\<open>unlink(st.filename)\<close>; it fails for a null pointer\<close>
  "unlink_target u = (case filename u of None \<Rightarrow> u | Some f \<Rightarrow> u\<lparr>files := (files u)(cstr f := None)\<rparr>)"

definition response :: "env \<Rightarrow> bool \<Rightarrow> string option \<Rightarrow> upload \<Rightarrow> int \<times> upload" where
  \<open>response e success message u =
     (let u1 = print (''Status: 200 OK'' @ crlf @ ''Content-Type: text/plain'' @ crlf @ crlf @ ''{'' @ nl) u;
          u2 = (if success
                then (case (files u1 (name_of u1), md5sum e (name_of u1)) of
                        (Some (content, mode), Some md5) \<Rightarrow>
                          if filename u1 \<noteq> None \<and> stat_rc e (name_of u1) = 0
                          then print (tab @ ''"size": '' @ dec_nat (length content mod 2 ^ 32) @ '','' @ nl @
                                 tab @ ''"checksum": "'' @ md5 @ ''"'' @ nl) u1
                          else u1
                      | _ \<Rightarrow> u1)
                else (let v = (case message of None \<Rightarrow> u1
                               | Some m \<Rightarrow> print (tab @ ''"message": "'' @ m @ ''",'' @ nl) u1);
                          w = print (tab @ ''"failure": [ '' @ dec_nat (nat (errno v mod 2 ^ 32)) @ '', "'' @
                                strerror e (errno v) @ ''" ]'' @ nl) v
                      in if -1 < filefd w then unlink_target w else w))
      in (-1, print (''}'' @ nl) u2))\<close>

section \<open>The target file\<close>

definition set_errno :: "env \<Rightarrow> upload \<Rightarrow> upload" where
  "set_errno e u = u\<lparr>errno := fail_errno e\<rparr>"

definition append_target :: "string \<Rightarrow> upload \<Rightarrow> upload" where
  "append_target s u =
     u\<lparr>files := (files u)(name_of u := map_option (\<lambda>(c, m). (c @ s, m)) (files u (name_of u)))\<rparr>"

lemma temp_append_target [simp]: "temp (append_target s u) = temp u"
  by (simp add: append_target_def)

definition copy_len :: "env \<Rightarrow> nat \<Rightarrow> upload \<Rightarrow> nat" where
  \<comment> \<open>what \<open>read(st.tempfd, buf, 4096)\<close> at \<open>pos\<close> delivers; 0 at the end and for an error\<close>
  "copy_len e pos u = min (nat (read_temp e pos)) (min 4096 (length (temp u) - pos))"

lemma copy_len_bound: "copy_len e pos u \<le> length (temp u) - pos"
  unfolding copy_len_def by (rule min.coboundedI2) simp

lemma copy_len_less:
  "0 < copy_len e pos u \<Longrightarrow> length (temp u) - (pos + copy_len e pos u) < length (temp u) - pos"
  using copy_len_bound [of e pos u] by linarith

function copy_loop :: "env \<Rightarrow> nat \<Rightarrow> upload \<Rightarrow> bool \<times> upload" where
  \<comment> \<open>the \<open>read\<close>/\<open>write\<close> loop of \<open>filecopy\<close>; false when a write is short\<close>
  "copy_loop e pos u =
     (if copy_len e pos u = 0 then (True, u)
      else (let len = copy_len e pos u;
                piece = take len (drop pos (temp u));
                w = write_file e pos len;
                u1 = append_target (take (nat w) piece) u
            in if w \<noteq> int len then (False, if w < 0 then set_errno e u1 else u1)
               else copy_loop e (pos + len) u1))"
  by pat_completeness auto
termination
  by (relation "measure (\<lambda>(e, pos, u). length (temp u) - pos)") (simp_all add: copy_len_less)

declare copy_loop.simps [simp del]

definition filecopy :: "env \<Rightarrow> upload \<Rightarrow> int \<times> upload" where
  "filecopy e u =
     (if \<not> filedata u then response e False (Some ''No file data received'') (u\<lparr>errno := 22\<rparr>)
      else if lseek_rc e < 0
      then response e False (Some ''Failed to rewind temp file'') (set_errno e u)
      else (let fd = open_fd e (name_of u); u1 = u\<lparr>filefd := fd\<rparr>
            in if fd < 0
               then response e False (Some ''Failed to open target file'') (set_errno e u1)
               else (let u2 = u1\<lparr>files := (files u1)(name_of u1 :=
                            Some ([], case files u1 (name_of u1) of None \<Rightarrow> new_mode e | Some (c, m) \<Rightarrow> m))\<rparr>;
                         (ok, u3) = copy_loop e 0 u2
                     in if \<not> ok
                        then response e False (Some ''I/O failure while writing target file'') u3
                        else if chmod_rc e (name_of u3) (filemode u3) \<noteq> 0
                        then response e False (Some ''Failed to chmod target file'') (set_errno e u3)
                        else (0, u3\<lparr>files := (files u3)(name_of u3 :=
                               map_option (\<lambda>(c, m). (c, filemode u3 mod 4096)) (files u3 (name_of u3)))\<rparr>))))"

section \<open>The callbacks\<close>

definition header_field :: "string \<Rightarrow> nat \<Rightarrow> upload \<Rightarrow> int \<times> upload" where
  "header_field ptr len u =
     (0, u\<lparr>is_content_disposition := strncaseeq ptr ''Content-Disposition'' len\<rparr>)"

fun cmp_mem :: "(char \<Rightarrow> char) \<Rightarrow> string \<Rightarrow> string \<Rightarrow> nat \<Rightarrow> bool option" where
  \<comment> \<open>\<open>strncmp\<close> or \<open>strncasecmp\<close> of an array with a literal; \<open>None\<close> when the array ends first\<close>
  "cmp_mem f m lit 0 = Some True"
| "cmp_mem f [] lit (Suc n) = None"
| "cmp_mem f (c # m) [] (Suc n) = Some (c = NUL)"
| "cmp_mem f (c # m) (d # lit) (Suc n) = (if f c = f d then cmp_mem f m lit n else Some False)"

fun skip_seps :: "string \<Rightarrow> 64 word \<Rightarrow> (string \<times> 64 word) option" where
  \<comment> \<open>\<open>for (...; *data == ' ' || *data == ';'; data++, len--);\<close>\<close>
  "skip_seps [] len = None"
| "skip_seps (c # m) len =
     (if c = CHR '' '' \<or> c = CHR '';'' then skip_seps m (len - 1) else Some (c # m, len))"

fun find_quote :: "string \<Rightarrow> nat \<Rightarrow> 64 word \<Rightarrow> nat option option" where
  \<comment> \<open>the index of the quote among \<open>data[0..len]\<close>\<close>
  "find_quote m i len =
     (if len < word_of_nat i then Some None
      else (case m of [] \<Rightarrow> None
            | c # m' \<Rightarrow> if c = CHR 0x22 then Some (Some i) else find_quote m' (i + 1) len))"

declare find_quote.simps [simp del]

fun match_parts :: "string \<Rightarrow> nat \<Rightarrow> (string \<times> part) list \<Rightarrow> part \<Rightarrow> part option" where
  \<comment> \<open>the loop over \<open>parts\<close>: the last one that agrees in \<open>i\<close> bytes\<close>
  "match_parts m i [] pt = Some pt"
| "match_parts m i ((name, j) # ps) pt =
     (case cmp_mem (\<lambda>c. c) m name i of
        None \<Rightarrow> None
      | Some eq \<Rightarrow> match_parts m i ps (if eq then j else pt))"

definition part_name :: "string \<Rightarrow> 64 word \<Rightarrow> part \<Rightarrow> part option" where
  \<comment> \<open>behind \<open>form-data\<close>\<close>
  \<open>part_name m len pt =
     (case skip_seps m len of
        None \<Rightarrow> None
      | Some (m1, len1) \<Rightarrow>
          if len1 < 8 then Some pt
          else (case cmp_mem tolower m1 ''name="'' 6 of
                  None \<Rightarrow> None
                | Some False \<Rightarrow> Some pt
                | Some True \<Rightarrow>
                    (case find_quote (drop 6 m1) 0 (len1 - 6) of
                       None \<Rightarrow> None
                     | Some None \<Rightarrow> Some pt
                     | Some (Some i) \<Rightarrow> match_parts (drop 6 m1) i parts pt)))\<close>

definition header_value :: "string \<Rightarrow> nat \<Rightarrow> upload \<Rightarrow> int \<times> upload" where
  "header_value ptr len u =
     (if \<not> is_content_disposition u then (0, u)
      else if len < 10 then (0, u)
      else (case cmp_mem tolower ptr ''form-data'' 9 of
              None \<Rightarrow> (0, u\<lparr>overread := True\<rparr>)
            | Some False \<Rightarrow> (0, u)
            | Some True \<Rightarrow>
                (case part_name (drop 9 ptr) (word_of_nat (len - 9)) (parttype u) of
                   None \<Rightarrow> (0, u\<lparr>overread := True\<rparr>)
                 | Some pt \<Rightarrow> (0, u\<lparr>parttype := pt\<rparr>))))"

definition data_begin_cb :: "env \<Rightarrow> upload \<Rightarrow> int \<times> upload" where
  "data_begin_cb e u =
     (if parttype u = PART_FILEDATA
      then if sessionid u = None then response e False (Some ''File data without session'') u
           else if filename u = None then response e False (Some ''File data without name'') u
           else (let u1 = u\<lparr>tempfd := mkstemp_fd e\<rparr>
                 in if tempfd u1 < 0
                    then response e False (Some ''Failed to create temporary file'') (set_errno e u1)
                    else (0, u1\<lparr>temp := []\<rparr>))
      else (0, u))"

definition strtoul8 :: "string \<Rightarrow> int" where
  \<comment> \<open>\<open>strtoul(data, NULL, 8)\<close> stored in an \<open>int\<close>\<close>
  "strtoul8 s = (let v = strtol_raw 8 s in to_int32 (if \<bar>v\<bar> < 2 ^ 64 then v else 2 ^ 64 - 1))"

definition ends_number :: "char \<Rightarrow> bool" where
  "ends_number c \<longleftrightarrow> \<not> isspace c \<and> \<not> (48 \<le> ord c \<and> ord c < 56) \<and> c \<noteq> CHR ''+'' \<and> c \<noteq> CHR ''-''"

definition data_cb :: "env \<Rightarrow> string \<Rightarrow> nat \<Rightarrow> upload \<Rightarrow> int \<times> upload" where
  "data_cb e ptr len u =
     (case parttype u of
        PART_SESSIONID \<Rightarrow> (0, u\<lparr>sessionid := datadup e ptr len\<rparr>)
      | PART_FILENAME \<Rightarrow> (0, u\<lparr>filename := datadup e ptr len\<rparr>)
      | PART_FILEMODE \<Rightarrow>
          (0, u\<lparr>filemode := strtoul8 ptr, overread := (overread u \<or> \<not> list_ex ends_number ptr)\<rparr>)
      | PART_FILEDATA \<Rightarrow>
          (let w = write_temp e (length (temp u)) len;
               u1 = u\<lparr>temp := temp u @ take (nat w) (take len ptr)\<rparr>
           in if w \<noteq> int len
              then response e False (Some ''I/O failure while writing temporary file'')
                     (if w < 0 then set_errno e u1 else u1)
              else (0, if \<not> filedata u1 then u1\<lparr>filedata := (len \<noteq> 0)\<rparr> else u1))
      | PART_UNKNOWN \<Rightarrow> (0, u))"

definition data_end_cb :: "env \<Rightarrow> upload \<Rightarrow> int \<times> upload" where
  "data_end_cb e u =
     (if parttype u = PART_SESSIONID \<and> \<not> session_access e (map_option cstr (sessionid u)) ''upload'' ''write''
      then response e False (Some ''Upload permission denied'') (u\<lparr>errno := 1\<rparr>)
      else if parttype u = PART_FILEDATA
      then if tempfd u < 0 then response e False (Some ''Internal program failure'') u
           else (let (r, u1) = filecopy e u
                 in if r \<noteq> 0 then (-1, u1) else response e True None u1)
      else (0, u\<lparr>parttype := PART_UNKNOWN\<rparr>))"

definition upload_settings :: "env \<Rightarrow> upload settings" where
  \<comment> \<open>the static \<open>s\<close> of \<open>init_parser\<close>\<close>
  "upload_settings e =
     \<lparr>on_header_field = Some header_field, on_header_value = Some header_value,
      on_part_data = Some (data_cb e), on_part_data_begin = None,
      on_headers_complete = Some (data_begin_cb e), on_part_data_end = Some (data_end_cb e),
      on_body_end = None\<rparr>"

section \<open>\<open>main_upload\<close>\<close>

definition init_parser ::
  "env \<Rightarrow> nat \<Rightarrow> (nat \<Rightarrow> char) \<Rightarrow> string option \<Rightarrow> upload \<Rightarrow> parser option \<times> upload" where
  "init_parser e junk fresh content_type u =
     (case content_type of
        None \<Rightarrow> (None, u)
      | Some ct \<Rightarrow>
          if \<not> strneq ct ''multipart/form-data;'' 20 then (None, u)
          else (case dropWhile (\<lambda>c. c \<noteq> CHR ''='') (drop 20 (cstr ct)) of
                  [] \<Rightarrow> (None, u)
                | _ # var \<Rightarrow>
                    if \<not> malloc_ok e (length var + 3) then (None, u)
                    else (Some (multipart_parser_init junk fresh (''--'' @ var)),
                          u\<lparr>tempfd := -1, filefd := -1, filemode := 384\<rparr>)))"

fun upload_loop ::
  "env \<Rightarrow> string list \<Rightarrow> string \<Rightarrow> parser \<Rightarrow> upload \<Rightarrow> upload" where
  \<comment> \<open>the results of the successive \<open>read\<close> calls; nothing more is end of file\<close>
  "upload_loop e [] buf p u = u"
| "upload_loop e (chunk # reads) buf p u =
     (if chunk = [] then u
      else (let buf1 = chunk @ drop (length chunk) buf;
                (rem, p1, u1) = multipart_parser_execute (upload_settings e) p buf1 (length chunk) u
            in if rem < length chunk then u1 else upload_loop e reads buf1 p1 u1))"

definition fresh_state :: "(string \<Rightarrow> (string \<times> int) option) \<Rightarrow> upload" where
  \<comment> \<open>the zero-initialised static \<open>st\<close>\<close>
  "fresh_state fs =
     \<lparr>is_content_disposition = False, parttype = PART_UNKNOWN, sessionid = None, filename = None,
      filedata = False, filemode = 0, filefd = 0, tempfd = 0, errno = 0, temp = [], files = fs,
      out = [], overread = False\<rparr>"

definition main_upload ::
  "env \<Rightarrow> nat \<Rightarrow> (nat \<Rightarrow> char) \<Rightarrow> string option \<Rightarrow> string list \<Rightarrow> string \<Rightarrow> upload \<Rightarrow> int \<times> upload" where
  "main_upload e junk fresh content_type reads stack u =
     (case init_parser e junk fresh content_type u of
        (None, u1) \<Rightarrow> response e False (Some ''Invalid request'') (u1\<lparr>errno := 22\<rparr>)
      | (Some p, u1) \<Rightarrow> (0, upload_loop e reads stack p u1))"

section \<open>What the target file's operations leave alone\<close>

definition keeps :: "upload \<Rightarrow> upload \<Rightarrow> bool" where
  \<comment> \<open>the session and the name stay, and only the file of that name may change\<close>
  "keeps u u' \<longleftrightarrow> sessionid u' = sessionid u \<and> filename u' = filename u \<and>
     (\<forall>f. f \<noteq> name_of u \<longrightarrow> files u' f = files u f)"

lemma keeps_name: "keeps u u' \<Longrightarrow> name_of u' = name_of u"
  by (simp add: keeps_def name_of_def)

lemma keeps_trans: "keeps u v \<Longrightarrow> keeps v w \<Longrightarrow> keeps u w"
  using keeps_name [of u v] by (simp add: keeps_def)

lemma keeps_refl: "keeps u u" by (simp add: keeps_def)

lemma name_of_update [simp]:
  "name_of (u\<lparr>files := fs\<rparr>) = name_of u" "name_of (u\<lparr>errno := n\<rparr>) = name_of u"
  "name_of (u\<lparr>filefd := n\<rparr>) = name_of u" "name_of (u\<lparr>out := s\<rparr>) = name_of u"
  by (simp_all add: name_of_def)

lemma keeps_parts:
  "keeps u (print s u)" "keeps u (set_errno e u)" "keeps u (append_target s u)"
  "keeps u (unlink_target u)" "keeps u (u\<lparr>errno := n\<rparr>)" "keeps u (u\<lparr>filefd := n\<rparr>)"
  "keeps u (u\<lparr>files := (files u)(name_of u := c)\<rparr>)"
  by (auto simp: keeps_def print_def set_errno_def append_target_def unlink_target_def name_of_def
      split: option.splits)

lemma response_success [simp]:
  "files (snd (response e True m u)) = files u" "fst (response e s m u) = -1"
  by (auto simp: response_def Let_def print_def split: option.splits)

lemma response_keeps: "keeps u (snd (response e s m u))"
  by (auto simp: response_def Let_def keeps_def print_def unlink_target_def name_of_def
      split: option.splits)

lemma response_no_target:
  "filefd u \<le> -1 \<Longrightarrow> files (snd (response e s m u)) = files u"
  by (auto simp: response_def Let_def print_def unlink_target_def split: option.splits)

lemma copy_loop_keeps: "keeps u (snd (copy_loop e pos u))"
proof (induction e pos u rule: copy_loop.induct)
  case (1 e pos u)
  show ?case
  proof (cases "copy_len e pos u = 0")
    case True
    then show ?thesis by (simp add: copy_loop.simps [of e pos u] keeps_refl)
  next
    case False
    let ?w = "write_file e pos (copy_len e pos u)"
    let ?u = "append_target (take (nat ?w) (take (copy_len e pos u) (drop pos (temp u)))) u"
    have step: "keeps u ?u" by (rule keeps_parts)
    show ?thesis
    proof (cases "?w = int (copy_len e pos u)")
      case True
      with "1.IH" [OF False refl refl refl refl] step False show ?thesis
        by (simp add: copy_loop.simps [of e pos u] Let_def keeps_trans)
    next
      case w: False
      have "keeps u (set_errno e (append_target s u))" for s
        by (rule keeps_trans [OF keeps_parts(3) keeps_parts(2)])
      with w step False show ?thesis
        by (simp add: copy_loop.simps [of e pos u] Let_def)
    qed
  qed
qed

lemma filecopy_keeps: "keeps u (snd (filecopy e u))"
proof -
  let ?u2 = "u\<lparr>filefd := open_fd e (name_of u), files := (files u)(name_of u \<mapsto>
    ([], case files u (name_of u) of None \<Rightarrow> new_mode e | Some (c, m) \<Rightarrow> m))\<rparr>"
  have u2: "keeps u ?u2" by (simp add: keeps_def)
  obtain ok u3 where c: "copy_loop e 0 ?u2 = (ok, u3)" by fastforce
  with copy_loop_keeps [of ?u2 e 0] u2 have u3: "keeps u u3" by (auto intro: keeps_trans)
  have resp: "keeps u v \<Longrightarrow> keeps u (snd (response e s m v))" for v s m
    using response_keeps keeps_trans by blast
  have err: "keeps u v \<Longrightarrow> keeps u (set_errno e v)" for v
    using keeps_parts(2) keeps_trans by blast
  have "keeps u (u3\<lparr>files := (files u3)(name_of u3 := x)\<rparr>)" for x
    using u3 keeps_parts(7) keeps_trans by blast
  then show ?thesis
    using u3 by (simp add: filecopy_def Let_def c resp err keeps_parts keeps_refl)
qed

section \<open>The phases of an upload\<close>

definition granted :: "env \<Rightarrow> upload \<Rightarrow> bool" where
  "granted e u = (case sessionid u of None \<Rightarrow> True
     | Some sid \<Rightarrow> session_access e (Some (cstr sid)) ''upload'' ''write'')"

definition untouched :: "(string \<Rightarrow> (string \<times> int) option) \<Rightarrow> upload \<Rightarrow> bool" where
  "untouched fs u \<longleftrightarrow> files u = fs \<and> filefd u = -1"

definition upload_outside :: "env \<Rightarrow> (string \<Rightarrow> (string \<times> int) option) \<Rightarrow> upload \<Rightarrow> bool" where
  "upload_outside e fs u \<longleftrightarrow> untouched fs u \<and> granted e u"

definition upload_inside :: "env \<Rightarrow> (string \<Rightarrow> (string \<times> int) option) \<Rightarrow> upload \<Rightarrow> bool" where
  "upload_inside e fs u \<longleftrightarrow> untouched fs u \<and> (parttype u \<noteq> PART_SESSIONID \<longrightarrow> granted e u) \<and>
     (parttype u = PART_FILEDATA \<longrightarrow> sessionid u \<noteq> None \<and> filename u \<noteq> None)"

definition upload_refused :: "env \<Rightarrow> (string \<Rightarrow> (string \<times> int) option) \<Rightarrow> upload \<Rightarrow> bool" where
  "upload_refused e fs u \<longleftrightarrow> files u = fs \<or>
     (sessionid u \<noteq> None \<and> filename u \<noteq> None \<and> granted e u \<and> (\<forall>f. f \<noteq> name_of u \<longrightarrow> files u f = fs f))"

lemma granted_update [simp]:
  "granted e (u\<lparr>files := fs\<rparr>) = granted e u" "granted e (u\<lparr>errno := n\<rparr>) = granted e u"
  "granted e (u\<lparr>parttype := pt\<rparr>) = granted e u" "granted e (u\<lparr>tempfd := n\<rparr>) = granted e u"
  "granted e (u\<lparr>temp := s\<rparr>) = granted e u" "granted e (u\<lparr>filedata := d\<rparr>) = granted e u"
  "granted e (u\<lparr>filename := n'\<rparr>) = granted e u" "granted e (u\<lparr>overread := d\<rparr>) = granted e u"
  "granted e (u\<lparr>filemode := n\<rparr>) = granted e u" "granted e (u\<lparr>filefd := n\<rparr>) = granted e u"
  "granted e (u\<lparr>is_content_disposition := d\<rparr>) = granted e u"
  by (simp_all add: granted_def)

lemma untouched_update [simp]:
  "untouched fs (u\<lparr>errno := n\<rparr>) = untouched fs u"
  "untouched fs (u\<lparr>parttype := pt\<rparr>) = untouched fs u" "untouched fs (u\<lparr>tempfd := n\<rparr>) = untouched fs u"
  "untouched fs (u\<lparr>temp := s\<rparr>) = untouched fs u" "untouched fs (u\<lparr>filedata := d\<rparr>) = untouched fs u"
  "untouched fs (u\<lparr>filename := n'\<rparr>) = untouched fs u" "untouched fs (u\<lparr>overread := d\<rparr>) = untouched fs u"
  "untouched fs (u\<lparr>filemode := n\<rparr>) = untouched fs u" "untouched fs (u\<lparr>sessionid := n'\<rparr>) = untouched fs u"
  "untouched fs (u\<lparr>is_content_disposition := d\<rparr>) = untouched fs u"
  "untouched fs (set_errno e u) = untouched fs u"
  by (simp_all add: untouched_def set_errno_def)

lemma refused_response: "untouched fs u \<Longrightarrow> upload_refused e fs (snd (response e s m u))"
  by (simp add: upload_refused_def untouched_def response_no_target)

lemma granted_keeps: "keeps u u' \<Longrightarrow> granted e u' = granted e u"
  by (simp add: keeps_def granted_def)

lemma refused_keeps:
  assumes "keeps u u'" "upload_inside e fs u" "parttype u = PART_FILEDATA"
  shows "upload_refused e fs u'"
  using assms granted_keeps [OF assms(1), of e] keeps_name [OF assms(1)]
  by (simp add: upload_refused_def upload_inside_def untouched_def keeps_def)

definition cb_ok :: "('u \<Rightarrow> bool) \<Rightarrow> ('u \<Rightarrow> bool) \<Rightarrow> int \<times> 'u \<Rightarrow> bool" where
  "cb_ok Q R res = (if fst res = 0 then Q (snd res) else R (snd res))"

lemma cb_ok_emit:
  "cb_ok Q R (g ptr n u) \<Longrightarrow> emit_data_cb (Some g) ptr n u = (ok, u') \<Longrightarrow>
   if ok then Q u' else R u'"
  by (auto simp: emit_data_cb_def cb_ok_def split: prod.splits if_splits)

lemma cb_ok_notify:
  "cb_ok Q R (g u) \<Longrightarrow> notify_cb (Some g) u = (ok, u') \<Longrightarrow> if ok then Q u' else R u'"
  by (auto simp: notify_cb_def cb_ok_def split: prod.splits if_splits)

lemma cb_ok_simps [simp]:
  "cb_ok Q R (0, u) = Q u" "cb_ok Q R (-1, u) = R u"
  "cb_ok Q R (response e s m v) = R (snd (response e s m v))"
  by (simp_all add: cb_ok_def)

lemma data_begin_phase:
  "upload_outside e fs u \<Longrightarrow> cb_ok (upload_inside e fs) (upload_refused e fs) (data_begin_cb e u)"
  by (simp add: data_begin_cb_def upload_outside_def upload_inside_def Let_def refused_response)

lemma header_field_phase:
  "upload_outside e fs u \<Longrightarrow> cb_ok (upload_outside e fs) R (header_field ptr n u)"
  by (simp add: header_field_def upload_outside_def)

lemma header_value_phase:
  "upload_outside e fs u \<Longrightarrow> cb_ok (upload_outside e fs) R (header_value ptr n u)"
  by (simp add: header_value_def upload_outside_def split: option.splits bool.splits)

lemma data_cb_phase:
  "upload_inside e fs u \<Longrightarrow> cb_ok (upload_inside e fs) (upload_refused e fs) (data_cb e ptr n u)"
  by (cases "parttype u")
    (simp_all add: data_cb_def upload_inside_def Let_def refused_response)

lemma data_end_phase:
  assumes "upload_inside e fs u"
  shows "cb_ok (upload_outside e fs) (upload_refused e fs) (data_end_cb e u)"
proof (cases "parttype u = PART_FILEDATA \<and> 0 \<le> tempfd u")
  case True
  obtain r u1 where c: "filecopy e u = (r, u1)" by fastforce
  with filecopy_keeps [of u e] have k: "keeps u u1" by simp
  have "upload_refused e fs u1" "upload_refused e fs (snd (response e True None u1))"
    using True by (auto intro!: refused_keeps [OF _ assms] intro: k keeps_trans [OF k response_keeps])
  with True c show ?thesis by (simp add: data_end_cb_def)
next
  case False
  with assms show ?thesis
    by (auto simp: data_end_cb_def upload_inside_def upload_outside_def refused_response granted_def
        split: option.splits)
qed

interpretation upload: multipart_client "upload_settings e" "upload_outside e fs"
  "upload_inside e fs" "upload_refused e fs"
  for e fs
proof unfold_locales
  fix u ptr n ok u'
  assume o: "upload_outside e fs u"
  show "emit_data_cb (on_header_field (upload_settings e)) ptr n u = (ok, u') \<Longrightarrow>
      if ok then upload_outside e fs u' else upload_refused e fs u'"
    by (rule cb_ok_emit [where g = "header_field"]) (use header_field_phase [OF o] in \<open>simp_all add: upload_settings_def\<close>)
  show "emit_data_cb (on_header_value (upload_settings e)) ptr n u = (ok, u') \<Longrightarrow>
      if ok then upload_outside e fs u' else upload_refused e fs u'"
    by (rule cb_ok_emit [where g = "header_value"]) (use header_value_phase [OF o] in \<open>simp_all add: upload_settings_def\<close>)
  show "notify_cb (on_headers_complete (upload_settings e)) u = (ok, u') \<Longrightarrow>
      if ok then upload_inside e fs u' else upload_refused e fs u'"
    by (rule cb_ok_notify [where g = "data_begin_cb e"]) (use data_begin_phase [OF o] in \<open>simp_all add: upload_settings_def\<close>)
  show "notify_cb (on_part_data_begin (upload_settings e)) u = (ok, u') \<Longrightarrow>
      if ok then upload_outside e fs u' else upload_refused e fs u'"
    "notify_cb (on_body_end (upload_settings e)) u = (ok, u') \<Longrightarrow>
      if ok then upload_outside e fs u' else upload_refused e fs u'"
    using o by (auto simp: upload_settings_def notify_cb_def)
next
  fix u ptr n ok u'
  assume i: "upload_inside e fs u"
  show "emit_data_cb (on_part_data (upload_settings e)) ptr n u = (ok, u') \<Longrightarrow>
      if ok then upload_inside e fs u' else upload_refused e fs u'"
    by (rule cb_ok_emit [where g = "data_cb e"]) (use data_cb_phase [OF i] in \<open>simp_all add: upload_settings_def\<close>)
  show "notify_cb (on_part_data_end (upload_settings e)) u = (ok, u') \<Longrightarrow>
      if ok then upload_outside e fs u' else upload_refused e fs u'"
    by (rule cb_ok_notify [where g = "data_end_cb e"]) (use data_end_phase [OF i] in \<open>simp_all add: upload_settings_def\<close>)
qed

section \<open>The part's name\<close>

lemma cmp_mem_prefix:
  "NUL \<notin> set nm \<Longrightarrow> cmp_mem (\<lambda>c. c) (nm @ r) lit (length nm) = Some (take (length nm) lit = nm)"
proof (induction nm arbitrary: lit)
  case (Cons c nm)
  then show ?case by (cases lit) auto
qed simp

lemma cmp_mem_in: "n \<le> length m \<Longrightarrow> cmp_mem f m lit n \<noteq> None"
  by (induction f m lit n rule: cmp_mem.induct) auto

lemma cmp_mem_stops:
  "n \<le> length lit \<Longrightarrow> list_all (\<lambda>d. f d \<noteq> f c) lit \<Longrightarrow>
   case cmp_mem f (m @ c # r) lit n of None \<Rightarrow> False | Some True \<Rightarrow> n \<le> length m | Some False \<Rightarrow> True"
proof (induction n arbitrary: m lit)
  case (Suc n)
  then obtain d l where "lit = d # l" by (cases lit) auto
  with Suc.prems Suc.IH [of l "tl m"] show ?case
    by (cases m) (auto split: option.splits bool.splits)
qed simp

lemma skip_seps_stops:
  "length v < 2 ^ 64 \<Longrightarrow> \<exists>v1. skip_seps (v @ CR # r) (word_of_nat (length v)) =
     Some (v1 @ CR # r, word_of_nat (length v1)) \<and> length v1 \<le> length v"
proof (induction v)
  case (Cons c v)
  then show ?case by (fastforce intro: exI [of _ "c # v"])
qed (auto intro: exI [of _ "[]"])

lemma find_quote_in:
  "unat len < length m + i \<Longrightarrow> length m + i < 2 ^ 64 \<Longrightarrow>
   case find_quote m i len of None \<Rightarrow> False | Some None \<Rightarrow> True | Some (Some k) \<Rightarrow> k < length m + i"
proof (induction m i len rule: find_quote.induct)
  case (1 m i len)
  then have "(len < word_of_nat i) = (unat len < i)" by (simp add: word_less_nat_alt unat_of_nat)
  with 1 show ?case
    unfolding find_quote.simps [of m i len] by (cases m) (auto split: option.splits)
qed

lemma find_quote_at:
  "CHR 0x22 \<notin> set nm \<Longrightarrow> i + length nm \<le> unat len \<Longrightarrow>
   find_quote (nm @ CHR 0x22 # r) i len = Some (Some (i + length nm))"
proof (induction nm arbitrary: i)
  case Nil
  then have "\<not> len < word_of_nat i" by (simp add: word_less_nat_alt unat_of_nat take_bit_nat_less_eq_self not_less order_trans)
  then show ?case unfolding find_quote.simps [of "[] @ CHR 0x22 # r"] by simp
next
  case (Cons c nm)
  then have "\<not> len < word_of_nat i"
    by (simp add: word_less_nat_alt unat_of_nat not_less order_trans [OF mod_less_eq_dividend])
  with Cons show ?case unfolding find_quote.simps [of "(c # nm) @ CHR 0x22 # r"] by auto
qed

lemma match_parts_prefix:
  "NUL \<notin> set nm \<Longrightarrow> match_parts (nm @ r) (length nm) ps pt =
     Some (foldl (\<lambda>pt (name, j). if take (length nm) name = nm then j else pt) pt ps)"
  by (induction ps arbitrary: pt) (auto simp: cmp_mem_prefix)

lemma match_parts_in: "i \<le> length m \<Longrightarrow> match_parts m i ps pt \<noteq> None"
  using cmp_mem_in [of i m "\<lambda>c. c"]
  by (induction ps arbitrary: pt) (auto split: option.splits)

lemma part_name_in:
  assumes "length v + length r + 1 < 2 ^ 64"
  shows "part_name (v @ CR # r) (word_of_nat (length v)) pt \<noteq> None"
proof -
  obtain v1 where v1: "skip_seps (v @ CR # r) (word_of_nat (length v)) =
      Some (v1 @ CR # r, word_of_nat (length v1))" "length v1 \<le> length v"
    using skip_seps_stops [of v r] assms by auto
  let ?m = "v1 @ CR # r" and ?len = "word_of_nat (length v1) :: 64 word"
  have cmp: "case cmp_mem tolower ?m ''name=\"'' 6 of None \<Rightarrow> False
      | Some True \<Rightarrow> 6 \<le> length v1 | Some False \<Rightarrow> True"
    by (rule cmp_mem_stops) (simp_all add: char_eval)
  show ?thesis
  proof (cases "8 \<le> ?len \<and> 6 \<le> length v1")
    case True
    then have len: "?len - 6 = word_of_nat (length v1 - 6)" by simp
    have m: "drop 6 ?m = drop 6 v1 @ CR # r" using True by simp
    have "unat (?len - 6) < length (drop 6 ?m) + 0"
      unfolding len m using assms v1(2) by (simp add: unat_of_nat)
    from find_quote_in [OF this] assms v1(2) True
    have q: "case find_quote (drop 6 ?m) 0 (?len - 6) of None \<Rightarrow> False | Some None \<Rightarrow> True
        | Some (Some k) \<Rightarrow> k < length (drop 6 ?m) + 0" by (simp only: m) simp
    then show ?thesis
      using cmp match_parts_in [of _ "drop 6 ?m"]
      by (auto simp: part_name_def v1(1) split: option.splits bool.splits)
  next
    case False
    with cmp show ?thesis
      by (auto simp: part_name_def v1(1) not_le split: option.splits bool.splits)
  qed
qed

section \<open>Properties\<close>

lemma upload_loop_phase:
  "upload.phase e fs p u \<Longrightarrow>
   \<exists>p'. upload.phase e fs p' (upload_loop e reads buf p u) \<or> upload_refused e fs (upload_loop e reads buf p u)"
proof (induction e reads buf p u rule: upload_loop.induct)
  case (2 e chunk reads buf p u)
  let ?buf = "chunk @ drop (length chunk) buf"
  obtain r p1 u1 where x:
    "multipart_parser_execute (upload_settings e) p ?buf (length chunk) u = (r, p1, u1)"
    by (metis prod_cases3)
  from upload.execute_phase [OF "2.prems" x] show ?case
    using "2.IH" [OF _ refl x [symmetric] refl] x "2.prems" by (cases "chunk = []") auto
qed auto

lemma phase_refused: "upload.phase e fs p u \<Longrightarrow> upload_refused e fs u"
  by (auto simp: upload.phase_def upload_refused_def upload_inside_def upload_outside_def
      untouched_def split: if_splits)

text \<open>C5: no upload without a granted session: over every request body, however it is cut into reads, every
  content type and every behaviour of the system, either no file of the file system has changed
  when \<open>main_upload\<close> ends, or the session named by the request was granted the right to write uploads,
  and only the file named by the request has changed.\<close>

theorem upload_needs_session:
  "case main_upload e junk fresh content_type reads stack (fresh_state fs) of (rc, u) \<Rightarrow>
     files u = fs \<or>
     (case (sessionid u, filename u) of
        (Some sid, Some name) \<Rightarrow>
          session_access e (Some (cstr sid)) ''upload'' ''write'' \<and>
          (other = cstr name \<or> files u other = fs other)
      | _ \<Rightarrow> False)"
proof (cases "init_parser e junk fresh content_type (fresh_state fs)")
  case (Pair p u1)
  show ?thesis
  proof (cases p)
    case None
    then have "u1 = fresh_state fs"
      using Pair by (auto simp: init_parser_def split: option.splits list.splits if_splits)
    with Pair None show ?thesis
      by (simp add: main_upload_def response_def Let_def print_def unlink_target_def fresh_state_def)
  next
    case (Some q)
    then have "upload_outside e fs u1" "state q = s_start"
      using Pair
      by (auto simp: init_parser_def upload_outside_def untouched_def granted_def fresh_state_def
          multipart_parser_init_def split: option.splits list.splits if_splits)
    then have "upload.phase e fs q u1" by (simp add: in_data_def)
    from upload_loop_phase [OF this] have "upload_refused e fs (upload_loop e reads stack q u1)"
      using phase_refused by blast
    with Pair Some show ?thesis
      by (auto simp: main_upload_def upload_refused_def granted_def name_of_def split: option.splits)
  qed
qed

lemma copy_loop_content:
  assumes "copy_loop e pos u = (True, u')" "files u (name_of u) = Some (c, m)" "pos \<le> length (temp u)"
  shows "\<exists>k. pos \<le> k \<and> k \<le> length (temp u) \<and>
    files u' (name_of u) = Some (c @ take (k - pos) (drop pos (temp u)), m) \<and>
    temp u' = temp u \<and> filemode u' = filemode u \<and> filefd u' = filefd u \<and> name_of u' = name_of u \<and>
    (k < length (temp u) \<longrightarrow> read_temp e k \<le> 0)"
  using assms
proof (induction e pos u arbitrary: c rule: copy_loop.induct)
  case (1 e pos u)
  let ?n = "copy_len e pos u"
  show ?case
  proof (cases "?n = 0")
    case True
    then have "u' = u" using "1.prems"(1) by (simp add: copy_loop.simps [of e pos u])
    moreover have "pos < length (temp u) \<longrightarrow> read_temp e pos \<le> 0"
      using True by (auto simp: copy_len_def min_def split: if_splits)
    ultimately show ?thesis using "1.prems" by (intro exI [of _ pos]) simp
  next
    case False
    let ?w = "write_file e pos ?n" and ?p = "take ?n (drop pos (temp u))"
    let ?u = "append_target (take (nat ?w) ?p) u"
    have w: "?w = int ?n" and rest: "copy_loop e (pos + ?n) ?u = (True, u')"
      using "1.prems"(1) False by (auto simp: copy_loop.simps [of e pos u] Let_def split: if_splits)
    have le: "pos + ?n \<le> length (temp u)"
      using copy_len_bound [of e pos u] "1.prems"(3) by linarith
    have u: "temp ?u = temp u" "filemode ?u = filemode u" "filefd ?u = filefd u" "name_of ?u = name_of u"
      "files ?u (name_of u) = Some (c @ ?p, m)"
      using "1.prems"(2) w by (simp_all add: append_target_def)
    from "1.IH" [OF False refl refl refl refl _ rest, of "c @ ?p"] w u le obtain k where
      k: "pos + ?n \<le> k" "k \<le> length (temp u)"
      "files u' (name_of u) = Some ((c @ ?p) @ take (k - (pos + ?n)) (drop (pos + ?n) (temp u)), m)"
      "temp u' = temp u \<and> filemode u' = filemode u \<and> filefd u' = filefd u \<and> name_of u' = name_of u"
      "k < length (temp u) \<longrightarrow> read_temp e k \<le> 0" by auto
    have "?p @ take (k - (pos + ?n)) (drop (pos + ?n) (temp u)) = take (?n + (k - (pos + ?n))) (drop pos (temp u))"
      by (simp add: take_add add.commute)
    also have "?n + (k - (pos + ?n)) = k - pos" using k(1) by simp
    finally show ?thesis using k by (intro exI [of _ k]) simp
  qed
qed

text \<open>\<open>filecopy\<close>, when it returns 0, has made the target a copy of the temporary file up to some
  position with the requested mode; the position is the end of the file, unless reading the temporary file
  failed there, which the loop takes for its end.\<close>

theorem filecopy_copies:
  assumes "filecopy e u = (0, u')"
  shows "\<exists>k. files u' (name_of u) = Some (take k (temp u), filemode u mod 4096) \<and>
    k \<le> length (temp u) \<and> (k = length (temp u) \<or> read_temp e k \<le> 0)"
proof -
  let ?m = "case files u (name_of u) of None \<Rightarrow> new_mode e | Some (c, m) \<Rightarrow> m"
  let ?u2 = "u\<lparr>filefd := open_fd e (name_of u), files := (files u)(name_of u \<mapsto> ([], ?m))\<rparr>"
  have no: "response e s m v \<noteq> (0, u')" for s m v
    using response_success(2) [of e s m v] by (auto dest: arg_cong [where f = fst])
  obtain ok u3 where c: "copy_loop e 0 ?u2 = (ok, u3)" by fastforce
  then have ok: "ok" and u': "u' = u3\<lparr>files := (files u3)(name_of u3 :=
      map_option (\<lambda>(c, m). (c, filemode u3 mod 4096)) (files u3 (name_of u3)))\<rparr>"
    using assms by (auto simp: filecopy_def Let_def no split: if_splits)
  from copy_loop_content [OF c [unfolded eqTrueI [OF ok]], of "[]" ?m] obtain k where
    "k \<le> length (temp u)" "files u3 (name_of u) = Some (take k (temp u), ?m)"
    "filemode u3 = filemode u" "name_of u3 = name_of u" "k < length (temp u) \<longrightarrow> read_temp e k \<le> 0"
    by auto
  with u' show ?thesis by (intro exI [of _ k]) auto
qed

definition demo_env :: env where
  "demo_env = \<lparr>ubus_connect = True, ubus_lookup_id = True, ubus_invoke = (\<lambda>req. Some (Some True)),
     pipe_fork = False, busybox_md5sum = (\<lambda>f. []), strerror = (\<lambda>n. ''error''), fail_errno = 5,
     malloc_ok = (\<lambda>n. True), mkstemp_fd = 7, write_temp = (\<lambda>pos n. int n), lseek_rc = 0,
     open_fd = (\<lambda>f. 8), new_mode = 384, read_temp = (\<lambda>pos. if pos < 3 then 2 else -1),
     write_file = (\<lambda>pos n. int n), chmod_rc = (\<lambda>f m. 0), stat_rc = (\<lambda>f. 0)\<rparr>"

theorem filecopy_copies_witness:
  "\<exists>u' k. filecopy demo_env ((fresh_state (\<lambda>_. None))\<lparr>filedata := True, temp := ''abcdef'', filemode := 384,
       filename := Some ''f''\<rparr>) = (0, u') \<and>
     files u' ''f'' = Some (take k ''abcdef'', 384)"
proof -
  let ?u = "(fresh_state (\<lambda>_. None))\<lparr>filedata := True, temp := ''abcdef'', filemode := 384,
    filename := Some ''f''\<rparr>"
  obtain r u' where c: "filecopy demo_env ?u = (r, u')" by fastforce
  then have "r = 0"
    by (simp add: filecopy_def demo_env_def fresh_state_def name_of_def copy_loop.simps copy_len_def
        append_target_def Let_def split: prod.splits if_splits)
  with filecopy_copies [of demo_env ?u u'] c show ?thesis
    by (auto simp: name_of_def fresh_state_def)
qed

text \<open>\<open>header_value\<close> stays inside the array when it is given a whole value, that is one whose CR is in the
  array behind it: none of its loops passes the CR. (A value cut by the end of the array has no such
  byte.)\<close>

theorem header_value_in_bounds:
  assumes "length v + length r + 1 < 2 ^ 64"
  shows "overread (snd (header_value (v @ CR # r) (length v) u)) = overread u"
proof -
  have cmp: "case cmp_mem tolower (v @ CR # r) ''form-data'' 9 of None \<Rightarrow> False
      | Some True \<Rightarrow> 9 \<le> length v | Some False \<Rightarrow> True"
    by (rule cmp_mem_stops) (simp_all add: char_eval)
  show ?thesis
  proof (cases "9 \<le> length v")
    case True
    then have "drop 9 (v @ CR # r) = drop 9 v @ CR # r" by simp
    moreover obtain pt where
      "part_name (drop 9 v @ CR # r) (word_of_nat (length v - 9)) (parttype u) = Some pt"
    proof -
      have "length (drop 9 v) + length r + 1 < 2 ^ 64" by (rule le_less_trans [OF _ assms]) simp
      from part_name_in [OF this, of "parttype u"] that show thesis by auto
    qed
    moreover obtain b where "cmp_mem tolower (v @ CR # r) ''form-data'' 9 = Some b"
      using cmp by (auto split: option.splits)
    ultimately show ?thesis by (cases b) (simp_all add: header_value_def del: of_nat_diff)
  next
    case False
    then show ?thesis by (simp add: header_value_def)
  qed
qed

theorem header_value_in_bounds_witness:
  "overread (snd (header_value (''form-data; name='' @ CR # [LF]) (length ''form-data; name='')
     ((fresh_state (\<lambda>_. None))\<lparr>is_content_disposition := True\<rparr>))) = False"
  using header_value_in_bounds [of "''form-data; name=''" "[LF]" "(fresh_state (\<lambda>_. None))\<lparr>is_content_disposition := True\<rparr>"]
  by (simp add: fresh_state_def)

text \<open>The part's name is compared by prefix: a \<open>Content-Disposition\<close> value that names the part with any byte string selects the
  last of sessionid, filename, filemode, filedata that begins with it. So \<open>name="file"\<close>
  and the empty name are file data, and \<open>name="f"\<close> too.\<close>

theorem part_name_by_prefix:
  assumes "is_content_disposition u" "NUL \<notin> set nm" "CHR 0x22 \<notin> set nm"
    and "19 \<le> len" "17 + length nm \<le> len" "len < 2 ^ 64"
  shows "header_value (''form-data; name='' @ CHR 0x22 # nm @ CHR 0x22 # r) len u =
    (0, u\<lparr>parttype := foldl (\<lambda>pt (name, j). if take (length nm) name = nm then j else pt) (parttype u) parts\<rparr>)"
proof -
  let ?q = "CHR 0x22" and ?l = "word_of_nat (len - 9) :: 64 word"
  have l: "?l - 1 - 1 = word_of_nat (len - 11)" "word_of_nat (len - 11) - 6 = (word_of_nat (len - 17) :: 64 word)"
    using assms(4) by (simp_all add: of_nat_diff)
  have "unat (word_of_nat (len - 11) :: 64 word) = len - 11" using assms(6) by (simp add: unat_of_nat)
  then have "\<not> word_of_nat (len - 11) < (8 :: 64 word)"
    unfolding word_less_nat_alt using assms(4) by simp
  moreover have "find_quote (nm @ ?q # r) 0 (word_of_nat (len - 17)) = Some (Some (length nm))"
  proof -
    have "unat (word_of_nat (len - 17) :: 64 word) = len - 17" using assms(6) by (simp add: unat_of_nat)
    then have "0 + length nm \<le> unat (word_of_nat (len - 17) :: 64 word)" using assms(5) by linarith
    from find_quote_at [OF assms(3) this] show ?thesis by simp
  qed
  moreover have "cmp_mem tolower (''name='' @ ?q # nm @ ?q # r) ''name=\"'' 6 = Some True"
    by (simp add: eval_nat_numeral)
  moreover have "cmp_mem tolower (''form-data; name='' @ ?q # nm @ ?q # r) ''form-data'' 9 = Some True"
    by (simp add: eval_nat_numeral)
  moreover have "drop 9 (''form-data; name='' @ ?q # nm @ ?q # r) = ''; name='' @ ?q # nm @ ?q # r" by simp
  ultimately show ?thesis
    using assms(1,4) l match_parts_prefix [OF assms(2)]
    by (simp add: header_value_def part_name_def)
qed

theorem part_name_by_prefix_witness:
  "parttype (snd (header_value (''form-data; name='' @ CHR 0x22 # ''file'' @ CHR 0x22 # [CR]) 22
     ((fresh_state (\<lambda>_. None))\<lparr>is_content_disposition := True\<rparr>))) = PART_FILEDATA"
  using part_name_by_prefix [of "(fresh_state (\<lambda>_. None))\<lparr>is_content_disposition := True\<rparr>" "''file''" 22 "[CR]"]
  by (simp add: fresh_state_def parts_def)

lemma upload_session_chunk:
  assumes "parttype u = PART_SESSIONID" "state p = s_part_data" "CR \<notin> set s" "s \<noteq> []"
    "\<forall>n. malloc_ok e n"
  shows "upload_loop e (s # reads) buf p u =
    upload_loop e reads (s @ drop (length s) buf) p (u\<lparr>sessionid := Some s\<rparr>)"
proof -
  have "multipart_parser_execute (upload_settings e) p (s @ drop (length s) buf) (length s) u =
      (length s, p, u\<lparr>sessionid := Some s\<rparr>)"
    using assms loop_plain [of 0 "length s" "s @ drop (length s) buf" 0 p "upload_settings e" u]
    by (simp add: multipart_parser_execute_def upload_settings_def emit_data_cb_def data_cb_def datadup_def)
  with assms(4) show ?thesis by simp
qed

text \<open>A session identifier (and likewise a file name) whose bytes arrive in two reads is cut to what the second read brought:
  the callback duplicates each piece of part data over the piece before it.\<close>

theorem session_cut_by_read:
  assumes "parttype u = PART_SESSIONID" "state p = s_part_data" "\<forall>n. malloc_ok e n"
    and "CR \<notin> set (s @ t)" "s \<noteq> []" "t \<noteq> []"
  shows "upload_loop e [s, t] buf p u = u\<lparr>sessionid := Some t\<rparr>"
  using assms upload_session_chunk [of u p s e "[t]" buf]
    upload_session_chunk [of "u\<lparr>sessionid := Some s\<rparr>" p t e "[]" "s @ drop (length s) buf"]
  by simp

theorem session_cut_by_read_witness:
  "sessionid (upload_loop demo_env [''0123'', ''4567''] []
     ((multipart_parser_init 0 (\<lambda>_. NUL) ''--x'')\<lparr>state := s_part_data\<rparr>)
     ((fresh_state (\<lambda>_. None))\<lparr>parttype := PART_SESSIONID\<rparr>)) = Some ''4567''"
  using session_cut_by_read [of "(fresh_state (\<lambda>_. None))\<lparr>parttype := PART_SESSIONID\<rparr>"
    "(multipart_parser_init 0 (\<lambda>_. NUL) ''--x'')\<lparr>state := s_part_data\<rparr>" demo_env "''0123''" "''4567''" "[]"]
  by (simp add: demo_env_def del: upload_loop.simps)

end
