(* ===== verification/Urlform.thy ===== *)
theory Urlform
  imports Prelude
begin

text \<open>
  Form decoding of \<open>src/cgi/cgi-io/src/main.c\<close>: \<open>urldecode\<close>, which decodes a C string in
  place, and \<open>postdecode\<close>, which splits a request body in a static buffer. A pointer into the
  buffer is an offset; reading or writing outside it is \<open>None\<close>.
\<close>

section \<open>Decoding in place\<close>

definition rd :: "string \<Rightarrow> nat \<Rightarrow> char option" where
  "rd buf i = (if i < length buf then Some (buf ! i) else None)"

definition hex :: "char \<Rightarrow> int" where
  \<comment> \<open>the macro \<open>hex\<close>\<close>
  "hex x = (if ord x \<le> 57 then int (ord x) - 48
            else if ord x \<le> 70 then int (ord x) - 65 + 10 else int (ord x) - 97 + 10)"

function urldecode_loop :: "string \<Rightarrow> nat \<Rightarrow> nat \<Rightarrow> (bool \<times> string) option" where
  "urldecode_loop buf c p =
     (case rd buf p of
        None \<Rightarrow> None
      | Some x \<Rightarrow>
          if x = NUL then Some (True, put buf c NUL)
          else if x = CHR ''%''
          then (case rd buf (p + 1) of
                  None \<Rightarrow> None
                | Some y \<Rightarrow>
                    if \<not> isxdigit y then Some (False, buf)
                    else (case rd buf (p + 2) of
                            None \<Rightarrow> None
                          | Some z \<Rightarrow>
                              if \<not> isxdigit z then Some (False, buf)
                              else urldecode_loop (put buf c (chr (nat (16 * hex y + hex z))))
                                     (c + 1) (p + 3)))
          else if x = CHR ''+'' then urldecode_loop (put buf c (CHR '' '')) (c + 1) (p + 1)
          else urldecode_loop (put buf c x) (c + 1) (p + 1))"
  by pat_completeness auto
termination
  by (relation "measure (\<lambda>(buf, c, p). length buf - p)") (auto simp: rd_def split: if_splits)

declare urldecode_loop.simps [simp del]

definition urldecode :: "string \<Rightarrow> nat option \<Rightarrow> (bool \<times> string) option" where
  "urldecode buf ptr =
     (case ptr of
        None \<Rightarrow> Some (True, buf)
      | Some off \<Rightarrow> (case rd buf off of
            None \<Rightarrow> None
          | Some x \<Rightarrow> if x = NUL then Some (True, buf) else urldecode_loop buf off off))"

section \<open>What decoding means\<close>

fun url_value :: "string \<Rightarrow> string option" where
  "url_value [] = Some []"
| "url_value (c # s) =
     (if c = CHR ''%''
      then (case s of
              y # z # t \<Rightarrow>
                if isxdigit y \<and> isxdigit z
                then map_option ((#) (chr (nat (16 * hex y + hex z)))) (url_value t) else None
            | _ \<Rightarrow> None)
      else map_option ((#) (if c = CHR ''+'' then CHR '' '' else c)) (url_value s))"

definition hexdigit :: "nat \<Rightarrow> char" where
  "hexdigit n = (if n < 10 then chr (48 + n) else chr (55 + n))"

definition url_plain :: "char \<Rightarrow> bool" where
  "url_plain c \<longleftrightarrow> c \<noteq> CHR ''%'' \<and> c \<noteq> CHR ''+'' \<and> c \<noteq> CHR ''&'' \<and> c \<noteq> CHR ''='' \<and> c \<noteq> NUL \<and>
     c \<noteq> CHR '' ''"

fun url_encode :: "string \<Rightarrow> string" where
  "url_encode [] = []"
| "url_encode (c # s) =
     (if c = CHR '' '' then CHR ''+'' # url_encode s
      else if url_plain c then c # url_encode s
      else CHR ''%'' # hexdigit (ord c div 16) # hexdigit (ord c mod 16) # url_encode s)"

lemma hexdigit_ok:
  assumes "n < 16" shows "isxdigit (hexdigit n) \<and> hex (hexdigit n) = int n"
proof -
  show ?thesis
  proof (cases "n < 10")
    case True
    then show ?thesis by (simp add: hexdigit_def isxdigit_def isdigit_def hex_def ord_chr)
  next
    case False
    with assms show ?thesis by (simp add: hexdigit_def isxdigit_def isdigit_def hex_def ord_chr)
  qed
qed

lemma hex_ord: "nat (16 * hex (hexdigit (ord c div 16)) + hex (hexdigit (ord c mod 16))) = ord c"
proof -
  have "ord c div 16 < 16" using ord_less [of c] by linarith
  moreover have "16 * int (ord c div 16) + int (ord c mod 16) = int (ord c)"
    by (metis mult_div_mod_eq of_nat_add of_nat_mult of_nat_numeral)
  ultimately show ?thesis
    using hexdigit_ok [of "ord c div 16"] hexdigit_ok [of "ord c mod 16"] by simp
qed

lemma url_value_encode: "url_value (url_encode s) = Some s"
proof (induction s)
  case (Cons c s)
  have "ord c div 16 < 16" using ord_less [of c] by linarith
  with Cons show ?case
    using hexdigit_ok [of "ord c div 16"] hexdigit_ok [of "ord c mod 16"] hex_ord [of c]
    by (auto simp: url_plain_def)
qed simp

lemma length_url_value: "url_value s = Some d \<Longrightarrow> length d \<le> length s"
  by (induction s arbitrary: d rule: url_value.induct)
    (auto split: if_splits list.splits simp: le_SucI)

section \<open>The loop computes it\<close>

lemma rd_drop: "drop p buf = x # s \<Longrightarrow> rd buf p = Some x \<and> drop (p + 1) buf = s \<and> p < length buf"
  by (metis rd_def nth_via_drop drop_Suc drop_eq_Nil Suc_eq_plus1 list.distinct(1) list.sel(3)
      not_le tl_drop)

lemma put_behind [simp]: "c < q \<Longrightarrow> drop q (put buf c x) = drop q buf"
  by (simp add: put_def)

lemma take_put_before [simp]: "take c (put buf c x) = take c buf"
  by (simp add: put_def)

lemma take_put: "c < length buf \<Longrightarrow> take (c + 1) (put buf c x) = take c buf @ [x]"
  by (simp add: put_def take_Suc_conv_app_nth)

definition decoded :: "string \<Rightarrow> nat \<Rightarrow> string \<Rightarrow> string \<Rightarrow> string option \<Rightarrow> (bool \<times> string) option \<Rightarrow> bool" where
  \<comment> \<open>the array afterwards: the value and its NUL at \<open>c\<close>, nothing else in front of \<open>c\<close> or
      behind the old NUL changed\<close>
  "decoded buf c t a v r = (case r of None \<Rightarrow> False | Some (ok, buf') \<Rightarrow>
     ok = (v \<noteq> None) \<and> length buf' = length buf \<and> take (length a) buf' = a \<and>
     drop (length buf - length t) buf' = t \<and>
     (case v of None \<Rightarrow> True
      | Some d \<Rightarrow> take (c + length d + 1) buf' = take c buf @ d @ [NUL]))"

lemma decoded_step:
  assumes "decoded (put buf c x) (c + 1) t (take c buf @ [x]) v r" "c < length buf"
  shows "decoded buf c t (take c buf) (map_option ((#) x) v) r"
proof -
  obtain ok buf' where r: "r = Some (ok, buf')" using assms(1) by (auto simp: decoded_def split: option.splits)
  have head: "take (c + 1) buf' = take c buf @ [x]"
    using assms by (simp add: decoded_def r)
  have "take c buf' = take c (take (c + 1) buf')" by (simp add: min_def)
  also have "\<dots> = take c buf" unfolding head using assms(2) by simp
  finally have "take c buf' = take c buf" .
  with assms show ?thesis
    by (cases v) (auto simp: decoded_def r take_put [simplified])
qed

lemma drop_tail:
  assumes "drop p buf = s @ t" shows "drop (length buf - length t) buf = t"
proof -
  obtain a where "buf = a @ s @ t" using assms by (metis append_take_drop_id)
  then show ?thesis by simp
qed

lemma urldecode_loop_correct:
  assumes "drop p buf = s @ NUL # t" "NUL \<notin> set s" "c \<le> p"
  shows "decoded buf c t (take c buf) (url_value s) (urldecode_loop buf c p)"
  using assms
proof (induction s arbitrary: buf c p rule: url_value.induct)
  case 1
  then have p: "rd buf p = Some NUL" "drop (p + 1) buf = t" "p < length buf"
    by (auto dest: rd_drop)
  then have "length buf - length t = p + 1" by auto
  with p "1.prems"(3) show ?case
    by (simp add: urldecode_loop.simps [of buf c p] decoded_def take_put [simplified])
next
  case (2 x s)
  from "2.prems" have p: "rd buf p = Some x" "drop (p + 1) buf = s @ NUL # t" "p < length buf"
    "x \<noteq> NUL" "c < length buf" by (auto dest: rd_drop)
  show ?case
  proof (cases "x = CHR ''%''")
    case False
    let ?x = "if x = CHR ''+'' then CHR '' '' else x"
    have "decoded (put buf c ?x) (c + 1) t (take (c + 1) (put buf c ?x)) (url_value s)
        (urldecode_loop (put buf c ?x) (c + 1) (p + 1))"
      using "2.prems" p by (intro "2.IH"(2) [OF False]) simp_all
    from decoded_step [OF this [unfolded take_put [OF p(5)]] p(5)] p False show ?thesis
      unfolding urldecode_loop.simps [of buf c p] by (cases "x = CHR ''+''") simp_all
  next
    case True
    have stop: "decoded buf c t (take c buf) None (Some (False, buf))"
    proof -
      have "drop (length buf - length t) buf = t"
        using drop_tail [of p buf "x # s @ [NUL]" t] "2.prems"(1) by simp
      then show ?thesis using p(5) by (simp add: decoded_def)
    qed
    show ?thesis
    proof (cases s)
      case Nil
      with p True stop rd_drop [OF p(2) [unfolded Nil, simplified]] show ?thesis
        unfolding urldecode_loop.simps [of buf c p] by (simp add: isxdigit_def isdigit_def ord_def)
    next
      case (Cons y s1)
      have q: "rd buf (p + 1) = Some y" "drop (p + 2) buf = s1 @ NUL # t"
        using rd_drop [of "p + 1" buf y "s1 @ NUL # t"] p(2) Cons by simp_all
      show ?thesis
      proof (cases s1)
        case Nil
        with p q True stop Cons rd_drop [OF q(2) [unfolded Nil, simplified]] show ?thesis
          unfolding urldecode_loop.simps [of buf c p] by (simp add: isxdigit_def isdigit_def ord_def)
      next
        case s1: (Cons z u)
        have w: "rd buf (p + 2) = Some z" "drop (p + 3) buf = u @ NUL # t"
          using rd_drop [of "p + 2" buf z "u @ NUL # t"] q(2) s1 by (simp_all add: numeral_3_eq_3)
        show ?thesis
        proof (cases "isxdigit y \<and> isxdigit z")
          case False
          with p q w True stop Cons s1 show ?thesis
            unfolding urldecode_loop.simps [of buf c p] by auto
        next
          case xs: True
          let ?x = "chr (nat (16 * hex y + hex z))"
          have "decoded (put buf c ?x) (c + 1) t (take (c + 1) (put buf c ?x)) (url_value u)
              (urldecode_loop (put buf c ?x) (c + 1) (p + 3))"
            using "2.prems" w Cons s1 xs
            by (intro "2.IH"(1) [OF True Cons s1 xs]) simp_all
          from decoded_step [OF this [unfolded take_put [OF p(5)]] p(5)] p q w True xs Cons s1
          show ?thesis
            unfolding urldecode_loop.simps [of buf c p] by simp
        qed
      qed
    qed
  qed
qed

section \<open>\<open>postdecode\<close>\<close>

type_synonym fields = "(string \<times> nat option) list"

fun match_fields :: "string \<Rightarrow> nat \<Rightarrow> fields \<Rightarrow> nat \<Rightarrow> fields \<times> nat" where
  \<comment> \<open>the loop over the fields at a \<open>=\<close>\<close>
  "match_fields key off [] found = ([], found)"
| "match_fields key off ((name, v) # fs) found =
     (if key = name
      then (let (fs', k) = match_fields key off fs (found + 1) in ((name, Some off) # fs', k))
      else (let (fs', k) = match_fields key off fs found in ((name, v) # fs', k)))"

function scan_fields ::
  "nat \<Rightarrow> nat \<Rightarrow> string \<Rightarrow> nat \<Rightarrow> nat \<Rightarrow> fields \<Rightarrow> nat \<Rightarrow> string \<times> fields \<times> nat" where
  \<comment> \<open>the loop over the buffer; \<open>p\<close> is the start of the current key\<close>
  "scan_fields n len buf p i fs found =
     (if len < i then (buf, fs, found)
      else if buf ! i = CHR ''=''
      then (let buf1 = put buf i NUL; (fs1, k) = match_fields (cstr (drop p buf1)) (i + 1) fs found
            in scan_fields n len buf1 p (i + 1) fs1 k)
      else if buf ! i = CHR ''&'' \<or> buf ! i = NUL
      then (let buf1 = put buf i NUL
            in if n \<le> found then (buf1, fs, found)
               else scan_fields n len buf1 (i + 1) (i + 1) fs found)
      else scan_fields n len buf p (i + 1) fs found)"
  by pat_completeness auto
termination
  by (relation "measure (\<lambda>(n, len, buf, p, i, fs, found). Suc len - i)") auto

declare scan_fields.simps [simp del]

fun decode_fields :: "string \<Rightarrow> fields \<Rightarrow> (bool \<times> string) option" where
  \<comment> \<open>the final loop of \<open>urldecode\<close> calls\<close>
  "decode_fields buf [] = Some (True, buf)"
| "decode_fields buf ((name, v) # fs) =
     (case urldecode buf v of
        None \<Rightarrow> None
      | Some (ok, buf') \<Rightarrow> if ok then decode_fields buf' fs else Some (False, buf'))"

definition postdecode ::
  "string option \<Rightarrow> string \<Rightarrow> fields \<Rightarrow> (bool \<times> string \<times> fields) option" where
  \<comment> \<open>\<open>input\<close> is what the one \<open>read\<close> of up to 1023 bytes delivers; the result has the
      static buffer and the fields, whose values are offsets in it\<close>
  "postdecode content_type input fields =
     (case content_type of
        None \<Rightarrow> Some (False, replicate 1024 NUL, fields)
      | Some var \<Rightarrow>
          if \<not> strneq var ''application/x-www-form-urlencoded'' 33
          then Some (False, replicate 1024 NUL, fields)
          else (let len = length input; buf = input @ replicate (1024 - len) NUL;
                    (buf1, fs, found) =
                      (if 0 < len then scan_fields (length fields) len buf 0 0 fields 0
                       else (buf, fields, 0))
                in case decode_fields buf1 fs of
                     None \<Rightarrow> None
                   | Some (ok, buf2) \<Rightarrow> Some (ok \<and> length fields \<le> found, buf2, fs)))"

section \<open>The loop over one pair\<close>

definition clean :: "string \<Rightarrow> bool" where
  "clean s \<longleftrightarrow> CHR ''='' \<notin> set s \<and> CHR ''&'' \<notin> set s \<and> NUL \<notin> set s"

lemma clean_simps [simp]:
  "clean []" "clean (c # s) = (c \<noteq> CHR ''='' \<and> c \<noteq> CHR ''&'' \<and> c \<noteq> NUL \<and> clean s)"
  by (auto simp: clean_def)

lemma drop_nth: "drop i (buf :: string) = c # s \<Longrightarrow> buf ! i = c \<and> drop (Suc i) buf = s \<and> i < length buf"
  using rd_drop [of i buf c s] by (auto simp: rd_def split: if_splits)

lemma scan_clean:
  "clean w \<Longrightarrow> drop i (buf :: string) = w @ r \<Longrightarrow> i + length w \<le> Suc len \<Longrightarrow>
   scan_fields n len buf p i fs found = scan_fields n len buf p (i + length w) fs found"
proof (induction w arbitrary: i)
  case (Cons c w)
  then show ?case
    using drop_nth [of i buf c "w @ r"] by (simp add: scan_fields.simps [of n len buf p i])
qed simp

lemma scan_key:
  assumes "clean k" "drop p buf = k @ CHR ''='' # r" "p + length k \<le> len"
  shows "scan_fields n len buf p p fs found =
    (let (fs1, m) = match_fields k (p + length k + 1) fs found
     in scan_fields n len (put buf (p + length k) NUL) p (p + length k + 1) fs1 m)"
proof -
  let ?i = "p + length k"
  have d: "drop ?i buf = CHR ''='' # r" using assms(2) by (metis add.commute append_eq_conv_conj drop_drop)
  have "drop p (put buf ?i NUL) = (drop p buf) [length k := NUL]"
    by (simp add: put_def drop_update_swap)
  then have "cstr (drop p (put buf ?i NUL)) = k"
    using assms(1,2) by (simp add: clean_def cstr_append_NUL list_update_append)
  with d drop_nth [OF d] assms(3) show ?thesis
    by (simp add: scan_clean [OF assms(1,2)] scan_fields.simps [of n len buf p ?i])
qed

lemma drop_shift: "drop p (buf :: string) = xs @ c # ys \<Longrightarrow> drop (p + length xs + 1) buf = ys"
  by (metis Suc_eq_plus1 add.commute append_eq_conv_conj drop_drop drop_nth)

lemma scan_pair:
  assumes "clean k" "clean v" "drop p buf = k @ CHR ''='' # v @ CHR ''&'' # r"
    "p + length k + 1 + length v \<le> len" "match_fields k (p + length k + 1) fs found = (fs, found)"
    "found < n"
  obtains buf' where "scan_fields n len buf p p fs found =
      scan_fields n len buf' (p + length k + length v + 2) (p + length k + length v + 2) fs found"
    "drop (p + length k + length v + 2) buf' = r" "length buf' = length buf"
proof -
  let ?i = "p + length k + 1" let ?j = "?i + length v"
  let ?b = "put buf (p + length k) NUL"
  have d: "drop ?i ?b = v @ CHR ''&'' # r" using drop_shift [OF assms(3)] by simp
  have e: "drop ?j ?b = CHR ''&'' # r" using d by (metis add.commute append_eq_conv_conj drop_drop)
  have "scan_fields n len buf p p fs found = scan_fields n len ?b p ?i fs found"
    using scan_key [OF assms(1,3), of len n fs found] assms(4,5) by simp
  also have "\<dots> = scan_fields n len ?b p ?j fs found"
    using assms(4) by (intro scan_clean [OF assms(2) d]) simp
  also have "\<dots> = scan_fields n len (put ?b ?j NUL) (?j + 1) (?j + 1) fs found"
    using drop_nth [OF e] assms(4,6) by (subst scan_fields.simps) (simp add: Let_def)
  finally have "scan_fields n len buf p p fs found =
      scan_fields n len (put ?b ?j NUL) (?j + 1) (?j + 1) fs found" .
  moreover have "drop (?j + 1) (put ?b ?j NUL) = r" using drop_nth [OF e] by simp
  ultimately show thesis by (intro that [of "put ?b ?j NUL"]) (simp_all add: algebra_simps)
qed

section \<open>One wanted field\<close>

definition print_pair :: "string \<times> string \<Rightarrow> string" where
  "print_pair kv = fst kv @ CHR ''='' # snd kv @ ''&''"

definition pair_ok :: "string \<Rightarrow> string \<times> string \<Rightarrow> bool" where
  "pair_ok name kv \<longleftrightarrow> clean (fst kv) \<and> clean (snd kv) \<and> fst kv \<noteq> name"

lemma scan_pairs:
  assumes "list_all (pair_ok name) kvs" "drop p buf = concat (map print_pair kvs) @ r"
    "p + length (concat (map print_pair kvs)) \<le> len + 1"
  shows "\<exists>buf'. scan_fields 1 len buf p p [(name, v)] 0 =
      scan_fields 1 len buf' (p + length (concat (map print_pair kvs)))
        (p + length (concat (map print_pair kvs))) [(name, v)] 0 \<and>
    drop (p + length (concat (map print_pair kvs))) buf' = r \<and> length buf' = length buf"
  using assms
proof (induction kvs arbitrary: p buf)
  case (Cons kv kvs)
  obtain k w where kv: "kv = (k, w)" by fastforce
  let ?q = "p + length k + length w + 2"
  have "clean k" "clean w" "k \<noteq> name" using Cons.prems(1) by (simp_all add: kv pair_ok_def)
  moreover have "drop p buf = k @ CHR ''='' # w @ CHR ''&'' # concat (map print_pair kvs) @ r"
    using Cons.prems(2) by (simp add: kv print_pair_def [of "(k, w)"])
  moreover have "p + length k + 1 + length w \<le> len"
    using Cons.prems(3) by (simp add: kv print_pair_def)
  ultimately have pre: "clean k" "clean w" "k \<noteq> name"
    "drop p buf = k @ CHR ''='' # w @ CHR ''&'' # concat (map print_pair kvs) @ r"
    "p + length k + 1 + length w \<le> len" .
  obtain buf1 where one:
    "scan_fields 1 len buf p p [(name, v)] 0 = scan_fields 1 len buf1 ?q ?q [(name, v)] 0"
    "drop ?q buf1 = concat (map print_pair kvs) @ r" "length buf1 = length buf"
    by (rule scan_pair [OF pre(1,2,4,5), of "[(name, v)]" 0 1]) (use pre(3) in simp_all)
  have q: "?q + length (concat (map print_pair kvs)) = p + length (concat (map print_pair (kv # kvs)))"
    by (simp add: kv print_pair_def)
  show ?case
    using Cons.IH [OF _ one(2)] Cons.prems(1,3) one(1,3) unfolding q by simp
qed auto

definition ends_pair :: "char \<Rightarrow> bool" where
  "ends_pair c \<longleftrightarrow> c = CHR ''&'' \<or> c = NUL"

lemma scan_value:
  assumes "clean w" "drop i buf = w @ c # t" "ends_pair c" "i + length w \<le> len" "n \<le> found"
  shows "scan_fields n len buf p i fs found = (put buf (i + length w) NUL, fs, found) \<and>
    drop i (put buf (i + length w) NUL) = w @ NUL # t"
proof -
  let ?j = "i + length w"
  have d: "drop ?j buf = c # t" using assms(2) by (metis add.commute append_eq_conv_conj drop_drop)
  have "scan_fields n len buf p i fs found = scan_fields n len buf p ?j fs found"
    using assms(4) by (intro scan_clean [OF assms(1,2)]) simp
  also have "\<dots> = (put buf ?j NUL, fs, found)"
    using drop_nth [OF d] assms(3-5) by (subst scan_fields.simps) (auto simp: ends_pair_def)
  finally show ?thesis
    using assms(2) by (simp add: put_def drop_update_swap list_update_append)
qed

lemma scan_field:
  assumes "clean name" "clean w" "drop p buf = name @ CHR ''='' # w @ c # t" "ends_pair c"
    "p + length name + 1 + length w \<le> len"
  shows "\<exists>buf'. scan_fields 1 len buf p p [(name, v)] 0 =
      (buf', [(name, Some (p + length name + 1))], 1) \<and>
    drop (p + length name + 1) buf' = w @ NUL # t \<and> length buf' = length buf"
proof -
  let ?b = "put buf (p + length name) NUL"
  have "drop (p + length name + 1) ?b = w @ c # t" using drop_shift [OF assms(3)] by simp
  from scan_value [OF assms(2) this assms(4,5), of 1 1 p "[(name, Some (p + length name + 1))]"]
    scan_key [OF assms(1,3), of len 1 "[(name, v)]" 0] assms(5)
  show ?thesis by simp
qed

text \<open>A second \<open>=\<close> in the value compares the same key again.\<close>

lemma scan_field_twice:
  assumes "clean name" "clean w1" "clean w2"
    "drop p buf = name @ CHR ''='' # w1 @ CHR ''='' # w2 @ c # t" "ends_pair c"
    "p + length name + length w1 + 2 + length w2 \<le> len"
  shows "\<exists>buf' k. scan_fields 1 len buf p p [(name, v)] 0 =
      (buf', [(name, Some (p + length name + length w1 + 2))], 2) \<and>
    drop (p + length name + length w1 + 2) buf' = w2 @ NUL # t \<and> length buf' = length buf"
proof -
  let ?i = "p + length name + 1" let ?j = "?i + length w1"
  let ?b = "put buf (p + length name) NUL" let ?fs = "\<lambda>i. [(name, Some i)]"
  have d: "drop ?i ?b = w1 @ CHR ''='' # w2 @ c # t" using drop_shift [OF assms(4)] by simp
  have e: "drop ?j ?b = CHR ''='' # w2 @ c # t"
    using d by (metis add.commute append_eq_conv_conj drop_drop)
  let ?b2 = "put ?b ?j NUL"
  have "drop p ?b2 = (drop p buf)[length name := NUL, length name + 1 + length w1 := NUL]"
    by (simp add: put_def drop_update_swap)
  then have key: "cstr (drop p ?b2) = name"
    using assms(1,4) by (simp add: clean_def list_update_append cstr_append_NUL)
  have "scan_fields 1 len buf p p [(name, v)] 0 = scan_fields 1 len ?b p ?i (?fs ?i) 1"
    using scan_key [OF assms(1,4), of len 1 "[(name, v)]" 0] assms(6) by simp
  also have "\<dots> = scan_fields 1 len ?b p ?j (?fs ?i) 1"
    using assms(6) by (intro scan_clean [OF assms(2) d]) simp
  also have "\<dots> = scan_fields 1 len ?b2 p (?j + 1) (?fs (?j + 1)) 2"
    using drop_nth [OF e] assms(6) key by (subst scan_fields.simps) (simp add: Let_def numeral_2_eq_2)
  finally have run: "scan_fields 1 len buf p p [(name, v)] 0 =
      scan_fields 1 len ?b2 p (?j + 1) (?fs (?j + 1)) 2" .
  have f: "drop (?j + 1) ?b2 = w2 @ c # t" using drop_nth [OF e] by simp
  from scan_value [OF assms(3) f assms(5), of len 1 2 p "?fs (?j + 1)"] run assms(6) show ?thesis
    by (simp add: algebra_simps)
qed

section \<open>Properties\<close>

lemma urldecode_at:
  assumes "drop off buf = s @ NUL # t" "NUL \<notin> set s" "url_value s = Some d"
  shows "\<exists>buf'. urldecode buf (Some off) = Some (True, buf') \<and> length buf' = length buf \<and>
    take off buf' = take off buf \<and> take (length d + 1) (drop off buf') = d @ [NUL]"
proof (cases s)
  case Nil
  with assms rd_drop [of off buf NUL t] show ?thesis by (auto simp: urldecode_def)
next
  case (Cons x u)
  with assms(1,2) have x: "rd buf off = Some x" "x \<noteq> NUL" "off < length buf" by (auto dest: rd_drop)
  from urldecode_loop_correct [OF assms(1,2) order_refl] assms(3) x
  obtain buf' where b: "urldecode_loop buf off off = Some (True, buf')" "length buf' = length buf"
    "take off buf' = take off buf" "take (off + length d + 1) buf' = take off buf @ d @ [NUL]"
    by (auto simp: decoded_def split: option.splits)
  have "take (length d + 1) (drop off buf') = drop off (take (off + (length d + 1)) buf')"
    by (simp add: take_drop add.commute)
  also have "\<dots> = d @ [NUL]" using b(4) x(3) by (simp add: add.assoc)
  finally show ?thesis using b(1-3) x by (simp add: urldecode_def)
qed

text \<open>\<open>urldecode\<close> on a C string anywhere in an array stays inside it, returns true exactly when every percent
  sign is followed by two hexadecimal digits, and then leaves the decoded bytes and a NUL at the string's
  place, with everything in front of it and everything behind its old NUL as before.\<close>

theorem urldecode_in_place:
  assumes "drop off buf = s @ NUL # t" "NUL \<notin> set s" "s \<noteq> []"
  shows "case urldecode buf (Some off) of None \<Rightarrow> False | Some (ok, buf') \<Rightarrow>
    ok = (url_value s \<noteq> None) \<and> length buf' = length buf \<and> take off buf' = take off buf \<and>
    drop (length buf - length t) buf' = t \<and>
    (case url_value s of None \<Rightarrow> True | Some d \<Rightarrow> take (off + length d + 1) buf' = take off buf @ d @ [NUL])"
proof -
  obtain x u where "s = x # u" using assms(3) by (cases s) auto
  with assms(1,2) have x: "rd buf off = Some x" "x \<noteq> NUL" "off < length buf" by (auto dest: rd_drop)
  with urldecode_loop_correct [OF assms(1,2) order_refl] show ?thesis
    by (auto simp: urldecode_def decoded_def split: option.splits)
qed

theorem urldecode_in_place_witness:
  "\<exists>buf'. urldecode (''k=a%2Bb'' @ NUL # ''zz'') (Some 2) = Some (True, buf') \<and>
     take 6 buf' = ''k=a+b'' @ [NUL]"
  using urldecode_in_place [of 2 "''k=a%2Bb'' @ NUL # ''zz''" "''a%2Bb''" "''zz''"]
  by (auto simp: hex_def char_eval split: option.splits)

text \<open>C0: decoding undoes encoding: every byte string, written with any byte as a percent code that is not plain
  and a space as a plus, has itself as its decoded value, and what decoding yields is never longer than
  what it reads.\<close>

theorem url_roundtrip:
  "url_value (url_encode s) = Some s \<and> length s \<le> length (url_encode s)"
  using url_value_encode length_url_value by blast

definition form_type :: string where
  "form_type = ''application/x-www-form-urlencoded''"

lemma postdecode_found:
  assumes "0 < length body" "strneq ct form_type 33"
    "scan_fields 1 (length body) (body @ replicate (1024 - length body) NUL) 0 0 [(name, v)] 0 =
      (buf1, [(name, Some off)], Suc k)"
    "drop off buf1 = val @ NUL # t" "NUL \<notin> set val" "url_value val = Some d" "NUL \<notin> set d"
  shows "\<exists>buf'. postdecode (Some ct) body [(name, v)] = Some (True, buf', [(name, Some off)]) \<and>
    cstr (drop off buf') = d"
proof -
  obtain buf' where "urldecode buf1 (Some off) = Some (True, buf')"
    "take (length d + 1) (drop off buf') = d @ [NUL]"
    using urldecode_at [OF assms(4-6)] by blast
  moreover from this(2) obtain t' where "drop off buf' = d @ NUL # t'"
    by (metis append_Cons append_assoc append_self_conv2 append_take_drop_id)
  ultimately show ?thesis
    using assms(1-3,7) by (simp add: postdecode_def form_type_def Let_def cstr_append_NUL)
qed

text \<open>\<open>postdecode\<close> finds the wanted field: in a body of at most 1023 bytes in which any other fields come
  first and anything may follow, it succeeds, and the field's value is, as a C string, the decoded
  value.\<close>

theorem postdecode_finds:
  assumes "clean name" "list_all (pair_ok name) kvs" "clean val" "url_value val = Some d" "NUL \<notin> set d"
    and "strneq ct form_type 33" "rest = [] \<or> hd rest = CHR ''&''"
    and "body = concat (map print_pair kvs) @ name @ CHR ''='' # val @ rest" "length body \<le> 1023"
  shows "\<exists>buf off. postdecode (Some ct) body [(name, v)] = Some (True, buf, [(name, Some off)]) \<and>
    cstr (drop off buf) = d"
proof -
  let ?len = "length body" let ?buf = "body @ replicate (1024 - ?len) NUL"
  let ?q = "length (concat (map print_pair kvs))"
  have "replicate (1024 - ?len) NUL = NUL # replicate (1023 - ?len) NUL"
    using assms(9) by (simp flip: replicate_Suc add: Suc_diff_le)
  then obtain c t where c: "rest @ replicate (1024 - ?len) NUL = c # t" "ends_pair c"
    using assms(7) by (cases rest) (auto simp: ends_pair_def)
  have "drop 0 ?buf = concat (map print_pair kvs) @ name @ CHR ''='' # val @ c # t"
    using c(1) assms(8) by simp
  from scan_pairs [OF assms(2) this, of ?len v] assms(8) obtain buf1 where
    one: "scan_fields 1 ?len ?buf 0 0 [(name, v)] 0 = scan_fields 1 ?len buf1 ?q ?q [(name, v)] 0"
    "drop ?q buf1 = name @ CHR ''='' # val @ c # t" by auto
  from scan_field [OF assms(1,3) one(2) c(2), of ?len v] assms(8) obtain buf2 where
    two: "scan_fields 1 ?len buf1 ?q ?q [(name, v)] 0 =
      (buf2, [(name, Some (?q + length name + 1))], Suc 0)"
    "drop (?q + length name + 1) buf2 = val @ NUL # t" by auto
  have "scan_fields 1 ?len ?buf 0 0 [(name, v)] 0 = (buf2, [(name, Some (?q + length name + 1))], Suc 0)"
    using one(1) two(1) by simp
  from postdecode_found [OF _ assms(6) this two(2) _ assms(4,5)] assms(3,8) show ?thesis
    by (auto simp: clean_def)
qed

theorem postdecode_finds_witness:
  "\<exists>buf off. postdecode (Some form_type) ''a=b&sessionid=x%2B&c'' [(''sessionid'', None)] =
     Some (True, buf, [(''sessionid'', Some off)]) \<and> cstr (drop off buf) = ''x+''"
  by (rule postdecode_finds [where kvs = "[(''a'', ''b'')]" and val = "''x%2B''" and rest = "''&c''"])
    (simp_all add: pair_ok_def print_pair_def strneq_def hex_def char_eval)

text \<open>When the wanted field's value contains a \<open>=\<close>, \<open>postdecode\<close> drops all of the value up to it: the key's
  start is still remembered at the second \<open>=\<close>, matches again, and the value is what follows.\<close>

theorem postdecode_value_cut:
  assumes "clean name" "clean w1" "clean w2" "url_value w2 = Some d" "NUL \<notin> set d"
    and "strneq ct form_type 33"
    and "body = name @ CHR ''='' # w1 @ CHR ''='' # w2" "length body \<le> 1023"
  shows "\<exists>buf off. postdecode (Some ct) body [(name, v)] = Some (True, buf, [(name, Some off)]) \<and>
    cstr (drop off buf) = d"
proof -
  let ?len = "length body" let ?buf = "body @ replicate (1024 - ?len) NUL"
  let ?off = "length name + length w1 + 2"
  have "replicate (1024 - ?len) NUL = NUL # replicate (1023 - ?len) NUL"
    using assms(8) by (simp flip: replicate_Suc add: Suc_diff_le)
  then have "drop 0 ?buf = name @ CHR ''='' # w1 @ CHR ''='' # w2 @ NUL # replicate (1023 - ?len) NUL"
    using assms(7) by simp
  from scan_field_twice [OF assms(1-3) this, of ?len v] assms(7) obtain buf1 where
    "scan_fields 1 ?len ?buf 0 0 [(name, v)] 0 = (buf1, [(name, Some ?off)], Suc 1)"
    "drop ?off buf1 = w2 @ NUL # replicate (1023 - ?len) NUL"
    by (auto simp: ends_pair_def numeral_2_eq_2)
  from postdecode_found [OF _ assms(6) this _ assms(4,5)] assms(3,7) show ?thesis
    by (auto simp: clean_def)
qed

theorem postdecode_value_cut_witness:
  "\<exists>buf off. postdecode (Some form_type) ''sessionid=ab=cd'' [(''sessionid'', None)] =
     Some (True, buf, [(''sessionid'', Some off)]) \<and> cstr (drop off buf) = ''cd''"
  by (rule postdecode_value_cut [where ?w1.0 = "''ab''" and ?w2.0 = "''cd''"])
    (simp_all add: strneq_def)

end
