(* ===== verification/Backup.thy ===== *)
theory Backup
  imports Upload Urlform
begin

text \<open>
  The backup helper and the dispatch of \<open>src/cgi/cgi-io/src/main.c\<close>: \<open>failure\<close>,
  \<open>main_backup\<close> and \<open>main\<close>. The archive that \<open>sysupgrade\<close> writes into the pipe, the host
  name and the date are what the system answers.
\<close>

record backup_env =
  body_read :: string  \<comment> \<open>what the one \<open>read(0, buf, 1023)\<close> of \<open>postdecode\<close> delivers\<close>
  pipe_rc :: int
  fork_rc :: int
  backup_errno :: int
  gethostname_rc :: int
  hostname :: string
  datestr :: string
  archive :: "string list"  \<comment> \<open>the results of the reads from the pipe\<close>

definition failure :: "env \<Rightarrow> int \<Rightarrow> string \<Rightarrow> int \<times> string" where
  \<comment> \<open>the result and the output\<close>
  "failure e errnum message =
     (-1, ''Status: 500 Internal Server failure'' @ crlf @ ''Content-Type: text/plain'' @ crlf @ crlf @
        message @ (if errnum \<noteq> 0 then '': '' @ strerror e errnum else []))"

fun copy_pipe :: "string list \<Rightarrow> string" where
  \<comment> \<open>the \<open>read\<close>/\<open>fwrite\<close> loop; an empty read is the end\<close>
  "copy_pipe [] = []"
| "copy_pipe (s # reads) = (if s = [] then [] else s @ copy_pipe reads)"

definition field_value :: "string \<Rightarrow> fields \<Rightarrow> string option" where
  \<comment> \<open>\<open>fields[1]\<close> as a C string\<close>
  "field_value buf fs = (case fs of (name, Some off) # _ \<Rightarrow> Some (cstr (drop off buf)) | _ \<Rightarrow> None)"

definition main_backup :: "env \<Rightarrow> backup_env \<Rightarrow> string option \<Rightarrow> (int \<times> string) option" where
  \<comment> \<open>\<open>None\<close> would be an access outside the static buffer\<close>
  \<open>main_backup e b content_type =
     (case postdecode content_type (body_read b) [(''sessionid'', None)] of
        None \<Rightarrow> None
      | Some (ok, buf, fs) \<Rightarrow>
          Some (if \<not> ok \<or> \<not> session_access e (field_value buf fs) ''backup'' ''read''
                then failure e 0 ''Backup permission denied''
                else if pipe_rc b \<noteq> 0 then failure e (backup_errno b) ''Failed to spawn pipe''
                else if fork_rc b = -1 then failure e (backup_errno b) ''Failed to fork process''
                else (0, ''Status: 200 OK'' @ crlf @ ''Content-Type: application/x-targz'' @ crlf @
                      ''Content-Disposition: attachment; filename="backup-'' @
                      cstr (if gethostname_rc b \<noteq> 0 then ''OpenWrt'' else take 63 (hostname b)) @ ''-'' @
                      cstr (take 15 (datestr b)) @ ''.tar.gz"'' @ crlf @ crlf @ copy_pipe (archive b))))\<close>

fun strstr :: "string \<Rightarrow> string \<Rightarrow> bool" where
  \<comment> \<open>whether the needle occurs\<close>
  "strstr [] n = (n = [])"
| "strstr (c # h) n = (take (length n) (c # h) = n \<or> strstr h n)"

datatype applet = Upload_applet | Backup_applet | No_applet

definition main_dispatch :: "string \<Rightarrow> applet" where
  \<comment> \<open>\<open>main\<close>: which helper \<open>argv[0]\<close> selects\<close>
  "main_dispatch argv0 =
     (if strstr (cstr argv0) ''cgi-upload'' then Upload_applet
      else if strstr (cstr argv0) ''cgi-backup'' then Backup_applet else No_applet)"

lemma strstr_iff: "strstr h n \<longleftrightarrow> (\<exists>a b. h = a @ n @ b)"
proof (induction h)
  case (Cons c h)
  have "take (length n) (c # h) = n \<longleftrightarrow> (\<exists>b. c # h = n @ b)"
    by (metis append_eq_conv_conj append_take_drop_id)
  with Cons show ?case by (auto simp: Cons_eq_append_conv)
qed auto

section \<open>The field of a form\<close>

definition pair_char :: "char \<Rightarrow> bool" where
  "pair_char c \<longleftrightarrow> c \<noteq> CHR ''&'' \<and> c \<noteq> NUL"

definition last_value :: "string \<Rightarrow> string" where
  \<comment> \<open>what stands behind the last \<open>=\<close>\<close>
  "last_value w = rev (takeWhile (\<lambda>c. c \<noteq> CHR ''='') (rev w))"

definition pair_key :: "string \<Rightarrow> string" where
  "pair_key w = takeWhile (\<lambda>c. c \<noteq> CHR ''='') w"

function form_field :: "string \<Rightarrow> string \<Rightarrow> string option" where
  \<comment> \<open>the text of a field in a form: the value of its first pair\<close>
  "form_field name body =
     (let w = takeWhile pair_char body
      in if CHR ''='' \<in> set w \<and> pair_key w = name then Some (last_value w)
         else (case drop (length w) body of [] \<Rightarrow> None | c # r \<Rightarrow> form_field name r))"
  by pat_completeness auto
termination
proof (relation "measure (\<lambda>(name, body). length body)")
  fix name body :: string and w c r
  assume "w = takeWhile pair_char body" "drop (length w) body = c # r"
  then have "length (c # r) \<le> length body" by (metis length_drop diff_le_self)
  then show "((name, r), name, body) \<in> measure (\<lambda>(name, body). length body)" by simp
qed simp

declare form_field.simps [simp del]

lemma last_value_plain: "CHR ''='' \<notin> set w \<Longrightarrow> last_value w = w"
proof -
  assume "CHR ''='' \<notin> set w"
  then have "takeWhile (\<lambda>c. c \<noteq> CHR ''='') (rev w) = rev w" by (intro takeWhile_eq_all_conv [THEN iffD2]) auto
  then show ?thesis unfolding last_value_def by (simp only: rev_rev_ident)
qed

lemma last_value_behind: "last_value (u @ CHR ''='' # w) = last_value w"
proof (cases "CHR ''='' \<in> set w")
  case True
  then have "takeWhile (\<lambda>c. c \<noteq> CHR ''='') (rev w @ CHR ''='' # rev u) = takeWhile (\<lambda>c. c \<noteq> CHR ''='') (rev w)"
    by (intro takeWhile_append1 [of "CHR ''=''"]) simp_all
  then show ?thesis by (simp add: last_value_def)
next
  case False
  then have "takeWhile (\<lambda>c. c \<noteq> CHR ''='') (rev w @ CHR ''='' # rev u) = rev w"
    by (subst takeWhile_append2) auto
  then show ?thesis using last_value_plain [OF False] by (simp add: last_value_def)
qed

lemmas last_value_simps = last_value_plain last_value_behind

lemma set_last_value: "set (last_value w) \<subseteq> set w"
  unfolding last_value_def set_rev using set_takeWhileD [of _ _ "rev w"] by auto

text \<open>Behind the first \<open>=\<close> of a pair, whose key the NUL there ends for good.\<close>

lemma scan_rest:
  assumes "list_all pair_char w" "drop i buf = w @ r" "i + length w \<le> len"
    "drop p buf = key @ NUL # x" "NUL \<notin> set key" "p + length key < i"
    "v = (if key = name then Some i0 else None)" "i0 \<le> i" "drop i0 buf = u @ w @ r" "CHR ''='' \<notin> set u"
  shows "\<exists>buf' i1 k. scan_fields 1 len buf p i [(name, v)] found =
      scan_fields 1 len buf' p (i + length w) [(name, if key = name then Some i1 else None)] k \<and>
    drop (i + length w) buf' = r \<and> length buf' = length buf \<and> drop i1 buf' = last_value (u @ w) @ r \<and> found \<le> k \<and>
    (key \<noteq> name \<longrightarrow> k = found)"
  using assms
proof (induction w arbitrary: i buf x v i0 u found)
  case Nil
  then show ?case by (intro exI [of _ buf] exI [of _ i0] exI [of _ found]) (simp add: last_value_simps)
next
  case (Cons c w)
  have d: "buf ! i = c" "drop (Suc i) buf = w @ r" "i < length buf"
    using drop_nth [of i buf c "w @ r"] Cons.prems(2) by auto
  have c: "c \<noteq> CHR ''&''" "c \<noteq> NUL" using Cons.prems(1) by (simp_all add: pair_char_def)
  show ?case
  proof (cases "c = CHR ''=''")
    case False
    have s: "scan_fields 1 len buf p i [(name, v)] found = scan_fields 1 len buf p (i + 1) [(name, v)] found"
      using d c False Cons.prems(3) by (subst scan_fields.simps) simp
    from Cons.IH [of "i + 1" buf x v i0 "u @ [c]" found] Cons.prems d False show ?thesis unfolding s by simp
  next
    case True
    let ?b = "put buf i NUL" let ?v = "if key = name then Some (i + 1) else None"
    let ?k = "if key = name then found + 1 else found"
    have dp: "drop p ?b = (key @ NUL # x)[i - p := NUL]"
      using Cons.prems(4,6) by (simp add: put_def drop_update_swap)
    also have "\<dots> = key @ NUL # x[i - p - length key - 1 := NUL]"
    proof -
      obtain n where "i - p - length key = Suc n" using Cons.prems(6) by (cases "i - p - length key") auto
      moreover have "\<not> i - p < length key" using Cons.prems(6) by simp
      ultimately show ?thesis by (simp add: list_update_append)
    qed
    finally have k: "drop p ?b = key @ NUL # x[i - p - length key - 1 := NUL]" .
    then have key: "cstr (drop p ?b) = key" using Cons.prems(5) by (simp add: cstr_append_NUL)
    have s: "scan_fields 1 len buf p i [(name, v)] found = scan_fields 1 len ?b p (i + 1) [(name, ?v)] ?k"
      using d True Cons.prems(3,7) key by (subst scan_fields.simps) (auto simp: Let_def)
    have e: "drop (i + 1) ?b = w @ r" using d(2) by simp
    from Cons.IH [of "i + 1" ?b _ ?v "i + 1" "[]" ?k, OF _ e _ k Cons.prems(5)] Cons.prems(1,3,6) e
    obtain buf' i1 m where m: "scan_fields 1 len ?b p (i + 1) [(name, ?v)] ?k =
        scan_fields 1 len buf' p (i + 1 + length w) [(name, if key = name then Some i1 else None)] m"
      "drop (i + 1 + length w) buf' = r" "length buf' = length ?b" "drop i1 buf' = last_value w @ r" "?k \<le> m"
      "key \<noteq> name \<longrightarrow> m = ?k" by auto
    have l: "last_value (u @ c # w) = last_value w" using True by (simp add: last_value_simps)
    show ?thesis
      by (rule exI [of _ buf'], rule exI [of _ i1], rule exI [of _ m]) (use m l s in \<open>auto split: if_splits\<close>)
  qed
qed


lemma scan_form:
  assumes "drop p buf = body @ NUL # z" "p + length body = len" "CHR ''='' \<notin> set name" "NUL \<notin> set name"
  shows "\<exists>buf' t k off. scan_fields 1 len buf p p [(name, None)] 0 = (buf', [(name, off)], k) \<and>
    (case form_field name body of None \<Rightarrow> off = None \<and> k = 0
     | Some w \<Rightarrow> \<exists>i. off = Some i \<and> drop i buf' = w @ NUL # t \<and> 1 \<le> k)"
  using assms(1,2)
proof (induction name body arbitrary: p buf rule: form_field.induct)
  case (1 name body)
  let ?w = "takeWhile pair_char body" let ?r = "drop (length ?w) body @ NUL # z"
  have w: "list_all pair_char ?w" by (auto simp: list_all_iff dest: set_takeWhileD)
  have b: "drop p buf = ?w @ ?r" using "1.prems"(1) by (metis append.assoc append_take_drop_id takeWhile_eq_take)
  have lw: "p + length ?w \<le> len" using "1.prems"(2) length_takeWhile_le [of pair_char body] by linarith
  have r: "?r = c # t \<Longrightarrow> ends_pair c" for c t
  proof (cases "drop (length ?w) body")
    case (Cons d s)
    moreover assume "?r = c # t"
    moreover have "\<not> pair_char (hd (dropWhile pair_char body))"
      using hd_dropWhile [of pair_char body] Cons by (simp add: dropWhile_eq_drop)
    ultimately show ?thesis by (simp add: dropWhile_eq_drop pair_char_def ends_pair_def)
  qed (simp add: ends_pair_def)
  obtain c t where c: "?r = c # t" by (cases ?r) auto
  have stop: "scan_fields 1 len buf1 p (p + length ?w) fs k =
      (if 1 \<le> k then (put buf1 (p + length ?w) NUL, fs, k)
       else scan_fields 1 len (put buf1 (p + length ?w) NUL) (p + length ?w + 1) (p + length ?w + 1) fs k)"
    if "drop (p + length ?w) buf1 = c # t" for buf1 fs k
    using drop_nth [OF that] r [OF c] lw by (subst scan_fields.simps) (auto simp: ends_pair_def Let_def)
  have next1: "\<exists>buf' t k off. scan_fields 1 len (put buf1 (p + length ?w) NUL) (p + length ?w + 1) (p + length ?w + 1) [(name, None)] 0 =
      (buf', [(name, off)], k) \<and>
    (case form_field name body of None \<Rightarrow> off = None \<and> k = 0
     | Some w \<Rightarrow> \<exists>i. off = Some i \<and> drop i buf' = w @ NUL # t \<and> 1 \<le> k)"
    if d: "drop (p + length ?w) buf1 = c # t" and no: "\<not> (CHR ''='' \<in> set ?w \<and> pair_key ?w = name)" for buf1
  proof (cases "drop (length ?w) body")
    case Nil
    then have "len < p + length ?w + 1" using "1.prems"(2) by simp
    moreover have "form_field name body = None" using no Nil by (simp add: form_field.simps [of name body] Let_def)
    moreover from calculation(1) have "scan_fields 1 len B (p + length ?w + 1) (p + length ?w + 1) fs k = (B, fs, k)" for B fs k
      by (subst scan_fields.simps) simp
    ultimately show ?thesis by simp
  next
    case (Cons e s)
    then have t: "t = s @ NUL # z" using c by simp
    have "form_field name body = form_field name s" using no Cons by (auto simp: form_field.simps [of name body] Let_def)
    moreover have "p + length ?w + 1 + length s = len"
      using Cons "1.prems"(2) by (metis (no_types, lifting) add.assoc add_Suc_right append_take_drop_id length_append list.size(4) One_nat_def add.commute takeWhile_eq_take)
    moreover have "drop (p + length ?w + 1) (put buf1 (p + length ?w) NUL) = s @ NUL # z"
      using drop_nth [OF d] t by simp
    ultimately show ?thesis using "1.IH" [OF refl no Cons] by simp
  qed
  show ?case
  proof (cases "CHR ''='' \<in> set ?w")
    case False
    have "clean ?w" using False w by (auto simp: clean_def list_all_iff pair_char_def)
    from scan_clean [OF this b, of len 1 p "[(name, None)]" 0] lw
    have "scan_fields 1 len buf p p [(name, None)] 0 = scan_fields 1 len buf p (p + length ?w) [(name, None)] 0" by simp
    moreover have d: "drop (p + length ?w) buf = c # t" using b c by (metis add.commute append_eq_conv_conj drop_drop)
    ultimately show ?thesis using stop [OF d] next1 [OF d] False by auto
  next
    case True
    let ?k = "pair_key ?w"
    obtain y u where y: "?w = y @ CHR ''='' # u" "CHR ''='' \<notin> set y" using split_list_first [OF True] by blast
    then have key: "?k = y" by (auto simp: pair_key_def takeWhile_append)
    have cy: "clean y" and lu: "list_all pair_char u" using y w by (auto simp: clean_def list_all_iff pair_char_def)
    have n: "length ?w = length y + 1 + length u" unfolding y(1) by simp
    have e: "drop p buf = y @ CHR ''='' # (u @ c # t)" using b c unfolding y(1) by simp
    let ?i = "p + length y + 1" let ?b = "put buf (p + length y) NUL"
    let ?v = "if y = name then Some ?i else None" let ?f = "if y = name then 1 else 0 :: nat"
    have s1: "scan_fields 1 len buf p p [(name, None)] 0 = scan_fields 1 len ?b p ?i [(name, ?v)] ?f"
      using scan_key [OF cy e, of len 1 "[(name, None)]" 0] lw n by (simp add: Let_def)
    have d: "drop ?i ?b = u @ c # t" using drop_shift [OF e] by simp
    have k: "drop p ?b = y @ NUL # (u @ c # t)"
      using e by (simp add: put_def drop_update_swap list_update_append)
    have "NUL \<notin> set y" using cy by (simp add: clean_def)
    from scan_rest [OF lu d _ k this _ refl, where len = len and name = name and ?i0.0 = ?i and u = "[]" and found = ?f] lw n d obtain buf1 i1 m where m:
      "scan_fields 1 len ?b p ?i [(name, ?v)] ?f =
        scan_fields 1 len buf1 p (p + length ?w) [(name, if y = name then Some i1 else None)] m"
      "drop (p + length ?w) buf1 = c # t" "drop i1 buf1 = last_value u @ c # t" "?f \<le> m" "y \<noteq> name \<longrightarrow> m = ?f"
      by (auto simp: add.assoc)
    show ?thesis
    proof (cases "y = name")
      case False
      then show ?thesis using s1 m stop [OF m(2)] next1 [OF m(2)] key by auto
    next
      case name: True
      have "length (last_value u) \<le> length u"
        unfolding last_value_def using length_takeWhile_le [of _ "rev u"] by simp
      have f: "form_field name body = Some (last_value u)"
        using True key name y(1) by (simp add: form_field.simps [of name body] Let_def last_value_simps)
      have "drop i1 (put buf1 (p + length ?w) NUL) = last_value u @ NUL # t"
      proof -
        have "length (drop i1 buf1) = length (last_value u) + 1 + length t" "length (drop (p + length ?w) buf1) = 1 + length t"
          unfolding m(2,3) by simp_all
        then have "p + length ?w = i1 + length (last_value u)" by simp
        then show ?thesis using m(3) by (simp add: put_def drop_update_swap list_update_append)
      qed
      then show ?thesis using s1 m stop [OF m(2)] name f by auto
    qed
  qed
qed


definition form_session :: "string option \<Rightarrow> string \<Rightarrow> string option" where
  \<comment> \<open>the session that a form of this type names, decoded, as a C string\<close>
  "form_session ct body =
     (case ct of
        None \<Rightarrow> None
      | Some v \<Rightarrow>
          if strneq v form_type 33
          then (case form_field ''sessionid'' body of None \<Rightarrow> None | Some w \<Rightarrow> map_option cstr (url_value w))
          else None)"

lemma set_takeWhile_NUL: "NUL \<notin> set (takeWhile pair_char s)"
  by (auto simp: pair_char_def dest: set_takeWhileD)

lemma field_no_NUL: "form_field name body = Some w \<Longrightarrow> NUL \<notin> set w"
proof (induction name body rule: form_field.induct)
  case (1 name body)
  let ?w = "takeWhile pair_char body"
  show ?case
  proof (cases "CHR ''='' \<in> set ?w \<and> pair_key ?w = name")
    case True
    then have "w = last_value ?w" using "1.prems" by (simp add: form_field.simps [of name body] Let_def)
    then show ?thesis using set_last_value [of ?w] set_takeWhile_NUL [of body] by blast
  next
    case False
    then show ?thesis using "1.prems" "1.IH" [OF refl False]
      by (auto simp: form_field.simps [of name body] Let_def split: if_splits list.splits)
  qed
qed

lemma urldecode_bad:
  assumes "drop off buf = w @ NUL # t" "NUL \<notin> set w" "url_value w = None"
  shows "\<exists>buf'. urldecode buf (Some off) = Some (False, buf')"
proof -
  have "w \<noteq> []" using assms(3) by auto
  from urldecode_in_place [OF assms(1,2) this] assms(3) show ?thesis by (auto split: option.splits)
qed

lemma postdecode_session:
  assumes "length body \<le> 1023"
  shows "\<exists>ok buf fs. postdecode ct body [(''sessionid'', None)] = Some (ok, buf, fs) \<and>
    (ok \<longleftrightarrow> form_session ct body \<noteq> None) \<and> (ok \<longrightarrow> field_value buf fs = form_session ct body)"
proof (cases "\<exists>v. ct = Some v \<and> strneq v form_type 33")
  case False
  then show ?thesis by (auto simp: postdecode_def form_session_def form_type_def split: option.split)
next
  case True
  then obtain v where v: "ct = Some v" "strneq v ''application/x-www-form-urlencoded'' 33" by (auto simp: form_type_def)
  let ?len = "length body" let ?buf = "body @ replicate (1024 - ?len) NUL"
  have "replicate (1024 - ?len) NUL = NUL # replicate (1023 - ?len) NUL"
    using assms by (simp flip: replicate_Suc add: Suc_diff_le)
  then have b: "drop 0 ?buf = body @ NUL # replicate (1023 - ?len) NUL" by simp
  obtain buf1 t k off where s: "scan_fields 1 ?len ?buf 0 0 [(''sessionid'', None)] 0 = (buf1, [(''sessionid'', off)], k)"
    "case form_field ''sessionid'' body of None \<Rightarrow> off = None \<and> k = 0
     | Some w \<Rightarrow> \<exists>i. off = Some i \<and> drop i buf1 = w @ NUL # t \<and> 1 \<le> k"
    using scan_form [OF b, of ?len "''sessionid''"] by auto
  have nil: "form_field ''sessionid'' [] = None" by (simp add: form_field.simps)
  note s1 = s(1) [unfolded One_nat_def]
  show ?thesis
  proof (cases "form_field ''sessionid'' body")
    case None
    then have n: "off = None" "k = 0" "form_session ct body = None" using s(2) v by (auto simp: form_session_def)
    then show ?thesis using s1 v by (cases "body = []") (auto simp: postdecode_def Let_def urldecode_def)
  next
    case (Some w)
    then have len: "0 < ?len" using nil by auto
    obtain i where i: "off = Some i" "drop i buf1 = w @ NUL # t" "1 \<le> k" using s(2) Some by auto
    have f: "form_session ct body = map_option cstr (url_value w)" using v Some by (simp add: form_session_def form_type_def)
    have w: "NUL \<notin> set w" by (rule field_no_NUL [OF Some])
    show ?thesis
    proof (cases "url_value w")
      case None
      from urldecode_bad [OF i(2) w None] obtain buf2 where "urldecode buf1 (Some i) = Some (False, buf2)" by blast
      then show ?thesis using s1 i len v f None by (auto simp: postdecode_def Let_def)
    next
      case (Some d)
      from urldecode_at [OF i(2) w Some] obtain buf2 where u: "urldecode buf1 (Some i) = Some (True, buf2)"
        "take (length d + 1) (drop i buf2) = d @ [NUL]" by blast
      from u(2) obtain t' where "drop i buf2 = d @ NUL # t'"
        by (metis append_Cons append_assoc append_self_conv2 append_take_drop_id)
      moreover have "cstr (d @ NUL # t') = cstr d" by (induction d) (simp_all add: cstr_def)
      ultimately have "cstr (drop i buf2) = cstr d" by simp
      then show ?thesis using s1 i len v f Some u(1) by (auto simp: postdecode_def Let_def field_value_def)
    qed
  qed
qed

section \<open>Properties\<close>

definition granted :: "env \<Rightarrow> string option \<Rightarrow> string \<Rightarrow> bool" where
  "granted e ct body \<longleftrightarrow> (\<exists>sid. form_session ct body = Some sid \<and> session_access e (Some sid) ''backup'' ''read'')"


definition demo_backup :: backup_env where
  "demo_backup = \<lparr>body_read = ''a=b&sessionid=x%2B'', pipe_rc = 0, fork_rc = 5, backup_errno = 0,
     gethostname_rc = 0, hostname = ''h'', datestr = ''d'', archive = [''ab'']\<rparr>"

definition backup_env_of :: env where
  \<comment> \<open>where just the session \<open>x+\<close> may read backups\<close>
  "backup_env_of = demo_env\<lparr>ubus_connect := True, ubus_lookup_id := True,
     ubus_invoke := (\<lambda>req. if req = [(''ubus_rpc_session'', Some ''x+''), (''scope'', Some ''cgi-io''), (''object'', Some ''backup''),
       (''function'', Some ''read'')] then Some (Some True) else None)\<rparr>"


text \<open>C0: \<open>main\<close> selects the upload helper whenever \<open>cgi-upload\<close> occurs anywhere in the name it was
  called by, the backup helper when only \<open>cgi-backup\<close> does.\<close>

theorem dispatch_by_name:
  "main_dispatch argv0 =
     (if \<exists>a b. cstr argv0 = a @ ''cgi-upload'' @ b then Upload_applet
      else if \<exists>a b. cstr argv0 = a @ ''cgi-backup'' @ b then Backup_applet else No_applet)"
  by (simp add: main_dispatch_def strstr_iff)

end
