(* ===== verification/Th_Request.thy ===== *)
theory Th_Request
  imports Prelude
begin

text \<open>
  Reading a request in \<open>src/others/thttpd-2.29/libhttpd.c\<close>: \<open>httpd_got_request\<close>, the state
  machine that decides whether a whole request has arrived, called again with the same state after
  every read; and \<open>bufgets\<close>, which cuts the buffer into lines in place.
\<close>

section \<open>Has a request arrived?\<close>

datatype chst =
    CHST_FIRSTWORD | CHST_FIRSTWS | CHST_SECONDWORD | CHST_SECONDWS | CHST_THIRDWORD | CHST_THIRDWS
  | CHST_LINE | CHST_LF | CHST_CR | CHST_CRLF | CHST_CRLFCR | CHST_BOGUS

datatype got = GR_NO_REQUEST | GR_GOT_REQUEST | GR_BAD_REQUEST

abbreviation blank :: "char \<Rightarrow> bool" where
  "blank c \<equiv> c = CHR '' '' \<or> c = CHR 0x09"

abbreviation eol :: "char \<Rightarrow> bool" where
  "eol c \<equiv> c = LF \<or> c = CR"

definition got_step :: "chst \<Rightarrow> char \<Rightarrow> chst \<times> got" where
  \<comment> \<open>the \<open>switch\<close>: the new state, and \<open>GR_NO_REQUEST\<close> to go on\<close>
  "got_step st c =
     (case st of
        CHST_FIRSTWORD \<Rightarrow>
          if blank c then (CHST_FIRSTWS, GR_NO_REQUEST)
          else if eol c then (CHST_BOGUS, GR_BAD_REQUEST) else (st, GR_NO_REQUEST)
      | CHST_FIRSTWS \<Rightarrow>
          if blank c then (st, GR_NO_REQUEST)
          else if eol c then (CHST_BOGUS, GR_BAD_REQUEST) else (CHST_SECONDWORD, GR_NO_REQUEST)
      | CHST_SECONDWORD \<Rightarrow>
          if blank c then (CHST_SECONDWS, GR_NO_REQUEST)
          else if eol c then (st, GR_GOT_REQUEST) else (st, GR_NO_REQUEST)
      | CHST_SECONDWS \<Rightarrow>
          if blank c then (st, GR_NO_REQUEST)
          else if eol c then (CHST_BOGUS, GR_BAD_REQUEST) else (CHST_THIRDWORD, GR_NO_REQUEST)
      | CHST_THIRDWORD \<Rightarrow>
          if blank c then (CHST_THIRDWS, GR_NO_REQUEST)
          else if c = LF then (CHST_LF, GR_NO_REQUEST)
          else if c = CR then (CHST_CR, GR_NO_REQUEST) else (st, GR_NO_REQUEST)
      | CHST_THIRDWS \<Rightarrow>
          if blank c then (st, GR_NO_REQUEST)
          else if c = LF then (CHST_LF, GR_NO_REQUEST)
          else if c = CR then (CHST_CR, GR_NO_REQUEST) else (CHST_BOGUS, GR_BAD_REQUEST)
      | CHST_LINE \<Rightarrow>
          if c = LF then (CHST_LF, GR_NO_REQUEST)
          else if c = CR then (CHST_CR, GR_NO_REQUEST) else (st, GR_NO_REQUEST)
      | CHST_LF \<Rightarrow>
          if c = LF then (st, GR_GOT_REQUEST)
          else if c = CR then (CHST_CR, GR_NO_REQUEST) else (CHST_LINE, GR_NO_REQUEST)
      | CHST_CR \<Rightarrow>
          if c = LF then (CHST_CRLF, GR_NO_REQUEST)
          else if c = CR then (st, GR_GOT_REQUEST) else (CHST_LINE, GR_NO_REQUEST)
      | CHST_CRLF \<Rightarrow>
          if c = LF then (st, GR_GOT_REQUEST)
          else if c = CR then (CHST_CRLFCR, GR_NO_REQUEST) else (CHST_LINE, GR_NO_REQUEST)
      | CHST_CRLFCR \<Rightarrow>
          if eol c then (st, GR_GOT_REQUEST) else (CHST_LINE, GR_NO_REQUEST)
      | CHST_BOGUS \<Rightarrow> (st, GR_BAD_REQUEST))"

function httpd_got_request :: "string \<Rightarrow> nat \<Rightarrow> nat \<Rightarrow> chst \<Rightarrow> got \<times> nat \<times> chst" where
  \<comment> \<open>\<open>read_buf\<close>, \<open>read_idx\<close>, \<open>checked_idx\<close>, \<open>checked_state\<close>\<close>
  "httpd_got_request buf read_idx idx st =
     (if idx < read_idx
      then (case got_step st (buf ! idx) of (st', r) \<Rightarrow>
              if r = GR_NO_REQUEST then httpd_got_request buf read_idx (idx + 1) st'
              else (r, idx, st'))
      else (GR_NO_REQUEST, idx, st))"
  by pat_completeness auto
termination
  by (relation "measure (\<lambda>(buf, read_idx, idx, st). read_idx - idx)") auto

declare httpd_got_request.simps [simp del]

definition bufgets :: "string \<Rightarrow> nat \<Rightarrow> nat \<Rightarrow> (nat option \<times> string \<times> nat)" where
  \<comment> \<open>the start of the line, the buffer with its end cut, the new \<open>checked_idx\<close>\<close>
  "bufgets buf read_idx idx =
     (let n = length (takeWhile (\<lambda>c. \<not> eol c) (drop idx (take read_idx buf))); k = idx + n
      in if k < read_idx
         then (let buf1 = put buf k NUL; k1 = k + 1
               in if buf ! k = CR \<and> k1 < read_idx \<and> buf1 ! k1 = LF
                  then (Some idx, put buf1 k1 NUL, k1 + 1) else (Some idx, buf1, k1))
         else (None, buf, max idx read_idx))"

section \<open>The machine as a fold\<close>

fun scan :: "chst \<Rightarrow> string \<Rightarrow> got \<times> nat \<times> chst" where
  \<comment> \<open>the machine over a stream: the answer, how many bytes in front of the one that gave it\<close>
  "scan st [] = (GR_NO_REQUEST, 0, st)"
| "scan st (c # s) =
     (case got_step st c of (st', r) \<Rightarrow>
        if r = GR_NO_REQUEST then (case scan st' s of (r', n, st'') \<Rightarrow> (r', n + 1, st'')) else (r, 0, st'))"

lemma got_request_scan:
  assumes "idx \<le> read_idx" "read_idx \<le> length buf"
  shows "httpd_got_request buf read_idx idx st =
    (case scan st (drop idx (take read_idx buf)) of (r, n, st') \<Rightarrow> (r, idx + n, st'))"
  using assms
proof (induction buf read_idx idx st rule: httpd_got_request.induct)
  case (1 buf read_idx idx st)
  show ?case
  proof (cases "idx < read_idx")
    case True
    then have d: "drop idx (take read_idx buf) = buf ! idx # drop (Suc idx) (take read_idx buf)"
      using "1.prems"(2) by (subst Cons_nth_drop_Suc [symmetric]) simp_all
    obtain st' r where s: "got_step st (buf ! idx) = (st', r)" by fastforce
    show ?thesis
      using "1.IH" [OF True s [symmetric]] True s "1.prems"
      unfolding d httpd_got_request.simps [of buf read_idx idx st] by (auto split: prod.splits)
  next
    case False
    with "1.prems"(1) show ?thesis by (simp add: httpd_got_request.simps [of buf read_idx read_idx])
  qed
qed

lemma stream_scan_append:
  "scan st (s @ t) = (case scan st s of (r, n, st') \<Rightarrow>
     if r = GR_NO_REQUEST then (case scan st' t of (r', m, st'') \<Rightarrow> (r', n + m, st'')) else (r, n, st'))"
  by (induction s arbitrary: st) (auto split: prod.splits)

lemma scan_length: "scan st s = (GR_NO_REQUEST, n, st') \<Longrightarrow> n = length s"
  by (induction s arbitrary: st n) (auto split: prod.splits if_splits)

section \<open>Requests\<close>

definition word :: "string \<Rightarrow> bool" where
  "word w \<longleftrightarrow> w \<noteq> [] \<and> list_all (\<lambda>c. \<not> blank c \<and> \<not> eol c) w"

definition line :: "string \<Rightarrow> bool" where
  "line l \<longleftrightarrow> l \<noteq> [] \<and> list_all (\<lambda>c. \<not> eol c) l"

definition crlf_lines :: "string list \<Rightarrow> string" where
  "crlf_lines ls = concat (map (\<lambda>l. l @ [CR, LF]) ls)"

lemma scan_stays:
  "list_all (\<lambda>c. got_step st c = (st, GR_NO_REQUEST)) w \<Longrightarrow>
   scan st (w @ s) = (case scan st s of (r, n, st') \<Rightarrow> (r, length w + n, st'))"
  by (induction w) (auto split: prod.splits)

lemma scan_lines:
  "list_all line ls \<Longrightarrow> scan CHST_CRLF (crlf_lines ls @ s) =
     (case scan CHST_CRLF s of (r, n, st') \<Rightarrow> (r, length (crlf_lines ls) + n, st'))"
proof (induction ls)
  case (Cons l ls)
  then obtain c w where l: "l = c # w" "\<not> eol c" "list_all (\<lambda>c. \<not> eol c) w"
    by (cases l) (auto simp: line_def)
  have "list_all (\<lambda>c. got_step CHST_LINE c = (CHST_LINE, GR_NO_REQUEST)) w"
    using l(3) by (auto simp: list_all_iff got_step_def)
  note stay = scan_stays [OF this]
  show ?case
    using Cons l(2) by (auto simp: crlf_lines_def l(1) got_step_def stay split: prod.splits)
qed (auto simp: crlf_lines_def split: prod.splits)

lemma scan_request_line:
  assumes "word m" "word u" "word v"
  shows "scan CHST_FIRSTWORD (m @ '' '' @ u @ '' '' @ v @ [CR, LF] @ s) =
    (case scan CHST_CRLF s of (r, n, st') \<Rightarrow> (r, length m + length u + length v + 4 + n, st'))"
proof -
  have first: "list_all (\<lambda>c. got_step CHST_FIRSTWORD c = (CHST_FIRSTWORD, GR_NO_REQUEST)) m"
    using assms(1) by (auto simp: word_def list_all_iff got_step_def)
  obtain c w where u: "u = c # w" "\<not> blank c" "\<not> eol c"
      "list_all (\<lambda>c. got_step CHST_SECONDWORD c = (CHST_SECONDWORD, GR_NO_REQUEST)) w"
    using assms(2) by (cases u) (auto simp: word_def list_all_iff got_step_def)
  obtain d x where v: "v = d # x" "\<not> blank d" "\<not> eol d"
      "list_all (\<lambda>c. got_step CHST_THIRDWORD c = (CHST_THIRDWORD, GR_NO_REQUEST)) x"
    using assms(3) by (cases v) (auto simp: word_def list_all_iff got_step_def)
  show ?thesis
    using u(2,3) v(2,3)
    by (simp add: scan_stays [OF first] u(1) v(1) scan_stays [OF u(4)] scan_stays [OF v(4)]
        got_step_def split: prod.splits)
qed

section \<open>What the machine answers\<close>

fun occurs :: "string \<Rightarrow> string \<Rightarrow> bool" where
  \<comment> \<open>somewhere in the second\<close>
  "occurs x [] = (x = [])"
| "occurs x (c # s) = (take (length x) (c # s) = x \<or> occurs x s)"

definition blank_line :: "string \<Rightarrow> bool" where
  \<comment> \<open>two line feeds, two returns, or two of both, in a row\<close>
  "blank_line r \<longleftrightarrow> occurs [LF, LF] r \<or> occurs [CR, CR] r \<or> occurs [CR, LF, CR, LF] r"

definition later_words :: "string \<Rightarrow> nat" where
  \<comment> \<open>how many words of a line stand behind a blank\<close>
  "later_words l = length (filter (\<lambda>(a, b). blank a \<and> \<not> blank b) (zip l (tl l)))"

definition request_answer :: "string \<Rightarrow> got" where
  \<comment> \<open>for all that has arrived\<close>
  "request_answer s =
     (let l = takeWhile (\<lambda>c. \<not> eol c) s; r = drop (length l) s; n = later_words l
      in if 3 \<le> n then GR_BAD_REQUEST
         else if r = [] then GR_NO_REQUEST
         else if n = 2 then (if blank_line r then GR_GOT_REQUEST else GR_NO_REQUEST)
         else if n = 1 \<and> \<not> blank (last l) then GR_GOT_REQUEST
         else GR_BAD_REQUEST)"

definition state_after :: "string \<Rightarrow> chst" where
  \<comment> \<open>as long as there is no answer\<close>
  "state_after s =
     (let l = takeWhile (\<lambda>c. \<not> eol c) s; r = drop (length l) s; n = later_words l
      in if r = []
         then (if n = 0 then (if \<exists>c\<in>set l. blank c then CHST_FIRSTWS else CHST_FIRSTWORD)
               else if n = 1 then (if blank (last l) then CHST_SECONDWS else CHST_SECONDWORD)
               else (if blank (last l) then CHST_THIRDWS else CHST_THIRDWORD))
         else if \<exists>a. r = a @ [CR, LF, CR] then CHST_CRLFCR
         else if \<exists>a. r = a @ [CR, LF] then CHST_CRLF
         else if last r = CR then CHST_CR
         else if last r = LF then CHST_LF
         else CHST_LINE)"

lemma occurs_iff: "occurs x s \<longleftrightarrow> (\<exists>a b. s = a @ x @ b)"
proof (induction s)
  case (Cons c s)
  have "take (length x) (c # s) = x \<longleftrightarrow> (\<exists>b. c # s = x @ b)"
    by (metis append_eq_conv_conj append_take_drop_id)
  with Cons show ?case by (auto simp: Cons_eq_append_conv)
qed auto

lemma occurs_snoc: "x \<noteq> [] \<Longrightarrow> occurs x (s @ [c]) \<longleftrightarrow> occurs x s \<or> (\<exists>a. s @ [c] = a @ x)"
proof -
  assume "x \<noteq> []"
  have "(\<exists>a b. s @ [c] = a @ x @ b) \<longleftrightarrow> (\<exists>a b. s = a @ x @ b) \<or> (\<exists>a. s @ [c] = a @ x)" (is "?l = ?r")
  proof
    assume ?l
    then obtain a b where ab: "s @ [c] = a @ x @ b" by blast
    show ?r
    proof (cases b rule: rev_cases)
      case Nil
      then show ?thesis using ab by auto
    next
      case (snoc b' d)
      then have "s = a @ x @ b'" using ab by (simp flip: append_assoc)
      then show ?thesis by blast
    qed
  next
    assume ?r
    then show ?l by (metis append.assoc append_Nil2)
  qed
  then show ?thesis by (simp add: occurs_iff)
qed

lemma later_words_snoc:
  "later_words (l @ [c]) = later_words l + (if l \<noteq> [] \<and> blank (last l) \<and> \<not> blank c then 1 else 0)"
proof (induction l)
  case Nil
  show ?case by (simp add: later_words_def)
next
  case (Cons d l)
  then show ?case by (cases l) (auto simp: later_words_def)
qed

lemma no_blank_no_words: "\<not> (\<exists>c\<in>set l. blank c) \<Longrightarrow> later_words l = 0"
  unfolding later_words_def length_0_conv filter_empty_conv by (auto dest: set_zip_leftD)

lemma no_words_blank: "later_words l = 0 \<Longrightarrow> \<exists>c\<in>set l. blank c \<Longrightarrow> blank (last l)"
proof (induction l rule: rev_induct)
  case (snoc c l)
  show ?case
  proof (cases "\<exists>c\<in>set l. blank c")
    case True
    then have "l \<noteq> []" "later_words l = 0" using snoc.prems(1) by (auto simp: later_words_snoc)
    then have "blank (last l)" using snoc.IH True by blast
    then show ?thesis using snoc.prems(1) \<open>l \<noteq> []\<close> by (simp add: later_words_snoc split: if_splits)
  next
    case False
    then show ?thesis using snoc.prems(2) by auto
  qed
qed simp

lemma later_words_nonempty: "0 < later_words l \<Longrightarrow> l \<noteq> []"
  by (auto simp: later_words_def)

lemma first_line_snoc:
  "takeWhile (\<lambda>c. \<not> eol c) (s @ [c]) =
     (if (\<exists>d\<in>set s. eol d) \<or> eol c then takeWhile (\<lambda>c. \<not> eol c) s else s @ [c])"
  by (induction s) auto

lemma first_line_all: "drop (length (takeWhile (\<lambda>c. \<not> eol c) s)) s = [] \<longleftrightarrow> \<not> (\<exists>d\<in>set s. eol d)"
  by (induction s) auto


lemma ends_snoc:
  "(\<exists>a. s @ [c] = a @ x @ [d]) \<longleftrightarrow> c = d \<and> (\<exists>a. s = a @ x)"
  by (metis append.assoc append1_eq_conv)

lemma blank_line_snoc:
  "blank_line (r @ [c]) \<longleftrightarrow> blank_line r \<or> r \<noteq> [] \<and> last r = LF \<and> c = LF \<or> r \<noteq> [] \<and> last r = CR \<and> c = CR \<or>
     (\<exists>a. r = a @ [CR, LF, CR]) \<and> c = LF"
proof -
  have l: "(\<exists>a. r = a @ [x]) \<longleftrightarrow> r \<noteq> [] \<and> last r = x" for x by (cases r rule: rev_cases) auto
  have o: "occurs (x @ [d]) (r @ [c]) \<longleftrightarrow> occurs (x @ [d]) r \<or> c = d \<and> (\<exists>a. r = a @ x)" for x d
    using occurs_snoc [of "x @ [d]" r c] ends_snoc [of r c x d] by simp
  note o1 = o [of "[LF]" LF, simplified l append.simps] and o2 = o [of "[CR]" CR, simplified l append.simps]
    and o3 = o [of "[CR, LF, CR]" LF, simplified append.simps]
  show ?thesis unfolding blank_line_def o1 o2 o3 by argo
qed

lemma answer_step:
  assumes "request_answer s = GR_NO_REQUEST"
  shows "case got_step (state_after s) c of (st, r) \<Rightarrow>
    r = request_answer (s @ [c]) \<and> (r = GR_NO_REQUEST \<longrightarrow> st = state_after (s @ [c]))"
proof -
  let ?l = "takeWhile (\<lambda>c. \<not> eol c) s" let ?r = "drop (length ?l) s"
  show ?thesis
  proof (cases "\<exists>d\<in>set s. eol d")
    case False
    then have l: "?l = s" by (induction s) auto
    have n: "later_words s < 3" using assms unfolding request_answer_def l Let_def by (simp split: if_splits)
    have st: "state_after s = (if later_words s = 0 then (if \<exists>c\<in>set s. blank c then CHST_FIRSTWS else CHST_FIRSTWORD)
        else if later_words s = 1 then (if blank (last s) then CHST_SECONDWS else CHST_SECONDWORD)
        else (if blank (last s) then CHST_THIRDWS else CHST_THIRDWORD))"
      unfolding state_after_def l Let_def by simp
    show ?thesis
    proof (cases "eol c")
      case True
      then have l2: "takeWhile (\<lambda>c. \<not> eol c) (s @ [c]) = s" using l first_line_snoc [of s c] by simp
      have "\<not> blank_line [c]" by (auto simp: blank_line_def)
      then have "request_answer (s @ [c]) = (if later_words s = 2 then GR_NO_REQUEST
          else if later_words s = 1 \<and> \<not> blank (last s) then GR_GOT_REQUEST else GR_BAD_REQUEST)"
        using n \<open>\<not> blank_line [c]\<close> unfolding request_answer_def l2 Let_def by simp
      moreover have "state_after (s @ [c]) = (if c = CR then CHST_CR else CHST_LF)" if "later_words s = 2"
        using True unfolding state_after_def l2 Let_def by auto
      ultimately show ?thesis using n True unfolding st by (auto simp: got_step_def)
    next
      case c: False
      then have l2: "takeWhile (\<lambda>c. \<not> eol c) (s @ [c]) = s @ [c]" using False first_line_snoc [of s c] by simp
      have a: "request_answer (s @ [c]) = (if 3 \<le> later_words (s @ [c]) then GR_BAD_REQUEST else GR_NO_REQUEST)"
        unfolding request_answer_def l2 Let_def by simp
      have st2: "state_after (s @ [c]) = (let n = later_words (s @ [c]) in
          if n = 0 then (if \<exists>c\<in>set (s @ [c]). blank c then CHST_FIRSTWS else CHST_FIRSTWORD)
          else if n = 1 then (if blank c then CHST_SECONDWS else CHST_SECONDWORD)
          else (if blank c then CHST_THIRDWS else CHST_THIRDWORD))"
        unfolding state_after_def l2 Let_def by simp
      note a1 = a [unfolded later_words_snoc] and s1 = st2 [unfolded later_words_snoc Let_def]
      consider "later_words s = 0" "\<not> (\<exists>c\<in>set s. blank c)" | "later_words s = 0" "\<exists>c\<in>set s. blank c"
        | "later_words s = 1" | "later_words s = 2" using n by linarith
      then show ?thesis
      proof cases
        case 1
        then have "\<not> (s \<noteq> [] \<and> blank (last s))" using last_in_set [of s] by blast
        moreover have "(\<exists>d\<in>set (s @ [c]). blank d) \<longleftrightarrow> blank c" using 1(2) by auto
        moreover have "state_after s = CHST_FIRSTWORD" using 1 unfolding st by simp
        ultimately show ?thesis using 1 c unfolding a1 s1 by (cases "blank c"; simp add: got_step_def; blast)
      next
        case 2
        have "blank (last s)" by (rule no_words_blank [OF 2])
        moreover have "s \<noteq> []" using 2(2) by auto
        moreover have "(\<exists>d\<in>set (s @ [c]). blank d)" using 2(2) by simp
        moreover have "state_after s = CHST_FIRSTWS" using 2 unfolding st by simp
        ultimately show ?thesis using 2(1) c unfolding a1 s1 by (simp add: got_step_def)
      next
        case 3
        then have "s \<noteq> []" using later_words_nonempty [of s] by simp
        moreover have "state_after s = (if blank (last s) then CHST_SECONDWS else CHST_SECONDWORD)" using 3 unfolding st by simp
        ultimately show ?thesis using 3 c unfolding a1 s1 by (cases "blank (last s)"; simp add: got_step_def)
      next
        case 4
        then have "s \<noteq> []" using later_words_nonempty [of s] by simp
        moreover have "state_after s = (if blank (last s) then CHST_THIRDWS else CHST_THIRDWORD)" using 4 unfolding st by simp
        ultimately show ?thesis using 4 c unfolding a1 s1 by (cases "blank (last s)"; simp add: got_step_def)
      qed
    qed
  next
    case True
    then have r: "?r \<noteq> []" using first_line_all [of s] by blast
    have l2: "takeWhile (\<lambda>c. \<not> eol c) (s @ [c]) = ?l" using True first_line_snoc [of s c] by simp
    have "length ?l \<le> length s" by (rule length_takeWhile_le)
    then have r2: "drop (length ?l) (s @ [c]) = ?r @ [c]" by simp
    have n: "later_words ?l = 2" "\<not> blank_line ?r"
      using assms r unfolding request_answer_def Let_def by (simp_all split: if_splits)
    have a: "request_answer (s @ [c]) = (if blank_line (?r @ [c]) then GR_GOT_REQUEST else GR_NO_REQUEST)"
      using n unfolding request_answer_def l2 Let_def r2 by simp
    have st: "state_after s = (if \<exists>a. ?r = a @ [CR, LF, CR] then CHST_CRLFCR else if \<exists>a. ?r = a @ [CR, LF] then CHST_CRLF
        else if last ?r = CR then CHST_CR else if last ?r = LF then CHST_LF else CHST_LINE)"
      using r unfolding state_after_def Let_def by simp
    have st2: "state_after (s @ [c]) = (if c = CR \<and> (\<exists>a. ?r = a @ [CR, LF]) then CHST_CRLFCR
        else if c = LF \<and> (\<exists>a. ?r = a @ [CR]) then CHST_CRLF
        else if c = CR then CHST_CR else if c = LF then CHST_LF else CHST_LINE)"
      using ends_snoc [of ?r c "[CR, LF]" CR] ends_snoc [of ?r c "[CR]" LF]
      unfolding state_after_def l2 Let_def r2 by simp
    have ex: "(\<exists>a. ?r = a @ [CR]) \<longleftrightarrow> last ?r = CR" using r by (cases ?r rule: rev_cases) auto
    have last: "(\<exists>a. ?r = a @ [CR, LF, CR]) \<Longrightarrow> last ?r = CR" "(\<exists>a. ?r = a @ [CR, LF]) \<Longrightarrow> last ?r = LF" by auto
    show ?thesis
      using last n(2) r unfolding a st st2 ex blank_line_snoc
      by (auto simp: got_step_def)
  qed
qed


lemma answer_kept: "request_answer s \<noteq> GR_NO_REQUEST \<Longrightarrow> request_answer (s @ [c]) = request_answer s"
proof -
  assume n: "request_answer s \<noteq> GR_NO_REQUEST"
  let ?l = "takeWhile (\<lambda>c. \<not> eol c) s" let ?r = "drop (length ?l) s"
  show ?thesis
  proof (cases "\<exists>d\<in>set s. eol d")
    case False
    then have l: "?l = s" by (induction s) auto
    then have w: "3 \<le> later_words s" using n unfolding request_answer_def l Let_def by (simp split: if_splits)
    have "later_words (takeWhile (\<lambda>c. \<not> eol c) (s @ [c])) \<ge> later_words s"
      unfolding first_line_snoc l by (simp add: later_words_snoc)
    then show ?thesis using w unfolding request_answer_def l Let_def by simp
  next
    case True
    then have l2: "takeWhile (\<lambda>c. \<not> eol c) (s @ [c]) = ?l" using first_line_snoc [of s c] by simp
    have r: "?r \<noteq> []" using True first_line_all [of s] by blast
    have "length ?l \<le> length s" by (rule length_takeWhile_le)
    then have r2: "drop (length ?l) (s @ [c]) = ?r @ [c]" by simp
    show ?thesis using n r unfolding request_answer_def l2 Let_def r2 blank_line_snoc by (simp split: if_splits)
  qed
qed

lemma answer_prefix: "request_answer s \<noteq> GR_NO_REQUEST \<Longrightarrow> request_answer (s @ t) = request_answer s"
  by (induction t rule: rev_induct) (simp_all add: answer_kept flip: append_assoc)

lemma scan_answer:
  "case scan CHST_FIRSTWORD s of (r, n, st) \<Rightarrow> r = request_answer s \<and>
     (if r = GR_NO_REQUEST then st = state_after s
      else n < length s \<and> request_answer (take n s) = GR_NO_REQUEST \<and> request_answer (take (n + 1) s) = r)"
proof (induction s rule: rev_induct)
  case Nil
  show ?case by (simp add: request_answer_def state_after_def later_words_def)
next
  case (snoc c s)
  obtain r n st where s: "scan CHST_FIRSTWORD s = (r, n, st)" by (cases "scan CHST_FIRSTWORD s")
  show ?case
  proof (cases "r = GR_NO_REQUEST")
    case True
    then have a: "request_answer s = GR_NO_REQUEST" "st = state_after s" "n = length s"
      using snoc s scan_length by auto
    obtain st' r' where g: "got_step st c = (st', r')" by fastforce
    then show ?thesis using answer_step [OF a(1), of c] a s True by (simp add: stream_scan_append)
  next
    case False
    then show ?thesis using snoc s answer_kept [of s c] by (auto simp: stream_scan_append)
  qed
qed

section \<open>Properties\<close>

fun got_calls :: "string \<Rightarrow> nat list \<Rightarrow> nat \<Rightarrow> chst \<Rightarrow> got list" where
  \<comment> \<open>a call after each read, which left so many bytes in the buffer, until there is an answer\<close>
  "got_calls buf [] idx st = []"
| "got_calls buf (n # ns) idx st =
     (case httpd_got_request buf n idx st of
        (r, idx, st) \<Rightarrow> r # (if r = GR_NO_REQUEST then got_calls buf ns idx st else []))"

fun until_answer :: "got list \<Rightarrow> got list" where
  "until_answer [] = []"
| "until_answer (r # rs) = r # (if r = GR_NO_REQUEST then until_answer rs else [])"

text \<open>C13: what \<open>httpd_got_request\<close> answers, for all bytes and however they are cut into reads. After each read the answer
  is that of all bytes so far: a bad request as soon as a fourth word begins on the first line, or when this line ends
  with less than two words or with the blanks behind two (a blank at its start counts as behind an empty word); a request when it ends with two words, and with three words when
  two line feeds, two returns or two pairs of them follow each other from the end of that line on; otherwise none yet.\<close>

theorem got_request_resumes:
  assumes "sorted ns" "\<forall>n\<in>set ns. n \<le> length buf"
  shows "got_calls buf ns 0 CHST_FIRSTWORD = until_answer (map (\<lambda>n. request_answer (take n buf)) ns)"
proof -
  have main: "got_calls buf ns k st = until_answer (map (\<lambda>n. request_answer (take n buf)) ns)"
    if "sorted ns" "\<forall>n\<in>set ns. k \<le> n \<and> n \<le> length buf" "request_answer (take k buf) = GR_NO_REQUEST"
      "st = state_after (take k buf)" for k st
    using that
  proof (induction ns arbitrary: k st)
    case (Cons n ns)
    have n: "k \<le> n" "n \<le> length buf" using Cons.prems(2) by auto
    have k: "scan CHST_FIRSTWORD (take k buf) = (GR_NO_REQUEST, k, st)"
      using scan_answer [of "take k buf"] scan_length [of CHST_FIRSTWORD "take k buf"] Cons.prems(3,4) n
      by (auto split: prod.splits)
    have "take n buf = take k buf @ drop k (take n buf)" using n by (metis append_take_drop_id min.absorb1 take_take)
    then have "scan CHST_FIRSTWORD (take n buf) =
        (case scan st (drop k (take n buf)) of (r, m, st') \<Rightarrow> (r, k + m, st'))"
      using stream_scan_append [of CHST_FIRSTWORD "take k buf" "drop k (take n buf)"] k by simp
    then have h: "httpd_got_request buf n k st = scan CHST_FIRSTWORD (take n buf)"
      using got_request_scan [OF n, of st] by simp
    obtain r m st' where s: "scan CHST_FIRSTWORD (take n buf) = (r, m, st')" by (cases "scan CHST_FIRSTWORD (take n buf)")
    then have r: "r = request_answer (take n buf)" "r = GR_NO_REQUEST \<longrightarrow> st' = state_after (take n buf) \<and> m = n"
      using scan_answer [of "take n buf"] scan_length [of CHST_FIRSTWORD "take n buf" m st'] n(2) by auto
    show ?case
      using Cons.IH [of n st'] Cons.prems(1,2) h s r by auto
  qed simp
  have "request_answer [] = GR_NO_REQUEST" "state_after [] = CHST_FIRSTWORD"
    by (simp_all add: request_answer_def state_after_def later_words_def)
  then show ?thesis using main [of 0 CHST_FIRSTWORD] assms by simp
qed

theorem got_request_resumes_witness:
  "got_calls (''GET / HTTP/1.0'' @ [CR, LF, CR, LF]) [5, 16, 18] 0 CHST_FIRSTWORD = [GR_NO_REQUEST, GR_NO_REQUEST, GR_GOT_REQUEST]"
proof -
  let ?buf = "''GET / HTTP/1.0'' @ [CR, LF, CR, LF]"
  have "sorted [5, 16, 18 :: nat]" "\<forall>n\<in>set [5, 16, 18]. n \<le> length ?buf" by simp_all
  moreover have "request_answer (take 5 ?buf) = GR_NO_REQUEST" "request_answer (take 16 ?buf) = GR_NO_REQUEST"
    "request_answer (take 18 ?buf) = GR_GOT_REQUEST" by code_simp+
  ultimately show ?thesis using got_request_resumes [of "[5, 16, 18]" ?buf] by simp
qed

text \<open>A request line of three words, header lines and an empty line, each ended by CR LF, are taken as a request
  exactly at the last line feed: not before, whatever the headers say, and nothing behind it is looked at.\<close>

theorem got_request_complete:
  assumes "word m" "word u" "word v" "list_all line hs"
    "req = m @ '' '' @ u @ '' '' @ v @ [CR, LF] @ crlf_lines hs @ [CR, LF]"
  shows "httpd_got_request (req @ rest) (length (req @ rest)) 0 CHST_FIRSTWORD =
      (GR_GOT_REQUEST, length req - 1, CHST_CRLFCR) \<and>
    fst (httpd_got_request (req @ rest) (length req - 1) 0 CHST_FIRSTWORD) = GR_NO_REQUEST"
proof -
  have "scan CHST_FIRSTWORD (req @ rest) = (GR_GOT_REQUEST, length req - 1, CHST_CRLFCR)"
    unfolding assms(5) using scan_request_line [OF assms(1-3)] scan_lines [OF assms(4)]
    by (simp add: got_step_def)
  moreover have "take (length req - 1) (req @ rest) = m @ '' '' @ u @ '' '' @ v @ [CR, LF] @ crlf_lines hs @ [CR]"
  proof -
    have pre: "take (length p + 1 - 1) ((p @ [LF]) @ rest) = p" for p :: string by simp
    have "req = (m @ '' '' @ u @ '' '' @ v @ [CR, LF] @ crlf_lines hs @ [CR]) @ [LF]" by (simp add: assms(5))
    then show ?thesis
      using pre [of "m @ '' '' @ u @ '' '' @ v @ [CR, LF] @ crlf_lines hs @ [CR]"]
      by (simp only: length_append_singleton Suc_eq_plus1)
  qed
  moreover have "fst (scan CHST_FIRSTWORD (m @ '' '' @ u @ '' '' @ v @ [CR, LF] @ crlf_lines hs @ [CR])) = GR_NO_REQUEST"
    using scan_request_line [OF assms(1-3)] scan_lines [OF assms(4)] by (simp add: got_step_def)
  ultimately show ?thesis
    using got_request_scan [of 0 "length (req @ rest)" "req @ rest" CHST_FIRSTWORD]
      got_request_scan [of 0 "length req - 1" "req @ rest" CHST_FIRSTWORD]
    by (simp split: prod.splits)
qed

theorem got_request_complete_witness:
  "fst (httpd_got_request (''GET / HTTP/1.1'' @ [CR, LF] @ ''A: b'' @ [CR, LF, CR, LF])
     (length (''GET / HTTP/1.1'' @ [CR, LF] @ ''A: b'' @ [CR, LF, CR, LF])) 0 CHST_FIRSTWORD) = GR_GOT_REQUEST"
  using got_request_complete [of "''GET''" "''/''" "''HTTP/1.1''" "[''A: b'']" _ "[]"]
  by (simp add: word_def line_def crlf_lines_def)

end
