(* ===== verification/Th_Path.thy ===== *)
theory Th_Path
  imports Prelude
begin

text \<open>
  URLs and paths in \<open>src/others/thttpd-2.29/libhttpd.c\<close>: \<open>strdecode\<close> and \<open>strencode\<close>, and
  \<open>de_dotdot\<close>, which rewrites a path in place until no component can lead out of the document
  tree. Paths are C strings (lists of bytes without NUL); \<open>ol_strcpy\<close> moves the rest of the
  string to the front.
\<close>

section \<open>Percent codes\<close>

definition hexit :: "char \<Rightarrow> nat" where
  "hexit c =
     (if 48 \<le> ord c \<and> ord c \<le> 57 then ord c - 48
      else if 97 \<le> ord c \<and> ord c \<le> 102 then ord c - 97 + 10
      else if 65 \<le> ord c \<and> ord c \<le> 70 then ord c - 65 + 10 else 0)"

fun strdecode :: "string \<Rightarrow> string" where
  "strdecode [] = []"
| "strdecode (c # s) =
     (if c = CHR ''%''
      then (case s of
              x # y # t \<Rightarrow>
                if isxdigit x \<and> isxdigit y then chr (hexit x * 16 + hexit y) # strdecode t
                else c # strdecode s
            | _ \<Rightarrow> c # strdecode s)
      else c # strdecode s)"

definition isalnum :: "char \<Rightarrow> bool" where
  "isalnum c \<longleftrightarrow> isdigit c \<or> (65 \<le> ord c \<and> ord c \<le> 90) \<or> (97 \<le> ord c \<and> ord c \<le> 122)"

definition hex2 :: "nat \<Rightarrow> string" where
  \<comment> \<open>\<open>%02x\<close> of a byte\<close>
  "hex2 n = map (\<lambda>d. if d < 10 then chr (48 + d) else chr (87 + d)) [n div 16, n mod 16]"

fun strencode :: "nat \<Rightarrow> int \<Rightarrow> string \<Rightarrow> string" where
  \<comment> \<open>\<open>tolen\<close>, \<open>tosize\<close>, \<open>from\<close>\<close>
  "strencode tolen tosize [] = []"
| "strencode tolen tosize (c # s) =
     (if int tolen + 4 < tosize
      then if isalnum c \<or> c \<in> set ''/_.-~'' then c # strencode (tolen + 1) tosize s
           else CHR ''%'' # hex2 (ord c) @ strencode (tolen + 3) tosize s
      else [])"

lemma hexit_hex2:
  assumes "d < 16"
  shows "isxdigit (if d < 10 then chr (48 + d) else chr (87 + d)) \<and>
    hexit (if d < 10 then chr (48 + d) else chr (87 + d)) = d"
  using assms by (auto simp: isxdigit_def isdigit_def hexit_def ord_chr)

section \<open>\<open>de_dotdot\<close>\<close>

fun find_sub :: "string \<Rightarrow> string \<Rightarrow> nat option" where
  \<comment> \<open>\<open>strstr\<close>: where the needle first occurs\<close>
  "find_sub n [] = (if n = [] then Some 0 else None)"
| "find_sub n (c # s) =
     (if take (length n) (c # s) = n then Some 0 else map_option Suc (find_sub n s))"

definition starts :: "string \<Rightarrow> string \<Rightarrow> bool" where
  "starts n s \<longleftrightarrow> take (length n) s = n"

lemma find_sub_Some:
  "find_sub n s = Some k \<Longrightarrow> k + length n \<le> length s \<and> take (length n) (drop k s) = n"
proof (induction s arbitrary: k)
  case (Cons c s)
  have "take (length n) (c # s) = n \<Longrightarrow> length n \<le> Suc (length s)"
    by (metis length_Cons length_take min.cobounded1)
  with Cons show ?case by (auto split: if_splits)
qed (auto split: if_splits)

lemma find_sub_length: "find_sub n s = Some k \<Longrightarrow> k + length n \<le> length s"
  using find_sub_Some by blast

function collapse_slashes :: "string \<Rightarrow> string" where
  "collapse_slashes file =
     (case find_sub ''//'' file of
        None \<Rightarrow> file
      | Some k \<Rightarrow> collapse_slashes (take (k + 1) file @ dropWhile (\<lambda>c. c = CHR ''/'') (drop (k + 2) file)))"
  by pat_completeness auto
termination
proof (relation "measure length", goal_cases)
  case (2 fl k)
  from find_sub_length [OF 2] length_dropWhile_le [of "\<lambda>c. c = CHR ''/''" "drop (k + 2) fl"]
  show ?case by simp
qed simp

fun strip_dot_slash :: "string \<Rightarrow> string" where
  "strip_dot_slash (a # b # s) =
     (if a = CHR ''.'' \<and> b = CHR ''/'' then strip_dot_slash s else a # b # s)"
| "strip_dot_slash s = s"

function remove_dots :: "string \<Rightarrow> string" where
  "remove_dots file =
     (case find_sub ''/./'' file of None \<Rightarrow> file | Some k \<Rightarrow> remove_dots (take k file @ drop (k + 2) file))"
  by pat_completeness auto
termination
  by (relation "measure length") (auto dest!: find_sub_length)

fun strip_dotdot_slash :: "string \<Rightarrow> string" where
  "strip_dotdot_slash (a # b # c # s) =
     (if a = CHR ''.'' \<and> b = CHR ''.'' \<and> c = CHR ''/'' then strip_dotdot_slash s else a # b # c # s)"
| "strip_dotdot_slash s = s"

lemma length_strip_dotdot: "length (strip_dotdot_slash s) \<le> length s"
  by (induction s rule: strip_dotdot_slash.induct) auto

definition up_to_slash :: "string \<Rightarrow> string" where
  \<comment> \<open>the walk of \<open>cp2\<close> back to a slash: what stays, the slash included, or nothing\<close>
  "up_to_slash s = rev (dropWhile (\<lambda>c. c \<noteq> CHR ''/'') (rev s))"

lemma length_up_to_slash: "length (up_to_slash s) \<le> length s"
  unfolding up_to_slash_def by (metis length_dropWhile_le length_rev)

function remove_dotdots :: "string \<Rightarrow> string" where
  "remove_dotdots file =
     (let f = strip_dotdot_slash file
      in case find_sub ''/../'' f of
           None \<Rightarrow> f
         | Some k \<Rightarrow> remove_dotdots (up_to_slash (take k f) @ drop (k + 4) f))"
  by pat_completeness auto
termination
proof (relation "measure length", goal_cases)
  case (2 fl f k)
  from find_sub_length [OF 2(2)] length_up_to_slash [of "take k f"] length_strip_dotdot [of fl] 2(1)
  show ?case by simp
qed simp

function trim_dotdot :: "string \<Rightarrow> string" where
  "trim_dotdot file =
     (if 3 < length file \<and> drop (length file - 3) file = ''/..'' \<and>
         up_to_slash (take (length file - 3) file) \<noteq> []
      then trim_dotdot (butlast (up_to_slash (take (length file - 3) file)))
      else file)"
  by pat_completeness auto
termination
proof (relation "measure length", goal_cases)
  case (2 fl)
  from length_up_to_slash [of "take (length fl - 3) fl"] 2 show ?case by auto
qed simp

declare collapse_slashes.simps [simp del] remove_dots.simps [simp del]
  remove_dotdots.simps [simp del] trim_dotdot.simps [simp del]

definition de_dotdot :: "string \<Rightarrow> string" where
  "de_dotdot file =
     trim_dotdot (remove_dotdots (remove_dots (strip_dot_slash (collapse_slashes file))))"

definition path_refused :: "string \<Rightarrow> bool" where
  \<comment> \<open>the check behind \<open>de_dotdot\<close> in \<open>httpd_parse_request\<close>\<close>
  "path_refused f \<longleftrightarrow> starts ''/'' f \<or> f = ''..'' \<or> starts ''../'' f"

section \<open>Staying inside the tree\<close>

fun components :: "string \<Rightarrow> string list" where
  "components [] = [[]]"
| "components (c # s) =
     (if c = CHR ''/'' then [] # components s
      else (case components s of p # ps \<Rightarrow> (c # p) # ps | [] \<Rightarrow> [[c]]))"

fun inside :: "nat \<Rightarrow> string list \<Rightarrow> bool" where
  \<comment> \<open>the walk along the components, at a depth below the root, never leaves it\<close>
  "inside d [] = True"
| "inside d (p # ps) =
     (if p = ''..'' then (case d of 0 \<Rightarrow> False | Suc e \<Rightarrow> inside e ps)
      else if p = [] \<or> p = ''.'' then inside d ps else inside (d + 1) ps)"

definition occurs :: "string \<Rightarrow> string \<Rightarrow> bool" where
  "occurs n s \<longleftrightarrow> (\<exists>a b. s = a @ n @ b)"

lemma find_sub_None: "find_sub n s = None \<longleftrightarrow> \<not> occurs n s"
proof (induction s)
  case (Cons c s)
  have "take (length n) (c # s) = n \<longleftrightarrow> (\<exists>b. c # s = n @ b)"
    by (metis append_eq_conv_conj append_take_drop_id)
  with Cons show ?case by (auto simp: occurs_def Cons_eq_append_conv)
qed (auto simp: occurs_def)

lemma find_sub_split:
  assumes "find_sub n s = Some k"
  obtains a b where "s = a @ n @ b" "length a = k"
proof
  from find_sub_Some [OF assms] show "s = take k s @ n @ drop (k + length n) s"
    by (metis append_take_drop_id drop_drop add.commute)
  from find_sub_Some [OF assms] show "length (take k s) = k" by simp
qed

lemma starts_iff: "starts n s \<longleftrightarrow> (\<exists>b. s = n @ b)"
  unfolding starts_def by (metis append_eq_conv_conj append_take_drop_id)

lemma occurs_simps [simp]:
  "occurs n [] = (n = [])"
  "occurs n (c # s) = (starts n (c # s) \<or> occurs n s)"
proof -
  show "occurs n [] = (n = [])" by (auto simp: occurs_def)
  show "occurs n (c # s) = (starts n (c # s) \<or> occurs n s)"
    unfolding occurs_def starts_iff by (metis append_Cons append_Nil list.exhaust list.inject)
qed

lemma starts_simps [simp]:
  "starts [] s" "\<not> starts (c # n) []" "starts (c # n) (d # s) = (c = d \<and> starts n s)"
  by (auto simp: starts_def)

lemma occurs_suffix: "occurs n b \<Longrightarrow> occurs n (a @ b)"
  by (induction a) auto

lemma occurs_prefix: "occurs n a \<Longrightarrow> occurs n (a @ b)"
  unfolding occurs_def by (metis append.assoc)

lemma starts_prefix: "starts n a \<Longrightarrow> starts n (a @ b)"
  unfolding starts_iff by (metis append.assoc)

lemma occurs_pivot:
  "occurs ''/./'' (x @ CHR ''/'' # y) \<Longrightarrow> occurs ''/./'' (x @ ''/'') \<or> occurs ''/./'' (CHR ''/'' # y)"
proof (induction x)
  case (Cons c x)
  then show ?case by (cases x; cases "tl x") auto
qed simp

definition plain_path :: "string \<Rightarrow> bool" where
  \<comment> \<open>no component is a single dot, but perhaps the last one\<close>
  "plain_path s \<longleftrightarrow> \<not> occurs ''/./'' s \<and> \<not> starts ''./'' s"

lemma strip_dot_slash_ok: "\<not> starts ''./'' (strip_dot_slash s)"
  by (induction s rule: strip_dot_slash.induct) auto

lemma remove_dots_ok: "\<not> starts ''./'' s \<Longrightarrow> plain_path (remove_dots s)"
proof (induction s rule: remove_dots.induct)
  case (1 s)
  show ?case
  proof (cases "find_sub ''/./'' s")
    case None
    then have "remove_dots s = s" by (simp add: remove_dots.simps [of s])
    with "1.prems" find_sub_None [of "''/./''" s] None show ?thesis by (simp add: plain_path_def)
  next
    case (Some k)
    then obtain a b where ab: "s = a @ ''/./'' @ b" "length a = k" by (rule find_sub_split)
    then have new: "take k s @ drop (k + 2) s = a @ CHR ''/'' # b" by simp
    have "\<not> starts ''./'' (a @ CHR ''/'' # b)"
      using "1.prems" ab(1) by (cases a; cases "tl a") auto
    with "1.IH" [OF Some] Some new show ?thesis by (simp add: remove_dots.simps [of s])
  qed
qed

lemma up_to_slash_split:
  obtains v where "s = up_to_slash s @ v" "CHR ''/'' \<notin> set v"
    "up_to_slash s = [] \<or> (\<exists>u. up_to_slash s = u @ ''/'')"
proof -
  let ?P = "\<lambda>c. c \<noteq> CHR ''/''"
  have "rev s = takeWhile ?P (rev s) @ dropWhile ?P (rev s)" by simp
  then have "s = up_to_slash s @ rev (takeWhile ?P (rev s))"
    unfolding up_to_slash_def by (simp flip: rev_append)
  moreover have "CHR ''/'' \<notin> set (rev (takeWhile ?P (rev s)))" by (auto dest: set_takeWhileD)
  moreover have "up_to_slash s = [] \<or> (\<exists>u. up_to_slash s = u @ ''/'')"
  proof (cases "dropWhile ?P (rev s)")
    case (Cons c r)
    then have "\<not> ?P c" using hd_dropWhile [of ?P "rev s"] by simp
    with Cons show ?thesis by (auto simp: up_to_slash_def)
  qed (simp add: up_to_slash_def)
  ultimately show thesis by (rule that)
qed

lemma strip_dotdot_ok:
  "plain_path s \<Longrightarrow> plain_path (strip_dotdot_slash s) \<and> \<not> starts ''../'' (strip_dotdot_slash s)"
proof (induction s rule: strip_dotdot_slash.induct)
  case (1 a b c s)
  then show ?case by (cases s; cases "tl s") (auto simp: plain_path_def)
qed (auto simp: plain_path_def)

lemma remove_dotdots_ok:
  "plain_path s \<Longrightarrow> plain_path (remove_dotdots s) \<and> \<not> starts ''../'' (remove_dotdots s) \<and>
     \<not> occurs ''/../'' (remove_dotdots s)"
proof (induction s rule: remove_dotdots.induct)
  case (1 s)
  let ?f = "strip_dotdot_slash s"
  note f = strip_dotdot_ok [OF "1.prems"]
  show ?case
  proof (cases "find_sub ''/../'' ?f")
    case None
    then have "remove_dotdots s = ?f" by (simp add: remove_dotdots.simps [of s] Let_def)
    with f find_sub_None [of "''/../''" ?f] None show ?thesis by simp
  next
    case (Some k)
    then obtain a b where ab: "?f = a @ ''/../'' @ b" "length a = k" by (rule find_sub_split)
    then have new: "take k ?f = a" "drop (k + 4) ?f = b" by simp_all
    obtain v where v: "a = up_to_slash a @ v" "up_to_slash a = [] \<or> (\<exists>u. up_to_slash a = u @ ''/'')"
      by (rule up_to_slash_split [of a])
    have suf: "\<not> occurs ''/./'' (CHR ''/'' # b)"
      using f occurs_suffix [of "''/./''" "CHR ''/'' # b" "a @ ''/..''"] by (auto simp: ab(1) plain_path_def)
    have "plain_path (up_to_slash a @ b)"
    proof (cases "up_to_slash a = []")
      case True
      with suf show ?thesis by (auto simp: plain_path_def)
    next
      case False
      then obtain u where u: "up_to_slash a = u @ ''/''" using v(2) by blast
      then have whole: "?f = (u @ ''/'') @ v @ ''/../'' @ b" using ab(1) v(1) by simp
      have "\<not> occurs ''/./'' (u @ ''/'')"
        using f occurs_prefix [of "''/./''" "u @ ''/''" "v @ ''/../'' @ b"] by (auto simp: whole plain_path_def)
      moreover have "\<not> starts ''./'' (u @ CHR ''/'' # b)"
        using f unfolding whole plain_path_def by (cases u; cases "tl u") auto
      ultimately show ?thesis using occurs_pivot [of u b] suf u by (auto simp: plain_path_def)
    qed
    with "1.IH" [OF refl Some] Some new show ?thesis by (simp add: remove_dotdots.simps [of s] Let_def)
  qed
qed

lemma trim_dotdot_prefix: "\<exists>t. s = trim_dotdot s @ t"
proof (induction s rule: trim_dotdot.induct)
  case (1 s)
  let ?u = "up_to_slash (take (length s - 3) s)"
  show ?case
  proof (cases "3 < length s \<and> drop (length s - 3) s = ''/..'' \<and> ?u \<noteq> []")
    case True
    obtain t where "butlast ?u = trim_dotdot (butlast ?u) @ t" using "1.IH" [OF True] by blast
    moreover obtain v where "take (length s - 3) s = ?u @ v" by (rule up_to_slash_split)
    moreover have "?u = butlast ?u @ [last ?u]" using True by simp
    moreover have "s = take (length s - 3) s @ drop (length s - 3) s" by simp
    ultimately have "s = trim_dotdot (butlast ?u) @ t @ [last ?u] @ v @ drop (length s - 3) s"
      by (metis append.assoc)
    moreover have "trim_dotdot s = trim_dotdot (butlast ?u)" using True by (simp add: trim_dotdot.simps [of s])
    ultimately show ?thesis by metis
  next
    case False
    then have "trim_dotdot s = s" by (subst trim_dotdot.simps) (simp only: if_False)
    then show ?thesis by simp
  qed
qed

lemma de_dotdot_facts:
  "\<not> starts ''./'' (de_dotdot s) \<and> \<not> starts ''../'' (de_dotdot s) \<and> \<not> occurs ''/../'' (de_dotdot s)"
proof -
  let ?t = "remove_dotdots (remove_dots (strip_dot_slash (collapse_slashes s)))"
  have t: "plain_path ?t" "\<not> starts ''../'' ?t" "\<not> occurs ''/../'' ?t"
    using remove_dotdots_ok [OF remove_dots_ok [OF strip_dot_slash_ok]] by blast+
  obtain r where "?t = de_dotdot s @ r" using trim_dotdot_prefix [of ?t] by (auto simp: de_dotdot_def)
  with t show ?thesis by (metis occurs_prefix starts_prefix plain_path_def)
qed

lemma components_not_Nil [simp]: "components s \<noteq> []"
  by (induction s) (auto split: list.splits)

lemma components_word: "CHR ''/'' \<notin> set w \<Longrightarrow> components w = [w]"
  by (induction w) auto

lemma components_slash:
  "CHR ''/'' \<notin> set w \<Longrightarrow> components (w @ CHR ''/'' # s) = w # components s"
  by (induction w) auto

lemma first_slash:
  obtains (word) "CHR ''/'' \<notin> set s"
  | (slash) w t where "s = w @ CHR ''/'' # t" "CHR ''/'' \<notin> set w"
  by (meson split_list_first)

lemma inner_components:
  "\<not> starts ''../'' s \<Longrightarrow> \<not> occurs ''/../'' s \<Longrightarrow>
   list_all (\<lambda>p. p \<noteq> ''..'') (butlast (components s))"
proof (induction s rule: measure_induct_rule [of length])
  case (less s)
  show ?case
  proof (cases s rule: first_slash)
    case word
    then show ?thesis by (simp add: components_word)
  next
    case (slash w t)
    have "w \<noteq> ''..''" using less.prems(1) slash(1) by auto
    moreover have "\<not> starts ''../'' t"
    proof
      assume "starts ''../'' t"
      then have "occurs ''/../'' (w @ CHR ''/'' # t)" by (intro occurs_suffix) simp
      with less.prems(2) slash(1) show False by simp
    qed
    moreover have "\<not> occurs ''/../'' t"
      using less.prems(2) occurs_suffix [of "''/../''" t "w @ ''/''"] slash(1) by auto
    ultimately show ?thesis
      using less.IH [of t] slash by (simp add: components_slash)
  qed
qed

lemma inside_plain: "list_all (\<lambda>p. p \<noteq> ''..'') ps \<Longrightarrow> inside d ps"
  by (induction ps arbitrary: d) auto

lemma inside_last:
  "list_all (\<lambda>p. p \<noteq> ''..'') ps \<Longrightarrow> 0 < d \<Longrightarrow> inside d (ps @ [''..''])"
  by (induction ps arbitrary: d) (auto split: nat.splits)

lemma inside_components:
  assumes "\<not> starts ''./'' s" "\<not> starts ''../'' s" "\<not> occurs ''/../'' s" "\<not> path_refused s"
  shows "inside 0 (components s)"
proof -
  have inner: "list_all (\<lambda>p. p \<noteq> ''..'') (butlast (components s))"
    by (rule inner_components [OF assms(2,3)])
  show ?thesis
  proof (cases "last (components s) = ''..''")
    case False
    then have "list_all (\<lambda>p. p \<noteq> ''..'') (butlast (components s) @ [last (components s)])"
      using inner by (simp only: list_all_append) simp
    then have "list_all (\<lambda>p. p \<noteq> ''..'') (components s)"
      by (simp only: append_butlast_last_id [OF components_not_Nil])
    then show ?thesis by (rule inside_plain)
  next
    case True
    show ?thesis
    proof (cases s rule: first_slash)
      case word
      with True assms(4) show ?thesis by (simp add: components_word path_refused_def)
    next
      case (slash w t)
      have c: "components s = w # components t" by (simp add: slash components_slash)
      have "w \<noteq> []" using assms(4) slash(1) by (auto simp: path_refused_def)
      moreover have "w \<noteq> ''.''" using assms(1) slash(1) by auto
      moreover have "w \<noteq> ''..''" using assms(2) slash(1) by auto
      moreover have "components t = butlast (components t) @ [''..'']" using True c by (metis append_butlast_last_id
          components_not_Nil last_ConsR)
      moreover have "list_all (\<lambda>p. p \<noteq> ''..'') (butlast (components t))" using inner c by simp
      ultimately show ?thesis
        using inside_last [of "butlast (components t)" 1] by (simp add: c)
    qed
  qed
qed

section \<open>Properties\<close>

text \<open>C14: after \<open>de_dotdot\<close> a path is either refused by the check that follows it or stays in the document tree: the
  walk along its components, going up at each dot-dot, never rises above the start, whatever the
  (decoded) URL was.\<close>

theorem de_dotdot_inside:
  "path_refused (de_dotdot file) \<or> inside 0 (components (de_dotdot file))"
  using inside_components de_dotdot_facts by blast

text \<open>\<open>strdecode\<close> undoes \<open>strencode\<close> when the destination is large enough, for every byte string.\<close>

theorem strdecode_strencode:
  assumes "int (tolen + 3 * length s + 1) < tosize"
  shows "strdecode (strencode tolen tosize s) = s"
  using assms
proof (induction s arbitrary: tolen)
  case (Cons c s)
  have d: "ord c div 16 < 16" "ord c mod 16 < 16" using ord_less [of c] by linarith+
  have pct: "\<not> (isalnum (CHR ''%'') \<or> CHR ''%'' \<in> set ''/_.-~'')"
    by (simp add: isalnum_def char_eval)
  have room: "int tolen + 4 < tosize" using Cons.prems by simp
  show ?case
  proof (cases "isalnum c \<or> c \<in> set ''/_.-~''")
    case True
    then have "c \<noteq> CHR ''%''" using pct by metis
    with True room Cons show ?thesis by auto
  next
    case False
    have "strdecode (strencode (tolen + 3) tosize s) = s" using Cons.prems by (intro Cons.IH) simp
    moreover have "ord c div 16 * 16 + ord c mod 16 = ord c" by simp
    ultimately show ?thesis
      using False room hexit_hex2 [OF d(1)] hexit_hex2 [OF d(2)] by (simp add: hex2_def)
  qed
qed simp

theorem strdecode_strencode_witness:
  "strdecode (strencode 0 100 ''a b/%'') = ''a b/%''"
  by (rule strdecode_strencode) simp

end
