(* ===== verification/Th_Expand.thy ===== *)
theory Th_Expand
  imports Th_Path
begin

text \<open>
  The symbolic links of a path: \<open>expand_symlinks\<close> of \<open>src/others/thttpd-2.29/libhttpd.c\<close>, which
  moves one component after the other from the rest of the path to the checked part, reading each
  result as a link. The file system is a parameter, fixed during a call: what \<open>stat\<close> and
  \<open>readlink\<close> answer for a path. \<open>checked\<close> and \<open>rest\<close> are C strings in buffers that
  \<open>httpd_realloc_str\<close> makes large enough before each write.
\<close>

section \<open>\<open>expand_symlinks\<close>\<close>

definition MAX_LINKS :: nat where "MAX_LINKS = 32"

datatype link =
    Link string
  | Not_a_link  \<comment> \<open>\<open>EINVAL\<close>\<close>
  | No_such  \<comment> \<open>\<open>EACCES\<close>, \<open>ENOENT\<close> or \<open>ENOTDIR\<close>\<close>
  | Link_error

datatype expanded =
    Expanded string string  \<comment> \<open>the path returned, and \<open>*restP\<close>\<close>
  | Expand_error  \<comment> \<open>the null pointer\<close>
  | Bad_index  \<comment> \<open>a byte in front of an array is read\<close>
  | Stale_length  \<comment> \<open>\<open>checkedlen\<close> is not the length of \<open>checked\<close> any more\<close>

definition parent :: "string \<Rightarrow> string" where
  \<comment> \<open>\<open>checked\<close> cut at its last slash, for a dot-dot\<close>
  "parent c =
     (if c = [] then c
      else (case strrchr (CHR ''/'') c of
              None \<Rightarrow> []
            | Some s \<Rightarrow> if length s = length c then take 1 c else take (length c - length s) c))"

definition add_component :: "string \<Rightarrow> string \<Rightarrow> string" where
  "add_component c w = (if c \<noteq> [] \<and> last c \<noteq> CHR ''/'' then c @ ''/'' @ w else c @ w)"

definition next_component :: "string \<Rightarrow> string \<Rightarrow> string \<times> string" where
  \<comment> \<open>one component goes from \<open>r\<close> to \<open>checked\<close>\<close>
  "next_component c r =
     (let w = takeWhile (\<lambda>x. x \<noteq> CHR ''/'') r
      in if CHR ''/'' \<in> set r
         then (if w = [] then c @ ''/''
               else if w = ''..'' then parent c
               else add_component c w, drop (length w + 1) r)
         else (if r = ''..'' then parent c else add_component c r, []))"

definition trim_slash :: "string \<Rightarrow> string" where
  "trim_slash l = (if l \<noteq> [] \<and> last l = CHR ''/'' then butlast l else l)"

lemma next_component_shorter:
  "r \<noteq> [] \<Longrightarrow> next_component c r = (c', r') \<Longrightarrow> length r' < length r"
  by (auto simp: next_component_def Let_def split: if_splits)

function expand_loop :: "(string \<Rightarrow> link) \<Rightarrow> string \<Rightarrow> string \<Rightarrow> nat \<Rightarrow> expanded" where
  \<comment> \<open>\<open>checked\<close>, \<open>r\<close> (\<open>restlen\<close> is its length), \<open>nlinks\<close>\<close>
  "expand_loop readlink c r n =
     (if r = [] then Expanded (if c = [] then ''.'' else c) r
      else (case next_component c r of (c', r') \<Rightarrow>
        if c' = [] then expand_loop readlink c' r' n
        else (case readlink c' of
                Not_a_link \<Rightarrow> expand_loop readlink c' r' n
              | No_such \<Rightarrow> Expanded (if c = [] then ''.'' else take (length c) c') r
              | Link_error \<Rightarrow> Expand_error
              | Link l \<Rightarrow>
                  if MAX_LINKS < n + 1 then Expand_error
                  else if l = [] then Bad_index
                  else if length c' < length c then Stale_length
                  else (let rest = (if r' \<noteq> [] then trim_slash l @ ''/'' @ r' else trim_slash l)
                        in expand_loop readlink
                             (if rest \<noteq> [] \<and> hd rest = CHR ''/'' then [] else take (length c) c') rest (n + 1)))))"
  by pat_completeness auto
termination
proof (relation "measures [\<lambda>(f, c, r, n). MAX_LINKS - n, \<lambda>(f, c, r, n). length r]", goal_cases)
  case (2 rl c r n c' r')
  then show ?case using next_component_shorter [of r c c' r'] by auto
next
  case (3 rl c r n c' r')
  then show ?case using next_component_shorter [of r c c' r'] by auto
next
qed (auto simp: MAX_LINKS_def dest!: next_component_shorter [OF _ sym])

declare expand_loop.simps [simp del]

definition expand_symlinks ::
  "(string \<Rightarrow> bool) \<Rightarrow> (string \<Rightarrow> link) \<Rightarrow> string \<Rightarrow> bool \<Rightarrow> bool \<Rightarrow> expanded" where
  "expand_symlinks exists readlink path no_symlink_check tildemapped =
     (if no_symlink_check \<and> exists path
      then (if list_all (\<lambda>x. x = CHR ''/'') path then Bad_index
            else Expanded (rev (dropWhile (\<lambda>x. x = CHR ''/'') (rev path))) [])
      else if path = [] then Bad_index
      else (let rest = trim_slash path
            in expand_loop readlink []
                 (if tildemapped then rest else dropWhile (\<lambda>x. x = CHR ''/'') rest) 0))"

section \<open>What has been checked\<close>

definition boundary :: "string \<Rightarrow> string \<Rightarrow> bool" where
  \<comment> \<open>the cut between the two parts ends a component\<close>
  "boundary p s \<longleftrightarrow> p \<noteq> [] \<and> (s = [] \<or> hd s = CHR ''/'' \<or> p = ''/'')"

definition link_free :: "(string \<Rightarrow> link) \<Rightarrow> string \<Rightarrow> bool" where
  "link_free readlink c \<longleftrightarrow> (\<forall>p s. c = p @ s \<longrightarrow> boundary p s \<longrightarrow> readlink p = Not_a_link)"

definition no_dotdot :: "string \<Rightarrow> bool" where
  "no_dotdot c \<longleftrightarrow> list_all (\<lambda>p. p \<noteq> ''..'') (components c)"

lemma link_freeD: "link_free f (p @ s) \<Longrightarrow> boundary p s \<Longrightarrow> f p = Not_a_link"
  unfolding link_free_def by blast

lemma link_free_Nil [simp]: "link_free f []"
  by (simp add: link_free_def boundary_def)

lemma no_dotdot_Nil [simp]: "no_dotdot []"
  by (simp add: no_dotdot_def)

lemma link_free_self: "link_free f c \<Longrightarrow> c \<noteq> [] \<Longrightarrow> f c = Not_a_link"
  using link_freeD [of f c "[]"] by (simp add: boundary_def)

lemma components_append: "components (x @ CHR ''/'' # y) = components x @ components y"
  by (induction x) (auto split: list.splits)

lemma parent_prefix:
  assumes "c \<noteq> []"
  shows "(parent c = [] \<or> (\<exists>r. c = parent c @ CHR ''/'' # r \<and> CHR ''/'' \<notin> set r) \<or>
    (parent c = ''/'' \<and> (\<exists>r. c = CHR ''/'' # r)))"
proof (cases "strrchr (CHR ''/'') c")
  case None
  with assms show ?thesis by (simp add: parent_def)
next
  case (Some s)
  then obtain p r where "c = p @ s" "s = CHR ''/'' # r" "CHR ''/'' \<notin> set r" using strrchr_SomeD by blast
  with Some show ?thesis by (cases p) (auto simp: parent_def)
qed

lemma parent_link_free:
  assumes "link_free f c"
  shows "link_free f (parent c)"
proof (cases "c = []")
  case False
  consider "parent c = []" | r where "c = parent c @ CHR ''/'' # r" | r where "parent c = ''/''" "c = CHR ''/'' # r"
    using parent_prefix [OF False] by blast
  then show ?thesis
  proof cases
    case (2 r)
    have "f p = Not_a_link" if "parent c = p @ s" "boundary p s" for p s
    proof (rule link_freeD)
      show "link_free f (p @ s @ CHR ''/'' # r)" using assms 2 that(1) by (metis append.assoc)
      show "boundary p (s @ CHR ''/'' # r)" using that(2) by (cases s) (auto simp: boundary_def)
    qed
    then show ?thesis unfolding link_free_def by blast
  next
    case (3 r)
    have "f ''/'' = Not_a_link" using link_freeD [of f "''/''" r] assms 3 by (simp add: boundary_def)
    then show ?thesis unfolding link_free_def 3(1) by (auto simp: boundary_def Cons_eq_append_conv)
  qed simp
qed (use assms in \<open>simp add: parent_def\<close>)

lemma parent_no_dotdot: "no_dotdot c \<Longrightarrow> no_dotdot (parent c)"
proof (cases "c = []")
  case False
  assume n: "no_dotdot c"
  consider "parent c = []" | r where "c = parent c @ CHR ''/'' # r" | r where "parent c = ''/''" "c = CHR ''/'' # r"
    using parent_prefix [OF False] by blast
  then show ?thesis
  proof cases
    case (2 r)
    from n have "no_dotdot (parent c @ CHR ''/'' # r)" by (simp flip: 2)
    then show ?thesis by (simp add: no_dotdot_def components_append)
  qed (simp_all add: no_dotdot_def)
qed (simp add: parent_def)

lemma append_eq_cases:
  assumes "p @ s = a @ b"
  obtains u where "a = p @ u" "s = u @ b" | u where "p = a @ u" "b = u @ s" "u \<noteq> []"
proof -
  obtain us where "p = a @ us \<and> us @ s = b \<or> p @ us = a \<and> s = us @ b"
    using append_eq_append_conv2 [THEN iffD1, OF assms] by blast
  then show thesis using that by (cases "us = []") auto
qed

lemma inner_boundary:
  "w = u @ s \<Longrightarrow> u \<noteq> [] \<Longrightarrow> CHR ''/'' \<notin> set w \<Longrightarrow> boundary (x @ u) s \<Longrightarrow> s = []"
  by (cases s) (auto simp: boundary_def Cons_eq_append_conv append_eq_Cons_conv)

lemma add_component_link_free:
  assumes "link_free f c" "CHR ''/'' \<notin> set w" "f (add_component c w) = Not_a_link"
  shows "link_free f (add_component c w)"
  unfolding link_free_def
proof (intro allI impI)
  fix p s assume e: "add_component c w = p @ s" and b: "boundary p s"
  have self: "f c = Not_a_link" if "c \<noteq> []" using link_free_self assms(1) that by blast
  show "f p = Not_a_link"
  proof (cases "c \<noteq> [] \<and> last c \<noteq> CHR ''/''")
    case True
    with e have "p @ s = c @ (CHR ''/'' # w)" by (simp add: add_component_def)
    then show ?thesis
    proof (cases rule: append_eq_cases)
      case (1 u)
      show ?thesis
      proof (cases u)
        case Nil
        with 1 True self show ?thesis by simp
      next
        case (Cons x v)
        with 1 b have "boundary p u" by (auto simp: boundary_def)
        with assms(1) 1(1) show ?thesis using link_freeD by blast
      qed
    next
      case (2 u)
      then obtain v where v: "u = CHR ''/'' # v" "w = v @ s" by (cases u) auto
      show ?thesis
      proof (cases "v = []")
        case True
        with v 2 b assms(2) \<open>c \<noteq> [] \<and> _\<close> have "s = []" 
          by (cases s) (auto simp: boundary_def append_eq_Cons_conv)
        with e assms(3) show ?thesis by simp
      next
        case False
        have "s = []" using inner_boundary [OF v(2) False assms(2), of "c @ ''/''"] b 2(1) v(1) by simp
        with e assms(3) show ?thesis by simp
      qed
    qed
  next
    case False
    with e have "p @ s = c @ w" by (auto simp: add_component_def)
    then show ?thesis
    proof (cases rule: append_eq_cases)
      case (1 u)
      show ?thesis
      proof (cases u)
        case Nil
        with 1 b self show ?thesis by (auto simp: boundary_def)
      next
        case (Cons x v)
        with 1 b have "boundary p u" by (auto simp: boundary_def)
        with assms(1) 1(1) show ?thesis using link_freeD by blast
      qed
    next
      case (2 u)
      have "s = []" using inner_boundary [OF 2(2,3) assms(2)] b 2(1) by simp
      with e assms(3) show ?thesis by simp
    qed
  qed
qed

lemma add_slash_link_free:
  assumes "link_free f c" "f (c @ ''/'') = Not_a_link"
  shows "link_free f (c @ ''/'')"
  unfolding link_free_def
proof (intro allI impI)
  fix p s assume e: "c @ ''/'' = p @ s" and b: "boundary p s"
  from e [symmetric] show "f p = Not_a_link"
  proof (cases rule: append_eq_cases)
    case (1 u)
    show ?thesis
    proof (cases u)
      case Nil
      with 1 b link_free_self [OF assms(1)] show ?thesis by (auto simp: boundary_def)
    next
      case (Cons x v)
      with 1 b have "boundary p u" by (auto simp: boundary_def)
      with assms(1) 1(1) show ?thesis using link_freeD by blast
    qed
  next
    case (2 u)
    then have "s = []" by (cases u) auto
    with e assms(2) show ?thesis by simp
  qed
qed

lemma add_component_no_dotdot:
  assumes "no_dotdot c" "CHR ''/'' \<notin> set w" "w \<noteq> ''..''"
  shows "no_dotdot (add_component c w)"
proof -
  consider "c = []" | x where "c = x @ ''/''" | "c \<noteq> []" "last c \<noteq> CHR ''/''"
    by (metis append_butlast_last_id)
  then show ?thesis
  proof cases
    case (2 x)
    then have "add_component c w = x @ CHR ''/'' # w" by (simp add: add_component_def)
    with assms 2 show ?thesis
      by (simp add: no_dotdot_def components_append components_word)
  qed (use assms in \<open>simp_all add: no_dotdot_def add_component_def components_append components_word\<close>)
qed

lemma next_component_ok:
  assumes "link_free f c" "no_dotdot c" "next_component c r = (c', r')" "c' \<noteq> [] \<Longrightarrow> f c' = Not_a_link"
  shows "link_free f c' \<and> no_dotdot c'"
proof -
  let ?w = "takeWhile (\<lambda>x. x \<noteq> CHR ''/'') r"
  have w: "CHR ''/'' \<notin> set ?w" by (auto dest: set_takeWhileD)
  have slash: "no_dotdot (c @ ''/'')" using assms(2) by (simp add: no_dotdot_def components_append)
  consider "c' = c @ ''/''" | "c' = parent c"
    | v where "c' = add_component c v" "CHR ''/'' \<notin> set v" "v \<noteq> ''..''"
    using assms(3) w by (fastforce simp: next_component_def Let_def split: if_splits)
  then show ?thesis
  proof cases
    case 1
    with assms slash show ?thesis by (auto intro: add_slash_link_free)
  next
    case 2
    with assms(1,2) parent_link_free parent_no_dotdot show ?thesis by blast
  next
    case (3 v)
    show ?thesis
    proof (cases "c' = []")
      case False
      with 3 assms add_component_link_free add_component_no_dotdot show ?thesis by blast
    qed simp
  qed
qed

definition good_result :: "(string \<Rightarrow> link) \<Rightarrow> expanded \<Rightarrow> bool" where
  "good_result f x \<longleftrightarrow>
     (case x of
        Expanded p q \<Rightarrow> p = ''.'' \<or> (p \<noteq> [] \<and> link_free f p \<and> no_dotdot p)
      | Expand_error \<Rightarrow> True
      | Bad_index \<Rightarrow> \<exists>p. f p = Link []
      | Stale_length \<Rightarrow> False)"

lemma next_component_longer:
  assumes "next_component c r = (c', r')" "c' \<noteq> parent c"
  shows "length c \<le> length c' \<and> take (length c) c' = c"
  using assms by (auto simp: next_component_def Let_def add_component_def split: if_splits)

lemma expand_loop_ok:
  "link_free f c \<Longrightarrow> no_dotdot c \<Longrightarrow> good_result f (expand_loop f c r n)"
proof (induction f c r n rule: expand_loop.induct)
  case (1 f c r n)
  show ?case
  proof (cases "r = []")
    case True
    with "1.prems" show ?thesis by (simp add: expand_loop.simps [of f c "[]" n] good_result_def)
  next
    case r: False
    obtain c' r' where x: "next_component c r = (c', r')" by fastforce
    note ok = next_component_ok [OF "1.prems" x]
    show ?thesis
    proof (cases "c' = []")
      case True
      with "1.IH"(1) [OF r x [symmetric] True] ok x r show ?thesis
        by (simp add: expand_loop.simps [of f c r n])
    next
      case c': False
      show ?thesis
      proof (cases "f c'")
        case Not_a_link
        with "1.IH"(3) [OF r x [symmetric] c' Not_a_link] ok x r c' show ?thesis
          by (simp add: expand_loop.simps [of f c r n])
      next
        case No_such
        have "c' \<noteq> parent c"
        proof
          assume "c' = parent c"
          with parent_link_free [OF "1.prems"(1)] link_free_self c' No_such show False by fastforce
        qed
        with next_component_longer [OF x] No_such x r c' "1.prems" show ?thesis
          by (simp add: expand_loop.simps [of f c r n] good_result_def)
      next
        case (Link l)
        have "c' \<noteq> parent c"
        proof
          assume "c' = parent c"
          with parent_link_free [OF "1.prems"(1)] link_free_self c' Link show False by fastforce
        qed
        note long = next_component_longer [OF x this]
        show ?thesis
        proof (cases "MAX_LINKS < n + 1 \<or> l = []")
          case True
          with Link x r c' show ?thesis
            by (auto simp: expand_loop.simps [of f c r n] good_result_def)
        next
          case go: False
          define rest where "rest = (if r' \<noteq> [] then trim_slash l @ ''/'' @ r' else trim_slash l)"
          define d where "d = (if rest \<noteq> [] \<and> hd rest = CHR ''/'' then [] else c)"
          have e: "(if rest \<noteq> [] \<and> hd rest = CHR ''/'' then [] else take (length c) c') = d"
            using long by (simp add: d_def)
          have d: "link_free f d" "no_dotdot d" using "1.prems" by (simp_all add: d_def)
          have "\<not> MAX_LINKS < n + 1" "l \<noteq> []" "\<not> length c' < length c" using go long by simp_all
          from "1.IH"(2) [OF r x [symmetric] c' Link this rest_def, unfolded e, OF d]
          have "good_result f (expand_loop f d rest (n + 1))" .
          moreover have "expand_loop f c r n = expand_loop f d rest (n + 1)"
            using Link x r c' go long by (simp add: expand_loop.simps [of f c r n] rest_def d_def Let_def)
          ultimately show ?thesis by simp
        qed
      qed (use x r c' in \<open>simp add: expand_loop.simps [of f c r n] good_result_def\<close>)
    qed
  qed
qed

section \<open>Words joined by slashes\<close>

fun joined :: "string list \<Rightarrow> string" where
  "joined [] = []"
| "joined [w] = w"
| "joined (w # ws) = w @ CHR ''/'' # joined ws"

definition name :: "string \<Rightarrow> bool" where
  "name w \<longleftrightarrow> w \<noteq> [] \<and> w \<noteq> ''..'' \<and> CHR ''/'' \<notin> set w"

lemma joined_Cons: "joined (w # ws) = (if ws = [] then w else w @ CHR ''/'' # joined ws)"
  by (cases ws) auto

lemma joined_empty: "list_all name ws \<Longrightarrow> joined ws = [] \<longleftrightarrow> ws = []"
  by (cases ws) (auto simp: joined_Cons name_def)

lemma joined_last: "list_all name ws \<Longrightarrow> ws \<noteq> [] \<Longrightarrow> last (joined ws) \<noteq> CHR ''/''"
proof (induction ws)
  case (Cons w ws)
  show ?case
  proof (cases "ws = []")
    case True
    from Cons.prems(1) have "w \<noteq> []" "CHR ''/'' \<notin> set w" by (simp_all add: name_def)
    then have "last w \<noteq> CHR ''/''" by (metis last_in_set)
    with True show ?thesis by simp
  next
    case False
    with Cons joined_empty [of ws] show ?thesis by (simp add: joined_Cons)
  qed
qed simp

lemma joined_snoc: "joined (ws @ [v]) = (if ws = [] then v else joined ws @ CHR ''/'' # v)"
  by (induction ws) (auto simp: joined_Cons)

lemma add_component_joined:
  "list_all name ws \<Longrightarrow> add_component (joined ws) w = joined (ws @ [w])"
  using joined_last [of ws] joined_empty [of ws] by (auto simp: add_component_def joined_snoc)

lemma next_component_name:
  assumes "name w"
  shows "next_component c (joined (w # ws)) = (add_component c w, joined ws)"
proof (cases "ws = []")
  case True
  with assms show ?thesis by (auto simp: next_component_def name_def takeWhile_eq_all_conv)
next
  case False
  have "takeWhile (\<lambda>x. x \<noteq> CHR ''/'') (w @ CHR ''/'' # joined ws) = w"
    using assms by (subst takeWhile_append2) (auto simp: name_def)
  with False assms show ?thesis
    by (auto simp: next_component_def name_def joined_Cons)
qed

lemma loop_names:
  assumes "list_all name ds" "list_all name ws" "list_all name vs"
    and "\<And>p q. ws = p @ q \<Longrightarrow> p \<noteq> [] \<Longrightarrow> f (joined (ds @ p)) = Not_a_link"
  shows "expand_loop f (joined ds) (joined (ws @ vs)) n = expand_loop f (joined (ds @ ws)) (joined vs) n"
  using assms
proof (induction ws arbitrary: ds)
  case (Cons w ws)
  have l: "f (joined (ds @ [w])) = Not_a_link" using Cons.prems(4) [of "[w]" ws] by simp
  have "expand_loop f (joined (ds @ [w])) (joined (ws @ vs)) n = expand_loop f (joined ((ds @ [w]) @ ws)) (joined vs) n"
  proof (rule Cons.IH)
    fix p q assume "ws = p @ q" "p \<noteq> []"
    then show "f (joined ((ds @ [w]) @ p)) = Not_a_link" using Cons.prems(4) [of "w # p" q] by simp
  qed (use Cons.prems in simp_all)
  moreover have "joined (w # ws @ vs) \<noteq> []" using Cons.prems by (subst joined_empty) simp_all
  moreover have "joined (ds @ [w]) \<noteq> []" using Cons.prems by (subst joined_empty) simp_all
  ultimately show ?case
    using Cons.prems(1,2) l
    by (simp add: expand_loop.simps [of f "joined ds" "joined (w # ws @ vs)" n] next_component_name
        add_component_joined)
qed simp

lemma trim_slash_joined: "list_all name ws \<Longrightarrow> trim_slash (joined ws) = joined ws"
  using joined_last [of ws] by (cases "ws = []") (auto simp: trim_slash_def)

lemma dropWhile_joined: "list_all name ws \<Longrightarrow> dropWhile (\<lambda>x. x = CHR ''/'') (joined ws) = joined ws"
proof (cases ws)
  case (Cons w xs)
  assume "list_all name ws"
  with Cons have "w \<noteq> []" "CHR ''/'' \<notin> set w" by (simp_all add: name_def)
  then obtain c u where "w = c # u" "c \<noteq> CHR ''/''" by (cases w) auto
  with Cons show ?thesis by (simp add: joined_Cons)
qed simp

lemma expand_symlinks_good:
  assumes "path \<noteq> []"
  shows "good_result readlink (expand_symlinks exists readlink path False tildemapped)"
proof -
  obtain r where "expand_symlinks exists readlink path False tildemapped = expand_loop readlink [] r 0"
    using assms by (cases tildemapped) (simp_all add: expand_symlinks_def Let_def)
  then show ?thesis using expand_loop_ok [of readlink "[]" r 0] by simp
qed

section \<open>Properties\<close>


definition one_link :: "string \<Rightarrow> link" where
  "one_link p = (if p = ''pub/x'' then Link ''../etc/'' else Not_a_link)"

lemma one_link_path:
  "expand_symlinks (\<lambda>p. True) one_link ''pub/x/passwd/'' False False = Expanded ''etc/passwd'' []"
  by code_simp


text \<open>Without links, \<open>expand_symlinks\<close> splits a path of plain names where the file system ends: what exists comes
  back as the path, or a dot when nothing does, and the rest, the extra path for a CGI program, begins with the
  first name that does not exist.\<close>

theorem expand_pathinfo:
  assumes "list_all name (ws @ vs)" "ws @ vs \<noteq> []"
    and "\<And>p q. ws = p @ q \<Longrightarrow> p \<noteq> [] \<Longrightarrow> readlink (joined p) = Not_a_link"
    and "vs \<noteq> [] \<Longrightarrow> readlink (joined (ws @ [hd vs])) = No_such"
  shows "expand_symlinks exists readlink (joined (ws @ vs)) False tildemapped =
    Expanded (if ws = [] then ''.'' else joined ws) (joined vs)"
proof -
  have n: "list_all name ws" "list_all name vs" using assms(1) by simp_all
  have "expand_symlinks exists readlink (joined (ws @ vs)) False tildemapped =
      expand_loop readlink (joined []) (joined (ws @ vs)) 0"
    using trim_slash_joined [OF assms(1)] dropWhile_joined [OF assms(1)] joined_empty [OF assms(1)] assms(2)
    by (auto simp: expand_symlinks_def Let_def)
  also have "\<dots> = expand_loop readlink (joined ([] @ ws)) (joined vs) 0"
    by (rule loop_names) (use n assms(3) in auto)
  also have "\<dots> = Expanded (if ws = [] then ''.'' else joined ws) (joined vs)"
  proof (cases vs)
    case Nil
    then show ?thesis using joined_empty [OF n(1)] by (simp add: expand_loop.simps [of _ _ "[]"])
  next
    case (Cons v xs)
    have "joined (v # xs) \<noteq> []" "joined (ws @ [v]) \<noteq> []"
      using n Cons by (subst joined_empty; simp)+
    moreover have "take (length (joined ws)) (joined (ws @ [v])) = joined ws" by (simp add: joined_snoc)
    ultimately show ?thesis
      using n Cons assms(4) joined_empty [OF n(1)]
      by (simp add: expand_loop.simps [of readlink "joined ws"] next_component_name add_component_joined)
  qed
  finally show ?thesis .
qed

theorem expand_pathinfo_witness:
  "expand_symlinks (\<lambda>p. False) (\<lambda>p. if p = ''cgi/x'' then Not_a_link else if p = ''cgi'' then Not_a_link else No_such)
     ''cgi/x/a/b'' False False = Expanded ''cgi/x'' ''a/b''"
proof -
  let ?f = "\<lambda>p. if p = ''cgi/x'' then Not_a_link else if p = ''cgi'' then Not_a_link else No_such"
  have l: "?f (joined p) = Not_a_link" if "[''cgi'', ''x''] = p @ q" "p \<noteq> []" for p q
    using that by (cases p; cases "tl p") (auto simp: Cons_eq_append_conv)
  show ?thesis
    using expand_pathinfo [of "[''cgi'', ''x'']" "[''a'', ''b'']" ?f "\<lambda>p. False" False, OF _ _ l]
    by (simp add: name_def)
qed

end
