(* ===== verification/Th_Parse.thy ===== *)
theory Th_Parse
  imports Th_Request Th_Expand
begin

text \<open>
  The request parser of \<open>src/others/thttpd-2.29/libhttpd.c\<close>: \<open>httpd_parse_request\<close> with
  \<open>httpd_realloc_str\<close> and \<open>vhost_map\<close>. A pointer into the read buffer is the C string it
  points to (the lines that \<open>bufgets\<close> cuts are disjoint); a string of its own is its text with
  the size its buffer was allocated for. The build is the default one: no tilde mapping, no directory
  levels for virtual hosts, unknown headers not logged.
\<close>

section \<open>Connections\<close>

record strbuf =
  str :: string
  maxsize :: nat  \<comment> \<open>the buffer has one byte more\<close>

definition httpd_realloc_str :: "nat \<Rightarrow> strbuf \<Rightarrow> strbuf" where
  \<comment> \<open>without memory the process exits\<close>
  "httpd_realloc_str sz b =
     (if maxsize b = 0 then b\<lparr>maxsize := max 200 (sz + 100)\<rparr>
      else if maxsize b < sz then b\<lparr>maxsize := max (maxsize b * 2) (sz * 5 div 4)\<rparr>
      else b)"

definition strcpy :: "strbuf \<Rightarrow> string \<Rightarrow> strbuf option" where
  "strcpy b s = (if length s \<le> maxsize b then Some (b\<lparr>str := s\<rparr>) else None)"

definition METHOD_UNKNOWN :: nat where "METHOD_UNKNOWN = 0"
definition METHOD_GET :: nat where "METHOD_GET = 1"
definition METHOD_HEAD :: nat where "METHOD_HEAD = 2"
definition METHOD_POST :: nat where "METHOD_POST = 3"
definition METHOD_PUT :: nat where "METHOD_PUT = 4"
definition METHOD_DELETE :: nat where "METHOD_DELETE = 5"
definition METHOD_TRACE :: nat where "METHOD_TRACE = 6"

definition httpd_method_str :: "nat \<Rightarrow> string" where
  "httpd_method_str m =
     (if m = METHOD_GET then ''GET'' else if m = METHOD_HEAD then ''HEAD''
      else if m = METHOD_POST then ''POST'' else if m = METHOD_PUT then ''PUT''
      else if m = METHOD_DELETE then ''DELETE'' else if m = METHOD_TRACE then ''TRACE''
      else ''UNKNOWN'')"

record http_conn =
  read_buf :: string
  read_idx :: nat
  checked_idx :: nat
  hc_method :: nat
  encodedurl :: string
  decodedurl :: strbuf
  protocol :: string
  origfilename :: strbuf
  expnfilename :: strbuf
  pathinfo :: strbuf
  query :: strbuf
  referrer :: string
  useragent :: string
  accept :: strbuf
  accepte :: strbuf
  acceptl :: string
  cookie :: string
  contenttype :: string
  reqhost :: strbuf
  hdrhost :: string
  hostdir :: strbuf
  authorization :: string
  if_modified_since :: int
  range_if :: int
  contentlength :: "64 word"
  hostname :: "string option"
  mime_flag :: bool
  one_one :: bool
  got_range :: bool
  tildemapped :: bool
  first_byte_index :: int
  last_byte_index :: int
  keep_alive :: bool
  should_linger :: bool
  initialized :: bool
  read_size :: nat
  conn_fd :: int
  checked_state :: chst
  status :: nat
  bytes_to_send :: int
  bytes_sent :: int
  encodings :: strbuf
  remoteuser :: strbuf
  response :: strbuf
  responselen :: nat
  content_type :: string  \<comment> \<open>\<open>type\<close>\<close>
  file_address :: "nat option"

record http_server =
  vhost :: bool
  no_symlink_check :: bool
  cwd :: string
  tdate_parse :: "string \<Rightarrow> int"  \<comment> \<open>of \<open>tdate_parse.c\<close>\<close>
  sock_name :: "string option"  \<comment> \<open>\<open>getsockname\<close> of the connection, as text\<close>
  path_exists :: "string \<Rightarrow> bool"
  read_link :: "string \<Rightarrow> link"

datatype 'a outcome =
    Done 'a
  | Refused nat string http_conn  \<comment> \<open>\<open>httpd_send_err\<close> with the status and the argument of the form, then \<open>-1\<close>\<close>
  | Crash fault

fun and_then :: "'a outcome \<Rightarrow> ('a \<Rightarrow> 'b outcome) \<Rightarrow> 'b outcome" where
  "and_then (Done x) f = f x"
| "and_then (Refused st a hc) f = Refused st a hc"
| "and_then (Crash e) f = Crash e"

fun stored :: "strbuf option \<Rightarrow> (strbuf \<Rightarrow> 'a) \<Rightarrow> 'a outcome" where
  "stored None f = Crash Buffer_overflow"
| "stored (Some b) f = Done (f b)"

definition bad_request :: "http_conn \<Rightarrow> 'a outcome" where
  "bad_request hc = Refused 400 [] hc"

datatype accepted = Accepted int bool | Would_block | Accept_error
  \<comment> \<open>a descriptor, with whether its address family is known\<close>

datatype get_conn = GC_FAIL | GC_OK | GC_NO_MORE

definition sized :: "nat \<Rightarrow> strbuf \<Rightarrow> strbuf" where
  "sized sz b = httpd_realloc_str sz (b\<lparr>maxsize := 0\<rparr>)"

definition init_conn :: "http_conn \<Rightarrow> http_conn" where
  "init_conn hc =
     (if initialized hc then hc
      else hc\<lparr>decodedurl := sized 1 (decodedurl hc), origfilename := sized 1 (origfilename hc),
              expnfilename := sized 0 (expnfilename hc), encodings := sized 0 (encodings hc),
              pathinfo := sized 0 (pathinfo hc), query := sized 0 (query hc), accept := sized 0 (accept hc),
              accepte := sized 0 (accepte hc), reqhost := sized 0 (reqhost hc), hostdir := sized 0 (hostdir hc),
              remoteuser := sized 0 (remoteuser hc), response := sized 0 (response hc),
              read_size := maxsize (sized 500 \<lparr>str = read_buf hc, maxsize = 0\<rparr>), initialized := True\<rparr>)"

definition emptied :: "strbuf \<Rightarrow> strbuf" where
  "emptied b = b\<lparr>str := []\<rparr>"

definition reset_conn :: "http_conn \<Rightarrow> http_conn" where
  "reset_conn hc =
     hc\<lparr>read_idx := 0, checked_idx := 0, checked_state := CHST_FIRSTWORD, hc_method := METHOD_UNKNOWN, status := 0,
        bytes_to_send := 0, bytes_sent := 0, encodedurl := [], decodedurl := emptied (decodedurl hc),
        protocol := ''UNKNOWN'', origfilename := emptied (origfilename hc), expnfilename := emptied (expnfilename hc),
        encodings := emptied (encodings hc), pathinfo := emptied (pathinfo hc), query := emptied (query hc),
        referrer := [], useragent := [], accept := emptied (accept hc), accepte := emptied (accepte hc),
        acceptl := [], cookie := [], contenttype := [], reqhost := emptied (reqhost hc), hdrhost := [],
        hostdir := emptied (hostdir hc), authorization := [], remoteuser := emptied (remoteuser hc),
        response := emptied (response hc), responselen := 0, if_modified_since := -1, range_if := -1,
        contentlength := -1, content_type := [], hostname := None, mime_flag := True, one_one := False,
        got_range := False, tildemapped := False, first_byte_index := 0, last_byte_index := -1,
        keep_alive := False, should_linger := False, file_address := None\<rparr>"

definition httpd_get_conn :: "accepted \<Rightarrow> http_conn \<Rightarrow> get_conn \<times> http_conn" where
  "httpd_get_conn a hc =
     (let hc = init_conn hc
      in case a of
           Would_block \<Rightarrow> (GC_NO_MORE, hc\<lparr>conn_fd := -1\<rparr>)
         | Accept_error \<Rightarrow> (GC_FAIL, hc\<lparr>conn_fd := -1\<rparr>)
         | Accepted fd known \<Rightarrow>
             if \<not> known then (GC_FAIL, hc\<lparr>conn_fd := -1\<rparr>)
             else (GC_OK, reset_conn (hc\<lparr>conn_fd := fd\<rparr>)))"

abbreviation ws :: "char \<Rightarrow> bool" where
  "ws c \<equiv> blank c \<or> eol c"

definition dot_or_slash :: "string \<Rightarrow> bool" where
  \<comment> \<open>a host name that may not be used\<close>
  "dot_or_slash h \<longleftrightarrow> CHR ''/'' \<in> set h \<or> (h \<noteq> [] \<and> hd h = CHR ''.'')"

section \<open>The request line\<close>

definition split_request :: "string \<Rightarrow> http_conn \<Rightarrow> (string \<times> string \<times> http_conn) outcome" where
  \<comment> \<open>method and URL\<close>
  "split_request l hc =
     (let r1 = dropWhile (\<lambda>c. \<not> ws c) l
      in if r1 = [] then bad_request hc
         else (let m = takeWhile (\<lambda>c. \<not> ws c) l; u = dropWhile ws (tl r1);
                   url = takeWhile (\<lambda>c. \<not> ws c) u; r2 = dropWhile (\<lambda>c. \<not> ws c) u
               in if r2 = [] then Done (m, url, hc\<lparr>mime_flag := False, protocol := ''HTTP/0.9''\<rparr>)
                  else (let p = takeWhile (\<lambda>c. \<not> ws c) (dropWhile ws (tl r2))
                        in Done (m, url,
                             hc\<lparr>one_one := (if p \<noteq> [] \<and> \<not> strcaseeq p ''HTTP/1.0'' then True else one_one hc),
                                protocol := p\<rparr>))))"

definition absolute_url :: "string \<Rightarrow> http_conn \<Rightarrow> (string \<times> http_conn) outcome" where
  "absolute_url url hc =
     (if strncaseeq url ''http://'' 7
      then (if \<not> one_one hc then bad_request hc
            else (let h = drop 7 url; host = takeWhile (\<lambda>c. c \<noteq> CHR ''/'') h;
                      u = dropWhile (\<lambda>c. c \<noteq> CHR ''/'') h
                  in if u = [] then bad_request hc
                     else if dot_or_slash host then bad_request hc
                     else stored (strcpy (httpd_realloc_str (length host) (reqhost hc)) host)
                            (\<lambda>b. (u, hc\<lparr>reqhost := b\<rparr>))))
      else Done (url, hc))"

definition set_method :: "string \<Rightarrow> http_conn \<Rightarrow> http_conn outcome" where
  "set_method m hc =
     (if strcaseeq m (httpd_method_str METHOD_GET) then Done (hc\<lparr>hc_method := METHOD_GET\<rparr>)
      else if strcaseeq m (httpd_method_str METHOD_HEAD) then Done (hc\<lparr>hc_method := METHOD_HEAD\<rparr>)
      else if strcaseeq m (httpd_method_str METHOD_POST) then Done (hc\<lparr>hc_method := METHOD_POST\<rparr>)
      else if strcaseeq m (httpd_method_str METHOD_PUT) then Done (hc\<lparr>hc_method := METHOD_PUT\<rparr>)
      else if strcaseeq m (httpd_method_str METHOD_DELETE) then Done (hc\<lparr>hc_method := METHOD_DELETE\<rparr>)
      else if strcaseeq m (httpd_method_str METHOD_TRACE) then Done (hc\<lparr>hc_method := METHOD_TRACE\<rparr>)
      else Refused 501 m hc)"

definition decode_url :: "string \<Rightarrow> http_conn \<Rightarrow> http_conn outcome" where
  \<comment> \<open>\<open>strdecode\<close> writes all decoded bytes; a decoded NUL ends the string\<close>
  "decode_url url hc =
     (let hc = hc\<lparr>encodedurl := url\<rparr>; d = strdecode url
      in and_then (stored (strcpy (httpd_realloc_str (length url) (decodedurl hc)) d)
                     (\<lambda>b. hc\<lparr>decodedurl := b\<lparr>str := cstr d\<rparr>\<rparr>))
           (\<lambda>hc.
         let d = str (decodedurl hc)
         in if d = [] then Crash Out_of_bounds
            else stored (strcpy (httpd_realloc_str (length d) (origfilename hc))
                          (if tl d = [] then ''.'' else tl d))
                   (\<lambda>b. hc\<lparr>origfilename := b\<rparr>)))"

definition extract_query :: "http_conn \<Rightarrow> http_conn outcome" where
  "extract_query hc =
     (case dropWhile (\<lambda>c. c \<noteq> CHR ''?'') (encodedurl hc) of
        [] \<Rightarrow> Done hc
      | _ # q \<Rightarrow>
          stored (strcpy (httpd_realloc_str (length q) (query hc)) q)
            (\<lambda>b. hc\<lparr>query := b, origfilename :=
               (origfilename hc)\<lparr>str := takeWhile (\<lambda>c. c \<noteq> CHR ''?'') (str (origfilename hc))\<rparr>\<rparr>))"

definition check_filename :: "http_conn \<Rightarrow> http_conn outcome" where
  "check_filename hc =
     (let f = de_dotdot (str (origfilename hc)); hc = hc\<lparr>origfilename := (origfilename hc)\<lparr>str := f\<rparr>\<rparr>
      in if path_refused f then bad_request hc else Done hc)"

definition parse_request_line :: "string \<Rightarrow> http_conn \<Rightarrow> http_conn outcome" where
  "parse_request_line l hc =
     and_then (split_request l hc) (\<lambda>(m, url, hc).
     and_then (absolute_url url hc) (\<lambda>(url, hc).
       if url = [] \<or> hd url \<noteq> CHR ''/'' then bad_request hc
       else and_then (set_method m hc) (\<lambda>hc.
            and_then (decode_url url hc) (\<lambda>hc.
            and_then (extract_query hc) check_filename))))"

section \<open>Headers\<close>

definition atoll :: "string \<Rightarrow> int" where
  \<comment> \<open>\<open>atol\<close> too: 64 bits, saturating as in glibc\<close>
  "atoll s = max (- (2 ^ 63)) (min (2 ^ 63 - 1) (strtol_raw 10 s))"

definition is_header :: "string \<Rightarrow> string \<Rightarrow> bool" where
  "is_header h l \<longleftrightarrow> strncaseeq l h (length h)"

definition header_text :: "nat \<Rightarrow> string \<Rightarrow> string" where
  \<comment> \<open>\<open>&buf[n]\<close> behind blanks\<close>
  "header_text n l = dropWhile blank (drop n l)"

definition host_header :: "string \<Rightarrow> http_conn \<Rightarrow> http_conn outcome" where
  "host_header v hc =
     (let h = takeWhile (\<lambda>c. c \<noteq> CHR '':'') v; hc = hc\<lparr>hdrhost := h\<rparr>
      in if dot_or_slash h then bad_request hc else Done hc)"

definition accept_header :: "string \<Rightarrow> http_conn \<Rightarrow> http_conn outcome" where
  "accept_header v hc =
     (let a = accept hc
      in if str a \<noteq> []
         then (if 5000 < length (str a) then Done hc
               else (let b = httpd_realloc_str (length (str a) + 2 + length v) a
                     in case strcpy b (str b @ '', '') of
                          None \<Rightarrow> Crash Buffer_overflow
                        | Some b \<Rightarrow> stored (strcpy b (str b @ v)) (\<lambda>b. hc\<lparr>accept := b\<rparr>)))
         else (let b = httpd_realloc_str (length v) a
               in stored (strcpy b (str b @ v)) (\<lambda>b. hc\<lparr>accept := b\<rparr>)))"

definition accept_encoding_header :: "string \<Rightarrow> http_conn \<Rightarrow> http_conn outcome" where
  "accept_encoding_header v hc =
     (let a = accepte hc
      in if str a \<noteq> []
         then (if 5000 < length (str a) then Done hc
               else (let b = httpd_realloc_str (length (str a) + 2 + length v) a
                     in case strcpy b (str b @ '', '') of
                          None \<Rightarrow> Crash Buffer_overflow
                        | Some b \<Rightarrow> stored (strcpy b v) (\<lambda>b. hc\<lparr>accepte := b\<rparr>)))
         else (let b = httpd_realloc_str (length v) a
               in stored (strcpy b v) (\<lambda>b. hc\<lparr>accepte := b\<rparr>)))"

definition range_header :: "string \<Rightarrow> http_conn \<Rightarrow> http_conn" where
  "range_header l hc =
     (if CHR '','' \<in> set l then hc
      else (case dropWhile (\<lambda>c. c \<noteq> CHR ''='') l of
              [] \<Rightarrow> hc
            | _ # r \<Rightarrow>
                (case dropWhile (\<lambda>c. c \<noteq> CHR ''-'') r of
                   [] \<Rightarrow> hc
                 | _ # t \<Rightarrow>
                     (let f = takeWhile (\<lambda>c. c \<noteq> CHR ''-'') r
                      in if f = [] then hc
                         else hc\<lparr>got_range := True,
                                first_byte_index := (if atoll f < 0 then 0 else atoll f),
                                last_byte_index :=
                                  (if t \<noteq> [] \<and> isdigit (hd t)
                                   then (if atoll t < 0 then -1 else atoll t)
                                   else last_byte_index hc)\<rparr>))))"

definition mime_header :: "http_server \<Rightarrow> string \<Rightarrow> http_conn \<Rightarrow> http_conn outcome" where
  "mime_header srv l hc =
     (if is_header ''Referer:'' l then Done (hc\<lparr>referrer := header_text 8 l\<rparr>)
      else if is_header ''Referrer:'' l then Done (hc\<lparr>referrer := header_text 9 l\<rparr>)
      else if is_header ''User-Agent:'' l then Done (hc\<lparr>useragent := header_text 11 l\<rparr>)
      else if is_header ''Host:'' l then host_header (header_text 5 l) hc
      else if is_header ''Accept:'' l then accept_header (header_text 7 l) hc
      else if is_header ''Accept-Encoding:'' l then accept_encoding_header (header_text 16 l) hc
      else if is_header ''Accept-Language:'' l then Done (hc\<lparr>acceptl := header_text 16 l\<rparr>)
      else if is_header ''If-Modified-Since:'' l
      then Done (hc\<lparr>if_modified_since := tdate_parse srv (drop 18 l)\<rparr>)
      else if is_header ''Cookie:'' l then Done (hc\<lparr>cookie := header_text 7 l\<rparr>)
      else if is_header ''Range:'' l then Done (range_header l hc)
      else if is_header ''Range-If:'' l \<or> is_header ''If-Range:'' l
      then Done (hc\<lparr>range_if := tdate_parse srv (drop 9 l)\<rparr>)
      else if is_header ''Content-Type:'' l then Done (hc\<lparr>contenttype := header_text 13 l\<rparr>)
      else if is_header ''Content-Length:'' l
      then Done (hc\<lparr>contentlength := word_of_int (atoll (drop 15 l))\<rparr>)
      else if is_header ''Authorization:'' l then Done (hc\<lparr>authorization := header_text 14 l\<rparr>)
      else if is_header ''Connection:'' l
      then Done (hc\<lparr>keep_alive := (if strcaseeq (header_text 11 l) ''keep-alive'' then True else keep_alive hc)\<rparr>)
      else Done hc)"

lemma bufgets_progress:
  "bufgets buf n i = (Some s, buf', k) \<Longrightarrow> i < n \<and> i < k \<and> s = i"
proof -
  assume "bufgets buf n i = (Some s, buf', k)"
  then have "i + length (takeWhile (\<lambda>c. \<not> eol c) (drop i (take n buf))) < n \<and> i < k \<and> s = i"
    by (auto simp: bufgets_def Let_def split: if_splits)
  then show ?thesis by linarith
qed

function headers :: "http_server \<Rightarrow> string \<Rightarrow> nat \<Rightarrow> nat \<Rightarrow> http_conn \<Rightarrow> http_conn outcome" where
  \<comment> \<open>the loop over the lines of \<open>read_buf\<close> up to \<open>read_idx\<close>, from \<open>checked_idx\<close> on\<close>
  "headers srv buf n i hc =
     (case bufgets buf n i of
        (None, buf', k) \<Rightarrow> Done (hc\<lparr>read_buf := buf', checked_idx := k\<rparr>)
      | (Some s, buf', k) \<Rightarrow>
          (let l = cstr (drop s buf'); hc1 = hc\<lparr>read_buf := buf', checked_idx := k\<rparr>
           in if l = [] then Done hc1
              else (case mime_header srv l hc1 of
                      Done hc2 \<Rightarrow> headers srv buf' n k hc2
                    | Refused st a hc2 \<Rightarrow> Refused st a hc2
                    | Crash e \<Rightarrow> Crash e)))"
  by pat_completeness auto
termination
  by (relation "measure (\<lambda>(srv, buf, n, i, hc). n - i)") (auto dest!: bufgets_progress [OF sym])

declare headers.simps [simp del]

section \<open>The whole request\<close>

definition host_check :: "http_conn \<Rightarrow> http_conn outcome" where
  "host_check hc =
     (if one_one hc
      then (if str (reqhost hc) = [] \<and> hdrhost hc = [] then bad_request hc
            else Done (if keep_alive hc then hc\<lparr>should_linger := True\<rparr> else hc))
      else Done hc)"

definition vhost_map :: "http_server \<Rightarrow> http_conn \<Rightarrow> (bool \<times> http_conn) outcome" where
  \<comment> \<open>the host name is written in lower case where it is\<close>
  "vhost_map srv hc =
     (case (if str (reqhost hc) \<noteq> []
            then (let h = map tolower (str (reqhost hc))
                  in Some (h, hc\<lparr>reqhost := (reqhost hc)\<lparr>str := h\<rparr>, hostname := Some h\<rparr>))
            else if hdrhost hc \<noteq> []
            then (let h = map tolower (hdrhost hc) in Some (h, hc\<lparr>hdrhost := h, hostname := Some h\<rparr>))
            else (case sock_name srv of
                    None \<Rightarrow> None
                  | Some a \<Rightarrow> Some (map tolower a, hc\<lparr>hostname := Some (map tolower a)\<rparr>))) of
        None \<Rightarrow> Done (False, hc)
      | Some (h, hc) \<Rightarrow>
          if tildemapped hc then Done (True, hc)
          else and_then (stored (strcpy (httpd_realloc_str (length h) (hostdir hc)) h) (\<lambda>b. hc\<lparr>hostdir := b\<rparr>))
                 (\<lambda>hc. let d = str (hostdir hc); e = str (expnfilename hc)
                       in stored (strcpy (httpd_realloc_str (length d + 1 + length e) (expnfilename hc)) (d @ ''/'' @ e))
                            (\<lambda>b. (True, hc\<lparr>expnfilename := b\<rparr>))))"

definition strip_pathinfo :: "http_conn \<Rightarrow> http_conn" where
  "strip_pathinfo hc =
     (let o_name = str (origfilename hc); p = str (pathinfo hc); i = int (length o_name) - int (length p)
      in if p \<noteq> [] \<and> 0 < i \<and> drop (nat i) o_name = p
         then hc\<lparr>origfilename := (origfilename hc)\<lparr>str := take (nat i - 1) o_name\<rparr>\<rparr>
         else hc)"

definition elide_cwd :: "http_server \<Rightarrow> http_conn \<Rightarrow> http_conn outcome" where
  "elide_cwd srv hc =
     (let e = str (expnfilename hc)
      in if e \<noteq> [] \<and> hd e = CHR ''/''
         then (if strneq e (cwd srv) (length (cwd srv))
               then Done (hc\<lparr>expnfilename := (expnfilename hc)\<lparr>str := drop (length (cwd srv)) e\<rparr>\<rparr>)
               else Refused 403 (encodedurl hc) hc)
         else Done hc)"

definition follow_links :: "http_server \<Rightarrow> http_conn \<Rightarrow> http_conn outcome" where
  "follow_links srv hc =
     (case expand_symlinks (path_exists srv) (read_link srv) (str (expnfilename hc)) (no_symlink_check srv) (tildemapped hc) of
        Expanded cp pi \<Rightarrow>
          and_then (stored (strcpy (httpd_realloc_str (length cp) (expnfilename hc)) cp) (\<lambda>b. hc\<lparr>expnfilename := b\<rparr>))
            (\<lambda>hc. stored (strcpy (httpd_realloc_str (length pi) (pathinfo hc)) pi) (\<lambda>b. hc\<lparr>pathinfo := b\<rparr>))
      | Expand_error \<Rightarrow> Refused 500 (encodedurl hc) hc
      | _ \<Rightarrow> Crash Out_of_bounds)"

definition resolve :: "http_server \<Rightarrow> http_conn \<Rightarrow> http_conn outcome" where
  "resolve srv hc =
     and_then (stored (strcpy (httpd_realloc_str (length (str (origfilename hc))) (expnfilename hc))
                        (str (origfilename hc))) (\<lambda>b. hc\<lparr>expnfilename := b\<rparr>)) (\<lambda>hc.
     and_then (if vhost srv
               then and_then (vhost_map srv hc)
                      (\<lambda>(mapped, hc). if mapped then Done hc else Refused 500 (encodedurl hc) hc)
               else Done hc) (\<lambda>hc.
     and_then (follow_links srv hc) (\<lambda>hc. elide_cwd srv (strip_pathinfo hc))))"

definition httpd_parse_request :: "http_server \<Rightarrow> http_conn \<Rightarrow> http_conn outcome" where
  "httpd_parse_request srv hc =
     (case bufgets (read_buf hc) (read_idx hc) 0 of
        (None, buf, k) \<Rightarrow> Crash Null_deref
      | (Some s, buf, k) \<Rightarrow>
          and_then (parse_request_line (cstr (drop s buf)) (hc\<lparr>read_buf := buf, checked_idx := k\<rparr>)) (\<lambda>hc.
          and_then (if mime_flag hc then headers srv (read_buf hc) (read_idx hc) (checked_idx hc) hc else Done hc)
            (\<lambda>hc. and_then (host_check hc) (resolve srv))))"

section \<open>No string overflows\<close>

lemma realloc_size: "sz \<le> maxsize (httpd_realloc_str sz b)"
  by (auto simp: httpd_realloc_str_def)

lemma realloc_str [simp]: "str (httpd_realloc_str sz b) = str b"
  by (simp add: httpd_realloc_str_def)

lemma strcpy_fits: "length s \<le> maxsize b \<Longrightarrow> strcpy b s = Some (b\<lparr>str := s\<rparr>)"
  by (simp add: strcpy_def)

lemma strcpy_realloc:
  "length s \<le> sz \<Longrightarrow> strcpy (httpd_realloc_str sz b) s = Some ((httpd_realloc_str sz b)\<lparr>str := s\<rparr>)"
  using realloc_size [of sz b] by (intro strcpy_fits) linarith

lemma and_then_Done: "and_then m f = Done y \<longleftrightarrow> (\<exists>x. m = Done x \<and> f x = Done y)"
  by (cases m) auto

lemma and_then_Crash: "and_then m f = Crash e \<longleftrightarrow> m = Crash e \<or> (\<exists>x. m = Done x \<and> f x = Crash e)"
  by (cases m) auto

lemma stored_Done: "stored r f = Done y \<longleftrightarrow> (\<exists>b. r = Some b \<and> y = f b)"
  by (cases r) auto

lemma strdecode_Cons:
  "strdecode (c # s) = c # strdecode s \<or>
   (\<exists>x y t. s = x # y # t \<and> strdecode (c # s) = chr (hexit x * 16 + hexit y) # strdecode t)"
proof (cases "\<exists>x y t. s = x # y # t")
  case True
  then obtain x y t where s: "s = x # y # t" by blast
  obtain d where d: "d = strdecode s" by blast
  have "strdecode (c # s) =
      (if c = CHR ''%'' then if isxdigit x \<and> isxdigit y then chr (hexit x * 16 + hexit y) # strdecode t else c # d
       else c # d)"
    unfolding d s strdecode.simps(2) [of c "x # y # t"] list.case ..
  then show ?thesis unfolding d [symmetric] s by (auto split: if_splits)
next
  case False
  then show ?thesis by (cases s; cases "tl s") auto
qed

lemma length_strdecode: "length (strdecode s) \<le> length s"
proof (induction s rule: measure_induct_rule [of length])
  case (less s)
  show ?case
  proof (cases s)
    case (Cons c t)
    from strdecode_Cons [of c t] show ?thesis
    proof (elim disjE exE conjE)
      fix x y u assume "t = x # y # u" "strdecode (c # t) = chr (hexit x * 16 + hexit y) # strdecode u"
      with less.IH [of u] Cons show ?thesis by simp
    qed (use less.IH [of t] Cons in \<open>simp del: strdecode.simps\<close>)
  qed simp
qed

lemma strdecode_slash: "u \<noteq> [] \<Longrightarrow> hd u = CHR ''/'' \<Longrightarrow> \<exists>t. strdecode u = CHR ''/'' # t"
  by (cases u) auto

lemma append_strcpy:
  assumes "b = httpd_realloc_str (length (str a) + 2 + length v) a"
  shows "strcpy b (str b @ '', '') = Some (b\<lparr>str := str a @ '', ''\<rparr>)"
    and "strcpy (b\<lparr>str := str a @ '', ''\<rparr>) (str a @ '', '' @ v) = Some (b\<lparr>str := str a @ '', '' @ v\<rparr>)"
    and "strcpy (b\<lparr>str := str a @ '', ''\<rparr>) v = Some (b\<lparr>str := v\<rparr>)"
  using realloc_size [of "length (str a) + 2 + length v" a] assms by (simp_all add: strcpy_def)

lemma accept_header_done: "\<exists>hc'. accept_header v hc = Done hc'"
  using append_strcpy [OF refl, of "accept hc" v]
  by (cases "str (accept hc)") (simp_all add: accept_header_def Let_def strcpy_realloc)

lemma accept_encoding_done: "\<exists>hc'. accept_encoding_header v hc = Done hc'"
  using append_strcpy [OF refl, of "accepte hc" v]
  by (cases "str (accepte hc)") (simp_all add: accept_encoding_header_def Let_def strcpy_realloc)

lemma bad_request_no_crash [simp]: "bad_request hc \<noteq> Crash e" "bad_request hc \<noteq> Done x"
  by (simp_all add: bad_request_def)

lemma mime_header_no_crash: "mime_header srv l hc \<noteq> Crash e"
  using accept_header_done [of "header_text 7 l" hc] accept_encoding_done [of "header_text 16 l" hc]
  unfolding mime_header_def by (auto simp: host_header_def Let_def)

lemma headers_no_crash: "headers srv buf n i hc \<noteq> Crash e"
proof (induction srv buf n i hc rule: headers.induct)
  case (1 srv buf n i hc)
  obtain s buf' k where b: "bufgets buf n i = (s, buf', k)" using prod_cases3 by blast
  show ?case
  proof (cases s)
    case None
    with b show ?thesis by (simp add: headers.simps [of srv buf n i hc])
  next
    case (Some j)
    show ?thesis
    proof (cases "cstr (drop j buf') = []")
      case True
      with b Some show ?thesis by (simp add: headers.simps [of srv buf n i hc])
    next
      case False
      let ?h = "mime_header srv (cstr (drop j buf')) (hc\<lparr>read_buf := buf', checked_idx := k\<rparr>)"
      show ?thesis
      proof (cases ?h)
        case (Done hc2)
        have "headers srv buf' n k hc2 \<noteq> Crash e" using "1.IH" [OF b [symmetric] Some refl refl refl False Done] .
        with b Some False Done show ?thesis by (simp add: headers.simps [of srv buf n i hc])
      next
        case (Crash e')
        with mime_header_no_crash show ?thesis by blast
      qed (use b Some False in \<open>simp add: headers.simps [of srv buf n i hc]\<close>)
    qed
  qed
qed

lemma split_request_no_crash: "split_request l hc \<noteq> Crash e"
  unfolding split_request_def Let_def
  by (simp only: bad_request_no_crash outcome.distinct not_False_eq_True simp_thms split: if_split)

lemma absolute_url_no_crash: "absolute_url url hc \<noteq> Crash e"
  by (simp add: absolute_url_def bad_request_def Let_def strcpy_realloc)

lemma set_method_no_crash: "set_method m hc \<noteq> Crash e"
  by (simp add: set_method_def)

lemma decode_url_no_crash:
  assumes "url \<noteq> []" "hd url = CHR ''/''"
  shows "decode_url url hc \<noteq> Crash e"
proof -
  obtain t where t: "strdecode url = CHR ''/'' # t" using strdecode_slash [OF assms] by blast
  have "length (CHR ''/'' # t) \<le> length url" using length_strdecode [of url] t by simp
  then show ?thesis
    using strcpy_realloc [of "CHR ''/'' # t" "length url" "decodedurl hc"] t
    by (simp add: decode_url_def Let_def strcpy_realloc)
qed

lemma extract_query_no_crash: "extract_query hc \<noteq> Crash e"
  by (simp add: extract_query_def strcpy_realloc split: list.split)

lemma check_filename_no_crash: "check_filename hc \<noteq> Crash e"
  by (simp add: check_filename_def Let_def bad_request_def)

lemma parse_request_line_no_crash: "parse_request_line l hc \<noteq> Crash e"
  unfolding parse_request_line_def
  using split_request_no_crash absolute_url_no_crash set_method_no_crash decode_url_no_crash
    extract_query_no_crash check_filename_no_crash
  by (auto simp: and_then_Crash split: if_splits)

lemma host_check_no_crash: "host_check hc \<noteq> Crash e"
  by (simp add: host_check_def bad_request_def)

lemma vhost_map_no_crash: "vhost_map srv hc \<noteq> Crash e"
  by (simp add: vhost_map_def Let_def strcpy_realloc split: option.split)

lemma follow_links_crash: "follow_links srv hc = Crash e \<Longrightarrow> e = Out_of_bounds"
  by (auto simp: follow_links_def strcpy_realloc split: expanded.splits)

lemma elide_cwd_no_crash: "elide_cwd srv hc \<noteq> Crash e"
  by (simp add: elide_cwd_def Let_def)

lemma resolve_crash: "resolve srv hc = Crash e \<Longrightarrow> e = Out_of_bounds"
  using vhost_map_no_crash follow_links_crash elide_cwd_no_crash
  unfolding resolve_def by (auto simp: and_then_Crash strcpy_realloc split: if_splits)

lemma no_eol_no_request:
  "list_all (\<lambda>c. \<not> eol c) s \<Longrightarrow> st \<notin> {CHST_LF, CHST_CR, CHST_CRLF, CHST_CRLFCR} \<Longrightarrow> fst (scan st s) \<noteq> GR_GOT_REQUEST"
proof (induction s arbitrary: st)
  case (Cons c s)
  obtain st' r where g: "got_step st c = (st', r)" by fastforce
  with Cons.prems have "r \<noteq> GR_GOT_REQUEST" "st' \<notin> {CHST_LF, CHST_CR, CHST_CRLF, CHST_CRLFCR}"
    by (cases st; simp add: got_step_def split: if_splits)+
  with Cons.IH [of st'] Cons.prems g show ?case by (auto split: prod.splits)
qed simp

lemma got_request_line:
  assumes "httpd_got_request buf n 0 CHST_FIRSTWORD = (GR_GOT_REQUEST, i, st)" "n \<le> length buf"
  obtains buf' k where "bufgets buf n 0 = (Some 0, buf', k)"
proof -
  have "fst (scan CHST_FIRSTWORD (take n buf)) = GR_GOT_REQUEST"
    using assms got_request_scan [of 0 n buf CHST_FIRSTWORD] by (auto split: prod.splits)
  then have "\<not> list_all (\<lambda>c. \<not> eol c) (take n buf)" using no_eol_no_request by fastforce
  then have "takeWhile (\<lambda>c. \<not> eol c) (take n buf) \<noteq> take n buf"
    by (metis (mono_tags, lifting) list_all_iff set_takeWhileD)
  then have "length (takeWhile (\<lambda>c. \<not> eol c) (take n buf)) \<noteq> length (take n buf)"
    using takeWhile_eq_take [of "\<lambda>c. \<not> eol c" "take n buf"] by (metis take_all order_refl)
  then have "length (takeWhile (\<lambda>c. \<not> eol c) (take n buf)) < n"
    using assms(2) length_takeWhile_le [of "\<lambda>c. \<not> eol c" "take n buf"] by simp
  then have "fst (bufgets buf n 0) = Some 0" by (simp add: bufgets_def Let_def)
  then show thesis using that by (cases "bufgets buf n 0") auto
qed

section \<open>Properties\<close>

definition no_buf :: strbuf where
  "no_buf = \<lparr>str = [], maxsize = 0\<rparr>"

definition idle_conn :: http_conn where
  "idle_conn = \<lparr>read_buf = [], read_idx = 0, checked_idx = 0, hc_method = 0, encodedurl = [], decodedurl = no_buf,
     protocol = [], origfilename = no_buf, expnfilename = no_buf, pathinfo = no_buf, query = no_buf,
     referrer = [], useragent = [], accept = no_buf, accepte = no_buf, acceptl = [], cookie = [],
     contenttype = [], reqhost = no_buf, hdrhost = [], hostdir = no_buf, authorization = [],
     if_modified_since = 0, range_if = 0, contentlength = 0, hostname = None, mime_flag = False,
     one_one = False, got_range = False, tildemapped = False, first_byte_index = 0, last_byte_index = 0,
     keep_alive = False, should_linger = False, initialized = False, read_size = 0, conn_fd = 0, checked_state = CHST_FIRSTWORD,
     status = 0, bytes_to_send = 0, bytes_sent = 0, encodings = no_buf, remoteuser = no_buf, response = no_buf,
     responselen = 0, content_type = [], file_address = None\<rparr>"

definition with_request :: "string \<Rightarrow> http_conn" where
  \<comment> \<open>a new connection that has read these bytes\<close>
  "with_request s = (snd (httpd_get_conn (Accepted 5 True) idle_conn))\<lparr>read_buf := s, read_idx := length s\<rparr>"

definition plain_server :: http_server where
  "plain_server = \<lparr>vhost = False, no_symlink_check = False, cwd = ''/srv/'', tdate_parse = (\<lambda>s. -1), sock_name = None,
     path_exists = (\<lambda>p. True), read_link = (\<lambda>p. Not_a_link)\<rparr>"

text \<open>C19: on a request that \<open>httpd_got_request\<close> has accepted, whatever its bytes, the parser returns, writes no string past
  its buffer (each was allocated for what is copied or appended to it) and never uses a missing line.\<close>

theorem parse_no_overflow:
  assumes "httpd_got_request (read_buf hc) (read_idx hc) 0 CHST_FIRSTWORD = (GR_GOT_REQUEST, i, st)"
    "read_idx hc \<le> length (read_buf hc)"
  shows "httpd_parse_request srv hc \<noteq> Crash Buffer_overflow \<and> httpd_parse_request srv hc \<noteq> Crash Null_deref"
proof -
  obtain buf k where b: "bufgets (read_buf hc) (read_idx hc) 0 = (Some 0, buf, k)"
    by (rule got_request_line [OF assms])
  have "e = Out_of_bounds" if "httpd_parse_request srv hc = Crash e" for e
    using that b parse_request_line_no_crash headers_no_crash host_check_no_crash resolve_crash
    by (auto simp: httpd_parse_request_def and_then_Crash split: if_splits)
  then show ?thesis by blast
qed

theorem parse_no_overflow_witness:
  "httpd_parse_request plain_server (with_request (''GET /a%2'' @ [LF, LF])) \<noteq> Crash Buffer_overflow"
proof -
  let ?hc = "with_request (''GET /a%2'' @ [LF, LF])"
  have "httpd_got_request (read_buf ?hc) (read_idx ?hc) 0 CHST_FIRSTWORD = (GR_GOT_REQUEST, 8, CHST_SECONDWORD)"
    by code_simp
  moreover have "read_idx ?hc \<le> length (read_buf ?hc)" by (simp add: with_request_def)
  ultimately show ?thesis using parse_no_overflow [of ?hc 8 CHST_SECONDWORD plain_server] by blast
qed

lemma strneq_prefix: "strneq e d (length d) \<Longrightarrow> NUL \<notin> set d \<Longrightarrow> take (length d) e = d"
proof -
  assume s: "strneq e d (length d)" and n: "NUL \<notin> set d"
  then have t: "take (length d) (cstr e) = d" by (simp add: strneq_def cstr_id)
  then have "length d \<le> length (cstr e)" by (metis length_take min.cobounded1)
  moreover obtain r where "e = cstr e @ r" unfolding cstr_def by (metis takeWhile_dropWhile_id)
  ultimately show ?thesis using t by (metis append_eq_conv_conj take_append take_all diff_is_0_eq take0 append_Nil2)
qed

lemma follow_links_Done:
  assumes "follow_links srv hc = Done hc'" "\<not> no_symlink_check srv"
  shows "str (expnfilename hc') = ''.'' \<or> (str (expnfilename hc') \<noteq> [] \<and>
    link_free (read_link srv) (str (expnfilename hc')) \<and> no_dotdot (str (expnfilename hc')))"
proof -
  obtain p q where e: "expand_symlinks (path_exists srv) (read_link srv) (str (expnfilename hc)) False (tildemapped hc) = Expanded p q"
    and p: "str (expnfilename hc') = p"
    using assms by (auto simp: follow_links_def and_then_Done stored_Done strcpy_def split: expanded.splits if_splits)
  then have "str (expnfilename hc) \<noteq> []" by (auto simp: expand_symlinks_def)
  from expand_symlinks_good [OF this, of "read_link srv" "path_exists srv" "tildemapped hc"] e p show ?thesis
    by (simp add: good_result_def)
qed


definition linked_server :: "string \<Rightarrow> http_server" where
  \<comment> \<open>with one link\<close>
  "linked_server l = plain_server\<lparr>read_link := (\<lambda>p. if p = ''x'' then Link l else Not_a_link)\<rparr>"

definition result_path :: "http_conn outcome \<Rightarrow> string option" where
  "result_path r = (case r of Done hc \<Rightarrow> Some (str (expnfilename hc)) | _ \<Rightarrow> None)"

lemma linked_request:
  "result_path (httpd_parse_request (linked_server ''/srv/pub'') (with_request (''GET /x/a'' @ [LF]))) = Some ''pub/a''"
  by code_simp


text \<open>The check against the server's directory compares texts and cuts the directory off, so a link inside the tree
  to the directory with two more slashes makes the parser hand out an absolute path: it is tested below
  \<open>/srv\<close> and opened below the root of the file system.\<close>

theorem double_slash_escapes:
  "result_path (httpd_parse_request (linked_server ''/srv///etc'') (with_request (''GET /x/passwd'' @ [LF]))) =
     Some ''/etc/passwd'' \<and>
   expand_symlinks (path_exists (linked_server ''/srv///etc'')) (read_link (linked_server ''/srv///etc''))
     ''x/passwd'' False False = Expanded ''/srv//etc/passwd'' []"
  by code_simp

lemma first_line_cases:
  assumes "case x of (Some s, buf, k) \<Rightarrow> (case R s buf k of Done hc \<Rightarrow> P hc | _ \<Rightarrow> False) | _ \<Rightarrow> False"
  shows "\<exists>s buf k hc. x = (Some s, buf, k) \<and> R s buf k = Done hc \<and> P hc"
proof -
  obtain q buf k where x: "x = (q, buf, k)" using prod_cases3 by blast
  with assms obtain s where s: "q = Some s" by (cases q) auto
  with assms x show ?thesis by (cases "R s buf k") auto
qed

text \<open>A URL whose path \<open>de_dotdot\<close> or the query mark empties is passed on as the empty file name, and
  \<open>expand_symlinks\<close> reads the byte in front of its buffer, on every server without virtual hosts.\<close>

theorem empty_name_underruns:
  assumes "\<not> vhost srv" "\<not> (no_symlink_check srv \<and> path_exists srv [])"
    "u = ''/./'' \<or> u = ''/a/../'' \<or> u = ''/?q=1''"
  shows "httpd_parse_request srv (with_request (''GET '' @ u @ [CR, LF])) = Crash Out_of_bounds"
proof -
  have r: "resolve srv hc = Crash Out_of_bounds" if "str (origfilename hc) = []" for hc
    using assms(1,2) that by (auto simp: resolve_def follow_links_def strcpy_realloc expand_symlinks_def)
  have l: "case bufgets (read_buf hc) (read_idx hc) 0 of
      (Some s, buf, k) \<Rightarrow> (case parse_request_line (cstr (drop s buf)) (hc\<lparr>read_buf := buf, checked_idx := k\<rparr>) of
         Done hc' \<Rightarrow> str (origfilename hc') = [] \<and> \<not> mime_flag hc' \<and> \<not> one_one hc' | _ \<Rightarrow> False)
    | _ \<Rightarrow> False" if "hc = with_request (''GET '' @ u @ [CR, LF])" for hc
    using assms(3) unfolding that by (elim disjE; simp only:; code_simp)
  obtain s buf k hc' where b: "bufgets (read_buf (with_request (''GET '' @ u @ [CR, LF])))
      (read_idx (with_request (''GET '' @ u @ [CR, LF]))) 0 = (Some s, buf, k)"
    and q: "parse_request_line (cstr (drop s buf)) (with_request (''GET '' @ u @ [CR, LF])\<lparr>read_buf := buf, checked_idx := k\<rparr>) = Done hc'"
      "str (origfilename hc') = []" "\<not> mime_flag hc'" "\<not> one_one hc'"
    using first_line_cases [OF l [OF refl]] by blast
  have "httpd_parse_request srv (with_request (''GET '' @ u @ [CR, LF])) = resolve srv hc'"
    unfolding httpd_parse_request_def b prod.case option.case q(1) and_then.simps using q(3,4)
    by (simp add: host_check_def)
  then show ?thesis using r [OF q(2)] by simp
qed

theorem empty_name_underruns_witness:
  "httpd_parse_request plain_server (with_request (''GET /./'' @ [CR, LF])) = Crash Out_of_bounds"
  using empty_name_underruns [of plain_server "''/./''"] by (simp add: plain_server_def)

text \<open>Of two \<open>Accept\<close> headers the values are joined by a comma; of two \<open>Accept-Encoding\<close> headers only the last
  is kept: it is copied over the joined value.\<close>

theorem accept_encoding_replaced:
  assumes "str (accepte hc) = v" "v \<noteq> []" "length v \<le> 5000" "str (accept hc) = w" "w \<noteq> []" "length w \<le> 5000"
    "x \<noteq> []" "\<not> blank (hd x)"
  shows "\<exists>hc' hc''. mime_header srv (''Accept-Encoding: '' @ x) hc = Done hc' \<and> str (accepte hc') = x \<and>
    mime_header srv (''Accept: '' @ x) hc = Done hc'' \<and> str (accept hc'') = w @ '', '' @ x"
proof -
  have v: "header_text 16 (''Accept-Encoding: '' @ x) = x" "header_text 7 (''Accept: '' @ x) = x"
    using assms(7,8) by (cases x; simp add: header_text_def)+
  have "mime_header srv (''Accept-Encoding: '' @ x) hc = accept_encoding_header x hc"
    unfolding mime_header_def v by (simp add: is_header_def strncaseeq_def char_eval)
  moreover have "mime_header srv (''Accept: '' @ x) hc = accept_header x hc"
    unfolding mime_header_def v by (simp add: is_header_def strncaseeq_def char_eval)
  ultimately show ?thesis
    using assms append_strcpy [OF refl, of "accepte hc" x] append_strcpy [OF refl, of "accept hc" x]
    by (simp add: accept_encoding_header_def accept_header_def Let_def)
qed

theorem accept_encoding_replaced_witness:
  "\<exists>hc'. mime_header plain_server ''Accept-Encoding: br'' ((with_request [])\<lparr>accepte := \<lparr>str = ''gzip'', maxsize = 200\<rparr>,
      accept := \<lparr>str = ''text/html'', maxsize = 200\<rparr>\<rparr>) = Done hc' \<and> str (accepte hc') = ''br''"
  using accept_encoding_replaced [of "(with_request [])\<lparr>accepte := \<lparr>str = ''gzip'', maxsize = 200\<rparr>,
      accept := \<lparr>str = ''text/html'', maxsize = 200\<rparr>\<rparr>" "''gzip''" "''text/html''" "''br''" plain_server] by auto

end
