(* ===== verification/Th_Auth.thy ===== *)
theory Th_Auth
  imports Th_Parse
begin

text \<open>
  Basic authentication in \<open>src/others/thttpd-2.29/libhttpd.c\<close>: \<open>b64_decode\<close>, \<open>auth_check2\<close> with
  its cached entry, and \<open>auth_check\<close>. The password files and \<open>crypt\<close> are parameters; a result is the
  returned number, the status of the error page sent if any, the connection and the cache.
\<close>

unbundle bit_operations_syntax

section \<open>Base 64\<close>

definition b64_decode_table :: "int list" where
  "b64_decode_table =
     replicate 32 (-1) @
     [-1,-1,-1,-1,-1,-1,-1,-1,-1,-1,-1,62,-1,-1,-1,63,
      52,53,54,55,56,57,58,59,60,61,-1,-1,-1,-1,-1,-1,
      -1, 0, 1, 2, 3, 4, 5, 6, 7, 8, 9,10,11,12,13,14,
      15,16,17,18,19,20,21,22,23,24,25,-1,-1,-1,-1,-1,
      -1,26,27,28,29,30,31,32,33,34,35,36,37,38,39,40,
      41,42,43,44,45,46,47,48,49,50,51,-1,-1,-1,-1,-1] @
     replicate 128 (-1)"

definition put_byte :: "int \<Rightarrow> nat \<Rightarrow> string \<Rightarrow> string" where
  \<comment> \<open>as an \<open>unsigned char\<close>, when there is room\<close>
  "put_byte c sz out = (if length out < sz then out @ [chr (nat (take_bit 8 c))] else out)"

fun b64_loop :: "nat \<Rightarrow> nat \<Rightarrow> int \<Rightarrow> string \<Rightarrow> string \<Rightarrow> string" where
  \<comment> \<open>\<open>size\<close>, \<open>phase\<close>, \<open>prev_d\<close>, what is in \<open>space\<close>, the string from \<open>cp\<close> on\<close>
  "b64_loop sz phase prev_d out [] = out"
| "b64_loop sz phase prev_d out (x # cp) =
     (let d = b64_decode_table ! ord x
      in if d = -1 then b64_loop sz phase prev_d out cp
         else if phase = 0 then b64_loop sz 1 d out cp
         else if phase = 1
         then b64_loop sz 2 d (put_byte (push_bit 2 prev_d OR drop_bit 4 (d AND 0x30)) sz out) cp
         else if phase = 2
         then b64_loop sz 3 d (put_byte (push_bit 4 (prev_d AND 0xf) OR drop_bit 2 (d AND 0x3c)) sz out) cp
         else b64_loop sz 0 d (put_byte (push_bit 6 (prev_d AND 0x03) OR d) sz out) cp)"

definition b64_decode :: "string \<Rightarrow> nat \<Rightarrow> string" where
  "b64_decode s sz = b64_loop sz 0 0 [] s"

section \<open>Password files\<close>

record auth_env =
  auth_mtime :: "string \<Rightarrow> int option"  \<comment> \<open>\<open>stat\<close>: the time of the last change\<close>
  auth_file :: "string \<Rightarrow> string option"  \<comment> \<open>\<open>fopen\<close>: the bytes of the file\<close>
  crypt :: "string \<Rightarrow> string \<Rightarrow> string option"  \<comment> \<open>may be the null pointer\<close>
  global_passwd :: bool

record auth_cache =
  prevauthpath :: "string option"  \<comment> \<open>\<open>None\<close>: \<open>maxprevauthpath\<close> is 0\<close>
  prevmtime :: int
  prevuser :: string
  prevcryp :: string

datatype auth =
    Auth int "(nat \<times> string) option" http_conn auth_cache  \<comment> \<open>with status and realm of the error page\<close>
  | Auth_crash fault

definition send_authenticate :: "string \<Rightarrow> http_conn \<Rightarrow> auth_cache \<Rightarrow> auth" where
  \<comment> \<open>and \<open>return -1\<close>\<close>
  "send_authenticate realm hc pc =
     Auth (-1) (Some (401, realm)) (if hc_method hc = METHOD_POST then hc\<lparr>should_linger := True\<rparr> else hc) pc"

definition authorized :: "string \<Rightarrow> http_conn \<Rightarrow> auth_cache \<Rightarrow> auth" where
  \<comment> \<open>the remote user is set, and \<open>return 1\<close>\<close>
  "authorized user hc pc =
     (case strcpy (httpd_realloc_str (length user) (remoteuser hc)) user of
        None \<Rightarrow> Auth_crash Buffer_overflow
      | Some b \<Rightarrow> Auth 1 None (hc\<lparr>remoteuser := b\<rparr>) pc)"

definition fgets :: "nat \<Rightarrow> string \<Rightarrow> string \<times> string" where
  \<comment> \<open>what \<open>fgets\<close> stores in an array of \<open>sz\<close> bytes, and the rest of the file\<close>
  "fgets sz s =
     (let t = take (sz - 1) s; n = length (takeWhile (\<lambda>c. c \<noteq> LF) t)
      in (take (n + 1) t, drop (min (n + 1) (length t)) s))"

lemma fgets_shorter: "1 < sz \<Longrightarrow> s \<noteq> [] \<Longrightarrow> fgets sz s = (l, r) \<Longrightarrow> length r < length s"
  by (cases s) (auto simp: fgets_def Let_def)

definition split_line :: "string \<Rightarrow> (string \<times> string) option option" where
  \<comment> \<open>user and encrypted password of a line; the outer \<open>None\<close> is \<open>line[-1]\<close>\<close>
  "split_line l =
     (if cstr l = [] then None
      else (let l = (if last (cstr l) = LF then butlast (cstr l) else cstr l)
            in case dropWhile (\<lambda>c. c \<noteq> CHR '':'') l of
                 [] \<Rightarrow> Some None
               | _ # cryp \<Rightarrow> Some (Some (takeWhile (\<lambda>c. c \<noteq> CHR '':'') l, cryp))))"

function find_user :: "string \<Rightarrow> string \<Rightarrow> string option option" where
  \<comment> \<open>the loop over the password file: the encrypted password of the first line with the user\<close>
  "find_user user s =
     (if s = [] then Some None
      else (case fgets 500 s of (l, r) \<Rightarrow>
              (case split_line l of
                 None \<Rightarrow> None
               | Some None \<Rightarrow> find_user user r
               | Some (Some (u, cryp)) \<Rightarrow> if u = user then Some (Some cryp) else find_user user r)))"
  by pat_completeness auto
termination
  by (relation "measure (\<lambda>(u, s). length s)") (auto dest!: fgets_shorter [OF _ _ sym, rotated])

declare find_user.simps [simp del]

definition AUTH_FILE :: string where "AUTH_FILE = ''.htpasswd''"

definition credentials :: "string \<Rightarrow> (string \<times> string) option" where
  \<comment> \<open>the user and the password of an \<open>Authorization\<close> value\<close>
  "credentials a =
     (if a = [] \<or> \<not> strneq a ''Basic '' 6 then None
      else (let info = cstr (b64_decode (drop 6 a) 499)
            in case dropWhile (\<lambda>c. c \<noteq> CHR '':'') info of
                 [] \<Rightarrow> None
               | _ # p \<Rightarrow> Some (takeWhile (\<lambda>c. c \<noteq> CHR '':'') info, takeWhile (\<lambda>c. c \<noteq> CHR '':'') p)))"

definition auth_check2 :: "auth_env \<Rightarrow> string \<Rightarrow> http_conn \<Rightarrow> auth_cache \<Rightarrow> auth" where
  "auth_check2 e dirname hc pc =
     (let authpath = dirname @ ''/'' @ AUTH_FILE
      in case auth_mtime e authpath of
           None \<Rightarrow> Auth 0 None hc pc
         | Some mtime \<Rightarrow>
             (case credentials (authorization hc) of
                None \<Rightarrow> send_authenticate dirname hc pc
              | Some (user, pass) \<Rightarrow>
                  if prevauthpath pc = Some authpath \<and> mtime = prevmtime pc \<and> user = prevuser pc
                  then (case crypt e pass (prevcryp pc) of
                          None \<Rightarrow> Auth_crash Null_deref
                        | Some x \<Rightarrow> if x = prevcryp pc then authorized user hc pc else send_authenticate dirname hc pc)
                  else (case auth_file e authpath of
                          None \<Rightarrow> Auth (-1) (Some (403, [])) hc pc
                        | Some content \<Rightarrow>
                            (case find_user user content of
                               None \<Rightarrow> Auth_crash Out_of_bounds
                             | Some None \<Rightarrow> send_authenticate dirname hc pc
                             | Some (Some cryp) \<Rightarrow>
                                 (case crypt e pass cryp of
                                    None \<Rightarrow> Auth_crash Null_deref
                                  | Some x \<Rightarrow>
                                      if x = cryp
                                      then authorized user hc
                                             \<lparr>prevauthpath = Some authpath, prevmtime = mtime, prevuser = user, prevcryp = cryp\<rparr>
                                      else send_authenticate dirname hc pc)))))"

definition auth_check :: "auth_env \<Rightarrow> bool \<Rightarrow> string \<Rightarrow> http_conn \<Rightarrow> auth_cache \<Rightarrow> auth" where
  \<comment> \<open>the flag is \<open>vhost\<close>\<close>
  "auth_check e vh dirname hc pc =
     (if global_passwd e
      then (let topdir = (if vh \<and> str (hostdir hc) \<noteq> [] then str (hostdir hc) else ''.'')
            in case auth_check2 e topdir hc pc of
                 Auth r st hc1 pc1 \<Rightarrow>
                   if r = -1 \<or> r = 1 then Auth r st hc1 pc1 else auth_check2 e dirname hc1 pc1
               | Auth_crash f \<Rightarrow> Auth_crash f)
      else auth_check2 e dirname hc pc)"

section \<open>Encoding\<close>

definition b64_char :: "nat \<Rightarrow> char" where
  "b64_char n = ''ABCDEFGHIJKLMNOPQRSTUVWXYZabcdefghijklmnopqrstuvwxyz0123456789+/'' ! n"

fun b64_encode :: "string \<Rightarrow> string" where
  "b64_encode [] = []"
| "b64_encode [a] = [b64_char (ord a div 4), b64_char (ord a mod 4 * 16), CHR ''='', CHR ''='']"
| "b64_encode [a, b] =
     [b64_char (ord a div 4), b64_char (ord a mod 4 * 16 + ord b div 16), b64_char (ord b mod 16 * 4), CHR ''='']"
| "b64_encode (a # b # c # s) =
     [b64_char (ord a div 4), b64_char (ord a mod 4 * 16 + ord b div 16), b64_char (ord b mod 16 * 4 + ord c div 64),
      b64_char (ord c mod 64)] @ b64_encode s"

lemma table_inverse: "list_all (\<lambda>n. b64_decode_table ! ord (b64_char n) = int n) [0 ..< 64]"
  by code_simp

lemma table_b64_char: "n < 64 \<Longrightarrow> b64_decode_table ! ord (b64_char n) = int n"
  using table_inverse by (simp add: list_all_iff)

lemma table_pad: "b64_decode_table ! ord (CHR ''='') = -1"
  by code_simp

lemma or_low: "0 \<le> b \<Longrightarrow> b < 2 ^ n \<Longrightarrow> push_bit n a OR b = a * 2 ^ n + (b :: int)"
proof -
  assume b: "0 \<le> b" "b < 2 ^ n"
  then have "take_bit n b = b" by (simp add: take_bit_int_eq_self)
  then have "push_bit n a OR b = concat_bit n b a" by (simp add: concat_bit_def or.commute)
  also have "\<dots> = b + push_bit n a" using \<open>take_bit n b = b\<close> by (simp add: concat_bit_eq)
  finally show ?thesis by (simp add: push_bit_eq_mult)
qed

lemma low_bits: "(d :: int) AND 0xf = d mod 16" "d AND 0x03 = d mod 4"
  using take_bit_eq_mask [of 4 d] take_bit_eq_mask [of 2 d]
  by (simp_all add: take_bit_eq_mod mask_eq_exp_minus_1 and.commute)

lemma high_bits:
  assumes "0 \<le> d" "d < (64 :: int)"
  shows "drop_bit 4 (d AND 0x30) = d div 16" "drop_bit 2 (d AND 0x3c) = d div 4"
proof -
  have d: "d AND 0x3f = d" using assms take_bit_int_eq_self [of d 6] by (simp add: take_bit_eq_mask mask_eq_exp_minus_1)
  have "drop_bit 4 (d AND 0x30) = drop_bit 4 d AND 3" by (simp add: drop_bit_and)
  also have "\<dots> = drop_bit 4 (d AND 0x3f)" by (simp add: drop_bit_and)
  finally show "drop_bit 4 (d AND 0x30) = d div 16" using d by (simp add: drop_bit_eq_div)
  have "drop_bit 2 (d AND 0x3c) = drop_bit 2 d AND 15" by (simp add: drop_bit_and)
  also have "\<dots> = drop_bit 2 (d AND 0x3f)" by (simp add: drop_bit_and)
  finally show "drop_bit 2 (d AND 0x3c) = d div 4" using d by (simp add: drop_bit_eq_div)
qed

lemma put_byte_char: "length out < sz \<Longrightarrow> put_byte (int (ord a)) sz out = out @ [a]"
proof -
  assume l: "length out < sz"
  have "take_bit 8 (int (ord a)) = int (ord a)" using ord_less [of a] by (simp add: take_bit_int_eq_self)
  then show ?thesis using l by (simp add: put_byte_def)
qed

lemma first_byte: "push_bit 2 (int (ord a div 4)) OR drop_bit 4 (int (ord a mod 4 * 16 + r) AND 0x30) = int (ord a)"
  (is "?l = _") if "r < 16"
proof -
  have "0 \<le> int (ord a mod 4 * 16 + r)" "int (ord a mod 4 * 16 + r) < 64" using that by simp_all
  from high_bits(1) [OF this] have "drop_bit 4 (int (ord a mod 4 * 16 + r) AND 0x30) = int (ord a mod 4)"
    using that by (simp flip: of_nat_mod of_nat_div of_nat_add of_nat_mult add: zdiv_int)
  then have "?l = push_bit 2 (int (ord a div 4)) OR int (ord a mod 4)" by (rule arg_cong)
  also have "\<dots> = int (ord a div 4) * 2 ^ 2 + int (ord a mod 4)" by (rule or_low) simp_all
  also have "\<dots> = int (ord a div 4 * 4 + ord a mod 4)" unfolding of_nat_add of_nat_mult by simp
  finally show ?thesis by (simp only: div_mult_mod_eq)
qed

lemma second_byte:
  "push_bit 4 (int (q * 16 + ord b div 16) AND 0xf) OR drop_bit 2 (int (ord b mod 16 * 4 + r) AND 0x3c) = int (ord b)"
  (is "?l = _") if "r < 4"
proof -
  have "0 \<le> int (ord b mod 16 * 4 + r)" "int (ord b mod 16 * 4 + r) < 64" using that by simp_all
  from high_bits(2) [OF this] have h: "drop_bit 2 (int (ord b mod 16 * 4 + r) AND 0x3c) = int (ord b mod 16)"
    using that by (simp flip: of_nat_mod of_nat_div of_nat_add of_nat_mult add: zdiv_int)
  have "(q * 16 + ord b div 16) mod 16 = ord b div 16" 
    using ord_less [of b] by (simp add: div_less_iff_less_mult)
  then have "int (q * 16 + ord b div 16) AND 0xf = int (ord b div 16)"
    unfolding low_bits by (metis of_nat_mod of_nat_numeral)
  with h have "?l = push_bit 4 (int (ord b div 16)) OR int (ord b mod 16)" by (simp only:)
  also have "\<dots> = int (ord b div 16) * 2 ^ 4 + int (ord b mod 16)" by (rule or_low) simp_all
  also have "\<dots> = int (ord b div 16 * 16 + ord b mod 16)" unfolding of_nat_add of_nat_mult by simp
  finally show ?thesis by (simp only: div_mult_mod_eq)
qed

lemma third_byte: "push_bit 6 (int (q * 4 + ord c div 64) AND 0x03) OR int (ord c mod 64) = int (ord c)"
  (is "?l = _")
proof -
  have "(q * 4 + ord c div 64) mod 4 = ord c div 64" 
    using ord_less [of c] by (simp add: div_less_iff_less_mult)
  then have "int (q * 4 + ord c div 64) AND 0x03 = int (ord c div 64)"
    unfolding low_bits by (metis of_nat_mod of_nat_numeral)
  then have "?l = push_bit 6 (int (ord c div 64)) OR int (ord c mod 64)" by (simp only:)
  also have "\<dots> = int (ord c div 64) * 2 ^ 6 + int (ord c mod 64)" by (rule or_low) simp_all
  also have "\<dots> = int (ord c div 64 * 64 + ord c mod 64)" unfolding of_nat_add of_nat_mult by simp
  finally show ?thesis by (simp only: div_mult_mod_eq)
qed

lemma loop_0: "n < 64 \<Longrightarrow> b64_loop sz 0 p out (b64_char n # s) = b64_loop sz 1 (int n) out s"
  by (simp add: table_b64_char)

lemma loop_pad [simp]: "b64_loop sz k p out (CHR ''='' # s) = b64_loop sz k p out s"
  by (simp add: table_pad)

lemma loop_1:
  "r < 16 \<Longrightarrow> length out < sz \<Longrightarrow>
   b64_loop sz 1 (int (ord a div 4)) out (b64_char (ord a mod 4 * 16 + r) # s) =
   b64_loop sz 2 (int (ord a mod 4 * 16 + r)) (out @ [a]) s"
  using table_b64_char [of "ord a mod 4 * 16 + r"] first_byte [of r a] put_byte_char [of out sz a]
  by (simp del: of_nat_add of_nat_mult)

lemma loop_2:
  "r < 4 \<Longrightarrow> length out < sz \<Longrightarrow>
   b64_loop sz 2 (int (q * 16 + ord b div 16)) out (b64_char (ord b mod 16 * 4 + r) # s) =
   b64_loop sz 3 (int (ord b mod 16 * 4 + r)) (out @ [b]) s"
  using table_b64_char [of "ord b mod 16 * 4 + r"] second_byte [of r q b] put_byte_char [of out sz b]
  by (simp del: of_nat_add of_nat_mult)

lemma loop_3:
  "length out < sz \<Longrightarrow>
   b64_loop sz 3 (int (q * 4 + ord c div 64)) out (b64_char (ord c mod 64) # s) =
   b64_loop sz 0 (int (ord c mod 64)) (out @ [c]) s"
  using table_b64_char [of "ord c mod 64"] third_byte [of q c] put_byte_char [of out sz c]
  by (simp del: of_nat_add of_nat_mult)

lemma b64_loop_encode:
  "length out + length s \<le> sz \<Longrightarrow> b64_loop sz 0 p out (b64_encode s) = out @ s"
proof (induction s arbitrary: p out rule: b64_encode.induct)
  case (2 a)
  then show ?case using ord_less [of a] loop_1 [of 0 out sz a]
    by (simp add: loop_0 div_less_iff_less_mult del: b64_loop.simps(2))
next
  case (3 a b)
  then show ?case using ord_less [of a] ord_less [of b] loop_1 [of "ord b div 16" out sz a]
      loop_2 [of 0 "out @ [a]" sz "ord a mod 4" b]
    by (simp add: loop_0 div_less_iff_less_mult del: b64_loop.simps(2))
next
  case (4 a b c s)
  have "b64_loop sz 0 p' ((out @ [a, b]) @ [c]) (b64_encode s) = ((out @ [a, b]) @ [c]) @ s" for p'
    using 4 by simp
  with 4 show ?case using ord_less [of a] ord_less [of b] ord_less [of c] loop_1 [of "ord b div 16" out sz a]
      loop_2 [of "ord c div 64" "out @ [a]" sz "ord a mod 4" b] loop_3 [of "out @ [a, b]" sz "ord b mod 16" c]
    by (simp add: loop_0 div_less_iff_less_mult del: b64_loop.simps(2))
qed simp

section \<open>Properties\<close>

definition cache_ok :: "auth_env \<Rightarrow> auth_cache \<Rightarrow> bool" where
  \<comment> \<open>a file whose time of change is the cached one has the cached line\<close>
  "cache_ok e pc \<longleftrightarrow>
     (case prevauthpath pc of
        None \<Rightarrow> True
      | Some p \<Rightarrow> auth_mtime e p = Some (prevmtime pc) \<longrightarrow>
          (case auth_file e p of
             None \<Rightarrow> False
           | Some content \<Rightarrow> find_user (prevuser pc) content = Some (Some (prevcryp pc))))"

definition no_cache :: auth_cache where
  "no_cache = \<lparr>prevauthpath = None, prevmtime = 0, prevuser = [], prevcryp = []\<rparr>"

definition answer :: "auth \<Rightarrow> (int \<times> (nat \<times> string) option \<times> http_conn) + fault" where
  "answer r = (case r of Auth n st hc pc \<Rightarrow> Inl (n, st, hc) | Auth_crash f \<Rightarrow> Inr f)"

definition kept_cache :: "auth_env \<Rightarrow> auth \<Rightarrow> bool" where
  "kept_cache e r = (case r of Auth n st hc pc \<Rightarrow> cache_ok e pc | Auth_crash f \<Rightarrow> True)"

lemma answer_simps [simp]:
  "answer (send_authenticate d hc pc) = answer (send_authenticate d hc pc') \<longleftrightarrow> True"
  "answer (authorized u hc pc) = answer (authorized u hc pc') \<longleftrightarrow> True"
  by (auto simp: answer_def send_authenticate_def authorized_def split: option.split)

lemma check2_no_cache: "cache_ok e no_cache"
  by (simp add: cache_ok_def no_cache_def)

lemma check2_answer:
  assumes "cache_ok e pc"
  shows "answer (auth_check2 e d hc pc) = answer (auth_check2 e d hc no_cache)"
proof (cases "\<exists>m u p. auth_mtime e (d @ ''/'' @ AUTH_FILE) = Some m \<and> credentials (authorization hc) = Some (u, p) \<and>
    prevauthpath pc = Some (d @ ''/'' @ AUTH_FILE) \<and> m = prevmtime pc \<and> u = prevuser pc")
  case True
  then obtain p where t: "auth_mtime e (d @ ''/'' @ AUTH_FILE) = Some (prevmtime pc)"
    "credentials (authorization hc) = Some (prevuser pc, p)" "prevauthpath pc = Some (d @ ''/'' @ AUTH_FILE)" by blast
  with assms obtain content where "auth_file e (d @ ''/'' @ AUTH_FILE) = Some content"
    "find_user (prevuser pc) content = Some (Some (prevcryp pc))"
    by (auto simp: cache_ok_def split: option.splits)
  with t show ?thesis
    by (simp add: auth_check2_def no_cache_def split: option.split)
next
  case no: False
  show ?thesis
  proof (cases "auth_mtime e (d @ ''/'' @ AUTH_FILE)")
    case None
    then show ?thesis by (simp add: auth_check2_def answer_def)
  next
    case m: (Some m)
    show ?thesis
    proof (cases "credentials (authorization hc)")
      case None
      with m show ?thesis by (simp add: auth_check2_def)
    next
      case (Some c)
      obtain u p where c: "c = (u, p)" by fastforce
      have n: "\<not> (prevauthpath pc = Some (d @ ''/'' @ AUTH_FILE) \<and> m = prevmtime pc \<and> u = prevuser pc)"
        "\<not> (prevauthpath no_cache = Some (d @ ''/'' @ AUTH_FILE) \<and> m = prevmtime no_cache \<and> u = prevuser no_cache)"
        using no m Some c by (auto simp: no_cache_def)
      show ?thesis
        unfolding auth_check2_def Let_def m Some c option.case prod.case if_not_P [OF n(1)] if_not_P [OF n(2)]
        by (simp add: answer_def send_authenticate_def split: option.split)
    qed
  qed
qed

lemma check2_cache:
  assumes "cache_ok e pc"
  shows "kept_cache e (auth_check2 e d hc pc)"
  using assms
  by (auto simp: auth_check2_def Let_def kept_cache_def send_authenticate_def authorized_def
      split: option.splits prod.splits) (auto simp: cache_ok_def)

definition granted :: "auth_env \<Rightarrow> string \<Rightarrow> http_conn \<Rightarrow> bool" where
  \<comment> \<open>the password file of the directory lists the user of the request with this password\<close>
  "granted e d hc \<longleftrightarrow>
     (case credentials (authorization hc) of
        None \<Rightarrow> False
      | Some (user, pass) \<Rightarrow>
          (case auth_file e (d @ ''/'' @ AUTH_FILE) of
             None \<Rightarrow> False
           | Some content \<Rightarrow>
               (case find_user user content of Some (Some cryp) \<Rightarrow> crypt e pass cryp = Some cryp | _ \<Rightarrow> False)))"

lemma check2_granted:
  assumes "auth_check2 e d hc no_cache = Auth n st hc' pc'"
  shows "(n = -1 \<or> n = 0 \<or> n = 1) \<and> (n = 0 \<longleftrightarrow> auth_mtime e (d @ ''/'' @ AUTH_FILE) = None) \<and>
    (n = 1 \<longrightarrow> granted e d hc \<and> st = None \<and> (\<exists>p. credentials (authorization hc) = Some (str (remoteuser hc'), p))) \<and>
    (n = 0 \<longrightarrow> hc' = hc \<and> st = None)"
  using assms
  by (auto simp: auth_check2_def Let_def no_cache_def send_authenticate_def authorized_def granted_def strcpy_realloc
      split: option.splits prod.splits if_splits)

lemma check2_result:
  assumes "cache_ok e pc" "auth_check2 e d hc pc = Auth n st hc' pc'"
  shows "(n = -1 \<or> n = 0 \<or> n = 1) \<and> (n = 0 \<longleftrightarrow> auth_mtime e (d @ ''/'' @ AUTH_FILE) = None) \<and>
    (n = 1 \<longrightarrow> granted e d hc \<and> st = None \<and> (\<exists>p. credentials (authorization hc) = Some (str (remoteuser hc'), p))) \<and>
    (n = 0 \<longrightarrow> hc' = hc \<and> st = None) \<and> cache_ok e pc'"
proof -
  have "answer (auth_check2 e d hc no_cache) = Inl (n, st, hc')"
    using check2_answer [OF assms(1), of d hc] assms(2) by (simp add: answer_def)
  then obtain pc'' where "auth_check2 e d hc no_cache = Auth n st hc' pc''"
    by (auto simp: answer_def split: auth.splits)
  note g = check2_granted [OF this]
  have k: "cache_ok e pc'"
    using check2_cache [OF assms(1), of d hc] assms(2) by (simp add: kept_cache_def)
  show ?thesis using g k by (intro conjI) blast+
qed

lemma check2_let_through:
  assumes "auth_check2 e d hc pc = Auth 0 st hc' pc'"
  shows "hc' = hc \<and> pc' = pc"
  using assms
  by (auto simp: auth_check2_def Let_def send_authenticate_def authorized_def split: option.splits prod.splits if_splits)

definition topdir :: "bool \<Rightarrow> http_conn \<Rightarrow> string" where
  "topdir vh hc = (if vh \<and> str (hostdir hc) \<noteq> [] then str (hostdir hc) else ''.'')"

text \<open>\<open>b64_decode\<close> gives back what was encoded, for every byte string that fits, padding or not.\<close>

theorem b64_roundtrip:
  assumes "length s \<le> sz"
  shows "b64_decode (b64_encode s) sz = s"
  using b64_loop_encode [of "[]" s sz 0] assms by (simp add: b64_decode_def)

theorem b64_roundtrip_witness:
  "b64_decode (b64_encode ''me:x'') 499 = ''me:x''"
  using b64_roundtrip [of "''me:x''" 499] by simp

lemma auth_check_grants:
  assumes "cache_ok e pc" "auth_check e vh d hc pc = Auth n st hc' pc'"
  shows "(n = -1 \<or> n = 0 \<or> n = 1) \<and> cache_ok e pc' \<and>
    (n = 1 \<longrightarrow> granted e d hc \<or> (global_passwd e \<and> granted e (topdir vh hc) hc)) \<and>
    (n = 0 \<longrightarrow> hc' = hc \<and> auth_mtime e (d @ ''/'' @ AUTH_FILE) = None \<and>
       (global_passwd e \<longrightarrow> auth_mtime e (topdir vh hc @ ''/'' @ AUTH_FILE) = None))"
proof (cases "global_passwd e")
  case False
  with assms(2) have "auth_check2 e d hc pc = Auth n st hc' pc'" by (simp add: auth_check_def)
  from check2_result [OF assms(1) this] False show ?thesis by blast
next
  case True
  then obtain r st1 hc1 pc1 where t: "auth_check2 e (topdir vh hc) hc pc = Auth r st1 hc1 pc1"
    and a: "(if r = -1 \<or> r = 1 then Auth r st1 hc1 pc1 else auth_check2 e d hc1 pc1) = Auth n st hc' pc'"
    using assms(2) by (auto simp: auth_check_def topdir_def [symmetric] Let_def split: auth.splits)
  note c = check2_result [OF assms(1) t]
  show ?thesis
  proof (cases "r = 0")
    case True
    then have h: "hc1 = hc" "pc1 = pc" using check2_let_through t by blast+
    with a True have "auth_check2 e d hc pc = Auth n st hc' pc'" by simp
    from check2_result [OF assms(1) this] c True show ?thesis by blast
  next
    case False
    with a c have "n = r" "pc' = pc1" by (auto split: if_splits)
    with c False \<open>global_passwd e\<close> show ?thesis by blast
  qed
qed

text \<open>C20: a protected directory is entered only with a password: when the cached entry is one of an unchanged file,
  \<open>auth_check\<close> answers 1 only if the password file of the directory, or the global one, lists the user of
  the request first with an encrypted password that \<open>crypt\<close> gives for the password of the request; 0 only if
  neither directory has a password file; and the cache it leaves is again one of unchanged files.\<close>

theorem auth_check_granted:
  assumes "cache_ok e pc" "auth_check e vh d hc pc = Auth n st hc' pc'"
  shows "(n = -1 \<or> n = 0 \<or> n = 1) \<and> cache_ok e pc' \<and>
    (n = 1 \<longrightarrow> granted e d hc \<or> (global_passwd e \<and> granted e (topdir vh hc) hc)) \<and>
    (n = 0 \<longrightarrow> hc' = hc \<and> auth_mtime e (d @ ''/'' @ AUTH_FILE) = None \<and>
       (global_passwd e \<longrightarrow> auth_mtime e (topdir vh hc @ ''/'' @ AUTH_FILE) = None))"
  by (rule auth_check_grants [OF assms])

definition one_user :: auth_env where
  "one_user = \<lparr>auth_mtime = (\<lambda>p. if p = ''adm/.htpasswd'' then Some 7 else None),
     auth_file = (\<lambda>p. if p = ''adm/.htpasswd'' then Some (''x'' @ [LF] @ ''me:cx'' @ [LF]) else None),
     crypt = (\<lambda>pass salt. Some (CHR ''c'' # pass)), global_passwd = True\<rparr>"

lemma one_user_answer:
  "case auth_check one_user False ''adm'' ((with_request [])\<lparr>authorization := ''Basic bWU6eA==''\<rparr>) no_cache of
     Auth n st hc pc \<Rightarrow> n = 1 \<and> prevauthpath pc = Some ''adm/.htpasswd'' | _ \<Rightarrow> False"
  by code_simp

theorem auth_check_granted_witness:
  "granted one_user ''adm'' ((with_request [])\<lparr>authorization := ''Basic bWU6eA==''\<rparr>) \<or>
   granted one_user ''.'' ((with_request [])\<lparr>authorization := ''Basic bWU6eA==''\<rparr>)"
proof -
  let ?hc = "(with_request [])\<lparr>authorization := ''Basic bWU6eA==''\<rparr>"
  obtain st hc pc where a: "auth_check one_user False ''adm'' ?hc no_cache = Auth 1 st hc pc"
    using one_user_answer by (cases "auth_check one_user False ''adm'' ?hc no_cache") auto
  from auth_check_granted [OF check2_no_cache a] show ?thesis by (auto simp: topdir_def)
qed

text \<open>The cache of \<open>auth_check2\<close> changes nothing but the cost: with an entry of an unchanged file the answer, the
  error page and the connection are the ones without a cache.\<close>

theorem auth_cache_transparent:
  assumes "cache_ok e pc"
  shows "answer (auth_check e vh d hc pc) = answer (auth_check e vh d hc no_cache)"
proof (cases "global_passwd e")
  case False
  with check2_answer [OF assms] show ?thesis by (simp add: auth_check_def)
next
  case True
  have a: "answer (auth_check2 e (topdir vh hc) hc pc) = answer (auth_check2 e (topdir vh hc) hc no_cache)"
    by (rule check2_answer [OF assms])
  have g: "auth_check e vh d hc q = (case auth_check2 e (topdir vh hc) hc q of
      Auth r st hc1 pc1 \<Rightarrow> if r = -1 \<or> r = 1 then Auth r st hc1 pc1 else auth_check2 e d hc1 pc1
    | Auth_crash f \<Rightarrow> Auth_crash f)" for q
    using True by (simp add: auth_check_def topdir_def)
  show ?thesis
  proof (cases "auth_check2 e (topdir vh hc) hc pc")
    case (Auth r st hc1 pc1)
    with a obtain pc2 where 2: "auth_check2 e (topdir vh hc) hc no_cache = Auth r st hc1 pc2"
      by (auto simp: answer_def split: auth.splits)
    show ?thesis
    proof (cases "r = 0")
      case True
      with Auth 2 check2_let_through have "hc1 = hc" "pc1 = pc" "pc2 = no_cache" by blast+
      with True Auth 2 check2_answer [OF assms, of d hc] show ?thesis by (simp add: g)
    next
      case False
      then have "r = -1 \<or> r = 1" using check2_result [OF assms Auth] by blast
      with Auth 2 show ?thesis by (auto simp: g answer_def)
    qed
  next
    case (Auth_crash f)
    with a have "auth_check2 e (topdir vh hc) hc no_cache = Auth_crash f"
      by (auto simp: answer_def split: auth.splits)
    with Auth_crash show ?thesis by (simp add: g)
  qed
qed

theorem auth_cache_transparent_witness:
  "answer (auth_check one_user True ''adm'' (with_request [])
       \<lparr>prevauthpath = Some ''adm/.htpasswd'', prevmtime = 7, prevuser = ''me'', prevcryp = ''cx''\<rparr>) =
   answer (auth_check one_user True ''adm'' (with_request []) no_cache)"
proof (rule auth_cache_transparent)
  show "cache_ok one_user \<lparr>prevauthpath = Some ''adm/.htpasswd'', prevmtime = 7, prevuser = ''me'', prevcryp = ''cx''\<rparr>"
    by code_simp
qed

end
