(* ===== verification/Th_Search.thy ===== *)
theory Th_Search
  imports Prelude
begin

text \<open>
  The sorted tables of thttpd (\<open>src/others/thttpd-2.29/tdate_parse.c\<close>, \<open>libhttpd.c\<close>): the
  comparisons of \<open>string.h\<close>, \<open>qsort\<close>, and the binary search that \<open>strlong_search\<close> and
  \<open>figure_mime\<close> write out. What the search finds is proved once, for any table in the order of the
  comparison.
\<close>

section \<open>Comparisons\<close>

fun strcmp :: "string \<Rightarrow> string \<Rightarrow> int" where
  "strcmp [] [] = 0"
| "strcmp [] (b # t) = - 1"
| "strcmp (a # s) [] = 1"
| "strcmp (a # s) (b # t) = (if a = b then strcmp s t else int (ord a) - int (ord b))"

definition strncasecmp :: "string \<Rightarrow> string \<Rightarrow> nat \<Rightarrow> int" where
  "strncasecmp a b n = strcmp (map tolower (take n a)) (map tolower (take n b))"

fun insert_by :: "('e \<Rightarrow> 'e \<Rightarrow> int) \<Rightarrow> 'e \<Rightarrow> 'e list \<Rightarrow> 'e list" where
  "insert_by cmp x [] = [x]"
| "insert_by cmp x (y # ys) = (if cmp x y \<le> 0 then x # y # ys else y # insert_by cmp x ys)"

definition qsort :: "('e \<Rightarrow> 'e \<Rightarrow> int) \<Rightarrow> 'e list \<Rightarrow> 'e list" where
  \<comment> \<open>the order of equal elements is not specified by the C standard; the tables have none\<close>
  "qsort cmp xs = foldr (insert_by cmp) xs []"

function search_loop :: "('e \<Rightarrow> int) \<Rightarrow> 'e list \<Rightarrow> int \<Rightarrow> int \<Rightarrow> 'e option" where
  \<comment> \<open>the loop with its test at the end: \<open>l\<close> and \<open>h\<close> are the ends of the part searched\<close>
  "search_loop cmp tab l h =
     (let i = (h + l) div 2; r = cmp (tab ! nat i)
      in if r < 0 then (if i - 1 < l then None else search_loop cmp tab l (i - 1))
         else if 0 < r then (if h < i + 1 then None else search_loop cmp tab (i + 1) h)
         else Some (tab ! nat i))"
  by pat_completeness auto
termination
  by (relation "measure (\<lambda>(cmp, tab, l, h). nat (h - l + 1))") auto

declare search_loop.simps [simp del]

section \<open>Order\<close>

lemma strcmp_0 [simp]: "strcmp a b = 0 \<longleftrightarrow> a = b"
  by (induction a b rule: strcmp.induct) auto

lemma strcmp_swap: "0 < strcmp a b \<longleftrightarrow> strcmp b a < 0"
  by (induction a b rule: strcmp.induct) auto

lemma strcmp_trans: "strcmp a b < 0 \<Longrightarrow> strcmp b c < 0 \<Longrightarrow> strcmp a c < 0"
proof (induction a c arbitrary: b rule: strcmp.induct)
  case (4 x s z t)
  then obtain y u where "b = y # u" by (cases b) auto
  with 4 show ?case by (auto split: if_splits)
next
  case (1)
  then show ?case by (cases b) auto
next
  case (3 x s)
  then show ?case by (cases b) auto
qed auto

lemma set_insert_by [simp]: "set (insert_by cmp x ys) = insert x (set ys)"
  by (induction ys) auto

lemma set_qsort [simp]: "set (qsort cmp xs) = set xs"
  by (induction xs) (simp_all add: qsort_def)

lemma length_insert_by [simp]: "length (insert_by cmp x ys) = Suc (length ys)"
  by (induction ys) auto

lemma length_qsort [simp]: "length (qsort cmp xs) = length xs"
  by (induction xs) (simp_all add: qsort_def)

definition by_key :: "('e \<Rightarrow> string) \<Rightarrow> 'e \<Rightarrow> 'e \<Rightarrow> int" where
  "by_key k a b = strcmp (k a) (k b)"

lemma sorted_insert_by:
  assumes "sorted_wrt (\<lambda>a b. strcmp (k a) (k b) < 0) ys" "k x \<notin> k ` set ys"
  shows "sorted_wrt (\<lambda>a b. strcmp (k a) (k b) < 0) (insert_by (by_key k) x ys)"
  using assms
proof (induction ys)
  case (Cons y ys)
  show ?case
  proof (cases "by_key k x y \<le> 0")
    case True
    with Cons.prems(2) have "strcmp (k x) (k y) < 0"
      using strcmp_0 [of "k x" "k y"] by (auto simp: by_key_def)
    with Cons.prems(1) True show ?thesis by (auto intro: strcmp_trans)
  next
    case False
    then have "strcmp (k y) (k x) < 0" by (simp add: by_key_def flip: strcmp_swap)
    with Cons False show ?thesis by auto
  qed
qed simp

lemma sorted_qsort:
  "distinct (map k xs) \<Longrightarrow> sorted_wrt (\<lambda>a b. strcmp (k a) (k b) < 0) (qsort (by_key k) xs)"
proof (induction xs)
  case (Cons x xs)
  then have "sorted_wrt (\<lambda>a b. strcmp (k a) (k b) < 0) (qsort (by_key k) xs)" by simp
  from sorted_insert_by [OF this, of x] Cons.prems show ?case
    using set_qsort [of "by_key k" xs] by (simp add: qsort_def)
qed (simp add: qsort_def)

section \<open>Binary search\<close>

locale ordered_table =
  fixes cmp :: "'e \<Rightarrow> int" and tab :: "'e list"
  assumes low: "i \<le> j \<Longrightarrow> j < length tab \<Longrightarrow> cmp (tab ! i) < 0 \<Longrightarrow> cmp (tab ! j) < 0"
    and high: "i \<le> j \<Longrightarrow> j < length tab \<Longrightarrow> 0 < cmp (tab ! j) \<Longrightarrow> 0 < cmp (tab ! i)"
begin

lemma search_range:
  assumes "0 \<le> l" "l \<le> h" "h < int (length tab)"
  shows "case search_loop cmp tab l h of
      None \<Rightarrow> \<forall>i. l \<le> int i \<and> int i \<le> h \<longrightarrow> cmp (tab ! i) \<noteq> 0
    | Some e \<Rightarrow> e \<in> set tab \<and> cmp e = 0"
  using assms
proof (induction "nat (h - l + 1)" arbitrary: l h rule: less_induct)
  case less
  define m where "m = (h + l) div 2"
  have m: "l \<le> m" "m \<le> h" using less.prems by (auto simp: m_def)
  then have i: "nat m < length tab" "int (nat m) = m" using less.prems by simp_all
  have e: "search_loop cmp tab l h =
      (if cmp (tab ! nat m) < 0 then (if m - 1 < l then None else search_loop cmp tab l (m - 1))
       else if 0 < cmp (tab ! nat m) then (if h < m + 1 then None else search_loop cmp tab (m + 1) h)
       else Some (tab ! nat m))"
    by (subst search_loop.simps) (simp add: Let_def m_def)
  show ?case
  proof (cases "cmp (tab ! nat m)" "0 :: int" rule: linorder_cases)
    case lt: less
    have up: "cmp (tab ! k) \<noteq> 0" if "m \<le> int k" "int k \<le> h" for k
      using low [of "nat m" k] lt that less.prems by (simp add: nat_le_iff)
    show ?thesis
    proof (cases "m - 1 < l")
      case True
      with lt up m show ?thesis unfolding e by auto
    next
      case False
      then have "l \<le> m - 1" "m - 1 < int (length tab)" using i by simp_all
      from less.hyps [OF _ less.prems(1) this] m
      have "case search_loop cmp tab l (m - 1) of
          None \<Rightarrow> \<forall>i. l \<le> int i \<and> int i \<le> m - 1 \<longrightarrow> cmp (tab ! i) \<noteq> 0
        | Some e \<Rightarrow> e \<in> set tab \<and> cmp e = 0" by simp
      with False lt up show ?thesis
        unfolding e by (auto split: option.splits) (metis le_less_linear zle_diff1_eq zless_imp_add1_zle)
    qed
  next
    case equal
    with i show ?thesis unfolding e by simp
  next
    case gt: greater
    have down: "cmp (tab ! k) \<noteq> 0" if "int k \<le> m" for k
      using high [of k "nat m"] gt that i by (simp add: le_nat_iff)
    show ?thesis
    proof (cases "h < m + 1")
      case True
      with gt down m show ?thesis unfolding e by auto
    next
      case False
      then have "m + 1 \<le> h" "0 \<le> m + 1" using m less.prems by simp_all
      from less.hyps [OF _ this(2,1) less.prems(3)] m
      have "case search_loop cmp tab (m + 1) h of
          None \<Rightarrow> \<forall>i. m + 1 \<le> int i \<and> int i \<le> h \<longrightarrow> cmp (tab ! i) \<noteq> 0
        | Some e \<Rightarrow> e \<in> set tab \<and> cmp e = 0" by simp
      with False gt down show ?thesis
        unfolding e by (auto split: option.splits) (metis le_less_linear zle_diff1_eq zless_imp_add1_zle)
    qed
  qed
qed

lemma search_all:
  assumes "tab \<noteq> []"
  shows "case search_loop cmp tab 0 (int (length tab) - 1) of
      None \<Rightarrow> \<forall>e\<in>set tab. cmp e \<noteq> 0 | Some e \<Rightarrow> e \<in> set tab \<and> cmp e = 0"
proof -
  have "0 < length tab" using assms by simp
  then have "0 \<le> int (length tab) - 1" "int (length tab) - 1 < int (length tab)" by linarith+
  from search_range [OF order.refl this] show ?thesis
    by (auto simp: in_set_conv_nth split: option.splits)
qed

lemma search_finds: "e \<in> set tab \<Longrightarrow> cmp e = 0 \<Longrightarrow> \<exists>e'\<in>set tab. cmp e' = 0 \<and>
    search_loop cmp tab 0 (int (length tab) - 1) = Some e'"
  using search_all by (cases "search_loop cmp tab 0 (int (length tab) - 1)") force+

end

lemma ordered_by_key:
  assumes "distinct (map k tab)"
  shows "ordered_table (\<lambda>e. strcmp s (k e)) (qsort (by_key k) tab)"
proof
  note s = sorted_qsort [OF assms]
  fix i j assume ij: "i \<le> j" "j < length (qsort (by_key k) tab)"
  then have "i = j \<or> strcmp (k (qsort (by_key k) tab ! i)) (k (qsort (by_key k) tab ! j)) < 0"
    using sorted_wrt_nth_less [OF s, of i j] by fastforce
  then show "strcmp s (k (qsort (by_key k) tab ! i)) < 0 \<Longrightarrow> strcmp s (k (qsort (by_key k) tab ! j)) < 0"
    "0 < strcmp s (k (qsort (by_key k) tab ! j)) \<Longrightarrow> 0 < strcmp s (k (qsort (by_key k) tab ! i))"
    by (auto simp: strcmp_swap intro: strcmp_trans)
qed

end
