(* ===== verification/Th_Mime.thy ===== *)
theory Th_Mime
  imports Th_Search Th_Parse
begin

text \<open>
  The MIME type of a file name: \<open>init_mime\<close> and \<open>figure_mime\<close> of
  \<open>src/others/thttpd-2.29/libhttpd.c\<close>. The two tables come from headers that the build generates; they are
  parameters.
\<close>

section \<open>The tables\<close>

record mime_entry =
  ext :: string  \<comment> \<open>\<open>ext_len\<close> is its length\<close>
  val :: string

record mime_tables =
  enc_tab :: "mime_entry list"
  typ_tab :: "mime_entry list"

definition ext_compare :: "mime_entry \<Rightarrow> mime_entry \<Rightarrow> int" where
  "ext_compare m1 m2 = strcmp (ext m1) (ext m2)"

definition init_mime :: "mime_tables \<Rightarrow> mime_tables" where
  "init_mime t = t\<lparr>enc_tab := qsort ext_compare (enc_tab t), typ_tab := qsort ext_compare (typ_tab t)\<rparr>"

section \<open>Looking up\<close>

definition default_type :: string where
  "default_type = ''text/plain; charset=%s''"

fun find_enc :: "mime_entry list \<Rightarrow> string \<Rightarrow> nat \<Rightarrow> nat option" where
  \<comment> \<open>the linear search, from index \<open>i\<close>\<close>
  "find_enc [] e i = None"
| "find_enc (m # ms) e i =
     (if length e = length (ext m) \<and> strncasecmp e (ext m) (length e) = 0 then Some i
      else find_enc ms e (i + 1))"

function peel :: "mime_entry list \<Rightarrow> string \<Rightarrow> nat list \<Rightarrow> string option \<times> nat list" where
  \<comment> \<open>the name up to \<open>prev_dot\<close>; the extension that is no encoding, and \<open>me_indexes\<close>\<close>
  "peel tab p idx =
     (case strrchr (CHR ''.'') p of
        None \<Rightarrow> (None, idx)
      | Some s \<Rightarrow>
          (case find_enc tab (tl s) 0 of
             None \<Rightarrow> (Some (tl s), idx)
           | Some i \<Rightarrow> peel tab (take (length p - length s) p) (if length idx < 100 then idx @ [i] else idx)))"
  by pat_completeness auto
termination
  by (relation "measure (\<lambda>(tab, p, idx). length p)") (auto dest!: strrchr_SomeD)

declare peel.simps [simp del]

definition ext_order :: "string \<Rightarrow> mime_entry \<Rightarrow> int" where
  \<comment> \<open>the direction the binary search takes\<close>
  "ext_order e m =
     (let r = strncasecmp e (ext m) (length e) in if r \<noteq> 0 then r else int (length e) - int (length (ext m)))"

definition find_type :: "mime_entry list \<Rightarrow> string \<Rightarrow> string" where
  "find_type tab e =
     (if tab = [] then default_type
      else (case search_loop (ext_order e) tab 0 (int (length tab) - 1) of
              None \<Rightarrow> default_type | Some m \<Rightarrow> val m))"

fun join_encodings :: "string list \<Rightarrow> strbuf \<Rightarrow> strbuf option" where
  "join_encodings [] b = Some b"
| "join_encodings (v # vs) b =
     (case strcpy (httpd_realloc_str (length (str b) + length v + 1) b)
             ((if str b \<noteq> [] then str b @ '','' else str b) @ v) of
        None \<Rightarrow> None | Some b1 \<Rightarrow> join_encodings vs b1)"

definition figure_mime :: "mime_tables \<Rightarrow> http_conn \<Rightarrow> http_conn option" where
  \<comment> \<open>\<open>None\<close>: a buffer is overrun\<close>
  "figure_mime t hc =
     (let (e, idx) = peel (enc_tab t) (str (expnfilename hc)) [];
          typ = (case e of None \<Rightarrow> default_type | Some e \<Rightarrow> find_type (typ_tab t) e)
      in case join_encodings (map (\<lambda>i. val (enc_tab t ! i)) (rev idx)) ((encodings hc)\<lparr>str := []\<rparr>) of
           None \<Rightarrow> None | Some b \<Rightarrow> Some (hc\<lparr>content_type := typ, encodings := b\<rparr>))"

section \<open>The search finds the entry\<close>

lemma strcmp_same [simp]: "strcmp a a = 0"
  by (simp only: strcmp_0)

lemma strcmp_take: "strcmp a (take (length a) b) = 0 \<Longrightarrow> length a < length b \<Longrightarrow> strcmp a b < 0"
  by (induction a b rule: strcmp.induct) (auto split: if_splits)

lemma strcmp_take_sgn: "strcmp a (take (length a) b) \<noteq> 0 \<Longrightarrow> sgn (strcmp a (take (length a) b)) = sgn (strcmp a b)"
  by (induction a b rule: strcmp.induct) auto

definition lower_case :: "mime_entry \<Rightarrow> bool" where
  "lower_case m \<longleftrightarrow> map tolower (ext m) = ext m"

lemma ext_order_sgn:
  assumes "lower_case m"
  shows "sgn (ext_order e m) = sgn (strcmp (map tolower e) (ext m))"
proof -
  let ?a = "map tolower e"
  have r: "strncasecmp e (ext m) (length e) = strcmp ?a (take (length ?a) (ext m))"
    using assms by (simp add: strncasecmp_def lower_case_def flip: take_map)
  show ?thesis
  proof (cases "strcmp ?a (take (length ?a) (ext m)) = 0")
    case False
    with strcmp_take_sgn [OF False] show ?thesis by (simp add: ext_order_def r)
  next
    case True
    then have "?a = take (length ?a) (ext m)" by (simp only: strcmp_0)
    then have l: "length e \<le> length (ext m)" by (metis length_map length_take min.cobounded1 min.commute)
    show ?thesis
    proof (cases "length e = length (ext m)")
      case True
      with \<open>?a = _\<close> have "?a = ext m" by simp
      then have "ext_order e m = 0" using r True by (simp add: ext_order_def)
      then show ?thesis using \<open>?a = ext m\<close> by simp
    next
      case False
      with l strcmp_take [OF True] True show ?thesis by (simp add: ext_order_def r sgn_if)
    qed
  qed
qed

lemma ordered_types:
  assumes "distinct (map ext tab)" "list_all lower_case tab"
  shows "ordered_table (ext_order e) (qsort ext_compare tab)"
proof
  have k: "ext_compare = by_key ext" by (simp add: fun_eq_iff ext_compare_def by_key_def)
  fix i j assume ij: "i \<le> j" "j < length (qsort ext_compare tab)"
  then have "i < length (qsort ext_compare tab)" by simp
  with ij(2) have "qsort ext_compare tab ! i \<in> set tab" "qsort ext_compare tab ! j \<in> set tab"
    using nth_mem set_qsort by metis+
  then have "lower_case (qsort ext_compare tab ! i)" "lower_case (qsort ext_compare tab ! j)"
    using assms(2) by (simp_all add: list_all_iff)
  then have s: "sgn (ext_order e (qsort ext_compare tab ! i)) = sgn (strcmp (map tolower e) (ext (qsort ext_compare tab ! i)))"
    "sgn (ext_order e (qsort ext_compare tab ! j)) = sgn (strcmp (map tolower e) (ext (qsort ext_compare tab ! j)))"
    by (simp_all add: ext_order_sgn)
  note o = ordered_table.low [OF ordered_by_key [OF assms(1)] ij(1)] ordered_table.high [OF ordered_by_key [OF assms(1)] ij(1)]
  show "ext_order e (qsort ext_compare tab ! i) < 0 \<Longrightarrow> ext_order e (qsort ext_compare tab ! j) < 0"
    using o(1) ij(2) s unfolding k by (metis sgn_less)
  show "0 < ext_order e (qsort ext_compare tab ! j) \<Longrightarrow> 0 < ext_order e (qsort ext_compare tab ! i)"
    using o(2) ij(2) s unfolding k by (metis sgn_greater)
qed

lemma find_type_map_of:
  assumes "distinct (map ext tab)" "list_all lower_case tab"
  shows "find_type (qsort ext_compare tab) e =
    (case map_of (map (\<lambda>m. (ext m, val m)) tab) (map tolower e) of None \<Rightarrow> default_type | Some v \<Rightarrow> v)"
proof (cases "tab = []")
  case True
  then show ?thesis by (simp add: find_type_def qsort_def)
next
  case False
  let ?t = "qsort ext_compare tab" and ?m = "map (\<lambda>m. (ext m, val m)) tab"
  have ne: "?t \<noteq> []" using False length_qsort [of ext_compare tab] by force
  have eq: "ext_order e m = 0 \<longleftrightarrow> ext m = map tolower e" if "m \<in> set tab" for m
    using ext_order_sgn [of m e] assms(2) that by (metis list_all_iff sgn_0_0 strcmp_0)
  note f = ordered_table.search_all [OF ordered_types [OF assms] ne, of e]
  show ?thesis
  proof (cases "search_loop (ext_order e) ?t 0 (int (length ?t) - 1)")
    case None
    with f eq have "\<forall>m\<in>set tab. ext m \<noteq> map tolower e" by auto
    then have "map_of ?m (map tolower e) = None" by (auto simp: map_of_eq_None_iff)
    with None ne show ?thesis by (simp add: find_type_def)
  next
    case (Some m)
    with f eq have m: "m \<in> set tab" "ext m = map tolower e" by auto
    then have "map_of ?m (map tolower e) = Some (val m)"
      using assms(1) by (intro map_of_is_SomeI) (simp add: comp_def, metis (no_types, lifting) image_eqI list.set_map)
    with Some ne show ?thesis by (simp add: find_type_def)
  qed
qed

section \<open>Encodings\<close>

fun commas :: "string list \<Rightarrow> string" where
  "commas [] = []"
| "commas [v] = v"
| "commas (v # w # vs) = v @ '','' @ commas (w # vs)"

lemma commas_snoc: "vs \<noteq> [] \<Longrightarrow> commas (vs @ [v]) = commas vs @ '','' @ v"
  by (induction vs rule: commas.induct) auto

lemma join_encodings_commas:
  assumes "list_all (\<lambda>v. v \<noteq> []) vs" "list_all (\<lambda>v. v \<noteq> []) ds"
    "str b = commas ds"
  shows "\<exists>b'. join_encodings vs b = Some b' \<and> str b' = commas (ds @ vs)"
  using assms
proof (induction vs arbitrary: b ds)
  case (Cons v vs)
  let ?b = "httpd_realloc_str (length (str b) + length v + 1) b"
  let ?s = "(if str b \<noteq> [] then str b @ '','' else str b) @ v"
  have s: "?s = commas (ds @ [v])"
  proof (cases ds)
    case Nil
    then show ?thesis using Cons.prems by simp
  next
    case (Cons d ds')
    then have "commas ds \<noteq> []" using \<open>list_all (\<lambda>v. v \<noteq> []) ds\<close> by (cases ds') auto
    then show ?thesis using Cons.prems(3) commas_snoc [of ds v] Cons by simp
  qed
  have "strcpy ?b ?s = Some (?b\<lparr>str := ?s\<rparr>)" by (intro strcpy_realloc) simp
  moreover from Cons.IH [of "ds @ [v]" "?b\<lparr>str := ?s\<rparr>"] Cons.prems s
  obtain b' where "join_encodings vs (?b\<lparr>str := ?s\<rparr>) = Some b'" "str b' = commas (ds @ v # vs)" by auto
  ultimately show ?case by simp
qed auto


section \<open>Peeling extensions\<close>

definition encoding :: "mime_entry list \<Rightarrow> string \<Rightarrow> mime_entry option" where
  "encoding tab e = find (\<lambda>m. map tolower (ext m) = map tolower e) tab"

lemma same_ext: "length e = length x \<and> strncasecmp e x (length e) = 0 \<longleftrightarrow> map tolower x = map tolower e"
proof -
  have "length e = length x \<Longrightarrow> strncasecmp e x (length e) = strcmp (map tolower e) (map tolower x)"
    by (simp add: strncasecmp_def)
  then show ?thesis by (metis map_eq_imp_length_eq strcmp_0)
qed

lemma find_enc_encoding:
  "case find_enc tab e k of
     None \<Rightarrow> encoding tab e = None
   | Some i \<Rightarrow> k \<le> i \<and> i < k + length tab \<and> encoding tab e = Some (tab ! (i - k))"
proof (induction tab arbitrary: k)
  case (Cons m ms)
  show ?case
  proof (cases "map tolower (ext m) = map tolower e")
    case True
    then have "length e = length (ext m) \<and> strncasecmp e (ext m) (length e) = 0" by (simp only: same_ext)
    then have "find_enc (m # ms) e k = Some k" unfolding find_enc.simps by (rule if_P)
    with True show ?thesis by (simp add: encoding_def)
  next
    case False
    then have "find_enc (m # ms) e k = find_enc ms e (k + 1)" using same_ext [of e "ext m"] by auto
    with False Cons.IH [of "k + 1"] show ?thesis
      by (auto simp: encoding_def nth_Cons' split: option.splits)
  qed
qed (simp add: encoding_def)

definition dotted :: "string list \<Rightarrow> string" where
  "dotted xs = concat (map (\<lambda>x. CHR ''.'' # x) xs)"

lemma peel_dotted:
  assumes "list_all (\<lambda>x. CHR ''.'' \<notin> set x \<and> encoding tab x \<noteq> None) xs" "length idx + length xs \<le> 100"
  shows "\<exists>is. peel tab (p @ dotted xs) idx = peel tab p (idx @ is) \<and>
    map (\<lambda>i. tab ! i) (rev is) = map (\<lambda>x. the (encoding tab x)) xs"
  using assms
proof (induction xs arbitrary: idx rule: rev_induct)
  case Nil
  then show ?case by (intro exI [of _ "[]"]) (simp add: dotted_def)
next
  case (snoc x xs)
  obtain i where i: "find_enc tab x 0 = Some i" "encoding tab x = Some (tab ! i)"
    using find_enc_encoding [of tab x 0] snoc.prems(1) by (auto split: option.splits)
  have s: "strrchr (CHR ''.'') (p @ dotted (xs @ [x])) = Some (CHR ''.'' # x)"
    using snoc.prems(1) strrchr_last [of "CHR ''.''" x "p @ dotted xs"] by (simp add: dotted_def)
  have "peel tab (p @ dotted (xs @ [x])) idx = peel tab (p @ dotted xs) (idx @ [i])"
    using snoc.prems(2) by (subst peel.simps) (simp add: s i, simp add: dotted_def)
  moreover from snoc.IH [of "idx @ [i]"] snoc.prems obtain "is" where
    "peel tab (p @ dotted xs) (idx @ [i]) = peel tab p ((idx @ [i]) @ is)"
    "map (\<lambda>i. tab ! i) (rev is) = map (\<lambda>x. the (encoding tab x)) xs" by auto
  ultimately show ?case using i by (intro exI [of _ "i # is"]) simp
qed

text \<open>The name of a file determines its type as the tables say: behind a stem come an extension and any
  encodings (at most 100). The type is the entry of the extension, in lower case, found by binary search, or plain text;
  the encodings are listed in the order in which they were applied.\<close>

theorem figure_mime_tables:
  assumes "distinct (map ext (typ_tab t))" "list_all lower_case (typ_tab t)"
    "list_all (\<lambda>m. val m \<noteq> []) (enc_tab t)"
    "CHR ''.'' \<notin> set e" "encoding (enc_tab (init_mime t)) e = None"
    "list_all (\<lambda>x. CHR ''.'' \<notin> set x \<and> encoding (enc_tab (init_mime t)) x \<noteq> None) xs" "length xs \<le> 100"
    "str (expnfilename hc) = stem @ dotted (e # xs)"
  shows "\<exists>hc'. figure_mime (init_mime t) hc = Some hc' \<and>
    content_type hc' = (case map_of (map (\<lambda>m. (ext m, val m)) (typ_tab t)) (map tolower e) of
                          None \<Rightarrow> default_type | Some v \<Rightarrow> v) \<and>
    str (encodings hc') = commas (map (\<lambda>x. val (the (encoding (enc_tab (init_mime t)) x))) xs)"
proof -
  let ?tab = "enc_tab (init_mime t)"
  have n: "str (expnfilename hc) = (stem @ dotted [e]) @ dotted xs" using assms(8) by (simp add: dotted_def)
  obtain "is" where p: "peel ?tab (str (expnfilename hc)) [] = peel ?tab (stem @ dotted [e]) is"
    "map (\<lambda>i. ?tab ! i) (rev is) = map (\<lambda>x. the (encoding ?tab x)) xs"
    using peel_dotted [OF assms(6), of "[]" "stem @ dotted [e]"] assms(7) unfolding n by auto
  have "find_enc ?tab e 0 = None" using find_enc_encoding [of ?tab e 0] assms(5) by (auto split: option.splits)
  then have pe: "peel ?tab (stem @ dotted [e]) is = (Some e, is)"
    using strrchr_last [OF assms(4), of stem] by (subst peel.simps) (simp add: dotted_def)
  have v: "map (\<lambda>i. val (?tab ! i)) (rev is) = map (\<lambda>x. val (the (encoding ?tab x))) xs"
    using arg_cong [OF p(2), of "map val"] by (simp add: comp_def)
  have "list_all (\<lambda>v. v \<noteq> []) (map (\<lambda>x. val (the (encoding ?tab x))) xs)"
  proof -
    have "val (the (encoding ?tab x)) \<noteq> []" if "x \<in> set xs" for x
    proof -
      have "encoding ?tab x \<noteq> None" using assms(6) that by (simp add: list_all_iff)
      then obtain m where m: "encoding ?tab x = Some m" by blast
      then have "m \<in> set ?tab" unfolding encoding_def by (auto simp: find_Some_iff)
      then show ?thesis using m assms(3) by (simp add: init_mime_def list_all_iff)
    qed
    then show ?thesis by (simp add: list_all_iff)
  qed
  from join_encodings_commas [OF this, of "[]" "(encodings hc)\<lparr>str := []\<rparr>"] obtain b where
    b: "join_encodings (map (\<lambda>x. val (the (encoding ?tab x))) xs) ((encodings hc)\<lparr>str := []\<rparr>) = Some b"
    "str b = commas (map (\<lambda>x. val (the (encoding ?tab x))) xs)" by auto
  show ?thesis
    using b find_type_map_of [OF assms(1,2), of e]
    by (simp add: figure_mime_def p(1) pe v) (simp add: init_mime_def)
qed

definition small_tables :: mime_tables where
  "small_tables = \<lparr>enc_tab = [\<lparr>ext = ''gz'', val = ''gzip''\<rparr>, \<lparr>ext = ''Z'', val = ''compress''\<rparr>],
     typ_tab = [\<lparr>ext = ''txt'', val = ''text/plain''\<rparr>, \<lparr>ext = ''html'', val = ''text/html; charset=%s''\<rparr>,
                \<lparr>ext = ''tar'', val = ''application/x-tar''\<rparr>]\<rparr>"

theorem figure_mime_tables_witness:
  "\<exists>hc'. figure_mime (init_mime small_tables) (idle_conn\<lparr>expnfilename := \<lparr>str = ''a.b.TAR.gz.z'', maxsize = 200\<rparr>\<rparr>) = Some hc' \<and>
    content_type hc' = ''application/x-tar'' \<and> str (encodings hc') = ''gzip,compress''"
proof -
  let ?hc = "idle_conn\<lparr>expnfilename := \<lparr>str = ''a.b.TAR.gz.z'', maxsize = 200\<rparr>\<rparr>"
  have a: "distinct (map ext (typ_tab small_tables))" "list_all lower_case (typ_tab small_tables)"
    "list_all (\<lambda>m. val m \<noteq> []) (enc_tab small_tables)" "CHR ''.'' \<notin> set ''TAR''"
    "encoding (enc_tab (init_mime small_tables)) ''TAR'' = None"
    "list_all (\<lambda>x. CHR ''.'' \<notin> set x \<and> encoding (enc_tab (init_mime small_tables)) x \<noteq> None) [''gz'', ''z'']"
    "length [''gz'', ''z''] \<le> (100 :: nat)" "str (expnfilename ?hc) = ''a.b'' @ dotted (''TAR'' # [''gz'', ''z''])"
    by code_simp+
  have "(case map_of (map (\<lambda>m. (ext m, val m)) (typ_tab small_tables)) (map tolower ''TAR'') of
      None \<Rightarrow> default_type | Some v \<Rightarrow> v) = ''application/x-tar''"
    "commas (map (\<lambda>x. val (the (encoding (enc_tab (init_mime small_tables)) x))) [''gz'', ''z'']) = ''gzip,compress''"
    by code_simp+
  with figure_mime_tables [OF a] show ?thesis by metis
qed

end
