(* ===== verification/Th_Date.thy ===== *)
theory Th_Date
  imports Th_Search "HOL-Library.Signed_Division"
begin

text \<open>
  The date parser \<open>src/others/thttpd-2.29/tdate_parse.c\<close>, with \<open>sscanf\<close> for the formats it uses, and
  the dates that the server itself prints with \<open>gmtime\<close> and \<open>strftime\<close>. Parsing a printed date gives
  its time back, up to the year 2100.
\<close>

section \<open>Names of days and months\<close>

type_synonym strlong = "string \<times> int"

definition pound_case :: "string \<Rightarrow> string" where
  "pound_case s = map tolower s"

definition strlong_compare :: "strlong \<Rightarrow> strlong \<Rightarrow> int" where
  "strlong_compare v1 v2 = strcmp (fst v1) (fst v2)"

definition strlong_search :: "string \<Rightarrow> strlong list \<Rightarrow> int option" where
  \<comment> \<open>\<open>None\<close>: the return value 0\<close>
  "strlong_search s tab =
     (case search_loop (\<lambda>e. strcmp s (fst e)) tab 0 (int (length tab) - 1) of
        None \<Rightarrow> None | Some e \<Rightarrow> Some (snd e))"

definition wday_tab :: "strlong list" where
  "wday_tab =
    [(''sun'', 0), (''sunday'', 0), (''mon'', 1), (''monday'', 1), (''tue'', 2), (''tuesday'', 2),
     (''wed'', 3), (''wednesday'', 3), (''thu'', 4), (''thursday'', 4), (''fri'', 5), (''friday'', 5),
     (''sat'', 6), (''saturday'', 6)]"

definition mon_tab :: "strlong list" where
  "mon_tab =
    [(''jan'', 0), (''january'', 0), (''feb'', 1), (''february'', 1), (''mar'', 2), (''march'', 2),
     (''apr'', 3), (''april'', 3), (''may'', 4), (''jun'', 5), (''june'', 5), (''jul'', 6), (''july'', 6),
     (''aug'', 7), (''august'', 7), (''sep'', 8), (''september'', 8), (''oct'', 9), (''october'', 9),
     (''nov'', 10), (''november'', 10), (''dec'', 11), (''december'', 11)]"

definition scan_wday :: "string \<Rightarrow> int option" where
  "scan_wday s = strlong_search (pound_case s) (qsort strlong_compare wday_tab)"

definition scan_mon :: "string \<Rightarrow> int option" where
  "scan_mon s = strlong_search (pound_case s) (qsort strlong_compare mon_tab)"

section \<open>sscanf\<close>

datatype conv =
    Dec  \<comment> \<open>\<open>%d\<close>\<close>
  | Alpha  \<comment> \<open>\<open>%400[a-zA-Z]\<close>\<close>
  | Blank  \<comment> \<open>white space of the format\<close>
  | Lit char

definition alpha :: "char \<Rightarrow> bool" where
  "alpha c \<longleftrightarrow> (65 \<le> ord c \<and> ord c \<le> 90) \<or> (97 \<le> ord c \<and> ord c \<le> 122)"

definition scan_dec :: "string \<Rightarrow> (int \<times> string) option" where
  \<comment> \<open>the value stored in an \<open>int\<close>, and the rest of the input\<close>
  "scan_dec s =
     (let t = dropWhile isspace s;
          u = (case t of [] \<Rightarrow> [] | c # r \<Rightarrow> if c = CHR ''-'' \<or> c = CHR ''+'' then r else t)
      in if u = [] \<or> \<not> isdigit (hd u) then None
         else Some (atoi t, dropWhile isdigit u))"

definition scan_alpha :: "string \<Rightarrow> (string \<times> string) option" where
  "scan_alpha s =
     (let w = takeWhile alpha (take 400 s) in if w = [] then None else Some (w, drop (length w) s))"

fun sscanf :: "string \<Rightarrow> conv list \<Rightarrow> int list \<times> string list" where
  \<comment> \<open>the conversions that are stored before the first failure, in their order\<close>
  "sscanf s [] = ([], [])"
| "sscanf s (Dec # f) =
     (case scan_dec s of
        None \<Rightarrow> ([], []) | Some (n, r) \<Rightarrow> (case sscanf r f of (ns, ws) \<Rightarrow> (n # ns, ws)))"
| "sscanf s (Alpha # f) =
     (case scan_alpha s of
        None \<Rightarrow> ([], []) | Some (w, r) \<Rightarrow> (case sscanf r f of (ns, ws) \<Rightarrow> (ns, w # ws)))"
| "sscanf s (Blank # f) = sscanf (dropWhile isspace s) f"
| "sscanf s (Lit c # f) = (case s of [] \<Rightarrow> ([], []) | x # r \<Rightarrow> if x = c then sscanf r f else ([], []))"

section \<open>Times\<close>

record tm =
  tm_sec :: int
  tm_min :: int
  tm_hour :: int
  tm_mday :: int
  tm_mon :: int
  tm_year :: int

definition is_leap :: "int \<Rightarrow> bool" where
  "is_leap year = (if year smod 400 \<noteq> 0 then (if year smod 100 \<noteq> 0 then year smod 4 = 0 else False) else True)"

definition monthtab :: "int list" where
  "monthtab = [0, 31, 59, 90, 120, 151, 181, 212, 243, 273, 304, 334]"

definition tm_to_time :: "tm \<Rightarrow> int" where
  "tm_to_time t =
     (let d = (tm_year t - 70) * 365 + (tm_year t - 69) sdiv 4 + monthtab ! nat (tm_mon t);
          d = (if 2 \<le> tm_mon t \<and> is_leap (tm_year t + 1900) then d + 1 else d) + tm_mday t - 1
      in ((d * 24 + tm_hour t) * 60 + tm_min t) * 60 + tm_sec t)"

section \<open>The parser\<close>

definition hms :: "conv list" where
  "hms = [Dec, Lit (CHR '':''), Dec, Lit (CHR '':''), Dec]"

definition gmt :: "conv list" where
  "gmt = [Blank, Lit (CHR ''G''), Lit (CHR ''M''), Lit (CHR ''T'')]"

definition dash :: conv where "dash = Lit (CHR ''-'')"
definition comma :: conv where "comma = Lit (CHR '','')"

definition dated :: "string \<Rightarrow> int \<Rightarrow> int \<Rightarrow> int \<Rightarrow> int \<Rightarrow> int \<Rightarrow> tm option" where
  "dated mon d y h mi s =
     (case scan_mon mon of
        None \<Rightarrow> None
      | Some m \<Rightarrow> Some \<lparr>tm_sec = s, tm_min = mi, tm_hour = h, tm_mday = d, tm_mon = m, tm_year = y\<rparr>)"

definition date_time :: "conv list \<Rightarrow> string \<Rightarrow> tm option" where
  \<comment> \<open>day, month, year, time\<close>
  "date_time f cp =
     (case sscanf cp f of ([d, y, h, mi, s], [mon]) \<Rightarrow> dated mon d y h mi s | _ \<Rightarrow> None)"

definition time_date :: "conv list \<Rightarrow> string \<Rightarrow> tm option" where
  "time_date f cp =
     (case sscanf cp f of ([h, mi, s, d, y], [mon]) \<Rightarrow> dated mon d y h mi s | _ \<Rightarrow> None)"

definition wday_date_time :: "conv list \<Rightarrow> string \<Rightarrow> tm option" where
  "wday_date_time f cp =
     (case sscanf cp f of
        ([d, y, h, mi, s], [wday, mon]) \<Rightarrow> if scan_wday wday = None then None else dated mon d y h mi s
      | _ \<Rightarrow> None)"

definition wday_time_year :: "conv list \<Rightarrow> string \<Rightarrow> tm option" where
  "wday_time_year f cp =
     (case sscanf cp f of
        ([d, h, mi, s, y], [wday, mon]) \<Rightarrow> if scan_wday wday = None then None else dated mon d y h mi s
      | _ \<Rightarrow> None)"

fun or_else :: "'a option \<Rightarrow> 'a option \<Rightarrow> 'a option" where
  "or_else None y = y"
| "or_else (Some x) y = Some x"

definition scan_date :: "string \<Rightarrow> tm option" where
  \<comment> \<open>the formats in their order\<close>
  "scan_date cp =
     or_else (date_time ([Dec, dash, Alpha, dash, Dec, Blank] @ hms @ gmt) cp)
    (or_else (date_time ([Dec, Blank, Alpha, Blank, Dec, Blank] @ hms @ gmt) cp)
    (or_else (time_date (hms @ gmt @ [Blank, Dec, dash, Alpha, dash, Dec]) cp)
    (or_else (time_date (hms @ gmt @ [Blank, Dec, Blank, Alpha, Blank, Dec]) cp)
    (or_else (wday_date_time ([Alpha, comma, Blank, Dec, dash, Alpha, dash, Dec, Blank] @ hms @ gmt) cp)
    (or_else (wday_date_time ([Alpha, comma, Blank, Dec, Blank, Alpha, Blank, Dec, Blank] @ hms @ gmt) cp)
             (wday_time_year ([Alpha, Blank, Alpha, Blank, Dec, Blank] @ hms @ gmt @ [Blank, Dec]) cp))))))"

definition full_year :: "int \<Rightarrow> int" where
  "full_year y = (if 1900 < y then y - 1900 else if y < 70 then y + 100 else y)"

definition tdate_parse :: "string \<Rightarrow> int" where
  "tdate_parse s =
     (case scan_date (dropWhile (\<lambda>c. c = CHR '' '' \<or> c = CHR 0x09) s) of
        None \<Rightarrow> -1
      | Some t \<Rightarrow> tm_to_time (t\<lparr>tm_year := full_year (tm_year t)\<rparr>))"

section \<open>gmtime and strftime\<close>

definition year_len :: "nat \<Rightarrow> nat" where
  "year_len y = (if is_leap (int y) then 366 else 365)"

function year_day :: "nat \<Rightarrow> nat \<Rightarrow> nat \<times> nat" where
  \<comment> \<open>year and day of the year, from the year \<open>y\<close> and a number of days from its first\<close>
  "year_day y d = (if d < year_len y then (y, d) else year_day (Suc y) (d - year_len y))"
  by pat_completeness auto
termination by (relation "measure snd") (auto simp: year_len_def)

declare year_day.simps [simp del]

definition month_start :: "nat \<Rightarrow> nat \<Rightarrow> nat" where
  "month_start y m = nat (monthtab ! m) + (if 2 \<le> m \<and> is_leap (int y) then 1 else 0)"

definition month_of :: "nat \<Rightarrow> nat \<Rightarrow> nat" where
  "month_of y d = length (takeWhile (\<lambda>m. month_start y m \<le> d) [1 ..< 12])"

definition two :: "nat \<Rightarrow> string" where
  "two n = (if n < 10 then CHR ''0'' # dec_nat n else dec_nat n)"

definition months :: "string list" where
  "months = [''Jan'', ''Feb'', ''Mar'', ''Apr'', ''May'', ''Jun'', ''Jul'', ''Aug'', ''Sep'', ''Oct'', ''Nov'', ''Dec'']"

definition weekdays :: "string list" where
  "weekdays = [''Sun'', ''Mon'', ''Tue'', ''Wed'', ''Thu'', ''Fri'', ''Sat'']"

definition http_date :: "int \<Rightarrow> string" where
  \<comment> \<open>\<open>strftime\<close> of \<open>gmtime\<close> with the format \<open>"%a, %d %b %Y %H:%M:%S GMT"\<close>; the calendar repeats after
      400 years, which are 146097 days\<close>
  "http_date t =
     (let d = t div 86400; s = nat (t mod 86400); (y, yd) = year_day 1970 (nat (d mod 146097)); m = month_of y yd
      in weekdays ! nat ((d + 4) mod 7) @ '', '' @ two (yd - month_start y m + 1) @ '' '' @ months ! m @
         '' '' @ dec_int (int y + 400 * (d div 146097)) @
         '' '' @ two (s div 3600) @ '':'' @ two (s div 60 mod 60) @ '':'' @ two (s mod 60) @ '' GMT'')"

section \<open>What the tables hold\<close>

lemma strlong_by_key: "strlong_compare = by_key fst"
  by (simp add: fun_eq_iff strlong_compare_def by_key_def)

interpretation days: ordered_table "\<lambda>e. strcmp s (fst e)" "qsort strlong_compare wday_tab" for s
  unfolding strlong_by_key by (rule ordered_by_key) (simp add: wday_tab_def)

interpretation mons: ordered_table "\<lambda>e. strcmp s (fst e)" "qsort strlong_compare mon_tab" for s
  unfolding strlong_by_key by (rule ordered_by_key) (simp add: mon_tab_def)

lemma found_map_of:
  assumes "case search_loop (\<lambda>e. strcmp s (fst e)) (qsort c tab) 0 n of
      None \<Rightarrow> \<forall>e\<in>set (qsort c tab). strcmp s (fst e) \<noteq> 0
    | Some e \<Rightarrow> e \<in> set (qsort c tab) \<and> strcmp s (fst e) = 0" "distinct (map fst tab)"
  shows "(case search_loop (\<lambda>e. strcmp s (fst e)) (qsort c tab) 0 n of None \<Rightarrow> None | Some e \<Rightarrow> Some (snd e)) = map_of tab s"
proof (cases "search_loop (\<lambda>e. strcmp s (fst e)) (qsort c tab) 0 n")
  case None
  with assms(1) have "map_of tab s = None" by (auto simp: map_of_eq_None_iff)
  with None show ?thesis by simp
next
  case (Some e)
  with assms(1) have "(s, snd e) \<in> set tab" by (cases e) simp
  with Some assms(2) show ?thesis by simp
qed

lemma scan_wday_map_of: "scan_wday s = map_of wday_tab (pound_case s)"
proof -
  have "qsort strlong_compare wday_tab \<noteq> []" by (metis length_qsort length_0_conv list.distinct(1) wday_tab_def)
  from found_map_of [OF days.search_all [OF this]] show ?thesis
    by (simp add: scan_wday_def strlong_search_def wday_tab_def)
qed

lemma scan_mon_map_of: "scan_mon s = map_of mon_tab (pound_case s)"
proof -
  have "qsort strlong_compare mon_tab \<noteq> []" by (metis length_qsort length_0_conv list.distinct(1) mon_tab_def)
  from found_map_of [OF mons.search_all [OF this]] show ?thesis
    by (simp add: scan_mon_def strlong_search_def mon_tab_def)
qed

lemma month_names: "m < 12 \<Longrightarrow> scan_mon (months ! m) = Some (int m) \<and> list_all alpha (months ! m) \<and> length (months ! m) = 3"
proof -
  have "list_all (\<lambda>m. map_of mon_tab (pound_case (months ! m)) = Some (int m) \<and> list_all alpha (months ! m) \<and>
      length (months ! m) = 3) [0 ..< 12]" by code_simp
  then show "m < 12 \<Longrightarrow> ?thesis" by (simp add: list_all_iff scan_mon_map_of)
qed

lemma weekday_names: "k < 7 \<Longrightarrow> scan_wday (weekdays ! k) \<noteq> None \<and> list_all alpha (weekdays ! k) \<and> length (weekdays ! k) = 3"
proof -
  have "list_all (\<lambda>m. map_of wday_tab (pound_case (weekdays ! m)) \<noteq> None \<and> list_all alpha (weekdays ! m) \<and>
      length (weekdays ! m) = 3) [0 ..< 7]" by code_simp
  then show "k < 7 \<Longrightarrow> ?thesis" by (simp add: list_all_iff scan_wday_map_of)
qed

section \<open>Reading numbers and words\<close>

definition stops :: "(char \<Rightarrow> bool) \<Rightarrow> string \<Rightarrow> bool" where
  "stops P s = (case s of [] \<Rightarrow> True | c # r \<Rightarrow> \<not> P c)"

lemma stops_simps [simp]: "stops P []" "stops P (c # s) \<longleftrightarrow> \<not> P c"
  by (simp_all add: stops_def)

lemma ord_digit: "n < 10 \<Longrightarrow> ord (chr (48 + n)) = 48 + n"
  by (simp add: ord_chr)

lemma digits_val_dec: "digits_val 10 0 (dec_nat n @ s) = digits_val 10 n s"
proof (induction n arbitrary: s rule: dec_nat.induct)
  case (1 n)
  show ?case
  proof (cases "n < 10")
    case True
    then show ?thesis by (simp add: dec_nat.simps [of n] ord_digit digit_val_def)
  next
    case False
    with "1.IH" [OF False, of "chr (48 + n mod 10) # s"] show ?thesis
      by (simp add: dec_nat.simps [of n] ord_digit digit_val_def)
  qed
qed

lemma digits_val_stops: "stops isdigit s \<Longrightarrow> digits_val 10 n s = n"
  by (cases s) (auto simp: isdigit_def)

lemma isdigit_dec: "list_all isdigit (dec_nat n) \<and> dec_nat n \<noteq> []"
proof (induction n rule: dec_nat.induct)
  case (1 n)
  have "n mod 10 < 10" by simp
  with 1 show ?case by (auto simp: dec_nat.simps [of n] isdigit_def ord_digit)
qed

lemma dropWhile_stops: "list_all P w \<Longrightarrow> stops P s \<Longrightarrow> dropWhile P (w @ s) = s"
  by (induction w) (auto simp: stops_def split: list.splits)

lemma scan_dec_digits:
  assumes "list_all isdigit w" "w \<noteq> []" "digits_val 10 0 (w @ s) = n" "stops isdigit s" "n < 2 ^ 31"
  shows "scan_dec (w @ s) = Some (int n, s)"
proof -
  obtain c r where w: "w = c # r" using assms(2) by (cases w) auto
  with assms(1) have d: "isdigit c" by simp
  then have c: "\<not> isspace c" "c \<noteq> CHR ''-''" "c \<noteq> CHR ''+''" by (auto simp: isspace_def isdigit_def ord_def)
  have "to_int32 (max (- (2 ^ 63)) (min (2 ^ 63 - 1) (int n))) = int n"
    using assms(5) by (simp add: to_int32_def signed_take_bit_int_eq_self)
  then have "atoi (w @ s) = int n"
    using assms(3) w c by (simp add: atoi_def strtol_raw_def)
  with w c d dropWhile_stops [OF assms(1,4)] show ?thesis by (simp add: scan_dec_def)
qed

lemma scan_dec_nat: "n < 2 ^ 31 \<Longrightarrow> stops isdigit s \<Longrightarrow> scan_dec (dec_nat n @ s) = Some (int n, s)"
  using isdigit_dec [of n] by (intro scan_dec_digits) (simp_all add: digits_val_dec digits_val_stops)

lemma scan_dec_two: "n < 2 ^ 31 \<Longrightarrow> stops isdigit s \<Longrightarrow> scan_dec (two n @ s) = Some (int n, s)"
proof -
  assume n: "n < 2 ^ 31" "stops isdigit s"
  have z: "isdigit (CHR ''0'')" "digit_val (CHR ''0'') = 0" by (simp_all add: isdigit_def digit_val_def ord_def)
  show ?thesis
  proof (cases "n < 10")
    case True
    have "digits_val 10 0 (CHR ''0'' # dec_nat n @ s) = digits_val 10 0 (dec_nat n @ s)"
      using z by (simp add: isdigit_def)
    then have "scan_dec ((CHR ''0'' # dec_nat n) @ s) = Some (int n, s)"
      using n z isdigit_dec [of n] by (intro scan_dec_digits) (simp_all add: digits_val_dec digits_val_stops)
    with True show ?thesis by (simp add: two_def)
  next
    case False
    with n show ?thesis by (simp add: two_def scan_dec_nat)
  qed
qed

lemma scan_alpha_word:
  "list_all alpha w \<Longrightarrow> w \<noteq> [] \<Longrightarrow> length w < 400 \<Longrightarrow> stops alpha s \<Longrightarrow> scan_alpha (w @ s) = Some (w, s)"
proof -
  assume a: "list_all alpha w" "w \<noteq> []" "length w < 400" "stops alpha s"
  have "stops alpha (take (400 - length w) s)" using a(4) by (cases s; cases "400 - length w") auto
  then have "takeWhile alpha (take (400 - length w) s) = []" by (cases "take (400 - length w) s") auto
  then have "takeWhile alpha (take 400 (w @ s)) = w"
    using a(1,3) by (simp add: takeWhile_append list_all_iff)
  with a(2) show ?thesis by (simp add: scan_alpha_def)
qed

section \<open>Days and years\<close>

definition days_before :: "nat \<Rightarrow> nat" where
  "days_before y = (y - 1970) * 365 + (y - 1969) div 4"

lemma is_leap_mod: "is_leap (int y) \<longleftrightarrow> y mod 4 = 0 \<and> (y mod 100 \<noteq> 0 \<or> y mod 400 = 0)"
proof -
  have m: "int y smod int k = int (y mod k)" if "0 < k" for k
    using that by (simp add: signed_modulo_int_def sgn_if zmod_int)
  have "y mod 400 = 0 \<Longrightarrow> y mod 4 = 0" by presburger
  then show ?thesis using m [of 400] m [of 100] m [of 4] by (auto simp: is_leap_def)
qed

lemma leap_21st: "1970 \<le> y \<Longrightarrow> y < 2100 \<Longrightarrow> is_leap (int y) \<longleftrightarrow> y mod 4 = 0"
proof -
  assume y: "1970 \<le> y" "y < 2100"
  then have "y mod 100 = 0 \<Longrightarrow> y = 2000" by presburger
  moreover have "y mod 400 = 0 \<or> y mod 100 \<noteq> 0" if "y \<noteq> 2000" using calculation that by blast
  ultimately show ?thesis using is_leap_mod [of y] by (cases "y = 2000") auto
qed

lemma days_before_Suc: "1970 \<le> y \<Longrightarrow> y < 2100 \<Longrightarrow> days_before (Suc y) = days_before y + year_len y"
proof -
  assume y: "1970 \<le> y" "y < 2100"
  then obtain k where k: "y = 1970 + k" using le_Suc_ex by blast
  have "(k + 2) div 4 = (k + 1) div 4 + (if (1970 + k) mod 4 = 0 then 1 else 0)" by presburger
  then show ?thesis using y leap_21st [OF y] by (simp add: days_before_def year_len_def k)
qed

lemma days_before_mono: "y \<le> z \<Longrightarrow> days_before y \<le> days_before z"
  unfolding days_before_def by (intro add_mono mult_right_mono div_le_mono diff_le_mono) simp_all

lemma year_day_spec:
  "year_day y d = (y', r) \<Longrightarrow> 1970 \<le> y \<Longrightarrow> days_before y + d < days_before 2100 \<Longrightarrow>
   y \<le> y' \<and> y' < 2100 \<and> r < year_len y' \<and> days_before y + d = days_before y' + r"
proof (induction y d rule: year_day.induct)
  case (1 y d)
  have y: "y < 2100" using days_before_mono [of 2100 y] "1.prems"(3) by linarith
  show ?case
  proof (cases "d < year_len y")
    case True
    then show ?thesis using "1.prems" y by (simp add: year_day.simps)
  next
    case False
    then have e: "days_before (Suc y) + (d - year_len y) = days_before y + d"
      using days_before_Suc [OF "1.prems"(2) y] by simp
    have "year_day (Suc y) (d - year_len y) = (y', r)"
      using "1.prems"(1) False by (simp add: year_day.simps [of y d])
    from "1.IH" [OF False this] "1.prems" show ?thesis unfolding e by simp
  qed
qed

lemma month_of_spec:
  "month_of y d < 12 \<and> month_start y (month_of y d) \<le> d"
proof -
  let ?P = "\<lambda>m. month_start y m \<le> d" and ?w = "takeWhile (\<lambda>m. month_start y m \<le> d) [1 ..< 12]"
  have l: "length ?w \<le> 11" using length_takeWhile_le [of ?P "[1 ..< 12]"] by simp
  show ?thesis
  proof (cases "length ?w")
    case 0
    then show ?thesis by (simp add: month_of_def month_start_def monthtab_def)
  next
    case (Suc k)
    then have "?w ! k = [1 ..< 12] ! k" by (intro takeWhile_nth) simp
    also have "\<dots> = Suc k" using l Suc by (subst nth_upt) simp_all
    finally have "?P (Suc k)" using Suc nth_mem [of k ?w] set_takeWhileD [of "?w ! k" ?P] by fastforce
    with Suc l show ?thesis by (simp add: month_of_def)
  qed
qed

section \<open>Round trip\<close>

lemma scan_dec_alpha: "alpha c \<Longrightarrow> scan_dec (c # s) = None"
  by (auto simp: scan_dec_def Let_def alpha_def isspace_def isdigit_def ord_def)

lemma dropWhile_two: "dropWhile isspace (two n @ s) = two n @ s"
proof -
  have "list_all isdigit (two n)" "two n \<noteq> []"
    using isdigit_dec [of n] by (simp_all add: two_def isdigit_def ord_def)
  then show ?thesis by (cases "two n") (auto simp: isspace_def isdigit_def)
qed

lemma dropWhile_dec: "dropWhile isspace (dec_nat n @ s) = dec_nat n @ s"
  using isdigit_dec [of n] by (cases "dec_nat n") (auto simp: isspace_def isdigit_def)

lemma dropWhile_alpha: "list_all alpha w \<Longrightarrow> w \<noteq> [] \<Longrightarrow> dropWhile isspace (w @ s) = w @ s"
  by (cases w) (auto simp: isspace_def alpha_def)

definition printed :: "string \<Rightarrow> nat \<Rightarrow> string \<Rightarrow> nat \<Rightarrow> nat \<Rightarrow> nat \<Rightarrow> nat \<Rightarrow> string" where
  "printed wd d mon y h mi s =
     wd @ CHR '','' # CHR '' '' # two d @ CHR '' '' # mon @ CHR '' '' # dec_nat y @ CHR '' '' #
     two h @ CHR '':'' # two mi @ CHR '':'' # two s @ '' GMT''"

lemma scan_printed:
  assumes "list_all alpha wd" "wd \<noteq> []" "length wd < 400" "scan_wday wd \<noteq> None"
    "list_all alpha mon" "mon \<noteq> []" "length mon < 400" "scan_mon mon = Some (int m)"
    "d < 2 ^ 31" "y < 2 ^ 31" "h < 2 ^ 31" "mi < 2 ^ 31" "s < 2 ^ 31"
  shows "scan_date (printed wd d mon y h mi s) =
    Some \<lparr>tm_sec = int s, tm_min = int mi, tm_hour = int h, tm_mday = int d, tm_mon = int m, tm_year = int y\<rparr>"
proof -
  obtain a w where w: "wd = a # w" using assms(2) by (cases wd) auto
  have na: "scan_dec (printed wd d mon y h mi s) = None"
    using scan_dec_alpha [of a] w assms(1) by (simp add: printed_def)
  have cs: "\<not> alpha (CHR '' '')" "\<not> alpha (CHR '','')" "\<not> isdigit (CHR '' '')" "\<not> isdigit (CHR '':'')"
    "isspace (CHR '' '')" "\<not> isspace (CHR ''G'')"
    by (simp_all add: alpha_def isdigit_def isspace_def ord_def)
  note nums = scan_dec_two scan_dec_nat and drops = dropWhile_two dropWhile_dec dropWhile_alpha
  have wd: "scan_alpha (printed wd d mon y h mi s) = Some (wd, CHR '','' # CHR '' '' # two d @ CHR '' '' # mon @
      CHR '' '' # dec_nat y @ CHR '' '' # two h @ CHR '':'' # two mi @ CHR '':'' # two s @ '' GMT'')"
    unfolding printed_def using assms(1-3) cs by (intro scan_alpha_word) simp_all
  have mon: "scan_alpha (mon @ CHR '' '' # r) = Some (mon, CHR '' '' # r)" for r
    using assms(5-7) cs by (intro scan_alpha_word) simp_all
  have dm: "dropWhile isspace (mon @ r) = mon @ r" for r using assms(5,6) by (rule dropWhile_alpha)
  show ?thesis
    using assms(4,8-13) cs
    by (auto simp: scan_date_def date_time_def time_date_def wday_date_time_def wday_time_year_def na wd mon dm
        dash_def comma_def hms_def gmt_def nums drops dated_def)
qed

lemma tm_to_time_date:
  assumes "1970 \<le> y" "y < 2100" "m < 12" "month_start y m \<le> r"
  shows "tm_to_time \<lparr>tm_sec = int s, tm_min = int mi, tm_hour = int h, tm_mday = int (r - month_start y m + 1),
      tm_mon = int m, tm_year = full_year (int y)\<rparr> = int ((((days_before y + r) * 24 + h) * 60 + mi) * 60 + s)"
proof -
  have "0 \<le> monthtab ! m" using assms(3) by (simp add: monthtab_def less_Suc_eq numeral_eq_Suc) (elim disjE; simp)
  then have ms: "monthtab ! m = int (month_start y m) - (if 2 \<le> m \<and> is_leap (int y) then 1 else 0)"
    by (simp add: month_start_def)
  have "(int y - 1969) sdiv 4 = int ((y - 1969) div 4)"
    using assms(1) by (simp add: signed_divide_int_def sgn_if zdiv_int of_nat_diff)
  then have db: "(int y - 1970) * 365 + (int y - 1969) sdiv 4 = int (days_before y)"
    using assms(1) by (simp add: days_before_def of_nat_diff)
  have "full_year (int y) = int y - 1900" using assms(1) by (simp add: full_year_def)
  then show ?thesis using assms(4) db
    by (simp add: tm_to_time_def Let_def ms of_nat_diff)
qed

lemma http_date_nat:
  "t < 4102444800 \<Longrightarrow> http_date (int t) =
    (let d = t div 86400; s = t mod 86400; (y, yd) = year_day 1970 d; m = month_of y yd
     in printed (weekdays ! ((d + 4) mod 7)) (yd - month_start y m + 1) (months ! m) y
          (s div 3600) (s div 60 mod 60) (s mod 60))"
proof -
  assume "t < 4102444800"
  then have d: "t div 86400 < 146097" by simp
  have i: "int t div 86400 = int (t div 86400)" "nat (int t mod 86400) = t mod 86400"
    by (simp_all add: zdiv_int nat_mod_distrib)
  have e: "int (t div 86400) div 146097 = 0" "int (t div 86400) mod 146097 = int (t div 86400)"
    using d by (simp_all flip: zdiv_int zmod_int)
  have w: "nat ((int (t div 86400) + 4) mod 7) = (t div 86400 + 4) mod 7"
    by (metis nat_int of_nat_add of_nat_mod of_nat_numeral)
  show ?thesis
    unfolding http_date_def i Let_def e w
    by (simp add: printed_def dec_int_def split: prod.split)
qed

text \<open>C21: a date that the server prints is read back by \<open>tdate_parse\<close> as the time it was printed for, for
  every second from 1970 up to the year 2100.\<close>

theorem tdate_parse_http_date:
  assumes "0 \<le> t" "t < 4102444800"
  shows "tdate_parse (http_date t) = t"
proof -
  define n where "n = nat t"
  have n: "t = int n" "n < 4102444800" using assms by (simp_all add: n_def)
  obtain y r where yr: "year_day 1970 (n div 86400) = (y, r)" by fastforce
  define m d s where "m = month_of y r" and "d = r - month_start y m + 1" and "s = n mod 86400"
  have "n div 86400 < days_before 2100" using n(2) by (simp add: days_before_def)
  with year_day_spec [OF yr] have y: "1970 \<le> y" "y < 2100" "r < year_len y" "n div 86400 = days_before y + r"
    by (simp_all add: days_before_def)
  have m: "m < 12" "month_start y m \<le> r" using month_of_spec [of y r] by (simp_all add: m_def)
  define wd where "wd = weekdays ! ((n div 86400 + 4) mod 7)"
  have wd: "scan_wday wd \<noteq> None" "list_all alpha wd" "length wd = 3"
    using weekday_names [of "(n div 86400 + 4) mod 7"] by (simp_all add: wd_def)
  have b: "d < 2 ^ 31" "y < 2 ^ 31" "s div 3600 < 2 ^ 31" "s div 60 mod 60 < 2 ^ 31" "s mod 60 < 2 ^ 31"
    using y(2,3) by (simp_all add: d_def s_def year_len_def split: if_splits)
  have h: "http_date t = printed wd d (months ! m) y (s div 3600) (s div 60 mod 60) (s mod 60)"
    using http_date_nat [OF n(2)] by (simp add: n(1) yr Let_def wd_def m_def d_def s_def)
  obtain a w where aw: "wd = a # w" using wd(3) by (cases wd) auto
  with wd(2) have "a \<noteq> CHR '' ''" "a \<noteq> CHR 0x09" by (auto simp: alpha_def ord_def)
  then have "dropWhile (\<lambda>c. c = CHR '' '' \<or> c = CHR 0x09) (http_date t) = http_date t"
    by (simp add: h printed_def aw)
  moreover have "scan_date (http_date t) = Some \<lparr>tm_sec = int (s mod 60), tm_min = int (s div 60 mod 60),
      tm_hour = int (s div 3600), tm_mday = int d, tm_mon = int m, tm_year = int y\<rparr>"
    unfolding h using wd month_names [OF m(1)] b by (intro scan_printed) auto
  ultimately have "tdate_parse (http_date t) =
      int ((((days_before y + r) * 24 + s div 3600) * 60 + s div 60 mod 60) * 60 + s mod 60)"
    using tm_to_time_date [OF y(1,2) m, of "s mod 60" "s div 60 mod 60" "s div 3600"]
    by (simp add: tdate_parse_def d_def)
  also have "(((days_before y + r) * 24 + s div 3600) * 60 + s div 60 mod 60) * 60 + s mod 60 = n"
  proof -
    have "s div 3600 = s div 60 div 60" using div_mult2_eq [of s 60 60] by simp
    then have "s = (s div 3600 * 60 + s div 60 mod 60) * 60 + s mod 60" by simp
    moreover have "n = n div 86400 * 86400 + s" by (simp add: s_def)
    moreover have "((x * 24 + a) * 60 + b) * 60 + c = x * 86400 + ((a * 60 + b) * 60 + c)" for x a b c :: nat
      by simp
    ultimately show ?thesis using y(4) by metis
  qed
  finally show ?thesis using n(1) by simp
qed

theorem tdate_parse_http_date_witness:
  "tdate_parse (http_date 784111777) = 784111777"
  using tdate_parse_http_date [of 784111777] by simp

end
