(* ===== verification/Th_Match.thy ===== *)
theory Th_Match
  imports Prelude
begin

text \<open>
  The wildcard matcher of \<open>src/others/thttpd-2.29/match.c\<close>: alternatives separated by bars, a
  question mark for any byte, a star for bytes other than a slash, two stars for any bytes.
\<close>

section \<open>\<open>match\<close>\<close>

definition strcspn_slash :: "string \<Rightarrow> nat" where
  "strcspn_slash s = length (takeWhile (\<lambda>c. c \<noteq> CHR ''/'') s)"

function match_one :: "string \<Rightarrow> string \<Rightarrow> bool" where
  \<comment> \<open>the pattern is the \<open>patternlen\<close> bytes from \<open>p\<close> on\<close>
  "match_one p string =
     (case p of
        [] \<Rightarrow> string = []
      | c # p1 \<Rightarrow>
          if c = CHR ''?'' \<and> string \<noteq> [] then match_one p1 (tl string)
          else if c = CHR ''*''
          then (if p1 \<noteq> [] \<and> hd p1 = CHR ''*''
                then list_ex (\<lambda>i. match_one (tl p1) (drop i string)) (rev [0 ..< Suc (length string)])
                else list_ex (\<lambda>i. match_one p1 (drop i string)) (rev [0 ..< Suc (strcspn_slash string)]))
          else if string = [] \<or> c \<noteq> hd string then False
          else match_one p1 (tl string))"
  by pat_completeness auto
termination
  by (relation "measure (\<lambda>(p, s). length p)") auto

declare match_one.simps [simp del]

function match :: "string \<Rightarrow> string \<Rightarrow> bool" where
  "match pattern string =
     (case dropWhile (\<lambda>c. c \<noteq> CHR ''|'') pattern of
        [] \<Rightarrow> match_one pattern string
      | _ # rest \<Rightarrow>
          if match_one (takeWhile (\<lambda>c. c \<noteq> CHR ''|'') pattern) string then True
          else match rest string)"
  by pat_completeness auto
termination
proof (relation "measure (\<lambda>(p, s). length p)", goal_cases)
  case (2 pattern string c rest)
  then show ?case using length_dropWhile_le [of "\<lambda>c. c \<noteq> CHR ''|''" pattern] by simp
qed simp

declare match.simps [simp del]

section \<open>What a pattern means\<close>

datatype token = Any | Star | Double_star | Lit char

fun tokens :: "string \<Rightarrow> token list" where
  "tokens [] = []"
| "tokens (c # p) =
     (if c = CHR ''?'' then Any # tokens p
      else if c = CHR ''*''
      then (case p of d # q \<Rightarrow> if d = CHR ''*'' then Double_star # tokens q else Star # tokens p
            | [] \<Rightarrow> [Star])
      else Lit c # tokens p)"

inductive glob :: "token list \<Rightarrow> string \<Rightarrow> bool" where
  done_: "glob [] []"
| any: "glob ts s \<Longrightarrow> glob (Any # ts) (c # s)"
| lit: "glob ts s \<Longrightarrow> glob (Lit c # ts) (c # s)"
| star: "glob ts s \<Longrightarrow> CHR ''/'' \<notin> set a \<Longrightarrow> glob (Star # ts) (a @ s)"
| double_star: "glob ts s \<Longrightarrow> glob (Double_star # ts) (a @ s)"

inductive_simps glob_simps:
  "glob [] s" "glob (Any # ts) s" "glob (Lit c # ts) s" "glob (Star # ts) s" "glob (Double_star # ts) s"

fun alternatives :: "string \<Rightarrow> string list" where
  "alternatives [] = [[]]"
| "alternatives (c # p) =
     (if c = CHR ''|'' then [] # alternatives p
      else (case alternatives p of q # qs \<Rightarrow> (c # q) # qs | [] \<Rightarrow> [[c]]))"

lemma glob_double: "glob (Double_star # ts) s \<longleftrightarrow> (\<exists>i \<le> length s. glob ts (drop i s))"
proof
  assume "glob (Double_star # ts) s"
  then obtain a t where "s = a @ t" "glob ts t" by (auto simp: glob_simps)
  then show "\<exists>i \<le> length s. glob ts (drop i s)" by (intro exI [of _ "length a"]) simp
next
  assume "\<exists>i \<le> length s. glob ts (drop i s)"
  then obtain i where "glob ts (drop i s)" by blast
  from glob.double_star [OF this, of "take i s"] show "glob (Double_star # ts) s" by simp
qed

lemma strcspn_iff:
  "i \<le> strcspn_slash s \<longleftrightarrow> i \<le> length s \<and> CHR ''/'' \<notin> set (take i s)"
proof (induction s arbitrary: i)
  case (Cons c s)
  show ?case using Cons.IH [of "i - 1"] by (cases i) (auto simp: strcspn_slash_def)
qed (simp add: strcspn_slash_def)

lemma glob_star: "glob (Star # ts) s \<longleftrightarrow> (\<exists>i \<le> strcspn_slash s. glob ts (drop i s))"
proof
  assume "glob (Star # ts) s"
  then obtain a t where "s = a @ t" "glob ts t" "CHR ''/'' \<notin> set a" by (auto simp: glob_simps)
  then show "\<exists>i \<le> strcspn_slash s. glob ts (drop i s)"
    by (intro exI [of _ "length a"]) (simp add: strcspn_iff)
next
  assume "\<exists>i \<le> strcspn_slash s. glob ts (drop i s)"
  then obtain i where "glob ts (drop i s)" "CHR ''/'' \<notin> set (take i s)" by (auto simp: strcspn_iff)
  from glob.star [OF this] show "glob (Star # ts) s" by simp
qed

lemma list_ex_upto:
  "list_ex P (rev [0 ..< Suc n]) \<longleftrightarrow> (\<exists>i \<le> n. P i)" "list_ex P [0 ..< Suc n] \<longleftrightarrow> (\<exists>i \<le> n. P i)"
  unfolding list_ex_iff set_rev set_upt by (auto simp: less_Suc_eq_le)

lemma match_one_glob: "match_one p s = glob (tokens p) s"
proof (induction p s rule: match_one.induct)
  case (1 p s)
  show ?case
  proof (cases p)
    case Nil
    then show ?thesis by (simp add: match_one.simps [of "[]"] glob_simps)
  next
    case (Cons c p1)
    consider (any) "c = CHR ''?''" | (double) "c = CHR ''*''" "p1 \<noteq> []" "hd p1 = CHR ''*''"
      | (star) "c = CHR ''*''" "\<not> (p1 \<noteq> [] \<and> hd p1 = CHR ''*'')"
      | (lit) "c \<noteq> CHR ''?''" "c \<noteq> CHR ''*''" by blast
    then show ?thesis
    proof cases
      case any
      then show ?thesis using 1(1) [OF Cons]
        by (cases s) (auto simp: Cons match_one.simps [of "x # p1" for x] glob_simps)
    next
      case double
      then obtain q where q: "p1 = CHR ''*'' # q" by (cases p1) auto
      have "match_one p s = (\<exists>i \<le> length s. match_one q (drop i s))"
        using double by (subst match_one.simps) (simp only: Cons q list.simps if_True list.sel list_ex_upto, simp)
      also have "\<dots> = (\<exists>i \<le> length s. glob (tokens q) (drop i s))"
        using 1(2) [OF Cons] double q by (auto simp: le_less)
      also have "\<dots> = glob (tokens p) s" using double by (simp add: Cons q glob_double)
      finally show ?thesis .
    next
      case star
      then have t: "tokens p = Star # tokens p1" by (cases p1) (auto simp: Cons)
      have "match_one p s = (\<exists>i \<le> strcspn_slash s. match_one p1 (drop i s))"
        using star by (subst match_one.simps) (auto simp: Cons list_ex_upto simp del: upt_Suc)
      also have "\<dots> = (\<exists>i \<le> strcspn_slash s. glob (tokens p1) (drop i s))"
        using 1(3) [OF Cons] star by (auto simp: le_less)
      also have "\<dots> = glob (tokens p) s" by (simp add: t glob_star)
      finally show ?thesis .
    next
      case lit
      then show ?thesis using 1(4) [OF Cons]
        by (cases s) (auto simp: Cons match_one.simps [of "x # p1" for x] glob_simps)
    qed
  qed
qed

lemma alternatives_not_Nil [simp]: "alternatives p \<noteq> []"
  by (induction p) (auto split: list.splits)

lemma alternatives_word: "CHR ''|'' \<notin> set w \<Longrightarrow> alternatives w = [w]"
  by (induction w) auto

lemma alternatives_bar:
  "CHR ''|'' \<notin> set w \<Longrightarrow> alternatives (w @ CHR ''|'' # p) = w # alternatives p"
  by (induction w) auto

section \<open>Properties\<close>

text \<open>C12: \<open>match\<close> is the meaning of wildcard patterns: some alternative's tokens generate the string, where a question mark is
  any one byte, a star is bytes without a slash, two stars are any bytes; the loops with their
  backtracking always end.\<close>

theorem match_is_glob:
  "match pattern string = list_ex (\<lambda>p. glob (tokens p) string) (alternatives pattern)"
proof (induction pattern string rule: match.induct)
  case (1 pattern string)
  let ?w = "takeWhile (\<lambda>c. c \<noteq> CHR ''|'') pattern"
  have w: "CHR ''|'' \<notin> set ?w" by (auto dest: set_takeWhileD)
  show ?case
  proof (cases "dropWhile (\<lambda>c. c \<noteq> CHR ''|'') pattern")
    case Nil
    then have "pattern = ?w" by (metis append_Nil2 takeWhile_dropWhile_id)
    with w have "alternatives pattern = [pattern]" by (metis alternatives_word)
    moreover have "match pattern string = match_one pattern string"
      unfolding match.simps [of pattern] Nil by simp
    ultimately show ?thesis by (simp add: match_one_glob)
  next
    case (Cons c rest)
    then have "c = CHR ''|''" using hd_dropWhile [of "\<lambda>c. c \<noteq> CHR ''|''" pattern] by simp
    with Cons have "pattern = ?w @ CHR ''|'' # rest" by (metis takeWhile_dropWhile_id)
    with w have "alternatives pattern = ?w # alternatives rest" by (metis alternatives_bar)
    with Cons "1.IH" [OF Cons] show ?thesis by (simp add: match.simps [of pattern] match_one_glob)
  qed
qed

end
