(* ===== verification/Th_Response.thy ===== *)
theory Th_Response
  imports Th_Date Th_Match Th_Parse
begin

text \<open>
  The responses of \<open>src/others/thttpd-2.29/libhttpd.c\<close>: \<open>add_response\<close>, the headers that
  \<open>send_mime\<close> writes, error pages from files or from the built-in template with the defanged argument,
  and the redirect to a directory. A text is what \<open>my_snprintf\<close> leaves of it in the buffer it is printed to;
  times are printed by \<open>http_date\<close>.
\<close>

section \<open>The buffer\<close>

record site =
  charset :: string
  p3p :: string
  max_age :: int
  page_vhost :: bool  \<comment> \<open>\<open>vhost\<close>\<close>
  page_file :: "string \<Rightarrow> string option"  \<comment> \<open>\<open>fopen\<close> of an error page: its bytes\<close>
  now :: int  \<comment> \<open>\<open>time(0)\<close>\<close>

definition add_response :: "string \<Rightarrow> http_conn \<Rightarrow> http_conn" where
  "add_response s hc =
     (let b = httpd_realloc_str (responselen hc + length s) (response hc)
      in hc\<lparr>response := b\<lparr>str := take (responselen hc) (str b) @ s\<rparr>, responselen := responselen hc + length s\<rparr>)"

definition snprintf :: "nat \<Rightarrow> string \<Rightarrow> string" where
  \<comment> \<open>the text left in a buffer of this size\<close>
  "snprintf n s = take (n - 1) s"

fun subst_first :: "string \<Rightarrow> string \<Rightarrow> string \<Rightarrow> string" where
  \<comment> \<open>a format with one conversion: pattern, replacement\<close>
  "subst_first p r [] = []"
| "subst_first p r (c # s) =
     (if take (length p) (c # s) = p then r @ drop (length p) (c # s) else c # subst_first p r s)"

definition CRLF :: string where "CRLF = [CR, LF]"

definition SERVER_SOFTWARE :: string where "SERVER_SOFTWARE = ''thttpd/2.29 23May2018''"
definition SERVER_ADDRESS :: string where "SERVER_ADDRESS = ''http://www.acme.com/software/thttpd/''"
definition ERR_DIR :: string where "ERR_DIR = ''errors''"

definition ok200title :: string where "ok200title = ''OK''"
definition ok206title :: string where "ok206title = ''Partial Content''"
definition err302title :: string where "err302title = ''Found''"
definition err302form :: string where "err302form = ''The actual URL is '%.80s'.'' @ [LF]"
definition err304title :: string where "err304title = ''Not Modified''"
definition err400title :: string where "err400title = ''Bad Request''"
definition err400form :: string where
  "err400form = ''Your request has bad syntax or is inherently impossible to satisfy.'' @ [LF]"
definition err401title :: string where "err401title = ''Unauthorized''"
definition err401form :: string where "err401form = ''Authorization required for the URL '%.80s'.'' @ [LF]"
definition err403title :: string where "err403title = ''Forbidden''"
definition err404title :: string where "err404title = ''Not Found''"
definition err404form :: string where "err404form = ''The requested URL '%.80s' was not found on this server.'' @ [LF]"
definition err408title :: string where "err408title = ''Request Timeout''"
definition err408form :: string where "err408form = ''No request appeared within a reasonable time period.'' @ [LF]"
definition err500title :: string where "err500title = ''Internal Error''"
definition err500form :: string where
  "err500form = ''There was an unusual problem serving the requested URL '%.80s'.'' @ [LF]"
definition err501title :: string where "err501title = ''Not Implemented''"
definition err501form :: string where
  "err501form = ''The requested method '%.80s' is not implemented by this server.'' @ [LF]"
definition err503title :: string where "err503title = ''Service Temporarily Overloaded''"
definition err503form :: string where
  "err503form = ''The requested URL '%.80s' is temporarily overloaded.  Please try again later.'' @ [LF]"

section \<open>Headers\<close>

definition partial_content :: "http_conn \<Rightarrow> int \<Rightarrow> nat \<Rightarrow> int \<Rightarrow> bool" where
  \<comment> \<open>\<open>mt\<close> is \<open>sb.st_mtime\<close> of the file\<close>
  "partial_content hc mt st len \<longleftrightarrow>
     st = 200 \<and> got_range hc \<and> first_byte_index hc \<le> last_byte_index hc \<and>
     (last_byte_index hc \<noteq> len - 1 \<or> first_byte_index hc \<noteq> 0) \<and> (range_if hc = -1 \<or> range_if hc = mt)"

definition status_lines :: "site \<Rightarrow> http_conn \<Rightarrow> nat \<Rightarrow> string \<Rightarrow> string \<Rightarrow> int \<Rightarrow> string" where
  "status_lines w hc st title typ md =
     snprintf 1000
       (take 20 (protocol hc) @ '' '' @ dec_nat st @ '' '' @ title @ CRLF @ ''Server: '' @ SERVER_SOFTWARE @ CRLF @
        ''Content-Type: '' @ snprintf 500 (subst_first ''%s'' (charset w) typ) @ CRLF @
        ''Date: '' @ http_date (now w) @ CRLF @ ''Last-Modified: '' @ http_date (if md = 0 then now w else md) @ CRLF @
        ''Accept-Ranges: bytes'' @ CRLF @ ''Connection: close'' @ CRLF)"

definition length_lines :: "http_conn \<Rightarrow> bool \<Rightarrow> int \<Rightarrow> string list" where
  "length_lines hc partial len =
     (if partial
      then [snprintf 1000 (''Content-Range: bytes '' @ dec_int (first_byte_index hc) @ ''-'' @
              dec_int (last_byte_index hc) @ ''/'' @ dec_int len @ CRLF @
              ''Content-Length: '' @ dec_int (last_byte_index hc - first_byte_index hc + 1) @ CRLF)]
      else if 0 \<le> len then [snprintf 1000 (''Content-Length: '' @ dec_int len @ CRLF)] else [])"

definition max_age_lines :: "site \<Rightarrow> string list" where
  "max_age_lines w =
     (if 0 \<le> max_age w
      then [snprintf 1000 (''Cache-Control: max-age='' @ dec_int (max_age w) @ CRLF @
              ''Expires: '' @ http_date (now w + max_age w) @ CRLF)]
      else [])"

definition mime_lines ::
  "site \<Rightarrow> http_conn \<Rightarrow> bool \<Rightarrow> nat \<Rightarrow> string \<Rightarrow> string \<Rightarrow> string \<Rightarrow> string \<Rightarrow> int \<Rightarrow> int \<Rightarrow> string list" where
  \<comment> \<open>the texts given to \<open>add_response\<close> one after the other\<close>
  "mime_lines w hc partial st title enc extraheads typ len md =
     [status_lines w hc st title typ md] @
     (if st div 100 \<noteq> 2 \<and> st div 100 \<noteq> 3
      then [snprintf 1000 (''Cache-Control: no-cache,no-store'' @ CRLF)] else []) @
     (if enc \<noteq> [] then [snprintf 1000 (''Content-Encoding: '' @ enc @ CRLF)] else []) @
     length_lines hc partial len @
     (if p3p w \<noteq> [] then [snprintf 1000 (''P3P: '' @ p3p w @ CRLF)] else []) @
     max_age_lines w @
     (if extraheads \<noteq> [] then [extraheads] else []) @ [CRLF]"

definition send_mime ::
  "site \<Rightarrow> int \<Rightarrow> http_conn \<Rightarrow> nat \<Rightarrow> string \<Rightarrow> string \<Rightarrow> string \<Rightarrow> string \<Rightarrow> int \<Rightarrow> int \<Rightarrow> http_conn" where
  \<comment> \<open>behind \<open>mt\<close> and the connection: status, title, encodings, extraheads, type, length, mod\<close>
  "send_mime w mt hc st title enc extraheads typ len md =
     (let hc = hc\<lparr>status := st, bytes_to_send := len\<rparr>
      in if \<not> mime_flag hc then hc
         else if partial_content hc mt st len
         then (let hc = hc\<lparr>status := 206\<rparr>
               in fold add_response (mime_lines w hc True 206 ok206title enc extraheads typ len md) hc)
         else (let hc = hc\<lparr>got_range := False\<rparr>
               in fold add_response (mime_lines w hc False st title enc extraheads typ len md) hc))"

section \<open>Error pages\<close>

fun defang_loop :: "nat \<Rightarrow> string \<Rightarrow> string \<Rightarrow> string" where
  "defang_loop dfsize out [] = out"
| "defang_loop dfsize out (c # s) =
     (if length out < dfsize - 5
      then defang_loop dfsize
             (out @ (if c = CHR ''<'' then ''&lt;'' else if c = CHR ''>'' then ''&gt;'' else [c])) s
      else out)"

definition defang :: "string \<Rightarrow> nat \<Rightarrow> string" where
  "defang s dfsize = defang_loop dfsize [] s"

definition send_response_tail :: "http_conn \<Rightarrow> http_conn" where
  "send_response_tail hc =
     add_response (snprintf 1000
       (''    <hr>'' @ [LF, LF] @ ''    <address><a href=\"'' @ SERVER_ADDRESS @ ''\">'' @ SERVER_SOFTWARE @
        ''</a></address>'' @ [LF, LF] @ ''  </body>'' @ [LF, LF] @ ''</html>'' @ [LF])) hc"

definition page_head :: "nat \<Rightarrow> string \<Rightarrow> string" where
  "page_head st title =
     ''<!DOCTYPE html PUBLIC \"-//W3C//DTD HTML 4.01 Transitional//EN\" \"http://www.w3.org/TR/html4/loose.dtd\">'' @
     [LF, LF] @ ''<html>'' @ [LF, LF] @ ''  <head>'' @ [LF] @
     ''    <meta http-equiv=\"Content-type\" content=\"text/html;charset=UTF-8\">'' @ [LF] @
     ''    <title>'' @ dec_nat st @ '' '' @ title @ ''</title>'' @ [LF] @ ''  </head>'' @ [LF, LF] @
     ''  <body bgcolor=\"#cc9999\" text=\"#000000\" link=\"#2020ff\" vlink=\"#4040cc\">'' @ [LF, LF] @
     ''    <h2>'' @ dec_nat st @ '' '' @ title @ ''</h2>'' @ [LF]"

definition padding :: "string list" where
  "padding = [''<!--'' @ [LF]] @
     replicate 6 (''Padding so that MSIE deigns to show this error instead of its own canned one.'' @ [LF]) @ [''-->'' @ [LF]]"

definition send_response :: "site \<Rightarrow> int \<Rightarrow> http_conn \<Rightarrow> nat \<Rightarrow> string \<Rightarrow> string \<Rightarrow> string \<Rightarrow> string \<Rightarrow> http_conn" where
  \<comment> \<open>status, title, extraheads, form, arg\<close>
  "send_response w mt hc st title extraheads form a =
     (let hc = send_mime w mt hc st title [] extraheads ''text/html; charset=%s'' (-1) 0;
          hc = add_response (snprintf 2000 (page_head st title)) hc;
          hc = add_response (snprintf 2000 (subst_first ''%.80s'' (take 80 (defang a 1000)) form)) hc;
          hc = (if match ''**MSIE**'' (useragent hc) then fold add_response padding hc else hc)
      in send_response_tail hc)"

fun chunks :: "nat \<Rightarrow> string \<Rightarrow> string list" where
  \<comment> \<open>what \<open>fread\<close> delivers piece by piece\<close>
  "chunks n s = (if s = [] \<or> n = 0 then [] else take n s # chunks n (drop n s))"

declare chunks.simps [simp del]

definition send_err_file :: "site \<Rightarrow> int \<Rightarrow> http_conn \<Rightarrow> nat \<Rightarrow> string \<Rightarrow> string \<Rightarrow> string \<Rightarrow> http_conn option" where
  \<comment> \<open>\<open>None\<close>: the file cannot be opened\<close>
  "send_err_file w mt hc st title extraheads filename =
     (case page_file w filename of
        None \<Rightarrow> None
      | Some content \<Rightarrow>
          Some (send_response_tail
            (fold (\<lambda>buf. add_response (cstr buf)) (chunks 999 content)
              (send_mime w mt hc st title [] extraheads ''text/html; charset=%s'' (-1) 0))))"

definition httpd_send_err :: "site \<Rightarrow> int \<Rightarrow> http_conn \<Rightarrow> nat \<Rightarrow> string \<Rightarrow> string \<Rightarrow> string \<Rightarrow> string \<Rightarrow> http_conn" where
  "httpd_send_err w mt hc st title extraheads form a =
     (case (if page_vhost w \<and> str (hostdir hc) \<noteq> []
            then send_err_file w mt hc st title extraheads
                   (snprintf 1000 (str (hostdir hc) @ ''/'' @ ERR_DIR @ ''/err'' @ dec_nat st @ ''.html''))
            else None) of
        Some hc1 \<Rightarrow> hc1
      | None \<Rightarrow>
          (case send_err_file w mt hc st title extraheads
                  (snprintf 1000 (ERR_DIR @ ''/err'' @ dec_nat st @ ''.html'')) of
             Some hc1 \<Rightarrow> hc1
           | None \<Rightarrow> send_response w mt hc st title extraheads form a))"

section \<open>Redirects and output\<close>

definition redirect_texts :: "nat \<times> nat \<Rightarrow> http_conn \<Rightarrow> string \<times> string \<times> nat \<times> nat" where
  \<comment> \<open>\<open>location\<close> and \<open>header\<close>; the pairs of numbers are \<open>maxlocation\<close> and \<open>maxheader\<close>\<close>
  "redirect_texts sizes hc =
     (let q = str (query hc); u = encodedurl hc;
          ml = maxsize (httpd_realloc_str (if q \<noteq> [] then length u + 2 + length q else length u + 1)
                          \<lparr>str = [], maxsize = fst sizes\<rparr>);
          location = snprintf ml (if q \<noteq> [] then u @ ''/?'' @ q else u @ ''/'');
          mh = maxsize (httpd_realloc_str (length ''Location: '' + 1 + length location)
                          \<lparr>str = [], maxsize = snd sizes\<rparr>)
      in (location, snprintf mh (''Location: '' @ location @ CRLF), ml, mh))"

definition send_dirredirect :: "site \<Rightarrow> int \<Rightarrow> nat \<times> nat \<Rightarrow> http_conn \<Rightarrow> http_conn \<times> (nat \<times> nat)" where
  "send_dirredirect w mt sizes hc =
     (let hc = (if str (query hc) \<noteq> [] then hc\<lparr>encodedurl := takeWhile (\<lambda>c. c \<noteq> CHR ''?'') (encodedurl hc)\<rparr> else hc)
      in case redirect_texts sizes hc of
           (location, header, sizes1) \<Rightarrow>
             (send_response w mt hc 302 err302title header err302form location, sizes1))"

definition httpd_write_response :: "http_conn \<Rightarrow> string \<times> http_conn" where
  \<comment> \<open>the bytes given to \<open>httpd_write_fully\<close>, whose result is ignored\<close>
  "httpd_write_response hc =
     (if 0 < responselen hc then (take (responselen hc) (str (response hc)), hc\<lparr>responselen := 0\<rparr>) else ([], hc))"

section \<open>What is pending\<close>

definition pending :: "http_conn \<Rightarrow> string" where
  "pending hc = take (responselen hc) (str (response hc))"

definition response_ok :: "http_conn \<Rightarrow> bool" where
  \<comment> \<open>the response lies in its buffer\<close>
  "response_ok hc \<longleftrightarrow> responselen hc \<le> length (str (response hc)) \<and> length (str (response hc)) \<le> maxsize (response hc)"

lemma add_response_pending:
  "response_ok hc \<Longrightarrow> pending (add_response s hc) = pending hc @ s \<and> response_ok (add_response s hc)"
  using realloc_size [of "responselen hc + length s" "response hc"]
  by (simp add: add_response_def pending_def response_ok_def Let_def)

lemma fold_response_pending:
  "response_ok hc \<Longrightarrow>
   pending (fold add_response ss hc) = pending hc @ concat ss \<and> response_ok (fold add_response ss hc)"
  by (induction ss arbitrary: hc) (simp_all add: add_response_pending)

lemma add_response_fields [simp]:
  "status (add_response s hc) = status hc" "got_range (add_response s hc) = got_range hc"
  "bytes_to_send (add_response s hc) = bytes_to_send hc" "useragent (add_response s hc) = useragent hc"
  by (simp_all add: add_response_def Let_def)

lemma fold_response_fields [simp]:
  "status (fold add_response ss hc) = status hc" "got_range (fold add_response ss hc) = got_range hc"
  "bytes_to_send (fold add_response ss hc) = bytes_to_send hc" "useragent (fold add_response ss hc) = useragent hc"
  by (induction ss arbitrary: hc) simp_all

lemma response_ok_upd [simp]:
  "response_ok (hc\<lparr>status := x\<rparr>) = response_ok hc" "response_ok (hc\<lparr>got_range := b\<rparr>) = response_ok hc"
  "response_ok (hc\<lparr>bytes_to_send := i\<rparr>) = response_ok hc"
  "pending (hc\<lparr>status := x\<rparr>) = pending hc" "pending (hc\<lparr>got_range := b\<rparr>) = pending hc"
  "pending (hc\<lparr>bytes_to_send := i\<rparr>) = pending hc"
  by (simp_all add: response_ok_def pending_def)

section \<open>Framing\<close>

definition clean :: "string \<Rightarrow> bool" where
  "clean s \<longleftrightarrow> CR \<notin> set s \<and> LF \<notin> set s"

definition lines_text :: "string list \<Rightarrow> string" where
  "lines_text ls = concat (map (\<lambda>l. l @ CRLF) ls)"

lemma clean_text [simp]:
  "clean []" "clean (c # s) \<longleftrightarrow> c \<noteq> CR \<and> c \<noteq> LF \<and> clean s" "clean (s @ t) \<longleftrightarrow> clean s \<and> clean t"
  by (auto simp: clean_def)

lemma clean_take: "clean s \<Longrightarrow> clean (take n s)"
  by (auto simp: clean_def dest: in_set_takeD)

lemma lines_text_append [simp]: "lines_text (a @ b) = lines_text a @ lines_text b"
  by (simp add: lines_text_def)

lemma lines_text_Cons [simp]: "lines_text [] = []" "lines_text (l # ls) = l @ CRLF @ lines_text ls"
  by (simp_all add: lines_text_def)

lemma snprintf_fits: "length s < n \<Longrightarrow> snprintf n s = s"
  by (simp add: snprintf_def)

lemma clean_dec_nat [simp]: "clean (dec_nat n)"
proof -
  have "\<not> isdigit CR" "\<not> isdigit LF" by (simp_all add: isdigit_def ord_def)
  then show ?thesis using isdigit_dec [of n] by (auto simp: clean_def list_all_iff)
qed

lemma clean_dec_int [simp]: "clean (dec_int i)"
  by (simp add: dec_int_def)

lemma clean_two [simp]: "clean (two n)"
  by (simp add: two_def)

lemma length_two: "n < 1000 \<Longrightarrow> length (two n) \<le> 4"
  using length_dec_nat [of 3 n] by (simp add: two_def)

lemma clean_names: "m < 12 \<Longrightarrow> clean (months ! m)" "k < 7 \<Longrightarrow> clean (weekdays ! k)"
proof -
  have "list_all clean months" "list_all clean weekdays" "length months = 12" "length weekdays = 7" by code_simp+
  then show "m < 12 \<Longrightarrow> clean (months ! m)" "k < 7 \<Longrightarrow> clean (weekdays ! k)" by (simp_all add: list_all_length)
qed

definition printable :: "int \<Rightarrow> bool" where
  \<comment> \<open>times up to the year 2100\<close>
  "printable t \<longleftrightarrow> 0 \<le> t \<and> t < 4102444800"

lemma http_date_bounds:
  assumes "printable t" shows "clean (http_date t) \<and> length (http_date t) \<le> 40"
proof -
  define n where "n = nat t"
  have n: "t = int n" "n < 4102444800" using assms by (simp_all add: n_def printable_def nat_less_iff)
  obtain y r where yr: "year_day 1970 (n div 86400) = (y, r)" by fastforce
  define m where "m = month_of y r"
  have "n div 86400 < days_before 2100" using n(2) by (simp add: days_before_def)
  with year_day_spec [OF yr] have y: "y < 2100" "r < year_len y" by (simp_all add: days_before_def)
  then have d: "r - month_start y m + 1 < 1000" by (simp add: year_len_def split: if_splits)
  have m: "m < 12" using month_of_spec [of y r] by (simp add: m_def)
  have h: "http_date t = printed (weekdays ! ((n div 86400 + 4) mod 7)) (r - month_start y m + 1) (months ! m) y
      (n mod 86400 div 3600) (n mod 86400 div 60 mod 60) (n mod 86400 mod 60)"
    using http_date_nat [OF n(2)] by (simp add: n(1) yr Let_def m_def)
  have l: "length (weekdays ! ((n div 86400 + 4) mod 7)) = 3" "length (months ! m) = 3" "length (dec_nat y) \<le> 4"
    using weekday_names [of "(n div 86400 + 4) mod 7"] month_names [OF m] length_dec_nat [of 4 y] y(1) by simp_all
  have "length (two (n mod 86400 div 3600)) \<le> 4" "length (two (n mod 86400 div 60 mod 60)) \<le> 4"
    "length (two (n mod 86400 mod 60)) \<le> 4" "length (two (r - month_start y m + 1)) \<le> 4"
    using d by (simp_all add: length_two div_less_iff_less_mult)
  then show ?thesis
    using l clean_names(1) [OF m] clean_names(2) [of "(n div 86400 + 4) mod 7"] unfolding h printed_def by simp
qed


definition short :: "site \<Rightarrow> http_conn \<Rightarrow> bool" where
  \<comment> \<open>what the configuration and the request line supply: no line ends, and room in the buffers\<close>
  "short w hc \<longleftrightarrow> clean (charset w) \<and> clean (p3p w) \<and> length (p3p w) \<le> 900 \<and> clean (protocol hc) \<and>
     printable (now w) \<and> (0 \<le> max_age w \<longrightarrow> printable (now w + max_age w))"

lemma clean_subst: "clean r \<Longrightarrow> clean s \<Longrightarrow> clean (subst_first p r s)"
proof (induction p r s rule: subst_first.induct)
  case (2 p r c s)
  then have "clean (drop (length p) (c # s))" by (auto simp: clean_def dest!: in_set_dropD)
  with 2 show ?case by simp
qed simp

lemma length_dec_int_long: "\<bar>i\<bar> < 2 ^ 63 \<Longrightarrow> length (dec_int i) \<le> 20"
  using length_dec_nat [of 19 "nat \<bar>i\<bar>"] by (auto simp: dec_int_def nat_less_iff)

lemma status_lines_framed:
  assumes "short w hc" "clean title" "length title \<le> 100" "st < 1000" "clean typ" "md = 0 \<or> printable md"
  shows "\<exists>ls. status_lines w hc st title typ md = lines_text ls \<and> list_all (\<lambda>l. l \<noteq> [] \<and> clean l) ls \<and>
    ls \<noteq> [] \<and> hd ls = take 20 (protocol hc) @ '' '' @ dec_nat st @ '' '' @ title"
proof -
  let ?type = "snprintf 500 (subst_first ''%s'' (charset w) typ)" and ?mod = "if md = 0 then now w else md"
  let ?ls = "[take 20 (protocol hc) @ '' '' @ dec_nat st @ '' '' @ title, ''Server: '' @ SERVER_SOFTWARE,
    ''Content-Type: '' @ ?type, ''Date: '' @ http_date (now w), ''Last-Modified: '' @ http_date ?mod,
    ''Accept-Ranges: bytes'', ''Connection: close'']"
  have n: "clean (http_date (now w))" "length (http_date (now w)) \<le> 40"
    "clean (http_date ?mod)" "length (http_date ?mod) \<le> 40"
    using http_date_bounds [of "now w"] http_date_bounds [of ?mod] assms(1,6) by (auto simp: short_def)
  have t: "clean ?type" "length ?type \<le> 499"
    using assms(1,5) clean_subst [of "charset w" "typ" "''%s''"] by (simp_all add: short_def snprintf_def clean_take)
  have s: "length (dec_nat st) \<le> 3" "length SERVER_SOFTWARE = 21" "clean SERVER_SOFTWARE" "length CRLF = 2"
    using length_dec_nat [of 3 st] assms(4) by (simp_all add: SERVER_SOFTWARE_def CRLF_def)
  have "length (lines_text ?ls) < 1000" using n t s assms(3) by simp
  then have "status_lines w hc st title typ md = lines_text ?ls"
    unfolding status_lines_def by (subst snprintf_fits) simp_all
  moreover have "list_all (\<lambda>l. l \<noteq> [] \<and> clean l) ?ls"
    using n t s assms(1,2) by (simp add: short_def clean_take)
  ultimately show ?thesis by (intro exI [of _ ?ls]) simp
qed

definition content_lines :: "http_conn \<Rightarrow> bool \<Rightarrow> int \<Rightarrow> string list" where
  "content_lines hc partial len =
     (if partial
      then [''Content-Range: bytes '' @ dec_int (first_byte_index hc) @ ''-'' @ dec_int (last_byte_index hc) @ ''/'' @ dec_int len,
            ''Content-Length: '' @ dec_int (last_byte_index hc - first_byte_index hc + 1)]
      else if 0 \<le> len then [''Content-Length: '' @ dec_int len] else [])"

lemma length_lines_framed:
  assumes "\<bar>len\<bar> < 2 ^ 63" "\<bar>first_byte_index hc\<bar> < 2 ^ 62" "\<bar>last_byte_index hc\<bar> < 2 ^ 62"
  shows "concat (length_lines hc partial len) = lines_text (content_lines hc partial len)"
proof -
  have "length (dec_int len) \<le> 20" "length (dec_int (first_byte_index hc)) \<le> 20" "length (dec_int (last_byte_index hc)) \<le> 20"
    "length (dec_int (last_byte_index hc - first_byte_index hc + 1)) \<le> 20"
    using assms by (simp_all add: length_dec_int_long)
  then show ?thesis
    by (simp add: length_lines_def content_lines_def snprintf_fits CRLF_def)
qed

lemma content_lines_clean: "list_all (\<lambda>l. l \<noteq> [] \<and> clean l) (content_lines hc partial len)"
  by (simp add: content_lines_def)

lemma mime_lines_framed:
  assumes "short w hc" "clean title" "length title \<le> 100" "st < 1000"
    "clean typ" "md = 0 \<or> printable md" "clean enc" "length enc \<le> 900"
    "extraheads = lines_text xs" "list_all (\<lambda>l. l \<noteq> [] \<and> clean l) xs"
    "\<bar>len\<bar> < 2 ^ 63" "\<bar>first_byte_index hc\<bar> < 2 ^ 62" "\<bar>last_byte_index hc\<bar> < 2 ^ 62"
  shows "\<exists>ls. concat (mime_lines w hc partial st title enc extraheads typ len md) = lines_text ls @ CRLF \<and>
    list_all (\<lambda>l. l \<noteq> [] \<and> clean l) ls \<and> hd ls = take 20 (protocol hc) @ '' '' @ dec_nat st @ '' '' @ title \<and>
    set (content_lines hc partial len) \<subseteq> set ls"
proof -
  obtain l1 where l1: "status_lines w hc st title typ md = lines_text l1" "list_all (\<lambda>l. l \<noteq> [] \<and> clean l) l1"
    "l1 \<noteq> []" "hd l1 = take 20 (protocol hc) @ '' '' @ dec_nat st @ '' '' @ title"
    using status_lines_framed [OF assms(1-6)] by blast
  define l2 where "l2 = (if st div 100 \<noteq> 2 \<and> st div 100 \<noteq> 3 then [''Cache-Control: no-cache,no-store''] else [])"
  define l3 where "l3 = (if enc \<noteq> [] then [''Content-Encoding: '' @ enc] else [])"
  define l4 where "l4 = (if p3p w \<noteq> [] then [''P3P: '' @ p3p w] else [])"
  define l5 where "l5 = (if 0 \<le> max_age w
    then [''Cache-Control: max-age='' @ dec_int (max_age w), ''Expires: '' @ http_date (now w + max_age w)] else [])"
  let ?cl = "content_lines hc partial len"
  have cl: "concat (length_lines hc partial len) = lines_text ?cl" by (rule length_lines_framed [OF assms(11-13)])
  have d5: "0 \<le> max_age w \<Longrightarrow> clean (http_date (now w + max_age w)) \<and> length (http_date (now w + max_age w)) \<le> 40"
    using assms(1) http_date_bounds by (simp add: short_def)
  have "0 \<le> max_age w \<Longrightarrow> length (dec_int (max_age w)) \<le> 20"
    using assms(1) by (intro length_dec_int_long) (auto simp: short_def printable_def)
  then have m5: "concat (max_age_lines w) = lines_text l5"
    using d5 by (cases "0 \<le> max_age w") (simp_all add: max_age_lines_def l5_def snprintf_fits CRLF_def)
  have c: "concat (if st div 100 \<noteq> 2 \<and> st div 100 \<noteq> 3
        then [snprintf 1000 (''Cache-Control: no-cache,no-store'' @ CRLF)] else []) = lines_text l2"
    "concat (if enc \<noteq> [] then [snprintf 1000 (''Content-Encoding: '' @ enc @ CRLF)] else []) = lines_text l3"
    "concat (if p3p w \<noteq> [] then [snprintf 1000 (''P3P: '' @ p3p w @ CRLF)] else []) = lines_text l4"
    "concat (if extraheads \<noteq> [] then [extraheads] else []) = lines_text xs"
    using assms(1,8,9) by (simp_all add: l2_def l3_def l4_def snprintf_fits CRLF_def short_def)
  let ?ls = "l1 @ l2 @ l3 @ ?cl @ l4 @ l5 @ xs"
  have "concat (mime_lines w hc partial st title enc extraheads typ len md) = lines_text ?ls @ CRLF"
    unfolding mime_lines_def concat_append c cl m5 l1(1) lines_text_append
    by (simp add: l1(1))
  moreover have "list_all (\<lambda>l. l \<noteq> [] \<and> clean l) ?ls"
    using l1(2) assms(1,7,10) d5 content_lines_clean [of hc partial len]
    by (simp add: l2_def l3_def l4_def l5_def short_def)
  moreover have "hd ?ls = hd l1" using l1(3) by simp
  ultimately show ?thesis using l1(4) by (intro exI [of _ ?ls]) auto
qed

lemma partial_upd:
  "partial_content (hc\<lparr>status := x, bytes_to_send := y\<rparr>) mt st len = partial_content hc mt st len"
  by (simp add: partial_content_def)



definition small_site :: site where
  "small_site = \<lparr>charset = ''UTF-8'', p3p = [], max_age = 60, page_vhost = False, page_file = (\<lambda>f. None), now = 1700000000\<rparr>"

definition range_conn :: http_conn where
  "range_conn = (with_request [])\<lparr>protocol := ''HTTP/1.1'', got_range := True, first_byte_index := 10, last_byte_index := 19\<rparr>"


section \<open>Error pages\<close>

definition escape :: "char \<Rightarrow> string" where
  "escape c = (if c = CHR ''<'' then ''&lt;'' else if c = CHR ''>'' then ''&gt;'' else [c])"

definition no_tag :: "string \<Rightarrow> bool" where
  "no_tag s \<longleftrightarrow> CHR ''<'' \<notin> set s \<and> CHR ''>'' \<notin> set s"

lemma defang_loop_safe:
  "no_tag out \<Longrightarrow> length out < n \<Longrightarrow> no_tag (defang_loop n out s) \<and> length (defang_loop n out s) < n"
proof (induction n out s rule: defang_loop.induct)
  case (2 n out c s)
  show ?case
  proof (cases "length out < n - 5")
    case True
    then have "length out + 4 < n" by linarith
    then have "length (out @ escape c) < n" by (simp add: escape_def)
    moreover have "no_tag (out @ escape c)" using "2.prems"(1) by (simp add: no_tag_def escape_def)
    ultimately show ?thesis using "2.IH" [OF True] True by (simp add: escape_def)
  next
    case False
    with "2.prems" show ?thesis by simp
  qed
qed simp

lemma defang_loop_all:
  "length out + 4 * length s \<le> n - 5 \<Longrightarrow> defang_loop n out s = out @ concat (map escape s)"
proof (induction s arbitrary: out)
  case (Cons c s)
  have "length (escape c) \<le> 4" by (simp add: escape_def)
  with Cons.IH [of "out @ escape c"] Cons.prems show ?case by (simp add: escape_def)
qed simp

lemma no_tag_subst: "no_tag r \<Longrightarrow> no_tag s \<Longrightarrow> no_tag (subst_first p r s)"
proof (induction p r s rule: subst_first.induct)
  case (2 p r c s)
  then have "no_tag (drop (length p) (c # s))" by (auto simp: no_tag_def dest!: in_set_dropD)
  with 2 show ?case by (auto simp: no_tag_def)
qed simp

definition page_tail :: string where
  "page_tail = pending (send_response_tail idle_conn)"

lemma no_tag_take: "no_tag s \<Longrightarrow> no_tag (take n s)"
  by (auto simp: no_tag_def dest: in_set_takeD)

lemma tail_pending:
  "response_ok hc \<Longrightarrow> pending (send_response_tail hc) = pending hc @ page_tail \<and> response_ok (send_response_tail hc)"
proof -
  have "response_ok idle_conn" "pending idle_conn = []" by (simp_all add: response_ok_def pending_def idle_conn_def no_buf_def)
  then show "response_ok hc \<Longrightarrow> ?thesis"
    by (simp add: send_response_tail_def page_tail_def add_response_pending)
qed

lemma send_mime_ok: "response_ok hc \<Longrightarrow> response_ok (send_mime w mt hc st title enc xh typ len md)"
  by (simp add: send_mime_def Let_def fold_response_pending)

lemma send_mime_useragent: "useragent (send_mime w mt hc st title enc xh typ len md) = useragent hc"
  by (simp add: send_mime_def Let_def)

lemma length_subst: "length (subst_first p r s) \<le> length r + length s"
  by (induction p r s rule: subst_first.induct) auto

lemma length_escapes: "length (concat (map escape s)) \<le> 4 * length s"
  by (induction s) (auto simp: escape_def)

text \<open>C23: no markup of a client gets into an error page: behind the headers and the template's head stands the form with at most
  80 characters of the defanged argument; it holds no angle bracket, and a short argument is there in full, escaped.\<close>

theorem error_page_defanged:
  assumes "response_ok hc" "no_tag form"
  shows "\<exists>txt. pending (send_response w mt hc st title xh form a) =
      pending (send_mime w mt hc st title [] xh ''text/html; charset=%s'' (-1) 0) @
        snprintf 2000 (page_head st title) @ txt @
        (if match ''**MSIE**'' (useragent hc) then concat padding else []) @ page_tail \<and>
    no_tag txt \<and> length (defang a 1000) < 1000 \<and>
    (length a \<le> 20 \<and> length form \<le> 1000 \<longrightarrow> txt = subst_first ''%.80s'' (concat (map escape a)) form)"
proof -
  let ?txt = "snprintf 2000 (subst_first ''%.80s'' (take 80 (defang a 1000)) form)"
  have m: "response_ok (send_mime w mt hc st title [] xh ''text/html; charset=%s'' (-1) 0)" by (rule send_mime_ok [OF assms(1)])
  have d: "no_tag (defang a 1000)" "length (defang a 1000) < 1000"
    using defang_loop_safe [of "[]" 1000 a] by (simp_all add: defang_def no_tag_def)
  have "no_tag ?txt"
    using assms(2) d(1) by (simp add: snprintf_def no_tag_take no_tag_subst)
  moreover have "?txt = subst_first ''%.80s'' (concat (map escape a)) form" if l: "length a \<le> 20" "length form \<le> 1000"
  proof -
    have "defang a 1000 = concat (map escape a)" using defang_loop_all [of "[]" a 1000] l by (simp add: defang_def)
    moreover have "length (concat (map escape a)) \<le> 80" using length_escapes [of a] l by simp
    ultimately show ?thesis
      using l length_subst [of "''%.80s''" "concat (map escape a)" form] by (simp add: snprintf_fits)
  qed
  moreover have "pending (send_response w mt hc st title xh form a) =
      pending (send_mime w mt hc st title [] xh ''text/html; charset=%s'' (-1) 0) @
        snprintf 2000 (page_head st title) @ ?txt @
        (if match ''**MSIE**'' (useragent hc) then concat padding else []) @ page_tail"
    unfolding send_response_def Let_def
    by (simp add: tail_pending fold_response_pending add_response_pending m send_mime_useragent)
  ultimately show ?thesis using d(2) by blast
qed

theorem error_page_defanged_witness:
  "\<exists>txt. pending (send_response small_site 0 range_conn 404 err404title [] err404form ''/<b>'') =
      pending (send_mime small_site 0 range_conn 404 err404title [] [] ''text/html; charset=%s'' (-1) 0) @
        snprintf 2000 (page_head 404 err404title) @ txt @ page_tail \<and>
    txt = ''The requested URL '/&lt;b&gt;' was not found on this server.'' @ [LF]"
proof -
  have a: "response_ok range_conn" "no_tag err404form" by code_simp+
  have b: "\<not> match ''**MSIE**'' (useragent range_conn)" "length ''/<b>'' \<le> 20 \<and> length err404form \<le> 1000"
    "subst_first ''%.80s'' (concat (map escape ''/<b>'')) err404form =
       ''The requested URL '/&lt;b&gt;' was not found on this server.'' @ [LF]" by code_simp+
  from error_page_defanged [OF a, of small_site 0 404 err404title "[]" "''/<b>''"] show ?thesis
    using b(1,2) unfolding b(3) by simp
qed

section \<open>Redirects\<close>

lemma snprintf_last: "n = length s + 1 \<Longrightarrow> snprintf n (s @ [c]) = s"
  by (simp add: snprintf_def)

lemma redirect_fresh:
  "str (query hc) = [] \<Longrightarrow>
   redirect_texts (0, 0) hc = (encodedurl hc @ ''/'', ''Location: '' @ encodedurl hc @ ''/'' @ CRLF,
     max 200 (length (encodedurl hc) + 101), max 200 (length (encodedurl hc) + 112))"
  by (auto simp: redirect_texts_def Let_def httpd_realloc_str_def snprintf_def CRLF_def)

text \<open>The first redirect to a directory is right; but a later one whose text is exactly as long as the buffers left by
  the first (a URL 100 characters longer) loses the slash and the line feed: the client is sent to the same URL again.\<close>

theorem redirect_to_itself:
  assumes "str (query hc1) = []" "str (query hc2) = []" "99 \<le> length (encodedurl hc1)"
    "length (encodedurl hc2) = length (encodedurl hc1) + 100"
  shows "case redirect_texts (0, 0) hc1 of
    (location, header, sizes) \<Rightarrow> location = encodedurl hc1 @ ''/'' \<and>
      fst (redirect_texts sizes hc2) = encodedurl hc2 \<and>
      fst (snd (redirect_texts sizes hc2)) = ''Location: '' @ encodedurl hc2 @ [CR]"
proof -
  let ?u = "encodedurl hc2"
  have s: "max 200 (length (encodedurl hc1) + 101) = length ?u + 1" "max 200 (length (encodedurl hc1) + 112) = length ?u + 12"
    using assms(3,4) by simp_all
  have k: "httpd_realloc_str (length ?u + 1) \<lparr>str = [], maxsize = length ?u + 1\<rparr> = \<lparr>str = [], maxsize = length ?u + 1\<rparr>"
    "httpd_realloc_str (length ''Location: '' + 1 + length ?u) \<lparr>str = [], maxsize = length ?u + 12\<rparr> =
      \<lparr>str = [], maxsize = length ?u + 12\<rparr>"
    by (simp_all add: httpd_realloc_str_def)
  have l: "snprintf (length ?u + 1) (?u @ ''/'') = ?u"
    "snprintf (length ?u + 12) (''Location: '' @ ?u @ CRLF) = ''Location: '' @ ?u @ [CR]"
    using snprintf_last [of "length ?u + 1" ?u] snprintf_last [of "length ?u + 12" "''Location: '' @ ?u @ [CR]"]
    by (simp_all add: CRLF_def)
  have "redirect_texts (length ?u + 1, length ?u + 12) hc2 = (?u, ''Location: '' @ ?u @ [CR], length ?u + 1, length ?u + 12)"
    unfolding redirect_texts_def Let_def fst_conv snd_conv assms(2) using k l by simp
  then show ?thesis unfolding redirect_fresh [OF assms(1)] s by simp
qed

definition url_conn :: "nat \<Rightarrow> http_conn" where
  "url_conn n = idle_conn\<lparr>encodedurl := replicate n (CHR ''x'')\<rparr>"

theorem redirect_to_itself_witness:
  "fst (redirect_texts (snd (snd (redirect_texts (0, 0) (url_conn 100)))) (url_conn 200)) = encodedurl (url_conn 200)"
proof -
  have a: "str (query (url_conn 100)) = []" "str (query (url_conn 200)) = []" "99 \<le> length (encodedurl (url_conn 100))"
    "length (encodedurl (url_conn 200)) = length (encodedurl (url_conn 100)) + 100"
    by (simp_all add: url_conn_def idle_conn_def no_buf_def)
  from redirect_to_itself [OF a] show ?thesis by (simp only: case_prod_beta)
qed

end
