(* ===== verification/Th_Mmc.thy ===== *)
theory Th_Mmc
  imports Prelude
begin

text \<open>
  The cache of mapped files of \<open>src/others/thttpd-2.29/mmc.c\<close>: the active maps and the free entries
  (the two chains through \<open>next\<close> are lists of addresses), the open-addressing hash table from a
  file's stat data to its map, the counters, and the ageing of unreferenced maps. An operation is
  \<open>None\<close> when it reads or writes outside the table or never returns.
\<close>

section \<open>The state\<close>

definition DEFAULT_EXPIRE_AGE :: int where "DEFAULT_EXPIRE_AGE = 600"
definition DESIRED_FREE_COUNT :: int where "DESIRED_FREE_COUNT = 100"
definition DESIRED_MAX_MAPPED_FILES :: int where "DESIRED_MAX_MAPPED_FILES = 1000"
definition DESIRED_MAX_MAPPED_BYTES :: int where "DESIRED_MAX_MAPPED_BYTES = 1000000000"
definition INITIAL_HASH_SIZE :: int where "INITIAL_HASH_SIZE = 1024"

record stat_data =
  st_ino :: "64 word"
  st_dev :: "64 word"
  st_size :: int
  st_ctime :: int

record map_entry =
  m_ino :: "64 word"
  m_dev :: "64 word"
  m_size :: int
  m_ct :: int
  refcount :: int
  reftime :: int
  m_addr :: nat
  m_hash :: "32 word"
  hash_idx :: nat

record mmc =
  entries :: "nat \<Rightarrow> map_entry"  \<comment> \<open>the \<open>Map\<close> structs by address\<close>
  maps :: "nat list"
  free_maps :: "nat list"
  alloc_count :: int
  map_count :: int
  free_count :: int
  hash_table :: "nat option list option"  \<comment> \<open>\<open>None\<close>: the null pointer\<close>
  hash_size :: int
  hash_mask :: "32 word"
  expire_age :: int
  mapped_bytes :: int

definition mmc_start :: mmc where
  "mmc_start = \<lparr>entries = (\<lambda>a. \<lparr>m_ino = 0, m_dev = 0, m_size = 0, m_ct = 0, refcount = 0, reftime = 0,
      m_addr = 0, m_hash = 0, hash_idx = 0\<rparr>), maps = [], free_maps = [], alloc_count = 0,
     map_count = 0, free_count = 0, hash_table = None, hash_size = 0, hash_mask = 0,
     expire_age = DEFAULT_EXPIRE_AGE, mapped_bytes = 0\<rparr>"

definition set_entry :: "nat \<Rightarrow> (map_entry \<Rightarrow> map_entry) \<Rightarrow> mmc \<Rightarrow> mmc" where
  "set_entry m f s = s\<lparr>entries := (entries s)(m := f (entries s m))\<rparr>"

section \<open>The hash table\<close>

definition map_hash :: "32 word \<Rightarrow> 64 word \<Rightarrow> 64 word \<Rightarrow> int \<Rightarrow> int \<Rightarrow> 32 word" where
  \<comment> \<open>\<open>hash_mask\<close>, \<open>ino\<close>, \<open>dev\<close>, \<open>size\<close>, \<open>ct\<close>\<close>
  "map_hash msk i d sz c =
     (let h0 = 177573; h1 = xor h0 (ucast i); h2 = h1 + push_bit 5 h1;
          h3 = xor h2 (ucast d); h4 = h3 + push_bit 5 h3;
          h5 = xor h4 (word_of_int sz); h6 = h5 + push_bit 5 h5; h7 = xor h6 (word_of_int c)
      in and h7 msk)"

partial_function (option) add_probe ::
  "nat option list \<Rightarrow> 32 word \<Rightarrow> 32 word \<Rightarrow> 32 word \<Rightarrow> nat option option" where
  \<comment> \<open>the loop of \<open>add_hash\<close> from slot \<open>i\<close>: the free slot, or none up to \<open>he\<close>\<close>
  "add_probe t msk he i =
     (if length t \<le> unat i then None
      else if t ! unat i = None then Some (Some (unat i))
      else if i = he then Some None
      else add_probe t msk he (and (i + 1) msk))"

definition add_hash :: "nat \<Rightarrow> mmc \<Rightarrow> (bool \<times> mmc) option" where
  "add_hash m s =
     (let e = entries s m; h = map_hash (hash_mask s) (m_ino e) (m_dev e) (m_size e) (m_ct e);
          he = and (h + word_of_int (hash_size s) - 1) (hash_mask s)
      in case hash_table s of
           None \<Rightarrow> None
         | Some t \<Rightarrow>
             (case add_probe t (hash_mask s) he h of
                None \<Rightarrow> None
              | Some None \<Rightarrow> Some (False, s)
              | Some (Some i) \<Rightarrow>
                  Some (True, set_entry m (\<lambda>e. e\<lparr>m_hash := h, hash_idx := i\<rparr>)
                                (s\<lparr>hash_table := Some (t[i := Some m])\<rparr>))))"

definition is_file :: "map_entry \<Rightarrow> 64 word \<Rightarrow> 64 word \<Rightarrow> int \<Rightarrow> int \<Rightarrow> bool" where
  "is_file e i d sz c \<longleftrightarrow> m_ino e = i \<and> m_dev e = d \<and> m_size e = sz \<and> m_ct e = c"

partial_function (option) find_probe ::
  "nat option list \<Rightarrow> (nat \<Rightarrow> bool) \<Rightarrow> 32 word \<Rightarrow> 32 word \<Rightarrow> 32 word \<Rightarrow> nat option option" where
  \<comment> \<open>the loop of \<open>find_hash\<close>; the second argument is the test of a map\<close>
  "find_probe t wanted msk he i =
     (if length t \<le> unat i then None
      else if t ! unat i = None then Some None
      else if wanted (the (t ! unat i)) then Some (t ! unat i)
      else if i = he then Some None
      else find_probe t wanted msk he (and (i + 1) msk))"

definition find_hash :: "64 word \<Rightarrow> 64 word \<Rightarrow> int \<Rightarrow> int \<Rightarrow> mmc \<Rightarrow> nat option option" where
  "find_hash i d sz c s =
     (let h = map_hash (hash_mask s) i d sz c; he = and (h + word_of_int (hash_size s) - 1) (hash_mask s)
      in case hash_table s of
           None \<Rightarrow> None
         | Some t \<Rightarrow> find_probe t (\<lambda>m. m_hash (entries s m) = h \<and> is_file (entries s m) i d sz c)
                       (hash_mask s) he h)"

fun add_all :: "nat list \<Rightarrow> mmc \<Rightarrow> (bool \<times> mmc) option" where
  "add_all [] s = Some (True, s)"
| "add_all (m # ms) s =
     (case add_hash m s of
        None \<Rightarrow> None
      | Some (added, s1) \<Rightarrow> if added then add_all ms s1 else Some (False, s1))"

definition make_table :: "bool \<Rightarrow> int \<Rightarrow> mmc \<Rightarrow> (bool \<times> mmc) option" where
  \<comment> \<open>\<open>room\<close>: \<open>malloc\<close> gives the table\<close>
  "make_table room n s =
     (let s1 = s\<lparr>hash_size := n, hash_mask := word_of_int n - 1\<rparr>
      in if room then add_all (maps s1) (s1\<lparr>hash_table := Some (replicate (nat n) None)\<rparr>)
         else Some (False, s1\<lparr>hash_table := None\<rparr>))"

partial_function (option) double_size :: "int \<Rightarrow> int \<Rightarrow> int option" where
  "double_size count n = (if 2 * n < count * 6 then double_size count (2 * n) else Some (2 * n))"

definition check_hash_size :: "bool \<Rightarrow> mmc \<Rightarrow> (bool \<times> mmc) option" where
  "check_hash_size room s =
     (case hash_table s of
        None \<Rightarrow> make_table room INITIAL_HASH_SIZE s
      | Some t \<Rightarrow>
          if map_count s * 3 \<le> hash_size s then Some (True, s)
          else (case double_size (map_count s) (hash_size s) of
                  None \<Rightarrow> None | Some n \<Rightarrow> make_table room n s))"

section \<open>Unmapping\<close>

definition really_unmap :: "nat list \<Rightarrow> nat \<Rightarrow> nat list \<Rightarrow> mmc \<Rightarrow> mmc option" where
  \<comment> \<open>\<open>mm\<close> is the link between the maps in front and \<open>m\<close>; a failing \<open>munmap\<close> is only logged\<close>
  "really_unmap front m rest s =
     (let e = entries s m
      in case hash_table s of
           None \<Rightarrow> None
         | Some t \<Rightarrow>
             if hash_idx e < length t
             then Some (s\<lparr>mapped_bytes := mapped_bytes s - m_size e, maps := front @ rest,
                          map_count := map_count s - 1, free_maps := m # free_maps s,
                          free_count := free_count s + 1, hash_table := Some (t[hash_idx e := None])\<rparr>)
             else None)"

fun sweep :: "(map_entry \<Rightarrow> bool) \<Rightarrow> nat list \<Rightarrow> nat list \<Rightarrow> mmc \<Rightarrow> mmc option" where
  \<comment> \<open>the loops of \<open>mmc_cleanup\<close>, \<open>panic\<close> and \<open>mmc_term\<close> over the active maps\<close>
  "sweep dead front [] s = Some s"
| "sweep dead front (m # ms) s =
     (if dead (entries s m)
      then (case really_unmap front m ms s of None \<Rightarrow> None | Some s1 \<Rightarrow> sweep dead front ms s1)
      else sweep dead (front @ [m]) ms s)"

definition panic :: "mmc \<Rightarrow> mmc option" where
  "panic s = sweep (\<lambda>e. refcount e = 0) [] (maps s) s"

definition adjust_age :: "mmc \<Rightarrow> mmc" where
  "adjust_age s =
     (if DESIRED_MAX_MAPPED_BYTES < mapped_bytes s
      then s\<lparr>expire_age := max (expire_age s * 2 div 3) (DEFAULT_EXPIRE_AGE div 10)\<rparr>
      else if DESIRED_MAX_MAPPED_FILES < map_count s
      then s\<lparr>expire_age := max (expire_age s * 2 div 3) (DEFAULT_EXPIRE_AGE div 10)\<rparr>
      else if map_count s < DESIRED_MAX_MAPPED_FILES div 2
      then s\<lparr>expire_age := min (expire_age s * 5 div 4) (DEFAULT_EXPIRE_AGE * 3)\<rparr>
      else s)"

fun free_entries :: "int \<Rightarrow> nat list \<Rightarrow> mmc \<Rightarrow> mmc option" where
  \<comment> \<open>while more than \<open>keep\<close> are on the free list; \<open>NULL->next\<close> faults\<close>
  "free_entries keep fm s =
     (if keep < free_count s
      then (case fm of
              [] \<Rightarrow> None
            | m # ms \<Rightarrow> free_entries keep ms (s\<lparr>free_maps := ms, free_count := free_count s - 1,
                                              alloc_count := alloc_count s - 1\<rparr>))
      else Some s)"

declare free_entries.simps [simp del]

definition mmc_cleanup :: "int \<Rightarrow> mmc \<Rightarrow> mmc option" where
  "mmc_cleanup now s =
     (case sweep (\<lambda>e. refcount e = 0 \<and> expire_age s \<le> now - reftime e) [] (maps s) s of
        None \<Rightarrow> None
      | Some s1 \<Rightarrow> free_entries DESIRED_FREE_COUNT (free_maps s1) (adjust_age s1))"

fun free_all :: "nat list \<Rightarrow> mmc \<Rightarrow> mmc" where
  "free_all [] s = s"
| "free_all (m # ms) s =
     free_all ms (s\<lparr>free_maps := ms, free_count := free_count s - 1, alloc_count := alloc_count s - 1\<rparr>)"

definition mmc_term :: "mmc \<Rightarrow> mmc option" where
  "mmc_term s =
     (case sweep (\<lambda>e. True) [] (maps s) s of None \<Rightarrow> None | Some s1 \<Rightarrow> Some (free_all (free_maps s1) s1))"

definition map_counts_add_up :: "mmc \<Rightarrow> bool" where
  \<comment> \<open>what \<open>mmc_logstats\<close> checks\<close>
  "map_counts_add_up s \<longleftrightarrow> map_count s + free_count s = alloc_count s"

section \<open>Mapping\<close>

datatype mmap_result = Mapped nat | Enomem | Mmap_error

record map_env =
  stat_result :: "stat_data option"  \<comment> \<open>\<open>*sbP\<close>, or what \<open>stat\<close> gives\<close>
  map_now :: int
  table_room :: bool  \<comment> \<open>\<open>malloc\<close> of the hash table succeeds\<close>
  open_ok :: bool
  entry_room :: "nat option"  \<comment> \<open>\<open>malloc\<close> of a \<open>Map\<close>\<close>
  mmap_1 :: mmap_result
  mmap_2 :: mmap_result  \<comment> \<open>the second try, after \<open>panic\<close>\<close>

definition map_region :: "map_env \<Rightarrow> int \<Rightarrow> mmc \<Rightarrow> (nat option \<times> mmc) option" where
  \<comment> \<open>the address for the file's bytes; files of length 0 are not mapped\<close>
  "map_region v sz s =
     (if sz = 0 then Some (Some 1, s)
      else (case mmap_1 v of
              Mapped a \<Rightarrow> Some (Some a, s)
            | Mmap_error \<Rightarrow> Some (None, s)
            | Enomem \<Rightarrow>
                (case panic s of
                   None \<Rightarrow> None
                 | Some s1 \<Rightarrow> (case mmap_2 v of Mapped a \<Rightarrow> Some (Some a, s1) | _ \<Rightarrow> Some (None, s1)))))"

definition take_entry :: "nat option \<Rightarrow> mmc \<Rightarrow> (nat \<times> mmc) option" where
  "take_entry room s =
     (case free_maps s of
        m # ms \<Rightarrow> Some (m, s\<lparr>free_maps := ms, free_count := free_count s - 1\<rparr>)
      | [] \<Rightarrow> (case room of None \<Rightarrow> None | Some m \<Rightarrow> Some (m, s\<lparr>alloc_count := alloc_count s + 1\<rparr>)))"

definition new_map :: "map_env \<Rightarrow> stat_data \<Rightarrow> mmc \<Rightarrow> (nat option \<times> mmc) option" where
  \<comment> \<open>\<open>mmc_map\<close> from \<open>open\<close> on\<close>
  "new_map v sb s =
     (if \<not> open_ok v then Some (None, s)
      else (case take_entry (entry_room v) s of
              None \<Rightarrow> Some (None, s)
            | Some (m, s1) \<Rightarrow>
                (case map_region v (st_size sb)
                        (set_entry m (\<lambda>e. e\<lparr>m_ino := st_ino sb, m_dev := st_dev sb, m_size := st_size sb,
                           m_ct := st_ctime sb, refcount := 1, reftime := map_now v\<rparr>) s1) of
                   None \<Rightarrow> None
                 | Some (None, s2) \<Rightarrow> Some (None, s2\<lparr>alloc_count := alloc_count s2 - 1\<rparr>)
                 | Some (Some a, s2) \<Rightarrow>
                     (case add_hash m (set_entry m (\<lambda>e. e\<lparr>m_addr := a\<rparr>) s2) of
                        None \<Rightarrow> None
                      | Some (added, s3) \<Rightarrow>
                          if added
                          then Some (Some a, s3\<lparr>maps := m # maps s3, map_count := map_count s3 + 1,
                                       mapped_bytes := mapped_bytes s3 + m_size (entries s3 m)\<rparr>)
                          else Some (None, s3\<lparr>alloc_count := alloc_count s3 - 1\<rparr>)))))"

definition mmc_map :: "map_env \<Rightarrow> mmc \<Rightarrow> (nat option \<times> mmc) option" where
  "mmc_map v s =
     (case stat_result v of
        None \<Rightarrow> Some (None, s)
      | Some sb \<Rightarrow>
          (case check_hash_size (table_room v) s of
             None \<Rightarrow> None
           | Some (good, s1) \<Rightarrow>
               if \<not> good then Some (None, s1)
               else (case find_hash (st_ino sb) (st_dev sb) (st_size sb) (st_ctime sb) s1 of
                       None \<Rightarrow> None
                     | Some (Some m) \<Rightarrow>
                         Some (Some (m_addr (entries s1 m)),
                               set_entry m (\<lambda>e. e\<lparr>refcount := refcount e + 1, reftime := map_now v\<rparr>) s1)
                     | Some None \<Rightarrow> new_map v sb s1)))"

definition unmap_target :: "nat \<Rightarrow> stat_data option \<Rightarrow> mmc \<Rightarrow> nat option option" where
  "unmap_target a sb s =
     (case (case sb of
              None \<Rightarrow> Some None
            | Some d \<Rightarrow>
                (case find_hash (st_ino d) (st_dev d) (st_size d) (st_ctime d) s of
                   None \<Rightarrow> None
                 | Some None \<Rightarrow> Some None
                 | Some (Some m) \<Rightarrow> Some (if m_addr (entries s m) \<noteq> a then None else Some m))) of
        None \<Rightarrow> None
      | Some None \<Rightarrow> Some (find (\<lambda>m. m_addr (entries s m) = a) (maps s))
      | Some (Some m) \<Rightarrow> Some (Some m))"

definition mmc_unmap :: "nat \<Rightarrow> stat_data option \<Rightarrow> int \<Rightarrow> mmc \<Rightarrow> mmc option" where
  "mmc_unmap a sb now s =
     (case unmap_target a sb s of
        None \<Rightarrow> None
      | Some None \<Rightarrow> Some s
      | Some (Some m) \<Rightarrow>
          Some (if refcount (entries s m) \<le> 0 then s
                else set_entry m (\<lambda>e. e\<lparr>refcount := refcount e - 1, reftime := now\<rparr>) s))"

section \<open>Probing\<close>

lemma and_mask_mod: "unat (and (w :: 32 word) (mask k)) = unat w mod 2 ^ k"
  by (simp flip: take_bit_eq_mask take_bit_eq_mod add: unsigned_take_bit_eq)

lemma unat_next:
  assumes "k \<le> 30" "unat (i :: 32 word) < 2 ^ k"
  shows "unat (and (i + 1) (mask k)) = (unat i + 1) mod 2 ^ k"
proof -
  have "(2 :: nat) ^ k \<le> 2 ^ 30" using assms(1) by (rule power_increasing) simp
  with assms(2) have "unat i + 1 < 2 ^ 32" by simp
  then have "unat (i + 1) = unat i + 1" by (simp add: unat_word_ariths)
  then show ?thesis by (simp only: and_mask_mod)
qed

lemma unat_last:
  assumes "k \<le> 30" "unat (h :: 32 word) < 2 ^ k"
  shows "unat (and (h + word_of_int (2 ^ k) - 1) (mask k)) = (unat h + 2 ^ k - 1) mod 2 ^ k"
proof -
  have p: "(2 :: nat) ^ k \<le> 2 ^ 30" using assms(1) by (rule power_increasing) simp
  have "(1 :: nat) \<le> 2 ^ k" by simp
  then have "word_of_nat (2 ^ k - 1) = (word_of_nat (2 ^ k) - word_of_nat 1 :: 32 word)"
    by (rule of_nat_diff)
  then have "word_of_nat (unat h + (2 ^ k - 1)) = h + (2 ^ k - 1 :: 32 word)"
    by (simp only: of_nat_add of_nat_unat ucast_id of_nat_power of_nat_numeral of_nat_1)
  then have e: "h + word_of_int (2 ^ k) - 1 = word_of_nat (unat h + 2 ^ k - 1)"
    using \<open>1 \<le> 2 ^ k\<close> by (simp only: Nat.add_diff_assoc of_int_power of_int_numeral add_diff_eq)
  have "unat h + 2 ^ k - 1 < 2 ^ 32" using p assms(2) by simp
  then have "unat (word_of_nat (unat h + 2 ^ k - 1) :: 32 word) = unat h + 2 ^ k - 1"
    by (simp add: unsigned_of_nat take_bit_nat_eq_self del: of_nat_diff)
  then show ?thesis unfolding e and_mask_mod by simp
qed

lemma map_hash_bound: "unat (map_hash (mask k) i d sz c) < 2 ^ k"
  by (simp add: map_hash_def Let_def and_mask_mod)

lemma mask_of_size: "word_of_int (2 ^ k) - 1 = (mask k :: 32 word)"
  by (simp add: mask_eq_decr_exp)

lemma mod_shift_inject:
  assumes "((h :: nat) + a) mod n = (h + b) mod n" "a < n" "b < n"
  shows "a = b"
proof -
  have *: "\<lbrakk>x \<le> y; y < n; (h + x) mod n = (h + y) mod n\<rbrakk> \<Longrightarrow> x = y" for x y
    using mod_eq_dvd_iff_nat [of "h + x" "h + y" n] nat_dvd_not_less [of "y - x" n] by fastforce
  show ?thesis using * [of a b] * [of b a] assms by (cases "a \<le> b") auto
qed

lemma mod_shift_onto: "(j :: nat) < n \<Longrightarrow> h < n \<Longrightarrow> \<exists>d<n. (h + d) mod n = j"
  by (rule exI [of _ "(j + (n - h)) mod n"]) (simp add: mod_add_right_eq)

lemma add_probe_free:
  assumes "k \<le> 30" "length t = 2 ^ k"
    and "unat i < 2 ^ k" "\<And>e. e < d \<Longrightarrow> t ! ((unat i + e) mod 2 ^ k) \<noteq> None \<and> (unat i + e) mod 2 ^ k \<noteq> unat he"
    and "t ! ((unat i + d) mod 2 ^ k) = None"
  shows "add_probe t (mask k) he i = Some (Some ((unat i + d) mod 2 ^ k))"
  using assms(3-5)
proof (induction d arbitrary: i)
  case 0
  then show ?case using assms(2) by (simp add: add_probe.simps)
next
  case (Suc d)
  let ?j = "and (i + 1) (mask k)"
  have j: "unat ?j = (unat i + 1) mod 2 ^ k" using unat_next assms(1) Suc.prems(1) by blast
  then have s: "(unat ?j + e) mod 2 ^ k = (unat i + Suc e) mod 2 ^ k" for e
    by (simp add: mod_add_left_eq)
  have "add_probe t (mask k) he ?j = Some (Some ((unat ?j + d) mod 2 ^ k))"
  proof (rule Suc.IH)
    show "t ! ((unat ?j + e) mod 2 ^ k) \<noteq> None \<and> (unat ?j + e) mod 2 ^ k \<noteq> unat he" if "e < d" for e
      unfolding s using Suc.prems(2) [of "Suc e"] that by simp
    show "t ! ((unat ?j + d) mod 2 ^ k) = None" unfolding s by (rule Suc.prems(3))
  qed (simp add: j)
  moreover have "t ! unat i \<noteq> None" "i \<noteq> he"
    using Suc.prems(2) [of 0] Suc.prems(1) by auto
  ultimately show ?case
    using Suc.prems(1) assms(2) s [of d] by (subst add_probe.simps) (auto simp del: add_Suc_right)
qed

lemma find_probe_total:
  assumes "k \<le> 30" "length t = 2 ^ k"
    and "unat i < 2 ^ k" "(unat i + d) mod 2 ^ k = unat he"
  shows "find_probe t wanted (mask k) he i = Some None \<or>
    (\<exists>j m. find_probe t wanted (mask k) he i = Some (Some m) \<and> j < length t \<and> t ! j = Some m \<and> wanted m)"
  using assms(3,4)
proof (induction d arbitrary: i)
  case 0
  then have "i = he" by (simp add: word_unat_eq_iff)
  then show ?case using 0 assms(2)
    by (subst (1 2) find_probe.simps) (auto intro: exI [of _ "unat i"])
next
  case (Suc d)
  let ?j = "and (i + 1) (mask k)"
  have j: "unat ?j = (unat i + 1) mod 2 ^ k" using unat_next assms(1) Suc.prems(1) by blast
  from Suc.IH [of ?j] Suc.prems show ?case
    using assms(2) by (subst (1 2) find_probe.simps) (auto simp: j mod_add_left_eq intro: exI [of _ "unat i"])
qed

section \<open>The table holds exactly the active maps\<close>

definition slots :: "nat option list \<Rightarrow> (nat \<Rightarrow> map_entry) \<Rightarrow> nat set \<Rightarrow> bool" where
  "slots t ent M \<longleftrightarrow>
     (\<forall>i<length t. \<forall>m. t ! i = Some m \<longrightarrow> m \<in> M \<and> hash_idx (ent m) = i) \<and>
     (\<forall>m\<in>M. hash_idx (ent m) < length t \<and> t ! hash_idx (ent m) = Some m)"

definition table_ok :: "mmc \<Rightarrow> nat set \<Rightarrow> bool" where
  "table_ok s M \<longleftrightarrow>
     (\<exists>k t. hash_table s = Some t \<and> 10 \<le> k \<and> k \<le> 30 \<and> hash_size s = 2 ^ k \<and> hash_mask s = mask k \<and>
        length t = 2 ^ k \<and> slots t (entries s) M)"

lemma table_okI:
  "\<lbrakk>hash_table s = Some t; 10 \<le> k; k \<le> 30; hash_size s = 2 ^ k; hash_mask s = mask k; length t = 2 ^ k;
    slots t (entries s) M\<rbrakk> \<Longrightarrow> table_ok s M"
  unfolding table_ok_def by blast

lemma table_okE:
  assumes "table_ok s M"
  obtains k t where "hash_table s = Some t" "10 \<le> k" "k \<le> 30" "hash_size s = 2 ^ k" "hash_mask s = mask k"
    "length t = 2 ^ k" "slots t (entries s) M"
  using assms unfolding table_ok_def by blast

lemma slotsD:
  assumes "slots t ent M"
  shows "i < length t \<Longrightarrow> t ! i = Some m \<Longrightarrow> m \<in> M \<and> hash_idx (ent m) = i"
    and "m \<in> M \<Longrightarrow> hash_idx (ent m) < length t \<and> t ! hash_idx (ent m) = Some m"
  using assms unfolding slots_def by blast+

lemma slots_free:
  assumes "slots t ent M" "finite M" "card M < length t"
  shows "\<exists>j<length t. t ! j = None"
proof (rule ccontr)
  assume n: "\<not> ?thesis"
  have "j \<in> (\<lambda>m. hash_idx (ent m)) ` M" if l: "j < length t" for j
  proof -
    obtain m where "t ! j = Some m" using n l by (cases "t ! j") auto
    with slotsD(1) [OF assms(1) l, of m] show ?thesis by blast
  qed
  then have "{0 ..< length t} \<subseteq> (\<lambda>m. hash_idx (ent m)) ` M" by auto
  then have "length t \<le> card ((\<lambda>m. hash_idx (ent m)) ` M)"
    using card_mono [of "(\<lambda>m. hash_idx (ent m)) ` M" "{0 ..< length t}"] assms(2) by simp
  also have "\<dots> \<le> card M" using assms(2) by (rule card_image_le)
  finally show False using assms(3) by simp
qed

lemma slotsI:
  assumes "\<And>i m. i < length t \<Longrightarrow> t ! i = Some m \<Longrightarrow> m \<in> M \<and> hash_idx (ent m) = i"
    and "\<And>m. m \<in> M \<Longrightarrow> hash_idx (ent m) < length t \<and> t ! hash_idx (ent m) = Some m"
  shows "slots t ent M"
  using assms unfolding slots_def by blast

lemma slots_add:
  assumes s: "slots t ent M" and m: "m \<notin> M" and i: "i < length t" "t ! i = None"
  shows "slots (t[i := Some m]) (ent(m := (ent m)\<lparr>m_hash := h, hash_idx := i\<rparr>)) (insert m M)"
proof (rule slotsI)
  fix j a assume j: "j < length (t[i := Some m])" "t[i := Some m] ! j = Some a"
  show "a \<in> insert m M \<and> hash_idx ((ent(m := (ent m)\<lparr>m_hash := h, hash_idx := i\<rparr>)) a) = j"
  proof (cases "j = i")
    case True
    with j i show ?thesis by simp
  next
    case False
    with j have "t ! j = Some a" "j < length t" by simp_all
    with slotsD(1) [OF s] m have "a \<in> M" "hash_idx (ent a) = j" "a \<noteq> m" by blast+
    then show ?thesis by simp
  qed
next
  fix a assume a: "a \<in> insert m M"
  show "hash_idx ((ent(m := (ent m)\<lparr>m_hash := h, hash_idx := i\<rparr>)) a) < length (t[i := Some m]) \<and>
      t[i := Some m] ! hash_idx ((ent(m := (ent m)\<lparr>m_hash := h, hash_idx := i\<rparr>)) a) = Some a"
  proof (cases "a = m")
    case False
    with a slotsD(2) [OF s, of a] have "hash_idx (ent a) < length t" "t ! hash_idx (ent a) = Some a" by blast+
    moreover from this i have "i \<noteq> hash_idx (ent a)" by auto
    ultimately show ?thesis using False by simp
  qed (use i in simp)
qed

lemma slots_remove:
  assumes s: "slots t ent M" and m: "m \<in> M"
  shows "slots (t[hash_idx (ent m) := None]) ent (M - {m})"
proof (rule slotsI)
  fix j a assume j: "j < length (t[hash_idx (ent m) := None])" "t[hash_idx (ent m) := None] ! j = Some a"
  then have n: "j \<noteq> hash_idx (ent m)" by auto
  with j have "t ! j = Some a" "j < length t" by simp_all
  with slotsD(1) [OF s] n show "a \<in> M - {m} \<and> hash_idx (ent a) = j" by blast
next
  fix a assume "a \<in> M - {m}"
  with slotsD(2) [OF s, of a] slotsD(2) [OF s m]
  show "hash_idx (ent a) < length (t[hash_idx (ent m) := None]) \<and>
      t[hash_idx (ent m) := None] ! hash_idx (ent a) = Some a"
    by (metis Diff_iff insertI1 length_list_update nth_list_update_neq option.inject)
qed

lemma slots_cong:
  assumes "\<And>m. m \<in> M \<Longrightarrow> hash_idx (ent' m) = hash_idx (ent m)" "slots t ent M"
  shows "slots t ent' M"
  using slotsD [OF assms(2)] assms(1) by (intro slotsI) simp_all

lemma add_hash_ok:
  assumes "table_ok s M" "finite M" "int (card M) < hash_size s" "m \<notin> M"
  shows "\<exists>h i t. add_hash m s =
      Some (True, set_entry m (\<lambda>e. e\<lparr>m_hash := h, hash_idx := i\<rparr>) (s\<lparr>hash_table := Some t\<rparr>)) \<and>
    table_ok (set_entry m (\<lambda>e. e\<lparr>m_hash := h, hash_idx := i\<rparr>) (s\<lparr>hash_table := Some t\<rparr>)) (insert m M)"
proof -
  obtain k t where k: "hash_table s = Some t" "10 \<le> k" "k \<le> 30" "hash_size s = 2 ^ k" "hash_mask s = mask k"
    "length t = 2 ^ k" "slots t (entries s) M" using assms(1) by (rule table_okE)
  define e where "e = entries s m"
  define h where "h = map_hash (hash_mask s) (m_ino e) (m_dev e) (m_size e) (m_ct e)"
  define he where "he = and (h + word_of_int (hash_size s) - 1) (hash_mask s)"
  have h: "unat h < 2 ^ k" unfolding h_def k(5) by (rule map_hash_bound)
  have he: "unat he = (unat h + (2 ^ k - 1)) mod 2 ^ k"
    unfolding he_def k(4,5) using unat_last [OF k(3) h] by simp
  have "int (card M) < int (2 ^ k)" using assms(3) k(4) by simp
  then have "card M < length t" unfolding k(6) using of_nat_less_iff by blast
  then obtain j where j: "j < 2 ^ k" "t ! j = None" using slots_free [OF k(7) assms(2)] k(6) by auto
  define P where "P d \<longleftrightarrow> t ! ((unat h + d) mod 2 ^ k) = None" for d
  obtain d0 where d0: "d0 < 2 ^ k" "P d0" using mod_shift_onto [OF j(1) h] j(2) P_def by auto
  define d where "d = (LEAST d. P d)"
  have d: "P d" "\<And>e. e < d \<Longrightarrow> \<not> P e" "d < 2 ^ k"
    using LeastI [of P, OF d0(2)] not_less_Least [of _ P] Least_le [of P, OF d0(2)] d0(1)
    unfolding d_def by (blast, blast, linarith)
  define i where "i = (unat h + d) mod 2 ^ k"
  have p: "add_probe t (mask k) he h = Some (Some i)" unfolding i_def
  proof (rule add_probe_free)
    show "t ! ((unat h + e) mod 2 ^ k) \<noteq> None \<and> (unat h + e) mod 2 ^ k \<noteq> unat he" if "e < d" for e
      using d(2) [OF that] that d(3) mod_shift_inject [of "unat h" e "2 ^ k" "2 ^ k - 1"]
      unfolding P_def he by auto
  qed (use k h d(1) P_def in auto)
  have i: "i < length t" "t ! i = None" using d(1) k(6) unfolding i_def P_def by simp_all
  have "add_hash m s =
      Some (True, set_entry m (\<lambda>e. e\<lparr>m_hash := h, hash_idx := i\<rparr>) (s\<lparr>hash_table := Some (t[i := Some m])\<rparr>))"
    unfolding add_hash_def Let_def using p k(1,5) by (simp add: h_def he_def e_def)
  moreover have "table_ok (set_entry m (\<lambda>e. e\<lparr>m_hash := h, hash_idx := i\<rparr>) (s\<lparr>hash_table := Some (t[i := Some m])\<rparr>))
      (insert m M)"
    by (rule table_okI [of _ "t[i := Some m]" k])
       (use k slots_add [OF k(7) assms(4) i] in \<open>simp_all add: set_entry_def\<close>)
  ultimately show ?thesis by blast
qed

lemma find_hash_ok:
  assumes "table_ok s M"
  shows "\<exists>r. find_hash i d sz c s = Some r \<and>
    (\<forall>m. r = Some m \<longrightarrow> m \<in> M \<and> is_file (entries s m) i d sz c)"
proof -
  obtain k t where k: "hash_table s = Some t" "10 \<le> k" "k \<le> 30" "hash_size s = 2 ^ k" "hash_mask s = mask k"
    "length t = 2 ^ k" "slots t (entries s) M" using assms by (rule table_okE)
  define h where "h = map_hash (mask k) i d sz c"
  define he where "he = and (h + word_of_int (2 ^ k) - 1) (mask k)"
  have h: "unat h < 2 ^ k" unfolding h_def by (rule map_hash_bound)
  have he: "(unat h + (2 ^ k - 1)) mod 2 ^ k = unat he"
    unfolding he_def using unat_last [OF k(3) h] by simp
  show ?thesis
    using find_probe_total [OF k(3,6) h he, of "\<lambda>m. m_hash (entries s m) = h \<and> is_file (entries s m) i d sz c"]
      slotsD(1) [OF k(7)] k(1) unfolding find_hash_def Let_def k(4,5) h_def [symmetric] he_def [symmetric]
    by (elim disjE exE conjE) simp_all
qed

definition unhash :: "map_entry \<Rightarrow> map_entry" where
  "unhash e = e\<lparr>m_hash := 0, hash_idx := 0\<rparr>"

definition same_files :: "mmc \<Rightarrow> mmc \<Rightarrow> bool" where
  \<comment> \<open>only the hash data differ\<close>
  "same_files s s' \<longleftrightarrow>
     (\<forall>m. unhash (entries s' m) = unhash (entries s m)) \<and> maps s' = maps s \<and> free_maps s' = free_maps s \<and>
     alloc_count s' = alloc_count s \<and> map_count s' = map_count s \<and> free_count s' = free_count s \<and>
     expire_age s' = expire_age s \<and> mapped_bytes s' = mapped_bytes s"

lemma unhash_fields:
  "unhash e' = unhash e \<Longrightarrow> m_ino e' = m_ino e \<and> m_dev e' = m_dev e \<and> m_size e' = m_size e \<and> m_ct e' = m_ct e \<and>
     refcount e' = refcount e \<and> reftime e' = reftime e \<and> m_addr e' = m_addr e"
  by (cases e; cases e') (simp add: unhash_def)

lemma same_files_fields:
  assumes "same_files s s'"
  shows "maps s' = maps s" "free_maps s' = free_maps s" "alloc_count s' = alloc_count s"
    "map_count s' = map_count s" "free_count s' = free_count s" "expire_age s' = expire_age s"
    "mapped_bytes s' = mapped_bytes s"
    "m_ino (entries s' m) = m_ino (entries s m)" "m_dev (entries s' m) = m_dev (entries s m)"
    "m_size (entries s' m) = m_size (entries s m)" "m_ct (entries s' m) = m_ct (entries s m)"
    "refcount (entries s' m) = refcount (entries s m)" "reftime (entries s' m) = reftime (entries s m)"
    "m_addr (entries s' m) = m_addr (entries s m)"
  using assms unhash_fields [of "entries s' m" "entries s m"] unfolding same_files_def by simp_all

lemma same_files_refl [simp]: "same_files s s"
  by (simp add: same_files_def)

lemma same_files_trans: "same_files s s' \<Longrightarrow> same_files s' s'' \<Longrightarrow> same_files s s''"
  by (simp add: same_files_def)

lemma same_files_add [simp]:
  "same_files s (set_entry m (\<lambda>e. e\<lparr>m_hash := h, hash_idx := i\<rparr>) (s\<lparr>hash_table := t\<rparr>))"
  by (simp add: same_files_def set_entry_def unhash_def)

lemma hash_size_add [simp]: "hash_size (set_entry m f s) = hash_size s"
  by (simp add: set_entry_def)

lemma table_size: "table_ok s M \<Longrightarrow> \<exists>k. 10 \<le> k \<and> k \<le> 30 \<and> hash_size s = 2 ^ k"
  by (auto elim: table_okE)

lemma add_all_ok:
  assumes "table_ok s M" "finite M" "distinct xs" "set xs \<inter> M = {}" "int (card M + length xs) \<le> hash_size s"
  shows "\<exists>s'. add_all xs s = Some (True, s') \<and> same_files s s' \<and> hash_size s' = hash_size s \<and>
    table_ok s' (M \<union> set xs)"
  using assms
proof (induction xs arbitrary: s M)
  case (Cons m xs)
  obtain h i t where a: "add_hash m s =
      Some (True, set_entry m (\<lambda>e. e\<lparr>m_hash := h, hash_idx := i\<rparr>) (s\<lparr>hash_table := Some t\<rparr>))"
    and o: "table_ok (set_entry m (\<lambda>e. e\<lparr>m_hash := h, hash_idx := i\<rparr>) (s\<lparr>hash_table := Some t\<rparr>)) (insert m M)"
    using add_hash_ok [of s M m] Cons.prems by auto
  define s1 where "s1 = set_entry m (\<lambda>e. e\<lparr>m_hash := h, hash_idx := i\<rparr>) (s\<lparr>hash_table := Some t\<rparr>)"
  have f: "same_files s s1" "hash_size s1 = hash_size s" unfolding s1_def by simp_all
  have "\<exists>s'. add_all xs s1 = Some (True, s') \<and> same_files s1 s' \<and> hash_size s' = hash_size s1 \<and>
      table_ok s' (insert m M \<union> set xs)"
    by (rule Cons.IH) (use Cons.prems o f in \<open>auto simp: s1_def [symmetric]\<close>)
  then show ?case using a f same_files_trans by (auto simp: s1_def [symmetric])
qed simp

lemma slots_empty: "slots (replicate n None) ent {}"
  by (simp add: slots_def)

lemma make_table_ok:
  assumes "10 \<le> k" "k \<le> 30" "distinct (maps s)" "int (length (maps s)) \<le> 2 ^ k"
  shows "\<exists>s'. make_table True (2 ^ k) s = Some (True, s') \<and> same_files s s' \<and> hash_size s' = 2 ^ k \<and>
    table_ok s' (set (maps s))"
proof -
  define s1 where "s1 = s\<lparr>hash_size := 2 ^ k, hash_mask := mask k,
    hash_table := Some (replicate (2 ^ k) None)\<rparr>"
  have o: "table_ok s1 {}"
    by (rule table_okI [of _ "replicate (2 ^ k) None" k]) (use assms in \<open>simp_all add: s1_def slots_empty\<close>)
  have e: "make_table True (2 ^ k) s = add_all (maps s) s1"
    unfolding make_table_def Let_def s1_def by (simp add: nat_power_eq mask_eq_decr_exp)
  have f: "same_files s s1" "hash_size s1 = 2 ^ k" by (simp_all add: s1_def same_files_def)
  then show ?thesis
    using add_all_ok [OF o, of "maps s"] assms e same_files_trans [OF f(1)] by auto
qed

lemma double_size_ok:
  assumes "10 \<le> k" "k \<le> 29" "count < 2 ^ 27"
  shows "\<exists>k'. k < k' \<and> k' \<le> 30 \<and> double_size count (2 ^ k) = Some (2 ^ k') \<and> count * 6 \<le> 2 ^ k'"
  using assms(1,2)
proof (induction "30 - k" arbitrary: k rule: less_induct)
  case less
  show ?case
  proof (cases "2 * 2 ^ k < count * 6")
    case True
    then have "(2 :: int) ^ (k + 1) < 2 ^ 30" using assms(3) by simp
    then have "k + 1 < 30" by (rule power_less_imp_less_exp [rotated]) simp
    then have "30 - (k + 1) < 30 - k" "10 \<le> k + 1" "k + 1 \<le> 29" using less.prems by simp_all
    from less.hyps [OF this] obtain k' where "k + 1 < k'" "k' \<le> 30"
      "double_size count (2 ^ (k + 1)) = Some (2 ^ k')" "count * 6 \<le> 2 ^ k'" by blast
    with True show ?thesis by (intro exI [of _ k']) (simp add: double_size.simps [of count "2 ^ k"])
  next
    case False
    then show ?thesis using less.prems
      by (intro exI [of _ "k + 1"]) (simp add: double_size.simps [of count "2 ^ k"])
  qed
qed

definition tabled :: "mmc \<Rightarrow> bool" where
  "tabled s \<longleftrightarrow> (if hash_table s = None then maps s = [] else table_ok s (set (maps s)))"

lemma check_hash_size_ok:
  assumes "tabled s" "distinct (maps s)" "map_count s = int (length (maps s))" "map_count s < 2 ^ 27"
  shows "\<exists>s'. check_hash_size True s = Some (True, s') \<and> same_files s s' \<and> table_ok s' (set (maps s')) \<and>
    map_count s' < hash_size s'"
proof (cases "hash_table s")
  case None
  then have "maps s = []" using assms(1) by (simp add: tabled_def)
  then obtain s' where "make_table True (2 ^ 10) s = Some (True, s')" "same_files s s'" "hash_size s' = 2 ^ 10"
    "table_ok s' (set (maps s))"
    using make_table_ok [of 10 s] by auto
  with None \<open>maps s = []\<close> assms(3) show ?thesis
    by (auto simp: check_hash_size_def INITIAL_HASH_SIZE_def same_files_fields)
next
  case (Some t)
  then have o: "table_ok s (set (maps s))" using assms(1) by (simp add: tabled_def)
  then obtain k where k: "10 \<le> k" "k \<le> 30" "hash_size s = 2 ^ k" using table_size by blast
  show ?thesis
  proof (cases "map_count s * 3 \<le> hash_size s")
    case True
    have "0 < hash_size s" using k by simp
    with True have "map_count s < hash_size s" by linarith
    with True Some o show ?thesis by (auto simp: check_hash_size_def)
  next
    case False
    then have "(2 :: int) ^ k < 2 ^ 30" using assms(4) k by simp
    then have "k \<le> 29" using power_less_imp_less_exp [of "2 :: int" k 30] by simp
    then obtain k' where k': "k < k'" "k' \<le> 30" "double_size (map_count s) (2 ^ k) = Some (2 ^ k')"
      "map_count s * 6 \<le> 2 ^ k'"
      using double_size_ok k assms(4) by blast
    have "int (length (maps s)) \<le> 2 ^ k'" using k'(4) assms(3) by linarith
    then obtain s' where s': "make_table True (2 ^ k') s = Some (True, s')" "same_files s s'" "hash_size s' = 2 ^ k'"
      "table_ok s' (set (maps s))"
      using make_table_ok [of k' s] k k' assms(2) by auto
    have "(0 :: int) < 2 ^ k'" by simp
    then have "map_count s < 2 ^ k'" using k'(4) by linarith
    with False Some k k' s' show ?thesis by (auto simp: check_hash_size_def same_files_fields)
  qed
qed

section \<open>The invariant\<close>

definition mmc_inv :: "int \<Rightarrow> mmc \<Rightarrow> bool" where
  \<comment> \<open>with \<open>c\<close> entries allocated that are on neither list\<close>
  "mmc_inv c s \<longleftrightarrow>
     distinct (maps s @ free_maps s) \<and> map_count s = int (length (maps s)) \<and>
     free_count s = int (length (free_maps s)) \<and> alloc_count s = map_count s + free_count s + c \<and>
     mapped_bytes s = sum_list (map (\<lambda>m. m_size (entries s m)) (maps s)) \<and>
     60 \<le> expire_age s \<and> expire_age s \<le> 1800 \<and> list_all (\<lambda>m. 0 \<le> refcount (entries s m)) (maps s) \<and> tabled s"

lemma mmc_invI:
  "\<lbrakk>distinct (maps s @ free_maps s); map_count s = int (length (maps s));
    free_count s = int (length (free_maps s)); alloc_count s = map_count s + free_count s + c;
    mapped_bytes s = sum_list (map (\<lambda>m. m_size (entries s m)) (maps s));
    60 \<le> expire_age s; expire_age s \<le> 1800; list_all (\<lambda>m. 0 \<le> refcount (entries s m)) (maps s); tabled s\<rbrakk>
   \<Longrightarrow> mmc_inv c s"
  unfolding mmc_inv_def by blast

lemma mmc_invD:
  assumes "mmc_inv c s"
  shows "distinct (maps s @ free_maps s)" "distinct (maps s)" "map_count s = int (length (maps s))"
    "free_count s = int (length (free_maps s))" "alloc_count s = map_count s + free_count s + c"
    "mapped_bytes s = sum_list (map (\<lambda>m. m_size (entries s m)) (maps s))"
    "60 \<le> expire_age s" "expire_age s \<le> 1800" "list_all (\<lambda>m. 0 \<le> refcount (entries s m)) (maps s)" "tabled s"
  using assms unfolding mmc_inv_def by auto

lemma inv_same_files:
  assumes "mmc_inv c s" "same_files s s'" "tabled s'"
  shows "mmc_inv c s'"
  using mmc_invD [OF assms(1)] assms(3) unfolding mmc_inv_def
  by (simp add: same_files_fields [OF assms(2)])

lemma tabled_cong:
  assumes "tabled s" "maps s' = maps s" "hash_table s' = hash_table s" "hash_size s' = hash_size s"
    "hash_mask s' = hash_mask s" "\<And>m. m \<in> set (maps s) \<Longrightarrow> hash_idx (entries s' m) = hash_idx (entries s m)"
  shows "tabled s'"
proof (cases "hash_table s")
  case (Some t)
  then have "table_ok s (set (maps s))" using assms(1) by (simp add: tabled_def)
  then obtain k where k: "hash_table s = Some t" "10 \<le> k" "k \<le> 30" "hash_size s = 2 ^ k" "hash_mask s = mask k"
    "length t = 2 ^ k" "slots t (entries s) (set (maps s))" using Some by (auto elim: table_okE)
  then have "table_ok s' (set (maps s))"
    using slots_cong [OF assms(6) k(7)] assms(2-5) by (intro table_okI [of _ t k]) simp_all
  with Some assms(2,3) show ?thesis by (simp add: tabled_def)
qed (use assms in \<open>simp add: tabled_def\<close>)

lemma really_unmap_ok:
  assumes "mmc_inv c s" "maps s = front @ m # rest"
  shows "\<exists>t. really_unmap front m rest s =
      Some (s\<lparr>mapped_bytes := mapped_bytes s - m_size (entries s m), maps := front @ rest,
              map_count := map_count s - 1, free_maps := m # free_maps s,
              free_count := free_count s + 1, hash_table := Some t\<rparr>) \<and>
    mmc_inv c (s\<lparr>mapped_bytes := mapped_bytes s - m_size (entries s m), maps := front @ rest,
              map_count := map_count s - 1, free_maps := m # free_maps s,
              free_count := free_count s + 1, hash_table := Some t\<rparr>)"
proof -
  note inv = mmc_invD [OF assms(1)]
  have "table_ok s (set (maps s))" using inv(10) assms(2) by (simp add: tabled_def split: if_splits)
  then obtain k t where k: "hash_table s = Some t" "10 \<le> k" "k \<le> 30" "hash_size s = 2 ^ k" "hash_mask s = mask k"
    "length t = 2 ^ k" "slots t (entries s) (set (maps s))" by (rule table_okE)
  have m: "m \<in> set (maps s)" "set (maps s) - {m} = set (front @ rest)" using assms(2) inv(2) by auto
  let ?t = "t[hash_idx (entries s m) := None]"
  let ?s = "s\<lparr>mapped_bytes := mapped_bytes s - m_size (entries s m), maps := front @ rest,
              map_count := map_count s - 1, free_maps := m # free_maps s,
              free_count := free_count s + 1, hash_table := Some ?t\<rparr>"
  have "really_unmap front m rest s = Some ?s"
    using slotsD(2) [OF k(7) m(1)] k(1) by (simp add: really_unmap_def Let_def)
  moreover have "table_ok ?s (set (front @ rest))"
    by (rule table_okI [of _ ?t k]) (use k slots_remove [OF k(7) m(1)] m(2) in simp_all)
  then have "tabled ?s" by (simp add: tabled_def)
  then have "mmc_inv c ?s"
    by (rule mmc_invI [rotated 8]) (use inv assms(2) in auto)
  ultimately show ?thesis by blast
qed

definition swept :: "(map_entry \<Rightarrow> bool) \<Rightarrow> nat list \<Rightarrow> nat list \<Rightarrow> mmc \<Rightarrow> mmc \<Rightarrow> bool" where
  "swept dead front ms s s' \<longleftrightarrow>
     entries s' = entries s \<and> expire_age s' = expire_age s \<and> hash_size s' = hash_size s \<and>
     (hash_table s' = None \<longleftrightarrow> hash_table s = None) \<and>
     maps s' = front @ filter (\<lambda>m. \<not> dead (entries s m)) ms \<and>
     free_maps s' = rev (filter (\<lambda>m. dead (entries s m)) ms) @ free_maps s"

lemma sweep_ok:
  assumes "mmc_inv c s" "maps s = front @ ms"
  shows "\<exists>s'. sweep dead front ms s = Some s' \<and> mmc_inv c s' \<and> swept dead front ms s s'"
  using assms
proof (induction ms arbitrary: front s)
  case Nil
  then show ?case by (simp add: swept_def)
next
  case (Cons m ms)
  show ?case
  proof (cases "dead (entries s m)")
    case True
    obtain t where r: "really_unmap front m ms s =
        Some (s\<lparr>mapped_bytes := mapped_bytes s - m_size (entries s m), maps := front @ ms,
                map_count := map_count s - 1, free_maps := m # free_maps s,
                free_count := free_count s + 1, hash_table := Some t\<rparr>)"
      and i: "mmc_inv c (s\<lparr>mapped_bytes := mapped_bytes s - m_size (entries s m), maps := front @ ms,
                map_count := map_count s - 1, free_maps := m # free_maps s,
                free_count := free_count s + 1, hash_table := Some t\<rparr>)"
      using really_unmap_ok [OF Cons.prems] by blast
    from Cons.prems(2) mmc_invD(10) [OF Cons.prems(1)] have "hash_table s \<noteq> None"
      by (auto simp: tabled_def split: if_splits)
    with Cons.IH [OF i] r True show ?thesis by (auto simp: swept_def)
  next
    case False
    have "maps s = (front @ [m]) @ ms" using Cons.prems(2) by simp
    from Cons.IH [OF Cons.prems(1) this] False show ?thesis by (auto simp: swept_def)
  qed
qed

lemma free_entries_ok:
  assumes "mmc_inv 0 s" "0 \<le> keep"
  shows "\<exists>s' fm. free_entries keep (free_maps s) s = Some s' \<and> mmc_inv 0 s' \<and> free_count s' \<le> max keep (free_count s) \<and>
    s' = s\<lparr>free_maps := fm, free_count := free_count s', alloc_count := alloc_count s'\<rparr> \<and>
    set fm \<subseteq> set (free_maps s) \<and> free_count s' \<le> keep"
  using assms
proof (induction "free_maps s" arbitrary: s)
  case Nil
  then show ?case using mmc_invD(4) [OF Nil(2)]
    by (intro exI [of _ s] exI [of _ "free_maps s"]) (simp add: free_entries.simps)
next
  case (Cons m ms)
  show ?case
  proof (cases "keep < free_count s")
    case False
    then show ?thesis using Cons.prems
      by (intro exI [of _ s] exI [of _ "free_maps s"]) (simp add: free_entries.simps)
  next
    case True
    let ?s = "s\<lparr>free_maps := ms, free_count := free_count s - 1, alloc_count := alloc_count s - 1\<rparr>"
    note inv = mmc_invD [OF Cons.prems(1)]
    have "mmc_inv 0 ?s"
      by (rule mmc_invI) (use inv Cons.hyps(2) [symmetric] in \<open>auto simp: tabled_cong [OF inv(10)]\<close>)
    from Cons.hyps(1) [OF _ this Cons.prems(2)] obtain s' fm where
      "free_entries keep ms ?s = Some s'" "mmc_inv 0 s'" "set fm \<subseteq> set ms" "free_count s' \<le> keep"
      "s' = ?s\<lparr>free_maps := fm, free_count := free_count s', alloc_count := alloc_count s'\<rparr>" by auto
    with True Cons.hyps(2) show ?thesis
      by (intro exI [of _ s'] exI [of _ fm]) (auto simp: free_entries.simps [of keep "m # ms"] simp flip: Cons.hyps(2))
  qed
qed

section \<open>The operations keep it\<close>

definition keeps_referenced :: "mmc \<Rightarrow> mmc \<Rightarrow> bool" where
  "keeps_referenced s s' \<longleftrightarrow>
     (\<forall>m\<in>set (maps s). 0 < refcount (entries s m) \<longrightarrow>
        m \<in> set (maps s') \<and> m_addr (entries s' m) = m_addr (entries s m) \<and>
        m_size (entries s' m) = m_size (entries s m) \<and> refcount (entries s m) \<le> refcount (entries s' m))"

lemma referenced_refl: "keeps_referenced s s"
  by (simp add: keeps_referenced_def)

lemma referenced_trans: "keeps_referenced s s' \<Longrightarrow> keeps_referenced s' s'' \<Longrightarrow> keeps_referenced s s''"
  unfolding keeps_referenced_def by fastforce

lemma referenced_same_files: "same_files s s' \<Longrightarrow> keeps_referenced s s'"
  by (simp add: keeps_referenced_def same_files_fields)

lemma referenced_swept: "swept dead [] (maps s) s s' \<Longrightarrow> (\<And>e. dead e \<Longrightarrow> refcount e \<le> 0) \<Longrightarrow> keeps_referenced s s'"
  unfolding keeps_referenced_def swept_def by fastforce

lemma referenced_more:
  "\<lbrakk>\<And>m. m \<in> set (maps s) \<Longrightarrow> entries s' m = entries s m; set (maps s) \<subseteq> set (maps s')\<rbrakk> \<Longrightarrow> keeps_referenced s s'"
  by (auto simp: keeps_referenced_def)

lemma adjust_age_fields [simp]:
  "entries (adjust_age s) = entries s" "maps (adjust_age s) = maps s" "free_maps (adjust_age s) = free_maps s"
  "free_count (adjust_age s) = free_count s" "map_count (adjust_age s) = map_count s"
  "alloc_count (adjust_age s) = alloc_count s" "mapped_bytes (adjust_age s) = mapped_bytes s"
  "hash_table (adjust_age s) = hash_table s" "hash_size (adjust_age s) = hash_size s"
  "hash_mask (adjust_age s) = hash_mask s"
  by (simp_all add: adjust_age_def)

lemma adjust_age_ok: "mmc_inv c s \<Longrightarrow> mmc_inv c (adjust_age s)"
proof -
  assume "mmc_inv c s"
  note inv = mmc_invD [OF this]
  have age: "60 \<le> expire_age s * 5 div 4" "expire_age s * 2 div 3 \<le> 1800" using inv(7,8) by linarith+
  have "60 \<le> expire_age (adjust_age s)" "expire_age (adjust_age s) \<le> 1800"
    using inv(7,8) age by (simp_all add: adjust_age_def DEFAULT_EXPIRE_AGE_def)
  then show ?thesis using inv by (intro mmc_invI) (simp_all add: tabled_cong [OF inv(10)])
qed

lemma mmc_cleanup_ok:
  assumes "mmc_inv 0 s"
  shows "\<exists>s'. mmc_cleanup now s = Some s' \<and> mmc_inv 0 s' \<and> keeps_referenced s s' \<and>
    free_count s' \<le> DESIRED_FREE_COUNT \<and>
    maps s' = filter (\<lambda>m. \<not> (refcount (entries s m) = 0 \<and> expire_age s \<le> now - reftime (entries s m))) (maps s)"
proof -
  let ?dead = "\<lambda>e. refcount e = 0 \<and> expire_age s \<le> now - reftime e"
  obtain s1 where s1: "sweep ?dead [] (maps s) s = Some s1" "mmc_inv 0 s1" "swept ?dead [] (maps s) s s1"
    using sweep_ok [OF assms, of "[]"] by auto
  obtain s2 fm where s2: "free_entries DESIRED_FREE_COUNT (free_maps s1) (adjust_age s1) = Some s2" "mmc_inv 0 s2"
    "s2 = (adjust_age s1)\<lparr>free_maps := fm, free_count := free_count s2, alloc_count := alloc_count s2\<rparr>"
    "free_count s2 \<le> DESIRED_FREE_COUNT"
    using free_entries_ok [OF adjust_age_ok [OF s1(2)], of DESIRED_FREE_COUNT]
    by (auto simp: DESIRED_FREE_COUNT_def)
  have "maps s2 = maps s1" "entries s2 = entries s1" using arg_cong [OF s2(3), of maps] arg_cong [OF s2(3), of entries]
    by simp_all
  moreover have "keeps_referenced s s1" by (rule referenced_swept [OF s1(3)]) simp
  ultimately have "keeps_referenced s s2" "maps s2 = filter (\<lambda>m. \<not> ?dead (entries s m)) (maps s)"
    using s1(3) by (auto simp: keeps_referenced_def swept_def)
  with s1(1) s2(1,2,4) show ?thesis by (auto simp: mmc_cleanup_def)
qed

lemma free_all_fields:
  "free_maps s = fm \<Longrightarrow> free_all fm s =
     s\<lparr>free_maps := [], free_count := free_count s - int (length fm), alloc_count := alloc_count s - int (length fm)\<rparr>"
  by (induction fm arbitrary: s) auto

lemma mmc_term_ok:
  assumes "mmc_inv 0 s"
  shows "\<exists>s'. mmc_term s = Some s' \<and> mmc_inv 0 s' \<and> maps s' = [] \<and> alloc_count s' = 0 \<and> mapped_bytes s' = 0"
proof -
  obtain s1 where s1: "sweep (\<lambda>e. True) [] (maps s) s = Some s1" "mmc_inv 0 s1" "swept (\<lambda>e. True) [] (maps s) s s1"
    using sweep_ok [OF assms, of "[]"] by auto
  have m: "maps s1 = []" using s1(3) by (simp add: swept_def)
  note inv = mmc_invD [OF s1(2)]
  let ?s = "s1\<lparr>free_maps := [], free_count := free_count s1 - int (length (free_maps s1)),
    alloc_count := alloc_count s1 - int (length (free_maps s1))\<rparr>"
  have "mmc_inv 0 ?s" by (rule mmc_invI) (use inv m in \<open>auto simp: tabled_cong [OF inv(10)]\<close>)
  moreover have "mmc_term s = Some ?s" using s1(1) free_all_fields [of s1] by (simp add: mmc_term_def)
  ultimately show ?thesis using m inv(3-6) by auto
qed

lemma set_entry_fields [simp]:
  "maps (set_entry m f s) = maps s" "free_maps (set_entry m f s) = free_maps s"
  "map_count (set_entry m f s) = map_count s" "free_count (set_entry m f s) = free_count s"
  "alloc_count (set_entry m f s) = alloc_count s" "mapped_bytes (set_entry m f s) = mapped_bytes s"
  "expire_age (set_entry m f s) = expire_age s" "hash_table (set_entry m f s) = hash_table s"
  "hash_mask (set_entry m f s) = hash_mask s" "entries (set_entry m f s) = (entries s)(m := f (entries s m))"
  by (simp_all add: set_entry_def)

lemma set_entry_ok:
  assumes "mmc_inv c s" "m \<in> set (maps s) \<Longrightarrow> m_size (f (entries s m)) = m_size (entries s m) \<and>
     hash_idx (f (entries s m)) = hash_idx (entries s m) \<and> 0 \<le> refcount (f (entries s m))"
  shows "mmc_inv c (set_entry m f s)"
proof (rule mmc_invI)
  note inv = mmc_invD [OF assms(1)]
  have "sum_list (map (\<lambda>a. m_size (entries (set_entry m f s) a)) (maps s)) =
      sum_list (map (\<lambda>a. m_size (entries s a)) (maps s))"
    by (intro arg_cong [where f = sum_list] map_cong refl) (use assms(2) in auto)
  then show "mapped_bytes (set_entry m f s) =
      sum_list (map (\<lambda>a. m_size (entries (set_entry m f s) a)) (maps (set_entry m f s)))"
    using inv(6) by simp
  show "tabled (set_entry m f s)" by (rule tabled_cong [OF inv(10)]) (use assms(2) in auto)
  show "list_all (\<lambda>a. 0 \<le> refcount (entries (set_entry m f s) a)) (maps (set_entry m f s))"
    using inv(9) assms(2) by (auto simp: list_all_iff)
qed (use mmc_invD [OF assms(1)] in simp_all)

lemma unmap_target_ok:
  assumes "mmc_inv c s" "sb = None \<or> hash_table s \<noteq> None"
  shows "\<exists>r. unmap_target a sb s = Some r \<and> (\<forall>m. r = Some m \<longrightarrow> m \<in> set (maps s) \<and> m_addr (entries s m) = a)"
proof -
  have f: "m \<in> set (maps s) \<and> m_addr (entries s m) = a" if "find (\<lambda>m. m_addr (entries s m) = a) (maps s) = Some m" for m
    using that by (auto simp: find_Some_iff)
  show ?thesis
  proof (cases sb)
    case (Some d)
    with assms mmc_invD(10) [OF assms(1)] have "table_ok s (set (maps s))" by (simp add: tabled_def)
    then obtain r where r: "find_hash (st_ino d) (st_dev d) (st_size d) (st_ctime d) s = Some r"
      "\<forall>m. r = Some m \<longrightarrow> m \<in> set (maps s)"
      using find_hash_ok [of s "set (maps s)" "st_ino d" "st_dev d" "st_size d" "st_ctime d"] by blast
    show ?thesis
    proof (cases r)
      case None
      then show ?thesis using r Some f by (simp add: unmap_target_def)
    next
      case (Some m)
      then show ?thesis using r \<open>sb = Some d\<close> f by (cases "m_addr (entries s m) = a") (simp_all add: unmap_target_def)
    qed
  qed (use f in \<open>simp add: unmap_target_def\<close>)
qed

lemma mmc_unmap_ok:
  assumes "mmc_inv 0 s" "sb = None \<or> hash_table s \<noteq> None"
  shows "\<exists>s'. mmc_unmap a sb now s = Some s' \<and> mmc_inv 0 s' \<and> maps s' = maps s"
proof -
  obtain r where r: "unmap_target a sb s = Some r" using unmap_target_ok [OF assms] by blast
  show ?thesis
  proof (cases r)
    case None
    with r assms show ?thesis by (simp add: mmc_unmap_def)
  next
    case (Some m)
    with r set_entry_ok [OF assms(1), of m "\<lambda>e. e\<lparr>refcount := refcount e - 1, reftime := now\<rparr>"] assms(1)
    show ?thesis by (simp add: mmc_unmap_def)
  qed
qed

definition apart :: "nat \<Rightarrow> mmc \<Rightarrow> bool" where
  \<comment> \<open>the entry \<open>m\<close> is taken and on neither list\<close>
  "apart m s \<longleftrightarrow> mmc_inv 1 s \<and> m \<notin> set (maps s) \<and> m \<notin> set (free_maps s)"

lemma take_entry_ok:
  assumes "mmc_inv 0 s" "\<And>m. room = Some m \<Longrightarrow> m \<notin> set (maps s @ free_maps s)" "take_entry room s = Some (m, s1)"
  shows "apart m s1 \<and> maps s1 = maps s \<and> entries s1 = entries s \<and> hash_table s1 = hash_table s \<and> hash_size s1 = hash_size s"
proof -
  note inv = mmc_invD [OF assms(1)]
  show ?thesis
  proof (cases "free_maps s")
    case Nil
    with assms(3) have "s1 = s\<lparr>alloc_count := alloc_count s + 1\<rparr>" "room = Some m"
      by (auto simp: take_entry_def split: option.splits)
    moreover from this assms(2) [of m] have "mmc_inv 1 s1"
      by (intro mmc_invI) (use inv in \<open>auto simp: tabled_cong [OF inv(10)]\<close>)
    ultimately show ?thesis using assms(2) [of m] by (simp add: apart_def)
  next
    case (Cons a ms)
    with assms(3) have e: "s1 = s\<lparr>free_maps := ms, free_count := free_count s - 1\<rparr>" "a = m"
      by (auto simp: take_entry_def)
    then have "mmc_inv 1 s1"
      by (intro mmc_invI) (use inv Cons in \<open>auto simp: tabled_cong [OF inv(10)]\<close>)
    with e Cons inv(1) show ?thesis by (simp add: apart_def)
  qed
qed

lemma apart_set_entry: "apart m s \<Longrightarrow> apart m (set_entry m f s)"
  unfolding apart_def by (auto intro: set_entry_ok)

lemma apart_return:
  assumes "apart m s"
  shows "mmc_inv 0 (s\<lparr>alloc_count := alloc_count s - 1\<rparr>)"
proof -
  note inv = mmc_invD [OF assms [unfolded apart_def, THEN conjunct1]]
  show ?thesis by (rule mmc_invI) (use inv in \<open>simp_all add: tabled_cong [OF inv(10)]\<close>)
qed

definition served :: "map_env \<Rightarrow> bool" where
  \<comment> \<open>the system grants what \<open>mmc_map\<close> asks for\<close>
  "served v \<longleftrightarrow> open_ok v \<and> entry_room v \<noteq> None \<and> (case mmap_1 v of Mapped a \<Rightarrow> True | _ \<Rightarrow> False)"

lemma map_region_ok:
  assumes "apart m s"
  shows "\<exists>r s'. map_region v sz s = Some (r, s') \<and> apart m s' \<and> keeps_referenced s s' \<and> entries s' = entries s \<and>
    (served v \<longrightarrow> r \<noteq> None) \<and>
    hash_size s' = hash_size s \<and> length (maps s') \<le> length (maps s) \<and> (hash_table s' = None \<longleftrightarrow> hash_table s = None)"
proof -
  have i: "mmc_inv 1 s" using assms by (simp add: apart_def)
  obtain s1 where p: "panic s = Some s1" "mmc_inv 1 s1" "swept (\<lambda>e. refcount e = 0) [] (maps s) s s1"
    using sweep_ok [OF i, of "[]"] by (auto simp: panic_def)
  have a: "apart m s1" using p(2,3) assms by (auto simp: apart_def swept_def)
  have q: "keeps_referenced s s1" "entries s1 = entries s" "hash_size s1 = hash_size s"
      "length (maps s1) \<le> length (maps s)" "hash_table s1 = None \<longleftrightarrow> hash_table s = None"
    using p(3) referenced_swept [OF p(3)] by (simp_all add: swept_def)
  show ?thesis
    using assms referenced_refl [of s] p(1) a q
    by (cases "sz = 0"; cases "mmap_1 v"; cases "mmap_2 v") (simp_all add: map_region_def served_def)
qed

lemma apart_link:
  assumes "apart m s" "hash_table s \<noteq> None" "int (length (maps s)) < hash_size s" "0 \<le> refcount (entries s m)"
  shows "\<exists>s'. add_hash m s = Some (True, s') \<and> same_files s s' \<and>
    mmc_inv 0 (s'\<lparr>maps := m # maps s', map_count := map_count s' + 1,
                 mapped_bytes := mapped_bytes s' + m_size (entries s' m)\<rparr>)"
proof -
  have i: "mmc_inv 1 s" and m: "m \<notin> set (maps s)" "m \<notin> set (free_maps s)"
    using assms(1) by (simp_all add: apart_def)
  note inv = mmc_invD [OF i]
  have o: "table_ok s (set (maps s))" using inv(10) assms(2) by (simp add: tabled_def)
  have "int (card (set (maps s))) < hash_size s" using assms(3) inv(2) by (simp add: distinct_card)
  with add_hash_ok [OF o _ _ m(1)] obtain h k t where a: "add_hash m s =
      Some (True, set_entry m (\<lambda>e. e\<lparr>m_hash := h, hash_idx := k\<rparr>) (s\<lparr>hash_table := Some t\<rparr>))"
    and t: "table_ok (set_entry m (\<lambda>e. e\<lparr>m_hash := h, hash_idx := k\<rparr>) (s\<lparr>hash_table := Some t\<rparr>)) (insert m (set (maps s)))"
    by auto
  define s' where "s' = set_entry m (\<lambda>e. e\<lparr>m_hash := h, hash_idx := k\<rparr>) (s\<lparr>hash_table := Some t\<rparr>)"
  define s2 where "s2 = s'\<lparr>maps := m # maps s', map_count := map_count s' + 1,
                 mapped_bytes := mapped_bytes s' + m_size (entries s' m)\<rparr>"
  have f: "same_files s s'" unfolding s'_def by simp
  have "table_ok s2 (set (maps s2))" using t unfolding s'_def [symmetric] s2_def
    by (auto simp: table_ok_def same_files_fields [OF f])
  then have "tabled s2" by (auto simp: tabled_def elim: table_okE)
  then have "mmc_inv 0 s2"
    by (rule mmc_invI [rotated 8])
      (use inv m assms(4) in \<open>auto simp: s2_def same_files_fields [OF f]\<close>)
  then show ?thesis using a f unfolding s2_def s'_def by blast
qed

definition mapped_file :: "mmc \<Rightarrow> stat_data \<Rightarrow> nat \<Rightarrow> bool" where
  \<comment> \<open>some active map in use is this file at this address\<close>
  "mapped_file s sb a \<longleftrightarrow>
     list_ex (\<lambda>m. m_addr (entries s m) = a \<and> 0 < refcount (entries s m) \<and>
       is_file (entries s m) (st_ino sb) (st_dev sb) (st_size sb) (st_ctime sb)) (maps s)"

lemma new_map_ok:
  assumes "mmc_inv 0 s" "\<And>m. entry_room v = Some m \<Longrightarrow> m \<notin> set (maps s @ free_maps s)"
    "hash_table s \<noteq> None" "map_count s < hash_size s"
  shows "\<exists>r s'. new_map v sb s = Some (r, s') \<and> mmc_inv 0 s' \<and> keeps_referenced s s' \<and>
    (\<forall>a. r = Some a \<longrightarrow> mapped_file s' sb a) \<and> (served v \<longrightarrow> r \<noteq> None)"
proof (cases "open_ok v \<and> take_entry (entry_room v) s \<noteq> None")
  case False
  then have "\<not> open_ok v \<or> take_entry (entry_room v) s = None" by blast
  then have "new_map v sb s = Some (None, s)" by (elim disjE) (simp_all add: new_map_def)
  moreover have "\<not> served v" using False by (auto simp: served_def take_entry_def split: list.splits)
  ultimately show ?thesis using assms(1) referenced_refl [of s] by simp
next
  case True
  then obtain m s0 where t: "take_entry (entry_room v) s = Some (m, s0)" by auto
  from take_entry_ok [OF assms(1,2) t] have a0: "apart m s0" and e0: "maps s0 = maps s" "entries s0 = entries s"
    "hash_table s0 = hash_table s" "hash_size s0 = hash_size s" by auto
  define s1 where "s1 = set_entry m (\<lambda>e. e\<lparr>m_ino := st_ino sb, m_dev := st_dev sb, m_size := st_size sb,
                           m_ct := st_ctime sb, refcount := 1, reftime := map_now v\<rparr>) s0"
  have a1: "apart m s1" unfolding s1_def by (rule apart_set_entry [OF a0])
  have m: "m \<notin> set (maps s)" using a0 e0 by (simp add: apart_def)
  have k1: "keeps_referenced s s1" by (rule referenced_more) (use m e0 in \<open>auto simp: s1_def\<close>)
  obtain r s2 where r: "map_region v (st_size sb) s1 = Some (r, s2)" and a2: "apart m s2" and k2: "keeps_referenced s1 s2"
    and n: "served v \<longrightarrow> r \<noteq> None" and e2: "entries s2 = entries s1" "hash_size s2 = hash_size s1" "length (maps s2) \<le> length (maps s1)"
    "hash_table s2 = None \<longleftrightarrow> hash_table s1 = None"
    using map_region_ok [OF a1, of v "st_size sb"] by metis
  show ?thesis
  proof (cases r)
    case None
    with True t r n apart_return [OF a2] referenced_trans [OF k1 k2] show ?thesis
      by (simp add: new_map_def s1_def keeps_referenced_def)
  next
    case (Some a)
    define s3 where "s3 = set_entry m (\<lambda>e. e\<lparr>m_addr := a\<rparr>) s2"
    have a3: "apart m s3" unfolding s3_def by (rule apart_set_entry [OF a2])
    have m2: "m \<notin> set (maps s2)" using a2 by (simp add: apart_def)
    have k3: "keeps_referenced s2 s3" by (rule referenced_more) (use m2 in \<open>auto simp: s3_def\<close>)
    have "hash_size s3 = hash_size s" "hash_table s3 \<noteq> None" "length (maps s3) \<le> length (maps s)"
      using e0 e2 assms(3) by (simp_all add: s3_def s1_def)
    moreover have "map_count s = int (length (maps s))" using mmc_invD(3) [OF assms(1)] .
    ultimately obtain s4 where s4: "add_hash m s3 = Some (True, s4)" "same_files s3 s4"
      "mmc_inv 0 (s4\<lparr>maps := m # maps s4, map_count := map_count s4 + 1,
                 mapped_bytes := mapped_bytes s4 + m_size (entries s4 m)\<rparr>)"
      using apart_link [OF a3] assms(4) e2 by (auto simp: s3_def s1_def)
    define s5 where "s5 = s4\<lparr>maps := m # maps s4, map_count := map_count s4 + 1,
                 mapped_bytes := mapped_bytes s4 + m_size (entries s4 m)\<rparr>"
    have "keeps_referenced s4 s5" by (rule referenced_more) (auto simp: s5_def)
    then have "keeps_referenced s s5"
      using k1 k2 k3 referenced_same_files [OF s4(2)] referenced_trans by blast
    moreover have "mapped_file s5 sb a"
      by (simp add: mapped_file_def is_file_def s5_def same_files_fields [OF s4(2)]) (simp add: s3_def e2 s1_def)
    moreover have "new_map v sb s = Some (Some a, s5)"
      using True t r Some s4(1) by (simp add: new_map_def s1_def [symmetric] s3_def [symmetric] s5_def)
    ultimately show ?thesis using s4(3) by (auto simp: s5_def)
  qed
qed

lemma mmc_map_ok:
  assumes "mmc_inv 0 s" "\<And>m. entry_room v = Some m \<Longrightarrow> m \<notin> set (maps s @ free_maps s)"
    "table_room v" "map_count s < 2 ^ 27"
  shows "\<exists>r s'. mmc_map v s = Some (r, s') \<and> mmc_inv 0 s' \<and> keeps_referenced s s' \<and>
    (\<forall>a sb. r = Some a \<longrightarrow> stat_result v = Some sb \<longrightarrow> mapped_file s' sb a) \<and>
    (stat_result v \<noteq> None \<and> served v \<longrightarrow> r \<noteq> None)"
proof (cases "stat_result v")
  case None
  then show ?thesis using assms(1) referenced_refl [of s] by (simp add: mmc_map_def)
next
  case (Some sb)
  note inv = mmc_invD [OF assms(1)]
  obtain s1 where c: "check_hash_size True s = Some (True, s1)" "same_files s s1" "table_ok s1 (set (maps s1))"
    "map_count s1 < hash_size s1"
    using check_hash_size_ok [OF inv(10,2,3) assms(4)] by blast
  have i1: "mmc_inv 0 s1" by (rule inv_same_files [OF assms(1) c(2)]) (use c(3) in \<open>auto simp: tabled_def elim: table_okE\<close>)
  note k1 = referenced_same_files [OF c(2)]
  obtain r where r: "find_hash (st_ino sb) (st_dev sb) (st_size sb) (st_ctime sb) s1 = Some r"
    "\<forall>m. r = Some m \<longrightarrow> m \<in> set (maps s1) \<and> is_file (entries s1 m) (st_ino sb) (st_dev sb) (st_size sb) (st_ctime sb)"
    using find_hash_ok [OF c(3)] by blast
  show ?thesis
  proof (cases r)
    case None
    have "hash_table s1 \<noteq> None" using c(3) by (auto elim: table_okE)
    moreover have "\<And>m. entry_room v = Some m \<Longrightarrow> m \<notin> set (maps s1 @ free_maps s1)"
      using assms(2) by (simp add: same_files_fields [OF c(2)])
    ultimately obtain q s' where "new_map v sb s1 = Some (q, s')" "mmc_inv 0 s'" "keeps_referenced s1 s'"
      "\<forall>a. q = Some a \<longrightarrow> mapped_file s' sb a" "served v \<longrightarrow> q \<noteq> None"
      using new_map_ok [OF i1 _ _ c(4)] by blast
    with Some None c(1) r(1) assms(3) referenced_trans [OF k1] show ?thesis by (simp add: mmc_map_def)
  next
    case (Some m)
    with r(2) have m: "m \<in> set (maps s1)" "is_file (entries s1 m) (st_ino sb) (st_dev sb) (st_size sb) (st_ctime sb)"
      by blast+
    then have p: "0 \<le> refcount (entries s1 m)" using mmc_invD(9) [OF i1] by (simp add: list_all_iff)
    define s' where "s' = set_entry m (\<lambda>e. e\<lparr>refcount := refcount e + 1, reftime := map_now v\<rparr>) s1"
    have "mmc_map v s = Some (Some (m_addr (entries s1 m)), s')"
      using \<open>stat_result v = Some sb\<close> c(1) r(1) Some assms(3) by (simp add: mmc_map_def s'_def)
    moreover have "mmc_inv 0 s'" unfolding s'_def by (rule set_entry_ok [OF i1]) (use p in simp)
    moreover have "keeps_referenced s1 s'" by (auto simp: keeps_referenced_def s'_def)
    moreover have "mapped_file s' sb (m_addr (entries s1 m))"
      using m p by (auto simp: mapped_file_def list_ex_iff s'_def is_file_def)
    ultimately show ?thesis using referenced_trans [OF k1] \<open>stat_result v = Some sb\<close> by auto
  qed
qed

section \<open>Any sequence of calls\<close>

inductive mmc_step :: "mmc \<Rightarrow> mmc \<Rightarrow> bool" where
  \<comment> \<open>one call, whatever the system answers, a refused hash table included; \<open>malloc\<close> gives an entry that is not in
     use, and the size of the table fits an \<open>int\<close>\<close>
  step_map: "\<lbrakk>list_all (\<lambda>m. entry_room v \<noteq> Some m) (maps s @ free_maps s); map_count s < 2 ^ 27;
     mmc_map v s = Some (r, s')\<rbrakk> \<Longrightarrow> mmc_step s s'"
| step_unmap: "mmc_unmap a sb now s = Some s' \<Longrightarrow> mmc_step s s'"
| step_cleanup: "mmc_cleanup now s = Some s' \<Longrightarrow> mmc_step s s'"
| step_term: "mmc_term s = Some s' \<Longrightarrow> mmc_step s s'"

definition table_lost :: "mmc \<Rightarrow> bool" where
  \<comment> \<open>there are maps, but no table: \<open>malloc\<close> has refused a larger one after the old one was freed\<close>
  "table_lost s \<longleftrightarrow> hash_table s = None \<and> maps s \<noteq> []"

definition keeps_table :: "mmc \<Rightarrow> mmc \<Rightarrow> bool" where
  "keeps_table s s' \<longleftrightarrow> mmc_step s s' \<and> \<not> table_lost s'"

lemma start_ok: "mmc_inv 0 mmc_start"
  by (rule mmc_invI) (simp_all add: mmc_start_def tabled_def DEFAULT_EXPIRE_AGE_def)

lemma fresh_entry:
  "list_all (\<lambda>m. entry_room v \<noteq> Some m) xs \<Longrightarrow> entry_room v = Some m \<Longrightarrow> m \<notin> set xs"
  by (auto simp: list_all_iff)

lemma map_room_refused:
  assumes "\<not> table_room v"
  shows "mmc_map v s = mmc_map (v\<lparr>table_room := True\<rparr>) s \<or>
    (\<exists>n. mmc_map v s = Some (None, s\<lparr>hash_size := n, hash_mask := word_of_int n - 1, hash_table := None\<rparr>)) \<or> mmc_map v s = None"
proof -
  have m: "map_region (v\<lparr>table_room := True\<rparr>) = map_region v" by (intro ext) (simp add: map_region_def split: mmap_result.split option.split)
  moreover have "open_ok (v\<lparr>table_room := True\<rparr>) = open_ok v" "entry_room (v\<lparr>table_room := True\<rparr>) = entry_room v"
    "map_now (v\<lparr>table_room := True\<rparr>) = map_now v" by simp_all
  ultimately have "new_map (v\<lparr>table_room := True\<rparr>) sb s1 = new_map v sb s1" for sb s1
    by (simp only: new_map_def)
  note n = this
  consider "check_hash_size False s = check_hash_size True s" | "check_hash_size False s = None"
    | n where "check_hash_size False s = Some (False, s\<lparr>hash_size := n, hash_mask := word_of_int n - 1, hash_table := None\<rparr>)"
  proof -
    have mk: "make_table False n s = Some (False, s\<lparr>hash_size := n, hash_mask := word_of_int n - 1, hash_table := None\<rparr>)" for n
      by (simp add: make_table_def)
    show thesis
    proof (cases "hash_table s")
      case None
      then show thesis using that(3) mk by (simp only: check_hash_size_def option.case)
    next
      case (Some t)
      then show thesis using that mk
        by (cases "map_count s * 3 \<le> hash_size s"; cases "double_size (map_count s) (hash_size s)")
          (simp_all only: check_hash_size_def option.case if_True if_False simp_thms)
    qed
  qed
  then show ?thesis
  proof cases
    case 1
    have "mmc_map v s = mmc_map (v\<lparr>table_room := True\<rparr>) s"
      using assms 1 n by (simp add: mmc_map_def split: option.split prod.split)
    then show ?thesis ..
  next
    case (3 k)
    with assms show ?thesis by (cases "stat_result v") (simp add: mmc_map_def, auto simp: mmc_map_def)
  qed (use assms in \<open>cases "stat_result v"; simp add: mmc_map_def\<close>)
qed

lemma map_step:
  assumes i: "mmc_inv 0 s" and f: "list_all (\<lambda>m. entry_room v \<noteq> Some m) (maps s @ free_maps s)"
    and c: "map_count s < 2 ^ 27" and m: "mmc_map v s = Some (r, s')"
  shows "mmc_inv 0 s' \<or> (table_lost s' \<and> (\<exists>n. s' = s\<lparr>hash_size := n, hash_mask := word_of_int n - 1, hash_table := None\<rparr>))"
proof (cases "table_room v")
  case True
  then show ?thesis using mmc_map_ok [of s v, OF i fresh_entry [OF f] _ c] m by auto
next
  case False
  from map_room_refused [OF this, of s] m consider "mmc_map (v\<lparr>table_room := True\<rparr>) s = Some (r, s')"
    | n where "s' = s\<lparr>hash_size := n, hash_mask := word_of_int n - 1, hash_table := None\<rparr>" by auto
  then show ?thesis
  proof cases
    case 1
    then show ?thesis using mmc_map_ok [of s "v\<lparr>table_room := True\<rparr>"] i fresh_entry [OF f] c by auto
  next
    case (2 n)
    have "mmc_inv 0 s'" if "maps s = []"
      by (rule mmc_invI) (use mmc_invD [OF i] that 2 in \<open>simp_all add: tabled_def\<close>)
    with 2 show ?thesis by (auto simp: table_lost_def)
  qed
qed

lemma unmap_step:
  assumes "mmc_inv 0 s" "mmc_unmap a sb now s = Some s'"
  shows "mmc_inv 0 s'"
proof -
  have "sb = None \<or> hash_table s \<noteq> None"
    using assms(2) by (auto simp: mmc_unmap_def unmap_target_def find_hash_def Let_def split: option.splits)
  then show ?thesis using mmc_unmap_ok [OF assms(1), of sb a now] assms(2) by auto
qed

lemma step_ok:
  assumes "mmc_step s s'" and i: "mmc_inv 0 s"
  shows "mmc_inv 0 s' \<or> (table_lost s' \<and> (\<exists>n. s' = s\<lparr>hash_size := n, hash_mask := word_of_int n - 1, hash_table := None\<rparr>))"
  using assms(1)
proof (cases rule: mmc_step.cases)
  case (step_map v r)
  then show ?thesis using map_step [OF i] by blast
next
  case (step_unmap a sb now)
  then show ?thesis using unmap_step [OF i] by blast
next
  case (step_cleanup now)
  then show ?thesis using mmc_cleanup_ok [OF i, of now] by auto
next
  case step_term
  then show ?thesis using mmc_term_ok [OF i] by auto
qed

lemma reachable_ok: "keeps_table\<^sup>*\<^sup>* mmc_start s \<Longrightarrow> mmc_inv 0 s"
  by (induction rule: rtranclp_induct) (auto intro: start_ok dest: step_ok simp: keeps_table_def)

definition books_ok :: "mmc \<Rightarrow> bool" where
  \<comment> \<open>the counts, the byte total, the lists and the age limit\<close>
  "books_ok s \<longleftrightarrow> map_counts_add_up s \<and> map_count s = int (length (maps s)) \<and> distinct (maps s @ free_maps s) \<and>
     mapped_bytes s = (\<Sum>m\<leftarrow>maps s. m_size (entries s m)) \<and> 60 \<le> expire_age s \<and> expire_age s \<le> 1800"

lemma inv_books: "mmc_inv 0 s \<Longrightarrow> books_ok s"
  using mmc_invD [of 0 s] by (simp add: books_ok_def map_counts_add_up_def)

lemma books_lost: "books_ok s \<Longrightarrow> books_ok (s\<lparr>hash_size := n, hash_mask := k, hash_table := t\<rparr>)"
  by (simp add: books_ok_def map_counts_add_up_def)

text \<open>C15: the file cache over any sequence of \<open>mmc_map\<close>, \<open>mmc_unmap\<close>, \<open>mmc_cleanup\<close> and \<open>mmc_term\<close> calls, whatever
  \<open>open\<close>, \<open>mmap\<close> and \<open>malloc\<close> answer, up to and including the call, if there is one, in which \<open>malloc\<close> refuses a hash
  table while there are maps (fewer than 2^27 of them): the counts add up (the error of \<open>mmc_logstats\<close> is never logged), no entry
  is on two lists, the byte count is the sum of the mapped sizes and the age limit stays between one and thirty minutes. As
  long as the table is not lost in this way it holds exactly the active maps, and the next clean-up and shut-down return without
  leaving it; the latter frees all. With the table lost, a clean-up or shut-down that has a map to drop faults.\<close>

theorem mmc_invariant:
  assumes "keeps_table\<^sup>*\<^sup>* mmc_start s0" "s = s0 \<or> mmc_step s0 s"
  shows "books_ok s \<and>
    (if table_lost s
     then mmc_term s = None \<and>
       (\<forall>now. list_ex (\<lambda>m. refcount (entries s m) = 0 \<and> expire_age s \<le> now - reftime (entries s m)) (maps s) \<longrightarrow> mmc_cleanup now s = None)
     else (if hash_table s = None then maps s = [] else table_ok s (set (maps s))) \<and> (\<forall>now. mmc_cleanup now s \<noteq> None) \<and>
       (\<exists>s'. mmc_term s = Some s' \<and> alloc_count s' = 0 \<and> mapped_bytes s' = 0))"
proof -
  note i0 = reachable_ok [OF assms(1)]
  consider "mmc_inv 0 s" | n where "table_lost s" "s = s0\<lparr>hash_size := n, hash_mask := word_of_int n - 1, hash_table := None\<rparr>"
    using assms(2) i0 step_ok by blast
  then show ?thesis
  proof cases
    case 1
    then have t: "tabled s" using mmc_invD(10) by blast
    then have "\<not> table_lost s" by (auto simp: tabled_def table_lost_def split: if_splits)
    moreover have "\<forall>now. mmc_cleanup now s \<noteq> None" using mmc_cleanup_ok [OF 1] by blast
    ultimately show ?thesis
      using inv_books [OF 1] t [unfolded tabled_def] mmc_term_ok [OF 1] by (simp only: if_False simp_thms) blast
  next
    case (2 n)
    have h: "hash_table s = None" "maps s \<noteq> []" using 2(1) by (simp_all add: table_lost_def)
    have lost: "sweep dead front ms s = None" if "list_ex (\<lambda>m. dead (entries s m)) ms" for dead front ms
      using that h(1) by (induction ms arbitrary: front) (auto simp: really_unmap_def Let_def)
    have "books_ok s" using inv_books [OF i0] books_lost 2(2) by simp
    moreover have "mmc_term s = None" using h(2) lost [of "\<lambda>e. True" "maps s" "[]"]
      by (cases "maps s") (simp_all add: mmc_term_def del: sweep.simps)
    ultimately show ?thesis using 2(1) lost by (simp add: mmc_cleanup_def)
  qed
qed

definition five_bytes :: map_env where
  "five_bytes = \<lparr>stat_result = Some \<lparr>st_ino = 7, st_dev = 2, st_size = 5, st_ctime = 9\<rparr>, map_now = 100,
     table_room = True, open_ok = True, entry_room = Some 40, mmap_1 = Enomem, mmap_2 = Mapped 4096\<rparr>"

lemma five_bytes_fields [simp]:
  "table_room five_bytes" "entry_room five_bytes = Some 40"
  "stat_result five_bytes = Some \<lparr>st_ino = 7, st_dev = 2, st_size = 5, st_ctime = 9\<rparr>"
  by (simp_all add: five_bytes_def)

declare add_probe.simps [code] find_probe.simps [code] double_size.simps [code]

lemma map_five_bytes: "map_option fst (mmc_map five_bytes mmc_start) = Some (Some 4096)"
  by code_simp

lemma one_map_kept: "\<exists>s. mmc_map five_bytes mmc_start = Some (Some 4096, s) \<and> maps s = [40] \<and> hash_table s \<noteq> None"
proof -
  have "case mmc_map five_bytes mmc_start of Some (r, s) \<Rightarrow> maps s = [40] \<and> (case hash_table s of None \<Rightarrow> False | Some t \<Rightarrow> True)
      | None \<Rightarrow> False" by code_simp
  with map_five_bytes show ?thesis by (auto split: option.splits)
qed

theorem mmc_invariant_witness:
  "\<exists>s. mmc_map five_bytes mmc_start = Some (Some 4096, s) \<and> maps s = [40] \<and> books_ok s \<and>
     (\<exists>s'. mmc_term s = Some s' \<and> alloc_count s' = 0)"
proof -
  obtain s where s: "mmc_map five_bytes mmc_start = Some (Some 4096, s)"
    "maps s = [40]" "hash_table s \<noteq> None" using one_map_kept by blast
  then have "mmc_step mmc_start s" "\<not> table_lost s"
    by (auto intro!: step_map [of five_bytes] simp: mmc_start_def table_lost_def)
  then have "keeps_table\<^sup>*\<^sup>* mmc_start s" by (simp add: keeps_table_def r_into_rtranclp)
  from mmc_invariant [OF this disjI1 [OF refl]] s \<open>\<not> table_lost s\<close> show ?thesis by (auto split: if_splits)
qed

text \<open>C16: in every state the cache can reach without losing its table: \<open>mmc_map\<close> returns, with an address only of an active map in use that
  has the inode, device, size and change time of the wanted file, and with one whenever the system
  grants what it asks for; a clean-up drops exactly the unreferenced maps older than the age limit and
  keeps at most a hundred free entries; and in both, also when \<open>mmap\<close> runs out of memory and every
  unreferenced map is given up, the maps in use stay where they are with their reference counts.\<close>

theorem mmc_serves_files:
  assumes "keeps_table\<^sup>*\<^sup>* mmc_start s" "table_room v"
    "list_all (\<lambda>m. entry_room v \<noteq> Some m) (maps s @ free_maps s)" "map_count s < 2 ^ 27"
  shows "(\<exists>r s'. mmc_map v s = Some (r, s') \<and> keeps_referenced s s' \<and>
      (stat_result v \<noteq> None \<and> served v \<longrightarrow> r \<noteq> None) \<and>
      (\<forall>a sb. r = Some a \<longrightarrow> stat_result v = Some sb \<longrightarrow> mapped_file s' sb a)) \<and>
    (\<exists>s'. mmc_cleanup now s = Some s' \<and> keeps_referenced s s' \<and> free_count s' \<le> DESIRED_FREE_COUNT \<and>
      maps s' = filter (\<lambda>m. \<not> (refcount (entries s m) = 0 \<and> expire_age s \<le> now - reftime (entries s m))) (maps s))"
  using mmc_map_ok [OF reachable_ok [OF assms(1)] fresh_entry [OF assms(3)] assms(2,4)]
    mmc_cleanup_ok [OF reachable_ok [OF assms(1)], of now] by blast

theorem mmc_serves_files_witness:
  "(\<exists>r s'. mmc_map five_bytes mmc_start = Some (r, s') \<and> keeps_referenced mmc_start s') \<and>
   (\<exists>s'. mmc_cleanup 7 mmc_start = Some s' \<and> maps s' = [])"
  using mmc_serves_files [of mmc_start five_bytes 7] by (auto simp: mmc_start_def)

text \<open>When the table has to grow and \<open>malloc\<close> gives no room for the new one, the old table is gone: the mapping
  fails, and the next \<open>mmc_unmap\<close> that looks up a file's stat data, or a clean-up with a map to
  drop, follows the null pointer.\<close>

theorem lost_table_faults:
  assumes "hash_table s = Some t" "hash_size s = 1024" "1024 < map_count s * 3" "map_count s < 2 ^ 27"
    "stat_result v = Some sb" "\<not> table_room v" "maps s = m # ms" "refcount (entries s m) = 0"
    "reftime (entries s m) + expire_age s \<le> now"
  shows "\<exists>s'. mmc_map v s = Some (None, s') \<and> maps s' = maps s \<and> mmc_unmap a (Some sb') now' s' = None \<and>
    mmc_cleanup now s' = None"
proof -
  obtain n where n: "double_size (map_count s) 1024 = Some n"
    using double_size_ok [of 10 "map_count s"] assms(4) by auto
  let ?s = "s\<lparr>hash_size := n, hash_mask := word_of_int n - 1, hash_table := None\<rparr>"
  have "mmc_map v s = Some (None, ?s)"
    using assms n by (simp add: mmc_map_def check_hash_size_def make_table_def Let_def)
  moreover have "mmc_unmap a (Some sb') now' ?s = None"
    by (simp add: mmc_unmap_def unmap_target_def find_hash_def Let_def)
  moreover have "mmc_cleanup now ?s = None"
    using assms(7-9) by (simp add: mmc_cleanup_def really_unmap_def Let_def)
  ultimately show ?thesis by auto
qed

theorem lost_table_faults_witness:
  "\<exists>s'. mmc_map (five_bytes\<lparr>table_room := False\<rparr>) (mmc_start\<lparr>hash_table := Some [], hash_size := 1024,
       map_count := 400, maps := [40]\<rparr>) = Some (None, s') \<and> mmc_unmap 1 (Some \<lparr>st_ino = 7, st_dev = 2, st_size = 5, st_ctime = 9\<rparr>) 0 s' = None"
  using lost_table_faults [of "mmc_start\<lparr>hash_table := Some [], hash_size := 1024, map_count := 400, maps := [40]\<rparr>"
    "[]" "five_bytes\<lparr>table_room := False\<rparr>" _ 40 "[]" 700 1 _ 0]
  by (auto simp: mmc_start_def DEFAULT_EXPIRE_AGE_def)

end
