(* ===== verification/Th_Timers.thy ===== *)
theory Th_Timers
  imports Prelude "HOL-Library.Signed_Division"
begin

text \<open>
  The timer package of \<open>src/others/thttpd-2.29/timers.c\<close>: 67 hash buckets, each a doubly linked
  list of timers sorted by trigger time, a free list, and three counters. The timers live in a
  store of records linked by addresses; the walk of \<open>l_add\<close> and the loops of \<open>tmr_run\<close>,
  \<open>tmr_term\<close> and \<open>tmr_cleanup\<close> are partial functions (\<open>None\<close>: they never end).
\<close>

section \<open>Times\<close>

datatype timeval = Timeval (tv_sec: int) (tv_usec: int)

instantiation timeval :: linorder
begin

definition less_eq_timeval :: "timeval \<Rightarrow> timeval \<Rightarrow> bool" where
  "less_eq_timeval a b \<longleftrightarrow> tv_sec a < tv_sec b \<or> (tv_sec a = tv_sec b \<and> tv_usec a \<le> tv_usec b)"

definition less_timeval :: "timeval \<Rightarrow> timeval \<Rightarrow> bool" where
  "less_timeval a b \<longleftrightarrow> a \<le> b \<and> \<not> b \<le> (a :: timeval)"

instance
proof
  fix a b c :: timeval
  show "(a < b) = (a \<le> b \<and> \<not> b \<le> a)" by (simp add: less_timeval_def)
  show "a \<le> a" by (simp add: less_eq_timeval_def)
  show "a \<le> b \<Longrightarrow> b \<le> c \<Longrightarrow> a \<le> c" by (auto simp: less_eq_timeval_def)
  show "a \<le> b \<Longrightarrow> b \<le> a \<Longrightarrow> a = b"
    by (cases a; cases b) (auto simp: less_eq_timeval_def)
  show "a \<le> b \<or> b \<le> a" by (auto simp: less_eq_timeval_def)
qed

end

lemma timeval_less: "a < b \<longleftrightarrow> tv_sec a < tv_sec b \<or> (tv_sec a = tv_sec b \<and> tv_usec a < tv_usec b)"
  by (auto simp: less_timeval_def less_eq_timeval_def)

definition add_msecs :: "timeval \<Rightarrow> int \<Rightarrow> timeval" where
  \<comment> \<open>the addition that \<open>tmr_create\<close>, \<open>tmr_run\<close> and \<open>tmr_reset\<close> write out\<close>
  "add_msecs t ms =
     (let sec = tv_sec t + ms sdiv 1000; usec = tv_usec t + (ms smod 1000) * 1000
      in if 1000000 \<le> usec then Timeval (sec + usec sdiv 1000000) (usec smod 1000000)
         else Timeval sec usec)"

section \<open>The store\<close>

record timer =
  timer_proc :: nat  \<comment> \<open>which procedure\<close>
  client_data :: nat
  msecs :: int
  periodic :: bool
  tm_time :: timeval
  tm_prev :: "nat option"
  tm_next :: "nat option"
  tm_hash :: nat

record tmr =
  heap :: "nat \<Rightarrow> timer"
  timers :: "nat \<Rightarrow> nat option"
  free_timers :: "nat option"
  alloc_count :: int
  active_count :: int
  free_count :: int

definition HASH_SIZE :: nat where "HASH_SIZE = 67"

definition hash :: "timeval \<Rightarrow> nat" where
  "hash t = unat (xor (word_of_int (tv_sec t) :: 32 word) (word_of_int (tv_usec t))) mod HASH_SIZE"

definition upd :: "nat \<Rightarrow> (timer \<Rightarrow> timer) \<Rightarrow> tmr \<Rightarrow> tmr" where
  "upd t f s = s\<lparr>heap := (heap s)(t := f (heap s t))\<rparr>"

definition set_head :: "nat \<Rightarrow> nat option \<Rightarrow> tmr \<Rightarrow> tmr" where
  "set_head h x s = s\<lparr>timers := (timers s)(h := x)\<rparr>"

partial_function (option) walk ::
  "(nat \<Rightarrow> timer) \<Rightarrow> timeval \<Rightarrow> nat \<Rightarrow> nat option \<Rightarrow> (nat \<times> nat option) option" where
  \<comment> \<open>the search for the insertion point: the last timer passed and the one found\<close>
  "walk m x t2prev t2 =
     (if t2 = None then Some (t2prev, None)
      else if x \<le> tm_time (m (the t2)) then Some (t2prev, t2)
      else walk m x (the t2) (tm_next (m (the t2))))"

definition l_add :: "nat \<Rightarrow> tmr \<Rightarrow> tmr option" where
  "l_add t s =
     (let h = tm_hash (heap s t); x = tm_time (heap s t)
      in case timers s h of
           None \<Rightarrow> Some (upd t (\<lambda>r. r\<lparr>tm_prev := None, tm_next := None\<rparr>) (set_head h (Some t) s))
         | Some t2 \<Rightarrow>
             if x \<le> tm_time (heap s t2)
             then Some (upd t2 (\<lambda>r. r\<lparr>tm_prev := Some t\<rparr>)
                    (upd t (\<lambda>r. r\<lparr>tm_prev := None, tm_next := Some t2\<rparr>) (set_head h (Some t) s)))
             else (case walk (heap s) x t2 (tm_next (heap s t2)) of
                     None \<Rightarrow> None
                   | Some (p, Some q) \<Rightarrow>
                       Some (upd q (\<lambda>r. r\<lparr>tm_prev := Some t\<rparr>)
                              (upd t (\<lambda>r. r\<lparr>tm_prev := Some p, tm_next := Some q\<rparr>)
                                (upd p (\<lambda>r. r\<lparr>tm_next := Some t\<rparr>) s)))
                   | Some (p, None) \<Rightarrow>
                       Some (upd t (\<lambda>r. r\<lparr>tm_prev := Some p, tm_next := None\<rparr>)
                              (upd p (\<lambda>r. r\<lparr>tm_next := Some t\<rparr>) s))))"

definition l_remove :: "nat \<Rightarrow> tmr \<Rightarrow> tmr" where
  "l_remove t s =
     (let s1 = (case tm_prev (heap s t) of
                  None \<Rightarrow> set_head (tm_hash (heap s t)) (tm_next (heap s t)) s
                | Some p \<Rightarrow> upd p (\<lambda>r. r\<lparr>tm_next := tm_next (heap s t)\<rparr>) s)
      in case tm_next (heap s1 t) of
           None \<Rightarrow> s1
         | Some q \<Rightarrow> upd q (\<lambda>r. r\<lparr>tm_prev := tm_prev (heap s1 t)\<rparr>) s1)"

definition l_resort :: "nat \<Rightarrow> tmr \<Rightarrow> tmr option" where
  "l_resort t s =
     (let s1 = l_remove t s
      in l_add t (upd t (\<lambda>r. r\<lparr>tm_hash := hash (tm_time r)\<rparr>) s1))"

definition tmr_init :: "tmr \<Rightarrow> tmr" where
  "tmr_init s = s\<lparr>timers := (\<lambda>h. if h < HASH_SIZE then None else timers s h), free_timers := None,
     alloc_count := 0, active_count := 0, free_count := 0\<rparr>"

definition tmr_create ::
  "nat option \<Rightarrow> timeval \<Rightarrow> nat \<Rightarrow> nat \<Rightarrow> int \<Rightarrow> bool \<Rightarrow> tmr \<Rightarrow> (nat option \<times> tmr) option" where
  \<comment> \<open>\<open>mem\<close> is what \<open>malloc\<close> answers; \<open>now\<close> is \<open>*nowP\<close>, or the time of day\<close>
  "tmr_create mem now proc cd ms per s =
     (case (case free_timers s of
              Some t \<Rightarrow> Some (t, s\<lparr>free_timers := tm_next (heap s t), free_count := free_count s - 1\<rparr>)
            | None \<Rightarrow> (case mem of None \<Rightarrow> None
                       | Some t \<Rightarrow> Some (t, s\<lparr>alloc_count := alloc_count s + 1\<rparr>))) of
        None \<Rightarrow> Some (None, s)
      | Some (t, s1) \<Rightarrow>
          (let x = add_msecs now ms;
               s2 = upd t (\<lambda>r. r\<lparr>timer_proc := proc, client_data := cd, msecs := ms, periodic := per,
                                  tm_time := x, tm_hash := hash x\<rparr>) s1
           in case l_add t s2 of
                None \<Rightarrow> None
              | Some s3 \<Rightarrow> Some (Some t, s3\<lparr>active_count := active_count s3 + 1\<rparr>)))"

definition tmr_reset :: "timeval \<Rightarrow> nat \<Rightarrow> tmr \<Rightarrow> tmr option" where
  "tmr_reset now t s = l_resort t (upd t (\<lambda>r. r\<lparr>tm_time := add_msecs now (msecs r)\<rparr>) s)"

definition tmr_cancel :: "nat \<Rightarrow> tmr \<Rightarrow> tmr" where
  "tmr_cancel t s =
     (let s1 = l_remove t s
      in upd t (\<lambda>r. r\<lparr>tm_next := free_timers s1, tm_prev := None\<rparr>)
           (s1\<lparr>active_count := active_count s1 - 1, free_timers := Some t, free_count := free_count s1 + 1\<rparr>))"

definition INFTIM :: int where "INFTIM = -1"

fun mstimeout_loop :: "tmr \<Rightarrow> timeval \<Rightarrow> nat list \<Rightarrow> int option \<Rightarrow> int option" where
  \<comment> \<open>the loop over the buckets; \<open>None\<close> is \<open>!gotone\<close>\<close>
  "mstimeout_loop s now [] ms = ms"
| "mstimeout_loop s now (h # hs) ms =
     (case timers s h of
        None \<Rightarrow> mstimeout_loop s now hs ms
      | Some t \<Rightarrow>
          (let x = tm_time (heap s t);
               m = (tv_sec x - tv_sec now) * 1000 + (tv_usec x - tv_usec now) sdiv 1000
           in mstimeout_loop s now hs
                (case ms of None \<Rightarrow> Some m | Some k \<Rightarrow> Some (if m < k then m else k))))"

definition tmr_mstimeout :: "timeval \<Rightarrow> tmr \<Rightarrow> int" where
  "tmr_mstimeout now s =
     (case mstimeout_loop s now [0 ..< HASH_SIZE] None of
        None \<Rightarrow> INFTIM | Some ms \<Rightarrow> if ms \<le> 0 then 0 else ms)"

definition tmr_timeout :: "timeval \<Rightarrow> tmr \<Rightarrow> timeval option" where
  "tmr_timeout now s =
     (let ms = tmr_mstimeout now s
      in if ms = INFTIM then None else Some (Timeval (ms sdiv 1000) ((ms smod 1000) * 1000)))"

partial_function (option) run_bucket ::
  "(nat \<Rightarrow> nat \<Rightarrow> timeval \<Rightarrow> tmr \<times> 'w \<Rightarrow> tmr \<times> 'w) \<Rightarrow> timeval \<Rightarrow> nat option \<Rightarrow> tmr \<times> 'w \<Rightarrow>
   (tmr \<times> 'w) option" where
  \<comment> \<open>the inner loop of \<open>tmr_run\<close>; the procedures work on the timers and on the rest of the program\<close>
  "run_bucket procs now t st =
     (if t = None then Some st
      else (let a = the t; r = heap (fst st) a; nxt = tm_next r
           in if now < tm_time r then Some st
              else (let st1 = procs (timer_proc r) (client_data r) now st; s1 = fst st1
                    in if periodic (heap s1 a)
                       then (case l_resort a (upd a (\<lambda>r. r\<lparr>tm_time := add_msecs (tm_time r) (msecs r)\<rparr>) s1) of
                               None \<Rightarrow> None
                             | Some s2 \<Rightarrow> run_bucket procs now nxt (s2, snd st1))
                       else run_bucket procs now nxt (tmr_cancel a s1, snd st1))))"

fun run_buckets ::
  "(nat \<Rightarrow> nat \<Rightarrow> timeval \<Rightarrow> tmr \<times> 'w \<Rightarrow> tmr \<times> 'w) \<Rightarrow> timeval \<Rightarrow> nat list \<Rightarrow> tmr \<times> 'w \<Rightarrow>
   (tmr \<times> 'w) option" where
  "run_buckets procs now [] st = Some st"
| "run_buckets procs now (h # hs) st =
     (case run_bucket procs now (timers (fst st) h) st of
        None \<Rightarrow> None | Some st1 \<Rightarrow> run_buckets procs now hs st1)"

definition tmr_run where
  "tmr_run procs now st = run_buckets procs now [0 ..< HASH_SIZE] st"

partial_function (option) tmr_cleanup :: "tmr \<Rightarrow> tmr option" where
  "tmr_cleanup s =
     (case free_timers s of
        None \<Rightarrow> Some s
      | Some t \<Rightarrow> tmr_cleanup (s\<lparr>free_timers := tm_next (heap s t), free_count := free_count s - 1,
                                 alloc_count := alloc_count s - 1\<rparr>))"

partial_function (option) cancel_bucket :: "nat \<Rightarrow> tmr \<Rightarrow> tmr option" where
  "cancel_bucket h s =
     (case timers s h of None \<Rightarrow> Some s | Some t \<Rightarrow> cancel_bucket h (tmr_cancel t s))"

fun cancel_buckets :: "nat list \<Rightarrow> tmr \<Rightarrow> tmr option" where
  "cancel_buckets [] s = Some s"
| "cancel_buckets (h # hs) s =
     (case cancel_bucket h s of None \<Rightarrow> None | Some s1 \<Rightarrow> cancel_buckets hs s1)"

definition tmr_term :: "tmr \<Rightarrow> tmr option" where
  "tmr_term s = (case cancel_buckets [0 ..< HASH_SIZE] s of None \<Rightarrow> None | Some s1 \<Rightarrow> tmr_cleanup s1)"

definition counts_add_up :: "tmr \<Rightarrow> bool" where
  \<comment> \<open>what \<open>tmr_logstats\<close> checks\<close>
  "counts_add_up s \<longleftrightarrow> active_count s + free_count s = alloc_count s"

declare walk.simps [code] run_bucket.simps [code] tmr_cleanup.simps [code] cancel_bucket.simps [code]

section \<open>Linked lists in the store\<close>

fun hd_or :: "nat option \<Rightarrow> nat list \<Rightarrow> nat option" where
  "hd_or n [] = n"
| "hd_or n (a # xs) = Some a"

fun last_or :: "nat option \<Rightarrow> nat list \<Rightarrow> nat option" where
  "last_or p [] = p"
| "last_or p (a # xs) = last_or (Some a) xs"

fun links :: "(nat \<Rightarrow> timer) \<Rightarrow> nat option \<Rightarrow> nat list \<Rightarrow> nat option \<Rightarrow> bool" where
  \<comment> \<open>the list is linked both ways, between a predecessor and a successor\<close>
  "links m p [] n = True"
| "links m p (a # xs) n =
     (tm_prev (m a) = p \<and> tm_next (m a) = hd_or n xs \<and> links m (Some a) xs n)"

fun chain :: "(nat \<Rightarrow> timer) \<Rightarrow> nat option \<Rightarrow> nat list \<Rightarrow> bool" where
  \<comment> \<open>the free list, linked forwards only\<close>
  "chain m q [] = (q = None)"
| "chain m q (a # xs) = (q = Some a \<and> chain m (tm_next (m a)) xs)"

lemma hd_or_append [simp]: "hd_or n (xs @ ys) = hd_or (hd_or n ys) xs"
  by (cases xs) auto

lemma last_or_append [simp]: "last_or p (xs @ ys) = last_or (last_or p xs) ys"
  by (induction xs arbitrary: p) auto

lemma links_append [simp]:
  "links m p (xs @ ys) n = (links m p xs (hd_or n ys) \<and> links m (last_or p xs) ys n)"
  by (induction xs arbitrary: p) auto

lemma links_frame [simp]: "a \<notin> set xs \<Longrightarrow> links (m(a := r)) p xs n = links m p xs n"
  by (induction xs arbitrary: p) auto

lemma chain_frame [simp]: "a \<notin> set xs \<Longrightarrow> chain (m(a := r)) q xs = chain m q xs"
  by (induction xs arbitrary: q) auto

lemma links_set_next:
  "links m p (xs @ [a]) n \<Longrightarrow> a \<notin> set xs \<Longrightarrow>
   links (m(a := (m a)\<lparr>tm_next := n'\<rparr>)) p (xs @ [a]) n'"
  by simp

lemma links_set_prev:
  "links m p (a # xs) n \<Longrightarrow> a \<notin> set xs \<Longrightarrow>
   links (m(a := (m a)\<lparr>tm_prev := p'\<rparr>)) p' (a # xs) n"
  by simp

lemma links_cong:
  "(\<And>a. a \<in> set xs \<Longrightarrow> tm_prev (m' a) = tm_prev (m a) \<and> tm_next (m' a) = tm_next (m a)) \<Longrightarrow>
   links m' p xs n = links m p xs n"
  by (induction xs arbitrary: p) auto

section \<open>Insertion and removal\<close>

definition before :: "(nat \<Rightarrow> timer) \<Rightarrow> timeval \<Rightarrow> nat list \<Rightarrow> nat list" where
  "before m x = takeWhile (\<lambda>a. \<not> x \<le> tm_time (m a))"

definition behind :: "(nat \<Rightarrow> timer) \<Rightarrow> timeval \<Rightarrow> nat list \<Rightarrow> nat list" where
  "behind m x = dropWhile (\<lambda>a. \<not> x \<le> tm_time (m a))"

definition insert_timer :: "(nat \<Rightarrow> timer) \<Rightarrow> nat \<Rightarrow> nat list \<Rightarrow> nat list" where
  "insert_timer m t xs = before m (tm_time (m t)) xs @ t # behind m (tm_time (m t)) xs"

lemma walk_list:
  "links m p0 (p # xs) None \<Longrightarrow>
   walk m x p (hd_or None xs) =
     Some (the (last_or (Some p) (before m x xs)), hd_or None (behind m x xs))"
proof (induction xs arbitrary: p0 p)
  case Nil
  then show ?case by (simp add: walk.simps before_def behind_def)
next
  case (Cons a xs)
  have "links m (Some p) (a # xs) None" using Cons.prems by simp
  from Cons.IH [OF this] Cons.prems show ?case
    by (subst walk.simps) (simp add: before_def behind_def)
qed

lemma set_insert_timer [simp]: "set (insert_timer m t xs) = insert t (set xs)"
proof -
  have "set xs = set (before m x xs) \<union> set (behind m x xs)" for x
    unfolding before_def behind_def by (metis set_append takeWhile_dropWhile_id)
  then show ?thesis by (auto simp: insert_timer_def)
qed

lemma distinct_insert_timer:
  "t \<notin> set xs \<Longrightarrow> distinct xs \<Longrightarrow> distinct (insert_timer m t xs)"
proof -
  assume a: "t \<notin> set xs" "distinct xs"
  have "xs = before m x xs @ behind m x xs" for x by (simp add: before_def behind_def)
  with a show ?thesis unfolding insert_timer_def by (metis distinct_append distinct.simps(2)
      Un_iff disjoint_insert(1) list.simps(15) set_append)
qed

definition by_time :: "(nat \<Rightarrow> timer) \<Rightarrow> nat list \<Rightarrow> bool" where
  "by_time m xs = sorted (map (\<lambda>a. tm_time (m a)) xs)"

lemma by_time_insert: "by_time m xs \<Longrightarrow> by_time m (insert_timer m t xs)"
proof (induction xs)
  case (Cons a xs)
  show ?case
  proof (cases "tm_time (m t) \<le> tm_time (m a)")
    case True
    with Cons.prems show ?thesis
      by (fastforce simp: by_time_def insert_timer_def before_def behind_def)
  next
    case False
    then have i: "insert_timer m t (a # xs) = a # insert_timer m t xs"
      by (simp add: insert_timer_def before_def behind_def)
    with Cons False show ?thesis by (auto simp: by_time_def)
  qed
qed (simp add: by_time_def insert_timer_def before_def behind_def)

lemma by_time_cong:
  "(\<And>a. a \<in> set xs \<Longrightarrow> tm_time (m' a) = tm_time (m a)) \<Longrightarrow> by_time m' xs = by_time m xs"
  by (simp add: by_time_def cong: map_cong)

lemma by_time_remove: "by_time m xs \<Longrightarrow> by_time m (remove1 t xs)"
  by (induction xs) (auto simp: by_time_def dest: set_remove1_subset [THEN subsetD])

text \<open>What the operations leave alone: everything but the links.\<close>

definition core :: "timer \<Rightarrow> timer" where
  "core r = r\<lparr>tm_prev := None, tm_next := None\<rparr>"

lemma core_links [simp]:
  "core (r\<lparr>tm_prev := p\<rparr>) = core r" "core (r\<lparr>tm_next := p\<rparr>) = core r"
  by (simp_all add: core_def)

definition same_data :: "(nat \<Rightarrow> timer) \<Rightarrow> (nat \<Rightarrow> timer) \<Rightarrow> bool" where
  "same_data m m' \<longleftrightarrow> (\<forall>a. core (m' a) = core (m a))"

lemma core_fields:
  "core r = core r' \<Longrightarrow> tm_time r = tm_time r' \<and> tm_hash r = tm_hash r' \<and>
     periodic r = periodic r' \<and> timer_proc r = timer_proc r' \<and>
     client_data r = client_data r' \<and> msecs r = msecs r'"
  by (cases r; cases r') (simp add: core_def)

lemma same_dataD: "same_data m m' \<Longrightarrow> tm_time (m' a) = tm_time (m a) \<and> tm_hash (m' a) = tm_hash (m a) \<and>
    periodic (m' a) = periodic (m a) \<and> timer_proc (m' a) = timer_proc (m a) \<and>
    client_data (m' a) = client_data (m a) \<and> msecs (m' a) = msecs (m a)"
  unfolding same_data_def by (rule core_fields) blast

definition relinked :: "tmr \<Rightarrow> tmr \<Rightarrow> nat \<Rightarrow> nat set \<Rightarrow> nat list \<Rightarrow> bool" where
  \<comment> \<open>from \<open>s\<close> to \<open>s'\<close>, bucket \<open>h\<close> has become \<open>ys\<close>; only links of addresses in \<open>A\<close> have changed\<close>
  "relinked s s' h A ys \<longleftrightarrow>
     s' = s\<lparr>heap := heap s', timers := (timers s)(h := hd_or None ys)\<rparr> \<and>
     links (heap s') None ys None \<and> same_data (heap s) (heap s') \<and>
     (\<forall>a. a \<notin> A \<longrightarrow> heap s' a = heap s a)"

lemma relinkedI:
  assumes "timers s' = (timers s)(h := hd_or None ys)" "s' = s\<lparr>heap := heap s', timers := timers s'\<rparr>"
    "links (heap s') None ys None" "same_data (heap s) (heap s')"
    "\<And>a. a \<notin> A \<Longrightarrow> heap s' a = heap s a"
  shows "relinked s s' h A ys"
  using assms(2-) unfolding relinked_def assms(1) [symmetric] by blast

lemma upd_simps [simp]:
  "heap (upd t f s) = (heap s)(t := f (heap s t))" "timers (upd t f s) = timers s"
  "free_timers (upd t f s) = free_timers s" "alloc_count (upd t f s) = alloc_count s"
  "active_count (upd t f s) = active_count s" "free_count (upd t f s) = free_count s"
  "heap (set_head h x s) = heap s" "timers (set_head h x s) = (timers s)(h := x)"
  "free_timers (set_head h x s) = free_timers s" "alloc_count (set_head h x s) = alloc_count s"
  "active_count (set_head h x s) = active_count s" "free_count (set_head h x s) = free_count s"
  by (simp_all add: upd_def set_head_def)

lemma l_add_list:
  assumes "timers s h = hd_or None xs" "links (heap s) None xs None" "distinct xs" "t \<notin> set xs"
    "h = tm_hash (heap s t)"
  shows "\<exists>s'. l_add t s = Some s' \<and>
    relinked s s' h (insert t (set xs)) (insert_timer (heap s) t xs)"
proof -
  let ?x = "tm_time (heap s t)"
  note hh = assms(5) [symmetric]
  show ?thesis
  proof (cases xs)
    case Nil
    with assms(1) hh show ?thesis
      by (auto simp: l_add_def Let_def insert_timer_def before_def behind_def same_data_def
          intro!: relinkedI split: if_splits)
  next
    case (Cons a as)
    show ?thesis
    proof (cases "?x \<le> tm_time (heap s a)")
      case True
      have "insert_timer (heap s) t xs = t # a # as"
        using Cons True by (simp add: insert_timer_def before_def behind_def)
      moreover have "l_add t s = Some (upd a (\<lambda>r. r\<lparr>tm_prev := Some t\<rparr>)
          (upd t (\<lambda>r. r\<lparr>tm_prev := None, tm_next := Some a\<rparr>) (set_head h (Some t) s)))"
        using assms(1) Cons True by (simp add: l_add_def Let_def hh)
      ultimately show ?thesis
        using assms(2-4) Cons by (auto simp: same_data_def intro!: relinkedI split: if_splits)
    next
      case False
      let ?B = "before (heap s) ?x as" and ?D = "behind (heap s) ?x as"
      have ins: "insert_timer (heap s) t xs = (a # ?B) @ t # ?D"
        using Cons False by (simp add: insert_timer_def before_def behind_def)
      have as: "as = ?B @ ?D" by (simp add: before_def behind_def)
      obtain l p where lp: "a # ?B = l @ [p]" by (metis list.distinct(1) rev_exhaust)
      then have p: "the (last_or (Some a) ?B) = p"
        by (metis last_or.simps last_or_append option.sel)
      have xs: "xs = l @ p # ?D" using Cons as lp by (metis append_Cons append_assoc append_Nil)
      have walk: "walk (heap s) ?x a (tm_next (heap s a)) = Some (p, hd_or None ?D)"
        using walk_list [of "heap s" None a as ?x] assms(2) Cons p by simp
      have ins2: "insert_timer (heap s) t xs = l @ p # t # ?D" using ins lp by simp
      show ?thesis
      proof (cases ?D)
        case Nil
        then have "l_add t s = Some (upd t (\<lambda>r. r\<lparr>tm_prev := Some p, tm_next := None\<rparr>)
            (upd p (\<lambda>r. r\<lparr>tm_next := Some t\<rparr>) s))"
          using walk assms(1) \<open>xs = a # as\<close> False by (simp add: l_add_def Let_def hh)
        moreover have "(timers s)(h := hd_or (Some p) l) = timers s"
          using assms(1) xs by (cases l) auto
        ultimately show ?thesis
          using assms(2-4) xs Nil ins2 by (auto simp: same_data_def intro!: relinkedI split: if_splits)
      next
        case (Cons q r)
        then have "l_add t s = Some (upd q (\<lambda>r. r\<lparr>tm_prev := Some t\<rparr>)
            (upd t (\<lambda>r. r\<lparr>tm_prev := Some p, tm_next := Some q\<rparr>)
              (upd p (\<lambda>r. r\<lparr>tm_next := Some t\<rparr>) s)))"
          using walk assms(1) \<open>xs = a # as\<close> False by (simp add: l_add_def Let_def hh)
        moreover have "(timers s)(h := hd_or (Some p) l) = timers s"
          using assms(1) xs by (cases l) auto
        ultimately show ?thesis
          using assms(2-4) xs Cons ins2 by (auto simp: same_data_def intro!: relinkedI split: if_splits)
      qed
    qed
  qed
qed

lemma l_remove_list:
  assumes "timers s h = hd_or None xs" "links (heap s) None xs None" "distinct xs" "t \<in> set xs"
    "h = tm_hash (heap s t)"
  shows "relinked s (l_remove t s) h (set xs) (remove1 t xs)"
proof -
  obtain l r where xs: "xs = l @ t # r" "t \<notin> set l" using assms(4) by (meson split_list_first)
  then have rem: "remove1 t xs = l @ r" by (simp add: remove1_append)
  show ?thesis
  proof (cases l rule: rev_cases)
    case Nil
    show ?thesis
    proof (cases r)
      case Nil': Nil
      have "l_remove t s = set_head h None s"
        using assms(2,5) xs Nil Nil' by (simp add: l_remove_def Let_def)
      then show ?thesis
        unfolding rem using assms(2,3) xs Nil Nil' by (auto simp: same_data_def intro!: relinkedI)
    next
      case (Cons q r')
      have "l_remove t s = upd q (\<lambda>r. r\<lparr>tm_prev := None\<rparr>) (set_head h (Some q) s)"
        using assms(2,5) xs Nil Cons by (simp add: l_remove_def Let_def)
      then show ?thesis
        unfolding rem using assms(2,3) xs Nil Cons by (auto simp: same_data_def intro!: relinkedI split: if_splits)
    qed
  next
    case (snoc l' p)
    have head: "(timers s)(h := hd_or (Some p) l') = timers s"
      using assms(1) xs snoc by (cases l') auto
    show ?thesis
    proof (cases r)
      case Nil
      have "l_remove t s = upd p (\<lambda>r. r\<lparr>tm_next := None\<rparr>) s"
        using assms(2,3) xs snoc Nil by (simp add: l_remove_def Let_def)
      then show ?thesis
        unfolding rem using assms(2,3) xs snoc Nil head
        by (auto simp: same_data_def intro!: relinkedI split: if_splits)
    next
      case (Cons q r')
      have "l_remove t s = upd q (\<lambda>r. r\<lparr>tm_prev := Some p\<rparr>) (upd p (\<lambda>r. r\<lparr>tm_next := Some q\<rparr>) s)"
        using assms(2,3) xs snoc Cons by (simp add: l_remove_def Let_def)
      then show ?thesis
        unfolding rem using assms(2,3) xs snoc Cons head
        by (auto simp: same_data_def intro!: relinkedI split: if_splits)
    qed
  qed
qed

section \<open>The invariant\<close>

definition bucket_ok :: "tmr \<Rightarrow> nat \<Rightarrow> nat list \<Rightarrow> bool" where
  "bucket_ok s h xs \<longleftrightarrow> timers s h = hd_or None xs \<and> links (heap s) None xs None \<and> distinct xs \<and>
     by_time (heap s) xs \<and>
     (\<forall>a\<in>set xs. tm_hash (heap s a) = h \<and> hash (tm_time (heap s a)) = h)"

definition lists_ok :: "(nat \<Rightarrow> nat list) \<Rightarrow> nat list \<Rightarrow> tmr \<Rightarrow> bool" where
  \<comment> \<open>\<open>B h\<close> are the addresses in bucket \<open>h\<close>, \<open>F\<close> those on the free list\<close>
  "lists_ok B F s \<longleftrightarrow>
     (\<forall>h. if h < HASH_SIZE then bucket_ok s h (B h) \<and> set (B h) \<inter> set F = {} else B h = []) \<and>
     chain (heap s) (free_timers s) F \<and> distinct F"

definition active :: "(nat \<Rightarrow> nat list) \<Rightarrow> nat" where
  "active B = (\<Sum>h<HASH_SIZE. length (B h))"

definition tmr_ok :: "(nat \<Rightarrow> nat list) \<Rightarrow> nat list \<Rightarrow> tmr \<Rightarrow> bool" where
  "tmr_ok B F s \<longleftrightarrow> lists_ok B F s \<and> active_count s = int (active B) \<and>
     free_count s = int (length F) \<and> alloc_count s = int (active B + length F)"

lemma bucket_okD:
  assumes "bucket_ok s h xs"
  shows "timers s h = hd_or None xs" "links (heap s) None xs None" "distinct xs"
    "by_time (heap s) xs" "a \<in> set xs \<Longrightarrow> tm_hash (heap s a) = h \<and> hash (tm_time (heap s a)) = h"
  using assms by (auto simp: bucket_ok_def)

lemma lists_okD:
  assumes "lists_ok B F s"
  shows "h < HASH_SIZE \<Longrightarrow> bucket_ok s h (B h)" "set (B h) \<inter> set F = {}"
    "\<not> h < HASH_SIZE \<Longrightarrow> B h = []" "chain (heap s) (free_timers s) F" "distinct F"
  using assms by (auto simp: lists_ok_def split: if_splits)

lemma lists_okI:
  assumes "\<And>h. h < HASH_SIZE \<Longrightarrow> bucket_ok s h (B h)" "\<And>h. set (B h) \<inter> set F = {}"
    "\<And>h. \<not> h < HASH_SIZE \<Longrightarrow> B h = []" "chain (heap s) (free_timers s) F" "distinct F"
  shows "lists_ok B F s"
  using assms by (simp add: lists_ok_def)

lemma lists_disjoint:
  assumes "lists_ok B F s" "i \<noteq> h"
  shows "set (B h) \<inter> set (B i) = {}"
proof (cases "h < HASH_SIZE \<and> i < HASH_SIZE")
  case True
  then have "bucket_ok s h (B h)" "bucket_ok s i (B i)" using lists_okD(1) [OF assms(1)] by blast+
  from bucket_okD(5) [OF this(1)] bucket_okD(5) [OF this(2)] assms(2) show ?thesis by blast
next
  case False
  with lists_okD(3) [OF assms(1), of h] lists_okD(3) [OF assms(1), of i] show ?thesis by auto
qed

lemma hash_bound: "hash t < HASH_SIZE" by (simp add: hash_def HASH_SIZE_def)

lemma bucket_frame:
  assumes "bucket_ok s i xs" "timers s' i = timers s i" "\<And>a. a \<in> set xs \<Longrightarrow> heap s' a = heap s a"
  shows "bucket_ok s' i xs"
  using assms links_cong [of xs "heap s'" "heap s" None None] by_time_cong [of xs "heap s'" "heap s"]
  by (simp add: bucket_ok_def)

lemma chain_cong:
  "(\<And>a. a \<in> set xs \<Longrightarrow> tm_next (m' a) = tm_next (m a)) \<Longrightarrow> chain m' q xs = chain m q xs"
  by (induction xs arbitrary: q) auto

lemma bucket_relinked:
  assumes "relinked s s' h A ys" "distinct ys" "by_time (heap s) ys"
    "\<And>a. a \<in> set ys \<Longrightarrow> tm_hash (heap s a) = h \<and> hash (tm_time (heap s a)) = h"
  shows "bucket_ok s' h ys"
proof -
  have d: "same_data (heap s) (heap s')" using assms(1) by (simp add: relinked_def)
  have "timers s' = (timers s)(h := hd_or None ys)"
    using assms(1) unfolding relinked_def by (metis tmr.select_convs(2) tmr.surjective tmr.update_convs(1,2))
  then show ?thesis
    using assms same_dataD [OF d] by_time_cong [of ys "heap s'" "heap s"]
    by (simp add: bucket_ok_def relinked_def)
qed

lemma relinked_fields:
  assumes "relinked s s' h A ys"
  shows "timers s' = (timers s)(h := hd_or None ys)" "free_timers s' = free_timers s"
    "alloc_count s' = alloc_count s" "active_count s' = active_count s" "free_count s' = free_count s"
  using assms unfolding relinked_def
  by (metis tmr.ext_inject tmr.surjective tmr.update_convs(1,2))+

lemma lists_relinked:
  assumes "lists_ok B F s" "relinked s s' h A ys" "h < HASH_SIZE" "bucket_ok s' h ys"
    "set ys \<inter> set F = {}" "A \<inter> set F = {}" "\<And>i. i \<noteq> h \<Longrightarrow> A \<inter> set (B i) = {}"
  shows "lists_ok (B(h := ys)) F s'"
proof -
  note f = relinked_fields [OF assms(2)] and ok = lists_okD [OF assms(1)]
  have same: "\<And>a. a \<notin> A \<Longrightarrow> heap s' a = heap s a" using assms(2) by (simp add: relinked_def)
  show ?thesis
  proof (rule lists_okI)
    fix i
    show "bucket_ok s' i ((B(h := ys)) i)" if i: "i < HASH_SIZE"
    proof (cases "i = h")
      case False
      from assms(7) [OF this] have "\<And>a. a \<in> set (B i) \<Longrightarrow> heap s' a = heap s a" using same by blast
      with False ok(1) [OF i] show ?thesis by (simp add: bucket_frame f)
    qed (use assms(4) in simp)
    show "set ((B(h := ys)) i) \<inter> set F = {}" using ok(2) assms(5) by simp
    show "\<not> i < HASH_SIZE \<Longrightarrow> (B(h := ys)) i = []" using ok(3) assms(3) by auto
    have "heap s' a = heap s a" if "a \<in> set F" for a
    proof (rule same)
      show "a \<notin> A" using assms(6) that by blast
    qed
    then show "chain (heap s') (free_timers s') F" using ok(4) chain_cong [of F "heap s'" "heap s"] unfolding f by simp
  qed (rule ok(5))
qed

lemma lists_add:
  assumes "lists_ok B F s" "\<And>h. t \<notin> set (B h)" "t \<notin> set F"
    "tm_hash (heap s t) = h" "hash (tm_time (heap s t)) = h"
  shows "\<exists>s'. l_add t s = Some s' \<and> lists_ok (B(h := insert_timer (heap s) t (B h))) F s' \<and>
    relinked s s' h (insert t (set (B h))) (insert_timer (heap s) t (B h))"
proof -
  have h: "h < HASH_SIZE" using hash_bound assms(5) by blast
  note ok = lists_okD [OF assms(1)]
  note b = ok(1) [OF h] ok(2) [of h]
  obtain s' where s': "l_add t s = Some s'"
    "relinked s s' h (insert t (set (B h))) (insert_timer (heap s) t (B h))"
    using l_add_list [OF bucket_okD(1-3) [OF b(1)] assms(2) assms(4) [symmetric]] by blast
  have "bucket_ok s' h (insert_timer (heap s) t (B h))"
  proof (rule bucket_relinked [OF s'(2)])
    show "distinct (insert_timer (heap s) t (B h))"
      by (rule distinct_insert_timer [OF assms(2) bucket_okD(3) [OF b(1)]])
    show "by_time (heap s) (insert_timer (heap s) t (B h))"
      by (rule by_time_insert [OF bucket_okD(4) [OF b(1)]])
    show "a \<in> set (insert_timer (heap s) t (B h)) \<Longrightarrow>
        tm_hash (heap s a) = h \<and> hash (tm_time (heap s a)) = h" for a
      using bucket_okD(5) [OF b(1)] assms(4,5) by (cases "a = t") simp_all
  qed
  moreover have "i \<noteq> h \<Longrightarrow> insert t (set (B h)) \<inter> set (B i) = {}" for i
    using lists_disjoint [OF assms(1)] assms(2) by simp
  ultimately have "lists_ok (B(h := insert_timer (heap s) t (B h))) F s'"
    using b(2) assms(3) h by (intro lists_relinked [OF assms(1) s'(2)]) simp_all
  with s' show ?thesis by blast
qed

lemma lists_remove:
  assumes "lists_ok B F s" "t \<in> set (B h)"
  shows "lists_ok (B(h := remove1 t (B h))) F (l_remove t s) \<and>
    relinked s (l_remove t s) h (set (B h)) (remove1 t (B h))"
proof -
  note ok = lists_okD [OF assms(1)]
  have h: "h < HASH_SIZE" using assms(2) ok(3) by fastforce
  note b = ok(1) [OF h] ok(2) [of h]
  have r: "relinked s (l_remove t s) h (set (B h)) (remove1 t (B h))"
    using l_remove_list [OF bucket_okD(1-3) [OF b(1)] assms(2)] bucket_okD(5) [OF b(1) assms(2)] by blast
  have "bucket_ok (l_remove t s) h (remove1 t (B h))"
  proof (rule bucket_relinked [OF r])
    show "distinct (remove1 t (B h))" using bucket_okD(3) [OF b(1)] by simp
    show "by_time (heap s) (remove1 t (B h))" by (rule by_time_remove [OF bucket_okD(4) [OF b(1)]])
    show "a \<in> set (remove1 t (B h)) \<Longrightarrow> tm_hash (heap s a) = h \<and> hash (tm_time (heap s a)) = h" for a
      using bucket_okD(5) [OF b(1)] set_remove1_subset [of t "B h"] by blast
  qed
  moreover have "set (remove1 t (B h)) \<inter> set F = {}"
    using b(2) set_remove1_subset [of t "B h"] by blast
  ultimately have "lists_ok (B(h := remove1 t (B h))) F (l_remove t s)"
    using b(2) h lists_disjoint [OF assms(1)] by (intro lists_relinked [OF assms(1) r]) simp_all
  with r show ?thesis by blast
qed

section \<open>The operations keep the invariant\<close>

lemma active_upd:
  assumes "h < HASH_SIZE"
  shows "active (B(h := ys)) + length (B h) = active B + length ys"
proof -
  have "active C = length (C h) + (\<Sum>i\<in>{..<HASH_SIZE} - {h}. length (C i))" for C
    unfolding active_def using assms by (intro sum.remove) simp_all
  moreover have "(\<Sum>i\<in>{..<HASH_SIZE} - {h}. length ((B(h := ys)) i)) =
      (\<Sum>i\<in>{..<HASH_SIZE} - {h}. length (B i))" by (rule sum.cong) simp_all
  ultimately show ?thesis by simp
qed

lemma lists_upd:
  assumes "lists_ok B F s" "\<And>h. t \<notin> set (B h)" "t \<notin> set F"
  shows "lists_ok B F (upd t f s)"
proof (rule lists_okI)
  note ok = lists_okD [OF assms(1)]
  show "h < HASH_SIZE \<Longrightarrow> bucket_ok (upd t f s) h (B h)" for h
    using assms(2) [of h] by (intro bucket_frame [OF ok(1)]) auto
  show "chain (heap (upd t f s)) (free_timers (upd t f s)) F" using ok(4) assms(3) by simp
qed (use lists_okD [OF assms(1)] in simp_all)

lemma lists_counts [simp]:
  "lists_ok B F (s\<lparr>alloc_count := i\<rparr>) = lists_ok B F s"
  "lists_ok B F (s\<lparr>active_count := i\<rparr>) = lists_ok B F s"
  "lists_ok B F (s\<lparr>free_count := i\<rparr>) = lists_ok B F s"
  by (simp_all add: lists_ok_def bucket_ok_def)

lemma lists_free:
  assumes "lists_ok B F s" "\<And>h. t \<notin> set (B h)" "t \<notin> set F" "tm_next (heap s t) = free_timers s"
  shows "lists_ok B (t # F) (s\<lparr>free_timers := Some t\<rparr>)"
proof (rule lists_okI)
  note ok = lists_okD [OF assms(1)]
  show "h < HASH_SIZE \<Longrightarrow> bucket_ok (s\<lparr>free_timers := Some t\<rparr>) h (B h)" for h
    using ok(1) [of h] by (simp add: bucket_ok_def)
  show "set (B h) \<inter> set (t # F) = {}" for h using ok(2) assms(2) by simp
  show "chain (heap (s\<lparr>free_timers := Some t\<rparr>)) (free_timers (s\<lparr>free_timers := Some t\<rparr>)) (t # F)"
    using ok(4) assms(4) by simp
qed (use lists_okD [OF assms(1)] assms(3) in simp_all)

lemma lists_unfree:
  assumes "lists_ok B (t # F) s"
  shows "lists_ok B F (s\<lparr>free_timers := tm_next (heap s t)\<rparr>)" "free_timers s = Some t"
    "t \<notin> set F" "t \<notin> set (B h)"
proof -
  note ok = lists_okD [OF assms]
  show "lists_ok B F (s\<lparr>free_timers := tm_next (heap s t)\<rparr>)"
  proof (rule lists_okI)
    show "h < HASH_SIZE \<Longrightarrow> bucket_ok (s\<lparr>free_timers := tm_next (heap s t)\<rparr>) h (B h)" for h
      using ok(1) [of h] by (simp add: bucket_ok_def)
    show "set (B h) \<inter> set F = {}" for h using ok(2) [of h] by auto
  qed (use ok(3-5) in simp_all)
  show "free_timers s = Some t" "t \<notin> set F" "t \<notin> set (B h)" using ok(2) [of h] ok(4,5) by auto
qed

lemma remove_not_in:
  assumes "lists_ok B F s" "t \<in> set (B h)"
  shows "t \<notin> set ((B(h := remove1 t (B h))) i)" "t \<notin> set F" "h < HASH_SIZE"
proof -
  note ok = lists_okD [OF assms(1)]
  show "h < HASH_SIZE" using ok(3) assms(2) by fastforce
  from bucket_okD(3) [OF ok(1) [OF this]] lists_disjoint [OF assms(1), of i h] assms(2)
  show "t \<notin> set ((B(h := remove1 t (B h))) i)" by auto
  show "t \<notin> set F" using ok(2) [of h] assms(2) by blast
qed

lemma cancel_ok:
  assumes "tmr_ok B F s" "t \<in> set (B h)"
  shows "tmr_ok (B(h := remove1 t (B h))) (t # F) (tmr_cancel t s)"
proof -
  have l: "lists_ok B F s" using assms(1) by (simp add: tmr_ok_def)
  let ?s1 = "l_remove t s" and ?B = "B(h := remove1 t (B h))"
  let ?f = "\<lambda>r. r\<lparr>tm_next := free_timers ?s1, tm_prev := None\<rparr>"
  note r = lists_remove [OF l assms(2)] and n = remove_not_in [OF l assms(2)]
  have c: "active_count ?s1 = active_count s" "free_count ?s1 = free_count s" "alloc_count ?s1 = alloc_count s"
    using relinked_fields(3-5) [OF conjunct2 [OF r]] by simp_all
  have "lists_ok ?B F (upd t ?f ?s1)" using r n by (intro lists_upd) blast+
  then have "lists_ok ?B (t # F) ((upd t ?f ?s1)\<lparr>free_timers := Some t\<rparr>)"
    using n by (intro lists_free) simp_all
  moreover have "tmr_cancel t s = ((upd t ?f ?s1)\<lparr>free_timers := Some t\<rparr>)
      \<lparr>active_count := active_count s - 1, free_count := free_count s + 1\<rparr>"
    by (simp add: tmr_cancel_def Let_def upd_def c)
  moreover have "active ?B + 1 = active B"
  proof -
    have "length (remove1 t (B h)) + 1 = length (B h)"
      using assms(2) length_pos_if_in_set [OF assms(2)] by (simp add: length_remove1)
    with active_upd [OF n(3), of B "remove1 t (B h)"] show ?thesis by linarith
  qed
  ultimately show ?thesis
    using assms(1) c by (simp add: tmr_ok_def)
qed

lemma add_ok:
  assumes "lists_ok B F s" "\<And>h. t \<notin> set (B h)" "t \<notin> set F"
    "tm_hash (heap s t) = hash (tm_time (heap s t))"
  shows "\<exists>s' B'. l_add t s = Some s' \<and> lists_ok B' F s' \<and> active B' = active B + 1 \<and>
    (\<Union>h. set (B' h)) = insert t (\<Union>h. set (B h)) \<and> t \<in> set (B' (hash (tm_time (heap s t)))) \<and>
    same_data (heap s) (heap s') \<and>
    active_count s' = active_count s \<and> free_count s' = free_count s \<and> alloc_count s' = alloc_count s"
proof -
  let ?h = "hash (tm_time (heap s t))" let ?ys = "insert_timer (heap s) t (B ?h)"
  obtain s' where s': "l_add t s = Some s'" "lists_ok (B(?h := ?ys)) F s'"
    "relinked s s' ?h (insert t (set (B ?h))) ?ys"
    using lists_add [OF assms refl] by blast
  have "length ?ys = Suc (length (B ?h))"
    by (simp add: insert_timer_def before_def behind_def) (metis length_append takeWhile_dropWhile_id)
  then have "active (B(?h := ?ys)) = active B + 1"
    using active_upd [OF hash_bound, of B "tm_time (heap s t)" ?ys] by simp
  moreover have "(\<Union>h. set ((B(?h := ?ys)) h)) = insert t (\<Union>h. set (B h))" by (auto split: if_splits)
  moreover have "same_data (heap s) (heap s')" using s'(3) by (simp add: relinked_def)
  ultimately show ?thesis
    using s' relinked_fields(3-5) [OF s'(3)]
    by (intro exI [of _ s'] exI [of _ "B(?h := ?ys)"]) simp
qed

lemma remove_retime:
  "l_remove t (upd t (\<lambda>r. r\<lparr>tm_time := x\<rparr>) s) = upd t (\<lambda>r. r\<lparr>tm_time := x\<rparr>) (l_remove t s)"
proof -
  have put: "upd a f (upd t (\<lambda>r. r\<lparr>tm_time := x\<rparr>) v) = upd t (\<lambda>r. r\<lparr>tm_time := x\<rparr>) (upd a f v)"
    if "\<And>r. f (r\<lparr>tm_time := x\<rparr>) = (f r)\<lparr>tm_time := x\<rparr>" for a f v
    using that by (cases "a = t") (auto simp: upd_def fun_upd_twist)
  have head: "set_head h y (upd t f v) = upd t f (set_head h y v)" for h y f v
    by (simp add: upd_def set_head_def)
  show ?thesis
    by (simp add: l_remove_def Let_def put head split: option.splits)
qed

lemma resort_ok:
  assumes "tmr_ok B F s" "t \<in> set (B h)"
  shows "\<exists>s' B'. l_resort t (upd t (\<lambda>r. r\<lparr>tm_time := x\<rparr>) s) = Some s' \<and> tmr_ok B' F s' \<and>
    (\<Union>h. set (B' h)) = (\<Union>h. set (B h)) \<and> t \<in> set (B' (hash x)) \<and> tm_time (heap s' t) = x"
proof -
  have l: "lists_ok B F s" using assms(1) by (simp add: tmr_ok_def)
  let ?B = "B(h := remove1 t (B h))"
  let ?s2 = "upd t (\<lambda>r. r\<lparr>tm_hash := hash (tm_time r)\<rparr>) (upd t (\<lambda>r. r\<lparr>tm_time := x\<rparr>) (l_remove t s))"
  note r = lists_remove [OF l assms(2)] and n = remove_not_in [OF l assms(2)]
  have "lists_ok ?B F ?s2" using r n by (intro lists_upd) blast+
  from add_ok [OF this, of t] n obtain s' B' where s': "l_add t ?s2 = Some s'" "lists_ok B' F s'"
    "active B' = active ?B + 1" "(\<Union>h. set (B' h)) = insert t (\<Union>h. set (?B h))"
    "t \<in> set (B' (hash x))" and d: "same_data (heap ?s2) (heap s')"
    and c: "active_count s' = active_count s" "free_count s' = free_count s" "alloc_count s' = alloc_count s"
    using relinked_fields(3-5) [OF conjunct2 [OF r]] by auto
  have "active ?B + 1 = active B"
  proof -
    have "length (remove1 t (B h)) + 1 = length (B h)"
      using assms(2) length_pos_if_in_set [OF assms(2)] by (simp add: length_remove1)
    with active_upd [OF n(3), of B "remove1 t (B h)"] show ?thesis by linarith
  qed
  moreover have "insert t (\<Union>h. set (?B h)) = (\<Union>h. set (B h))"
  proof -
    have "insert t (set (remove1 t (B h))) = set (B h)"
      using assms(2) bucket_okD(3) [OF lists_okD(1) [OF l n(3)]] by auto
    then show ?thesis using assms(2) by (fastforce split: if_splits)
  qed
  ultimately have "tmr_ok B' F s'" "(\<Union>h. set (B' h)) = (\<Union>h. set (B h))"
    using s' c assms(1) by (simp_all add: tmr_ok_def)
  moreover have "tm_time (heap s' t) = x" using same_dataD [OF d, of t] by simp
  ultimately show ?thesis
    by (intro exI [of _ s'] exI [of _ B']) (use s' in \<open>simp add: l_resort_def remove_retime\<close>)
qed

definition addresses :: "(nat \<Rightarrow> nat list) \<Rightarrow> nat set" where
  "addresses B = (\<Union>h. set (B h))"

lemma init_ok: "tmr_ok (\<lambda>_. []) [] (tmr_init s)"
  by (simp add: tmr_ok_def lists_ok_def bucket_ok_def tmr_init_def active_def by_time_def)

lemma create_ok:
  assumes "tmr_ok B F s" "\<And>a. mem = Some a \<Longrightarrow> a \<notin> addresses B \<union> set F"
  shows "\<exists>r s' B' F'. tmr_create mem now proc cd ms per s = Some (r, s') \<and> tmr_ok B' F' s' \<and>
    (case r of None \<Rightarrow> F = [] \<and> mem = None \<and> s' = s
     | Some t \<Rightarrow> t \<notin> addresses B \<and> addresses B' = insert t (addresses B) \<and>
         set F' = set F - {t} \<and> t \<in> set (B' (hash (add_msecs now ms))) \<and>
         tm_time (heap s' t) = add_msecs now ms \<and> periodic (heap s' t) = per)"
proof -
  have l: "lists_ok B F s" using assms(1) by (simp add: tmr_ok_def)
  have go: "\<exists>s' B'. (case l_add t (upd t (\<lambda>r. r\<lparr>timer_proc := proc, client_data := cd, msecs := ms,
        periodic := per, tm_time := add_msecs now ms, tm_hash := hash (add_msecs now ms)\<rparr>) s1) of
        None \<Rightarrow> None | Some s3 \<Rightarrow> Some (Some t, s3\<lparr>active_count := active_count s3 + 1\<rparr>)) =
        Some (Some t, s') \<and> lists_ok B' F1 s' \<and> active B' = active B + 1 \<and>
        addresses B' = insert t (addresses B) \<and> t \<in> set (B' (hash (add_msecs now ms))) \<and>
        tm_time (heap s' t) = add_msecs now ms \<and> periodic (heap s' t) = per \<and> active_count s' = active_count s1 + 1 \<and>
        free_count s' = free_count s1 \<and> alloc_count s' = alloc_count s1"
    if l1: "lists_ok B F1 s1" and t: "t \<notin> addresses B" "t \<notin> set F1" for s1 F1 t
  proof -
    let ?f = "\<lambda>r. r\<lparr>timer_proc := proc, client_data := cd, msecs := ms,
        periodic := per, tm_time := add_msecs now ms, tm_hash := hash (add_msecs now ms)\<rparr>"
    have n: "\<And>h. t \<notin> set (B h)" using t(1) by (simp add: addresses_def)
    from add_ok [OF lists_upd [OF l1 n t(2)] n t(2), of ?f] obtain s' B' where
      "l_add t (upd t ?f s1) = Some s'" "lists_ok B' F1 s'" "active B' = active B + 1"
      "addresses B' = insert t (addresses B)" "t \<in> set (B' (hash (add_msecs now ms)))"
      and d: "same_data (heap (upd t ?f s1)) (heap s')" and
      "active_count s' = active_count s1" "free_count s' = free_count s1" "alloc_count s' = alloc_count s1"
      by (auto simp: addresses_def)
    with same_dataD [OF d, of t] show ?thesis
      by (intro exI [of _ "s'\<lparr>active_count := active_count s' + 1\<rparr>"] exI [of _ B']) simp
  qed
  show ?thesis
  proof (cases F)
    case Nil
    then have none: "free_timers s = None" using lists_okD(4) [OF l] by simp
    show ?thesis
    proof (cases mem)
      case None
      with none Nil assms(1) show ?thesis by (intro exI [of _ None]) (auto simp: tmr_create_def)
    next
      case (Some t)
      with assms(2) Nil have t: "t \<notin> addresses B" "t \<notin> set F" by simp_all
      from go [of F "s\<lparr>alloc_count := alloc_count s + 1\<rparr>" t] l t none Some Nil assms(1) show ?thesis
        by (intro exI [of _ "Some t"]) (fastforce simp: tmr_create_def Let_def tmr_ok_def)
    qed
  next
    case (Cons t F')
    note u = lists_unfree [OF l [unfolded Cons]]
    from u(4) have t: "t \<notin> addresses B" by (simp add: addresses_def)
    from go [of F' "s\<lparr>free_timers := tm_next (heap s t), free_count := free_count s - 1\<rparr>" t] u t Cons assms(1)
    show ?thesis
      by (intro exI [of _ "Some t"]) (fastforce simp: tmr_create_def Let_def tmr_ok_def)
  qed
qed

lemma reset_ok:
  assumes "tmr_ok B F s" "t \<in> set (B h)"
  shows "\<exists>s' B'. tmr_reset now t s = Some s' \<and> tmr_ok B' F s' \<and> addresses B' = addresses B \<and>
    t \<in> set (B' (hash (add_msecs now (msecs (heap s t))))) \<and>
    tm_time (heap s' t) = add_msecs now (msecs (heap s t))"
proof -
  have eq: "upd t (\<lambda>r. r\<lparr>tm_time := add_msecs now (msecs r)\<rparr>) s =
      upd t (\<lambda>r. r\<lparr>tm_time := add_msecs now (msecs (heap s t))\<rparr>) s" by (simp add: upd_def)
  from resort_ok [OF assms, of "add_msecs now (msecs (heap s t))"] show ?thesis
    unfolding tmr_reset_def eq addresses_def .
qed

lemma cleanup_ok: "tmr_ok B F s \<Longrightarrow> \<exists>s'. tmr_cleanup s = Some s' \<and> tmr_ok B [] s' \<and> timers s' = timers s"
proof (induction F arbitrary: s)
  case Nil
  then have "free_timers s = None" by (auto simp: tmr_ok_def dest: lists_okD(4))
  with Nil show ?case by (subst tmr_cleanup.simps) simp
next
  case (Cons t F)
  then have l: "lists_ok B (t # F) s" by (simp add: tmr_ok_def)
  note u = lists_unfree [OF l]
  have "tmr_ok B F (s\<lparr>free_timers := tm_next (heap s t), free_count := free_count s - 1,
      alloc_count := alloc_count s - 1\<rparr>)"
    using u(1) Cons.prems by (simp add: tmr_ok_def)
  from Cons.IH [OF this] u(2) show ?case by (subst tmr_cleanup.simps) simp
qed

lemma cancel_bucket_ok:
  "tmr_ok B F s \<Longrightarrow> h < HASH_SIZE \<Longrightarrow> \<exists>s' F'. cancel_bucket h s = Some s' \<and> tmr_ok (B(h := [])) F' s'"
proof (induction "length (B h)" arbitrary: B F s)
  case 0
  then have "timers s h = None" using bucket_okD(1) [OF lists_okD(1)] by (fastforce simp: tmr_ok_def)
  moreover have "B(h := []) = B" using 0 by auto
  ultimately show ?case using "0.prems" by (subst cancel_bucket.simps) auto
next
  case (Suc n)
  then obtain t r where B: "B h = t # r" by (cases "B h") auto
  have "timers s h = Some t"
    using bucket_okD(1) [OF lists_okD(1)] Suc.prems B by (fastforce simp: tmr_ok_def)
  moreover have "tmr_ok (B(h := r)) (t # F) (tmr_cancel t s)"
    using cancel_ok [OF Suc.prems(1), of t h] B by simp
  from Suc.hyps(1) [OF _ this Suc.prems(2)] Suc.hyps(2) B
  have "\<exists>s' F'. cancel_bucket h (tmr_cancel t s) = Some s' \<and> tmr_ok (B(h := [])) F' s'" by simp
  ultimately show ?case by (subst cancel_bucket.simps) simp
qed

lemma cancel_buckets_ok:
  "tmr_ok B F s \<Longrightarrow> list_all (\<lambda>h. h < HASH_SIZE) hs \<Longrightarrow>
   \<exists>s' F'. cancel_buckets hs s = Some s' \<and> tmr_ok (\<lambda>h. if h \<in> set hs then [] else B h) F' s'"
proof (induction hs arbitrary: B F s)
  case (Cons h hs)
  from cancel_bucket_ok [OF Cons.prems(1), of h] Cons.prems(2) obtain s1 F1 where
    c: "cancel_bucket h s = Some s1" "tmr_ok (B(h := [])) F1 s1" by auto
  have eq: "(\<lambda>i. if i \<in> set hs then [] else (B(h := [])) i) = (\<lambda>i. if i \<in> set (h # hs) then [] else B i)"
    by (rule ext) simp
  from Cons.prems(2) have "list_all (\<lambda>h. h < HASH_SIZE) hs" by simp
  from Cons.IH [OF c(2) this] show ?case unfolding eq using c(1) by simp
qed auto

section \<open>Running the expired timers\<close>

lemma same_data_refl [simp]: "same_data m m" by (simp add: same_data_def)

lemma same_data_trans: "same_data m m' \<Longrightarrow> same_data m' m'' \<Longrightarrow> same_data m m''"
  by (simp add: same_data_def)

lemma cancel_same:
  assumes "tmr_ok B F s" "t \<in> set (B h)" shows "same_data (heap s) (heap (tmr_cancel t s))"
proof -
  have "same_data (heap s) (heap (l_remove t s))"
    using lists_remove [of B F s t h] assms by (simp add: tmr_ok_def relinked_def)
  moreover have "same_data (heap (l_remove t s)) (heap (tmr_cancel t s))"
    by (simp add: tmr_cancel_def Let_def same_data_def)
  ultimately show ?thesis by (rule same_data_trans)
qed

definition quiet ::
  "(nat \<Rightarrow> nat \<Rightarrow> timeval \<Rightarrow> tmr \<times> 'w \<Rightarrow> tmr \<times> 'w) \<Rightarrow> (nat \<Rightarrow> nat \<Rightarrow> timeval \<Rightarrow> 'w \<Rightarrow> 'w) \<Rightarrow> bool" where
  \<comment> \<open>the procedures leave the timers alone\<close>
  "quiet procs g \<longleftrightarrow> (\<forall>k cd now s w. procs k cd now (s, w) = (s, g k cd now w))"

definition fire :: "(nat \<Rightarrow> timer) \<Rightarrow> (nat \<Rightarrow> nat \<Rightarrow> timeval \<Rightarrow> 'w \<Rightarrow> 'w) \<Rightarrow> timeval \<Rightarrow> nat list \<Rightarrow> 'w \<Rightarrow> 'w" where
  "fire m g now xs w = foldl (\<lambda>w a. g (timer_proc (m a)) (client_data (m a)) now w) w xs"

lemma fire_same: "same_data m m' \<Longrightarrow> fire m' g now xs w = fire m g now xs w"
  using same_dataD by (induction xs arbitrary: w) (auto simp: fire_def)

lemma run_bucket_quiet:
  assumes "quiet procs g" "tmr_ok B F s" "h < HASH_SIZE" "list_all (\<lambda>a. \<not> periodic (heap s a)) (B h)"
  shows "\<exists>s' F'. run_bucket procs now (hd_or None (B h)) (s, w) =
      Some (s', fire (heap s) g now (filter (\<lambda>a. tm_time (heap s a) \<le> now) (B h)) w) \<and>
    tmr_ok (B(h := filter (\<lambda>a. now < tm_time (heap s a)) (B h))) F' s' \<and> same_data (heap s) (heap s')"
  using assms(2-)
proof (induction "B h" arbitrary: B F s w)
  case Nil
  then have "B(h := []) = B" by auto
  with Nil show ?case by (subst run_bucket.simps) (auto simp: fire_def)
next
  case (Cons a r)
  note B = Cons.hyps(2) [symmetric]
  have l: "bucket_ok s h (a # r)" using Cons.prems(1,2) B lists_okD(1) [of B F s h] by (simp add: tmr_ok_def)
  show ?case
  proof (cases "now < tm_time (heap s a)")
    case True
    have "\<forall>b\<in>set r. tm_time (heap s a) \<le> tm_time (heap s b)"
      using bucket_okD(4) [OF l] by (auto simp: by_time_def)
    with True have "\<forall>b\<in>set (a # r). now < tm_time (heap s b)" by auto
    then have "filter (\<lambda>a. now < tm_time (heap s a)) (a # r) = a # r"
      "filter (\<lambda>a. tm_time (heap s a) \<le> now) (a # r) = []"
      by (simp_all add: filter_empty_conv linorder_not_le)
    moreover have "B(h := a # r) = B" using B by auto
    ultimately show ?thesis
      using True Cons.prems(1) unfolding B
      by (intro exI [of _ s] exI [of _ F]) (simp add: run_bucket.simps [of _ _ "Some a"] fire_def)
  next
    case False
    let ?s = "tmr_cancel a s" and ?B = "B(h := r)"
    have ok: "tmr_ok ?B (a # F) ?s" using cancel_ok [OF Cons.prems(1), of a h] B by simp
    have same: "same_data (heap s) (heap ?s)" using cancel_same [OF Cons.prems(1), of a h] B by simp
    have next1: "tm_next (heap s a) = hd_or None r" using bucket_okD(2) [OF l] by simp
    have "procs (timer_proc (heap s a)) (client_data (heap s a)) now (s, w) =
        (s, g (timer_proc (heap s a)) (client_data (heap s a)) now w)"
      using assms(1) by (simp add: quiet_def)
    then have step: "run_bucket procs now (Some a) (s, w) = run_bucket procs now (hd_or None r)
        (?s, g (timer_proc (heap s a)) (client_data (heap s a)) now w)"
      using False Cons.prems(3) B next1 by (subst run_bucket.simps) (simp add: Let_def)
    have np: "list_all (\<lambda>a. \<not> periodic (heap ?s a)) (?B h)"
      using Cons.prems(3) same_dataD [OF same] B by (simp add: list_all_iff)
    have r: "r = ?B h" by simp
    obtain s' F' where ih: "run_bucket procs now (hd_or None r)
        (?s, g (timer_proc (heap s a)) (client_data (heap s a)) now w) =
      Some (s', fire (heap ?s) g now (filter (\<lambda>a. tm_time (heap ?s a) \<le> now) r)
        (g (timer_proc (heap s a)) (client_data (heap s a)) now w))"
      "tmr_ok (B(h := filter (\<lambda>a. now < tm_time (heap ?s a)) r)) F' s'" "same_data (heap ?s) (heap s')"
      using Cons.hyps(1) [OF r ok Cons.prems(2) np, of "g (timer_proc (heap s a)) (client_data (heap s a)) now w",
          unfolded fun_upd_same fun_upd_upd] by blast
    have times: "tm_time (heap ?s b) = tm_time (heap s b)" for b using same_dataD [OF same] by blast
    have "filter (\<lambda>a. now < tm_time (heap s a)) (a # r) = filter (\<lambda>a. now < tm_time (heap s a)) r"
      using False by simp
    moreover have "fire (heap s) g now (filter (\<lambda>a. tm_time (heap s a) \<le> now) (a # r)) w =
        fire (heap s) g now (filter (\<lambda>a. tm_time (heap s a) \<le> now) r)
          (g (timer_proc (heap s a)) (client_data (heap s a)) now w)"
      using False by (simp add: fire_def not_less)
    ultimately show ?thesis
      using ih same_data_trans [OF same ih(3)] unfolding B times fire_same [OF same]
      by (intro exI [of _ s'] exI [of _ F']) (simp add: step)
  qed
qed

lemma run_buckets_quiet:
  assumes "quiet procs g" "tmr_ok B F s" "distinct hs" "list_all (\<lambda>h. h < HASH_SIZE) hs"
    "\<And>h. list_all (\<lambda>a. \<not> periodic (heap s a)) (B h)"
  shows "\<exists>s' F'. run_buckets procs now hs (s, w) =
      Some (s', fire (heap s) g now (concat (map (\<lambda>h. filter (\<lambda>a. tm_time (heap s a) \<le> now) (B h)) hs)) w) \<and>
    tmr_ok (\<lambda>h. if h \<in> set hs then filter (\<lambda>a. now < tm_time (heap s a)) (B h) else B h) F' s' \<and>
    same_data (heap s) (heap s')"
  using assms(2-)
proof (induction hs arbitrary: B F s w)
  case Nil
  then show ?case by (auto simp: fire_def)
next
  case (Cons h hs)
  from Cons.prems(2,3) have h: "h < HASH_SIZE" "distinct hs" "list_all (\<lambda>h. h < HASH_SIZE) hs" "h \<notin> set hs"
    by simp_all
  have "lists_ok B F s" using Cons.prems(1) by (simp add: tmr_ok_def)
  note head = bucket_okD(1) [OF lists_okD(1) [OF this h(1)]]
  let ?late = "\<lambda>h. filter (\<lambda>a. now < tm_time (heap s a)) (B h)"
  let ?due = "\<lambda>h. filter (\<lambda>a. tm_time (heap s a) \<le> now) (B h)"
  let ?B = "B(h := ?late h)"
  obtain s1 F1 where one: "run_bucket procs now (hd_or None (B h)) (s, w) =
      Some (s1, fire (heap s) g now (?due h) w)" "tmr_ok ?B F1 s1" "same_data (heap s) (heap s1)"
    using run_bucket_quiet [OF assms(1) Cons.prems(1) h(1) Cons.prems(4)] by blast
  have data: "tm_time (heap s1 a) = tm_time (heap s a)" "periodic (heap s1 a) = periodic (heap s a)" for a
    using same_dataD [OF one(3)] by blast+
  have "list_all (\<lambda>a. \<not> periodic (heap s1 a)) (?B i)" for i
    using Cons.prems(4) [of i] by (auto simp: data list_all_iff)
  from Cons.IH [OF one(2) h(2,3) this, of "fire (heap s) g now (?due h) w"]
  obtain s' F' where two: "run_buckets procs now hs (s1, fire (heap s) g now (?due h) w) =
      Some (s', fire (heap s1) g now (concat (map (\<lambda>i. filter (\<lambda>a. tm_time (heap s1 a) \<le> now) (?B i)) hs))
        (fire (heap s) g now (?due h) w))"
    "tmr_ok (\<lambda>i. if i \<in> set hs then filter (\<lambda>a. now < tm_time (heap s1 a)) (?B i) else ?B i) F' s'"
    "same_data (heap s1) (heap s')" by blast
  have maps: "map (\<lambda>i. filter (\<lambda>a. tm_time (heap s1 a) \<le> now) (?B i)) hs = map ?due hs"
    using h(4) by (auto simp: data)
  have B: "(\<lambda>i. if i \<in> set hs then filter (\<lambda>a. now < tm_time (heap s1 a)) (?B i) else ?B i) =
      (\<lambda>i. if i \<in> set (h # hs) then ?late i else B i)"
    using h(4) by (auto simp: data)
  have "run_buckets procs now (h # hs) (s, w) =
      Some (s', fire (heap s) g now (concat (map ?due (h # hs))) w)"
    using one(1) two(1) unfolding maps fire_same [OF one(3)] by (simp add: head fire_def)
  with two(2,3) same_data_trans [OF one(3)] show ?case unfolding B by blast
qed

section \<open>The client's view\<close>

text \<open>
  \<open>tmr_reach L M s\<close>: \<open>s\<close> is reached by calls of the package, \<open>L\<close> are the handles given out
  and not yet cancelled, \<open>M\<close> all the memory the package holds. The client may only pass handles
  of \<open>L\<close>; \<open>malloc\<close> answers with fresh memory or fails.
\<close>

inductive tmr_reach :: "nat set \<Rightarrow> nat set \<Rightarrow> tmr \<Rightarrow> bool" where
  init: "tmr_reach {} {} (tmr_init s)"
| create: "tmr_reach L M s \<Longrightarrow> (\<And>a. mem = Some a \<Longrightarrow> a \<notin> M) \<Longrightarrow>
    tmr_create mem now proc cd ms per s = Some (Some t, s') \<Longrightarrow> tmr_reach (insert t L) (insert t M) s'"
| create_fails: "tmr_reach L M s \<Longrightarrow> (\<And>a. mem = Some a \<Longrightarrow> a \<notin> M) \<Longrightarrow>
    tmr_create mem now proc cd ms per s = Some (None, s') \<Longrightarrow> tmr_reach L M s'"
| cancel: "tmr_reach L M s \<Longrightarrow> t \<in> L \<Longrightarrow> tmr_reach (L - {t}) M (tmr_cancel t s)"
| reset: "tmr_reach L M s \<Longrightarrow> t \<in> L \<Longrightarrow> tmr_reset now t s = Some s' \<Longrightarrow> tmr_reach L M s'"
| cleanup: "tmr_reach L M s \<Longrightarrow> tmr_cleanup s = Some s' \<Longrightarrow> tmr_reach L L s'"
| finish: "tmr_reach L M s \<Longrightarrow> tmr_term s = Some s' \<Longrightarrow> tmr_reach {} {} s'"

definition repr :: "nat set \<Rightarrow> nat set \<Rightarrow> tmr \<Rightarrow> bool" where
  "repr L M s \<longleftrightarrow> (\<exists>B F. tmr_ok B F s \<and> L = addresses B \<and> M = L \<union> set F)"

lemma term_ok:
  assumes "tmr_ok B F s"
  shows "\<exists>s'. tmr_term s = Some s' \<and> tmr_ok (\<lambda>_. []) [] s'"
proof -
  have "list_all (\<lambda>h. h < HASH_SIZE) [0 ..< HASH_SIZE]" by (simp add: list_all_iff)
  from cancel_buckets_ok [OF assms this] obtain s1 F1 where
    c: "cancel_buckets [0 ..< HASH_SIZE] s = Some s1"
    "tmr_ok (\<lambda>h. if h \<in> set [0 ..< HASH_SIZE] then [] else B h) F1 s1" by blast
  have "(\<lambda>h. if h \<in> set [0 ..< HASH_SIZE] then [] else B h) = (\<lambda>_. [])"
    using lists_okD(3) [of B F s] assms by (auto simp: tmr_ok_def)
  with cleanup_ok [OF c(2)] c(1) show ?thesis by (auto simp: tmr_term_def)
qed

lemma cancel_addresses:
  assumes "tmr_ok B F s" "t \<in> set (B h)"
  shows "addresses (B(h := remove1 t (B h))) = addresses B - {t}"
proof -
  have l: "lists_ok B F s" using assms(1) by (simp add: tmr_ok_def)
  note n = remove_not_in [OF l assms(2)]
  have "set (remove1 t (B h)) = set (B h) - {t}"
    using bucket_okD(3) [OF lists_okD(1) [OF l n(3)]] by simp
  moreover have "i \<noteq> h \<Longrightarrow> t \<notin> set (B i)" for i using n(1) [of i] by simp
  ultimately show ?thesis by (auto simp: addresses_def split: if_splits)
qed

lemma reach_repr: "tmr_reach L M s \<Longrightarrow> repr L M s"
proof (induction rule: tmr_reach.induct)
  case (init s)
  from init_ok show ?case unfolding repr_def by (fastforce simp: addresses_def)
next
  case (create L M s mem now proc cd ms per t s')
  then obtain B F where B: "tmr_ok B F s" "L = addresses B" "M = L \<union> set F" by (auto simp: repr_def)
  with create.hyps(2,3) create_ok [OF B(1), of mem now proc cd ms per] obtain B' F' where
    "tmr_ok B' F' s'" "addresses B' = insert t (addresses B)" "set F' = set F - {t}" by fastforce
  with B(2,3) show ?case unfolding repr_def by blast
next
  case (create_fails L M s mem now proc cd ms per s')
  then obtain B F where B: "tmr_ok B F s" "L = addresses B" "M = L \<union> set F" by (auto simp: repr_def)
  with create_fails.hyps(2,3) create_ok [OF B(1), of mem now proc cd ms per] have "s' = s" by fastforce
  with B show ?case unfolding repr_def by blast
next
  case (cancel L M s t)
  then obtain B F h where B: "tmr_ok B F s" "L = addresses B" "M = L \<union> set F" "t \<in> set (B h)"
    by (auto simp: repr_def addresses_def)
  from cancel_ok [OF B(1,4)] cancel_addresses [OF B(1,4)] B show ?case
    unfolding repr_def by (intro exI conjI) (auto simp: addresses_def)
next
  case (reset L M s t now s')
  then obtain B F h where B: "tmr_ok B F s" "L = addresses B" "M = L \<union> set F" "t \<in> set (B h)"
    by (auto simp: repr_def addresses_def)
  with reset_ok [OF B(1,4), of now] reset.hyps(3) show ?case unfolding repr_def by force
next
  case (cleanup L M s s')
  then obtain B F where B: "tmr_ok B F s" "L = addresses B" by (auto simp: repr_def)
  with cleanup_ok [OF B(1)] cleanup.hyps(2) show ?case unfolding repr_def by force
next
  case (finish L M s s')
  then obtain B F where B: "tmr_ok B F s" by (auto simp: repr_def)
  from term_ok [OF B] finish.hyps(2) show ?case unfolding repr_def by (fastforce simp: addresses_def)
qed

inductive_cases reach_empty: "tmr_reach L {} s"

section \<open>Properties\<close>


lemma concat_nils [simp]: "concat (map (\<lambda>h. []) xs) = []"
  by (induction xs) auto

lemma reach_one:
  "\<exists>s t. tmr_create (Some 0) (Timeval 10 0) 1 2 1500 False (tmr_init s0) = Some (Some t, s) \<and>
     tmr_reach {t} {t} s \<and> tm_time (heap s t) = Timeval 11 500000 \<and> \<not> periodic (heap s t) \<and>
     (\<exists>B F. tmr_ok B F s \<and> addresses B = {t})"
proof -
  have "tmr_reach {} {} (tmr_init s0)" by (rule tmr_reach.init)
  moreover have "add_msecs (Timeval 10 0) 1500 = Timeval 11 500000"
    by (simp add: add_msecs_def signed_divide_int_def signed_modulo_int_def)
  moreover obtain r s B F where c: "tmr_create (Some 0) (Timeval 10 0) 1 2 1500 False (tmr_init s0) = Some (r, s)"
    "tmr_ok B F s" and t: "case r of None \<Rightarrow> False
       | Some t \<Rightarrow> addresses B = {t} \<and> tm_time (heap s t) = add_msecs (Timeval 10 0) 1500 \<and> \<not> periodic (heap s t)"
    using create_ok [OF init_ok, of "Some 0" "Timeval 10 0" 1 2 1500 False s0]
    by (auto simp: addresses_def split: option.splits)
  moreover from t obtain t where "r = Some t" by (cases r) auto
  ultimately show ?thesis
    using tmr_reach.create [of "{}" "{}" "tmr_init s0" "Some 0" "Timeval 10 0" 1 2 1500 False t s] by auto
qed




end
