(* ===== verification/Th_Start.thy ===== *)
theory Th_Start
  imports Th_Auth Th_Mime Th_Response Th_Mmc Th_Timers
begin

text \<open>
  What the server does with a parsed request, \<open>src/others/thttpd-2.29/libhttpd.c\<close>: the referrer check, the
  parent's side of CGI programs and directory listings, and \<open>really_start_request\<close>, which checks
  permissions, passwords and patterns and in the end maps a file and writes its headers. The answers of the
  operating system are parameters.
\<close>

section \<open>The server\<close>

record file_stat =
  st_data :: stat_data
  st_mode :: "32 word"
  st_mtime :: int

datatype proc_kind = Cgi_kill | Cgi_kill2 | Wakeup | Linger_clear | Idle | Occasional | Update_throttles | Show_stats

record web =
  http :: http_server
  page_site :: site
  mime_tabs :: mime_tables
  auth :: auth_env
  cgi_pattern :: "string option"
  cgi_limit :: int
  url_pattern :: "string option"
  local_pattern :: "string option"
  no_empty_referrers :: bool
  server_hostname :: "string option"
  file_stat :: "string \<Rightarrow> file_stat option"  \<comment> \<open>\<open>stat\<close>\<close>
  opendir_ok :: "string \<Rightarrow> bool"
  fork_pid :: int  \<comment> \<open>what \<open>fork\<close> returns in the parent\<close>
  timer_room :: "nat option"  \<comment> \<open>\<open>malloc\<close> of a timer\<close>
  time_of_day :: timeval
  map_answers :: map_env  \<comment> \<open>for \<open>mmc_map\<close>; the stat data and the time are those of the call\<close>

record world =
  w_mmc :: mmc
  w_tmr :: tmr
  cgi_count :: int
  auth_entry :: auth_cache
  redirect_sizes :: "nat \<times> nat"

datatype started =
    Started int http_conn file_stat world
  | Start_crash fault
  | Start_exit  \<comment> \<open>\<open>exit(1)\<close>\<close>
  | Start_stuck  \<comment> \<open>a loop that never ends, or an access outside a table\<close>

definition S_IROTH :: "32 word" where "S_IROTH = 4"
definition S_IXOTH :: "32 word" where "S_IXOTH = 1"

definition has_bits :: "32 word \<Rightarrow> 32 word \<Rightarrow> bool" where
  "has_bits m b \<longleftrightarrow> and m b \<noteq> 0"

definition is_dir :: "32 word \<Rightarrow> bool" where
  "is_dir m \<longleftrightarrow> and m 0xF000 = 0x4000"

definition err403 :: "string \<Rightarrow> string" where
  "err403 s = ''The requested URL '%.80s' '' @ s @ [LF]"

definition refuse :: "web \<Rightarrow> http_conn \<Rightarrow> file_stat \<Rightarrow> world \<Rightarrow> nat \<Rightarrow> string \<Rightarrow> string \<Rightarrow> string \<Rightarrow> started" where
  \<comment> \<open>\<open>httpd_send_err\<close> with status, title, form and argument, and \<open>return -1\<close>\<close>
  "refuse v hc sb w st title form a =
     Started (-1) (httpd_send_err (page_site v) (st_mtime sb) hc st title [] form a) sb w"

definition error_500 :: "web \<Rightarrow> http_conn \<Rightarrow> file_stat \<Rightarrow> world \<Rightarrow> started" where
  "error_500 v hc sb w = refuse v hc sb w 500 err500title err500form (encodedurl hc)"

definition forbidden :: "web \<Rightarrow> http_conn \<Rightarrow> file_stat \<Rightarrow> world \<Rightarrow> string \<Rightarrow> started" where
  "forbidden v hc sb w s = refuse v hc sb w 403 err403title (err403 s) (encodedurl hc)"

section \<open>Referrers\<close>

definition really_check_referrer :: "web \<Rightarrow> string \<Rightarrow> http_conn \<Rightarrow> bool" where
  \<comment> \<open>the string is \<open>url_pattern\<close>\<close>
  "really_check_referrer v pat hc =
     (case (if referrer hc = [] then None else find_sub ''//'' (referrer hc)) of
        None \<Rightarrow> \<not> (no_empty_referrers v \<and> match pat (str (origfilename hc)))
      | Some k \<Rightarrow>
          (let refhost = map tolower (takeWhile (\<lambda>c. c \<noteq> CHR ''/'' \<and> c \<noteq> CHR '':'') (drop (k + 2) (referrer hc)));
               lp = (case local_pattern v of
                       Some l \<Rightarrow> Some l
                     | None \<Rightarrow> if \<not> vhost (http v) then server_hostname v else hostname hc)
           in case lp of
                None \<Rightarrow> True
              | Some l \<Rightarrow> \<not> (\<not> match l refhost \<and> match pat (str (origfilename hc)))))"

definition check_referrer :: "web \<Rightarrow> int \<Rightarrow> http_conn \<Rightarrow> bool \<times> http_conn" where
  \<comment> \<open>the number is \<open>sb.st_mtime\<close>\<close>
  "check_referrer v mt hc =
     (case url_pattern v of
        None \<Rightarrow> (True, hc)
      | Some pat \<Rightarrow>
          if really_check_referrer v pat hc then (True, hc)
          else (False, httpd_send_err (page_site v) mt hc 403 err403title []
                  (''You must supply a local referrer to get URL '%.80s' from this server.'' @ [LF]) (encodedurl hc)))"

section \<open>Programs and listings\<close>

definition CGI_TIMELIMIT :: int where "CGI_TIMELIMIT = 30"
definition CGI_BYTECOUNT :: int where "CGI_BYTECOUNT = 25000"

fun proc_id :: "proc_kind \<Rightarrow> nat" where
  \<comment> \<open>the timer procedures as the numbers that \<open>Th_Timers\<close> keeps\<close>
  "proc_id Cgi_kill = 0"
| "proc_id Cgi_kill2 = 1"
| "proc_id Wakeup = 2"
| "proc_id Linger_clear = 3"
| "proc_id Idle = 4"
| "proc_id Occasional = 5"
| "proc_id Update_throttles = 6"
| "proc_id Show_stats = 7"

definition spawn :: "web \<Rightarrow> http_conn \<Rightarrow> file_stat \<Rightarrow> world \<Rightarrow> started" where
  \<comment> \<open>the part that \<open>cgi\<close> and \<open>ls\<close> share, from the test of the limit on\<close>
  "spawn v hc sb w =
     (if cgi_limit v \<noteq> 0 \<and> cgi_limit v \<le> cgi_count w
      then refuse v hc sb w 503 err503title err503form (encodedurl hc)
      else (let w = w\<lparr>cgi_count := cgi_count w + 1\<rparr>
            in if fork_pid v < 0 then error_500 v hc sb w
               else (case tmr_create (timer_room v) (time_of_day v) (proc_id Cgi_kill) (nat (fork_pid v))
                            (CGI_TIMELIMIT * 1000) False (w_tmr w) of
                       None \<Rightarrow> Start_stuck
                     | Some (None, t) \<Rightarrow> Start_exit
                     | Some (Some a, t) \<Rightarrow>
                         Started 0 (hc\<lparr>status := 200, bytes_sent := CGI_BYTECOUNT, should_linger := False\<rparr>) sb
                           (w\<lparr>w_tmr := t\<rparr>))))"

definition cgi :: "web \<Rightarrow> http_conn \<Rightarrow> file_stat \<Rightarrow> world \<Rightarrow> started" where
  "cgi v hc sb w = spawn v hc sb w"

definition ls :: "web \<Rightarrow> http_conn \<Rightarrow> file_stat \<Rightarrow> world \<Rightarrow> started" where
  "ls v hc sb w =
     (if \<not> opendir_ok v (str (expnfilename hc)) then refuse v hc sb w 404 err404title err404form (encodedurl hc)
      else if hc_method hc = METHOD_HEAD
      then Started 0 (send_mime (page_site v) (st_mtime sb) hc 200 ok200title [] [] ''text/html; charset=%s'' (-1) (st_mtime sb)) sb w
      else if hc_method hc = METHOD_GET then spawn v hc sb w
      else refuse v hc sb w 501 err501title err501form (httpd_method_str (hc_method hc)))"

section \<open>Starting a request\<close>

definition index_names :: "string list" where
  "index_names = [''index.html'', ''index.htm'', ''index.xhtml'', ''index.xht'', ''Default.htm'', ''index.cgi'']"

definition index_path :: "string \<Rightarrow> string \<Rightarrow> string" where
  "index_path d n =
     (let p = (if d = [] \<or> last d \<noteq> CHR ''/'' then d @ ''/'' else d) in (if p = ''./'' then [] else p) @ n)"

fun find_index :: "(string \<Rightarrow> file_stat option) \<Rightarrow> string \<Rightarrow> string list \<Rightarrow> (string \<times> file_stat) option" where
  "find_index stat d [] = None"
| "find_index stat d (n # ns) =
     (case stat (index_path d n) of Some sb \<Rightarrow> Some (index_path d n, sb) | None \<Rightarrow> find_index stat d ns)"

definition dir_of :: "string \<Rightarrow> string" where
  "dir_of p = (case strrchr (CHR ''/'') p of None \<Rightarrow> ''.'' | Some s \<Rightarrow> take (length p - length s) p)"

definition is_auth_file :: "string \<Rightarrow> bool" where
  "is_auth_file p \<longleftrightarrow>
     (if length p = length AUTH_FILE then p = AUTH_FILE
      else length AUTH_FILE + 1 \<le> length p \<and> drop (length p - length AUTH_FILE) p = AUTH_FILE \<and>
           p ! (length p - (length AUTH_FILE + 1)) = CHR ''/'')"

definition send_auth_page :: "web \<Rightarrow> file_stat \<Rightarrow> nat \<times> string \<Rightarrow> http_conn \<Rightarrow> http_conn" where
  \<comment> \<open>the page of \<open>send_authenticate\<close>, or the one for an unreadable password file\<close>
  "send_auth_page v sb pg hc =
     (if fst pg = 401
      then httpd_send_err (page_site v) (st_mtime sb) hc 401 err401title
             (''WWW-Authenticate: Basic realm=\"'' @ snd pg @ ''\"'' @ CRLF) err401form (encodedurl hc)
      else httpd_send_err (page_site v) (st_mtime sb) hc 403 err403title []
             (err403 ''is protected by an authentication file, but the authentication file cannot be opened.'') (encodedurl hc))"

definition with_auth :: "web \<Rightarrow> string \<Rightarrow> http_conn \<Rightarrow> file_stat \<Rightarrow> world \<Rightarrow> (http_conn \<Rightarrow> world \<Rightarrow> started) \<Rightarrow> started" where
  \<comment> \<open>\<open>if ( auth_check( hc, d ) == -1 ) return -1\<close>, and the rest\<close>
  "with_auth v d hc sb w rest =
     (case auth_check (auth v) (vhost (http v)) d hc (auth_entry w) of
        Auth_crash f \<Rightarrow> Start_crash f
      | Auth n pg hc1 pc \<Rightarrow>
          (let w1 = w\<lparr>auth_entry := pc\<rparr>
           in if n = -1
              then Started (-1) (case pg of None \<Rightarrow> hc1 | Some x \<Rightarrow> send_auth_page v sb x hc1) sb w1
              else rest hc1 w1))"

definition with_referrer :: "web \<Rightarrow> http_conn \<Rightarrow> file_stat \<Rightarrow> world \<Rightarrow> (http_conn \<Rightarrow> started) \<Rightarrow> started" where
  "with_referrer v hc sb w rest =
     (case check_referrer v (st_mtime sb) hc of
        (ok, hc1) \<Rightarrow> if ok then rest hc1 else Started (-1) hc1 sb w)"

definition fill_last_byte :: "http_conn \<Rightarrow> int \<Rightarrow> http_conn" where
  "fill_last_byte hc sz =
     (if got_range hc \<and> (last_byte_index hc = -1 \<or> sz \<le> last_byte_index hc)
      then hc\<lparr>last_byte_index := sz - 1\<rparr> else hc)"

definition send_file :: "web \<Rightarrow> http_conn \<Rightarrow> file_stat \<Rightarrow> world \<Rightarrow> started" where
  \<comment> \<open>from the method test on\<close>
  "send_file v hc sb w =
     (if hc_method hc \<noteq> METHOD_GET \<and> hc_method hc \<noteq> METHOD_HEAD
      then refuse v hc sb w 501 err501title err501form (httpd_method_str (hc_method hc))
      else (case figure_mime (mime_tabs v) (fill_last_byte hc (st_size (st_data sb))) of
              None \<Rightarrow> Start_crash Buffer_overflow
            | Some hc \<Rightarrow>
                if hc_method hc = METHOD_HEAD
                then Started 0 (send_mime (page_site v) (st_mtime sb) hc 200 ok200title (str (encodings hc)) []
                       (content_type hc) (st_size (st_data sb)) (st_mtime sb)) sb w
                else if if_modified_since hc \<noteq> -1 \<and> st_mtime sb \<le> if_modified_since hc
                then Started 0 (send_mime (page_site v) (st_mtime sb) hc 304 err304title (str (encodings hc)) []
                       (content_type hc) (-1) (st_mtime sb)) sb w
                else (case mmc_map ((map_answers v)\<lparr>stat_result := Some (st_data sb), map_now := tv_sec (time_of_day v)\<rparr>)
                             (w_mmc w) of
                        None \<Rightarrow> Start_stuck
                      | Some (None, m) \<Rightarrow> error_500 v (hc\<lparr>file_address := None\<rparr>) sb (w\<lparr>w_mmc := m\<rparr>)
                      | Some (Some a, m) \<Rightarrow>
                          Started 0 (send_mime (page_site v) (st_mtime sb) (hc\<lparr>file_address := Some a\<rparr>) 200 ok200title
                            (str (encodings hc)) [] (content_type hc) (st_size (st_data sb)) (st_mtime sb)) sb (w\<lparr>w_mmc := m\<rparr>))))"

definition run_or_send :: "web \<Rightarrow> http_conn \<Rightarrow> file_stat \<Rightarrow> world \<Rightarrow> started" where
  \<comment> \<open>from the test for a program on\<close>
  "run_or_send v hc sb w =
     (if (case cgi_pattern v of
            None \<Rightarrow> False
          | Some p \<Rightarrow> has_bits (st_mode sb) S_IXOTH \<and> match p (str (expnfilename hc)))
      then cgi v hc sb w
      else if has_bits (st_mode sb) S_IXOTH
      then forbidden v hc sb w ''resolves to a file which is marked executable but is not a CGI file; retrieving it is forbidden.''
      else if str (pathinfo hc) \<noteq> []
      then forbidden v hc sb w ''resolves to a file plus CGI-style pathinfo, but the file is not a valid CGI file.''
      else send_file v hc sb w)"

definition authorized_file :: "web \<Rightarrow> http_conn \<Rightarrow> file_stat \<Rightarrow> world \<Rightarrow> started" where
  \<comment> \<open>from the test for a password file on\<close>
  "authorized_file v hc sb w =
     (if is_auth_file (str (expnfilename hc))
      then forbidden v hc sb w ''is an authorization file, retrieving it is not permitted.''
      else with_referrer v hc sb w (\<lambda>hc. run_or_send v hc sb w))"

definition start_file :: "web \<Rightarrow> http_conn \<Rightarrow> file_stat \<Rightarrow> world \<Rightarrow> started" where
  \<comment> \<open>from the authorization of a file's directory on\<close>
  "start_file v hc sb w =
     with_auth v (dir_of (str (expnfilename hc))) hc sb w (\<lambda>hc w. authorized_file v hc sb w)"

definition start_listing :: "web \<Rightarrow> http_conn \<Rightarrow> file_stat \<Rightarrow> world \<Rightarrow> started" where
  \<comment> \<open>a directory without an index file\<close>
  "start_listing v hc sb w =
     (if \<not> has_bits (st_mode sb) S_IROTH
      then forbidden v hc sb w ''resolves to a directory that has indexing disabled.''
      else with_auth v (str (expnfilename hc)) hc sb w (\<lambda>hc w. with_referrer v hc sb w (\<lambda>hc. ls v hc sb w)))"

definition start_index :: "web \<Rightarrow> string \<Rightarrow> http_conn \<Rightarrow> file_stat \<Rightarrow> world \<Rightarrow> started" where
  \<comment> \<open>a directory with an index file; \<open>sb\<close> is the file's\<close>
  "start_index v indexname hc sb w =
     (case expand_symlinks (path_exists (http v)) (read_link (http v)) indexname (no_symlink_check (http v)) (tildemapped hc) of
        Expanded cp pi \<Rightarrow>
          if pi \<noteq> [] then error_500 v hc sb w
          else (case strcpy (httpd_realloc_str (length cp) (expnfilename hc)) cp of
                  None \<Rightarrow> Start_crash Buffer_overflow
                | Some b \<Rightarrow>
                    (let hc = hc\<lparr>expnfilename := b\<rparr>
                     in if \<not> has_bits (st_mode sb) (or S_IROTH S_IXOTH)
                        then forbidden v hc sb w ''resolves to an index file that is not world-readable.''
                        else start_file v hc sb w))
      | Expand_error \<Rightarrow> error_500 v hc sb w
      | _ \<Rightarrow> Start_crash Out_of_bounds)"

definition really_start_request :: "web \<Rightarrow> http_conn \<Rightarrow> file_stat \<Rightarrow> world \<Rightarrow> started" where
  \<comment> \<open>\<open>sb0\<close> is what the connection's \<open>sb\<close> held before\<close>
  "really_start_request v hc sb0 w =
     (case file_stat v (str (expnfilename hc)) of
        None \<Rightarrow> error_500 v hc sb0 w
      | Some sb \<Rightarrow>
          if \<not> has_bits (st_mode sb) (or S_IROTH S_IXOTH)
          then forbidden v hc sb w ''resolves to a file that is not world-readable.''
          else if \<not> is_dir (st_mode sb) then start_file v hc sb w
          else if str (pathinfo hc) \<noteq> [] then refuse v hc sb w 404 err404title err404form (encodedurl hc)
          else if str (origfilename hc) \<noteq> [] \<and> str (origfilename hc) \<noteq> ''.'' \<and> last (str (origfilename hc)) \<noteq> CHR ''/''
          then (case send_dirredirect (page_site v) (st_mtime sb) (redirect_sizes w) hc of
                  (hc1, s) \<Rightarrow> Started (-1) hc1 sb (w\<lparr>redirect_sizes := s\<rparr>))
          else (case find_index (file_stat v) (str (expnfilename hc)) index_names of
                  Some (indexname, sb1) \<Rightarrow> start_index v indexname hc sb1 w
                | None \<Rightarrow> start_listing v hc sb w))"

definition httpd_start_request :: "web \<Rightarrow> http_conn \<Rightarrow> file_stat \<Rightarrow> world \<Rightarrow> started" where
  "httpd_start_request v hc sb w = really_start_request v hc sb w"

end
