(* ===== verification/Th_Served.thy ===== *)
theory Th_Served
  imports Th_Start
begin

text \<open>
  What \<open>Th_Start\<close> promises: which fields a response changes, when a file is served, and two gaps: index files
  outside the web tree, and places for programs that are never given back.
\<close>

section \<open>What a response changes\<close>

definition responded :: "http_conn \<Rightarrow> http_conn \<Rightarrow> bool" where
  \<comment> \<open>only the response, its status and length, and the range flag, which may be cleared\<close>
  "responded hc hc' \<longleftrightarrow> (\<exists>st g b n k. hc' = hc\<lparr>status := st, bytes_to_send := k, got_range := g, response := b, responselen := n\<rparr>)"

lemma responded_refl: "responded hc hc"
proof -
  have "hc = hc\<lparr>status := status hc, bytes_to_send := bytes_to_send hc, got_range := got_range hc,
      response := response hc, responselen := responselen hc\<rparr>" by simp
  then show ?thesis unfolding responded_def by blast
qed

lemma responded_trans: "responded a b \<Longrightarrow> responded b c \<Longrightarrow> responded a c"
  unfolding responded_def by fastforce

lemma responded_add: "responded hc hc' \<Longrightarrow> responded hc (add_response s hc')"
  unfolding responded_def by (fastforce simp: add_response_def Let_def)

lemma responded_fold: "responded hc hc' \<Longrightarrow> responded hc (fold add_response ss hc')"
  by (induction ss arbitrary: hc') (simp_all add: responded_add)

lemma responded_start: "responded hc (hc\<lparr>status := st, bytes_to_send := k\<rparr>)"
  "responded hc (hc\<lparr>bytes_to_send := k, status := st\<rparr>)"
  "responded hc (hc\<lparr>status := st, bytes_to_send := k, got_range := g\<rparr>)"
proof -
  have "hc\<lparr>status := st, bytes_to_send := k\<rparr> = hc\<lparr>status := st, bytes_to_send := k, got_range := got_range hc,
      response := response hc, responselen := responselen hc\<rparr>" for st by simp
  then show "responded hc (hc\<lparr>status := st, bytes_to_send := k\<rparr>)" unfolding responded_def by blast
  have "hc\<lparr>bytes_to_send := k, status := st\<rparr> = hc\<lparr>status := st, bytes_to_send := k, got_range := got_range hc,
      response := response hc, responselen := responselen hc\<rparr>" by simp
  then show "responded hc (hc\<lparr>bytes_to_send := k, status := st\<rparr>)" unfolding responded_def by blast
  have "hc\<lparr>status := st, bytes_to_send := k, got_range := g\<rparr> = hc\<lparr>status := st, bytes_to_send := k, got_range := g,
      response := response hc, responselen := responselen hc\<rparr>" by simp
  then show "responded hc (hc\<lparr>status := st, bytes_to_send := k, got_range := g\<rparr>)" unfolding responded_def by blast
qed

lemma responded_mime: "responded hc (send_mime w mt hc st title enc xh typ len md)"
  by (simp add: send_mime_def Let_def responded_fold responded_start)

lemma responded_response: "responded hc (send_response w mt hc st title xh form a)"
  unfolding send_response_def Let_def send_response_tail_def
  by (auto intro!: responded_add responded_fold responded_mime)

lemma responded_chunks: "responded hc hc' \<Longrightarrow> responded hc (fold (\<lambda>buf. add_response (cstr buf)) bs hc')"
  by (induction bs arbitrary: hc') (simp_all add: responded_add)

lemma responded_err: "responded hc (httpd_send_err w mt hc st title xh form a)"
  unfolding httpd_send_err_def send_err_file_def send_response_tail_def
  by (auto split: option.splits if_splits intro!: responded_add responded_chunks responded_mime responded_response)

lemma respondedD:
  assumes "responded hc hc'"
  shows "file_address hc' = file_address hc" "expnfilename hc' = expnfilename hc" "pathinfo hc' = pathinfo hc"
    "hc_method hc' = hc_method hc" "first_byte_index hc' = first_byte_index hc" "last_byte_index hc' = last_byte_index hc"
    "mime_flag hc' = mime_flag hc" "conn_fd hc' = conn_fd hc" "should_linger hc' = should_linger hc"
    "bytes_sent hc' = bytes_sent hc" "read_size hc' = read_size hc" "read_idx hc' = read_idx hc"
  using assms by (auto simp: responded_def)

definition remote :: "http_conn \<Rightarrow> http_conn \<Rightarrow> bool" where
  "remote hc hc' \<longleftrightarrow> (\<exists>u l. hc' = hc\<lparr>remoteuser := u, should_linger := l\<rparr>)"

lemma remoteI: "remote hc hc" "remote hc (hc\<lparr>remoteuser := u\<rparr>)" "remote hc (hc\<lparr>should_linger := l\<rparr>)"
proof -
  have "hc = hc\<lparr>remoteuser := remoteuser hc, should_linger := should_linger hc\<rparr>"
    "hc\<lparr>remoteuser := u\<rparr> = hc\<lparr>remoteuser := u, should_linger := should_linger hc\<rparr>"
    "hc\<lparr>should_linger := l\<rparr> = hc\<lparr>remoteuser := remoteuser hc, should_linger := l\<rparr>" by simp_all
  then show "remote hc hc" "remote hc (hc\<lparr>remoteuser := u\<rparr>)" "remote hc (hc\<lparr>should_linger := l\<rparr>)"
    unfolding remote_def by metis+
qed

lemma remote_trans: "remote a b \<Longrightarrow> remote b c \<Longrightarrow> remote a c"
  unfolding remote_def by fastforce

lemma check2_remote: "auth_check2 e d hc pc = Auth n pg hc' pc' \<Longrightarrow> remote hc hc'"
  by (auto simp: auth_check2_def Let_def send_authenticate_def authorized_def remoteI
      split: option.splits prod.splits if_splits)

lemma auth_remote: "auth_check e vh d hc pc = Auth n pg hc' pc' \<Longrightarrow> remote hc hc'"
  by (auto simp: auth_check_def Let_def split: if_splits auth.splits dest!: check2_remote intro: remote_trans)

lemma remoteD:
  assumes "remote hc hc'"
  shows "file_address hc' = file_address hc" "expnfilename hc' = expnfilename hc" "pathinfo hc' = pathinfo hc"
    "hc_method hc' = hc_method hc" "first_byte_index hc' = first_byte_index hc" "last_byte_index hc' = last_byte_index hc"
    "mime_flag hc' = mime_flag hc" "got_range hc' = got_range hc" "referrer hc' = referrer hc"
    "origfilename hc' = origfilename hc" "conn_fd hc' = conn_fd hc" "bytes_sent hc' = bytes_sent hc"
    "if_modified_since hc' = if_modified_since hc" "hostname hc' = hostname hc" "range_if hc' = range_if hc"
  using assms by (auto simp: remote_def)

lemma mime_fields:
  assumes "mime_flag hc \<or> \<not> got_range hc"
  shows "bytes_to_send (send_mime w mt hc st title enc xh typ len md) = len"
    "got_range (send_mime w mt hc st title enc xh typ len md) = (partial_content hc mt st len \<and> mime_flag hc)"
    "status (send_mime w mt hc st title enc xh typ len md) = (if partial_content hc mt st len \<and> mime_flag hc then 206 else st)"
  using assms by (auto simp: send_mime_def Let_def partial_upd partial_content_def)

lemma err_fields:
  assumes "mime_flag hc \<or> \<not> got_range hc" "st \<noteq> 200"
  shows "got_range (httpd_send_err w mt hc st title xh form a) = False"
    "status (httpd_send_err w mt hc st title xh form a) = st"
proof -
  let ?m = "send_mime w mt hc st title [] xh ''text/html; charset=%s'' (-1) 0"
  have f: "status (fold (\<lambda>buf. add_response (cstr buf)) bs hc) = status hc"
    "got_range (fold (\<lambda>buf. add_response (cstr buf)) bs hc) = got_range hc" for bs hc
    by (induction bs arbitrary: hc) simp_all
  have "got_range ?m = False" "status ?m = st"
    using mime_fields(2,3) [OF assms(1), of w mt st] assms(2) by (simp_all add: partial_content_def)
  then show "got_range (httpd_send_err w mt hc st title xh form a) = False"
    "status (httpd_send_err w mt hc st title xh form a) = st"
    by (auto simp: httpd_send_err_def send_err_file_def send_response_def send_response_tail_def f Let_def
        split: option.splits)
qed

section \<open>A file that is served\<close>

lemma referrer_same:
  "referrer a = referrer b \<Longrightarrow> origfilename a = origfilename b \<Longrightarrow> hostname a = hostname b \<Longrightarrow>
   really_check_referrer v pat a = really_check_referrer v pat b"
  by (simp only: really_check_referrer_def)

definition wanted_last :: "http_conn \<Rightarrow> int \<Rightarrow> int" where
  \<comment> \<open>the last byte asked for: the named one, or the file's last when none is named or it is past the end\<close>
  "wanted_last hc n = (if last_byte_index hc = -1 \<or> n \<le> last_byte_index hc then n - 1 else last_byte_index hc)"

definition wants_part :: "http_conn \<Rightarrow> file_stat \<Rightarrow> bool" where
  \<comment> \<open>the request asks for a part of the file: not an empty one, not all of it, and of this version\<close>
  "wants_part hc sb \<longleftrightarrow>
     mime_flag hc \<and> got_range hc \<and> first_byte_index hc \<le> wanted_last hc (st_size (st_data sb)) \<and>
     (first_byte_index hc \<noteq> 0 \<or> wanted_last hc (st_size (st_data sb)) \<noteq> st_size (st_data sb) - 1) \<and>
     (range_if hc = -1 \<or> range_if hc = st_mtime sb)"

definition good_range :: "http_conn \<Rightarrow> file_stat \<Rightarrow> http_conn \<Rightarrow> bool" where
  \<comment> \<open>the status, and exactly the bytes asked for\<close>
  "good_range hc sb hc' \<longleftrightarrow>
     got_range hc' = wants_part hc sb \<and> status hc' = (if wants_part hc sb then 206 else 200) \<and>
     (wants_part hc sb \<longrightarrow> first_byte_index hc' = first_byte_index hc \<and>
        last_byte_index hc' = wanted_last hc (st_size (st_data sb)))"

lemma range_same:
  assumes "mime_flag a = mime_flag b" "got_range a = got_range b" "first_byte_index a = first_byte_index b"
    "last_byte_index a = last_byte_index b" "range_if a = range_if b"
  shows "good_range a sb hc' = good_range b sb hc'"
  using assms by (simp only: good_range_def wants_part_def wanted_last_def)

definition requested_file :: "web \<Rightarrow> http_conn \<Rightarrow> file_stat \<Rightarrow> string \<Rightarrow> bool" where
  \<comment> \<open>\<open>p\<close> is the file a request is about and \<open>sb\<close> its stat data: the named one, or the first index file of
    the named directory, its links resolved\<close>
  "requested_file v hc sb p \<longleftrightarrow>
     (case file_stat v (str (expnfilename hc)) of
        None \<Rightarrow> False
      | Some sb1 \<Rightarrow>
          if \<not> is_dir (st_mode sb1) then sb = sb1 \<and> p = str (expnfilename hc)
          else \<exists>i. find_index (file_stat v) (str (expnfilename hc)) index_names = Some (i, sb) \<and>
                 expand_symlinks (path_exists (http v)) (read_link (http v)) i (no_symlink_check (http v)) (tildemapped hc) =
                   Expanded p [])"

definition mapped_now :: "web \<Rightarrow> file_stat \<Rightarrow> world \<Rightarrow> http_conn \<Rightarrow> world \<Rightarrow> bool" where
  \<comment> \<open>the address is the cache's answer for the file with these stat data\<close>
  "mapped_now v sb w hc' w' \<longleftrightarrow>
     mmc_map ((map_answers v)\<lparr>stat_result := Some (st_data sb), map_now := tv_sec (time_of_day v)\<rparr>) (w_mmc w) =
       Some (file_address hc', w_mmc w')"

definition password_ok :: "web \<Rightarrow> string \<Rightarrow> http_conn \<Rightarrow> bool" where
  \<comment> \<open>the directory has no password file, or the request has a password of it or of the global one\<close>
  "password_ok v d hc \<longleftrightarrow>
     auth_mtime (auth v) (d @ ''/'' @ AUTH_FILE) = None \<or> granted (auth v) d hc \<or>
     (global_passwd (auth v) \<and> granted (auth v) (topdir (vhost (http v)) hc) hc)"

lemma password_same:
  "authorization a = authorization b \<Longrightarrow> hostdir a = hostdir b \<Longrightarrow> password_ok v d a = password_ok v d b"
  by (simp only: password_ok_def granted_def topdir_def)

lemma auth_password:
  assumes "auth_check (auth v) (vhost (http v)) d hc pc = Auth n pg hc1 pc1" "n \<noteq> -1" "cache_ok (auth v) pc"
  shows "password_ok v d hc"
  using auth_check_grants [OF assms(3,1)] assms(2) unfolding password_ok_def by blast

definition may_serve :: "web \<Rightarrow> http_conn \<Rightarrow> file_stat \<Rightarrow> http_conn \<Rightarrow> bool" where
  \<comment> \<open>the request \<open>hc\<close> lets a file with stat data \<open>sb\<close> be sent, the connection then being \<open>hc'\<close>\<close>
  "may_serve v hc sb hc' \<longleftrightarrow>
     hc_method hc' = METHOD_GET \<and> has_bits (st_mode sb) S_IROTH \<and> \<not> has_bits (st_mode sb) S_IXOTH \<and>
     str (pathinfo hc') = [] \<and> \<not> is_auth_file (str (expnfilename hc')) \<and>
     (url_pattern v = None \<or> really_check_referrer v (the (url_pattern v)) hc) \<and>
     bytes_to_send hc' = st_size (st_data sb) \<and> good_range hc sb hc'"

lemma figure_mime_fields:
  "figure_mime t hc = Some hc' \<Longrightarrow> \<exists>c b. hc' = hc\<lparr>content_type := c, encodings := b\<rparr>"
  by (auto simp: figure_mime_def Let_def split: prod.splits option.splits)

lemma not_served [simp]:
  "refuse v hc sb w st title form a = Started r hc' sb' w' \<Longrightarrow> file_address hc' = file_address hc"
  "error_500 v hc sb w = Started r hc' sb' w' \<Longrightarrow> file_address hc' = file_address hc"
  "forbidden v hc sb w s = Started r hc' sb' w' \<Longrightarrow> file_address hc' = file_address hc"
  using respondedD(1) [OF responded_err] by (auto simp: refuse_def error_500_def forbidden_def)

lemma spawn_not_served: "spawn v hc sb w = Started r hc' sb' w' \<Longrightarrow> file_address hc' = file_address hc"
  by (auto simp: spawn_def Let_def split: if_splits option.splits prod.splits dest: not_served)

lemma ls_not_served: "ls v hc sb w = Started r hc' sb' w' \<Longrightarrow> file_address hc' = file_address hc"
  using respondedD(1) [OF responded_mime]
  by (auto simp: ls_def split: if_splits dest: not_served spawn_not_served)

lemma send_file_served:
  assumes "send_file v hc sb w = Started r hc' sb' w'" "file_address hc = None" "file_address hc' \<noteq> None"
    "mime_flag hc \<or> \<not> got_range hc"
  shows "r = 0 \<and> sb' = sb \<and> hc_method hc' = METHOD_GET \<and> hc_method hc = METHOD_GET \<and> bytes_to_send hc' = st_size (st_data sb) \<and>
    pathinfo hc' = pathinfo hc \<and> expnfilename hc' = expnfilename hc \<and> good_range hc sb hc' \<and> mapped_now v sb w hc' w'"
proof -
  let ?n = "st_size (st_data sb)"
  obtain h where h: "figure_mime (mime_tabs v) (fill_last_byte hc ?n) = Some h"
    using assms(1-3) by (cases "figure_mime (mime_tabs v) (fill_last_byte hc ?n)")
      (auto simp: send_file_def split: if_splits dest: not_served)
  have g: "hc_method hc = METHOD_GET"
  proof (rule ccontr)
    assume "hc_method hc \<noteq> METHOD_GET"
    moreover have "file_address h = None" "hc_method h = hc_method hc"
      using figure_mime_fields [OF h] assms(2) by (auto simp: fill_last_byte_def)
    ultimately show False
      using assms(1-3) h respondedD(1) [OF responded_mime]
      by (auto simp: send_file_def split: if_splits dest: not_served)
  qed
  obtain a m where mm: "mmc_map ((map_answers v)\<lparr>stat_result := Some (st_data sb), map_now := tv_sec (time_of_day v)\<rparr>) (w_mmc w) = Some (Some a, m)"
      "w_mmc w' = m"
    and a: "hc' = send_mime (page_site v) (st_mtime sb) (h\<lparr>file_address := Some a\<rparr>) 200 ok200title
      (str (encodings h)) [] (content_type h) ?n (st_mtime sb)" "r = 0" "sb' = sb"
  proof -
    have nn: "METHOD_GET \<noteq> METHOD_HEAD" by (simp add: METHOD_GET_def METHOD_HEAD_def)
    have e: "hc_method h = METHOD_GET" using figure_mime_fields [OF h] g by (auto simp: fill_last_byte_def)
    have fn: "file_address h = None" using figure_mime_fields [OF h] assms(2) by (auto simp: fill_last_byte_def)
    let ?map = "mmc_map ((map_answers v)\<lparr>stat_result := Some (st_data sb), map_now := tv_sec (time_of_day v)\<rparr>) (w_mmc w)"
    have u: "send_file v hc sb w =
      (if if_modified_since h \<noteq> -1 \<and> st_mtime sb \<le> if_modified_since h
       then Started 0 (send_mime (page_site v) (st_mtime sb) h 304 err304title (str (encodings h)) []
              (content_type h) (-1) (st_mtime sb)) sb w
       else (case ?map of None \<Rightarrow> Start_stuck
             | Some (None, m) \<Rightarrow> error_500 v (h\<lparr>file_address := None\<rparr>) sb (w\<lparr>w_mmc := m\<rparr>)
             | Some (Some a, m) \<Rightarrow> Started 0 (send_mime (page_site v) (st_mtime sb) (h\<lparr>file_address := Some a\<rparr>) 200 ok200title
                 (str (encodings h)) [] (content_type h) ?n (st_mtime sb)) sb (w\<lparr>w_mmc := m\<rparr>)))"
      using h g nn e by (simp add: send_file_def)
    have n: "\<not> (if_modified_since h \<noteq> -1 \<and> st_mtime sb \<le> if_modified_since h)"
      using assms(1,3) fn respondedD(1) [OF responded_mime [of h]] unfolding u by auto
    show thesis
    proof (cases ?map)
      case None
      with assms(1) n show thesis unfolding u by auto
    next
      case (Some am)
      obtain x m where am: "am = (x, m)" by fastforce
      show thesis
      proof (cases x)
        case None
        with assms(1) n Some am have "error_500 v (h\<lparr>file_address := None\<rparr>) sb (w\<lparr>w_mmc := m\<rparr>) = Started r hc' sb' w'"
          unfolding u if_not_P [OF n] by simp
        from not_served(2) [OF this] assms(3) show thesis by simp
      next
        case (Some y)
        with assms(1) \<open>?map = Some am\<close> am show thesis unfolding u if_not_P [OF n] by (intro that [of y m]) auto
      qed
    qed
  qed
  let ?h = "h\<lparr>file_address := Some a\<rparr>"
  have k: "mime_flag ?h \<or> \<not> got_range ?h" "hc_method ?h = METHOD_GET" "pathinfo ?h = pathinfo hc"
    "expnfilename ?h = expnfilename hc" "first_byte_index ?h = first_byte_index hc" "mime_flag ?h = mime_flag hc"
    "got_range ?h = got_range hc" "range_if ?h = range_if hc" "got_range hc \<Longrightarrow> last_byte_index ?h = wanted_last hc ?n"
    using figure_mime_fields [OF h] assms(4) g by (auto simp: fill_last_byte_def wanted_last_def split: if_splits)
  note r = respondedD [OF responded_mime [of ?h "page_site v" "st_mtime sb" 200 ok200title "str (encodings h)" "[]"
      "content_type h" ?n "st_mtime sb"]]
  have mf: "bytes_to_send hc' = ?n" "got_range hc' = (partial_content ?h (st_mtime sb) 200 ?n \<and> mime_flag ?h)"
    "status hc' = (if partial_content ?h (st_mtime sb) 200 ?n \<and> mime_flag ?h then 206 else 200)"
    unfolding a(1) by (rule mime_fields [OF k(1)])+
  have part: "(partial_content ?h (st_mtime sb) 200 ?n \<and> mime_flag ?h) = wants_part hc sb"
    using k(5-9) unfolding partial_content_def wants_part_def by metis
  note rr = r [folded a(1)]
  have "good_range hc sb hc'"
    using rr(5,6) k(5,9) mf(2,3) unfolding part good_range_def by (simp add: wants_part_def)
  moreover have "mapped_now v sb w hc' w'" using mm rr(1) by (simp add: mapped_now_def)
  ultimately show ?thesis using a(2,3) k(2-4) g mf(1) rr(2-4) by simp
qed

lemma roth: "has_bits m (or S_IROTH S_IXOTH) \<Longrightarrow> \<not> has_bits m S_IXOTH \<Longrightarrow> has_bits m S_IROTH"
  by (auto simp: has_bits_def bit.conj_disj_distrib)

lemma referrer_cases:
  "with_referrer v hc sb w rest = Started r hc' sb' w' \<Longrightarrow> file_address hc = None \<Longrightarrow> file_address hc' \<noteq> None \<Longrightarrow>
   rest hc = Started r hc' sb' w' \<and> (url_pattern v = None \<or> really_check_referrer v (the (url_pattern v)) hc)"
  using respondedD(1) [OF responded_err]
  by (auto simp: with_referrer_def check_referrer_def split: option.splits if_splits)

lemma auth_cases:
  assumes "with_auth v d hc sb w rest = Started r hc' sb' w'" "file_address hc = None" "file_address hc' \<noteq> None"
  obtains n pg hc1 pc where "auth_check (auth v) (vhost (http v)) d hc (auth_entry w) = Auth n pg hc1 pc" "n \<noteq> -1"
    "rest hc1 (w\<lparr>auth_entry := pc\<rparr>) = Started r hc' sb' w'" "remote hc hc1"
proof (cases "auth_check (auth v) (vhost (http v)) d hc (auth_entry w)")
  case (Auth n pg hc1 pc)
  note rem = auth_remote [OF Auth]
  have "n \<noteq> -1"
  proof
    assume "n = -1"
    then have "hc' = (case pg of None \<Rightarrow> hc1 | Some x \<Rightarrow> send_auth_page v sb x hc1)"
      using assms(1) Auth by (simp add: with_auth_def)
    then have "file_address hc' = file_address hc1"
      using respondedD(1) [OF responded_err] by (auto simp: send_auth_page_def split: option.splits)
    then show False using assms(2,3) remoteD(1) [OF rem] by simp
  qed
  then show thesis using assms(1) Auth rem by (intro that) (auto simp: with_auth_def)
next
  case (Auth_crash f)
  then show thesis using assms(1) by (simp add: with_auth_def)
qed

lemma run_or_send_served:
  assumes "run_or_send v hc sb w = Started r hc' sb' w'" "file_address hc = None" "file_address hc' \<noteq> None"
    "mime_flag hc \<or> \<not> got_range hc"
  shows "\<not> has_bits (st_mode sb) S_IXOTH \<and> str (pathinfo hc) = [] \<and> send_file v hc sb w = Started r hc' sb' w'"
proof -
  have c: "\<not> (case cgi_pattern v of None \<Rightarrow> False
      | Some p \<Rightarrow> has_bits (st_mode sb) S_IXOTH \<and> match p (str (expnfilename hc)))" (is "\<not> ?c")
  proof
    assume ?c
    then have "spawn v hc sb w = Started r hc' sb' w'" using assms(1) by (simp only: run_or_send_def cgi_def if_True)
    from spawn_not_served [OF this] assms(2,3) show False by simp
  qed
  have x: "\<not> has_bits (st_mode sb) S_IXOTH"
  proof
    assume "has_bits (st_mode sb) S_IXOTH"
    with assms(1) have "forbidden v hc sb w ''resolves to a file which is marked executable but is not a CGI file; retrieving it is forbidden.'' =
        Started r hc' sb' w'" unfolding run_or_send_def if_not_P [OF c] by (simp only: if_True)
    from not_served(3) [OF this] assms(2,3) show False by simp
  qed
  have p: "\<not> str (pathinfo hc) \<noteq> []"
  proof
    assume np: "str (pathinfo hc) \<noteq> []"
    from assms(1) have "forbidden v hc sb w ''resolves to a file plus CGI-style pathinfo, but the file is not a valid CGI file.'' =
        Started r hc' sb' w'" unfolding run_or_send_def if_not_P [OF c] if_not_P [OF x] if_P [OF np] .
    from not_served(3) [OF this] assms(2,3) show False by simp
  qed
  show ?thesis
    using assms(1) x p unfolding run_or_send_def if_not_P [OF c] if_not_P [OF x] if_not_P [OF p] by simp
qed

lemma authorized_file_served:
  assumes "authorized_file v hc sb w = Started r hc' sb' w'" "file_address hc = None" "file_address hc' \<noteq> None"
    "mime_flag hc \<or> \<not> got_range hc" "has_bits (st_mode sb) (or S_IROTH S_IXOTH)"
  shows "r = 0 \<and> sb' = sb \<and> may_serve v hc sb hc' \<and> expnfilename hc' = expnfilename hc \<and> mapped_now v sb w hc' w'"
proof -
  have na: "\<not> is_auth_file (str (expnfilename hc))"
  proof
    assume "is_auth_file (str (expnfilename hc))"
    with assms(1) have "forbidden v hc sb w ''is an authorization file, retrieving it is not permitted.'' = Started r hc' sb' w'"
      by (simp only: authorized_file_def if_True)
    from not_served(3) [OF this] assms(2,3) show False by simp
  qed
  note rc = referrer_cases [OF assms(1) [unfolded authorized_file_def if_not_P [OF na]] assms(2,3)]
  note rs = run_or_send_served [OF conjunct1 [OF rc] assms(2-4)]
  note sf = send_file_served [OF _ assms(2-4)]
  show ?thesis
    using rs sf [of v sb w r sb' w'] rc na roth [OF assms(5)] unfolding may_serve_def by simp
qed

lemma start_file_served:
  assumes "start_file v hc sb w = Started r hc' sb' w'" "file_address hc = None" "file_address hc' \<noteq> None"
    "mime_flag hc \<or> \<not> got_range hc" "has_bits (st_mode sb) (or S_IROTH S_IXOTH)"
  shows "r = 0 \<and> sb' = sb \<and> may_serve v hc sb hc' \<and> expnfilename hc' = expnfilename hc \<and> mapped_now v sb w hc' w' \<and>
    (\<exists>n pg hc1 pc. auth_check (auth v) (vhost (http v)) (dir_of (str (expnfilename hc))) hc (auth_entry w) = Auth n pg hc1 pc \<and> n \<noteq> -1)"
proof -
  obtain n pg hc1 pc where a: "auth_check (auth v) (vhost (http v)) (dir_of (str (expnfilename hc))) hc (auth_entry w) = Auth n pg hc1 pc"
    "n \<noteq> -1" "authorized_file v hc1 sb (w\<lparr>auth_entry := pc\<rparr>) = Started r hc' sb' w'" "remote hc hc1"
    using auth_cases [OF assms(1) [unfolded start_file_def] assms(2,3)] by metis
  note rd = remoteD [OF a(4)]
  have "mime_flag hc1 \<or> \<not> got_range hc1" "file_address hc1 = None" using rd assms(2,4) by simp_all
  from authorized_file_served [OF a(3) this(2) assms(3) this(1) assms(5)]
  have s: "r = 0 \<and> sb' = sb \<and> may_serve v hc1 sb hc' \<and> expnfilename hc' = expnfilename hc1 \<and> mapped_now v sb (w\<lparr>auth_entry := pc\<rparr>) hc' w'" .
  moreover have "mapped_now v sb (w\<lparr>auth_entry := pc\<rparr>) hc' w' = mapped_now v sb w hc' w'" by (simp add: mapped_now_def)
  moreover have "may_serve v hc1 sb hc' = may_serve v hc sb hc'"
    using referrer_same [OF rd(9,10,14), of v] range_same [OF rd(7,8,5,6,15)] unfolding may_serve_def by simp
  ultimately show ?thesis using a(1,2) rd by metis
qed

lemma listing_not_served:
  assumes "start_listing v hc sb w = Started r hc' sb' w'" "file_address hc = None"
  shows "file_address hc' = None"
proof (rule ccontr)
  assume f: "file_address hc' \<noteq> None"
  have r: "\<not> \<not> has_bits (st_mode sb) S_IROTH"
  proof
    assume n: "\<not> has_bits (st_mode sb) S_IROTH"
    from assms(1) have "forbidden v hc sb w ''resolves to a directory that has indexing disabled.'' = Started r hc' sb' w'"
      unfolding start_listing_def if_P [OF n] .
    from not_served(3) [OF this] assms(2) f show False by simp
  qed
  obtain n pg hc1 pc where a: "with_referrer v hc1 sb (w\<lparr>auth_entry := pc\<rparr>) (\<lambda>hc. ls v hc sb (w\<lparr>auth_entry := pc\<rparr>)) = Started r hc' sb' w'"
    "remote hc hc1"
    using auth_cases [OF assms(1) [unfolded start_listing_def if_not_P [OF r]] assms(2) f] by metis
  have "file_address hc1 = None" using remoteD(1) [OF a(2)] assms(2) by simp
  from referrer_cases [OF a(1) this f] ls_not_served this f show False by metis
qed

lemma start_index_served:
  assumes "start_index v i hc sb w = Started r hc' sb' w'" "file_address hc = None" "file_address hc' \<noteq> None"
    "mime_flag hc \<or> \<not> got_range hc"
  shows "\<exists>b. start_file v (hc\<lparr>expnfilename := b\<rparr>) sb w = Started r hc' sb' w' \<and> has_bits (st_mode sb) (or S_IROTH S_IXOTH) \<and>
    expand_symlinks (path_exists (http v)) (read_link (http v)) i (no_symlink_check (http v)) (tildemapped hc) = Expanded (str b) []"
  using assms not_served
  by (auto simp: start_index_def Let_def strcpy_def split: expanded.splits option.splits if_splits dest: not_served)

text \<open>C24: a file is sent only when everything allows it, and it is the requested one. If a request starts with a mapped file,
  then the method is GET; the file is the one of the resolved path, or the first index file of that directory, its links resolved,
  the stat data are its own, and the address is the one the map cache gives for them; the file is readable for everybody and executable
  for nobody else, is no password file and has no path behind it; the request has a password for its directory if one is
  needed; the referrer is allowed; and the reply is a 206 with exactly the range asked for (a missing or too large end
  meaning the last byte), if the request asks for a proper, nonempty part of this version, and else a 200 with the whole file.\<close>

theorem start_request_serves:
  assumes "httpd_start_request v hc sb0 w = Started r hc' sb w'" "file_address hc = None" "file_address hc' \<noteq> None"
    "mime_flag hc \<or> \<not> got_range hc" "cache_ok (auth v) (auth_entry w)"
  shows "r = 0 \<and> may_serve v hc sb hc' \<and> requested_file v hc sb (str (expnfilename hc')) \<and> mapped_now v sb w hc' w' \<and>
    password_ok v (dir_of (str (expnfilename hc'))) hc"
proof -
  note a = assms(1) [unfolded httpd_start_request_def really_start_request_def]
  obtain sb1 where sb1: "file_stat v (str (expnfilename hc)) = Some sb1"
    using a assms(2,3) not_served(2) by (cases "file_stat v (str (expnfilename hc))") auto
  have m: "has_bits (st_mode sb1) (or S_IROTH S_IXOTH)"
    using a sb1 assms(2,3) not_served(3) by (auto split: if_splits)
  show ?thesis
  proof (cases "is_dir (st_mode sb1)")
    case False
    then have "start_file v hc sb1 w = Started r hc' sb w'" using a sb1 m by simp
    note s = start_file_served [OF this assms(2-4) m]
    then have "requested_file v hc sb (str (expnfilename hc'))" using sb1 False by (simp add: requested_file_def)
    with s auth_password [OF _ _ assms(5)] show ?thesis by metis
  next
    case True
    obtain i sb2 where i: "find_index (file_stat v) (str (expnfilename hc)) index_names = Some (i, sb2)"
      "start_index v i hc sb2 w = Started r hc' sb w'"
    proof (cases "find_index (file_stat v) (str (expnfilename hc)) index_names")
      case None
      with a sb1 m True assms(2,3) have "start_listing v hc sb1 w = Started r hc' sb w'"
        using respondedD(1) [OF responded_response]
        by (auto simp: send_dirredirect_def Let_def split: if_splits prod.splits dest: not_served)
      then have "file_address hc' = None" using listing_not_served assms(2) by blast
      with assms(3) show thesis by simp
    next
      case (Some x)
      with a sb1 m True assms(2,3) that show thesis
        using respondedD(1) [OF responded_response]
        by (cases x) (auto simp: send_dirredirect_def Let_def split: if_splits prod.splits dest: not_served)
    qed
    from start_index_served [OF i(2) assms(2-4)] obtain b where
      b: "start_file v (hc\<lparr>expnfilename := b\<rparr>) sb2 w = Started r hc' sb w'" "has_bits (st_mode sb2) (or S_IROTH S_IXOTH)"
        "expand_symlinks (path_exists (http v)) (read_link (http v)) i (no_symlink_check (http v)) (tildemapped hc) = Expanded (str b) []"
      by blast
    have "file_address (hc\<lparr>expnfilename := b\<rparr>) = None" "mime_flag (hc\<lparr>expnfilename := b\<rparr>) \<or> \<not> got_range (hc\<lparr>expnfilename := b\<rparr>)"
      using assms(2,4) by simp_all
    note s = start_file_served [OF b(1) this(1) assms(3) this(2) b(2)]
    then have "requested_file v hc sb (str (expnfilename hc'))" using sb1 True i(1) b(3) by (simp add: requested_file_def)
    moreover have "may_serve v (hc\<lparr>expnfilename := b\<rparr>) sb hc' = may_serve v hc sb hc'"
      using referrer_same [of "hc\<lparr>expnfilename := b\<rparr>" hc v] range_same [of "hc\<lparr>expnfilename := b\<rparr>" hc]
      unfolding may_serve_def by simp
    moreover have "password_ok v d (hc\<lparr>expnfilename := b\<rparr>) = password_ok v d hc" for d
      by (rule password_same) simp_all
    ultimately show ?thesis using s auth_password [OF _ _ assms(5)] by metis
  qed
qed

definition plain_web :: web where
  "plain_web = \<lparr>http = plain_server, page_site = small_site, mime_tabs = small_tables, auth = one_user, cgi_pattern = None,
     cgi_limit = 50, url_pattern = None, local_pattern = None, no_empty_referrers = False, server_hostname = None,
     file_stat = (\<lambda>p. Some \<lparr>st_data = \<lparr>st_ino = 7, st_dev = 2, st_size = 100, st_ctime = 9\<rparr>,
       st_mode = (if p = ''pub'' then 0x41ED else 0x81A4), st_mtime = 5\<rparr>),
     opendir_ok = (\<lambda>p. True), fork_pid = -1, timer_room = Some 9, time_of_day = Timeval 1700000000 0,
     map_answers = five_bytes\<rparr>"

definition new_tmr :: tmr where
  "new_tmr = tmr_init \<lparr>heap = (\<lambda>a. \<lparr>timer_proc = 0, client_data = 0, msecs = 0, periodic = False, tm_time = Timeval 0 0,
     tm_prev = None, tm_next = None, tm_hash = 0\<rparr>), timers = (\<lambda>h. None), free_timers = None, alloc_count = 0,
     active_count = 0, free_count = 0\<rparr>"

definition new_world :: world where
  "new_world = \<lparr>w_mmc = mmc_start, w_tmr = new_tmr, cgi_count = 0, auth_entry = no_cache, redirect_sizes = (0, 0)\<rparr>"

definition get_conn_for :: "string \<Rightarrow> http_conn" where
  "get_conn_for p = (with_request [])\<lparr>hc_method := METHOD_GET, origfilename := \<lparr>str = p, maxsize = 200\<rparr>,
     expnfilename := \<lparr>str = p, maxsize = 200\<rparr>, protocol := ''HTTP/1.1'', mime_flag := True, got_range := True, first_byte_index := 10,
     last_byte_index := 500\<rparr>"

lemma plain_auth: "auth_check one_user False ''.'' (get_conn_for ''a.html'') no_cache = Auth 0 None (get_conn_for ''a.html'') no_cache"
  by code_simp

lemma plain_mime: "figure_mime small_tables (fill_last_byte (get_conn_for ''a.html'') 100) \<noteq> None"
  by code_simp

lemma plain_map: "map_option fst (mmc_map (five_bytes\<lparr>stat_result := Some \<lparr>st_ino = 7, st_dev = 2, st_size = 100, st_ctime = 9\<rparr>,
   map_now := 1700000000\<rparr>) mmc_start) = Some (Some 4096)"
  by code_simp

lemma plain_fields: "if_modified_since (get_conn_for p) = -1" "str (pathinfo (get_conn_for p)) = []"
  "file_address (get_conn_for p) = None" "str (expnfilename (get_conn_for p)) = p" "str (origfilename (get_conn_for p)) = p"
  "tildemapped (get_conn_for p) = False" "mime_flag (get_conn_for p)"
  by (simp_all add: get_conn_for_def with_request_def idle_conn_def httpd_get_conn_def reset_conn_def init_conn_def emptied_def Let_def)

lemma plain_send: "case send_file plain_web (get_conn_for ''a.html'') \<lparr>st_data = \<lparr>st_ino = 7, st_dev = 2, st_size = 100, st_ctime = 9\<rparr>,
   st_mode = 0x81A4, st_mtime = 5\<rparr> new_world of Started r hc sb w \<Rightarrow> r = 0 \<and> file_address hc = Some 4096 | _ \<Rightarrow> False"
proof -
  obtain h where "figure_mime small_tables (fill_last_byte (get_conn_for ''a.html'') 100) = Some h" using plain_mime by blast
  moreover from figure_mime_fields [OF this] have "hc_method h = METHOD_GET" "if_modified_since h = -1"
    using plain_fields(1) [of "''a.html''"] by (auto simp: fill_last_byte_def get_conn_for_def)
  moreover have "hc_method (get_conn_for p) = METHOD_GET" for p by (simp add: get_conn_for_def)
  moreover obtain m where "mmc_map (five_bytes\<lparr>stat_result := Some \<lparr>st_ino = 7, st_dev = 2, st_size = 100, st_ctime = 9\<rparr>,
     map_now := 1700000000\<rparr>) mmc_start = Some (Some 4096, m)" using plain_map by auto
  moreover have "METHOD_GET \<noteq> METHOD_HEAD" by (simp add: METHOD_GET_def METHOD_HEAD_def)
  ultimately show ?thesis using respondedD(1) [OF responded_mime]
    by (simp add: send_file_def plain_web_def new_world_def)
qed

lemma plain_start:
  "\<exists>hc sb w. httpd_start_request plain_web (get_conn_for ''a.html'') sb0 new_world = Started 0 hc sb w \<and> file_address hc = Some 4096"
proof -
  have d: "dir_of ''a.html'' = ''.''" "\<not> is_auth_file ''a.html''" by code_simp+
  have m: "has_bits 0x81A4 (or S_IROTH S_IXOTH)" "\<not> is_dir 0x81A4" "\<not> has_bits 0x81A4 S_IXOTH" by code_simp+
  show ?thesis
    using plain_send plain_auth
    by (simp add: httpd_start_request_def really_start_request_def start_file_def with_auth_def authorized_file_def with_referrer_def
        check_referrer_def run_or_send_def plain_web_def new_world_def plain_server_def d m plain_fields split: started.splits)
qed

definition old_stat :: file_stat where
  "old_stat = \<lparr>st_data = \<lparr>st_ino = 0, st_dev = 0, st_size = 0, st_ctime = 0\<rparr>, st_mode = 0, st_mtime = 0\<rparr>"

theorem start_request_serves_witness:
  "\<exists>hc' sb w'. httpd_start_request plain_web (get_conn_for ''a.html'') old_stat new_world = Started 0 hc' sb w' \<and>
     may_serve plain_web (get_conn_for ''a.html'') sb hc' \<and> requested_file plain_web (get_conn_for ''a.html'') sb (str (expnfilename hc')) \<and>
     mapped_now plain_web sb new_world hc' w' \<and>
     password_ok plain_web (dir_of (str (expnfilename hc'))) (get_conn_for ''a.html'')"
proof -
  obtain hc sb w where s: "httpd_start_request plain_web (get_conn_for ''a.html'') old_stat new_world = Started 0 hc sb w"
    "file_address hc \<noteq> None" using plain_start [of old_stat] by auto
  have "cache_ok (auth plain_web) (auth_entry new_world)" by (simp add: new_world_def check2_no_cache)
  from start_request_serves [OF s(1) plain_fields(3) s(2) disjI1 [OF plain_fields(7)] this] s(1) show ?thesis by blast
qed

section \<open>Two gaps\<close>

lemma join_encodings_total: "\<exists>b'. join_encodings vs b = Some b'"
proof (induction vs arbitrary: b)
  case (Cons v vs)
  let ?s = "(if str b \<noteq> [] then str b @ '','' else str b) @ v"
  have "strcpy (httpd_realloc_str (length (str b) + length v + 1) b) ?s =
      Some ((httpd_realloc_str (length (str b) + length v + 1) b)\<lparr>str := ?s\<rparr>)"
    by (intro strcpy_realloc) simp
  then show ?case using Cons.IH by simp
qed simp

lemma figure_mime_total: "\<exists>c b. figure_mime t hc = Some (hc\<lparr>content_type := c, encodings := b\<rparr>)"
proof -
  obtain h where "figure_mime t hc = Some h"
    using join_encodings_total by (force simp: figure_mime_def Let_def split: prod.splits option.splits)
  with figure_mime_fields [OF this] show ?thesis by metis
qed

lemma send_file_sends:
  assumes "hc_method hc = METHOD_GET" "if_modified_since hc = -1"
    "mmc_map ((map_answers v)\<lparr>stat_result := Some (st_data sb), map_now := tv_sec (time_of_day v)\<rparr>) (w_mmc w) = Some (Some a, m)"
  shows "\<exists>hc'. send_file v hc sb w = Started 0 hc' sb (w\<lparr>w_mmc := m\<rparr>) \<and> expnfilename hc' = expnfilename hc \<and>
    file_address hc' = Some a"
proof -
  let ?f = "fill_last_byte hc (st_size (st_data sb))"
  obtain c b where h: "figure_mime (mime_tabs v) ?f = Some (?f\<lparr>content_type := c, encodings := b\<rparr>)"
    using figure_mime_total by blast
  have f: "hc_method ?f = METHOD_GET" "if_modified_since ?f = -1" "expnfilename ?f = expnfilename hc"
    using assms(1,2) by (auto simp: fill_last_byte_def)
  have "METHOD_GET \<noteq> METHOD_HEAD" by (simp add: METHOD_GET_def METHOD_HEAD_def)
  with h f assms respondedD(1,2) [OF responded_mime] show ?thesis by (simp add: send_file_def)
qed

definition direct_refused :: "http_server \<Rightarrow> string \<Rightarrow> bool" where
  \<comment> \<open>the parser answers a request for the file \<open>i\<close> itself with a 403\<close>
  "direct_refused srv i \<longleftrightarrow> (\<forall>hc. str (origfilename hc) = i \<and> \<not> tildemapped hc \<longrightarrow> (\<exists>u hc'. resolve srv hc = Refused 403 u hc'))"

lemma outside_refused:
  assumes "expand_symlinks (path_exists srv) (read_link srv) i (no_symlink_check srv) False = Expanded p []" "\<not> vhost srv"
    "p \<noteq> []" "hd p = CHR ''/''" "\<not> strneq p (cwd srv) (length (cwd srv))"
  shows "direct_refused srv i"
  unfolding direct_refused_def
proof (intro allI impI)
  fix hc :: http_conn assume h: "str (origfilename hc) = i \<and> \<not> tildemapped hc"
  obtain b where "strcpy (httpd_realloc_str (length i) (expnfilename hc)) i = Some b" "str b = i"
    using strcpy_realloc [of i "length i" "expnfilename hc"] by auto
  note b = this
  obtain b1 where b1: "strcpy (httpd_realloc_str (length p) b) p = Some b1" "str b1 = p"
    using strcpy_realloc [of p "length p" b] by auto
  obtain b2 where b2: "strcpy (httpd_realloc_str 0 (pathinfo hc)) [] = Some b2"
    using strcpy_realloc [of "[]" 0 "pathinfo hc"] by auto
  have "\<exists>hc3. follow_links srv (hc\<lparr>expnfilename := b\<rparr>) = Done hc3 \<and> str (expnfilename hc3) = p"
    using h assms(1) b b1 b2 by (simp add: follow_links_def)
  moreover have "expnfilename (strip_pathinfo hc3) = expnfilename hc3" for hc3 by (simp add: strip_pathinfo_def Let_def)
  ultimately show "\<exists>u hc'. resolve srv hc = Refused 403 u hc'"
    using h b assms(2-5) by (auto simp: resolve_def elide_cwd_def Let_def)
qed

text \<open>C25: an index file is not confined to the web tree. When the index file of a directory resolves, through a link, to
  an absolute path outside the server's directory, a GET request for that index file by its own name is refused with a 403 by the
  parser; but a GET request for the directory is answered with the file outside: its path becomes the one of the connection, and it is
  mapped to be sent. The file must be readable for all and not executable, no password file and in no directory with one, and
  there must be no global password file and no referrer pattern.\<close>

theorem index_not_confined:
  assumes "file_stat v (str (expnfilename hc)) = Some sb" "has_bits (st_mode sb) (or S_IROTH S_IXOTH)" "is_dir (st_mode sb)"
    "str (pathinfo hc) = []" "last (str (origfilename hc)) = CHR ''/''" "\<not> tildemapped hc"
    and index: "find_index (file_stat v) (str (expnfilename hc)) index_names = Some (i, sb1)"
    "expand_symlinks (path_exists (http v)) (read_link (http v)) i (no_symlink_check (http v)) False = Expanded p []"
    and outside: "\<not> vhost (http v)" "p \<noteq> []" "hd p = CHR ''/''" "\<not> strneq p (cwd (http v)) (length (cwd (http v)))"
    and allowed: "has_bits (st_mode sb1) S_IROTH" "\<not> has_bits (st_mode sb1) S_IXOTH" "\<not> is_auth_file p"
    "\<not> global_passwd (auth v)" "auth_mtime (auth v) (dir_of p @ ''/'' @ AUTH_FILE) = None" "url_pattern v = None"
    and get: "hc_method hc = METHOD_GET" "if_modified_since hc = -1"
    "mmc_map ((map_answers v)\<lparr>stat_result := Some (st_data sb1), map_now := tv_sec (time_of_day v)\<rparr>) (w_mmc w) = Some (Some a, m)"
  shows "direct_refused (http v) i \<and>
    (\<exists>hc'. httpd_start_request v hc sb0 w = Started 0 hc' sb1 (w\<lparr>w_mmc := m\<rparr>) \<and> str (expnfilename hc') = p \<and>
       file_address hc' = Some a)"
proof
  show "direct_refused (http v) i" by (rule outside_refused [OF index(2) outside])
  obtain b where b: "strcpy (httpd_realloc_str (length p) (expnfilename hc)) p = Some b" "str b = p"
    using strcpy_realloc [of p "length p" "expnfilename hc"] by auto
  let ?hc = "hc\<lparr>expnfilename := b\<rparr>"
  have m: "has_bits (st_mode sb1) (or S_IROTH S_IXOTH)"
    using allowed(1) by (auto simp: has_bits_def bit.conj_disj_distrib or_eq_0_iff)
  have "httpd_start_request v hc sb0 w = start_index v i hc sb1 w"
    using assms(1-5) index(1) by (simp add: httpd_start_request_def really_start_request_def)
  also have "\<dots> = start_file v ?hc sb1 w"
    using index(2) assms(6) b(1) m by (simp add: start_index_def)
  also have "\<dots> = send_file v ?hc sb1 w"
    using allowed b(2) assms(4)
    by (simp add: start_file_def with_auth_def auth_check_def auth_check2_def authorized_file_def with_referrer_def
        check_referrer_def run_or_send_def split: option.split)
  finally show "\<exists>hc'. httpd_start_request v hc sb0 w = Started 0 hc' sb1 (w\<lparr>w_mmc := m\<rparr>) \<and> str (expnfilename hc') = p \<and>
       file_address hc' = Some a"
    using send_file_sends [of ?hc v sb1 w a m] get b(2) by auto
qed

definition linked_web :: web where
  "linked_web = plain_web\<lparr>http := plain_server\<lparr>read_link := (\<lambda>q. if q = ''pub/index.html'' then Link ''/etc/passwd'' else Not_a_link),
     path_exists := (\<lambda>q. True)\<rparr>, auth := one_user\<lparr>global_passwd := False\<rparr>\<rparr>"

theorem index_not_confined_witness:
  "direct_refused (http linked_web) ''pub/index.html'' \<and>
   (\<exists>hc' sb' w'. httpd_start_request linked_web ((get_conn_for ''pub/'')\<lparr>expnfilename := \<lparr>str = ''pub'', maxsize = 200\<rparr>\<rparr>) old_stat new_world =
     Started 0 hc' sb' w' \<and> str (expnfilename hc') = ''/etc/passwd'' \<and> file_address hc' = Some 4096)"
proof -
  let ?hc = "(get_conn_for ''pub/'')\<lparr>expnfilename := \<lparr>str = ''pub'', maxsize = 200\<rparr>\<rparr>"
  let ?sb = "\<lparr>st_data = \<lparr>st_ino = 7, st_dev = 2, st_size = 100, st_ctime = 9\<rparr>, st_mode = 0x81A4, st_mtime = 5\<rparr>"
  have x: "expand_symlinks (path_exists (http linked_web)) (read_link (http linked_web)) ''pub/index.html''
      (no_symlink_check (http linked_web)) False = Expanded ''/etc/passwd'' []" by code_simp
  have i: "find_index (file_stat linked_web) ''pub'' index_names = Some (''pub/index.html'', ?sb)"
    by (simp add: linked_web_def plain_web_def index_names_def index_path_def)
  have m: "has_bits 0x81A4 S_IROTH" "\<not> has_bits 0x81A4 S_IXOTH" "has_bits 0x41ED (or S_IROTH S_IXOTH)" "is_dir 0x41ED"
    "\<not> is_auth_file ''/etc/passwd''" "\<not> strneq ''/etc/passwd'' (cwd (http linked_web)) (length (cwd (http linked_web)))"
    "dir_of ''/etc/passwd'' = ''/etc''" by code_simp+
  have f: "file_stat linked_web ''pub'' = Some (?sb\<lparr>st_mode := 0x41ED\<rparr>)"
    by (simp add: linked_web_def plain_web_def)
  have v: "\<not> vhost (http linked_web)" "\<not> global_passwd (auth linked_web)" "url_pattern linked_web = None"
    "auth_mtime (auth linked_web) ''/etc/.htpasswd'' = None" "hc_method ?hc = METHOD_GET" "map_answers linked_web = five_bytes"
    "tv_sec (time_of_day linked_web) = 1700000000" "w_mmc new_world = mmc_start"
    by (simp_all add: linked_web_def plain_web_def plain_server_def one_user_def get_conn_for_def new_world_def)
  obtain k where k: "mmc_map (five_bytes\<lparr>stat_result := Some (st_data ?sb), map_now := 1700000000\<rparr>) mmc_start = Some (Some 4096, k)"
    using plain_map by auto
  have "direct_refused (http linked_web) ''pub/index.html'' \<and>
    (\<exists>hc'. httpd_start_request linked_web ?hc old_stat new_world = Started 0 hc' ?sb (new_world\<lparr>w_mmc := k\<rparr>) \<and>
       str (expnfilename hc') = ''/etc/passwd'' \<and> file_address hc' = Some 4096)"
    by (rule index_not_confined [where p = "''/etc/passwd''" and sb = "?sb\<lparr>st_mode := 0x41ED\<rparr>"])
      (simp_all add: f m i x v k [simplified] plain_fields AUTH_FILE_def)
  then show ?thesis by blast
qed

definition world_after :: "web \<Rightarrow> http_conn \<Rightarrow> file_stat \<Rightarrow> world \<Rightarrow> world" where
  "world_after v hc sb w = (case cgi v hc sb w of Started r hc' sb' w' \<Rightarrow> w' | _ \<Rightarrow> w)"

lemma failed_fork:
  "fork_pid v < 0 \<Longrightarrow> cgi_count w < cgi_limit v \<Longrightarrow> world_after v hc sb w = w\<lparr>cgi_count := cgi_count w + 1\<rparr>"
  by (simp add: world_after_def cgi_def spawn_def error_500_def refuse_def Let_def)

text \<open>A program that cannot be forked uses up a place all the same. After as many failures of \<open>fork\<close> as there are places
  left, every further program is refused with status 503, also when \<open>fork\<close> would work again: the count is given back only
  for a child that ends.\<close>

theorem cgi_places_lost:
  assumes "fork_pid v < 0" "cgi_count w \<le> cgi_limit v" "0 < cgi_limit v"
  shows "cgi (v\<lparr>fork_pid := pid\<rparr>) hc1 sb1 ((world_after v hc sb ^^ nat (cgi_limit v - cgi_count w)) w) =
    refuse v hc1 sb1 (w\<lparr>cgi_count := cgi_limit v\<rparr>) 503 err503title err503form (encodedurl hc1)"
proof -
  have "int k \<le> cgi_limit v - cgi_count w \<Longrightarrow> (world_after v hc sb ^^ k) w = w\<lparr>cgi_count := cgi_count w + int k\<rparr>" for k
    by (induction k) (simp_all add: failed_fork assms(1))
  then show ?thesis using assms(2,3) by (simp add: cgi_def spawn_def refuse_def)
qed

theorem cgi_places_lost_witness:
  "cgi (plain_web\<lparr>fork_pid := 5\<rparr>) (get_conn_for ''a.cgi'') old_stat
       ((world_after plain_web (get_conn_for ''b.cgi'') old_stat ^^ 50) new_world) =
     refuse plain_web (get_conn_for ''a.cgi'') old_stat (new_world\<lparr>cgi_count := 50\<rparr>) 503 err503title err503form
       (encodedurl (get_conn_for ''a.cgi''))"
  using cgi_places_lost [of plain_web new_world 5 "get_conn_for ''a.cgi''" old_stat "get_conn_for ''b.cgi''" old_stat] by (simp add: plain_web_def new_world_def)

end
