(* ===== verification/Th_Throttle.thy ===== *)
theory Th_Throttle
  imports Th_Served
begin

text \<open>
  Throttles, \<open>src/others/thttpd-2.29/thttpd.c\<close>: the file with patterns and byte rates, the table with an average rate and a
  count of connections per pattern, the admission of a connection, and the two loops that update averages and shares.
\<close>

section \<open>The table\<close>

definition THROTTLE_NOLIMIT :: int where "THROTTLE_NOLIMIT = -1"
definition THROTTLE_TIME :: int where "THROTTLE_TIME = 2"
definition MAXTHROTTLENUMS :: nat where "MAXTHROTTLENUMS = 10"

record throttle =
  pattern :: string
  limit_max :: int  \<comment> \<open>\<open>max_limit\<close>\<close>
  limit_min :: int  \<comment> \<open>\<open>min_limit\<close>\<close>
  rate :: int
  bytes_since_avg :: int
  num_sending :: int

section \<open>The throttle file\<close>

definition scan_long :: "string \<Rightarrow> (int \<times> string) option" where
  \<comment> \<open>\<open>%ld\<close>\<close>
  "scan_long s =
     (let t = dropWhile isspace s;
          u = (case t of [] \<Rightarrow> [] | c # r \<Rightarrow> if c = CHR ''-'' \<or> c = CHR ''+'' then r else t)
      in if u = [] \<or> \<not> isdigit (hd u) then None
         else Some (max (- (2 ^ 63)) (min (2 ^ 63 - 1) (strtol_raw 10 t)), dropWhile isdigit u))"

definition nonblank :: "char \<Rightarrow> bool" where
  "nonblank c \<longleftrightarrow> c \<noteq> CHR '' '' \<and> c \<noteq> CHR 0x09"

definition nuke_comment :: "string \<Rightarrow> string" where
  "nuke_comment buf = takeWhile (\<lambda>c. c \<noteq> CHR ''#'') (cstr buf)"

definition nuke_trailing :: "string \<Rightarrow> string" where
  "nuke_trailing s = rev (dropWhile (\<lambda>c. c = CHR '' '' \<or> c = CHR 0x09 \<or> c = LF \<or> c = CR) (rev s))"

function nuke_slashes :: "string \<Rightarrow> string" where
  "nuke_slashes p =
     (case find_sub ''|/'' p of None \<Rightarrow> p | Some k \<Rightarrow> nuke_slashes (take (k + 1) p @ drop (k + 2) p))"
  by pat_completeness auto
termination
  by (relation "measure length") (auto dest!: find_sub_length)

declare nuke_slashes.simps [simp del]

definition scan_throttle :: "string \<Rightarrow> (string \<times> int \<times> int) option" where
  \<comment> \<open>the two \<open>sscanf\<close> calls: pattern, minimum and maximum\<close>
  "scan_throttle buf =
     (let s = dropWhile isspace buf; p = takeWhile nonblank (take 4900 s)
      in if p = [] then None
         else (case scan_long (drop (length p) s) of
                 None \<Rightarrow> None
               | Some (a, r) \<Rightarrow>
                   (case r of
                      [] \<Rightarrow> Some (p, 0, a)
                    | c # r1 \<Rightarrow>
                        if c = CHR ''-''
                        then (case scan_long r1 of None \<Rightarrow> Some (p, 0, a) | Some (b, r2) \<Rightarrow> Some (p, a, b))
                        else Some (p, 0, a))))"

definition throttle_line :: "string \<Rightarrow> throttle option" where
  \<comment> \<open>one line of the file; \<open>None\<close>: nothing is added\<close>
  "throttle_line buf =
     (let s = nuke_trailing (nuke_comment buf)
      in if s = [] then None
         else (case scan_throttle s of
                 None \<Rightarrow> None
               | Some (p, mn, mx) \<Rightarrow>
                   (let p1 = (if hd p = CHR ''/'' then tl p else p)
                    in Some \<lparr>pattern = nuke_slashes p1, limit_max = mx, limit_min = mn, rate = 0,
                             bytes_since_avg = 0, num_sending = 0\<rparr>)))"

function read_throttles :: "(nat \<Rightarrow> bool) \<Rightarrow> string \<Rightarrow> nat \<Rightarrow> throttle list \<Rightarrow> throttle list option" where
  \<comment> \<open>the loop over the lines, with \<open>maxthrottles\<close> and the table; the Boolean function is \<open>malloc\<close> of a table of this size,
      and \<open>None\<close> is \<open>exit(1)\<close>\<close>
  "read_throttles room file mx tab =
     (if file = [] then Some tab
      else (case fgets 5000 file of
              (buf, r) \<Rightarrow>
                (case throttle_line buf of
                   None \<Rightarrow> read_throttles room r mx tab
                 | Some t \<Rightarrow>
                     if mx \<le> length tab
                     then (let mx1 = (if mx = 0 then 100 else mx * 2)
                           in if room mx1 then read_throttles room r mx1 (tab @ [t]) else None)
                     else read_throttles room r mx (tab @ [t]))))"
  by pat_completeness auto
termination
  by (relation "measure (\<lambda>(room, file, mx, tab). length file)") (auto dest!: fgets_shorter [OF _ _ sym, rotated])

declare read_throttles.simps [simp del]

definition read_throttlefile :: "(nat \<Rightarrow> bool) \<Rightarrow> string option \<Rightarrow> throttle list option" where
  \<comment> \<open>the contents of the file, if it can be opened\<close>
  "read_throttlefile room file = (case file of None \<Rightarrow> None | Some s \<Rightarrow> read_throttles room s 0 [])"

section \<open>Admission\<close>

definition joined_max :: "int \<Rightarrow> int \<Rightarrow> int" where
  "joined_max m l = (if m = THROTTLE_NOLIMIT then l else min m l)"

definition joined_min :: "int \<Rightarrow> int \<Rightarrow> int" where
  "joined_min m l = (if m = THROTTLE_NOLIMIT then l else max m l)"

fun check_loop :: "string \<Rightarrow> nat list \<Rightarrow> throttle list \<times> nat list \<times> int \<times> int \<Rightarrow> bool \<times> (throttle list \<times> nat list \<times> int \<times> int)" where
  \<comment> \<open>the loop over the table; the state is the table and the connection's \<open>tnums\<close>, \<open>max_limit\<close> and \<open>min_limit\<close>\<close>
  "check_loop f [] st = (True, st)"
| "check_loop f (t # ts) (tab, nums, mx, mn) =
     (if MAXTHROTTLENUMS \<le> length nums then (True, (tab, nums, mx, mn))
      else if \<not> match (pattern (tab ! t)) f then check_loop f ts (tab, nums, mx, mn)
      else if limit_max (tab ! t) * 2 < rate (tab ! t) then (False, (tab, nums, mx, mn))
      else if rate (tab ! t) < limit_min (tab ! t) then (False, (tab, nums, mx, mn))
      else (let n = (if num_sending (tab ! t) < 0 then 0 else num_sending (tab ! t)) + 1
            in check_loop f ts (tab[t := (tab ! t)\<lparr>num_sending := n\<rparr>], nums @ [t],
                 joined_max mx (limit_max (tab ! t) sdiv n), joined_min mn (limit_min (tab ! t)))))"

definition check_throttles :: "string \<Rightarrow> throttle list \<Rightarrow> bool \<times> (throttle list \<times> nat list \<times> int \<times> int)" where
  \<comment> \<open>for the file name of the connection\<close>
  "check_throttles f tab = check_loop f [0 ..< length tab] (tab, [], THROTTLE_NOLIMIT, THROTTLE_NOLIMIT)"

definition clear_throttles :: "nat list \<Rightarrow> throttle list \<Rightarrow> throttle list" where
  "clear_throttles nums tab =
     fold (\<lambda>t tab. tab[t := (tab ! t)\<lparr>num_sending := num_sending (tab ! t) - 1\<rparr>]) nums tab"

definition add_bytes :: "nat list \<Rightarrow> int \<Rightarrow> throttle list \<Rightarrow> throttle list" where
  \<comment> \<open>the loop of \<open>handle_read\<close> and \<open>handle_send\<close>\<close>
  "add_bytes nums n tab =
     fold (\<lambda>t tab. tab[t := (tab ! t)\<lparr>bytes_since_avg := bytes_since_avg (tab ! t) + n\<rparr>]) nums tab"

section \<open>Averages and shares\<close>

definition new_average :: "throttle \<Rightarrow> throttle" where
  "new_average x = x\<lparr>rate := (2 * rate x + bytes_since_avg x sdiv THROTTLE_TIME) sdiv 3, bytes_since_avg := 0\<rparr>"

fun share :: "throttle list \<Rightarrow> nat list \<Rightarrow> int \<Rightarrow> int option" where
  \<comment> \<open>the new \<open>max_limit\<close> of a connection; \<open>None\<close>: a division by zero\<close>
  "share tab [] m = Some m"
| "share tab (t # ts) m =
     (if num_sending (tab ! t) = 0 then None
      else share tab ts (joined_max m (limit_max (tab ! t) sdiv num_sending (tab ! t))))"

section \<open>Minimum rates\<close>

definition shut :: "throttle \<Rightarrow> bool" where
  "shut x \<longleftrightarrow> 0 < limit_min x \<and> rate x = 0 \<and> bytes_since_avg x = 0"

inductive throttled :: "throttle list \<Rightarrow> throttle list \<Rightarrow> nat list list \<Rightarrow> bool" for tab0 where
  \<comment> \<open>what requests, transfers and the update of the averages make of a table, in any order; the last argument: the \<open>tnums\<close> of the
      connections\<close>
  read: "throttled tab0 tab0 []"
| ask: "throttled tab0 tab as \<Longrightarrow> check_throttles f tab = (ok, tab', ns, mx, mn) \<Longrightarrow> throttled tab0 tab' (ns # as)"
| sent: "throttled tab0 tab as \<Longrightarrow> ns \<in> set as \<Longrightarrow> throttled tab0 (add_bytes ns k tab) as"
| left: "throttled tab0 tab (as @ ns # bs) \<Longrightarrow> throttled tab0 (clear_throttles ns tab) (as @ bs)"
| tick: "throttled tab0 tab as \<Longrightarrow> throttled tab0 (map new_average tab) as"

lemma check_loop_shut:
  assumes "check_loop f ts (tab, nums, mx, mn) = (ok, tab', nums', mx', mn')" "shut (tab ! i)" "i \<notin> set nums"
  shows "length tab' = length tab \<and> tab' ! i = tab ! i \<and> i \<notin> set nums'"
  using assms
proof (induction ts arbitrary: tab nums mx mn)
  case (Cons t ts)
  let ?x = "tab ! t"
  show ?case
  proof (cases "MAXTHROTTLENUMS \<le> length nums \<or> (match (pattern ?x) f \<and> (limit_max ?x * 2 < rate ?x \<or> rate ?x < limit_min ?x))")
    case True
    then show ?thesis using Cons.prems by (auto split: if_splits)
  next
    case go: False
    show ?thesis
    proof (cases "match (pattern ?x) f")
      case False
      then have "check_loop f ts (tab, nums, mx, mn) = (ok, tab', nums', mx', mn')" using Cons.prems(1) go by (auto split: if_splits)
      from Cons.IH [OF this Cons.prems(2,3)] show ?thesis .
    next
      case True
      then have ne: "t \<noteq> i" using go Cons.prems(2) by (auto simp: shut_def)
      let ?n = "(if num_sending ?x < 0 then 0 else num_sending ?x) + 1"
      let ?tab = "tab[t := ?x\<lparr>num_sending := ?n\<rparr>]"
      have "check_loop f ts (?tab, nums @ [t], joined_max mx (limit_max ?x sdiv ?n), joined_min mn (limit_min ?x)) = (ok, tab', nums', mx', mn')"
        using Cons.prems(1) True go by (simp add: Let_def)
      from Cons.IH [OF this] Cons.prems(2,3) ne show ?thesis by simp
    qed
  qed
qed simp

lemma check_loop_refuses:
  assumes "length nums \<le> k" "k \<le> i" "i < n" "i < MAXTHROTTLENUMS" "shut (tab ! i)" "match (pattern (tab ! i)) f"
  shows "\<not> fst (check_loop f [k..<n] (tab, nums, mx, mn))"
  using assms
proof (induction "n - k" arbitrary: k tab nums mx mn)
  case (Suc m)
  let ?x = "tab ! k"
  have k: "[k..<n] = k # [Suc k..<n]" "\<not> MAXTHROTTLENUMS \<le> length nums" using Suc.prems by (simp_all add: upt_rec)
  show ?case
  proof (cases "k = i")
    case True
    then show ?thesis using Suc.prems k by (auto simp: shut_def)
  next
    case False
    let ?n = "(if num_sending ?x < 0 then 0 else num_sending ?x) + 1"
    have "\<not> fst (check_loop f [Suc k..<n] (tab, nums, mx, mn))" using False Suc by simp
    moreover have "\<not> fst (check_loop f [Suc k..<n] (tab[k := ?x\<lparr>num_sending := ?n\<rparr>], nums @ [k], mx', mn'))" for mx' mn'
      using False Suc by simp
    ultimately show ?thesis unfolding k(1) using k(2) by (simp add: Let_def)
  qed
qed simp

definition same_limits :: "throttle \<Rightarrow> throttle \<Rightarrow> bool" where
  "same_limits x y \<longleftrightarrow> pattern x = pattern y \<and> limit_min x = limit_min y"

lemma add_bytes_other: "i \<notin> set ns \<Longrightarrow> add_bytes ns k tab ! i = tab ! i" "length (add_bytes ns k tab) = length tab"
proof -
  show "length (add_bytes ns k tab) = length tab"
    by (induction ns arbitrary: tab) (simp_all add: add_bytes_def)
  show "i \<notin> set ns \<Longrightarrow> add_bytes ns k tab ! i = tab ! i"
    by (induction ns arbitrary: tab) (simp_all add: add_bytes_def)
qed

lemma clear_throttles_other: "i \<notin> set ns \<Longrightarrow> clear_throttles ns tab ! i = tab ! i" "length (clear_throttles ns tab) = length tab"
proof -
  show "length (clear_throttles ns tab) = length tab"
    by (induction ns arbitrary: tab) (simp_all add: clear_throttles_def)
  show "i \<notin> set ns \<Longrightarrow> clear_throttles ns tab ! i = tab ! i"
    by (induction ns arbitrary: tab) (simp_all add: clear_throttles_def)
qed

lemma average_shut: "shut x \<Longrightarrow> shut (new_average x)" "same_limits (new_average x) y = same_limits x y"
  by (simp_all add: shut_def new_average_def same_limits_def)

lemma throttled_shut:
  assumes "throttled tab0 tab as" "i < length tab0" "shut (tab0 ! i)"
  shows "length tab = length tab0 \<and> shut (tab ! i) \<and> same_limits (tab ! i) (tab0 ! i) \<and> (\<forall>ns\<in>set as. i \<notin> set ns)"
  using assms
proof (induction rule: throttled.induct)
  case (ask tab "as" f ok tab' ns mx mn)
  then show ?case using check_loop_shut [OF ask(2) [unfolded check_throttles_def], of i] by simp
next
  case (tick tab "as")
  then show ?case by (simp add: average_shut)
qed (auto simp: same_limits_def add_bytes_other clear_throttles_other)

lemma read_throttles_zero:
  assumes "read_throttles room fl mx tab = Some tab'" "\<forall>x\<in>set tab. rate x = 0 \<and> bytes_since_avg x = 0"
  shows "\<forall>x\<in>set tab'. rate x = 0 \<and> bytes_since_avg x = 0"
  using assms
proof (induction room fl mx tab rule: read_throttles.induct)
  case (1 room fl mx tab)
  show ?case
  proof (cases "fl = []")
    case False
    obtain buf r where f: "fgets 5000 fl = (buf, r)" by fastforce
    have z: "rate t = 0 \<and> bytes_since_avg t = 0" if "throttle_line buf = Some t" for t
      using that by (auto simp: throttle_line_def Let_def split: if_splits option.splits)
    note c = f [symmetric]
    show ?thesis
    proof (cases "throttle_line buf")
      case None
      then show ?thesis using 1(1) [OF False c] 1(4,5) False f by (simp add: read_throttles.simps [of room fl])
    next
      case (Some t)
      have z1: "\<forall>x\<in>set (tab @ [t]). rate x = 0 \<and> bytes_since_avg x = 0" using 1(5) z [OF Some] by auto
      show ?thesis
      proof (cases "mx \<le> length tab")
        case True
        let ?mx = "if mx = 0 then 100 else mx * 2"
        have "room ?mx \<and> read_throttles room r ?mx (tab @ [t]) = Some tab'"
          using 1(4) False f Some True by (simp add: read_throttles.simps [of room fl] Let_def split: if_splits)
        then show ?thesis using 1(2) [OF False c Some True refl] z1 by blast
      next
        case no: False
        have "read_throttles room r mx (tab @ [t]) = Some tab'"
          using 1(4) False f Some no by (simp add: read_throttles.simps [of room fl] Let_def)
        then show ?thesis using 1(3) [OF False c Some no] z1 by blast
      qed
    qed
  qed (use 1(4,5) in \<open>simp add: read_throttles.simps [of room "[]"]\<close>)
qed

text \<open>A throttle with a minimum rate shuts its pattern out. Whatever is asked for and sent, a request for a file that
  matches one of the first ten lines of the throttle file is refused if that line has a minimum: the rate of a new throttle is
  zero, which is below the minimum, and so it stays.\<close>

theorem minimum_shuts_out:
  assumes "read_throttlefile room file = Some tab0" "throttled tab0 tab as" "i < length tab0" "i < MAXTHROTTLENUMS"
    "0 < limit_min (tab0 ! i)" "match (pattern (tab0 ! i)) f"
  shows "\<not> fst (check_throttles f tab)"
proof -
  obtain s where "read_throttles room s 0 [] = Some tab0" using assms(1) by (auto simp: read_throttlefile_def split: option.splits)
  from read_throttles_zero [OF this] have "shut (tab0 ! i)" using assms(3,5) by (simp add: shut_def)
  from throttled_shut [OF assms(2,3) this] show ?thesis
    unfolding check_throttles_def using assms(3,4,6) by (intro check_loop_refuses) (auto simp: same_limits_def)
qed

lemma line_scanned: "throttle_line ''** 20-50'' =
    Some \<lparr>pattern = ''**'', limit_max = 50, limit_min = 20, rate = 0, bytes_since_avg = 0, num_sending = 0\<rparr>"
proof -
  have "scan_long '' 20-50'' = Some (20, ''-50'')" "scan_long ''50'' = Some (50, [])" by code_simp+
  moreover have "\<not> isspace CHR ''*''" by code_simp
  ultimately have "scan_throttle ''** 20-50'' = Some (''**'', 20, 50)" by (simp add: scan_throttle_def nonblank_def Let_def)
  moreover have "nuke_trailing (nuke_comment ''** 20-50'') = ''** 20-50''" "nuke_slashes ''**'' = ''**''" by code_simp+
  ultimately show ?thesis by (simp add: throttle_line_def Let_def)
qed

theorem minimum_shuts_out_witness:
  "\<exists>tab. read_throttlefile (\<lambda>n. True) (Some ''** 20-50'') = Some tab \<and> throttled tab tab [] \<and> \<not> fst (check_throttles ''a.html'' tab)"
proof -
  let ?x = "\<lparr>pattern = ''**'', limit_max = 50, limit_min = 20, rate = 0, bytes_since_avg = 0, num_sending = 0\<rparr>"
  have "fgets 5000 ''** 20-50'' = (''** 20-50'', [])" by (simp add: fgets_def Let_def)
  then have r: "read_throttlefile (\<lambda>n. True) (Some ''** 20-50'') = Some [?x]"
    using line_scanned by (simp add: read_throttlefile_def read_throttles.simps)
  have m: "match ''**'' ''a.html''" by code_simp
  have t: "throttled [?x] [?x] []" by (rule throttled.read)
  have "\<not> fst (check_throttles ''a.html'' [?x])"
    by (rule minimum_shuts_out [OF r t, of 0]) (use m in \<open>simp_all add: MAXTHROTTLENUMS_def\<close>)
  then show ?thesis using r t by blast
qed

end
