(* ===== verification/Th_Fdwatch.thy ===== *)
theory Th_Fdwatch
  imports Prelude
begin

text \<open>
  The descriptor watch of \<open>src/others/thttpd-2.29/fdwatch.c\<close> in the build with \<open>poll\<close>: the arrays by descriptor, the
  packed array of \<open>struct pollfd\<close> with its index, and the cursor over the ready descriptors. An access outside an array
  is \<open>None\<close>. The answers of \<open>poll\<close> and of the resource limits are parameters.
\<close>

section \<open>State\<close>

definition FDW_READ :: int where "FDW_READ = 0"
definition FDW_WRITE :: int where "FDW_WRITE = 1"

definition POLLIN :: "16 word" where "POLLIN = 0x1"
definition POLLOUT :: "16 word" where "POLLOUT = 0x4"
definition POLLERR :: "16 word" where "POLLERR = 0x8"
definition POLLHUP :: "16 word" where "POLLHUP = 0x10"
definition POLLNVAL :: "16 word" where "POLLNVAL = 0x20"

record pollfd =
  pf_fd :: int
  pf_events :: "16 word"
  revents :: "16 word"

record 'd fdwatch =
  nfiles :: int
  nwatches :: int
  fd_rw :: "int list"
  fd_data :: "'d option list"  \<comment> \<open>\<open>None\<close>: the null pointer\<close>
  nreturned :: int
  next_ridx :: int
  pollfds :: "pollfd list"
  npoll_fds :: int
  poll_fdidx :: "int list"
  poll_rfdidx :: "int list"

definition get_at :: "'a list \<Rightarrow> int \<Rightarrow> 'a option" where
  "get_at xs i = (if 0 \<le> i \<and> i < int (length xs) then Some (xs ! nat i) else None)"

definition put_at :: "'a list \<Rightarrow> int \<Rightarrow> 'a \<Rightarrow> 'a list option" where
  "put_at xs i x = (if 0 \<le> i \<and> i < int (length xs) then Some (xs[nat i := x]) else None)"

section \<open>The number of descriptors\<close>

definition RLIM_INFINITY :: int where "RLIM_INFINITY = 2 ^ 64 - 1"

definition fd_limit :: "int \<Rightarrow> (int \<times> int) option \<Rightarrow> bool \<Rightarrow> int" where
  \<comment> \<open>\<open>getdtablesize\<close>, \<open>getrlimit\<close> (current and maximum) and whether \<open>setrlimit\<close> succeeds\<close>
  "fd_limit n rl set_ok =
     (case rl of
        None \<Rightarrow> n
      | Some (cur, mx) \<Rightarrow>
          (let cur1 = (if mx = RLIM_INFINITY then 8192 else if cur < mx then mx else cur)
           in if set_ok then cur1 else cur))"

definition poll_init :: "int \<Rightarrow> 'd fdwatch \<Rightarrow> 'd fdwatch" where
  \<comment> \<open>the memory that \<open>malloc\<close> returns holds \<open>-1\<close>, zeros and null pointers where the code does not fill it\<close>
  "poll_init nf w = w\<lparr>pollfds := replicate (nat nf) \<lparr>pf_fd = -1, pf_events = 0, revents = 0\<rparr>,
     poll_fdidx := replicate (nat nf) (-1), poll_rfdidx := replicate (nat nf) 0, npoll_fds := 0\<rparr>"

definition fdwatch_get_nfiles :: "int \<Rightarrow> (int \<times> int) option \<Rightarrow> bool \<Rightarrow> bool \<Rightarrow> 'd fdwatch \<Rightarrow> int \<times> 'd fdwatch" where
  \<comment> \<open>the last Boolean: \<open>malloc\<close> succeeds\<close>
  "fdwatch_get_nfiles n rl set_ok room w =
     (let nf = fd_limit n rl set_ok; w = w\<lparr>nfiles := nf, nwatches := 0\<rparr>
      in if \<not> room then (-1, w)
         else (nf, poll_init nf (w\<lparr>fd_rw := replicate (nat nf) (-1), fd_data := replicate (nat nf) None\<rparr>)))"

section \<open>Adding and removing\<close>

definition poll_events :: "int \<Rightarrow> 16 word \<Rightarrow> 16 word" where
  "poll_events rw old = (if rw = FDW_READ then POLLIN else if rw = FDW_WRITE then POLLOUT else old)"

definition poll_add_fd :: "int \<Rightarrow> int \<Rightarrow> 'd fdwatch \<Rightarrow> 'd fdwatch option" where
  "poll_add_fd fd rw w =
     (if nfiles w \<le> npoll_fds w then Some w
      else do {
        p \<leftarrow> get_at (pollfds w) (npoll_fds w);
        ps \<leftarrow> put_at (pollfds w) (npoll_fds w) (p\<lparr>pf_fd := fd, pf_events := poll_events rw (pf_events p)\<rparr>);
        ix \<leftarrow> put_at (poll_fdidx w) fd (npoll_fds w);
        Some (w\<lparr>pollfds := ps, poll_fdidx := ix, npoll_fds := npoll_fds w + 1\<rparr>)
      })"

definition watching :: "int \<Rightarrow> 'd fdwatch \<Rightarrow> bool" where
  \<comment> \<open>the test in front of the operations\<close>
  "watching fd w \<longleftrightarrow> \<not> (fd < 0 \<or> nfiles w \<le> fd \<or> get_at (fd_rw w) fd = Some (-1))"

definition fdwatch_add_fd :: "int \<Rightarrow> 'd option \<Rightarrow> int \<Rightarrow> 'd fdwatch \<Rightarrow> 'd fdwatch option" where
  "fdwatch_add_fd fd d rw w =
     (if fd < 0 \<or> nfiles w \<le> fd \<or> get_at (fd_rw w) fd \<noteq> Some (-1) then Some w
      else do {
        w \<leftarrow> poll_add_fd fd rw w;
        r \<leftarrow> put_at (fd_rw w) fd rw;
        ds \<leftarrow> put_at (fd_data w) fd d;
        Some (w\<lparr>fd_rw := r, fd_data := ds\<rparr>)
      })"

definition poll_del_fd :: "int \<Rightarrow> 'd fdwatch \<Rightarrow> 'd fdwatch option" where
  "poll_del_fd fd w =
     do {
       idx \<leftarrow> get_at (poll_fdidx w) fd;
       if idx < 0 \<or> nfiles w \<le> idx then Some w
       else do {
         let n = npoll_fds w - 1;
         p \<leftarrow> get_at (pollfds w) n;
         ps \<leftarrow> put_at (pollfds w) idx p;
         ix \<leftarrow> put_at (poll_fdidx w) (pf_fd p) idx;
         q \<leftarrow> get_at ps n;
         ps \<leftarrow> put_at ps n (q\<lparr>pf_fd := -1\<rparr>);
         ix \<leftarrow> put_at ix fd (-1);
         Some (w\<lparr>npoll_fds := n, pollfds := ps, poll_fdidx := ix\<rparr>)
       }
     }"

definition fdwatch_del_fd :: "int \<Rightarrow> 'd fdwatch \<Rightarrow> 'd fdwatch option" where
  "fdwatch_del_fd fd w =
     (if \<not> watching fd w then Some w
      else do {
        w \<leftarrow> poll_del_fd fd w;
        r \<leftarrow> put_at (fd_rw w) fd (-1);
        ds \<leftarrow> put_at (fd_data w) fd None;
        Some (w\<lparr>fd_rw := r, fd_data := ds\<rparr>)
      })"

section \<open>Watching\<close>

definition has_event :: "16 word \<Rightarrow> bool" where
  "has_event e \<longleftrightarrow> and e (or POLLIN (or POLLOUT (or POLLERR (or POLLHUP POLLNVAL)))) \<noteq> 0"

fun poll_scan :: "int \<Rightarrow> pollfd list \<Rightarrow> int list" where
  \<comment> \<open>the loop over the entries: the descriptors of the next \<open>r\<close> with an event\<close>
  "poll_scan r [] = []"
| "poll_scan r (p # ps) =
     (if has_event (revents p) then pf_fd p # (if r = 1 then [] else poll_scan (r - 1) ps) else poll_scan r ps)"

definition poll_watch :: "int \<Rightarrow> (int \<Rightarrow> 16 word) \<Rightarrow> 'd fdwatch \<Rightarrow> int \<times> 'd fdwatch" where
  \<comment> \<open>the result of \<open>poll\<close>, and the events it reports by descriptor unless it fails\<close>
  "poll_watch r ev w =
     (let n = nat (npoll_fds w);
          ps = (if r < 0 then pollfds w
                else map (\<lambda>p. p\<lparr>revents := ev (pf_fd p)\<rparr>) (take n (pollfds w)) @ drop n (pollfds w));
          w = w\<lparr>pollfds := ps\<rparr>
      in if r \<le> 0 then (r, w)
         else (let fds = poll_scan r (take n ps)
               in (int (length fds), w\<lparr>poll_rfdidx := fds @ drop (length fds) (poll_rfdidx w)\<rparr>)))"

definition fdwatch :: "int \<Rightarrow> (int \<Rightarrow> 16 word) \<Rightarrow> 'd fdwatch \<Rightarrow> int \<times> 'd fdwatch" where
  "fdwatch r ev w =
     (case poll_watch r ev (w\<lparr>nwatches := nwatches w + 1\<rparr>) of
        (n, w1) \<Rightarrow> (n, w1\<lparr>nreturned := n, next_ridx := 0\<rparr>))"

definition poll_check_fd :: "int \<Rightarrow> 'd fdwatch \<Rightarrow> bool option" where
  "poll_check_fd fd w =
     do {
       i \<leftarrow> get_at (poll_fdidx w) fd;
       if i < 0 \<or> nfiles w \<le> i then Some False
       else do {
         p \<leftarrow> get_at (pollfds w) i;
         rw \<leftarrow> get_at (fd_rw w) fd;
         Some (and (revents p) POLLERR = 0 \<and>
           (if rw = FDW_READ then and (revents p) (or POLLIN (or POLLHUP POLLNVAL)) \<noteq> 0
            else if rw = FDW_WRITE then and (revents p) (or POLLOUT (or POLLHUP POLLNVAL)) \<noteq> 0 else False))
       }
     }"

definition fdwatch_check_fd :: "int \<Rightarrow> 'd fdwatch \<Rightarrow> bool option" where
  "fdwatch_check_fd fd w = (if \<not> watching fd w then Some False else poll_check_fd fd w)"

definition poll_get_fd :: "int \<Rightarrow> 'd fdwatch \<Rightarrow> int option" where
  "poll_get_fd ridx w = (if ridx < 0 \<or> nfiles w \<le> ridx then Some (-1) else get_at (poll_rfdidx w) ridx)"

datatype 'd client = No_more | Client "'d option"

definition fdwatch_get_next_client_data :: "'d fdwatch \<Rightarrow> ('d client \<times> 'd fdwatch) option" where
  \<comment> \<open>\<open>No_more\<close> is the pointer \<open>-1\<close>\<close>
  "fdwatch_get_next_client_data w =
     (if nreturned w \<le> next_ridx w then Some (No_more, w)
      else do {
        fd \<leftarrow> poll_get_fd (next_ridx w) w;
        let w = w\<lparr>next_ridx := next_ridx w + 1\<rparr>;
        if fd < 0 \<or> nfiles w \<le> fd then Some (Client None, w)
        else do { d \<leftarrow> get_at (fd_data w) fd; Some (Client d, w) }
      })"

section \<open>Arrays\<close>

lemma get_in: "0 \<le> i \<Longrightarrow> i < int (length xs) \<Longrightarrow> \<exists>x. get_at xs i = Some x"
  by (simp add: get_at_def)

lemma get_bounds: "get_at xs i = Some x \<Longrightarrow> 0 \<le> i \<and> i < int (length xs)"
  by (simp add: get_at_def split: if_splits)

lemma put_in: "0 \<le> i \<Longrightarrow> i < int (length xs) \<Longrightarrow> \<exists>ys. put_at xs i x = Some ys"
  by (simp add: put_at_def)

lemma put_atD:
  assumes "put_at xs i x = Some ys"
  shows "length ys = length xs" "get_at ys j = (if j = i then Some x else get_at xs j)"
  using assms by (auto simp: put_at_def get_at_def nth_list_update split: if_splits)

section \<open>The watched descriptors\<close>

definition watched :: "'d fdwatch \<Rightarrow> int \<Rightarrow> (int \<times> 'd option) option" where
  \<comment> \<open>what the arrays mean: the direction and the client data of a watched descriptor\<close>
  "watched w fd =
     (case (get_at (fd_rw w) fd, get_at (fd_data w) fd) of
        (Some rw, Some d) \<Rightarrow> if rw = -1 then None else Some (rw, d)
      | _ \<Rightarrow> None)"

definition slot_ok :: "'d fdwatch \<Rightarrow> int \<Rightarrow> bool" where
  \<comment> \<open>an entry of the packed array belongs to a watched descriptor that points back to it\<close>
  "slot_ok w i \<longleftrightarrow>
     (\<exists>p rw d. get_at (pollfds w) i = Some p \<and> watched w (pf_fd p) = Some (rw, d) \<and>
        get_at (poll_fdidx w) (pf_fd p) = Some i \<and> pf_events p = poll_events rw (pf_events p))"

definition indexed :: "'d fdwatch \<Rightarrow> int \<Rightarrow> bool" where
  \<comment> \<open>the index of a descriptor leads to its entry\<close>
  "indexed w fd \<longleftrightarrow>
     (\<exists>i p. get_at (poll_fdidx w) fd = Some i \<and> 0 \<le> i \<and> i < npoll_fds w \<and> get_at (pollfds w) i = Some p \<and> pf_fd p = fd)"

definition fdw_sizes :: "'d fdwatch \<Rightarrow> bool" where
  "fdw_sizes w \<longleftrightarrow>
     int (length (fd_rw w)) = nfiles w \<and> int (length (fd_data w)) = nfiles w \<and> int (length (pollfds w)) = nfiles w \<and>
     int (length (poll_fdidx w)) = nfiles w \<and> int (length (poll_rfdidx w)) = nfiles w \<and>
     0 \<le> npoll_fds w \<and> npoll_fds w \<le> nfiles w"

definition fdw_ok :: "'d fdwatch \<Rightarrow> bool" where
  "fdw_ok w \<longleftrightarrow> fdw_sizes w \<and> (\<forall>i. 0 \<le> i \<and> i < npoll_fds w \<longrightarrow> slot_ok w i) \<and>
     (\<forall>fd. watched w fd \<noteq> None \<longrightarrow> indexed w fd)"

lemma watched_range: "watched w fd \<noteq> None \<Longrightarrow> 0 \<le> fd \<and> fd < int (length (fd_rw w))"
  by (auto simp: watched_def get_at_def split: option.splits if_splits)

lemma watched_rw: "fdw_sizes w \<Longrightarrow> 0 \<le> fd \<Longrightarrow> fd < nfiles w \<Longrightarrow>
   (watched w fd = None) = (get_at (fd_rw w) fd = Some (-1))"
  by (auto simp: watched_def get_at_def fdw_sizes_def split: option.splits if_splits)

lemma watching_watched: "fdw_sizes w \<Longrightarrow> watching fd w = (watched w fd \<noteq> None)"
  using watched_rw [of w fd] watched_range [of w fd] by (auto simp: watching_def fdw_sizes_def)

lemma fdw_okD:
  assumes "fdw_ok w"
  shows "0 \<le> i \<Longrightarrow> i < npoll_fds w \<Longrightarrow> slot_ok w i" "watched w fd \<noteq> None \<Longrightarrow> indexed w fd"
  using assms unfolding fdw_ok_def by blast+

lemma slot_inj:
  assumes "fdw_ok w" "0 \<le> i" "i < npoll_fds w" "0 \<le> j" "j < npoll_fds w"
    "get_at (pollfds w) i = Some p" "get_at (pollfds w) j = Some q" "pf_fd p = pf_fd q"
  shows "i = j"
proof -
  have "slot_ok w i" "slot_ok w j" using assms(1-5) by (simp_all add: fdw_ok_def)
  then show ?thesis using assms(6-8) by (auto simp: slot_ok_def)
qed

lemma room_left:
  assumes "fdw_ok w" "0 \<le> fd" "fd < nfiles w" "watched w fd = None"
  shows "npoll_fds w < nfiles w"
proof -
  let ?f = "\<lambda>i. pf_fd (the (get_at (pollfds w) i))"
  have sz: "fdw_sizes w" using assms(1) by (simp add: fdw_ok_def)
  have "inj_on ?f {0 ..< npoll_fds w}"
  proof (rule inj_onI)
    fix i j assume ij: "i \<in> {0 ..< npoll_fds w}" "j \<in> {0 ..< npoll_fds w}" "?f i = ?f j"
    then have "slot_ok w i" "slot_ok w j" using assms(1) by (simp_all add: fdw_ok_def)
    then obtain p q where pq: "get_at (pollfds w) i = Some p" "get_at (pollfds w) j = Some q" by (meson slot_ok_def)
    with ij have "pf_fd p = pf_fd q" by simp
    from slot_inj [OF assms(1) _ _ _ _ pq this] ij show "i = j" by simp
  qed
  moreover have "?f ` {0 ..< npoll_fds w} \<subseteq> {0 ..< nfiles w} - {fd}"
  proof
    fix y assume "y \<in> ?f ` {0 ..< npoll_fds w}"
    then obtain i where i: "y = ?f i" "0 \<le> i" "i < npoll_fds w" by auto
    then have "slot_ok w i" using assms(1) by (simp add: fdw_ok_def)
    then have "watched w y \<noteq> None" using i by (auto simp: slot_ok_def)
    then show "y \<in> {0 ..< nfiles w} - {fd}" using watched_range [of w y] assms(4) sz by (auto simp: fdw_sizes_def)
  qed
  ultimately have "card {0 ..< npoll_fds w} \<le> card ({0 ..< nfiles w} - {fd})"
    by (rule card_inj_on_le) simp
  then show ?thesis using assms(2,3) by simp
qed

lemma fdw_add_ok:
  assumes "fdw_ok w" "0 \<le> fd" "fd < nfiles w" "watched w fd = None" "rw \<noteq> -1"
  shows "\<exists>w'. fdwatch_add_fd fd d rw w = Some w' \<and> fdw_ok w' \<and> watched w' = (watched w)(fd \<mapsto> (rw, d)) \<and>
    w' = w\<lparr>fd_rw := fd_rw w', fd_data := fd_data w', pollfds := pollfds w', npoll_fds := npoll_fds w', poll_fdidx := poll_fdidx w'\<rparr>"
proof -
  have sz: "fdw_sizes w" using assms(1) by (simp add: fdw_ok_def)
  note room = room_left [OF assms(1-4)] and f = sz [unfolded fdw_sizes_def]
  let ?n = "npoll_fds w"
  obtain p where p: "get_at (pollfds w) ?n = Some p" using get_in [of ?n "pollfds w"] room f by auto
  let ?p = "p\<lparr>pf_fd := fd, pf_events := poll_events rw (pf_events p)\<rparr>"
  obtain ps ix r ds where u: "put_at (pollfds w) ?n ?p = Some ps" "put_at (poll_fdidx w) fd ?n = Some ix"
    "put_at (fd_rw w) fd rw = Some r" "put_at (fd_data w) fd d = Some ds"
    using put_in [of ?n "pollfds w" ?p] put_in [of fd "poll_fdidx w" ?n] put_in [of fd "fd_rw w" rw] put_in [of fd "fd_data w" d]
      room f assms(2,3) by auto
  note d = put_atD [OF u(1)] put_atD [OF u(2)] put_atD [OF u(3)] put_atD [OF u(4)]
  let ?w = "w\<lparr>pollfds := ps, poll_fdidx := ix, npoll_fds := ?n + 1, fd_rw := r, fd_data := ds\<rparr>"
  have w: "watched ?w = (watched w)(fd \<mapsto> (rw, d))"
    using assms(5) by (auto simp: watched_def fun_eq_iff d)
  have "slot_ok ?w i" if i: "0 \<le> i" "i < ?n + 1" for i
  proof (cases "i = ?n")
    case True
    show ?thesis unfolding slot_ok_def w
      by (intro exI [of _ ?p] exI [of _ rw] exI [of _ d]) (simp add: True d poll_events_def)
  next
    case False
    then have "slot_ok w i" using i assms(1) by (simp add: fdw_ok_def)
    then obtain q rq dq where q: "get_at (pollfds w) i = Some q" "watched w (pf_fd q) = Some (rq, dq)"
      "get_at (poll_fdidx w) (pf_fd q) = Some i" "pf_events q = poll_events rq (pf_events q)" by (auto simp: slot_ok_def)
    then have "pf_fd q \<noteq> fd" using assms(4) by auto
    then show ?thesis unfolding slot_ok_def w using q False by (intro exI [of _ q] exI [of _ rq] exI [of _ dq]) (simp add: d)
  qed
  moreover have "indexed ?w g" if g: "watched ?w g \<noteq> None" for g
  proof (cases "g = fd")
    case True
    then show ?thesis using f by (auto simp: indexed_def d)
  next
    case False
    then have "indexed w g" using g w assms(1) by (simp add: fdw_ok_def)
    then obtain i x where x: "get_at (poll_fdidx w) g = Some i" "0 \<le> i" "i < npoll_fds w" "get_at (pollfds w) i = Some x" "pf_fd x = g"
      by (auto simp: indexed_def)
    then show ?thesis using False unfolding indexed_def by (intro exI [of _ i] exI [of _ x]) (simp add: d)
  qed
  ultimately have "fdw_ok ?w" using f room unfolding fdw_ok_def by (simp add: fdw_sizes_def d)
  moreover have "fdwatch_add_fd fd d rw w = Some ?w"
    using assms(2,3) watched_rw [OF sz assms(2,3)] assms(4) p u room
    by (simp add: fdwatch_add_fd_def poll_add_fd_def)
  ultimately show ?thesis using w by (intro exI [of _ ?w]) simp
qed

lemma del_ok:
  assumes "fdw_ok w" "watched w fd \<noteq> None"
  shows "\<exists>w'. fdwatch_del_fd fd w = Some w' \<and> fdw_ok w' \<and> watched w' = (watched w)(fd := None) \<and>
    w' = w\<lparr>fd_rw := fd_rw w', fd_data := fd_data w', pollfds := pollfds w', npoll_fds := npoll_fds w', poll_fdidx := poll_fdidx w'\<rparr>"
proof -
  have sz: "fdw_sizes w" using assms(1) by (simp add: fdw_ok_def)
  note f = sz [unfolded fdw_sizes_def]
  have rg: "0 \<le> fd" "fd < nfiles w" using watched_range [OF assms(2)] f by auto
  obtain idx o0 where idx: "get_at (poll_fdidx w) fd = Some idx" "0 \<le> idx" "idx < npoll_fds w"
    "get_at (pollfds w) idx = Some o0" "pf_fd o0 = fd"
    using fdw_okD(2) [OF assms] by (auto simp: indexed_def)
  let ?n = "npoll_fds w - 1"
  have n: "0 \<le> ?n" "?n < nfiles w" using idx f by auto
  have "slot_ok w ?n" using assms(1) idx by (simp add: fdw_ok_def)
  then obtain p rp dp where p: "get_at (pollfds w) ?n = Some p" "watched w (pf_fd p) = Some (rp, dp)"
    "get_at (poll_fdidx w) (pf_fd p) = Some ?n" "pf_events p = poll_events rp (pf_events p)" by (auto simp: slot_ok_def)
  have rp: "0 \<le> pf_fd p" "pf_fd p < nfiles w" using watched_range [of w "pf_fd p"] p(2) f by auto
  obtain ps ix where u: "put_at (pollfds w) idx p = Some ps" "put_at (poll_fdidx w) (pf_fd p) idx = Some ix"
    using put_in [of idx "pollfds w" p] put_in [of "pf_fd p" "poll_fdidx w" idx] idx f rp by auto
  note d = put_atD [OF u(1)] put_atD [OF u(2)]
  obtain q where q: "get_at ps ?n = Some q" using get_in [of ?n ps] n f by (auto simp: d)
  obtain ps' ix' r ds where v: "put_at ps ?n (q\<lparr>pf_fd := -1\<rparr>) = Some ps'" "put_at ix fd (-1) = Some ix'"
    "put_at (fd_rw w) fd (-1) = Some r" "put_at (fd_data w) fd None = Some ds"
    using put_in [of ?n ps "q\<lparr>pf_fd := -1\<rparr>"] put_in [of fd ix "-1"] put_in [of fd "fd_rw w" "-1"] put_in [of fd "fd_data w" None]
      n f rg by (auto simp: d)
  note e = put_atD [OF v(1)] put_atD [OF v(2)] put_atD [OF v(3)] put_atD [OF v(4)]
  let ?w = "w\<lparr>npoll_fds := ?n, pollfds := ps', poll_fdidx := ix', fd_rw := r, fd_data := ds\<rparr>"
  have w: "watched ?w = (watched w)(fd := None)"
    by (auto simp: watched_def fun_eq_iff e split: option.splits)
  have "slot_ok ?w i" if i: "0 \<le> i" "i < ?n" for i
  proof -
    have "\<exists>x rx dx. get_at ps' i = Some x \<and> pf_fd x \<noteq> fd \<and> watched w (pf_fd x) = Some (rx, dx) \<and>
        get_at ix (pf_fd x) = Some i \<and> pf_events x = poll_events rx (pf_events x)"
    proof (cases "i = idx")
      case True
      have "pf_fd p \<noteq> fd" using slot_inj [OF assms(1), of ?n idx] p(1) idx i n True by auto
      then show ?thesis using True i p by (intro exI [of _ p] exI [of _ rp] exI [of _ dp]) (simp add: d e)
    next
      case False
      have "slot_ok w i" using assms(1) i by (simp add: fdw_ok_def)
      then obtain x rx dx where x: "get_at (pollfds w) i = Some x" "watched w (pf_fd x) = Some (rx, dx)"
        "get_at (poll_fdidx w) (pf_fd x) = Some i" "pf_events x = poll_events rx (pf_events x)" by (auto simp: slot_ok_def)
      have "pf_fd x \<noteq> fd" using slot_inj [OF assms(1), of i idx] x(1) idx i False by auto
      moreover have "pf_fd x \<noteq> pf_fd p" using slot_inj [OF assms(1), of i ?n] x(1) p(1) i n by auto
      ultimately show ?thesis using False i x by (intro exI [of _ x] exI [of _ rx] exI [of _ dx]) (simp add: d e)
    qed
    then obtain x rx dx where "get_at ps' i = Some x" "pf_fd x \<noteq> fd" "watched w (pf_fd x) = Some (rx, dx)"
        "get_at ix (pf_fd x) = Some i" "pf_events x = poll_events rx (pf_events x)" by blast
    then show ?thesis unfolding slot_ok_def w by (intro exI [of _ x] exI [of _ rx] exI [of _ dx]) (simp add: e)
  qed
  moreover have "indexed ?w g" if g: "watched ?w g \<noteq> None" for g
  proof -
    have gf: "g \<noteq> fd" "watched w g \<noteq> None" using g w by (auto split: if_splits)
    then obtain i x where x: "get_at (poll_fdidx w) g = Some i" "0 \<le> i" "i < npoll_fds w" "get_at (pollfds w) i = Some x" "pf_fd x = g"
      using fdw_okD(2) [OF assms(1), of g] by (auto simp: indexed_def)
    have ii: "i \<noteq> idx" using x(4,5) idx(4,5) gf(1) by auto
    show ?thesis
    proof (cases "i = ?n")
      case True
      then have "x = p" using x(4) p(1) by simp
      then show ?thesis using True ii x(1-3,5) idx(2,3) gf unfolding indexed_def
        by (intro exI [of _ idx] exI [of _ p]) (simp add: d e)
    next
      case False
      have "g \<noteq> pf_fd p" using slot_inj [OF assms(1), of i ?n] x p(1) n False by auto
      then show ?thesis using False ii x gf unfolding indexed_def by (intro exI [of _ i] exI [of _ x]) (simp add: d e)
    qed
  qed
  ultimately have "fdw_ok ?w" using f n unfolding fdw_ok_def by (simp add: fdw_sizes_def d e)
  moreover have "fdwatch_del_fd fd w = Some ?w"
    using assms(2) watching_watched [OF sz, of fd] idx f p u q v
    by (simp add: fdwatch_del_fd_def poll_del_fd_def Let_def)
  ultimately show ?thesis using w by (intro exI [of _ ?w]) simp
qed

section \<open>A map of descriptors\<close>

locale watch_list =
  fixes ok :: "'w \<Rightarrow> bool"
    and view :: "'w \<Rightarrow> int \<Rightarrow> (int \<times> 'd option) option"
    and limit :: "'w \<Rightarrow> int"
    and add :: "int \<Rightarrow> 'd option \<Rightarrow> int \<Rightarrow> 'w \<Rightarrow> 'w option"
    and del :: "int \<Rightarrow> 'w \<Rightarrow> 'w option"
  assumes add_view: "ok w \<Longrightarrow> 0 \<le> fd \<Longrightarrow> fd < limit w \<Longrightarrow> view w fd = None \<Longrightarrow> rw \<noteq> -1 \<Longrightarrow>
      \<exists>w'. add fd d rw w = Some w' \<and> ok w' \<and> view w' = (view w)(fd \<mapsto> (rw, d)) \<and> limit w' = limit w"
    and del_view: "ok w \<Longrightarrow> view w fd \<noteq> None \<Longrightarrow>
      \<exists>w'. del fd w = Some w' \<and> ok w' \<and> view w' = (view w)(fd := None) \<and> limit w' = limit w"
    and view_range: "ok w \<Longrightarrow> view w fd \<noteq> None \<Longrightarrow> 0 \<le> fd \<and> fd < limit w"
    and add_refused: "ok w \<Longrightarrow> fd < 0 \<or> limit w \<le> fd \<or> view w fd \<noteq> None \<Longrightarrow> add fd d rw w = Some w"
    and del_refused: "ok w \<Longrightarrow> view w fd = None \<Longrightarrow> del fd w = Some w"
begin

lemma switch:
  assumes "ok w" "view w fd \<noteq> None" "rw \<noteq> -1"
  shows "\<exists>w1 w2. del fd w = Some w1 \<and> add fd d rw w1 = Some w2 \<and> ok w2 \<and>
    view w2 = (view w)(fd \<mapsto> (rw, d)) \<and> limit w2 = limit w"
proof -
  obtain w1 where w1: "del fd w = Some w1" "ok w1" "view w1 = (view w)(fd := None)" "limit w1 = limit w"
    using del_view [OF assms(1,2)] by blast
  from add_view [OF w1(2), of fd rw d] view_range [OF assms(1,2)] w1 assms(3) show ?thesis by auto
qed

lemma add_any:
  assumes "ok w" "rw \<noteq> -1"
  shows "\<exists>w'. add fd d rw w = Some w' \<and> ok w' \<and> limit w' = limit w \<and>
    view w' = (if 0 \<le> fd \<and> fd < limit w \<and> view w fd = None then (view w)(fd \<mapsto> (rw, d)) else view w)"
proof (cases "0 \<le> fd \<and> fd < limit w \<and> view w fd = None")
  case True
  with add_view [OF assms(1), of fd rw d] assms(2) show ?thesis by auto
next
  case False
  then have "fd < 0 \<or> limit w \<le> fd \<or> view w fd \<noteq> None" by auto
  with add_refused [OF assms(1) this] False assms(1) show ?thesis by auto
qed

lemma del_any:
  assumes "ok w"
  shows "\<exists>w'. del fd w = Some w' \<and> ok w' \<and> limit w' = limit w \<and> view w' = (view w)(fd := None)"
proof (cases "view w fd")
  case None
  with del_refused [OF assms None] assms show ?thesis by auto
next
  case (Some x)
  with del_view [OF assms, of fd] show ?thesis by auto
qed

end

lemma nfiles_same:
  assumes "w' = w\<lparr>fd_rw := a, fd_data := b, pollfds := c, npoll_fds := n, poll_fdidx := e\<rparr>"
  shows "nfiles w' = nfiles w"
  by (simp add: assms)

interpretation fdw: watch_list fdw_ok watched nfiles fdwatch_add_fd fdwatch_del_fd
proof
  fix w :: "'d fdwatch" and fd rw :: int and d
  assume ok: "fdw_ok w"
  then have sz: "fdw_sizes w" by (simp add: fdw_ok_def)
  show "\<exists>w'. fdwatch_add_fd fd d rw w = Some w' \<and> fdw_ok w' \<and> watched w' = (watched w)(fd \<mapsto> (rw, d)) \<and> nfiles w' = nfiles w"
    if "0 \<le> fd" "fd < nfiles w" "watched w fd = None" "rw \<noteq> -1"
    using fdw_add_ok [OF ok that, of d] nfiles_same by blast
  show "\<exists>w'. fdwatch_del_fd fd w = Some w' \<and> fdw_ok w' \<and> watched w' = (watched w)(fd := None) \<and> nfiles w' = nfiles w"
    if "watched w fd \<noteq> None"
    using del_ok [OF ok that] nfiles_same by blast
  show "0 \<le> fd \<and> fd < nfiles w" if "watched w fd \<noteq> None"
    using watched_range [OF that] sz by (simp add: fdw_sizes_def)
  show "fdwatch_add_fd fd d rw w = Some w" if "fd < 0 \<or> nfiles w \<le> fd \<or> watched w fd \<noteq> None"
    using that watched_rw [OF sz, of fd] by (auto simp: fdwatch_add_fd_def)
  show "fdwatch_del_fd fd w = Some w" if "watched w fd = None"
    using that watching_watched [OF sz, of fd] by (simp add: fdwatch_del_fd_def)
qed

datatype 'd watch_op = Add int "'d option" int | Del int

fun do_op :: "'d watch_op \<Rightarrow> 'd fdwatch \<Rightarrow> 'd fdwatch option" where
  "do_op (Add fd d rw) w = fdwatch_add_fd fd d rw w"
| "do_op (Del fd) w = fdwatch_del_fd fd w"

fun do_ops :: "'d watch_op list \<Rightarrow> 'd fdwatch \<Rightarrow> 'd fdwatch option" where
  "do_ops [] w = Some w"
| "do_ops (p # ps) w = (case do_op p w of None \<Rightarrow> None | Some w1 \<Rightarrow> do_ops ps w1)"

fun map_op :: "int \<Rightarrow> 'd watch_op \<Rightarrow> (int \<rightharpoonup> int \<times> 'd option) \<Rightarrow> (int \<rightharpoonup> int \<times> 'd option)" where
  \<comment> \<open>the same on a map of the watched descriptors\<close>
  "map_op nf (Add fd d rw) m = (if 0 \<le> fd \<and> fd < nf \<and> m fd = None then m(fd \<mapsto> (rw, d)) else m)"
| "map_op nf (Del fd) m = m(fd := None)"

fun directed :: "'d watch_op \<Rightarrow> bool" where
  "directed (Add fd d rw) = (rw = FDW_READ \<or> rw = FDW_WRITE)"
| "directed (Del fd) = True"

lemma do_op_map:
  assumes "fdw_ok w" "directed p"
  shows "\<exists>w'. do_op p w = Some w' \<and> fdw_ok w' \<and> nfiles w' = nfiles w \<and> watched w' = map_op (nfiles w) p (watched w)"
proof (cases p)
  case (Add fd d rw)
  then have "rw \<noteq> -1" using assms(2) by (auto simp: FDW_READ_def FDW_WRITE_def)
  from fdw.add_any [OF assms(1) this, of fd d] Add show ?thesis by simp
next
  case (Del fd)
  from fdw.del_any [OF assms(1), of fd] Del show ?thesis by simp
qed

lemma do_ops_map:
  "fdw_ok w \<Longrightarrow> list_all directed ps \<Longrightarrow>
   \<exists>w'. do_ops ps w = Some w' \<and> fdw_ok w' \<and> nfiles w' = nfiles w \<and> watched w' = fold (map_op (nfiles w)) ps (watched w)"
proof (induction ps arbitrary: w)
  case (Cons p ps)
  then obtain w1 where "do_op p w = Some w1" "fdw_ok w1" "nfiles w1 = nfiles w" "watched w1 = map_op (nfiles w) p (watched w)"
    using do_op_map [of w p] by auto
  with Cons.IH [of w1] Cons.prems(2) show ?case by auto
qed simp

lemma init_fdw_ok:
  assumes "fdwatch_get_nfiles n rl set_ok True w = (nf, w0)" "0 \<le> nf"
  shows "fdw_ok w0 \<and> nfiles w0 = nf \<and> watched w0 = (\<lambda>fd. None)"
proof -
  have w0: "nf = fd_limit n rl set_ok" "w0 = poll_init nf (w\<lparr>nfiles := nf, nwatches := 0, fd_rw := replicate (nat nf) (-1), fd_data := replicate (nat nf) None\<rparr>)"
    using assms(1) by (auto simp: fdwatch_get_nfiles_def Let_def)
  have "watched w0 = (\<lambda>fd. None)" using assms(2) by (auto simp: w0(2) poll_init_def watched_def get_at_def fun_eq_iff)
  then show ?thesis using assms(2) by (auto simp: w0(2) poll_init_def fdw_ok_def fdw_sizes_def)
qed

definition blank_watch :: "nat fdwatch" where
  "blank_watch = \<lparr>nfiles = 0, nwatches = 0, fd_rw = [], fd_data = [], nreturned = 0, next_ridx = 0, pollfds = [], npoll_fds = 0,
     poll_fdidx = [], poll_rfdidx = []\<rparr>"

definition some_ops :: "nat watch_op list" where
  "some_ops = [Add 3 None FDW_READ, Add 5 (Some 0) FDW_READ, Add 6 (Some 1) FDW_WRITE, Del 5, Add 9 (Some 2) FDW_READ]"

section \<open>Delivery\<close>

fun deliveries :: "nat \<Rightarrow> 'd fdwatch \<Rightarrow> ('d client list \<times> 'd fdwatch) option" where
  \<comment> \<open>so many calls of \<open>fdwatch_get_next_client_data\<close>\<close>
  "deliveries 0 w = Some ([], w)"
| "deliveries (Suc n) w =
     (case fdwatch_get_next_client_data w of
        None \<Rightarrow> None
      | Some (c, w1) \<Rightarrow> (case deliveries n w1 of None \<Rightarrow> None | Some (cs, w2) \<Rightarrow> Some (c # cs, w2)))"

lemma poll_scan_all:
  "r = int (length (filter (\<lambda>p. has_event (revents p)) ps)) \<Longrightarrow>
   poll_scan r ps = map pf_fd (filter (\<lambda>p. has_event (revents p)) ps)"
proof (induction ps arbitrary: r)
  case (Cons p ps)
  show ?case
  proof (cases "has_event (revents p)")
    case True
    then have r: "r - 1 = int (length (filter (\<lambda>p. has_event (revents p)) ps))" using Cons.prems by simp
    show ?thesis
    proof (cases "r = 1")
      case True
      then have "filter (\<lambda>p. has_event (revents p)) ps = []" using r by simp
      then show ?thesis using True Cons.prems \<open>has_event (revents p)\<close> by simp
    next
      case False
      then show ?thesis using True Cons.IH [OF r] \<open>has_event (revents p)\<close> by simp
    qed
  qed (use Cons in simp)
qed simp

lemma deliveries_from:
  assumes "nreturned w = int (length fds)" "next_ridx w = int k" "k \<le> length fds" "int (length fds) \<le> nfiles w"
    "take (length fds) (poll_rfdidx w) = fds" "\<forall>fd\<in>set fds. 0 \<le> fd \<and> fd < nfiles w" "int (length (fd_data w)) = nfiles w"
  shows "deliveries (length fds - k) w =
    Some (map (\<lambda>fd. Client (fd_data w ! nat fd)) (drop k fds), w\<lparr>next_ridx := int (length fds)\<rparr>)"
  using assms
proof (induction "length fds - k" arbitrary: k w)
  case 0
  have "w\<lparr>next_ridx := int (length fds)\<rparr> = w" using 0 by (cases w) simp
  then show ?case using 0 by simp
next
  case (Suc n)
  then have k: "k < length fds" by simp
  have fd: "poll_rfdidx w ! k = fds ! k" using Suc.prems(5) k by (metis nth_take)
  have len: "length fds \<le> length (poll_rfdidx w)" using Suc.prems(5) by (metis length_take min.absorb_iff2 min.commute)
  have r: "0 \<le> fds ! k" "fds ! k < nfiles w" using Suc.prems(6) k by auto
  let ?w = "w\<lparr>next_ridx := int (Suc k)\<rparr>"
  have "fdwatch_get_next_client_data w = Some (Client (fd_data w ! nat (fds ! k)), ?w)"
    using Suc.prems(1,2,4,7) k fd len r by (simp add: fdwatch_get_next_client_data_def poll_get_fd_def get_at_def add.commute)
  moreover have "deliveries (length fds - Suc k) ?w =
      Some (map (\<lambda>fd. Client (fd_data w ! nat fd)) (drop (Suc k) fds), w\<lparr>next_ridx := int (length fds)\<rparr>)"
    using Suc.hyps(1) [of "Suc k" ?w] Suc.hyps(2) Suc.prems k by simp
  moreover have "length fds - k = Suc (length fds - Suc k)" using k by simp
  ultimately show ?case using k by (simp add: Cons_nth_drop_Suc [symmetric])
qed

lemma deliveries_end:
  "deliveries a v = Some (xs, u) \<Longrightarrow> nreturned u \<le> next_ridx u \<Longrightarrow> deliveries (a + 1) v = Some (xs @ [No_more], u)"
proof (induction a arbitrary: v xs)
  case 0
  then show ?case by (simp add: fdwatch_get_next_client_data_def)
next
  case (Suc a)
  from Suc.prems(1) obtain c v1 ys where c: "fdwatch_get_next_client_data v = Some (c, v1)" "deliveries a v1 = Some (ys, u)" "xs = c # ys"
    by (auto split: option.splits prod.splits)
  with Suc.IH [OF c(2) Suc.prems(2)] show ?case by simp
qed

lemma slots_of:
  assumes "fdw_ok w"
  shows "distinct (map pf_fd (take (nat (npoll_fds w)) (pollfds w)))"
    "fd \<in> set (map pf_fd (take (nat (npoll_fds w)) (pollfds w))) \<longleftrightarrow> watched w fd \<noteq> None"
proof -
  let ?ps = "take (nat (npoll_fds w)) (pollfds w)"
  have sz: "fdw_sizes w" using assms by (simp add: fdw_ok_def)
  then have len: "length ?ps = nat (npoll_fds w)" by (auto simp: fdw_sizes_def)
  have at: "get_at (pollfds w) (int i) = Some (?ps ! i)" if "i < length ?ps" for i
    using that len sz by (auto simp: get_at_def fdw_sizes_def)
  show "distinct (map pf_fd ?ps)"
  proof (unfold distinct_conv_nth, intro allI impI)
    fix i j assume ij: "i < length (map pf_fd ?ps)" "j < length (map pf_fd ?ps)" "i \<noteq> j"
    then have "i < length ?ps" "j < length ?ps" by simp_all
    then have "int i < npoll_fds w" "int j < npoll_fds w" unfolding len by simp_all
    then have "pf_fd (?ps ! i) \<noteq> pf_fd (?ps ! j)"
      using slot_inj [OF assms _ _ _ _ at [OF \<open>i < length ?ps\<close>] at [OF \<open>j < length ?ps\<close>]] ij(3) by auto
    then show "map pf_fd ?ps ! i \<noteq> map pf_fd ?ps ! j" using ij by simp
  qed
  show "fd \<in> set (map pf_fd ?ps) \<longleftrightarrow> watched w fd \<noteq> None"
  proof
    assume "fd \<in> set (map pf_fd ?ps)"
    then obtain i where i: "i < length ?ps" "fd = pf_fd (?ps ! i)" by (metis in_set_conv_nth length_map nth_map)
    then have "int i < npoll_fds w" unfolding len by simp
    then have "slot_ok w (int i)" using fdw_okD(1) [OF assms, of "int i"] by simp
    then show "watched w fd \<noteq> None" using at [OF i(1)] i(2) by (auto simp: slot_ok_def)
  next
    assume "watched w fd \<noteq> None"
    then have "indexed w fd" by (rule fdw_okD(2) [OF assms])
    then obtain i p where i: "0 \<le> i" "i < npoll_fds w" "get_at (pollfds w) i = Some p" "pf_fd p = fd" by (auto simp: indexed_def)
    then have "nat i < length ?ps" "get_at (pollfds w) (int (nat i)) = Some p" using len by simp_all
    then have "?ps ! nat i = p" using at [of "nat i"] by simp
    then show "fd \<in> set (map pf_fd ?ps)" using i \<open>nat i < length ?ps\<close> by (metis imageI list.set_map nth_mem)
  qed
qed

definition ready_for :: "int \<Rightarrow> 16 word \<Rightarrow> bool" where
  \<comment> \<open>what \<open>fdwatch_check_fd\<close> answers for a direction and the events reported\<close>
  "ready_for rw e \<longleftrightarrow> and e POLLERR = 0 \<and>
     (if rw = FDW_READ then and e (or POLLIN (or POLLHUP POLLNVAL)) \<noteq> 0
      else if rw = FDW_WRITE then and e (or POLLOUT (or POLLHUP POLLNVAL)) \<noteq> 0 else False)"

lemma set_revents_watched: "watched (w\<lparr>pollfds := ps\<rparr>) = watched w"
  by (simp add: watched_def fun_eq_iff)

text \<open>Every ready descriptor is delivered once. When \<open>poll\<close> reports as many descriptors as have an event, the client data
  that the following calls return are exactly those of the watched descriptors with an event, each once, and then the end
  is reached; for each of them \<open>fdwatch_check_fd\<close> answers by its direction and the events.\<close>

theorem fdwatch_delivers:
  assumes "fdw_ok w" "r = int (card {fd. watched w fd \<noteq> None \<and> has_event (ev fd)})" "0 < r"
  shows "\<exists>w1 fds w2. fdwatch r ev w = (r, w1) \<and> distinct fds \<and>
    set fds = {fd. watched w fd \<noteq> None \<and> has_event (ev fd)} \<and>
    deliveries (nat r + 1) w1 = Some (map (\<lambda>fd. Client (snd (the (watched w fd)))) fds @ [No_more], w2) \<and>
    (\<forall>fd\<in>set fds. fdwatch_check_fd fd w1 = Some (ready_for (fst (the (watched w fd))) (ev fd)))"
proof -
  have sz: "fdw_sizes w" using assms(1) by (simp add: fdw_ok_def)
  note f = sz [unfolded fdw_sizes_def]
  let ?n = "nat (npoll_fds w)" and ?E = "{fd. watched w fd \<noteq> None \<and> has_event (ev fd)}"
  let ?g = "\<lambda>p. p\<lparr>revents := ev (pf_fd p)\<rparr>"
  let ?ps = "map ?g (take ?n (pollfds w))"
  define fds where "fds = map pf_fd (filter (\<lambda>p. has_event (revents p)) ?ps)"
  have fd_map: "fds = filter (\<lambda>fd. has_event (ev fd)) (map pf_fd (take ?n (pollfds w)))"
    by (simp add: fds_def filter_map o_def)
  have dist: "distinct fds" unfolding fd_map by (rule distinct_filter [OF slots_of(1) [OF assms(1)]])
  have set: "set fds = ?E" using slots_of(2) [OF assms(1)] unfolding fd_map set_filter by auto
  have r: "r = int (length fds)" using assms(2) distinct_card [OF dist] set by simp
  then have scan: "poll_scan r ?ps = fds" unfolding fds_def by (intro poll_scan_all) simp
  have tl: "take ?n (map ?g (take ?n (pollfds w)) @ drop ?n (pollfds w)) = ?ps"
    using f by (simp add: min_def)
  have nl: "nat (npoll_fds w) \<le> length (pollfds w)" using f by linarith
  let ?w1 = "w\<lparr>nwatches := nwatches w + 1, pollfds := ?ps @ drop ?n (pollfds w),
      poll_rfdidx := fds @ drop (length fds) (poll_rfdidx w), nreturned := r, next_ridx := 0\<rparr>"
  have w1: "fdwatch r ev w = (r, ?w1)"
    using assms(3) nl scan r by (simp add: fdwatch_def poll_watch_def Let_def)
  have le: "int (length fds) \<le> nfiles w"
  proof -
    have "length fds \<le> length (take ?n (pollfds w))" unfolding fd_map by (metis length_filter_le length_map)
    then show ?thesis using f by simp
  qed
  have rg: "\<forall>fd\<in>set fds. 0 \<le> fd \<and> fd < nfiles w" using fdw.view_range [OF assms(1)] set by blast
  have "deliveries (length fds - 0) ?w1 = Some (map (\<lambda>fd. Client (fd_data ?w1 ! nat fd)) (drop 0 fds), ?w1\<lparr>next_ridx := int (length fds)\<rparr>)"
    using r le rg f by (intro deliveries_from) simp_all
  moreover have "fd_data w ! nat fd = snd (the (watched w fd))" if "fd \<in> set fds" for fd
    using that set by (auto simp: watched_def get_at_def split: option.splits if_splits)
  ultimately have d: "deliveries (nat r) ?w1 = Some (map (\<lambda>fd. Client (snd (the (watched w fd)))) fds, ?w1\<lparr>next_ridx := int (length fds)\<rparr>)"
    using r by simp
  have "fdwatch_check_fd fd ?w1 = Some (ready_for (fst (the (watched w fd))) (ev fd))" if fd: "fd \<in> set fds" for fd
  proof -
    have wt: "watched w fd \<noteq> None" using fd set by simp
    then obtain i p where i: "get_at (poll_fdidx w) fd = Some i" "0 \<le> i" "i < npoll_fds w" "get_at (pollfds w) i = Some p" "pf_fd p = fd"
      using fdw_okD(2) [OF assms(1) wt] by (auto simp: indexed_def)
    have "watching fd ?w1" using wt watching_watched [OF sz, of fd] by (simp add: watching_def)
    moreover have "get_at (?ps @ drop ?n (pollfds w)) i = Some (?g p)"
      using i f by (auto simp: get_at_def nth_append)
    moreover have "get_at (fd_rw w) fd = Some (fst (the (watched w fd)))"
      using wt by (auto simp: watched_def split: option.splits if_splits)
    ultimately show ?thesis using i f by (simp add: fdwatch_check_fd_def poll_check_fd_def ready_for_def)
  qed
  moreover have "deliveries (nat r + 1) ?w1 = Some (map (\<lambda>fd. Client (snd (the (watched w fd)))) fds @ [No_more], ?w1\<lparr>next_ridx := int (length fds)\<rparr>)"
    by (rule deliveries_end [OF d]) (use r in simp)
  ultimately show ?thesis using w1 dist set by blast
qed

lemma two_watched: "fdwatch_get_nfiles 8 None True True blank_watch = (8, w0) \<Longrightarrow>
   \<exists>w. do_ops some_ops w0 = Some w \<and> fdw_ok w \<and> watched w = [3 \<mapsto> (0, None), 6 \<mapsto> (1, Some 1)]"
  using do_ops_map [of w0 some_ops] init_fdw_ok [of 8 None True blank_watch 8 w0]
  by (auto simp: some_ops_def FDW_READ_def FDW_WRITE_def fun_eq_iff)

theorem fdwatch_delivers_witness:
  "\<exists>(w :: nat fdwatch) w1 fds w2. fdwatch 1 (\<lambda>fd. if fd = 6 then POLLOUT else 0) w = (1, w1) \<and> set fds = {6} \<and>
     deliveries 2 w1 = Some (map (\<lambda>fd. Client (snd (the (watched w fd)))) fds @ [No_more], w2)"
proof -
  obtain w0 :: "nat fdwatch" where w0: "fdwatch_get_nfiles 8 None True True blank_watch = (8, w0)"
    by (simp add: fdwatch_get_nfiles_def fd_limit_def)
  obtain w where w: "do_ops some_ops w0 = Some w" "fdw_ok w" "watched w = [3 \<mapsto> (0, None), 6 \<mapsto> (1, Some 1)]"
    using two_watched [OF w0] by blast
  let ?ev = "\<lambda>fd :: int. if fd = 6 then POLLOUT else 0"
  have e: "{fd. watched w fd \<noteq> None \<and> has_event (?ev fd)} = {6}"
    by (auto simp: w(3) has_event_def POLLOUT_def POLLIN_def POLLERR_def POLLHUP_def POLLNVAL_def)
  then have "1 = int (card {fd. watched w fd \<noteq> None \<and> has_event (?ev fd)})" by simp
  from fdwatch_delivers [OF w(2) this] have "\<exists>w1 fds w2. fdwatch 1 ?ev w = (1, w1) \<and> set fds = {6} \<and>
      deliveries (nat 1 + 1) w1 = Some (map (\<lambda>fd. Client (snd (the (watched w fd)))) fds @ [No_more], w2)"
    unfolding e by (simp only: zero_less_one) blast
  moreover have "nat 1 + 1 = (2 :: nat)" by simp
  ultimately show ?thesis by metis
qed

section \<open>The watch as a map\<close>

definition asked :: "'d fdwatch \<Rightarrow> pollfd list" where
  \<comment> \<open>the entries that \<open>poll\<close> is given\<close>
  "asked w = take (nat (npoll_fds w)) (pollfds w)"

definition event_for :: "int \<Rightarrow> 16 word" where
  "event_for rw = (if rw = FDW_READ then POLLIN else POLLOUT)"

lemma map_op_directed:
  "list_all directed ps \<Longrightarrow> \<forall>fd rw d. m fd = Some (rw, d) \<longrightarrow> rw = FDW_READ \<or> rw = FDW_WRITE \<Longrightarrow>
   fold (map_op nf) ps m fd = Some (rw, d) \<Longrightarrow> rw = FDW_READ \<or> rw = FDW_WRITE"
proof (induction ps arbitrary: m)
  case (Cons p ps)
  have "\<forall>fd rw d. map_op nf p m fd = Some (rw, d) \<longrightarrow> rw = FDW_READ \<or> rw = FDW_WRITE"
    using Cons.prems(1,2) by (cases p) (auto split: if_splits)
  then show ?case using Cons by simp
next
  case Nil
  then show ?case by auto
qed

lemma asked_events:
  assumes "fdw_ok w" "\<And>fd rw d. watched w fd = Some (rw, d) \<Longrightarrow> rw = FDW_READ \<or> rw = FDW_WRITE"
  shows "(\<lambda>p. (pf_fd p, pf_events p)) ` set (asked w) = {(fd, event_for rw) |fd rw. \<exists>d. watched w fd = Some (rw, d)}"
proof -
  have sz: "fdw_sizes w" using assms(1) by (simp add: fdw_ok_def)
  have "\<exists>rw d. watched w (pf_fd p) = Some (rw, d) \<and> pf_events p = event_for rw" if p: "p \<in> set (asked w)" for p
  proof -
    obtain i where i: "i < length (asked w)" "p = asked w ! i" using in_set_conv_nth [THEN iffD1, OF p] by blast
    then have "int i < npoll_fds w" "get_at (pollfds w) (int i) = Some p"
      using sz by (auto simp: asked_def get_at_def fdw_sizes_def)
    then have "slot_ok w (int i)" "get_at (pollfds w) (int i) = Some p" using fdw_okD(1) [OF assms(1), of "int i"] by simp_all
    then obtain rw d where r: "watched w (pf_fd p) = Some (rw, d)" "pf_events p = poll_events rw (pf_events p)"
      by (auto simp: slot_ok_def)
    then show ?thesis using assms(2) [OF r(1)] by (auto simp: poll_events_def event_for_def FDW_READ_def FDW_WRITE_def)
  qed
  note a = this
  have "\<exists>p\<in>set (asked w). pf_fd p = fd" if "watched w fd \<noteq> None" for fd
    using slots_of(2) [OF assms(1), of fd] that by (auto simp: asked_def)
  then show ?thesis using a by (fastforce simp: image_iff)
qed

text \<open>C26: the descriptor watch is a map. From the initial state, after any sequence of additions and removals (of any
  descriptors, watched or not, in range or not), no array has been accessed outside its bounds and the watched descriptors
  with their directions and client data are those of a finite map that ignores invalid additions. What \<open>poll\<close> is given is this
  map: each of its descriptors once, with the event of its direction. And when \<open>poll\<close> then reports as many
  descriptors as have an event, the calls that follow deliver the client data of just these, each once, and
  \<open>fdwatch_check_fd\<close> answers for each by its direction and its events.\<close>

theorem fdwatch_is_map:
  assumes "fdwatch_get_nfiles n rl set_ok True w = (nf, w0)" "0 \<le> nf" "list_all directed ps"
    "m = fold (map_op nf) ps (\<lambda>fd. None)"
  shows "\<exists>w'. do_ops ps w0 = Some w' \<and> watched w' = m \<and>
    distinct (map pf_fd (asked w')) \<and>
    (\<lambda>p. (pf_fd p, pf_events p)) ` set (asked w') = {(fd, event_for rw) |fd rw. \<exists>d. m fd = Some (rw, d)} \<and>
    (\<forall>r ev. 0 < r \<and> r = int (card {fd \<in> dom m. has_event (ev fd)}) \<longrightarrow>
      (\<exists>w1 fds w2. fdwatch r ev w' = (r, w1) \<and> distinct fds \<and> set fds = {fd \<in> dom m. has_event (ev fd)} \<and>
        deliveries (nat r + 1) w1 = Some (map (\<lambda>fd. Client (snd (the (m fd)))) fds @ [No_more], w2) \<and>
        (\<forall>fd\<in>set fds. fdwatch_check_fd fd w1 = Some (ready_for (fst (the (m fd))) (ev fd)))))"
proof -
  obtain w' where w: "do_ops ps w0 = Some w'" "fdw_ok w'" "watched w' = m"
    using do_ops_map [of w0 ps] init_fdw_ok [OF assms(1,2)] assms(3,4) by auto
  have "rw = FDW_READ \<or> rw = FDW_WRITE" if "watched w' fd = Some (rw, d)" for fd rw d
    using map_op_directed [OF assms(3), of "\<lambda>fd. None" nf fd rw d] that w(3) assms(4) by simp
  from asked_events [OF w(2) this] slots_of(1) [OF w(2)]
  have a: "distinct (map pf_fd (asked w'))"
    "(\<lambda>p. (pf_fd p, pf_events p)) ` set (asked w') = {(fd, event_for rw) |fd rw. \<exists>d. m fd = Some (rw, d)}"
    by (auto simp: asked_def w(3))
  have e: "{fd \<in> dom m. has_event (ev fd)} = {fd. watched w' fd \<noteq> None \<and> has_event (ev fd)}" for ev
    by (auto simp: w(3) dom_def)
  have "\<exists>w1 fds w2. fdwatch r ev w' = (r, w1) \<and> distinct fds \<and> set fds = {fd \<in> dom m. has_event (ev fd)} \<and>
      deliveries (nat r + 1) w1 = Some (map (\<lambda>fd. Client (snd (the (m fd)))) fds @ [No_more], w2) \<and>
      (\<forall>fd\<in>set fds. fdwatch_check_fd fd w1 = Some (ready_for (fst (the (m fd))) (ev fd)))"
    if "0 < r" "r = int (card {fd \<in> dom m. has_event (ev fd)})" for r ev
    using fdwatch_delivers [OF w(2), of r ev] that unfolding e w(3) by blast
  then show ?thesis using w(1,3) a by blast
qed

lemma some_map: "fold (map_op 8) some_ops (\<lambda>fd. None) = [3 \<mapsto> (0, None), 6 \<mapsto> (1, Some 1)]"
  by (simp add: some_ops_def FDW_READ_def FDW_WRITE_def fun_eq_iff)

theorem fdwatch_is_map_witness:
  "\<exists>w' w1 fds w2. do_ops some_ops (snd (fdwatch_get_nfiles 4 (Some (4, 8)) True True blank_watch)) = Some w' \<and>
     watched w' = [3 \<mapsto> (0, None), 6 \<mapsto> (1, Some 1)] \<and>
     (\<lambda>p. (pf_fd p, pf_events p)) ` set (asked w') = {(3, POLLIN), (6, POLLOUT)} \<and>
     fdwatch 1 (\<lambda>fd. if fd = 6 then POLLOUT else 0) w' = (1, w1) \<and> set fds = {6 :: int} \<and>
     deliveries 2 w1 = Some (map (\<lambda>fd. Client (Some 1)) fds @ [No_more], w2)"
proof -
  let ?w0 = "snd (fdwatch_get_nfiles 4 (Some (4, 8)) True True blank_watch)" and ?m = "[3 \<mapsto> (0, None), 6 \<mapsto> (1, Some 1)] :: int \<rightharpoonup> int \<times> nat option"
  let ?ev = "\<lambda>fd :: int. if fd = 6 then POLLOUT else 0"
  have i: "fdwatch_get_nfiles 4 (Some (4, 8)) True True blank_watch = (8, ?w0)" "(0 :: int) \<le> 8" "list_all directed some_ops"
    by (simp_all add: fdwatch_get_nfiles_def fd_limit_def RLIM_INFINITY_def some_ops_def)
  obtain w' where w0: "do_ops some_ops ?w0 = Some w' \<and> watched w' = ?m \<and> distinct (map pf_fd (asked w')) \<and>
    (\<lambda>p. (pf_fd p, pf_events p)) ` set (asked w') = {(fd, event_for rw) |fd rw. \<exists>d. ?m fd = Some (rw, d)} \<and>
    (\<forall>r ev. 0 < r \<and> r = int (card {fd \<in> dom ?m. has_event (ev fd)}) \<longrightarrow>
      (\<exists>w1 fds w2. fdwatch r ev w' = (r, w1) \<and> distinct fds \<and> set fds = {fd \<in> dom ?m. has_event (ev fd)} \<and>
        deliveries (nat r + 1) w1 = Some (map (\<lambda>fd. Client (snd (the (?m fd)))) fds @ [No_more], w2) \<and>
        (\<forall>fd\<in>set fds. fdwatch_check_fd fd w1 = Some (ready_for (fst (the (?m fd))) (ev fd)))))"
    using fdwatch_is_map [OF i some_map [symmetric]] by (rule exE)
  note w = conjunct1 [OF w0] conjunct1 [OF conjunct2 [OF w0]] conjunct1 [OF conjunct2 [OF conjunct2 [OF conjunct2 [OF w0]]]]
  note w4 = conjunct2 [OF conjunct2 [OF conjunct2 [OF conjunct2 [OF w0]]]]
  have e: "{fd \<in> dom ?m. has_event (?ev fd)} = {6}"
    by (auto simp: has_event_def POLLOUT_def POLLIN_def POLLERR_def POLLHUP_def POLLNVAL_def split: if_splits)
  have "0 < (1 :: int) \<and> 1 = int (card {fd \<in> dom ?m. has_event (?ev fd)})" unfolding e by simp
  from w4 [rule_format, OF this] obtain w1 fds w2 where d: "fdwatch 1 ?ev w' = (1, w1)" "set fds = {6}"
    "deliveries (nat 1 + 1) w1 = Some (map (\<lambda>fd. Client (snd (the (?m fd)))) fds @ [No_more], w2)" unfolding e by blast
  have m: "map (\<lambda>fd. Client (snd (the (?m fd)))) fds = map (\<lambda>fd. Client (Some 1)) fds" using d(2) by simp
  have two: "nat 1 + 1 = (2 :: nat)" by simp
  have "deliveries 2 w1 = Some (map (\<lambda>fd. Client (Some 1)) fds @ [No_more], w2)" using d(3) unfolding m two .
  moreover have "{(fd, event_for rw) |fd rw. \<exists>d. ?m fd = Some (rw, d)} = {(3, POLLIN), (6, POLLOUT)}"
    by (auto simp: event_for_def FDW_READ_def split: if_splits)
  ultimately have "do_ops some_ops ?w0 = Some w' \<and> watched w' = ?m \<and>
     (\<lambda>p. (pf_fd p, pf_events p)) ` set (asked w') = {(3, POLLIN), (6, POLLOUT)} \<and>
     fdwatch 1 ?ev w' = (1, w1) \<and> set fds = {6} \<and>
     deliveries 2 w1 = Some (map (\<lambda>fd. Client (Some 1)) fds @ [No_more], w2)"
    using w d(1,2) by simp
  then show ?thesis by (intro exI)
qed

end
