(* ===== verification/Th_Conn.thy ===== *)
theory Th_Conn
  imports Th_Throttle Th_Fdwatch
begin

text \<open>
  The connections of thttpd, \<open>src/others/thttpd-2.29/thttpd.c\<close>: the table of connections with its free list, the states of a
  connection, what is done when its descriptor is ready or one of its timers fires, and one round of the main loop. The state
  of the whole server is one record; what the operating system answers during a round is another.
\<close>

section \<open>State\<close>

datatype cnst = CNST_FREE | CNST_READING | CNST_SENDING | CNST_PAUSING | CNST_LINGERING

record conn =
  conn_state :: cnst
  next_free_connect :: int
  the_hc :: "http_conn option"
  the_sb :: file_stat  \<comment> \<open>\<open>hc->sb\<close>\<close>
  tnums :: "nat list"  \<comment> \<open>the first \<open>numtnums\<close> entries\<close>
  max_limit :: int
  min_limit :: int
  started_at :: int
  active_at :: int
  wakeup_timer :: "nat option"
  linger_timer :: "nat option"
  wouldblock_delay :: int
  end_byte_index :: int
  next_byte_index :: int

datatype ending =
    Exited int
  | Messed_up  \<comment> \<open>\<open>exit(1)\<close> with the message that the free list is messed up\<close>
  | Faulted fault  \<comment> \<open>in the processing of a request\<close>
  | Null_timer
  | Div_by_zero
  | Bad_watch  \<comment> \<open>an access outside the arrays of \<open>fdwatch.c\<close>\<close>
  | Bad_timers  \<comment> \<open>a loop of \<open>timers.c\<close> that never ends\<close>
  | Stuck  \<comment> \<open>a loop that never ends or an access outside a table, in the map cache or the start of a request\<close>

record srv =
  connects :: "conn list"  \<comment> \<open>of length \<open>max_connects\<close>\<close>
  num_connects :: int
  first_free_connect :: int
  httpd_conn_count :: int
  throttles :: "throttle list"
  the_world :: world
  fds :: "nat fdwatch"  \<comment> \<open>the client data are indices of \<open>connects\<close>\<close>
  stats_connections :: int
  stats_bytes :: int
  stats_simultaneous :: int
  watchdog_flag :: bool
  got_usr1 :: bool
  terminate :: bool
  listen4_fd :: int
  listen6_fd :: int
  wire :: "nat \<Rightarrow> string"  \<comment> \<open>what has been written to the socket of each connection\<close>
  ended :: "ending option"

datatype read_answer = Read string | Read_again | Read_error
datatype write_answer = Wrote nat | Write_intr | Write_again | Write_error

record env =
  sys :: web
  tv :: timeval
  timer_memory :: "tmr \<Rightarrow> nat option"  \<comment> \<open>\<open>malloc\<close> of a timer\<close>
  conn_memory :: "http_conn option"  \<comment> \<open>\<open>malloc\<close> of a connection\<close>
  mapped :: "nat \<Rightarrow> string"  \<comment> \<open>the bytes at the address of a map\<close>
  kill_ok :: "nat \<Rightarrow> bool"
  reads :: "nat \<Rightarrow> read_answer"  \<comment> \<open>of the connection\<close>
  writes :: "nat \<Rightarrow> write_answer"
  accepts4 :: "accepted list"
  accepts6 :: "accepted list"
  poll_result :: int
  poll_retry :: bool  \<comment> \<open>the error is \<open>EINTR\<close> or \<open>EAGAIN\<close>\<close>
  poll_revents :: "int \<Rightarrow> 16 word"

definition IDLE_READ_TIMELIMIT :: int where "IDLE_READ_TIMELIMIT = 60"
definition IDLE_SEND_TIMELIMIT :: int where "IDLE_SEND_TIMELIMIT = 300"
definition LINGER_TIME :: int where "LINGER_TIME = 500"
definition MIN_WOULDBLOCK_DELAY :: int where "MIN_WOULDBLOCK_DELAY = 100"

definition stop :: "ending \<Rightarrow> srv \<Rightarrow> srv" where
  "stop x s = s\<lparr>ended := Some x\<rparr>"

definition next_do :: "(srv \<Rightarrow> srv) \<Rightarrow> srv \<Rightarrow> srv" where
  \<comment> \<open>the next statement, unless the program has ended\<close>
  "next_do f s = (if ended s = None then f s else s)"

definition set_conn :: "nat \<Rightarrow> (conn \<Rightarrow> conn) \<Rightarrow> srv \<Rightarrow> srv" where
  "set_conn i f s = s\<lparr>connects := (connects s)[i := f (connects s ! i)]\<rparr>"

definition conn_hc :: "srv \<Rightarrow> nat \<Rightarrow> http_conn" where
  "conn_hc s i = the (the_hc (connects s ! i))"

definition set_hc :: "nat \<Rightarrow> http_conn \<Rightarrow> srv \<Rightarrow> srv" where
  "set_hc i h = set_conn i (\<lambda>c. c\<lparr>the_hc := Some h\<rparr>)"

definition set_tmr :: "tmr \<Rightarrow> srv \<Rightarrow> srv" where
  "set_tmr t s = s\<lparr>the_world := (the_world s)\<lparr>w_tmr := t\<rparr>\<rparr>"

abbreviation tmr_of :: "srv \<Rightarrow> tmr" where
  "tmr_of s \<equiv> w_tmr (the_world s)"

definition add_fd :: "int \<Rightarrow> nat \<Rightarrow> int \<Rightarrow> srv \<Rightarrow> srv" where
  "add_fd fd i rw s =
     (case fdwatch_add_fd fd (Some i) rw (fds s) of None \<Rightarrow> stop Bad_watch s | Some w \<Rightarrow> s\<lparr>fds := w\<rparr>)"

definition del_fd :: "int \<Rightarrow> srv \<Rightarrow> srv" where
  "del_fd fd s =
     (case fdwatch_del_fd fd (fds s) of None \<Rightarrow> stop Bad_watch s | Some w \<Rightarrow> s\<lparr>fds := w\<rparr>)"

definition start_timer :: "env \<Rightarrow> timeval \<Rightarrow> proc_kind \<Rightarrow> nat \<Rightarrow> int \<Rightarrow> (nat \<Rightarrow> conn \<Rightarrow> conn) \<Rightarrow> srv \<Rightarrow> srv" where
  \<comment> \<open>a timer of connection \<open>i\<close>, stored in a field of it\<close>
  "start_timer e nowP p i ms store s =
     (case tmr_create (timer_memory e (tmr_of s)) nowP (proc_id p) i ms False (tmr_of s) of
        None \<Rightarrow> stop Bad_timers s
      | Some (None, t) \<Rightarrow> stop (Exited 1) (set_tmr t s)
      | Some (Some a, t) \<Rightarrow> set_conn i (store a) (set_tmr t s))"

section \<open>Closing\<close>

definition httpd_close_conn :: "env \<Rightarrow> nat \<Rightarrow> timeval \<Rightarrow> srv \<Rightarrow> srv" where
  "httpd_close_conn e i nowP s =
     (let h = conn_hc s i
      in case file_address h of
           None \<Rightarrow> set_hc i (if 0 \<le> conn_fd h then h\<lparr>conn_fd := -1\<rparr> else h) s
         | Some a \<Rightarrow>
             (case mmc_unmap a (Some (st_data (the_sb (connects s ! i)))) (tv_sec nowP) (w_mmc (the_world s)) of
                None \<Rightarrow> stop Stuck s
              | Some m \<Rightarrow>
                  set_hc i (if 0 \<le> conn_fd h then h\<lparr>file_address := None, conn_fd := -1\<rparr> else h\<lparr>file_address := None\<rparr>)
                    (s\<lparr>the_world := (the_world s)\<lparr>w_mmc := m\<rparr>\<rparr>)))"

definition free_slot :: "nat \<Rightarrow> srv \<Rightarrow> srv" where
  \<comment> \<open>the end of \<open>really_clear_connection\<close>\<close>
  "free_slot i s =
     (set_conn i (\<lambda>c. c\<lparr>conn_state := CNST_FREE, next_free_connect := first_free_connect s\<rparr>) s)
       \<lparr>first_free_connect := int i, num_connects := num_connects s - 1\<rparr>"

definition drop_linger :: "nat \<Rightarrow> srv \<Rightarrow> srv" where
  \<comment> \<open>cancel the linger timer if there is one\<close>
  "drop_linger i s =
     (case linger_timer (connects s ! i) of
        None \<Rightarrow> s
      | Some t \<Rightarrow> set_conn i (\<lambda>c. c\<lparr>linger_timer := None\<rparr>) (set_tmr (tmr_cancel t (tmr_of s)) s))"

definition really_clear_connection :: "env \<Rightarrow> timeval \<Rightarrow> nat \<Rightarrow> srv \<Rightarrow> srv" where
  "really_clear_connection e nowP i s =
     (let s = s\<lparr>stats_bytes := stats_bytes s + bytes_sent (conn_hc s i)\<rparr>;
          s = (if conn_state (connects s ! i) \<noteq> CNST_PAUSING then del_fd (conn_fd (conn_hc s i)) s else s);
          s = next_do (httpd_close_conn e i nowP) s
      in next_do (\<lambda>s. free_slot i (drop_linger i
           (s\<lparr>throttles := clear_throttles (tnums (connects s ! i)) (throttles s)\<rparr>))) s)"

definition stop_wakeup :: "nat \<Rightarrow> srv \<Rightarrow> srv" where
  "stop_wakeup i s =
     (case wakeup_timer (connects s ! i) of
        None \<Rightarrow> s
      | Some t \<Rightarrow> set_conn i (\<lambda>c. c\<lparr>wakeup_timer := None\<rparr>) (set_tmr (tmr_cancel t (tmr_of s)) s))"

definition stop_linger :: "nat \<Rightarrow> srv \<Rightarrow> srv" where
  \<comment> \<open>if the connection was lingering already\<close>
  "stop_linger i s =
     (if conn_state (connects s ! i) = CNST_LINGERING
      then (case linger_timer (connects s ! i) of
              None \<Rightarrow> stop Null_timer s
            | Some t \<Rightarrow>
                set_hc i ((conn_hc s i)\<lparr>should_linger := False\<rparr>)
                  (set_conn i (\<lambda>c. c\<lparr>linger_timer := None\<rparr>) (set_tmr (tmr_cancel t (tmr_of s)) s)))
      else s)"

definition start_linger :: "env \<Rightarrow> timeval \<Rightarrow> nat \<Rightarrow> srv \<Rightarrow> srv" where
  "start_linger e nowP i s =
     (let fd = conn_fd (conn_hc s i);
          s = (if conn_state (connects s ! i) \<noteq> CNST_PAUSING then del_fd fd s else s);
          s = next_do (\<lambda>s. add_fd fd i FDW_READ (set_conn i (\<lambda>c. c\<lparr>conn_state := CNST_LINGERING\<rparr>) s)) s
      in next_do (start_timer e nowP Linger_clear i LINGER_TIME (\<lambda>a c. c\<lparr>linger_timer := Some a\<rparr>)) s)"

definition clear_connection :: "env \<Rightarrow> timeval \<Rightarrow> nat \<Rightarrow> srv \<Rightarrow> srv" where
  "clear_connection e nowP i s =
     next_do (\<lambda>s. if should_linger (conn_hc s i) then start_linger e nowP i s else really_clear_connection e nowP i s)
       (stop_linger i (stop_wakeup i s))"

definition finish_connection :: "env \<Rightarrow> timeval \<Rightarrow> nat \<Rightarrow> srv \<Rightarrow> srv" where
  "finish_connection e nowP i s =
     (case httpd_write_response (conn_hc s i) of
        (out, h) \<Rightarrow> clear_connection e nowP i (set_hc i h (s\<lparr>wire := (wire s)(i := wire s i @ out)\<rparr>)))"

section \<open>New connections\<close>

definition accept_conn :: "env \<Rightarrow> nat \<Rightarrow> http_conn \<Rightarrow> srv \<Rightarrow> srv" where
  \<comment> \<open>the end of the loop of \<open>handle_newconnect\<close>\<close>
  "accept_conn e i h s =
     (let s = set_conn i (\<lambda>c. c\<lparr>conn_state := CNST_READING, next_free_connect := -1, the_hc := Some h,
                  active_at := tv_sec (tv e), wakeup_timer := None, linger_timer := None, next_byte_index := 0, tnums := []\<rparr>)
                (s\<lparr>first_free_connect := next_free_connect (connects s ! i), num_connects := num_connects s + 1\<rparr>)
      in next_do (\<lambda>s. s\<lparr>stats_connections := stats_connections s + 1,
             stats_simultaneous := (if stats_simultaneous s < num_connects s then num_connects s else stats_simultaneous s)\<rparr>)
           (add_fd (conn_fd h) i FDW_READ (s\<lparr>wire := (wire s)(i := [])\<rparr>)))"

definition slot_hc :: "env \<Rightarrow> nat \<Rightarrow> srv \<Rightarrow> srv" where
  \<comment> \<open>make the \<open>httpd_conn\<close> if necessary\<close>
  "slot_hc e i s =
     (case the_hc (connects s ! i) of
        Some h \<Rightarrow> s
      | None \<Rightarrow>
          (case conn_memory e of
             None \<Rightarrow> stop (Exited 1) s
           | Some h \<Rightarrow> set_hc i (h\<lparr>initialized := False\<rparr>) (s\<lparr>httpd_conn_count := httpd_conn_count s + 1\<rparr>)))"

fun newconnect_loop :: "env \<Rightarrow> accepted list \<Rightarrow> srv \<Rightarrow> bool \<times> srv" where
  \<comment> \<open>the answers of \<open>accept\<close>, after which nobody waits; the Boolean tells whether to run the timers and \<open>return 0\<close>\<close>
  "newconnect_loop e as s =
     (if int (length (connects s)) \<le> num_connects s then (True, s)
      else (let i = nat (first_free_connect s)
            in if first_free_connect s = -1 \<or> conn_state (connects s ! i) \<noteq> CNST_FREE then (True, stop Messed_up s)
               else (let s = slot_hc e i s
                     in if ended s \<noteq> None then (True, s)
                        else (case as of
                                [] \<Rightarrow> (False, set_hc i (snd (httpd_get_conn Would_block (conn_hc s i))) s)
                              | a # as1 \<Rightarrow>
                                  (case httpd_get_conn a (conn_hc s i) of
                                     (GC_FAIL, h) \<Rightarrow> (True, set_hc i h s)
                                   | (GC_NO_MORE, h) \<Rightarrow> (False, set_hc i h s)
                                   | (GC_OK, h) \<Rightarrow>
                                       (let s = accept_conn e i h s
                                        in if ended s \<noteq> None then (True, s) else newconnect_loop e as1 s))))))"

declare newconnect_loop.simps [simp del]

section \<open>Reading\<close>

definition refusal_page :: "web \<Rightarrow> int \<Rightarrow> nat \<Rightarrow> string \<Rightarrow> http_conn \<Rightarrow> http_conn" where
  \<comment> \<open>the \<open>httpd_send_err\<close> of \<open>httpd_parse_request\<close> for a status\<close>
  "refusal_page v mt st a h =
     (if st = 400 then httpd_send_err (page_site v) mt h 400 err400title [] err400form a
      else if st = 501 then httpd_send_err (page_site v) mt h 501 err501title [] err501form a
      else if st = 403
      then httpd_send_err (page_site v) mt h 403 err403title []
             (err403 ''resolves to a file outside the permitted web server directory tree.'') a
      else httpd_send_err (page_site v) mt h 500 err500title [] err500form a)"

definition send_and_finish :: "env \<Rightarrow> nat \<Rightarrow> nat \<Rightarrow> string \<Rightarrow> string \<Rightarrow> string \<Rightarrow> srv \<Rightarrow> srv" where
  \<comment> \<open>an error page and \<open>finish_connection\<close>\<close>
  "send_and_finish e i st title form a s =
     finish_connection e (tv e) i
       (set_hc i (httpd_send_err (page_site (sys e)) (st_mtime (the_sb (connects s ! i))) (conn_hc s i) st title [] form a) s)"

definition bad_request_end :: "env \<Rightarrow> nat \<Rightarrow> srv \<Rightarrow> srv" where
  "bad_request_end e i s = send_and_finish e i 400 err400title err400form [] s"

definition begin_send :: "env \<Rightarrow> nat \<Rightarrow> srv \<Rightarrow> srv" where
  \<comment> \<open>from \<open>end_byte_index\<close> on\<close>
  "begin_send e i s =
     (let h = conn_hc s i;
          s = set_conn i (\<lambda>c. if got_range h
                then c\<lparr>next_byte_index := first_byte_index h, end_byte_index := last_byte_index h + 1\<rparr>
                else c\<lparr>end_byte_index := (if bytes_to_send h < 0 then 0 else bytes_to_send h)\<rparr>) s;
          c = connects s ! i
      in if file_address h = None
         then finish_connection e (tv e) i (set_conn i (\<lambda>c. c\<lparr>next_byte_index := bytes_sent h\<rparr>)
                (s\<lparr>throttles := add_bytes (tnums c) (bytes_sent h) (throttles s)\<rparr>))
         else if end_byte_index c \<le> next_byte_index c then finish_connection e (tv e) i s
         else next_do (add_fd (conn_fd h) i FDW_WRITE)
                (del_fd (conn_fd h)
                  (set_conn i (\<lambda>c. c\<lparr>conn_state := CNST_SENDING, started_at := tv_sec (tv e), wouldblock_delay := 0\<rparr>) s)))"

definition start_request :: "env \<Rightarrow> nat \<Rightarrow> srv \<Rightarrow> srv" where
  \<comment> \<open>\<open>httpd_start_request\<close> and its failure; \<open>gettimeofday\<close> answers the time of the round\<close>
  "start_request e i s =
     (case httpd_start_request ((sys e)\<lparr>timer_room := timer_memory e (tmr_of s), time_of_day := tv e\<rparr>)
             (conn_hc s i) (the_sb (connects s ! i)) (the_world s) of
        Start_crash f \<Rightarrow> stop (Faulted f) s
      | Start_exit \<Rightarrow> stop (Exited 1) s
      | Start_stuck \<Rightarrow> stop Stuck s
      | Started r h sb w \<Rightarrow>
          (let s = set_hc i h (set_conn i (\<lambda>c. c\<lparr>the_sb := sb\<rparr>) (s\<lparr>the_world := w\<rparr>))
           in if r < 0 then finish_connection e (tv e) i s else begin_send e i s))"

definition admit :: "env \<Rightarrow> nat \<Rightarrow> srv \<Rightarrow> srv" where
  \<comment> \<open>from \<open>check_throttles\<close> on\<close>
  "admit e i s =
     (case check_throttles (str (expnfilename (conn_hc s i))) (throttles s) of
        (ok, tab, nums, mx, mn) \<Rightarrow>
          (let s = set_conn i (\<lambda>c. c\<lparr>tnums := nums, max_limit := mx, min_limit := mn\<rparr>) (s\<lparr>throttles := tab\<rparr>)
           in if ok then start_request e i s
              else send_and_finish e i 503 err503title err503form (encodedurl (conn_hc s i)) s))"

definition got_request :: "env \<Rightarrow> nat \<Rightarrow> srv \<Rightarrow> srv" where
  \<comment> \<open>from \<open>httpd_parse_request\<close> on\<close>
  "got_request e i s =
     (case httpd_parse_request (http (sys e)) (conn_hc s i) of
        Crash f \<Rightarrow> stop (Faulted f) s
      | Refused st a h \<Rightarrow>
          finish_connection e (tv e) i (set_hc i (refusal_page (sys e) (st_mtime (the_sb (connects s ! i))) st a h) s)
      | Done h \<Rightarrow> admit e i (set_hc i h s))"

definition got_bytes :: "env \<Rightarrow> nat \<Rightarrow> string \<Rightarrow> srv \<Rightarrow> srv" where
  \<comment> \<open>these bytes have been read\<close>
  "got_bytes e i bs s =
     (let h = conn_hc s i;
          h = h\<lparr>read_buf := take (read_idx h) (read_buf h) @ bs, read_idx := read_idx h + length bs\<rparr>
      in case httpd_got_request (read_buf h) (read_idx h) (checked_idx h) (checked_state h) of
           (r, k, st) \<Rightarrow>
             (let s = set_hc i (h\<lparr>checked_idx := k, checked_state := st\<rparr>)
                        (set_conn i (\<lambda>c. c\<lparr>active_at := tv_sec (tv e)\<rparr>) s)
              in case r of
                   GR_NO_REQUEST \<Rightarrow> s
                 | GR_BAD_REQUEST \<Rightarrow> bad_request_end e i s
                 | GR_GOT_REQUEST \<Rightarrow> got_request e i s))"

definition read_more :: "env \<Rightarrow> nat \<Rightarrow> srv \<Rightarrow> srv" where
  \<comment> \<open>from \<open>read\<close> on\<close>
  "read_more e i s =
     (case reads e i of
        Read_again \<Rightarrow> s
      | Read_error \<Rightarrow> bad_request_end e i s
      | Read bs \<Rightarrow>
          (let b = take (read_size (conn_hc s i) - read_idx (conn_hc s i)) bs
           in if b = [] then bad_request_end e i s else got_bytes e i b s))"

definition handle_read :: "env \<Rightarrow> nat \<Rightarrow> srv \<Rightarrow> srv" where
  "handle_read e i s =
     (let h = conn_hc s i
      in if read_size h \<le> read_idx h
         then (if 5000 < read_size h then bad_request_end e i s
               else read_more e i (set_hc i (h\<lparr>read_size :=
                      maxsize (httpd_realloc_str (read_size h + 1000) \<lparr>str = read_buf h, maxsize = read_size h\<rparr>)\<rparr>) s))
         else read_more e i s)"

section \<open>Sending\<close>

definition pause :: "env \<Rightarrow> nat \<Rightarrow> int \<Rightarrow> srv \<Rightarrow> srv" where
  \<comment> \<open>stop sending for some milliseconds\<close>
  "pause e i ms s =
     next_do (start_timer e (tv e) Wakeup i ms (\<lambda>a c. c\<lparr>wakeup_timer := Some a\<rparr>))
       (del_fd (conn_fd (conn_hc s i)) (set_conn i (\<lambda>c. c\<lparr>conn_state := CNST_PAUSING\<rparr>) s))"

definition send_blocked :: "env \<Rightarrow> nat \<Rightarrow> srv \<Rightarrow> srv" where
  "send_blocked e i s =
     (let d = wouldblock_delay (connects s ! i) + MIN_WOULDBLOCK_DELAY
      in pause e i d (set_conn i (\<lambda>c. c\<lparr>wouldblock_delay := d\<rparr>) s))"

definition max_bytes :: "conn \<Rightarrow> int" where
  \<comment> \<open>a \<open>size_t\<close>\<close>
  "max_bytes c = (if max_limit c = THROTTLE_NOLIMIT then 1000000000 else (max_limit c sdiv 4) mod 2 ^ 64)"

definition send_size :: "conn \<Rightarrow> nat" where
  "send_size c = nat (min ((end_byte_index c - next_byte_index c) mod 2 ^ 64) (max_bytes c))"

definition to_write :: "env \<Rightarrow> conn \<Rightarrow> http_conn \<Rightarrow> string" where
  \<comment> \<open>the rest of the response and the next part of the file\<close>
  "to_write e c h =
     pending h @ take (send_size c) (drop (nat (next_byte_index c)) (mapped e (the (file_address h))))"

definition throttle_send :: "env \<Rightarrow> nat \<Rightarrow> srv \<Rightarrow> srv" where
  \<comment> \<open>the end of \<open>handle_send\<close>\<close>
  "throttle_send e i s =
     (let c = connects s ! i; h = conn_hc s i;
          elapsed = (if tv_sec (tv e) - started_at c = 0 then 1 else tv_sec (tv e) - started_at c)
      in if max_limit c \<noteq> THROTTLE_NOLIMIT \<and> max_limit c < bytes_sent h sdiv elapsed
         then (if max_limit c = 0 then stop Div_by_zero s
               else (let coast = signed_take_bit 31 (bytes_sent h sdiv max_limit c - elapsed)
                     in pause e i (if 0 < coast then coast * 1000 else 500) s))
         else s)"

definition advance :: "nat \<Rightarrow> http_conn \<Rightarrow> http_conn \<times> nat" where
  \<comment> \<open>the response after so many bytes, and how many bytes of the file were among them\<close>
  "advance n h =
     (if responselen h = 0 then (h, n)
      else if n < responselen h
      then (h\<lparr>response := (response h)\<lparr>str := take (responselen h - n) (drop n (str (response h))) @
              drop (responselen h - n) (str (response h))\<rparr>, responselen := responselen h - n\<rparr>, 0)
      else (h\<lparr>responselen := 0\<rparr>, n - responselen h))"

definition advanced :: "env \<Rightarrow> nat \<Rightarrow> nat \<Rightarrow> srv \<Rightarrow> srv" where
  "advanced e i n s =
     (let c = connects s ! i; h = conn_hc s i; sz = snd (advance n h)
      in set_conn i (\<lambda>c. c\<lparr>active_at := tv_sec (tv e), next_byte_index := next_byte_index c + int sz\<rparr>)
           (set_hc i ((fst (advance n h))\<lparr>bytes_sent := bytes_sent h + int sz\<rparr>)
             (s\<lparr>throttles := add_bytes (tnums c) (int sz) (throttles s),
                wire := (wire s)(i := wire s i @ take n (to_write e c h))\<rparr>)))"

definition written :: "env \<Rightarrow> nat \<Rightarrow> nat \<Rightarrow> srv \<Rightarrow> srv" where
  \<comment> \<open>so many bytes have been written\<close>
  "written e i n s =
     (let s = advanced e i n s
      in if end_byte_index (connects s ! i) \<le> next_byte_index (connects s ! i) then finish_connection e (tv e) i s
         else throttle_send e i (set_conn i (\<lambda>c. if MIN_WOULDBLOCK_DELAY < wouldblock_delay c
                then c\<lparr>wouldblock_delay := wouldblock_delay c - MIN_WOULDBLOCK_DELAY\<rparr> else c) s))"

definition handle_send :: "env \<Rightarrow> nat \<Rightarrow> srv \<Rightarrow> srv" where
  \<comment> \<open>the kernel writes no more than it is given\<close>
  "handle_send e i s =
     (case writes e i of
        Write_intr \<Rightarrow> s
      | Write_again \<Rightarrow> send_blocked e i s
      | Write_error \<Rightarrow> clear_connection e (tv e) i s
      | Wrote n \<Rightarrow>
          (let n = min n (responselen (conn_hc s i) + send_size (connects s ! i))
           in if n = 0 then send_blocked e i s else written e i n s))"

definition handle_linger :: "env \<Rightarrow> nat \<Rightarrow> srv \<Rightarrow> srv" where
  "handle_linger e i s =
     (case reads e i of
        Read_again \<Rightarrow> s
      | Read_error \<Rightarrow> really_clear_connection e (tv e) i s
      | Read bs \<Rightarrow> if bs = [] then really_clear_connection e (tv e) i s else s)"

section \<open>The timer procedures\<close>

definition idle_one :: "env \<Rightarrow> timeval \<Rightarrow> nat \<Rightarrow> srv \<Rightarrow> srv" where
  "idle_one e nowP i s =
     (let c = connects s ! i
      in case conn_state c of
           CNST_READING \<Rightarrow>
             if IDLE_READ_TIMELIMIT \<le> tv_sec nowP - active_at c
             then finish_connection e nowP i
                    (set_hc i (httpd_send_err (page_site (sys e)) (st_mtime (the_sb c)) (conn_hc s i) 408 err408title [] err408form []) s)
             else s
         | CNST_SENDING \<Rightarrow> if IDLE_SEND_TIMELIMIT \<le> tv_sec nowP - active_at c then clear_connection e nowP i s else s
         | CNST_PAUSING \<Rightarrow> if IDLE_SEND_TIMELIMIT \<le> tv_sec nowP - active_at c then clear_connection e nowP i s else s
         | _ \<Rightarrow> s)"

definition idle :: "env \<Rightarrow> timeval \<Rightarrow> srv \<Rightarrow> srv" where
  "idle e nowP s = fold (\<lambda>i. next_do (idle_one e nowP i)) [0 ..< length (connects s)] s"

definition wakeup_connection :: "nat \<Rightarrow> srv \<Rightarrow> srv" where
  "wakeup_connection i s =
     (let s = set_conn i (\<lambda>c. c\<lparr>wakeup_timer := None\<rparr>) s
      in if conn_state (connects s ! i) = CNST_PAUSING
         then add_fd (conn_fd (conn_hc s i)) i FDW_WRITE (set_conn i (\<lambda>c. c\<lparr>conn_state := CNST_SENDING\<rparr>) s)
         else s)"

definition linger_clear_connection :: "env \<Rightarrow> timeval \<Rightarrow> nat \<Rightarrow> srv \<Rightarrow> srv" where
  "linger_clear_connection e nowP i s =
     really_clear_connection e nowP i (set_conn i (\<lambda>c. c\<lparr>linger_timer := None\<rparr>) s)"

definition occasional :: "timeval \<Rightarrow> srv \<Rightarrow> srv" where
  "occasional nowP s =
     (case mmc_cleanup (tv_sec nowP) (w_mmc (the_world s)) of
        None \<Rightarrow> stop Stuck s
      | Some m \<Rightarrow>
          (case tmr_cleanup (tmr_of s) of
             None \<Rightarrow> stop Bad_timers s
           | Some t \<Rightarrow> s\<lparr>the_world := (the_world s)\<lparr>w_mmc := m, w_tmr := t\<rparr>, watchdog_flag := True\<rparr>))"

definition share_one :: "nat \<Rightarrow> srv \<Rightarrow> srv" where
  "share_one i s =
     (let c = connects s ! i
      in if conn_state c = CNST_SENDING \<or> conn_state c = CNST_PAUSING
         then (case share (throttles s) (tnums c) THROTTLE_NOLIMIT of
                 None \<Rightarrow> stop Div_by_zero s
               | Some m \<Rightarrow> set_conn i (\<lambda>c. c\<lparr>max_limit := m\<rparr>) s)
         else s)"

definition update_throttles :: "srv \<Rightarrow> srv" where
  "update_throttles s =
     fold (\<lambda>i. next_do (share_one i)) [0 ..< length (connects s)] (s\<lparr>throttles := map new_average (throttles s)\<rparr>)"

definition cgi_kill :: "env \<Rightarrow> timeval \<Rightarrow> nat \<Rightarrow> srv \<Rightarrow> srv" where
  \<comment> \<open>the number is the process id\<close>
  "cgi_kill e nowP pid s =
     (if kill_ok e pid
      then (case tmr_create (timer_memory e (tmr_of s)) nowP (proc_id Cgi_kill2) pid 5000 False (tmr_of s) of
              None \<Rightarrow> stop Bad_timers s
            | Some (None, t) \<Rightarrow> stop (Exited 1) (set_tmr t s)
            | Some (Some a, t) \<Rightarrow> set_tmr t s)
      else s)"

definition show_stats :: "srv \<Rightarrow> srv" where
  \<comment> \<open>the counters that \<open>thttpd_logstats\<close> clears\<close>
  "show_stats s = s\<lparr>stats_connections := 0, stats_bytes := 0, stats_simultaneous := 0\<rparr>"

definition run_proc :: "env \<Rightarrow> nat \<Rightarrow> nat \<Rightarrow> timeval \<Rightarrow> srv \<Rightarrow> srv" where
  \<comment> \<open>the call through \<open>timer_proc\<close> with the client data; the hard kill changes nothing here\<close>
  "run_proc e p cd nowP s =
     (if p = proc_id Wakeup then wakeup_connection cd s
      else if p = proc_id Linger_clear then linger_clear_connection e nowP cd s
      else if p = proc_id Idle then idle e nowP s
      else if p = proc_id Occasional then occasional nowP s
      else if p = proc_id Update_throttles then update_throttles s
      else if p = proc_id Cgi_kill then cgi_kill e nowP cd s
      else if p = proc_id Show_stats then show_stats s
      else s)"

definition procs :: "env \<Rightarrow> nat \<Rightarrow> nat \<Rightarrow> timeval \<Rightarrow> tmr \<times> srv \<Rightarrow> tmr \<times> srv" where
  \<comment> \<open>the same for \<open>tmr_run\<close>, which works on the timers and the rest\<close>
  "procs e p cd nowP st =
     (let s = next_do (run_proc e p cd nowP) (set_tmr (fst st) (snd st)) in (tmr_of s, s))"

definition run_timers :: "env \<Rightarrow> srv \<Rightarrow> srv" where
  "run_timers e s =
     (case tmr_run (procs e) (tv e) (tmr_of s, s) of None \<Rightarrow> stop Bad_timers s | Some (t, s1) \<Rightarrow> set_tmr t s1)"

section \<open>A round of the main loop\<close>

definition handle_newconnect :: "env \<Rightarrow> accepted list \<Rightarrow> srv \<Rightarrow> bool \<times> srv" where
  "handle_newconnect e as s =
     (case newconnect_loop e as s of
        (True, s1) \<Rightarrow> (False, next_do (run_timers e) s1)
      | (False, s1) \<Rightarrow> (True, s1))"

definition service :: "env \<Rightarrow> nat \<Rightarrow> srv \<Rightarrow> srv" where
  \<comment> \<open>a connection that the watch has returned\<close>
  "service e i s =
     (case fdwatch_check_fd (conn_fd (conn_hc s i)) (fds s) of
        None \<Rightarrow> stop Bad_watch s
      | Some ok \<Rightarrow>
          if \<not> ok then clear_connection e (tv e) i s
          else (case conn_state (connects s ! i) of
                  CNST_READING \<Rightarrow> handle_read e i s
                | CNST_SENDING \<Rightarrow> handle_send e i s
                | CNST_LINGERING \<Rightarrow> handle_linger e i s
                | _ \<Rightarrow> s))"

fun service_loop :: "nat \<Rightarrow> env \<Rightarrow> srv \<Rightarrow> srv" where
  \<comment> \<open>the loop over \<open>fdwatch_get_next_client_data\<close>; the number bounds its length\<close>
  "service_loop 0 e s = s"
| "service_loop (Suc n) e s =
     (if ended s \<noteq> None then s
      else (case fdwatch_get_next_client_data (fds s) of
              None \<Rightarrow> stop Bad_watch s
            | Some (No_more, w) \<Rightarrow> s\<lparr>fds := w\<rparr>
            | Some (Client None, w) \<Rightarrow> service_loop n e (s\<lparr>fds := w\<rparr>)
            | Some (Client (Some i), w) \<Rightarrow> service_loop n e (service e i (s\<lparr>fds := w\<rparr>))))"

definition listener_ready :: "int \<Rightarrow> srv \<Rightarrow> bool" where
  "listener_ready fd s \<longleftrightarrow> fd \<noteq> -1 \<and> fdwatch_check_fd fd (fds s) = Some True"

definition unlisten :: "srv \<Rightarrow> srv" where
  "unlisten s =
     (let s1 = (if listen4_fd s \<noteq> -1 then del_fd (listen4_fd s) s else s);
          s2 = (if listen6_fd s \<noteq> -1 then next_do (del_fd (listen6_fd s)) s1 else s1)
      in s2\<lparr>listen4_fd := -1, listen6_fd := -1\<rparr>)"

definition main_round :: "env \<Rightarrow> srv \<Rightarrow> srv" where
  "main_round e s =
     (case fdwatch (poll_result e) (poll_revents e) (fds s) of
        (r, w) \<Rightarrow>
          (let s = s\<lparr>fds := w\<rparr>
           in if r < 0 then (if poll_retry e then s else stop (Exited 1) s)
              else if r = 0 then run_timers e s
              else (case (if listener_ready (listen6_fd s) s then handle_newconnect e (accepts6 e) s else (False, s)) of
                      (again6, s6) \<Rightarrow>
                        if again6 \<or> ended s6 \<noteq> None then s6
                        else (case (if listener_ready (listen4_fd s6) s6 then handle_newconnect e (accepts4 e) s6 else (False, s6)) of
                                (again4, s4) \<Rightarrow>
                                  if again4 \<or> ended s4 \<noteq> None then s4
                                  else next_do (\<lambda>s. if got_usr1 s \<and> \<not> terminate s then unlisten (s\<lparr>terminate := True\<rparr>) else s)
                                         (next_do (run_timers e) (service_loop (nat r + 1) e s4))))))"

fun main_rounds :: "env list \<Rightarrow> srv \<Rightarrow> srv" where
  \<comment> \<open>a round for each answer of the system, as long as the loop goes on\<close>
  "main_rounds [] s = s"
| "main_rounds (e # es) s =
     (if ended s = None \<and> (\<not> terminate s \<or> 0 < num_connects s) then main_rounds es (main_round e s) else s)"

section \<open>The start\<close>

definition start_connects :: "(nat \<Rightarrow> conn) \<Rightarrow> nat \<Rightarrow> conn list" where
  \<comment> \<open>the first argument: what the memory holds\<close>
  "start_connects mem n =
     map (\<lambda>i. (mem i)\<lparr>conn_state := CNST_FREE, next_free_connect := (if i = n - 1 then -1 else int i + 1), the_hc := None\<rparr>)
       [0 ..< n]"

definition listen_fd :: "int \<Rightarrow> srv \<Rightarrow> srv" where
  "listen_fd fd s =
     (if fd = -1 then s
      else (case fdwatch_add_fd fd None FDW_READ (fds s) of None \<Rightarrow> stop Bad_watch s | Some w \<Rightarrow> s\<lparr>fds := w\<rparr>))"

definition start_table :: "(nat \<Rightarrow> conn) \<Rightarrow> nat \<Rightarrow> srv \<Rightarrow> srv" where
  \<comment> \<open>from the allocation of the table to the main loop\<close>
  "start_table mem n s =
     (let s = s\<lparr>connects := start_connects mem n, first_free_connect := 0, num_connects := 0, httpd_conn_count := 0\<rparr>
      in next_do (listen_fd (listen6_fd s)) (listen_fd (listen4_fd s) s))"

section \<open>Signals and the end\<close>

definition handle_chld :: "nat \<Rightarrow> srv \<Rightarrow> srv" where
  \<comment> \<open>so many children are reaped\<close>
  "handle_chld n s =
     ((\<lambda>s. s\<lparr>the_world := (the_world s)\<lparr>cgi_count := max 0 (cgi_count (the_world s) - 1)\<rparr>\<rparr>) ^^ n) s"

definition close_slot :: "env \<Rightarrow> nat \<Rightarrow> srv \<Rightarrow> srv" where
  "close_slot e i s =
     (let s = (if conn_state (connects s ! i) \<noteq> CNST_FREE then httpd_close_conn e i (tv e) s else s)
      in next_do (\<lambda>s. if the_hc (connects s ! i) \<noteq> None
           then (set_conn i (\<lambda>c. c\<lparr>the_hc := None\<rparr>) s)\<lparr>httpd_conn_count := httpd_conn_count s - 1\<rparr> else s) s)"

definition shut_down :: "env \<Rightarrow> srv \<Rightarrow> srv" where
  "shut_down e s =
     (let s = fold (\<lambda>i. next_do (close_slot e i)) [0 ..< length (connects s)] s;
          s = next_do unlisten s
      in next_do (\<lambda>s. case mmc_term (w_mmc (the_world s)) of
             None \<Rightarrow> stop Stuck s
           | Some m \<Rightarrow>
               (case tmr_term (tmr_of s) of
                  None \<Rightarrow> stop Bad_timers s
                | Some t \<Rightarrow> s\<lparr>the_world := (the_world s)\<lparr>w_mmc := m, w_tmr := t\<rparr>\<rparr>)) s)"

definition handle_usr1 :: "env \<Rightarrow> srv \<Rightarrow> srv" where
  "handle_usr1 e s =
     (if num_connects s = 0 then next_do (stop (Exited 0)) (shut_down e s) else s\<lparr>got_usr1 := True\<rparr>)"

definition handle_term :: "env \<Rightarrow> srv \<Rightarrow> srv" where
  "handle_term e s = next_do (stop (Exited 1)) (shut_down e s)"

end
