(* ===== verification/Th_Frame.thy ===== *)
theory Th_Frame
  imports Th_Conn
begin

text \<open>
  What the connections of thttpd need to know of the layers below: which timers exist after an operation on timers and what
  they belong to, and that neither \<open>httpd_parse_request\<close> nor \<open>httpd_start_request\<close> changes the descriptor of a connection.
\<close>

section \<open>Timers as the server sees them\<close>

lemma add_same_data:
  assumes "l_add t s = Some s'"
  shows "same_data (heap s) (heap s')"
  using assms by (auto simp: l_add_def Let_def same_data_def split: option.splits if_splits prod.splits)

lemma remove_same_data: "same_data (heap s) (heap (l_remove t s))"
  by (auto simp: l_remove_def Let_def same_data_def split: option.splits)

lemma cancel_same_data: "same_data (heap s) (heap (tmr_cancel t s))"
proof -
  have "same_data (heap (l_remove t s)) (heap (tmr_cancel t s))"
    by (simp add: tmr_cancel_def Let_def same_data_def)
  with remove_same_data show ?thesis by (rule same_data_trans)
qed

definition timer_data :: "tmr \<Rightarrow> nat \<Rightarrow> nat \<times> nat \<times> bool" where
  \<comment> \<open>procedure, client data, periodic\<close>
  "timer_data t a = (timer_proc (heap t a), client_data (heap t a), periodic (heap t a))"

lemma same_timer_data: "same_data (heap s) (heap s') \<Longrightarrow> timer_data s' a = timer_data s a"
  using same_dataD by (fastforce simp: timer_data_def)

lemma create_data:
  assumes "tmr_create mem nowP p cd ms per s = Some (Some a, s')"
  shows "timer_data s' b = (if b = a then (p, cd, per) else timer_data s b)"
proof -
  let ?f = "\<lambda>r. r\<lparr>timer_proc := p, client_data := cd, msecs := ms, periodic := per, tm_time := add_msecs nowP ms,
      tm_hash := hash (add_msecs nowP ms)\<rparr>"
  obtain s1 s2 where s1: "heap s1 = heap s" "l_add a (upd a ?f s1) = Some s2" "s' = s2\<lparr>active_count := active_count s2 + 1\<rparr>"
  proof (cases "free_timers s")
    case None
    with assms that [of "s\<lparr>alloc_count := alloc_count s + 1\<rparr>"] show thesis
      by (auto simp: tmr_create_def Let_def split: option.splits)
  next
    case (Some t)
    with assms that [of "s\<lparr>free_timers := tm_next (heap s t), free_count := free_count s - 1\<rparr>"] show thesis
      by (auto simp: tmr_create_def Let_def split: option.splits)
  qed
  from same_timer_data [OF add_same_data [OF s1(2)], of b] s1 show ?thesis by (auto simp: timer_data_def)
qed

lemma repr_create:
  assumes "repr L M s" "\<And>a. mem = Some a \<Longrightarrow> a \<notin> M"
  shows "\<exists>r s'. tmr_create mem nowP p cd ms per s = Some (r, s') \<and>
    (case r of None \<Rightarrow> s' = s | Some a \<Rightarrow> a \<notin> L \<and> repr (insert a L) (insert a M) s')"
proof -
  obtain B F where B: "tmr_ok B F s" "L = addresses B" "M = L \<union> set F" using assms(1) by (auto simp: repr_def)
  have "\<And>a. mem = Some a \<Longrightarrow> a \<notin> addresses B \<union> set F" using assms(2) B by auto
  from create_ok [OF B(1) this, where now = nowP and proc = p and cd = cd and ms = ms and per = per] obtain r s' B' F' where
    c: "tmr_create mem nowP p cd ms per s = Some (r, s')" "tmr_ok B' F' s'"
    "case r of None \<Rightarrow> F = [] \<and> mem = None \<and> s' = s
     | Some t \<Rightarrow> t \<notin> addresses B \<and> addresses B' = insert t (addresses B) \<and>
         set F' = set F - {t} \<and> t \<in> set (B' (hash (add_msecs nowP ms))) \<and>
         tm_time (heap s' t) = add_msecs nowP ms \<and> periodic (heap s' t) = per" by blast
  show ?thesis
  proof (cases r)
    case None
    with c show ?thesis by auto
  next
    case (Some a)
    then have "repr (insert a L) (insert a M) s'" using c(2,3) B unfolding repr_def
      by (intro exI [of _ B'] exI [of _ F']) auto
    with c Some B show ?thesis by auto
  qed
qed

lemma repr_cancel:
  assumes "repr L M s" "a \<in> L"
  shows "repr (L - {a}) M (tmr_cancel a s)"
proof -
  obtain B F where B: "tmr_ok B F s" "L = addresses B" "M = L \<union> set F" using assms(1) by (auto simp: repr_def)
  then obtain h where h: "a \<in> set (B h)" using assms(2) by (auto simp: addresses_def)
  from cancel_ok [OF B(1) h] cancel_addresses [OF B(1) h] B assms(2) show ?thesis unfolding repr_def
    by (intro exI [of _ "B(h := remove1 a (B h))"] exI [of _ "a # F"]) auto
qed

lemma repr_resort:
  assumes "repr L M s" "a \<in> L"
  shows "\<exists>s'. l_resort a (upd a (\<lambda>r. r\<lparr>tm_time := x\<rparr>) s) = Some s' \<and> repr L M s' \<and> (\<forall>b. timer_data s' b = timer_data s b)"
proof -
  obtain B F where B: "tmr_ok B F s" "L = addresses B" "M = L \<union> set F" using assms(1) by (auto simp: repr_def)
  then obtain h where h: "a \<in> set (B h)" using assms(2) by (auto simp: addresses_def)
  let ?s = "upd a (\<lambda>r. r\<lparr>tm_time := x\<rparr>) s"
  obtain s' B' where s': "l_resort a ?s = Some s'" "tmr_ok B' F s'" "addresses B' = addresses B"
    using resort_ok [OF B(1) h, of x] by (auto simp: addresses_def)
  let ?r = "upd a (\<lambda>r. r\<lparr>tm_hash := hash (tm_time r)\<rparr>) (l_remove a ?s)"
  have "l_add a ?r = Some s'" using s'(1) by (simp add: l_resort_def Let_def)
  from same_timer_data [OF add_same_data [OF this]] same_timer_data [OF remove_same_data [of ?s a]]
  have "timer_data s' b = timer_data s b" for b by (simp add: timer_data_def)
  then show ?thesis using s' B unfolding repr_def by auto
qed

lemma cleanup_heap: "tmr_ok B F s \<Longrightarrow> tmr_cleanup s = Some s' \<Longrightarrow> heap s' = heap s"
proof (induction F arbitrary: s)
  case Nil
  then have "free_timers s = None" by (auto simp: tmr_ok_def dest: lists_okD(4))
  with Nil show ?case by (simp add: tmr_cleanup.simps [of s])
next
  case (Cons t F)
  then have l: "lists_ok B (t # F) s" by (simp add: tmr_ok_def)
  note u = lists_unfree [OF l]
  let ?s = "s\<lparr>free_timers := tm_next (heap s t), free_count := free_count s - 1, alloc_count := alloc_count s - 1\<rparr>"
  have "tmr_ok B F ?s" using u(1) Cons.prems by (simp add: tmr_ok_def)
  moreover have "tmr_cleanup ?s = Some s'" using Cons.prems(2) u(2) by (simp add: tmr_cleanup.simps [of s])
  ultimately show ?case using Cons.IH by fastforce
qed

lemma repr_cleanup:
  assumes "repr L M s"
  shows "\<exists>s'. tmr_cleanup s = Some s' \<and> repr L L s' \<and> (\<forall>b. timer_data s' b = timer_data s b)"
proof -
  obtain B F where B: "tmr_ok B F s" "L = addresses B" "M = L \<union> set F" using assms(1) by (auto simp: repr_def)
  from cleanup_ok [OF B(1)] obtain s' where s': "tmr_cleanup s = Some s'" "tmr_ok B [] s'" by blast
  have "timer_data s' b = timer_data s b" for b using cleanup_heap [OF B(1) s'(1)] by (simp add: timer_data_def)
  moreover have "repr L L s'" unfolding repr_def using s' B by (intro exI [of _ B] exI [of _ "[]"]) simp
  ultimately show ?thesis using s' by blast
qed

section \<open>The parser keeps the descriptor and the count of bytes\<close>

abbreviation conn_key :: "http_conn \<Rightarrow> int \<times> int \<times> nat option" where
  "conn_key h \<equiv> (conn_fd h, bytes_sent h, file_address h)"

fun fd_of :: "('a \<Rightarrow> http_conn) \<Rightarrow> int \<times> int \<times> nat option \<Rightarrow> 'a outcome \<Rightarrow> bool" where
  \<comment> \<open>the connection in an outcome has this descriptor, count and map\<close>
  "fd_of g fd (Done x) = (conn_key (g x) = fd)"
| "fd_of g fd (Refused st a h) = (conn_key h = fd)"
| "fd_of g fd (Crash f) = True"

lemma fd_and_then:
  "fd_of g fd m \<Longrightarrow> (\<And>x. conn_key (g x) = fd \<Longrightarrow> fd_of g' fd (f x)) \<Longrightarrow> fd_of g' fd (and_then m f)"
  by (cases m) auto

lemma stored_case: "stored r f = (case r of None \<Rightarrow> Crash Buffer_overflow | Some b \<Rightarrow> Done (f b))"
  by (cases r) auto

lemma fd_bad [simp]: "fd_of g fd (bad_request h) = (conn_key h = fd)"
  by (simp add: bad_request_def)

lemmas fd_simps = Let_def stored_case

lemma fd_split:
  assumes "conn_key h = fd"
  shows "fd_of (\<lambda>(m, u, h). h) fd (split_request l h)"
proof -
  have "conn_key (h\<lparr>mime_flag := a, protocol := b\<rparr>) = fd" "conn_key (h\<lparr>one_one := a, protocol := b\<rparr>) = fd" for a b
    using assms by simp_all
  then show ?thesis
    unfolding split_request_def Let_def using assms by (simp only: fd_of.simps fd_bad prod.case split: if_split) blast
qed

lemma fd_absolute: "conn_key h = fd \<Longrightarrow> fd_of snd fd (absolute_url u h)"
  by (simp add: absolute_url_def fd_simps split: option.split)

lemma fd_method: "conn_key h = fd \<Longrightarrow> fd_of (\<lambda>h. h) fd (set_method m h)"
  by (simp add: set_method_def)

lemma fd_decode: "conn_key h = fd \<Longrightarrow> fd_of (\<lambda>h. h) fd (decode_url u h)"
  unfolding decode_url_def Let_def
  by (rule fd_and_then [where g = "\<lambda>h. h"]) (simp_all add: stored_case split: option.split)

lemma fd_query: "conn_key h = fd \<Longrightarrow> fd_of (\<lambda>h. h) fd (extract_query h)"
  by (simp add: extract_query_def fd_simps split: option.split list.split)

lemma fd_filename: "conn_key h = fd \<Longrightarrow> fd_of (\<lambda>h. h) fd (check_filename h)"
  by (simp add: check_filename_def fd_simps)

lemma fd_request_line:
  assumes "conn_key h = fd"
  shows "fd_of (\<lambda>h. h) fd (parse_request_line l h)"
proof -
  have a: "fd_of (\<lambda>h. h) fd' (and_then (decode_url u h) (\<lambda>h. and_then (extract_query h) check_filename))"
    if "conn_key h = fd'" for u h fd'
    by (rule fd_and_then [OF fd_decode [OF that]], rule fd_and_then [OF fd_query]) (simp_all add: fd_filename)
  show ?thesis
    unfolding parse_request_line_def
  proof (rule fd_and_then [OF fd_split [OF assms]])
    fix x :: "string \<times> string \<times> http_conn" assume "conn_key ((\<lambda>(m, u, h). h) x) = fd"
    moreover obtain m u h1 where "x = (m, u, h1)" by (cases x)
    ultimately show "fd_of (\<lambda>h. h) fd (case x of (m, u, h1) \<Rightarrow> and_then (absolute_url u h1) (\<lambda>(url, hc).
        if url = [] \<or> hd url \<noteq> CHR ''/'' then bad_request hc
        else and_then (set_method m hc) (\<lambda>hc. and_then (decode_url url hc) (\<lambda>hc. and_then (extract_query hc) check_filename))))"
      by (auto intro!: fd_and_then [OF fd_absolute] fd_and_then [OF fd_method] a)
  qed
qed

lemma fd_range [simp]: "conn_key (range_header v h) = conn_key h"
  by (simp add: range_header_def Let_def split: list.split)

lemma fd_host_header: "conn_key h = fd \<Longrightarrow> fd_of (\<lambda>h. h) fd (host_header v h)"
  by (simp add: host_header_def Let_def)

lemma fd_accept: "conn_key h = fd \<Longrightarrow> fd_of (\<lambda>h. h) fd (accept_header v h)"
  by (simp add: accept_header_def fd_simps split: option.split)

lemma fd_accept_encoding: "conn_key h = fd \<Longrightarrow> fd_of (\<lambda>h. h) fd (accept_encoding_header v h)"
  by (simp add: accept_encoding_header_def fd_simps split: option.split)

lemma fd_mime: "conn_key h = fd \<Longrightarrow> fd_of (\<lambda>h. h) fd (mime_header srv l h)"
  by (simp add: mime_header_def fd_host_header fd_accept fd_accept_encoding)

lemma fd_headers: "conn_key h = fd \<Longrightarrow> fd_of (\<lambda>h. h) fd (headers srv buf n i h)"
proof (induction srv buf n i h rule: headers.induct)
  case (1 srv buf n i h)
  obtain s b k where b: "bufgets buf n i = (s, b, k)" by (cases "bufgets buf n i") auto
  let ?h = "h\<lparr>read_buf := b, checked_idx := k\<rparr>"
  show ?case
  proof (cases s)
    case None
    with b 1(2) show ?thesis by (simp add: headers.simps [of srv buf])
  next
    case (Some j)
    let ?l = "cstr (drop j b)"
    have m: "fd_of (\<lambda>h. h) fd (mime_header srv ?l ?h)" using 1(2) by (intro fd_mime) simp
    show ?thesis
    proof (cases "mime_header srv ?l ?h")
      case (Done h2)
      then have "?l \<noteq> [] \<Longrightarrow> fd_of (\<lambda>h. h) fd (headers srv b n k h2)"
        using 1(1) [OF b [symmetric] Some refl refl refl _ Done] Some b m by simp
      with b Some Done 1(2) show ?thesis by (simp add: headers.simps [of srv buf] Let_def)
    qed (use b Some m 1(2) in \<open>simp_all add: headers.simps [of srv buf] Let_def\<close>)
  qed
qed

lemma fd_host: "conn_key h = fd \<Longrightarrow> fd_of (\<lambda>h. h) fd (host_check h)"
  by (simp add: host_check_def)

lemma fd_vhost: "conn_key h = fd \<Longrightarrow> fd_of snd fd (vhost_map srv h)"
  by (auto simp: vhost_map_def fd_simps split: option.split prod.split)

lemma fd_links: "conn_key h = fd \<Longrightarrow> fd_of (\<lambda>h. h) fd (follow_links srv h)"
  by (simp add: follow_links_def fd_simps split: option.split expanded.split)

lemma fd_elide: "conn_key h = fd \<Longrightarrow> fd_of (\<lambda>h. h) fd (elide_cwd srv (strip_pathinfo h))"
  by (simp add: elide_cwd_def strip_pathinfo_def Let_def)

lemma fd_resolve:
  assumes "conn_key h = fd"
  shows "fd_of (\<lambda>h. h) fd (resolve srv h)"
proof -
  have v: "fd_of (\<lambda>h. h) fd (if vhost srv then and_then (vhost_map srv h)
      (\<lambda>(mapped, h). if mapped then Done h else Refused 500 (encodedurl h) h) else Done h)" if "conn_key h = fd" for h
    using that by (auto intro!: fd_and_then [OF fd_vhost])
  have l: "fd_of (\<lambda>h. h) fd (and_then (follow_links srv h) (\<lambda>h. elide_cwd srv (strip_pathinfo h)))" if "conn_key h = fd" for h
    by (rule fd_and_then [OF fd_links [OF that]]) (simp add: fd_elide)
  show ?thesis
    unfolding resolve_def
    by (rule fd_and_then [where g = "\<lambda>h. h" and fd = fd], simp add: assms stored_case split: option.split,
        rule fd_and_then [OF v], simp, rule l) simp
qed

lemma fd_parse:
  assumes "conn_key h = fd"
  shows "fd_of (\<lambda>h. h) fd (httpd_parse_request srv h)"
proof -
  obtain s b k where b: "bufgets (read_buf h) (read_idx h) 0 = (s, b, k)" by (cases "bufgets (read_buf h) (read_idx h) 0") auto
  have m: "fd_of (\<lambda>h. h) fd (if mime_flag h then headers srv (read_buf h) (read_idx h) (checked_idx h) h else Done h)"
    if "conn_key h = fd" for h using that by (simp add: fd_headers)
  have hc: "fd_of (\<lambda>h. h) fd (and_then (host_check h) (resolve srv))" if "conn_key h = fd" for h
    by (rule fd_and_then [OF fd_host [OF that]]) (simp add: fd_resolve)
  have l: "fd_of (\<lambda>h. h) fd (and_then (parse_request_line l (h\<lparr>read_buf := b, checked_idx := k\<rparr>)) (\<lambda>h.
      and_then (if mime_flag h then headers srv (read_buf h) (read_idx h) (checked_idx h) h else Done h)
        (\<lambda>h. and_then (host_check h) (resolve srv))))" for l
    by (rule fd_and_then [OF fd_request_line], simp add: assms, rule fd_and_then [OF m], simp, rule hc) simp
  show ?thesis using l b by (simp add: httpd_parse_request_def split: option.split)
qed

section \<open>What the start of a request does to descriptor and timers\<close>

definition timers_kept :: "web \<Rightarrow> tmr \<Rightarrow> tmr \<Rightarrow> bool" where
  \<comment> \<open>at most a new timer for the end of a program\<close>
  "timers_kept v t t' \<longleftrightarrow> t' = t \<or>
     (\<exists>a p. tmr_create (timer_room v) (time_of_day v) (proc_id Cgi_kill) p (CGI_TIMELIMIT * 1000) False t = Some (Some a, t'))"

definition keyed :: "int \<times> int \<times> nat option \<Rightarrow> http_conn \<Rightarrow> bool" where
  \<comment> \<open>the descriptor is the same, and a file is mapped or bytes are counted, not both\<close>
  "keyed k h \<longleftrightarrow> conn_fd h = fst k \<and> (bytes_sent h = fst (snd k) \<or> file_address h = snd (snd k))"

lemma keyed_same: "conn_key h = k \<Longrightarrow> keyed k h"
  by (auto simp: keyed_def)

fun began :: "web \<Rightarrow> int \<times> int \<times> nat option \<Rightarrow> tmr \<Rightarrow> started \<Rightarrow> bool" where
  "began v k t (Started r h sb w) = (keyed k h \<and> timers_kept v t (w_tmr w))"
| "began v fd t x = True"

lemma kept_refl [simp]: "timers_kept v t t"
  by (simp add: timers_kept_def)

lemma responded_keyed: "responded hc hc' \<Longrightarrow> keyed k hc' = keyed k hc"
  by (auto simp: responded_def keyed_def)

lemma err_keyed [simp]: "keyed k (httpd_send_err w mt hc st title xh form a) = keyed k hc"
  using responded_keyed [OF responded_err] .

lemma mime_keyed [simp]: "keyed k (send_mime w mt hc st title enc xh typ len md) = keyed k hc"
  using responded_keyed [OF responded_mime] .

lemma began_refuse [simp]:
  "began v k t (refuse v hc sb w st title form a) = (keyed k hc \<and> timers_kept v t (w_tmr w))"
  "began v k t (error_500 v hc sb w) = (keyed k hc \<and> timers_kept v t (w_tmr w))"
  "began v k t (forbidden v hc sb w s) = (keyed k hc \<and> timers_kept v t (w_tmr w))"
  by (simp_all add: refuse_def error_500_def forbidden_def)

lemma err_fd [simp]: "conn_fd (httpd_send_err w mt hc st title xh form a) = conn_fd hc"
  using respondedD(8) [OF responded_err] .

lemma began_spawn: "conn_key hc = k \<Longrightarrow> began v k (w_tmr w) (spawn v hc sb w)"
  by (auto simp: spawn_def Let_def timers_kept_def keyed_def split: option.split)

lemma began_ls: "conn_key hc = k \<Longrightarrow> began v k (w_tmr w) (ls v hc sb w)"
  by (simp add: ls_def began_spawn keyed_same)

lemma began_send:
  assumes "conn_key hc = k"
  shows "began v k (w_tmr w) (send_file v hc sb w)"
proof -
  have f: "conn_key h = k" if "figure_mime t (fill_last_byte hc sz) = Some h" for t h sz
    using figure_mime_fields [OF that] assms by (auto simp: fill_last_byte_def)
  have "keyed k (h\<lparr>file_address := x\<rparr>)" if "figure_mime t (fill_last_byte hc sz) = Some h" for t h sz x
    using f [OF that] by (auto simp: keyed_def)
  then show ?thesis using keyed_same [OF f] keyed_same [OF assms] by (auto simp: send_file_def split: option.split prod.split)
qed

lemma began_run: "conn_key hc = k \<Longrightarrow> began v k (w_tmr w) (run_or_send v hc sb w)"
  by (simp add: run_or_send_def cgi_def began_spawn began_send keyed_same split: option.split)

lemma began_auth:
  assumes "\<And>hc' w'. conn_key hc' = k \<Longrightarrow> w_tmr w' = w_tmr w \<Longrightarrow> began v k (w_tmr w) (f hc' w')" "conn_key hc = k"
  shows "began v k (w_tmr w) (with_auth v d hc sb w f)"
proof (cases "auth_check (auth v) (vhost (http v)) d hc (auth_entry w)")
  case (Auth n pg hc1 pc)
  have h: "conn_key hc1 = k" using remoteD(1,11,12) [OF auth_remote [OF Auth]] assms(2) by simp
  then show ?thesis
    using Auth assms(1) [of hc1 "w\<lparr>auth_entry := pc\<rparr>"] keyed_same [OF h]
    by (simp add: with_auth_def send_auth_page_def Let_def split: option.split)
qed (simp add: with_auth_def)

lemma began_referrer:
  assumes "\<And>hc'. conn_key hc' = k \<Longrightarrow> began v k (w_tmr w) (f hc')" "conn_key hc = k"
  shows "began v k (w_tmr w) (with_referrer v hc sb w f)"
  using assms keyed_same [OF assms(2)] by (simp add: with_referrer_def check_referrer_def split: option.split)

lemma began_authorized:
  assumes "conn_key hc = k" "w_tmr w = t"
  shows "began v k t (authorized_file v hc sb w)"
proof -
  have "began v k (w_tmr w) (with_referrer v hc sb w (\<lambda>hc. run_or_send v hc sb w))"
    by (rule began_referrer [OF began_run assms(1)])
  then show ?thesis using assms keyed_same [OF assms(1)] by (simp add: authorized_file_def)
qed

lemma began_file: "conn_key hc = k \<Longrightarrow> began v k (w_tmr w) (start_file v hc sb w)"
  unfolding start_file_def by (rule began_auth [OF began_authorized])

lemma began_listing: "conn_key hc = k \<Longrightarrow> began v k (w_tmr w) (start_listing v hc sb w)"
proof -
  assume k: "conn_key hc = k"
  have l: "began v k (w_tmr w') (with_referrer v h sb w' (\<lambda>hc. ls v hc sb w'))" if "conn_key h = k" for h w'
    by (rule began_referrer [OF began_ls that])
  have "began v k (w_tmr w) (with_auth v (str (expnfilename hc)) hc sb w (\<lambda>hc w. with_referrer v hc sb w (\<lambda>hc. ls v hc sb w)))"
    by (rule began_auth [OF _ k]) (use l in metis)
  then show ?thesis using keyed_same [OF k] by (simp add: start_listing_def)
qed

lemma began_index: "conn_key hc = k \<Longrightarrow> began v k (w_tmr w) (start_index v p hc sb w)"
  using keyed_same [of hc k]
  by (auto simp: start_index_def Let_def keyed_def intro!: began_file split: option.split expanded.split)

lemma dirredirect_keyed [simp]: "keyed k (fst (send_dirredirect s mt sizes hc)) = keyed k hc"
  using responded_keyed [OF responded_response]
  by (auto simp: send_dirredirect_def Let_def keyed_def split: prod.split)

lemma began_request: "began v (conn_key hc) (w_tmr w) (httpd_start_request v hc sb w)"
proof -
  have k: "keyed (conn_key hc) hc" by (simp add: keyed_def)
  have "began v (conn_key hc) (w_tmr w) (case send_dirredirect s mt sizes hc of (hc1, z) \<Rightarrow> Started (-1) hc1 sb (w\<lparr>redirect_sizes := z\<rparr>))"
    for s mt sizes sb
    using dirredirect_keyed [of "conn_key hc" s mt sizes hc] k by (cases "send_dirredirect s mt sizes hc") simp
  then show ?thesis
    using k by (simp add: httpd_start_request_def really_start_request_def began_file began_index began_listing split: option.split)
qed

end
