(* ===== verification/Th_Table.thy ===== *)
theory Th_Table
  imports Th_Frame
begin

text \<open>
  The table of connections of thttpd, as the part of the server's state that its consistency concerns: the free list, the counts
  of the throttles, the watch and the timers. Each of the four has a law and lemmas for the ways in which one slot changes.
\<close>

section \<open>The table of connections\<close>

record slot =
  slot_state :: cnst
  slot_next :: int
  slot_fd :: "int option"
  slot_nums :: "nat list"
  slot_wakeup :: "nat option"
  slot_linger :: "nat option"

record table =
  \<comment> \<open>what of the server's state the table concerns\<close>
  rows :: "slot list"
  used :: int
  first_free :: int
  sending :: "int list"
  watch :: "nat fdwatch"
  clock :: tmr

definition slot_of :: "conn \<Rightarrow> slot" where
  "slot_of c = \<lparr>slot_state = conn_state c, slot_next = next_free_connect c, slot_fd = map_option conn_fd (the_hc c),
     slot_nums = tnums c, slot_wakeup = wakeup_timer c, slot_linger = linger_timer c\<rparr>"

definition table_of :: "srv \<Rightarrow> table" where
  "table_of s = \<lparr>rows = map slot_of (connects s), used = num_connects s, first_free = first_free_connect s,
     sending = map num_sending (throttles s), watch = fds s, clock = tmr_of s\<rparr>"

definition busy :: "table \<Rightarrow> nat \<Rightarrow> bool" where
  "busy T i \<longleftrightarrow> i < length (rows T) \<and> slot_state (rows T ! i) \<noteq> CNST_FREE"

definition fd_at :: "table \<Rightarrow> nat \<Rightarrow> int" where
  "fd_at T i = the (slot_fd (rows T ! i))"

lemma busy_upd:
  assumes "rows T' = (rows T)[i := c]" "i < length (rows T)"
  shows "busy T' j = (if j = i then slot_state c \<noteq> CNST_FREE else busy T j)"
    "j \<noteq> i \<Longrightarrow> rows T' ! j = rows T ! j" "rows T' ! i = c" "length (rows T') = length (rows T)"
  using assms by (auto simp: busy_def)

subsection \<open>The free list\<close>

fun free_chain :: "slot list \<Rightarrow> int \<Rightarrow> nat list \<Rightarrow> bool" where
  "free_chain cs f [] = (f = -1)"
| "free_chain cs f (n # ns) = (f = int n \<and> free_chain cs (slot_next (cs ! n)) ns)"

definition free_ok :: "table \<Rightarrow> bool" where
  "free_ok T \<longleftrightarrow> (\<exists>ns. free_chain (rows T) (first_free T) ns \<and> distinct ns \<and>
     set ns = {i. i < length (rows T) \<and> slot_state (rows T ! i) = CNST_FREE} \<and> used T = int (length (rows T)) - int (length ns))"

lemma free_chain_upd [simp]: "i \<notin> set ns \<Longrightarrow> free_chain (cs[i := c]) f ns = free_chain cs f ns"
  by (induction ns arbitrary: f) auto

lemma free_keep:
  assumes "free_ok T" "busy T i" "rows T' = (rows T)[i := c]" "slot_state c \<noteq> CNST_FREE"
    "used T' = used T" "first_free T' = first_free T"
  shows "free_ok T'"
proof -
  obtain ns where ns: "free_chain (rows T) (first_free T) ns" "distinct ns"
    "set ns = {i. i < length (rows T) \<and> slot_state (rows T ! i) = CNST_FREE}" "used T = int (length (rows T)) - int (length ns)"
    using assms(1) by (auto simp: free_ok_def)
  moreover have "i \<notin> set ns" using ns(3) assms(2) by (simp add: busy_def)
  moreover have "{j. j < length (rows T') \<and> slot_state (rows T' ! j) = CNST_FREE} =
      {i. i < length (rows T) \<and> slot_state (rows T ! i) = CNST_FREE}"
    using assms(2-4) by (auto simp: busy_def nth_list_update)
  ultimately show ?thesis unfolding free_ok_def using assms(3,5,6) by (intro exI [of _ ns]) simp
qed

lemma free_leave:
  assumes "free_ok T" "busy T i" "rows T' = (rows T)[i := c]" "slot_state c = CNST_FREE" "slot_next c = first_free T"
    "used T' = used T - 1" "first_free T' = int i"
  shows "free_ok T'"
proof -
  obtain ns where ns: "free_chain (rows T) (first_free T) ns" "distinct ns"
    "set ns = {i. i < length (rows T) \<and> slot_state (rows T ! i) = CNST_FREE}" "used T = int (length (rows T)) - int (length ns)"
    using assms(1) by (auto simp: free_ok_def)
  moreover have i: "i < length (rows T)" "i \<notin> set ns" using ns(3) assms(2) by (simp_all add: busy_def)
  moreover have "{j. j < length (rows T') \<and> slot_state (rows T' ! j) = CNST_FREE} =
      insert i {i. i < length (rows T) \<and> slot_state (rows T ! i) = CNST_FREE}"
    using i assms(3,4) by (auto simp: nth_list_update)
  ultimately show ?thesis unfolding free_ok_def using assms(3,5,6,7) by (intro exI [of _ "i # ns"]) simp
qed

lemma free_enter:
  assumes "free_ok T" "used T < int (length (rows T))"
  shows "\<exists>i. first_free T = int i \<and> i < length (rows T) \<and> slot_state (rows T ! i) = CNST_FREE \<and>
    (\<forall>T' c. rows T' = (rows T)[i := c] \<longrightarrow> slot_state c \<noteq> CNST_FREE \<longrightarrow> used T' = used T + 1 \<longrightarrow>
      first_free T' = slot_next (rows T ! i) \<longrightarrow> free_ok T')"
proof -
  obtain ns where ns: "free_chain (rows T) (first_free T) ns" "distinct ns"
    "set ns = {i. i < length (rows T) \<and> slot_state (rows T ! i) = CNST_FREE}" "used T = int (length (rows T)) - int (length ns)"
    using assms(1) by (auto simp: free_ok_def)
  then obtain i ms where i: "ns = i # ms" using assms(2) by (cases ns) auto
  have "i \<in> set ns" "i \<notin> set ms" using ns(2) i by simp_all
  moreover have "free_ok T'" if "rows T' = (rows T)[i := c]" "slot_state c \<noteq> CNST_FREE" "used T' = used T + 1"
      "first_free T' = slot_next (rows T ! i)" for T' c
  proof -
    have "i < length (rows T)" using ns(3) i by auto
    then have "j < length (rows T') \<and> slot_state (rows T' ! j) = CNST_FREE \<longleftrightarrow>
        j < length (rows T) \<and> slot_state (rows T ! j) = CNST_FREE \<and> j \<noteq> i" for j
      using that(1,2) by (simp add: nth_list_update)
    then have "{j. j < length (rows T') \<and> slot_state (rows T' ! j) = CNST_FREE} =
        {j. j < length (rows T) \<and> slot_state (rows T ! j) = CNST_FREE} - {i}" by blast
    also have "\<dots> = set ms" using ns(2,3) i by auto
    finally show ?thesis unfolding free_ok_def using ns that i by (intro exI [of _ ms]) simp
  qed
  ultimately show ?thesis using ns i by auto
qed

subsection \<open>The counts of the throttles\<close>

definition load :: "slot list \<Rightarrow> nat \<Rightarrow> int" where
  "load cs t = sum_list (map (\<lambda>c. if slot_state c = CNST_FREE then 0 else int (count_list (slot_nums c) t)) cs)"

definition count_ok :: "table \<Rightarrow> bool" where
  "count_ok T \<longleftrightarrow> (\<forall>t < length (sending T). sending T ! t = load (rows T) t) \<and>
     (\<forall>i. busy T i \<longrightarrow> set (slot_nums (rows T ! i)) \<subseteq> {..<length (sending T)})"

lemma sum_list_upd: "i < length xs \<Longrightarrow> sum_list (xs[i := x]) = sum_list xs + x - (xs ! i :: int)"
  by (induction xs arbitrary: i) (auto split: nat.split)

lemma load_upd:
  assumes "i < length cs"
  shows "load (cs[i := c]) t = load cs t +
    (if slot_state c = CNST_FREE then 0 else int (count_list (slot_nums c) t)) -
    (if slot_state (cs ! i) = CNST_FREE then 0 else int (count_list (slot_nums (cs ! i)) t))"
  using assms by (simp add: load_def map_update sum_list_upd)

lemma load_nonneg: "0 \<le> load cs t"
  unfolding load_def by (rule sum_list_nonneg) auto

lemma load_at:
  assumes "i < length cs" "slot_state (cs ! i) \<noteq> CNST_FREE" "t \<in> set (slot_nums (cs ! i))"
  shows "0 < load cs t"
proof -
  let ?f = "\<lambda>c. if slot_state c = CNST_FREE then 0 else int (count_list (slot_nums c) t)"
  have "?f (cs ! i) \<le> sum_list (map ?f cs)" using assms(1) nth_mem [OF assms(1)] by (intro member_le_sum_list) (auto simp del: if_image_distrib)
  moreover have "0 < ?f (cs ! i)" using assms(2,3) count_list_0_iff [of "slot_nums (cs ! i)" t] by simp
  ultimately show ?thesis by (simp add: load_def)
qed

lemma count_keep:
  assumes "count_ok T" "busy T i" "rows T' = (rows T)[i := c]" "slot_state c \<noteq> CNST_FREE"
    "slot_nums c = slot_nums (rows T ! i)" "sending T' = sending T"
  shows "count_ok T'"
proof -
  have i: "i < length (rows T)" using assms(2) by (simp add: busy_def)
  note u = busy_upd [OF assms(3) i]
  have "load (rows T') t = load (rows T) t" for t
    using assms(2-5) load_upd [OF i] by (simp add: busy_def)
  moreover have "set (slot_nums (rows T' ! j)) \<subseteq> {..<length (sending T)}" if "busy T' j" for j
    using that assms(1,2,5) u(1) [of j] u(2) [of j] u(3) by (cases "j = i") (auto simp: count_ok_def)
  ultimately show ?thesis using assms(1,6) by (simp add: count_ok_def)
qed

lemma count_nums:
  assumes "count_ok T" "busy T i" "rows T' = (rows T)[i := c]" "slot_state c \<noteq> CNST_FREE" "slot_nums (rows T ! i) = []"
    "length (sending T') = length (sending T)"
    "\<And>t. t < length (sending T) \<Longrightarrow> sending T' ! t = sending T ! t + int (count_list (slot_nums c) t)"
    "set (slot_nums c) \<subseteq> {..<length (sending T)}"
  shows "count_ok T'"
proof -
  have i: "i < length (rows T)" using assms(2) by (simp add: busy_def)
  note u = busy_upd [OF assms(3) i]
  have "load (rows T') t = load (rows T) t + int (count_list (slot_nums c) t)" for t
    using assms(2-5) load_upd [OF i] by (simp add: busy_def)
  moreover have "set (slot_nums (rows T' ! j)) \<subseteq> {..<length (sending T)}" if "busy T' j" for j
    using that assms(1,2,8) u(1) [of j] u(2) [of j] u(3) by (cases "j = i") (auto simp: count_ok_def)
  ultimately show ?thesis using assms(1,6,7) by (simp add: count_ok_def)
qed

lemma count_leave:
  assumes "count_ok T" "busy T i" "rows T' = (rows T)[i := c]" "slot_state c = CNST_FREE"
    "length (sending T') = length (sending T)"
    "\<And>t. t < length (sending T) \<Longrightarrow> sending T' ! t = sending T ! t - int (count_list (slot_nums (rows T ! i)) t)"
  shows "count_ok T'"
proof -
  have i: "i < length (rows T)" using assms(2) by (simp add: busy_def)
  note u = busy_upd [OF assms(3) i]
  have "load (rows T') t = load (rows T) t - int (count_list (slot_nums (rows T ! i)) t)" for t
    using assms(2-4) load_upd [OF i] by (simp add: busy_def)
  moreover have "set (slot_nums (rows T' ! j)) \<subseteq> {..<length (sending T)}" if "busy T' j" for j
    using that assms(1,4) u(1) [of j] u(2) [of j] by (cases "j = i") (auto simp: count_ok_def)
  ultimately show ?thesis using assms(1,5,6) by (simp add: count_ok_def)
qed

lemma count_enter:
  assumes "count_ok T" "i < length (rows T)" "slot_state (rows T ! i) = CNST_FREE" "rows T' = (rows T)[i := c]"
    "slot_nums c = []" "sending T' = sending T"
  shows "count_ok T'"
proof -
  note u = busy_upd [OF assms(4,2)]
  have "load (rows T') t = load (rows T) t" for t using assms(3-5) load_upd [OF assms(2)] by simp
  moreover have "set (slot_nums (rows T' ! j)) \<subseteq> {..<length (sending T)}" if "busy T' j" for j
    using that assms(1,5) u(1) [of j] u(2) [of j] u(3) by (cases "j = i") (auto simp: count_ok_def)
  ultimately show ?thesis using assms(1,6) by (simp add: count_ok_def)
qed

subsection \<open>The watch\<close>

definition data_ok :: "'d fdwatch \<Rightarrow> bool" where
  \<comment> \<open>no client data where nothing is watched\<close>
  "data_ok w \<longleftrightarrow> (\<forall>fd. get_at (fd_rw w) fd = Some (-1) \<longrightarrow> get_at (fd_data w) fd = Some None)"

lemma data_ok_del: "fdwatch_del_fd fd w = Some w' \<Longrightarrow> data_ok w \<Longrightarrow> data_ok w'"
  by (auto simp: fdwatch_del_fd_def poll_del_fd_def data_ok_def put_atD Let_def bind_eq_Some_conv split: if_splits)

lemma data_ok_add: "fdwatch_add_fd fd d rw w = Some w' \<Longrightarrow> rw \<noteq> -1 \<Longrightarrow> data_ok w \<Longrightarrow> data_ok w'"
  by (auto simp: fdwatch_add_fd_def poll_add_fd_def data_ok_def put_atD bind_eq_Some_conv split: if_splits)

definition watch_fit :: "'d fdwatch \<Rightarrow> bool" where
  "watch_fit w \<longleftrightarrow> fdw_ok w \<and> data_ok w"

lemma fit_add:
  assumes "watch_fit w" "rw \<noteq> -1"
  shows "\<exists>w'. fdwatch_add_fd fd d rw w = Some w' \<and> watch_fit w' \<and> nfiles w' = nfiles w \<and>
    watched w' = (if 0 \<le> fd \<and> fd < nfiles w \<and> watched w fd = None then (watched w)(fd \<mapsto> (rw, d)) else watched w)"
proof -
  obtain w' where w': "fdwatch_add_fd fd d rw w = Some w'" "fdw_ok w'" "nfiles w' = nfiles w"
    "watched w' = (if 0 \<le> fd \<and> fd < nfiles w \<and> watched w fd = None then (watched w)(fd \<mapsto> (rw, d)) else watched w)"
    using fdw.add_any [of w rw fd d] assms by (auto simp: watch_fit_def)
  with data_ok_add [OF w'(1) assms(2)] assms(1) show ?thesis by (auto simp: watch_fit_def)
qed

lemma fit_del:
  assumes "watch_fit w"
  shows "\<exists>w'. fdwatch_del_fd fd w = Some w' \<and> watch_fit w' \<and> nfiles w' = nfiles w \<and> watched w' = (watched w)(fd := None)"
proof -
  obtain w' where w': "fdwatch_del_fd fd w = Some w'" "fdw_ok w'" "nfiles w' = nfiles w" "watched w' = (watched w)(fd := None)"
    using fdw.del_any [of w fd] assms by (auto simp: watch_fit_def)
  with data_ok_del [OF w'(1)] assms(1) show ?thesis by (auto simp: watch_fit_def)
qed

lemma length_poll_scan: "length (poll_scan r ps) \<le> length ps"
  by (induction r ps rule: poll_scan.induct) auto

lemma fit_poll:
  assumes "watch_fit w" "fdwatch r ev w = (n, w')"
  shows "watch_fit w' \<and> nfiles w' = nfiles w \<and> watched w' = watched w"
proof -
  let ?n = "nat (npoll_fds w)"
  let ?ps = "if r < 0 then pollfds w else map (\<lambda>p. p\<lparr>revents := ev (pf_fd p)\<rparr>) (take ?n (pollfds w)) @ drop ?n (pollfds w)"
  have sz: "fdw_sizes w" using assms(1) by (simp add: watch_fit_def fdw_ok_def)
  have w': "\<exists>a b. w' = w\<lparr>nwatches := nwatches w + 1, pollfds := ?ps, poll_rfdidx := a, nreturned := b, next_ridx := 0\<rparr> \<and>
      length a = length (poll_rfdidx w)"
  proof -
    have "length (poll_scan r (take ?n ?ps)) \<le> length (poll_rfdidx w)"
      using length_poll_scan [of r "take ?n ?ps"] sz by (auto simp: fdw_sizes_def)
    then show ?thesis
      using assms(2) by (auto simp: fdwatch_def poll_watch_def Let_def split: if_splits intro!: exI)
  qed
  have len: "length ?ps = length (pollfds w)" by auto
  have at: "get_at ?ps i = map_option (\<lambda>p. if r < 0 \<or> npoll_fds w \<le> i then p else p\<lparr>revents := ev (pf_fd p)\<rparr>) (get_at (pollfds w) i)" for i
    using sz by (auto simp: get_at_def nth_append fdw_sizes_def)
  from w' obtain a b where w: "w' = w\<lparr>nwatches := nwatches w + 1, pollfds := ?ps, poll_rfdidx := a, nreturned := b, next_ridx := 0\<rparr>"
    "length a = length (poll_rfdidx w)" by blast
  have wt: "watched w' = watched w" by (simp add: w(1) watched_def fun_eq_iff)
  have f: "nfiles w' = nfiles w" "fd_rw w' = fd_rw w" "fd_data w' = fd_data w" "npoll_fds w' = npoll_fds w"
    "poll_fdidx w' = poll_fdidx w" "pollfds w' = ?ps" "poll_rfdidx w' = a" by (simp_all add: w(1))
  have "fdw_sizes w'" using sz w(2) len unfolding fdw_sizes_def f by simp
  moreover have "slot_ok w' i" if "0 \<le> i" "i < npoll_fds w" for i
  proof -
    have "slot_ok w i" using assms(1) that by (simp add: watch_fit_def fdw_ok_def)
    then obtain p rw d where p: "get_at (pollfds w) i = Some p" "watched w (pf_fd p) = Some (rw, d)"
      "get_at (poll_fdidx w) (pf_fd p) = Some i" "pf_events p = poll_events rw (pf_events p)" by (auto simp: slot_ok_def)
    then show ?thesis unfolding slot_ok_def wt f at
      by (intro exI [of _ "if r < 0 \<or> npoll_fds w \<le> i then p else p\<lparr>revents := ev (pf_fd p)\<rparr>"] exI [of _ rw] exI [of _ d]) simp
  qed
  moreover have "indexed w' fd" if fd: "watched w fd \<noteq> None" for fd
  proof -
    have "indexed w fd" using assms(1) fd by (simp add: watch_fit_def fdw_ok_def)
    then obtain i p where p: "get_at (poll_fdidx w) fd = Some i" "0 \<le> i" "i < npoll_fds w" "get_at (pollfds w) i = Some p" "pf_fd p = fd"
      by (auto simp: indexed_def)
    then show ?thesis unfolding indexed_def f at
      by (intro exI [of _ i] exI [of _ "if r < 0 \<or> npoll_fds w \<le> i then p else p\<lparr>revents := ev (pf_fd p)\<rparr>"]) simp
  qed
  ultimately have "fdw_ok w'" by (simp add: fdw_ok_def wt f(4))
  moreover have "data_ok w'" using assms(1) by (simp add: watch_fit_def data_ok_def f)
  ultimately show ?thesis using wt f(1) by (simp add: watch_fit_def)
qed

lemma fit_next:
  assumes "watch_fit w"
  shows "\<exists>c w'. fdwatch_get_next_client_data w = Some (c, w') \<and> (w' = w \<or> w' = w\<lparr>next_ridx := next_ridx w + 1\<rparr>) \<and>
    (\<forall>i. c = Client (Some i) \<longrightarrow> (\<exists>fd rw. watched w fd = Some (rw, Some i)))"
proof -
  have sz: "fdw_sizes w" and d: "data_ok w" using assms by (simp_all add: watch_fit_def fdw_ok_def)
  note f = sz [unfolded fdw_sizes_def]
  show ?thesis
  proof (cases "nreturned w \<le> next_ridx w")
    case False
    have "\<exists>fd. poll_get_fd (next_ridx w) w = Some fd"
      using get_in [of "next_ridx w" "poll_rfdidx w"] f by (simp add: poll_get_fd_def)
    then obtain fd where fd: "poll_get_fd (next_ridx w) w = Some fd" ..
    show ?thesis
    proof (cases "fd < 0 \<or> nfiles w \<le> fd")
      case True
      then show ?thesis using False fd by (simp add: fdwatch_get_next_client_data_def Let_def)
    next
      case in_range: False
      then obtain x rw where x: "get_at (fd_data w) fd = Some x" "get_at (fd_rw w) fd = Some rw"
        using get_in [of fd "fd_data w"] get_in [of fd "fd_rw w"] f by auto
      have "\<exists>rw. watched w fd = Some (rw, Some i)" if "x = Some i" for i
        using that x d by (auto simp: watched_def data_ok_def)
      then show ?thesis using False fd in_range x by (auto simp: fdwatch_get_next_client_data_def Let_def)
    qed
  qed (simp add: fdwatch_get_next_client_data_def)
qed

lemma fit_check:
  assumes "watch_fit w"
  shows "fdwatch_check_fd fd w \<noteq> None"
proof (cases "watched w fd")
  case None
  then show ?thesis
    using assms watching_watched [of w fd] by (auto simp: fdwatch_check_fd_def watch_fit_def fdw_ok_def)
next
  case (Some x)
  have sz: "fdw_sizes w" using assms by (simp add: watch_fit_def fdw_ok_def)
  obtain i p where p: "get_at (poll_fdidx w) fd = Some i" "get_at (pollfds w) i = Some p"
    using fdw_okD(2) [of w fd] assms Some by (auto simp: indexed_def watch_fit_def)
  moreover obtain rw where "get_at (fd_rw w) fd = Some rw"
    using get_in [of fd "fd_rw w"] watched_range [of w fd] Some by auto
  ultimately show ?thesis by (simp del: not_None_eq add: fdwatch_check_fd_def poll_check_fd_def)
qed

lemma fit_ridx [simp]: "watch_fit (w\<lparr>next_ridx := k\<rparr>) = watch_fit w" "watched (w\<lparr>next_ridx := k\<rparr>) = watched w"
proof -
  show wt: "watched (w\<lparr>next_ridx := k\<rparr>) = watched w" by (simp add: watched_def fun_eq_iff)
  show "watch_fit (w\<lparr>next_ridx := k\<rparr>) = watch_fit w"
    by (simp add: watch_fit_def fdw_ok_def fdw_sizes_def slot_ok_def indexed_def data_ok_def wt)
qed

definition wanted :: "slot \<Rightarrow> nat \<Rightarrow> (int \<times> nat option) option" where
  \<comment> \<open>how the descriptor of a connection in this state is watched\<close>
  "wanted c i =
     (if slot_state c = CNST_PAUSING then None
      else if slot_state c = CNST_SENDING then Some (FDW_WRITE, Some i) else Some (FDW_READ, Some i))"

definition watch_ok :: "table \<Rightarrow> bool" where
  "watch_ok T \<longleftrightarrow> watch_fit (watch T) \<and>
     (\<forall>i. busy T i \<longrightarrow> slot_fd (rows T ! i) \<noteq> None \<and> 0 \<le> fd_at T i \<and> fd_at T i < nfiles (watch T) \<and>
        watched (watch T) (fd_at T i) = wanted (rows T ! i) i) \<and>
     (\<forall>i j. busy T i \<longrightarrow> busy T j \<longrightarrow> fd_at T i = fd_at T j \<longrightarrow> i = j) \<and>
     (\<forall>fd rw i. watched (watch T) fd = Some (rw, Some i) \<longrightarrow> busy T i \<and> fd_at T i = fd)"

lemma watch_okD:
  assumes "watch_ok T"
  shows "watch_fit (watch T)" "busy T i \<Longrightarrow> slot_fd (rows T ! i) \<noteq> None" "busy T i \<Longrightarrow> 0 \<le> fd_at T i"
    "busy T i \<Longrightarrow> fd_at T i < nfiles (watch T)" "busy T i \<Longrightarrow> watched (watch T) (fd_at T i) = wanted (rows T ! i) i"
    "busy T i \<Longrightarrow> busy T j \<Longrightarrow> fd_at T i = fd_at T j \<Longrightarrow> i = j"
    "watched (watch T) fd = Some (rw, Some i) \<Longrightarrow> busy T i" "watched (watch T) fd = Some (rw, Some i) \<Longrightarrow> fd_at T i = fd"
  using assms unfolding watch_ok_def by blast+

lemma wanted_data: "wanted c i = Some (rw, d) \<Longrightarrow> d = Some i"
  by (auto simp: wanted_def split: if_splits)

lemma watch_move:
  assumes "watch_ok T" "busy T i" "rows T' = (rows T)[i := c]" "slot_state c \<noteq> CNST_FREE" "slot_fd c = slot_fd (rows T ! i)"
    "watch_fit (watch T')" "nfiles (watch T') = nfiles (watch T)"
    "watched (watch T') = (watched (watch T))(fd_at T i := wanted c i)"
  shows "watch_ok T'"
proof -
  have i: "i < length (rows T)" using assms(2) by (simp add: busy_def)
  note u = busy_upd [OF assms(3) i] and d = watch_okD [OF assms(1)]
  have b: "busy T' j = busy T j" for j using u(1) assms(2,4) by simp
  have f: "slot_fd (rows T' ! j) = slot_fd (rows T ! j)" for j using u(2,3) assms(5) by (cases "j = i") auto
  then have fd: "fd_at T' j = fd_at T j" for j by (simp add: fd_at_def)
  show ?thesis unfolding watch_ok_def b f fd assms(7)
  proof (intro conjI allI impI)
    fix j assume j: "busy T j"
    show "slot_fd (rows T ! j) \<noteq> None" "0 \<le> fd_at T j" "fd_at T j < nfiles (watch T)" using d(2,3,4) [OF j] by auto
    show "watched (watch T') (fd_at T j) = wanted (rows T' ! j) j"
      using d(5,6) [OF j] assms(2) u(2,3) by (cases "j = i") (auto simp: assms(8))
  next
    show "j = k" if "busy T j" "busy T k" "fd_at T j = fd_at T k" for j k using d(6) that .
    show "busy T j" "fd_at T j = fd" if "watched (watch T') fd = Some (rw, Some j)" for fd rw j
      using that d(7,8) assms(2) wanted_data [of c i] by (auto simp: assms(8) split: if_splits)
  qed (rule assms(6))
qed

lemma watch_leave:
  assumes "watch_ok T" "busy T i" "rows T' = (rows T)[i := c]" "slot_state c = CNST_FREE"
    "watch_fit (watch T')" "nfiles (watch T') = nfiles (watch T)" "watched (watch T') = (watched (watch T))(fd_at T i := None)"
  shows "watch_ok T'"
proof -
  have i: "i < length (rows T)" using assms(2) by (simp add: busy_def)
  note u = busy_upd [OF assms(3) i] and d = watch_okD [OF assms(1)]
  have b: "busy T' j = (busy T j \<and> j \<noteq> i)" for j using u(1) assms(4) by simp
  have f: "rows T' ! j = rows T ! j" "fd_at T' j = fd_at T j" if "j \<noteq> i" for j using u(2) that by (auto simp: fd_at_def)
  show ?thesis unfolding watch_ok_def b assms(6)
  proof (intro conjI allI impI; (elim conjE)?)
    fix j assume j: "busy T j" "j \<noteq> i"
    show "slot_fd (rows T' ! j) \<noteq> None" "0 \<le> fd_at T' j" "fd_at T' j < nfiles (watch T)" using d(2,3,4) [OF j(1)] f [OF j(2)] by auto
    show "watched (watch T') (fd_at T' j) = wanted (rows T' ! j) j"
      using d(5) [OF j(1)] d(6) [OF j(1) assms(2)] f [OF j(2)] j(2) by (auto simp: assms(7))
  next
    show "j = k" if "busy T j" "j \<noteq> i" "busy T k" "k \<noteq> i" "fd_at T' j = fd_at T' k" for j k
      using d(6) [of j k] that f by simp
    fix fd rw j assume "watched (watch T') fd = Some (rw, Some j)"
    then have *: "watched (watch T) fd = Some (rw, Some j)" "fd \<noteq> fd_at T i" by (auto simp: assms(7) split: if_splits)
    with d(7,8) [OF *(1)] show "busy T j" "j \<noteq> i" "fd_at T' j = fd" using f(2) [of j] by auto
  qed (rule assms(5))
qed

lemma watch_enter:
  assumes "watch_ok T" "i < length (rows T)" "slot_state (rows T ! i) = CNST_FREE" "rows T' = (rows T)[i := c]"
    "slot_state c \<noteq> CNST_FREE" "slot_fd c = Some fd" "0 \<le> fd" "fd < nfiles (watch T)" "watched (watch T) fd = None"
    "\<And>j. busy T j \<Longrightarrow> fd_at T j \<noteq> fd"
    "watch_fit (watch T')" "nfiles (watch T') = nfiles (watch T)" "watched (watch T') = (watched (watch T))(fd := wanted c i)"
  shows "watch_ok T'"
proof -
  note u = busy_upd [OF assms(4,2)] and d = watch_okD [OF assms(1)]
  have ni: "\<not> busy T i" using assms(3) by (simp add: busy_def)
  have b: "busy T' j = (busy T j \<or> j = i)" for j using u(1) assms(5) ni by auto
  have f: "rows T' ! j = rows T ! j" "fd_at T' j = fd_at T j" if "j \<noteq> i" for j using u(2) that by (auto simp: fd_at_def)
  have fi: "rows T' ! i = c" "fd_at T' i = fd" using u(3) assms(6) by (auto simp: fd_at_def)
  show ?thesis unfolding watch_ok_def assms(12)
  proof (intro conjI allI impI)
    fix j assume j: "busy T' j"
    show "slot_fd (rows T' ! j) \<noteq> None" "0 \<le> fd_at T' j" "fd_at T' j < nfiles (watch T)"
      using j b [of j] d(2,3,4) [of j] f [of j] fi assms(6-8) by (cases "j = i"; auto)+
    show "watched (watch T') (fd_at T' j) = wanted (rows T' ! j) j"
      using j b [of j] d(5) [of j] f [of j] fi assms(10) [of j] by (cases "j = i") (auto simp: assms(13))
  next
    fix j k assume jk: "busy T' j" "busy T' k" "fd_at T' j = fd_at T' k"
    have "busy T m \<and> fd_at T' m \<noteq> fd" if "busy T' m" "m \<noteq> i" for m using that b f assms(10) by simp
    note m = this
    show "j = k"
    proof (cases "j = i \<or> k = i")
      case True
      then show ?thesis using m [of j] m [of k] jk fi(2) by (cases "j = i"; cases "k = i") auto
    next
      case False
      then show ?thesis using m [of j] m [of k] jk d(6) [of j k] f(2) [of j] f(2) [of k] by simp
    qed
  next
    fix g rw j assume g: "watched (watch T') g = Some (rw, Some j)"
    have "busy T' j \<and> fd_at T' j = g"
    proof (cases "g = fd")
      case True
      then have "wanted c i = Some (rw, Some j)" using g by (simp add: assms(13))
      from wanted_data [OF this] have "j = i" by simp
      then show ?thesis using True b fi by auto
    next
      case False
      then have *: "watched (watch T) g = Some (rw, Some j)" using g by (simp add: assms(13))
      then have "j \<noteq> i" using d(7) ni by blast
      then show ?thesis using d(7,8) [OF *] b f by auto
    qed
    then show "busy T' j" "fd_at T' j = g" by auto
  qed (rule assms(11))
qed

subsection \<open>The timers\<close>

definition own_timer :: "nat \<Rightarrow> slot \<Rightarrow> nat option" where
  \<comment> \<open>the field for the timers of a procedure\<close>
  "own_timer p c = (if p = proc_id Wakeup then slot_wakeup c else slot_linger c)"

definition conn_proc :: "nat \<Rightarrow> bool" where
  "conn_proc p \<longleftrightarrow> p = proc_id Wakeup \<or> p = proc_id Linger_clear"

definition owns :: "table \<Rightarrow> nat \<Rightarrow> nat \<Rightarrow> nat option" where
  "owns T p i = (if busy T i \<and> conn_proc p then own_timer p (rows T ! i) else None)"

definition live_ok :: "nat set \<Rightarrow> nat set \<Rightarrow> tmr \<Rightarrow> (nat \<Rightarrow> nat \<Rightarrow> nat option) \<Rightarrow> bool" where
  \<comment> \<open>every timer of a connection is the one in its field and every field holds a live timer, but for some timers that are
      being handled\<close>
  "live_ok D L t own \<longleftrightarrow> D \<subseteq> L \<and>
     (\<forall>a p i per. a \<in> L - D \<longrightarrow> timer_data t a = (p, i, per) \<longrightarrow> conn_proc p \<longrightarrow> own p i = Some a) \<and>
     (\<forall>a p i. own p i = Some a \<longrightarrow> a \<in> L - D \<and> timer_data t a = (p, i, False)) \<and>
     (\<forall>a p i. a \<in> L \<longrightarrow> timer_data t a = (p, i, True) \<longrightarrow> \<not> conn_proc p)"

lemma live_okD:
  assumes "live_ok D L t own"
  shows "D \<subseteq> L" "a \<in> L - D \<Longrightarrow> timer_data t a = (p, i, per) \<Longrightarrow> conn_proc p \<Longrightarrow> own p i = Some a"
    "own p i = Some a \<Longrightarrow> a \<in> L - D" "own p i = Some a \<Longrightarrow> timer_data t a = (p, i, False)"
    "a \<in> L \<Longrightarrow> timer_data t a = (p, i, True) \<Longrightarrow> \<not> conn_proc p"
  using assms unfolding live_ok_def by blast+

lemma live_okI:
  assumes "D \<subseteq> L" "\<And>a p i per. a \<in> L - D \<Longrightarrow> timer_data t a = (p, i, per) \<Longrightarrow> conn_proc p \<Longrightarrow> own p i = Some a"
    "\<And>a p i. own p i = Some a \<Longrightarrow> a \<in> L - D" "\<And>a p i. own p i = Some a \<Longrightarrow> timer_data t a = (p, i, False)"
    "\<And>a p i. a \<in> L \<Longrightarrow> timer_data t a = (p, i, True) \<Longrightarrow> \<not> conn_proc p"
  shows "live_ok D L t own"
  unfolding live_ok_def using assms by blast

definition timers_ok :: "nat set \<Rightarrow> table \<Rightarrow> bool" where
  "timers_ok D T \<longleftrightarrow> (\<exists>L M. repr L M (clock T) \<and> live_ok D L (clock T) (owns T))"

inductive in_lists :: "tmr \<Rightarrow> nat \<Rightarrow> bool" where
  \<comment> \<open>the timers that \<open>tmr_run\<close> walks over\<close>
  head: "h < HASH_SIZE \<Longrightarrow> timers t h = Some a \<Longrightarrow> in_lists t a"
| tail: "in_lists t a \<Longrightarrow> tm_next (heap t a) = Some b \<Longrightarrow> in_lists t b"

lemma links_next: "links m p xs None \<Longrightarrow> a \<in> set xs \<Longrightarrow> tm_next (m a) = Some b \<Longrightarrow> b \<in> set xs"
proof (induction xs arbitrary: p)
  case (Cons x xs)
  then show ?case by (cases xs) auto
qed simp

lemma in_lists_live: "in_lists t a \<Longrightarrow> repr L M t \<Longrightarrow> a \<in> L"
proof (induction rule: in_lists.induct)
  case (head h t a)
  then obtain B F where B: "tmr_ok B F t" "L = addresses B" by (auto simp: repr_def)
  then have "lists_ok B F t" by (simp add: tmr_ok_def)
  then have "bucket_ok t h (B h)" using lists_okD(1) head(1) by blast
  then have "a \<in> set (B h)" using head(2) bucket_okD(1) [of t h "B h"] by (cases "B h") auto
  then show ?case using B(2) by (auto simp: addresses_def)
next
  case (tail t a b)
  then obtain B F where B: "tmr_ok B F t" "L = addresses B" by (auto simp: repr_def)
  then obtain h where h: "a \<in> set (B h)" using tail by (auto simp: addresses_def)
  have l: "lists_ok B F t" using B(1) by (simp add: tmr_ok_def)
  then have "h < HASH_SIZE" using lists_okD(3) [OF l, of h] h by (cases "h < HASH_SIZE") auto
  then have "bucket_ok t h (B h)" using lists_okD(1) [OF l] by blast
  then have "b \<in> set (B h)" using links_next [OF bucket_okD(2) h] tail by blast
  then show ?case using B(2) by (auto simp: addresses_def)
qed

definition own_upd :: "(nat \<Rightarrow> nat \<Rightarrow> nat option) \<Rightarrow> nat \<Rightarrow> nat \<Rightarrow> nat option \<Rightarrow> nat \<Rightarrow> nat \<Rightarrow> nat option" where
  "own_upd f p i x = (\<lambda>q j. if q = p \<and> j = i then x else f q j)"

lemma timers_same: "timers_ok D T \<Longrightarrow> owns T' = owns T \<Longrightarrow> clock T' = clock T \<Longrightarrow> timers_ok D T'"
  by (simp add: timers_ok_def)

lemma cancel_timer_data: "timer_data (tmr_cancel a t) = timer_data t"
  using same_timer_data [OF cancel_same_data] by (intro ext) simp

lemma live_data:
  assumes "timer_data t' = timer_data t" "live_ok D L t own"
  shows "live_ok D L t' own"
  using assms(2) unfolding live_ok_def assms(1) .

lemma live_drop:
  assumes "live_ok D L t own" "own p i = Some a"
  shows "live_ok D (L - {a}) t (own_upd own p i None)" "live_ok (insert a D) L t (own_upd own p i None)"
proof -
  note l = live_okD [OF assms(1)] and a = live_okD(3,4) [OF assms]
  have o1: "own_upd own p i None q j = Some b \<Longrightarrow> own q j = Some b \<and> b \<noteq> a" for q j b
    using l(4) [of q j b] a(2) by (auto simp: own_upd_def split: if_splits)
  have o2: "own q j = Some b \<Longrightarrow> b \<noteq> a \<Longrightarrow> own_upd own p i None q j = Some b" for q j b
    using assms(2) by (auto simp: own_upd_def)
  show "live_ok D (L - {a}) t (own_upd own p i None)"
  proof (rule live_okI)
    show "own_upd own p i None q j = Some b" if "b \<in> L - {a} - D" "timer_data t b = (q, j, per)" "conn_proc q" for b q j per
      using that l(2) [of b q j per] o2 [of q j b] by auto
    show "b \<in> L - {a} - D" "timer_data t b = (q, j, False)" if "own_upd own p i None q j = Some b" for b q j
      using o1 [OF that] l(3,4) [of q j b] by auto
    show "\<not> conn_proc q" if "b \<in> L - {a}" "timer_data t b = (q, j, True)" for b q j using l(5) [of b q j] that by auto
  qed (use l(1) a in auto)
  show "live_ok (insert a D) L t (own_upd own p i None)"
  proof (rule live_okI)
    show "own_upd own p i None q j = Some b" if "b \<in> L - insert a D" "timer_data t b = (q, j, per)" "conn_proc q" for b q j per
      using that l(2) [of b q j per] o2 [of q j b] by auto
    show "b \<in> L - insert a D" "timer_data t b = (q, j, False)" if "own_upd own p i None q j = Some b" for b q j
      using o1 [OF that] l(3,4) [of q j b] by auto
    show "\<not> conn_proc q" if "b \<in> L" "timer_data t b = (q, j, True)" for b q j using l(5) [of b q j] that by auto
  qed (use l(1) a in auto)
qed

lemma timers_drop:
  \<comment> \<open>the timer of a connection is cancelled\<close>
  assumes "timers_ok D T" "owns T p i = Some a" "owns T' = own_upd (owns T) p i None" "clock T' = tmr_cancel a (clock T)"
  shows "timers_ok D T'"
proof -
  obtain L M where r: "repr L M (clock T)" and v: "live_ok D L (clock T) (owns T)" using assms(1) by (auto simp: timers_ok_def)
  have "a \<in> L" using live_okD(3) [OF v assms(2)] by simp
  from repr_cancel [OF r this] live_data [OF cancel_timer_data live_drop(1) [OF v assms(2)]]
  show ?thesis unfolding timers_ok_def assms(3,4) by blast
qed

lemma timers_forget:
  \<comment> \<open>the field of a connection is cleared, its timer is handled later\<close>
  assumes "timers_ok D T" "owns T p i = Some a" "owns T' = own_upd (owns T) p i None" "clock T' = clock T"
  shows "timers_ok (insert a D) T'"
  using assms live_drop(2) unfolding timers_ok_def by metis

lemma owns_conn: "owns T p i = Some a \<Longrightarrow> conn_proc p"
  by (auto simp: owns_def split: if_splits)

lemma timers_begin:
  \<comment> \<open>a timer of another procedure is being handled\<close>
  assumes "timers_ok {} T" "in_lists (clock T) a" "timer_data (clock T) a = (p, i, per)" "\<not> conn_proc p"
  shows "timers_ok {a} T"
proof -
  obtain L M where r: "repr L M (clock T)" and v: "live_ok {} L (clock T) (owns T)" using assms(1) by (auto simp: timers_ok_def)
  have a: "a \<in> L" using in_lists_live [OF assms(2) r] .
  have no: "owns T q j = Some b \<Longrightarrow> b \<noteq> a" for q j b
    using live_okD(4) [OF v, of q j b] owns_conn [of T q j b] assms(3,4) by auto
  have "live_ok {a} L (clock T) (owns T)"
  proof (rule live_okI)
    show "owns T q j = Some b" if "b \<in> L - {a}" "timer_data (clock T) b = (q, j, per')" "conn_proc q" for b q j per'
      using live_okD(2) [OF v, of b q j per'] that by auto
    show "b \<in> L - {a}" "timer_data (clock T) b = (q, j, False)" if "owns T q j = Some b" for b q j
      using live_okD(3,4) [OF v that] no [OF that] by auto
    show "\<not> conn_proc q" if "b \<in> L" "timer_data (clock T) b = (q, j, True)" for b q j using live_okD(5) [OF v that] .
  qed (use a in simp)
  then show ?thesis using r unfolding timers_ok_def by blast
qed

lemma timers_field:
  \<comment> \<open>a timer of a connection is in its field\<close>
  assumes "timers_ok {} T" "in_lists (clock T) a" "timer_data (clock T) a = (p, i, per)" "conn_proc p"
  shows "owns T p i = Some a"
proof -
  obtain L M where r: "repr L M (clock T)" and v: "live_ok {} L (clock T) (owns T)" using assms(1) by (auto simp: timers_ok_def)
  show ?thesis using live_okD(2) [OF v _ assms(3,4)] in_lists_live [OF assms(2) r] by simp
qed

lemma timers_end:
  \<comment> \<open>the timer that has been handled is cancelled\<close>
  assumes "timers_ok {a} T" "owns T' = owns T" "clock T' = tmr_cancel a (clock T)"
  shows "timers_ok {} T'"
proof -
  obtain L M where r: "repr L M (clock T)" and v: "live_ok {a} L (clock T) (owns T)" using assms(1) by (auto simp: timers_ok_def)
  have "live_ok {} (L - {a}) (clock T) (owns T)"
  proof (rule live_okI)
    show "owns T q j = Some b" if "b \<in> L - {a} - {}" "timer_data (clock T) b = (q, j, per)" "conn_proc q" for b q j per
      using live_okD(2) [OF v, of b q j per] that by auto
    show "b \<in> L - {a} - {}" "timer_data (clock T) b = (q, j, False)" if "owns T q j = Some b" for b q j
      using live_okD(3,4) [OF v that] by auto
    show "\<not> conn_proc q" if "b \<in> L - {a}" "timer_data (clock T) b = (q, j, True)" for b q j
      using live_okD(5) [OF v _ that(2)] that(1) by auto
  qed simp
  moreover have "repr (L - {a}) M (clock T')" using repr_cancel [OF r] live_okD(1) [OF v] by (simp add: assms(3))
  ultimately show ?thesis using live_data [OF cancel_timer_data] unfolding timers_ok_def assms(2,3) by blast
qed

lemma timers_again:
  \<comment> \<open>a periodic timer has been handled and goes on\<close>
  assumes "timers_ok {a} T" "owns T' = owns T" "periodic (heap (clock T) a)"
  shows "\<exists>t. l_resort a (upd a (\<lambda>r. r\<lparr>tm_time := x\<rparr>) (clock T)) = Some t \<and> (clock T' = t \<longrightarrow> timers_ok {} T')"
proof -
  obtain L M where r: "repr L M (clock T)" and v: "live_ok {a} L (clock T) (owns T)" using assms(1) by (auto simp: timers_ok_def)
  note l = live_okD [OF v]
  have a: "a \<in> L" using l(1) by simp
  obtain t where t: "l_resort a (upd a (\<lambda>r. r\<lparr>tm_time := x\<rparr>) (clock T)) = Some t" "repr L M t"
    "\<And>b. timer_data t b = timer_data (clock T) b" using repr_resort [OF r a, of x] by blast
  have "\<not> conn_proc p" if "timer_data (clock T) a = (p, i, per)" for p i per
    using l(5) [OF a, of p i] that assms(3) by (auto simp: timer_data_def)
  note na = this
  have "live_ok {} L (clock T) (owns T)"
  proof (rule live_okI)
    show "owns T q j = Some b" if "b \<in> L - {}" "timer_data (clock T) b = (q, j, per)" "conn_proc q" for b q j per
      using l(2) [of b q j per] that na [of q j per] by auto
    show "b \<in> L - {}" "timer_data (clock T) b = (q, j, False)" if "owns T q j = Some b" for b q j
      using l(3,4) [OF that] by auto
    show "\<not> conn_proc q" if "b \<in> L" "timer_data (clock T) b = (q, j, True)" for b q j using l(5) [OF that] .
  qed simp
  then have "timers_ok {} T'" if "clock T' = t"
    using live_data [OF ext, OF t(3)] t(2) unfolding timers_ok_def assms(2) that by blast
  then show ?thesis using t(1) by blast
qed

lemma timers_create:
  assumes "timers_ok D T" "\<And>L M b. repr L M (clock T) \<Longrightarrow> mem = Some b \<Longrightarrow> b \<notin> M"
  shows "\<exists>r t. tmr_create mem nowP p i ms per (clock T) = Some (r, t) \<and>
    (\<forall>a T'. r = Some a \<longrightarrow> clock T' = t \<longrightarrow>
       (owns T p i = None \<and> conn_proc p \<and> \<not> per \<and> owns T' = own_upd (owns T) p i (Some a)) \<or> (\<not> conn_proc p \<and> owns T' = owns T) \<longrightarrow>
       timers_ok D T')"
proof -
  obtain L M where R: "repr L M (clock T)" and v: "live_ok D L (clock T) (owns T)" using assms(1) by (auto simp: timers_ok_def)
  note l = live_okD [OF v]
  from repr_create [OF R, of mem nowP p i ms per] assms(2) [OF R] obtain r t where
    c: "tmr_create mem nowP p i ms per (clock T) = Some (r, t)"
    "case r of None \<Rightarrow> t = clock T | Some a \<Rightarrow> a \<notin> L \<and> repr (insert a L) (insert a M) t" by auto
  have "timers_ok D T'" if a: "r = Some a" "clock T' = t"
      and o: "(owns T p i = None \<and> conn_proc p \<and> \<not> per \<and> owns T' = own_upd (owns T) p i (Some a)) \<or> (\<not> conn_proc p \<and> owns T' = owns T)"
    for a T'
  proof -
    have n: "a \<notin> L" "repr (insert a L) (insert a M) t" using c(2) a(1) by auto
    have d: "timer_data t b = (if b = a then (p, i, per) else timer_data (clock T) b)" for b
      using create_data c(1) a by blast
    have "live_ok D (insert a L) t (owns T')"
    proof (rule live_okI)
      show "D \<subseteq> insert a L" using l(1) by auto
      show "owns T' q j = Some b" if "b \<in> insert a L - D" "timer_data t b = (q, j, per')" "conn_proc q" for b q j per'
        using that l(2) [of b q j per'] o d [of b] by (auto simp: own_upd_def split: if_splits)
      show "b \<in> insert a L - D" "timer_data t b = (q, j, False)" if "owns T' q j = Some b" for b q j
        using that l(1) l(3) [of q j b] l(4) [of q j b] o d [of b] n(1) by (auto simp: own_upd_def split: if_splits)
      show "\<not> conn_proc q" if "b \<in> insert a L" "timer_data t b = (q, j, True)" for b q j
        using that l(5) [of b q j] o d [of b] n(1) by (auto split: if_splits)
    qed
    then show ?thesis using n(2) a(2) unfolding timers_ok_def by blast
  qed
  then show ?thesis using c(1) by blast
qed

lemma timers_cleanup:
  assumes "timers_ok D T" "owns T' = owns T"
  shows "\<exists>t. tmr_cleanup (clock T) = Some t \<and> (clock T' = t \<longrightarrow> timers_ok D T')"
proof -
  obtain L M where r: "repr L M (clock T)" and v: "live_ok D L (clock T) (owns T)" using assms(1) by (auto simp: timers_ok_def)
  from repr_cleanup [OF r] obtain t where t: "tmr_cleanup (clock T) = Some t" "repr L L t"
    "\<And>b. timer_data t b = timer_data (clock T) b" by blast
  have "timers_ok D T'" if "clock T' = t"
    using live_data [OF ext, OF t(3) v] t(2) unfolding timers_ok_def assms(2) that by blast
  then show ?thesis using t(1) by blast
qed

end
