(* ===== verification/Th_Send.thy ===== *)
theory Th_Send
  imports Th_Conn
begin

text \<open>
  Sending a file over a connection of thttpd (\<open>handle_send\<close> with its partial writes, pauses and the end of the connection):
  what has been written is at any time the beginning of the response and the wanted part of the file, and all of it when the
  connection is left without an error.
\<close>

section \<open>What the closing operations leave alone\<close>

lemma wire_stop [simp]: "wire (stop x s) = wire s" "connects (stop x s) = connects s"
  by (simp_all add: stop_def)

lemma wire_set_conn [simp]: "wire (set_conn i f s) = wire s" "wire (set_hc i h s) = wire s" "wire (set_tmr t s) = wire s"
  by (simp_all add: set_hc_def set_conn_def set_tmr_def)

lemma connects_set_tmr [simp]: "connects (set_tmr t s) = connects s"
  by (simp add: set_tmr_def)

lemma add_fd_same [simp]: "wire (add_fd fd i rw s) = wire s" "connects (add_fd fd i rw s) = connects s"
  by (simp_all add: add_fd_def stop_def split: option.split)

lemma del_fd_same [simp]: "wire (del_fd fd s) = wire s" "connects (del_fd fd s) = connects s"
  by (simp_all add: del_fd_def stop_def split: option.split)

lemma next_do_same: "(\<And>s. g (f s) = g s) \<Longrightarrow> g (next_do f s) = g s"
  by (simp add: next_do_def)

lemma wire_start_timer [simp]: "wire (start_timer e nowP p i ms st s) = wire s"
  by (simp add: start_timer_def split: option.split prod.split)

lemma wire_close [simp]: "wire (httpd_close_conn e i nowP s) = wire s"
  by (simp add: httpd_close_conn_def Let_def split: option.split)

lemma wire_drop_linger [simp]: "wire (drop_linger i s) = wire s" "wire (free_slot i s) = wire s"
  by (simp_all add: drop_linger_def free_slot_def split: option.split)

lemma wire_really_clear [simp]: "wire (really_clear_connection e nowP i s) = wire s"
  by (simp add: really_clear_connection_def Let_def next_do_def)

lemma wire_clear [simp]: "wire (clear_connection e nowP i s) = wire s"
  by (simp add: clear_connection_def stop_wakeup_def stop_linger_def start_linger_def Let_def next_do_def split: option.split)

lemma wire_finish: "wire (finish_connection e nowP i s) = (wire s)(i := wire s i @ pending (conn_hc s i))"
  by (simp add: finish_connection_def httpd_write_response_def pending_def)

section \<open>What is left to be sent\<close>

definition rest :: "string \<Rightarrow> nat \<Rightarrow> srv \<Rightarrow> string" where
  \<comment> \<open>the first argument: the bytes of the file's map\<close>
  "rest bs i s = pending (conn_hc s i) @
     take (nat (end_byte_index (connects s ! i) - next_byte_index (connects s ! i))) (drop (nat (next_byte_index (connects s ! i))) bs)"

definition at_work :: "conn \<Rightarrow> bool" where
  "at_work c \<longleftrightarrow> conn_state c = CNST_SENDING \<or> conn_state c = CNST_PAUSING"

definition send_ok :: "string \<Rightarrow> nat \<Rightarrow> nat \<Rightarrow> srv \<Rightarrow> bool" where
  "send_ok bs a i s \<longleftrightarrow> i < length (connects s) \<and> the_hc (connects s ! i) \<noteq> None \<and> at_work (connects s ! i) \<and>
     file_address (conn_hc s i) = Some a \<and>
     0 \<le> next_byte_index (connects s ! i) \<and> next_byte_index (connects s ! i) < end_byte_index (connects s ! i) \<and>
     end_byte_index (connects s ! i) \<le> int (length bs) \<and> length bs < 2 ^ 63 \<and> response_ok (conn_hc s i)"

definition same_send :: "nat \<Rightarrow> srv \<Rightarrow> srv \<Rightarrow> bool" where
  \<comment> \<open>the parts of the connection that matter here\<close>
  "same_send i s s' \<longleftrightarrow> length (connects s') = length (connects s) \<and> wire s' = wire s \<and>
     the_hc (connects s' ! i) = the_hc (connects s ! i) \<and>
     next_byte_index (connects s' ! i) = next_byte_index (connects s ! i) \<and>
     end_byte_index (connects s' ! i) = end_byte_index (connects s ! i) \<and>
     max_limit (connects s' ! i) = max_limit (connects s ! i) \<and>
     (at_work (connects s ! i) \<longrightarrow> at_work (connects s' ! i))"

lemma same_send_refl [simp]: "same_send i s s"
  by (simp add: same_send_def)

lemma same_send_trans: "same_send i s s' \<Longrightarrow> same_send i s' s'' \<Longrightarrow> same_send i s s''"
  by (simp add: same_send_def)

lemma same_sendD:
  assumes "same_send i s s'"
  shows "rest bs i s' = rest bs i s" "send_ok bs a i s \<Longrightarrow> send_ok bs a i s'" "wire s' = wire s"
    "max_limit (connects s' ! i) = max_limit (connects s ! i)"
  using assms by (simp_all add: same_send_def rest_def send_ok_def conn_hc_def)

lemma set_conn_nth [simp]: "i < length (connects s) \<Longrightarrow> connects (set_conn i f s) ! i = f (connects s ! i)"
  by (simp add: set_conn_def)

lemma set_conn_length [simp]: "length (connects (set_conn i f s)) = length (connects s)"
  by (simp add: set_conn_def)

lemma pause_same_send:
  assumes "i < length (connects s)"
  shows "same_send i s (pause e i ms s)"
  using assms by (simp add: pause_def next_do_def start_timer_def same_send_def at_work_def split: option.split prod.split)

lemma blocked_same_send:
  assumes "i < length (connects s)"
  shows "same_send i s (send_blocked e i s)"
proof -
  let ?s = "set_conn i (\<lambda>c. c\<lparr>wouldblock_delay := wouldblock_delay (connects s ! i) + MIN_WOULDBLOCK_DELAY\<rparr>) s"
  have "same_send i ?s (send_blocked e i s)" using assms pause_same_send [of i ?s] by (simp add: send_blocked_def Let_def)
  then show ?thesis using assms by (simp add: same_send_def at_work_def)
qed

lemma wakeup_same_send:
  assumes "i < length (connects s)"
  shows "same_send i s (wakeup_connection i s)"
  using assms by (simp add: wakeup_connection_def Let_def same_send_def at_work_def)

lemma throttle_same_send:
  assumes "i < length (connects s)"
  shows "same_send i s (throttle_send e i s)"
  using assms pause_same_send [of i s] by (simp add: throttle_send_def Let_def same_send_def)

lemma send_size_le:
  assumes "send_ok bs a i s"
  shows "int (send_size (connects s ! i)) \<le> end_byte_index (connects s ! i) - next_byte_index (connects s ! i)"
proof -
  have "end_byte_index (connects s ! i) - next_byte_index (connects s ! i) < 2 ^ 64"
    using assms by (simp add: send_ok_def)
  moreover have "0 \<le> end_byte_index (connects s ! i) - next_byte_index (connects s ! i)" using assms by (simp add: send_ok_def)
  ultimately have "(end_byte_index (connects s ! i) - next_byte_index (connects s ! i)) mod 2 ^ 64 =
      end_byte_index (connects s ! i) - next_byte_index (connects s ! i)" by simp
  then show ?thesis using \<open>0 \<le> _\<close> by (simp add: send_size_def)
qed

lemma advance_pending:
  assumes "response_ok h" "advance n h = (h1, sz)"
  shows "take n (pending h @ x) @ pending h1 @ drop sz x = pending h @ x" "response_ok h1" "sz = n - responselen h"
    "sz \<noteq> 0 \<Longrightarrow> responselen h1 = 0" "file_address h1 = file_address h"
proof -
  have l: "responselen h \<le> length (str (response h))" using assms(1) by (simp add: response_ok_def)
  show "take n (pending h @ x) @ pending h1 @ drop sz x = pending h @ x"
  proof (cases "n < responselen h")
    case True
    then have h1: "pending h1 = take (responselen h - n) (drop n (str (response h)))" "sz = 0"
      using assms(2) l by (auto simp: advance_def pending_def split: if_splits)
    have "take n (pending h) @ pending h1 = pending h"
      unfolding h1 using True l append_take_drop_id [of n "take (responselen h) (str (response h))"]
      by (simp add: pending_def drop_take [symmetric] min_def)
    then show ?thesis using True l h1(2) by (simp add: pending_def)
  next
    case False
    then have h1: "pending h1 = []" "sz = n - responselen h"
      using assms(2) l by (auto simp: advance_def pending_def split: if_splits)
    have "take n (pending h @ x) = pending h @ take (n - responselen h) x" using False l by (simp add: pending_def)
    then show ?thesis by (simp add: h1)
  qed
  show "response_ok h1" using assms by (auto simp: advance_def response_ok_def split: if_splits)
  show "sz = n - responselen h" using assms(2) by (auto simp: advance_def split: if_splits)
  show "file_address h1 = file_address h" using assms(2) by (auto simp: advance_def split: if_splits)
  show "sz \<noteq> 0 \<Longrightarrow> responselen h1 = 0" using assms(2) by (auto simp: advance_def split: if_splits)
qed

lemma advanced_delivers:
  assumes "send_ok bs a i s" "mapped e a = bs"
    "n \<le> responselen (conn_hc s i) + send_size (connects s ! i)"
  shows "wire (advanced e i n s) i @ rest bs i (advanced e i n s) = wire s i @ rest bs i s"
    "length (wire (advanced e i n s) i) = length (wire s i) + n"
    "next_byte_index (connects (advanced e i n s) ! i) < end_byte_index (connects (advanced e i n s) ! i)
      \<Longrightarrow> send_ok bs a i (advanced e i n s)"
    "end_byte_index (connects (advanced e i n s) ! i) \<le> next_byte_index (connects (advanced e i n s) ! i)
      \<Longrightarrow> rest bs i (advanced e i n s) = [] \<and> pending (conn_hc (advanced e i n s) i) = []"
proof -
  let ?c = "connects s ! i" and ?h = "conn_hc s i" and ?s = "advanced e i n s"
  define d where "d = nat (next_byte_index ?c)"
  define k where "k = nat (end_byte_index ?c - next_byte_index ?c)"
  obtain h1 sz where a: "advance n ?h = (h1, sz)" by fastforce
  note ok = assms(1) [unfolded send_ok_def]
  have addr: "mapped e (the (file_address ?h)) = bs" using assms(2) ok by simp
  have sz: "sz = n - responselen ?h" "response_ok h1" "sz \<noteq> 0 \<Longrightarrow> responselen h1 = 0"
    "file_address h1 = file_address ?h" using advance_pending [OF _ a] ok by auto
  have le: "int (send_size ?c) \<le> int k" using send_size_le [OF assms(1)] ok by (simp add: k_def)
  then have szk: "sz \<le> k" using sz(1) assms(3) by linarith
  have ci: "connects ?s ! i = ?c\<lparr>the_hc := Some (h1\<lparr>bytes_sent := bytes_sent ?h + int sz\<rparr>), active_at := tv_sec (tv e),
      next_byte_index := next_byte_index ?c + int sz\<rparr>"
    using ok a by (simp add: advanced_def Let_def set_hc_def set_conn_def)
  then have hc: "conn_hc ?s i = h1\<lparr>bytes_sent := bytes_sent ?h + int sz\<rparr>" by (simp add: conn_hc_def)
  have ln: "length (connects ?s) = length (connects s)" by (simp add: advanced_def Let_def set_hc_def set_conn_def)
  have w: "wire ?s i = wire s i @ take n (to_write e ?c ?h)" by (simp add: advanced_def Let_def)
  have pend: "pending (h1\<lparr>bytes_sent := b\<rparr>) = pending h1" for b by (simp add: pending_def)
  have tk: "take n (to_write e ?c ?h) = take n (pending ?h @ take k (drop d bs))"
  proof -
    have p: "length (pending ?h) = responselen ?h" using ok by (simp add: pending_def response_ok_def)
    have "n - responselen ?h \<le> send_size ?c" using assms(3) by linarith
    moreover from this have "n - responselen ?h \<le> k" using le by linarith
    ultimately show ?thesis
      unfolding to_write_def addr d_def [symmetric] take_append p take_take by (simp add: min_absorb1)
  qed
  have r: "rest bs i ?s = pending h1 @ take (k - sz) (drop (d + sz) bs)"
  proof -
    have "nat (end_byte_index ?c - (next_byte_index ?c + int sz)) = k - sz" by (simp add: k_def)
    moreover have "nat (next_byte_index ?c + int sz) = d + sz" using ok by (simp add: d_def nat_add_distrib)
    ultimately show ?thesis by (simp add: rest_def hc ci pend)
  qed
  have dr: "take (k - sz) (drop (d + sz) bs) = drop sz (take k (drop d bs))" by (simp add: drop_take add.commute)
  show "wire ?s i @ rest bs i ?s = wire s i @ rest bs i s"
    using advance_pending(1) [OF _ a, of "take k (drop d bs)"] ok unfolding w tk r dr by (simp add: rest_def d_def k_def)
  show "length (wire ?s i) = length (wire s i) + n"
  proof -
    have "length (pending ?h) = responselen ?h" using ok by (simp add: pending_def response_ok_def)
    moreover have "int k + int d \<le> int (length bs)" using ok by (simp add: k_def d_def)
    moreover have "n \<le> responselen ?h + k" using assms(3) le by linarith
    ultimately show ?thesis unfolding w tk by simp
  qed
  show "send_ok bs a i ?s" if "next_byte_index (connects ?s ! i) < end_byte_index (connects ?s ! i)"
    using that ok sz(2,4) by (simp add: send_ok_def ln ci hc response_ok_def at_work_def)
  show "rest bs i ?s = [] \<and> pending (conn_hc ?s i) = []" if "end_byte_index (connects ?s ! i) \<le> next_byte_index (connects ?s ! i)"
  proof -
    have "k \<le> sz" using that ok by (simp add: ci k_def)
    moreover have "0 < k" using ok by (simp add: k_def)
    ultimately have "sz \<noteq> 0" "k - sz = 0" by simp_all
    then show ?thesis using sz(3) by (simp add: r hc pend pending_def)
  qed
qed

lemma advanced_max_limit:
  "i < length (connects s) \<Longrightarrow> max_limit (connects (advanced e i n s) ! i) = max_limit (connects s ! i)"
  by (simp add: advanced_def Let_def set_hc_def set_conn_def)

definition left_work :: "nat \<Rightarrow> srv \<Rightarrow> bool" where
  "left_work i s \<longleftrightarrow> ended s \<noteq> None \<or> \<not> at_work (connects s ! i)"

lemma start_timer_state:
  assumes "i < length (connects s)" "\<And>a c. conn_state (st a c) = conn_state c"
  shows "conn_state (connects (start_timer e nowP p i ms st s) ! i) = conn_state (connects s ! i)"
  using assms by (simp add: start_timer_def split: option.split prod.split)

lemma close_length [simp]: "length (connects (httpd_close_conn e i nowP s)) = length (connects s)"
  by (simp add: httpd_close_conn_def Let_def set_hc_def split: option.split)

lemma drop_linger_length [simp]: "length (connects (drop_linger i s)) = length (connects s)"
  by (simp add: drop_linger_def split: option.split)

lemma free_slot_state: "i < length (connects s) \<Longrightarrow> conn_state (connects (free_slot i s) ! i) = CNST_FREE"
  by (simp add: free_slot_def set_conn_def)

definition gone :: "nat \<Rightarrow> srv \<Rightarrow> bool" where
  "gone i s \<longleftrightarrow> ended s \<noteq> None \<or> conn_state (connects s ! i) = CNST_FREE \<or> conn_state (connects s ! i) = CNST_LINGERING"

lemma really_clear_gone: "i < length (connects s) \<Longrightarrow> gone i (really_clear_connection e nowP i s)"
  by (simp add: really_clear_connection_def Let_def next_do_def gone_def free_slot_state)

lemma start_linger_gone: "i < length (connects s) \<Longrightarrow> gone i (start_linger e nowP i s)"
  by (auto simp: start_linger_def Let_def next_do_def gone_def start_timer_state)

lemma stops_length [simp]: "length (connects (stop_linger i s)) = length (connects s)"
  "length (connects (stop_wakeup i s)) = length (connects s)"
  by (simp_all add: stop_linger_def stop_wakeup_def set_hc_def split: option.split)

lemma clear_gone: "i < length (connects s) \<Longrightarrow> gone i (clear_connection e nowP i s)"
  using really_clear_gone start_linger_gone by (simp add: clear_connection_def next_do_def) (simp add: gone_def)

lemma finish_gone: "i < length (connects s) \<Longrightarrow> gone i (finish_connection e nowP i s)"
  using clear_gone by (simp add: finish_connection_def set_hc_def split: prod.split)

lemma finish_leaves: "i < length (connects s) \<Longrightarrow> left_work i (finish_connection e nowP i s)"
  using finish_gone [of i s e nowP] by (auto simp: gone_def left_work_def at_work_def)

lemma written_delivers:
  assumes "send_ok bs a i s" "mapped e a = bs" "n \<le> responselen (conn_hc s i) + send_size (connects s ! i)"
  shows "(wire (written e i n s) i = wire s i @ rest bs i s \<and> left_work i (written e i n s)) \<or>
    (send_ok bs a i (written e i n s) \<and> wire (written e i n s) i @ rest bs i (written e i n s) = wire s i @ rest bs i s \<and>
     length (wire (written e i n s) i) = length (wire s i) + n \<and> max_limit (connects (written e i n s) ! i) = max_limit (connects s ! i))"
proof -
  let ?s = "advanced e i n s"
  let ?t = "set_conn i (\<lambda>c. if MIN_WOULDBLOCK_DELAY < wouldblock_delay c
                then c\<lparr>wouldblock_delay := wouldblock_delay c - MIN_WOULDBLOCK_DELAY\<rparr> else c) ?s"
  note a = advanced_delivers [OF assms]
  have i: "i < length (connects s)" "i < length (connects ?s)"
    using assms(1) by (simp_all add: send_ok_def advanced_def Let_def set_hc_def)
  show ?thesis
  proof (cases "end_byte_index (connects ?s ! i) \<le> next_byte_index (connects ?s ! i)")
    case True
    then have "written e i n s = finish_connection e (tv e) i ?s" by (simp add: written_def Let_def)
    then show ?thesis using a(1) a(4) [OF True] finish_leaves [OF i(2)] by (simp add: wire_finish)
  next
    case False
    then have ok: "send_ok bs a i ?s" using a(3) by simp
    have "same_send i ?s ?t" using i by (simp add: same_send_def at_work_def)
    moreover have "same_send i ?t (throttle_send e i ?t)" using i by (intro throttle_same_send) simp
    ultimately have same: "same_send i ?s (written e i n s)"
      using False same_send_trans by (simp add: written_def Let_def)
    show ?thesis
      using same_sendD(1) [OF same, of bs] same_sendD(2) [OF same ok] same_sendD(3,4) [OF same] a(1,2)
        advanced_max_limit [OF i(1), of e n]
      by simp
  qed
qed

definition unsent :: "string \<Rightarrow> nat \<Rightarrow> srv \<Rightarrow> nat" where
  \<comment> \<open>what decreases with every round\<close>
  "unsent bs i s = 2 * length (rest bs i s) + (if conn_state (connects s ! i) = CNST_PAUSING then 1 else 0)"

definition writes_some :: "env \<Rightarrow> nat \<Rightarrow> bool" where
  "writes_some e i \<longleftrightarrow> (case writes e i of Wrote n \<Rightarrow> 0 < n | _ \<Rightarrow> False)"

lemma handle_send_delivers:
  assumes "send_ok bs a i s" "mapped e a = bs" "writes e i \<noteq> Write_error" "s' = handle_send e i s"
  shows "(wire s' i = wire s i @ rest bs i s \<and> left_work i s') \<or>
    (send_ok bs a i s' \<and> wire s' i @ rest bs i s' = wire s i @ rest bs i s \<and> max_limit (connects s' ! i) = max_limit (connects s ! i))"
proof -
  have i: "i < length (connects s)" using assms(1) by (simp add: send_ok_def)
  from same_sendD [OF blocked_same_send [OF i, of e]] assms(1)
  have b: "send_ok bs a i (send_blocked e i s) \<and> wire (send_blocked e i s) i @ rest bs i (send_blocked e i s) = wire s i @ rest bs i s
      \<and> max_limit (connects (send_blocked e i s) ! i) = max_limit (connects s ! i)"
    by simp
  show ?thesis
  proof (cases "writes e i")
    case (Wrote n)
    then show ?thesis
      using b written_delivers [OF assms(1,2), of "min n (responselen (conn_hc s i) + send_size (connects s ! i))"]
      unfolding assms(4) by (simp add: handle_send_def Let_def) linarith
  qed (use b assms in \<open>simp_all add: handle_send_def\<close>)
qed

definition fast_enough :: "conn \<Rightarrow> bool" where
  "fast_enough c \<longleftrightarrow> max_limit c = THROTTLE_NOLIMIT \<or> (4 \<le> max_limit c \<and> max_limit c < 2 ^ 63)"

lemma send_size_pos:
  assumes "send_ok bs a i s" "fast_enough (connects s ! i)"
  shows "0 < send_size (connects s ! i)"
proof -
  let ?c = "connects s ! i"
  have "end_byte_index ?c - next_byte_index ?c < 2 ^ 64" "0 < end_byte_index ?c - next_byte_index ?c"
    using assms(1) by (simp_all add: send_ok_def)
  then have "0 < (end_byte_index ?c - next_byte_index ?c) mod 2 ^ 64" by simp
  moreover have "0 < max_bytes ?c"
  proof (cases "max_limit ?c = THROTTLE_NOLIMIT")
    case False
    then have m: "4 \<le> max_limit ?c" "max_limit ?c < 2 ^ 63" using assms(2) by (simp_all add: fast_enough_def)
    then have "max_limit ?c sdiv 4 = max_limit ?c div 4" by (simp add: signed_divide_int_def sgn_if)
    then show ?thesis using False m by (simp add: max_bytes_def)
  qed (simp add: max_bytes_def)
  ultimately show ?thesis by (simp add: send_size_def)
qed

lemma handle_send_progress:
  assumes "send_ok bs a i s" "mapped e a = bs" "writes_some e i" "fast_enough (connects s ! i)"
    "conn_state (connects s ! i) = CNST_SENDING" "s' = handle_send e i s"
  shows "(wire s' i = wire s i @ rest bs i s \<and> left_work i s') \<or> unsent bs i s' < unsent bs i s"
proof -
  obtain n where n: "writes e i = Wrote n" "0 < n" using assms(3) by (auto simp: writes_some_def split: write_answer.splits)
  let ?n = "min n (responselen (conn_hc s i) + send_size (connects s ! i))"
  have "0 < ?n" using n send_size_pos [OF assms(1,4)] by simp
  then have "s' = written e i ?n s" using n assms(6) by (simp del: min_less_iff_conj add: handle_send_def Let_def)
  with written_delivers [OF assms(1,2), of ?n] have
    "(wire s' i = wire s i @ rest bs i s \<and> left_work i s') \<or>
     (wire s' i @ rest bs i s' = wire s i @ rest bs i s \<and> length (wire s' i) = length (wire s i) + ?n)" by auto
  then show ?thesis
  proof (elim disjE)
    assume a: "wire s' i @ rest bs i s' = wire s i @ rest bs i s \<and> length (wire s' i) = length (wire s i) + ?n"
    then have "length (wire s' i @ rest bs i s') = length (wire s i @ rest bs i s)" by simp
    then have "length (rest bs i s') < length (rest bs i s)" using a \<open>0 < ?n\<close> unfolding length_append by linarith
    then show ?thesis using assms(5) by (simp add: unsent_def)
  qed simp
qed

section \<open>Rounds of sending\<close>

fun send_rounds :: "nat \<Rightarrow> env list \<Rightarrow> srv \<Rightarrow> srv" where
  \<comment> \<open>a connection is served again and again: \<open>handle_send\<close> when it may send, its wake-up when it pauses\<close>
  "send_rounds i [] s = s"
| "send_rounds i (e # es) s =
     (if left_work i s then s
      else if conn_state (connects s ! i) = CNST_SENDING then send_rounds i es (handle_send e i s)
      else send_rounds i es (wakeup_connection i s))"

lemma left_work_rounds: "left_work i s \<Longrightarrow> send_rounds i es s = s"
  by (cases es) simp_all

lemma wakeup_progress:
  assumes "send_ok bs a i s" "conn_state (connects s ! i) = CNST_PAUSING"
  shows "unsent bs i (wakeup_connection i s) < unsent bs i s"
proof -
  have i: "i < length (connects s)" using assms(1) by (simp add: send_ok_def)
  then have "conn_state (connects (wakeup_connection i s) ! i) = CNST_SENDING"
    using assms(2) by (simp add: wakeup_connection_def Let_def)
  then show ?thesis using assms(2) same_sendD(1) [OF wakeup_same_send [OF i], of bs] by (simp add: unsent_def)
qed

lemma send_rounds_step:
  assumes "send_ok bs a i s" "\<And>e. e \<in> set es \<Longrightarrow> mapped e a = bs \<and> writes e i \<noteq> Write_error" "s' = send_rounds i es s"
  shows "(wire s' i = wire s i @ rest bs i s \<and> left_work i s') \<or>
    (send_ok bs a i s' \<and> wire s' i @ rest bs i s' = wire s i @ rest bs i s \<and>
     (fast_enough (connects s ! i) \<longrightarrow> (\<forall>e\<in>set es. writes_some e i) \<longrightarrow> ended s' = None \<longrightarrow>
        unsent bs i s' + length es \<le> unsent bs i s))"
  using assms
proof (induction es arbitrary: s)
  case (Cons e es)
  show ?case
  proof (cases "left_work i s")
    case True
    then show ?thesis using Cons.prems by (auto simp: left_work_def send_ok_def)
  next
    case False
    define t where "t = (if conn_state (connects s ! i) = CNST_SENDING then handle_send e i s else wakeup_connection i s)"
    have s': "s' = send_rounds i es t" using False Cons.prems(3) by (simp add: t_def)
    have i: "i < length (connects s)" using Cons.prems(1) by (simp add: send_ok_def)
    have st: "conn_state (connects s ! i) \<noteq> CNST_SENDING \<Longrightarrow> conn_state (connects s ! i) = CNST_PAUSING"
      using False by (simp add: left_work_def at_work_def)
    have step: "(wire t i = wire s i @ rest bs i s \<and> left_work i t) \<or>
        (send_ok bs a i t \<and> wire t i @ rest bs i t = wire s i @ rest bs i s \<and> max_limit (connects t ! i) = max_limit (connects s ! i))"
      using handle_send_delivers [OF Cons.prems(1), of e "handle_send e i s"] Cons.prems(1,2)
        same_sendD [OF wakeup_same_send [OF i]] by (auto simp: t_def)
    have prog: "(wire t i = wire s i @ rest bs i s \<and> left_work i t) \<or> unsent bs i t < unsent bs i s"
      if "fast_enough (connects s ! i)" "writes_some e i"
      using handle_send_progress [OF Cons.prems(1) _ that(2,1)] wakeup_progress [OF Cons.prems(1)] st Cons.prems(2)
      by (auto simp: t_def)
    show ?thesis
    proof (cases "wire t i = wire s i @ rest bs i s \<and> left_work i t")
      case True
      then show ?thesis by (simp add: s' left_work_rounds)
    next
      case f: False
      then have t: "send_ok bs a i t" "wire t i @ rest bs i t = wire s i @ rest bs i s" "max_limit (connects t ! i) = max_limit (connects s ! i)"
        using step by auto
      then have fe: "fast_enough (connects t ! i) = fast_enough (connects s ! i)" by (simp add: fast_enough_def)
      from Cons.IH [OF t(1) _ s'] Cons.prems(2) have
        "(wire s' i = wire t i @ rest bs i t \<and> left_work i s') \<or>
         (send_ok bs a i s' \<and> wire s' i @ rest bs i s' = wire t i @ rest bs i t \<and>
          (fast_enough (connects t ! i) \<longrightarrow> (\<forall>e\<in>set es. writes_some e i) \<longrightarrow> ended s' = None \<longrightarrow>
             unsent bs i s' + length es \<le> unsent bs i t))" by simp
      then show ?thesis unfolding t(2) fe using prog f by auto
    qed
  qed
qed simp


section \<open>An example\<close>

definition new_conn :: conn where
  "new_conn = \<lparr>conn_state = CNST_FREE, next_free_connect = -1, the_hc = None, the_sb = old_stat, tnums = [], max_limit = -1,
     min_limit = -1, started_at = 0, active_at = 0, wakeup_timer = None, linger_timer = None, wouldblock_delay = 0,
     end_byte_index = 0, next_byte_index = 0\<rparr>"

definition new_srv :: srv where
  \<comment> \<open>a watch of 16 descriptors, no connection\<close>
  "new_srv = \<lparr>connects = [], num_connects = 0, first_free_connect = -1, httpd_conn_count = 0, throttles = [], the_world = new_world,
     fds = snd (fdwatch_get_nfiles 16 None True True blank_watch), stats_connections = 0, stats_bytes = 0, stats_simultaneous = 0,
     watchdog_flag = False, got_usr1 = False, terminate = False, listen4_fd = 3, listen6_fd = -1, wire = (\<lambda>i. []), ended = None\<rparr>"

definition quiet_env :: env where
  \<comment> \<open>nothing to read, writes of at most three bytes\<close>
  "quiet_env = \<lparr>sys = plain_web, tv = Timeval 100 0, timer_memory = (\<lambda>t. None),
     conn_memory = Some (get_conn_for ''a.html''), mapped = (\<lambda>a. ''hello''), kill_ok = (\<lambda>p. False), reads = (\<lambda>i. Read_again),
     writes = (\<lambda>i. Wrote 3), accepts4 = [], accepts6 = [], poll_result = 0, poll_retry = False, poll_revents = (\<lambda>fd. 0)\<rparr>"

definition sending_srv :: srv where
  "sending_srv = new_srv\<lparr>connects := [new_conn\<lparr>conn_state := CNST_SENDING, end_byte_index := 4, next_byte_index := 1,
     the_hc := Some ((get_conn_for ''a.html'')\<lparr>response := \<lparr>str = ''OK'', maxsize = 200\<rparr>, responselen := 2,
       file_address := Some 7\<rparr>)\<rparr>]\<rparr>"


end
