(* ===== verification/Th_Live.thy ===== *)
theory Th_Live
  imports Th_Table Th_Send
begin

text \<open>
  The law of thttpd's table of connections as a whole, with the timers that belong to each state of a connection, and the
  procedures that end a connection: they keep the law.
\<close>

section \<open>The law of the table\<close>

definition slot_fit :: "slot \<Rightarrow> bool" where
  \<comment> \<open>which timers a connection in use has, and when it is counted by throttles\<close>
  "slot_fit c \<longleftrightarrow> (slot_wakeup c \<noteq> None \<longleftrightarrow> slot_state c = CNST_PAUSING) \<and>
     (slot_linger c \<noteq> None \<longleftrightarrow> slot_state c = CNST_LINGERING) \<and> (slot_state c = CNST_READING \<longrightarrow> slot_nums c = [])"

definition conns_ok :: "nat option \<Rightarrow> nat set \<Rightarrow> table \<Rightarrow> bool" where
  \<comment> \<open>but for the timers of a connection that is being handled, and for some timers\<close>
  "conns_ok x D T \<longleftrightarrow> free_ok T \<and> count_ok T \<and> watch_ok T \<and> timers_ok D T \<and>
     (\<forall>i. busy T i \<longrightarrow> x \<noteq> Some i \<longrightarrow> slot_fit (rows T ! i))"

lemma conns_okD:
  assumes "conns_ok x D T"
  shows "free_ok T" "count_ok T" "watch_ok T" "timers_ok D T" "busy T i \<Longrightarrow> x \<noteq> Some i \<Longrightarrow> slot_fit (rows T ! i)"
  using assms by (auto simp: conns_ok_def)

lemma conns_okI:
  assumes "free_ok T" "count_ok T" "watch_ok T" "timers_ok D T" "\<And>i. busy T i \<Longrightarrow> x \<noteq> Some i \<Longrightarrow> slot_fit (rows T ! i)"
  shows "conns_ok x D T"
  using assms by (auto simp: conns_ok_def)

lemma table_exempt: "conns_ok None D T \<Longrightarrow> conns_ok (Some i) D T"
  by (auto simp: conns_ok_def)

lemma table_fit: "conns_ok (Some i) D T \<Longrightarrow> slot_fit (rows T ! i) \<Longrightarrow> conns_ok None D T"
  by (auto simp: conns_ok_def)

fun harmless :: "ending \<Rightarrow> bool" where
  "harmless (Exited n) = True"
| "harmless (Faulted f) = True"
| "harmless Stuck = True"
| "harmless x = False"

definition fine :: "nat set \<Rightarrow> srv \<Rightarrow> bool" where
  "fine D s \<longleftrightarrow> (case ended s of None \<Rightarrow> conns_ok None D (table_of s) | Some x \<Rightarrow> harmless x)"

lemma fine_stop [simp]: "fine D (stop x s) = harmless x"
  by (simp add: fine_def stop_def)

subsection \<open>Views\<close>

lemma table_set_conn: "table_of (set_conn i f s) = (table_of s)\<lparr>rows := (rows (table_of s))[i := slot_of (f (connects s ! i))]\<rparr>"
  by (simp add: table_of_def set_conn_def map_update)

lemma rows_at: "i < length (connects s) \<Longrightarrow> rows (table_of s) ! i = slot_of (connects s ! i)"
  by (simp add: table_of_def)

lemma table_fields [simp]: "length (rows (table_of s)) = length (connects s)" "used (table_of s) = num_connects s"
  "first_free (table_of s) = first_free_connect s" "sending (table_of s) = map num_sending (throttles s)" "watch (table_of s) = fds s"
  "clock (table_of s) = tmr_of s"
  by (simp_all add: table_of_def)

lemma upd_same: "(i < length xs \<Longrightarrow> y = xs ! i) \<Longrightarrow> xs[i := y] = xs"
  by (cases "i < length xs") (simp_all add: list_update_beyond)

lemma table_same_conn:
  "slot_of (f (connects s ! i)) = slot_of (connects s ! i) \<Longrightarrow> table_of (set_conn i f s) = table_of s"
  by (auto simp: table_of_def set_conn_def map_update intro!: upd_same)

lemma busy_conn: "busy (table_of s) i \<longleftrightarrow> i < length (connects s) \<and> conn_state (connects s ! i) \<noteq> CNST_FREE"
  by (auto simp: busy_def table_of_def slot_of_def)

lemma busy_hc:
  assumes "conns_ok x D (table_of s)" "busy (table_of s) i"
  shows "the_hc (connects s ! i) = Some (conn_hc s i)" "fd_at (table_of s) i = conn_fd (conn_hc s i)" "0 \<le> conn_fd (conn_hc s i)"
proof -
  have i: "i < length (connects s)" using assms(2) by (simp add: busy_conn)
  have "slot_fd (rows (table_of s) ! i) \<noteq> None" using watch_okD(2) [OF conns_okD(3) [OF assms(1)] assms(2)] .
  then show h: "the_hc (connects s ! i) = Some (conn_hc s i)" using i by (auto simp: rows_at slot_of_def conn_hc_def)
  then show fd: "fd_at (table_of s) i = conn_fd (conn_hc s i)" using i by (simp add: fd_at_def rows_at slot_of_def)
  show "0 \<le> conn_fd (conn_hc s i)" using watch_okD(3) [OF conns_okD(3) [OF assms(1)] assms(2)] fd by simp
qed

lemma table_set_hc:
  assumes "the_hc (connects s ! i) = Some h0" "conn_fd h = conn_fd h0"
  shows "table_of (set_hc i h s) = table_of s"
  unfolding set_hc_def using assms by (intro table_same_conn) (simp add: slot_of_def)

lemma table_stop [simp]: "table_of (stop x s) = table_of s"
  by (simp add: table_of_def stop_def)

lemma ended_ops [simp]: "ended (set_conn i f s) = ended s" "ended (set_hc i h s) = ended s" "ended (set_tmr t s) = ended s"
  "ended (stop x s) = Some x"
  by (simp_all add: set_conn_def set_hc_def set_tmr_def stop_def)

lemma next_live: "ended s = None \<Longrightarrow> next_do f s = f s"
  by (simp add: next_do_def)

subsection \<open>Throttles of a connection\<close>

lemma clear_throttles_at:
  assumes "set ns \<subseteq> {..<length tab}"
  shows "length (clear_throttles ns tab) = length tab"
    "t < length tab \<Longrightarrow> num_sending (clear_throttles ns tab ! t) = num_sending (tab ! t) - int (count_list ns t)"
proof -
  have "length (clear_throttles ns tab) = length tab \<and>
      (t < length tab \<longrightarrow> num_sending (clear_throttles ns tab ! t) = num_sending (tab ! t) - int (count_list ns t))"
    using assms
  proof (induction ns arbitrary: tab)
    case (Cons n ns)
    let ?tab = "tab[n := (tab ! n)\<lparr>num_sending := num_sending (tab ! n) - 1\<rparr>]"
    have "set ns \<subseteq> {..<length ?tab}" using Cons.prems by simp
    from Cons.IH [OF this] Cons.prems show ?case by (auto simp: clear_throttles_def nth_list_update)
  qed (simp add: clear_throttles_def)
  then show "length (clear_throttles ns tab) = length tab"
    "t < length tab \<Longrightarrow> num_sending (clear_throttles ns tab ! t) = num_sending (tab ! t) - int (count_list ns t)" by auto
qed

lemma add_bytes_sending [simp]: "map num_sending (add_bytes ns k tab) = map num_sending tab"
proof (induction ns arbitrary: tab)
  case (Cons n ns)
  have "map num_sending (tab[n := (tab ! n)\<lparr>bytes_since_avg := b\<rparr>]) = map num_sending tab" for b
    by (auto simp: map_update intro!: upd_same)
  with Cons show ?case by (simp add: add_bytes_def)
qed (simp add: add_bytes_def)

subsection \<open>The end of a connection\<close>

lemma owns_upd:
  assumes "rows T' = (rows T)[i := c]" "i < length (rows T)"
  shows "owns T' p j = (if j = i then if slot_state c \<noteq> CNST_FREE \<and> conn_proc p then own_timer p c else None else owns T p j)"
  using busy_upd [OF assms] by (auto simp: owns_def)

lemma owns_slot: "busy T i \<Longrightarrow> owns T p i = (if conn_proc p then own_timer p (rows T ! i) else None)"
  by (simp add: owns_def)

lemma conn_proc_simps [simp]: "conn_proc 2" "conn_proc 3" "own_timer 2 c = slot_wakeup c" "own_timer 3 c = slot_linger c"
  by (simp_all add: conn_proc_def own_timer_def)

lemma table_leave:
  assumes "conns_ok (Some i) D T" "busy T i" "slot_wakeup (rows T ! i) = None" "rows T' = (rows T)[i := c]" "slot_state c = CNST_FREE"
    "slot_next c = first_free T" "first_free T' = int i" "used T' = used T - 1" "length (sending T') = length (sending T)"
    "\<And>t. t < length (sending T) \<Longrightarrow> sending T' ! t = sending T ! t - int (count_list (slot_nums (rows T ! i)) t)"
    "watch_fit (watch T')" "nfiles (watch T') = nfiles (watch T)" "watched (watch T') = (watched (watch T))(fd_at T i := None)"
    "clock T' = (case slot_linger (rows T ! i) of None \<Rightarrow> clock T | Some a \<Rightarrow> tmr_cancel a (clock T))"
  shows "conns_ok None D T'"
proof (rule conns_okI)
  note t = conns_okD [OF assms(1)]
  have i: "i < length (rows T)" using assms(2) by (simp add: busy_def)
  note u = busy_upd [OF assms(4) i] and o = owns_upd [OF assms(4) i]
  show "free_ok T'" using free_leave [OF t(1) assms(2,4,5,6,8,7)] .
  show "count_ok T'" using count_leave [OF t(2) assms(2,4,5,9,10)] .
  show "watch_ok T'" using watch_leave [OF t(3) assms(2,4,5,11,12,13)] .
  show "timers_ok D T'"
  proof (cases "slot_linger (rows T ! i)")
    case None
    have "owns T' = owns T"
      using assms(3,5) None owns_slot [OF assms(2)] by (intro ext) (auto simp: o own_timer_def)
    then show ?thesis using timers_same [OF t(4)] assms(14) None by simp
  next
    case (Some a)
    have "owns T' = own_upd (owns T) (proc_id Linger_clear) i None"
      using assms(3,5) owns_slot [OF assms(2)] by (intro ext) (auto simp: o own_timer_def own_upd_def conn_proc_def)
    moreover have "owns T (proc_id Linger_clear) i = Some a" using Some owns_slot [OF assms(2)] by simp
    ultimately show ?thesis using timers_drop [OF t(4)] assms(14) Some by simp
  qed
  show "slot_fit (rows T' ! j)" if "busy T' j" for j
    using that t(5) [of j] u(1) [of j] u(2) [of j] assms(5) by (auto split: if_splits)
qed

lemma del_fd_fit:
  assumes "watch_fit (fds s)"
  shows "\<exists>w. del_fd fd s = s\<lparr>fds := w\<rparr> \<and> watch_fit w \<and> nfiles w = nfiles (fds s) \<and> watched w = (watched (fds s))(fd := None)"
  using fit_del [OF assms, of fd] by (auto simp: del_fd_def)

lemma add_fd_fit:
  assumes "watch_fit (fds s)" "rw \<noteq> -1" "0 \<le> fd" "fd < nfiles (fds s)" "watched (fds s) fd = None"
  shows "\<exists>w. add_fd fd i rw s = s\<lparr>fds := w\<rparr> \<and> watch_fit w \<and> nfiles w = nfiles (fds s) \<and>
    watched w = (watched (fds s))(fd \<mapsto> (rw, Some i))"
  using fit_add [OF assms(1,2), of fd "Some i"] assms(3-5) by (auto simp: add_fd_def)

lemma close_conn_cases:
  "httpd_close_conn e i nowP s = stop Stuck s \<or>
   (\<exists>h w. httpd_close_conn e i nowP s = set_hc i h (s\<lparr>the_world := w\<rparr>) \<and> w_tmr w = tmr_of s)"
proof (cases "file_address (conn_hc s i)")
  case None
  then have "httpd_close_conn e i nowP s = set_hc i (if 0 \<le> conn_fd (conn_hc s i) then (conn_hc s i)\<lparr>conn_fd := -1\<rparr> else conn_hc s i)
      (s\<lparr>the_world := the_world s\<rparr>)" by (simp add: httpd_close_conn_def Let_def)
  then show ?thesis by blast
next
  case a: (Some a)
  show ?thesis
  proof (cases "mmc_unmap a (Some (st_data (the_sb (connects s ! i)))) (tv_sec nowP) (w_mmc (the_world s))")
    case None
    then show ?thesis using a by (simp add: httpd_close_conn_def Let_def)
  next
    case (Some m)
    let ?w = "(the_world s)\<lparr>w_mmc := m\<rparr>"
    have "httpd_close_conn e i nowP s = set_hc i (if 0 \<le> conn_fd (conn_hc s i) then (conn_hc s i)\<lparr>file_address := None, conn_fd := -1\<rparr>
        else (conn_hc s i)\<lparr>file_address := None\<rparr>) (s\<lparr>the_world := ?w\<rparr>)"
      using Some a by (simp add: httpd_close_conn_def Let_def)
    moreover have "w_tmr ?w = tmr_of s" by simp
    ultimately show ?thesis by blast
  qed
qed

definition slot_cleared :: "nat \<Rightarrow> srv \<Rightarrow> srv" where
  \<comment> \<open>what \<open>really_clear_connection\<close> does behind \<open>httpd_close_conn\<close>\<close>
  "slot_cleared i s = free_slot i (drop_linger i (s\<lparr>throttles := clear_throttles (tnums (connects s ! i)) (throttles s)\<rparr>))"

lemma slot_cleared_table:
  assumes "i < length (connects s)" "T = table_of s" "T' = table_of (slot_cleared i s)"
  shows "\<exists>c. rows T' = (rows T)[i := c] \<and> slot_state c = CNST_FREE \<and> slot_next c = first_free T" "first_free T' = int i"
    "used T' = used T - 1" "sending T' = map num_sending (clear_throttles (tnums (connects s ! i)) (throttles s))" "watch T' = watch T"
    "clock T' = (case slot_linger (rows T ! i) of None \<Rightarrow> clock T | Some a \<Rightarrow> tmr_cancel a (clock T))"
    "ended (slot_cleared i s) = ended s"
proof -
  let ?c = "connects s ! i"
  let ?s = "s\<lparr>throttles := clear_throttles (tnums ?c) (throttles s)\<rparr>"
  show "\<exists>c. rows T' = (rows T)[i := c] \<and> slot_state c = CNST_FREE \<and> slot_next c = first_free T"
  proof (cases "linger_timer ?c")
    case None
    then have "slot_cleared i s = free_slot i ?s" by (simp add: slot_cleared_def drop_linger_def)
    then show ?thesis using assms(1) by (auto simp: assms(2,3) table_of_def free_slot_def set_conn_def map_update slot_of_def)
  next
    case (Some a)
    then have "slot_cleared i s = free_slot i (set_conn i (\<lambda>c. c\<lparr>linger_timer := None\<rparr>) (set_tmr (tmr_cancel a (tmr_of s)) ?s))"
      by (simp add: slot_cleared_def drop_linger_def)
    then show ?thesis
      using assms(1) by (auto simp: assms(2,3) table_of_def free_slot_def set_conn_def set_tmr_def map_update slot_of_def)
  qed
  have ln: "slot_linger (rows T ! i) = linger_timer ?c" using assms(1) by (simp add: assms(2) rows_at slot_of_def)
  show "first_free T' = int i" "used T' = used T - 1" "sending T' = map num_sending (clear_throttles (tnums ?c) (throttles s))"
    "watch T' = watch T" "clock T' = (case slot_linger (rows T ! i) of None \<Rightarrow> clock T | Some a \<Rightarrow> tmr_cancel a (clock T))"
    "ended (slot_cleared i s) = ended s"
    unfolding ln by (simp_all add: assms(2,3) slot_cleared_def free_slot_def drop_linger_def set_conn_def set_tmr_def split: option.split)
qed

lemma really_clear_fine:
  assumes "conns_ok (Some i) D (table_of s)" "busy (table_of s) i" "wakeup_timer (connects s ! i) = None" "ended s = None"
  shows "fine D (really_clear_connection e nowP i s)"
proof -
  let ?T = "table_of s" and ?c = "connects s ! i" and ?fd = "conn_fd (conn_hc s i)"
  note t = conns_okD [OF assms(1)] and h = busy_hc [OF assms(1,2)]
  have i: "i < length (connects s)" using assms(2) by (simp add: busy_conn)
  let ?s1 = "s\<lparr>stats_bytes := stats_bytes s + bytes_sent (conn_hc s i)\<rparr>"
  have hc1: "conn_hc ?s1 i = conn_hc s i" by (simp add: conn_hc_def)
  have fit: "watch_fit (fds ?s1)" using watch_okD(1) [OF t(3)] by simp
  have "\<exists>w. (if conn_state (connects ?s1 ! i) \<noteq> CNST_PAUSING then del_fd ?fd ?s1 else ?s1) = ?s1\<lparr>fds := w\<rparr> \<and>
      watch_fit w \<and> nfiles w = nfiles (fds s) \<and> watched w = (watched (fds s))(?fd := None)"
  proof (cases "conn_state ?c = CNST_PAUSING")
    case True
    then have "watched (fds s) ?fd = None"
      using watch_okD(5) [OF t(3) assms(2)] h(2) i by (simp add: wanted_def rows_at slot_of_def)
    then have "(watched (fds s))(?fd := None) = watched (fds s)" by auto
    then show ?thesis using True fit by (intro exI [of _ "fds s"]) simp
  next
    case False
    then show ?thesis using del_fd_fit [OF fit, of ?fd] by simp
  qed
  then obtain w where w: "(if conn_state (connects ?s1 ! i) \<noteq> CNST_PAUSING then del_fd ?fd ?s1 else ?s1) = ?s1\<lparr>fds := w\<rparr>"
    "watch_fit w" "nfiles w = nfiles (fds s)" "watched w = (watched (fds s))(?fd := None)" by blast
  let ?s2 = "?s1\<lparr>fds := w\<rparr>"
  have "really_clear_connection e nowP i s = next_do (slot_cleared i) (next_do (httpd_close_conn e i nowP)
      (if conn_state (connects ?s1 ! i) \<noteq> CNST_PAUSING then del_fd (conn_fd (conn_hc ?s1 i)) ?s1 else ?s1))"
    unfolding really_clear_connection_def Let_def slot_cleared_def ..
  also have "\<dots> = next_do (slot_cleared i) (httpd_close_conn e i nowP ?s2)"
    unfolding hc1 w(1) using assms(4) by (simp add: next_live)
  finally have r: "really_clear_connection e nowP i s = next_do (slot_cleared i) (httpd_close_conn e i nowP ?s2)" .
  from close_conn_cases [of e i nowP ?s2] show ?thesis
  proof (elim disjE exE)
    assume "httpd_close_conn e i nowP ?s2 = stop Stuck ?s2"
    then show ?thesis by (simp add: r next_do_def)
  next
    fix h' wd assume c: "httpd_close_conn e i nowP ?s2 = set_hc i h' (?s2\<lparr>the_world := wd\<rparr>) \<and> w_tmr wd = tmr_of ?s2"
    let ?s3 = "set_hc i h' (?s2\<lparr>the_world := wd\<rparr>)"
    let ?T' = "table_of (slot_cleared i ?s3)"
    have r3: "really_clear_connection e nowP i s = slot_cleared i ?s3" using c assms(4) by (simp add: r next_do_def)
    have i3: "i < length (connects ?s3)" using i by (simp add: set_hc_def)
    have c3: "connects ?s3 ! i = ?c\<lparr>the_hc := Some h'\<rparr>" using i by (simp add: set_hc_def)
    note v = slot_cleared_table [OF i3 refl refl]
    have rows3: "rows (table_of ?s3) = (rows ?T)[i := (slot_of ?c)\<lparr>slot_fd := Some (conn_fd h')\<rparr>]"
      using i by (simp add: set_hc_def table_set_conn) (simp add: table_of_def slot_of_def)
    obtain c' where c': "rows ?T' = (rows ?T)[i := c']" "slot_state c' = CNST_FREE" "slot_next c' = first_free ?T"
      using v(1) rows3 by (auto simp: set_hc_def set_conn_def)
    have "conns_ok None D ?T'"
    proof (rule table_leave [OF assms(1,2) _ c'])
      show "slot_wakeup (rows ?T ! i) = None" using assms(3) i by (simp add: rows_at slot_of_def)
      show "first_free ?T' = int i" using v(2) .
      show "used ?T' = used ?T - 1" using v(3) by (simp add: set_hc_def set_conn_def)
      have s: "sending ?T' = map num_sending (clear_throttles (tnums ?c) (throttles s))"
        using v(4) c3 by (simp add: set_hc_def set_conn_def)
      have n: "set (tnums ?c) \<subseteq> {..<length (throttles s)}"
      proof -
        have "set (slot_nums (rows ?T ! i)) \<subseteq> {..<length (sending ?T)}" using t(2) assms(2) unfolding count_ok_def by blast
        then show ?thesis using i by (simp add: rows_at slot_of_def)
      qed
      show "length (sending ?T') = length (sending ?T)" using clear_throttles_at(1) [OF n] s by simp
      show "sending ?T' ! k = sending ?T ! k - int (count_list (slot_nums (rows ?T ! i)) k)" if "k < length (sending ?T)" for k
        using clear_throttles_at [OF n] s that i by (simp add: rows_at slot_of_def)
      show "watch_fit (watch ?T')" "nfiles (watch ?T') = nfiles (watch ?T)" "watched (watch ?T') = (watched (watch ?T))(fd_at ?T i := None)"
        using w(2-4) v(5) h(2) by (simp_all add: set_hc_def set_conn_def)
      have "slot_linger (rows (table_of ?s3) ! i) = slot_linger (rows ?T ! i)" using i by (simp add: rows3 rows_at)
      moreover have "clock (table_of ?s3) = clock ?T" using c by (simp add: set_hc_def set_conn_def)
      ultimately show "clock ?T' = (case slot_linger (rows ?T ! i) of None \<Rightarrow> clock ?T | Some a \<Rightarrow> tmr_cancel a (clock ?T))"
        using v(6) by (simp only:)
    qed
    then show ?thesis using v(7) assms(4) by (simp add: r3 fine_def)
  qed
qed

subsection \<open>Timers of a connection\<close>

definition fresh_memory :: "env \<Rightarrow> bool" where
  \<comment> \<open>\<open>malloc\<close> returns nothing that is in use\<close>
  "fresh_memory e \<longleftrightarrow> (\<forall>L M t a. repr L M t \<longrightarrow> timer_memory e t = Some a \<longrightarrow> a \<notin> M)"

lemma start_timer_cases:
  assumes "timers_ok D T" "clock T = tmr_of s" "fresh_memory e"
  shows "(\<exists>t. start_timer e nowP k i ms st s = stop (Exited 1) (set_tmr t s)) \<or>
    (\<exists>a t. start_timer e nowP k i ms st s = set_conn i (st a) (set_tmr t s) \<and>
       (\<forall>T'. clock T' = t \<longrightarrow> owns T (proc_id k) i = None \<longrightarrow> conn_proc (proc_id k) \<longrightarrow>
          owns T' = own_upd (owns T) (proc_id k) i (Some a) \<longrightarrow> timers_ok D T'))"
proof -
  have "\<And>L M b. repr L M (clock T) \<Longrightarrow> timer_memory e (tmr_of s) = Some b \<Longrightarrow> b \<notin> M"
    using assms(2,3) by (auto simp: fresh_memory_def)
  note fresh = this
  obtain r t where rt: "tmr_create (timer_memory e (tmr_of s)) nowP (proc_id k) i ms False (clock T) = Some (r, t) \<and>
    (\<forall>a T'. r = Some a \<longrightarrow> clock T' = t \<longrightarrow>
       (owns T (proc_id k) i = None \<and> conn_proc (proc_id k) \<and> \<not> False \<and> owns T' = own_upd (owns T) (proc_id k) i (Some a)) \<or>
       (\<not> conn_proc (proc_id k) \<and> owns T' = owns T) \<longrightarrow> timers_ok D T')"
    using timers_create [OF assms(1), of "timer_memory e (tmr_of s)" nowP "proc_id k" i ms False] fresh by blast
  then have c: "tmr_create (timer_memory e (tmr_of s)) nowP (proc_id k) i ms False (tmr_of s) = Some (r, t)"
    by (simp only: assms(2))
  show ?thesis
  proof (cases r)
    case None
    then show ?thesis using c by (auto simp: start_timer_def)
  next
    case (Some a)
    then have "start_timer e nowP k i ms st s = set_conn i (st a) (set_tmr t s)" using c by (simp add: start_timer_def)
    then show ?thesis using rt Some by blast
  qed
qed

lemma table_move:
  assumes "conns_ok (Some i) D T" "busy T i" "rows T' = (rows T)[i := c]" "slot_state c \<noteq> CNST_FREE"
    "slot_fd c = slot_fd (rows T ! i)" "slot_nums c = slot_nums (rows T ! i)" "used T' = used T" "first_free T' = first_free T"
    "sending T' = sending T" "watch_fit (watch T')" "nfiles (watch T') = nfiles (watch T)"
    "watched (watch T') = (watched (watch T))(fd_at T i := wanted c i)" "timers_ok D' T'"
  shows "conns_ok (Some i) D' T'"
proof (rule conns_okI)
  note t = conns_okD [OF assms(1)]
  have i: "i < length (rows T)" using assms(2) by (simp add: busy_def)
  note u = busy_upd [OF assms(3) i]
  show "free_ok T'" using free_keep [OF t(1) assms(2,3,4,7,8)] .
  show "count_ok T'" using count_keep [OF t(2) assms(2,3,4,6,9)] .
  show "watch_ok T'" using watch_move [OF t(3) assms(2-5,10-12)] .
  show "timers_ok D' T'" by (rule assms(13))
  show "slot_fit (rows T' ! j)" if "busy T' j" "Some i \<noteq> Some j" for j
    using that t(5) [of j] u(1) [of j] u(2) [of j] by auto
qed

lemma table_stay:
  \<comment> \<open>the watch is not changed\<close>
  assumes "conns_ok (Some i) D T" "busy T i" "rows T' = (rows T)[i := c]" "slot_state c = slot_state (rows T ! i)"
    "slot_fd c = slot_fd (rows T ! i)" "slot_nums c = slot_nums (rows T ! i)" "used T' = used T" "first_free T' = first_free T"
    "sending T' = sending T" "watch T' = watch T" "timers_ok D' T'"
  shows "conns_ok (Some i) D' T'"
proof -
  note w = watch_okD [OF conns_okD(3) [OF assms(1)]]
  have "wanted c i = wanted (rows T ! i) i" using assms(4) by (simp add: wanted_def)
  then have "watched (watch T') = (watched (watch T))(fd_at T i := wanted c i)"
    using w(5) [OF assms(2)] by (auto simp: assms(10))
  then show ?thesis
    using table_move [OF assms(1-3) _ assms(5-9) _ _ _ assms(11)] assms(2,4,10) w(1) by (simp add: busy_def)
qed

subsection \<open>Closing a connection\<close>

lemma del_unless_paused:
  assumes "conns_ok x D (table_of s)" "busy (table_of s) i"
  shows "\<exists>w. (if conn_state (connects s ! i) \<noteq> CNST_PAUSING then del_fd (conn_fd (conn_hc s i)) s else s) = s\<lparr>fds := w\<rparr> \<and>
      watch_fit w \<and> nfiles w = nfiles (fds s) \<and> watched w = (watched (fds s))(conn_fd (conn_hc s i) := None)"
proof -
  note t = conns_okD [OF assms(1)] and h = busy_hc [OF assms]
  have i: "i < length (connects s)" using assms(2) by (simp add: busy_conn)
  have fit: "watch_fit (fds s)" using watch_okD(1) [OF t(3)] by simp
  show ?thesis
  proof (cases "conn_state (connects s ! i) = CNST_PAUSING")
    case True
    then have "watched (fds s) (conn_fd (conn_hc s i)) = None"
      using watch_okD(5) [OF t(3) assms(2)] h(2) i by (simp add: wanted_def rows_at slot_of_def)
    then have "(watched (fds s))(conn_fd (conn_hc s i) := None) = watched (fds s)" by auto
    then show ?thesis using True fit by (intro exI [of _ "fds s"]) simp
  next
    case False
    then show ?thesis using del_fd_fit [OF fit, of "conn_fd (conn_hc s i)"] by simp
  qed
qed

lemma start_linger_fine:
  assumes "conns_ok (Some i) D (table_of s)" "busy (table_of s) i" "wakeup_timer (connects s ! i) = None"
    "linger_timer (connects s ! i) = None" "ended s = None" "fresh_memory e"
  shows "fine D (start_linger e nowP i s)"
proof -
  let ?T = "table_of s" and ?c = "connects s ! i" and ?fd = "conn_fd (conn_hc s i)"
  note t = conns_okD [OF assms(1)] and h = busy_hc [OF assms(1,2)]
  have i: "i < length (connects s)" using assms(2) by (simp add: busy_conn)
  obtain w where w: "(if conn_state ?c \<noteq> CNST_PAUSING then del_fd ?fd s else s) = s\<lparr>fds := w\<rparr>"
    "watch_fit w" "nfiles w = nfiles (fds s)" "watched w = (watched (fds s))(?fd := None)"
    using del_unless_paused [OF assms(1,2)] by blast
  let ?s1 = "set_conn i (\<lambda>c. c\<lparr>conn_state := CNST_LINGERING\<rparr>) (s\<lparr>fds := w\<rparr>)"
  have rg: "0 \<le> ?fd" "?fd < nfiles (fds ?s1)"
    using h(2,3) watch_okD(4) [OF t(3) assms(2)] w(3) by (simp_all add: set_conn_def)
  obtain w2 where w2: "add_fd ?fd i FDW_READ ?s1 = ?s1\<lparr>fds := w2\<rparr>" "watch_fit w2" "nfiles w2 = nfiles (fds s)"
    "watched w2 = (watched (fds s))(?fd \<mapsto> (FDW_READ, Some i))"
    using add_fd_fit [of ?s1 FDW_READ ?fd i] rg w(2-4) by (auto simp: set_conn_def FDW_READ_def)
  let ?s2 = "?s1\<lparr>fds := w2\<rparr>" and ?st = "\<lambda>a c. c\<lparr>linger_timer := Some a\<rparr>"
  have "start_linger e nowP i s = next_do (start_timer e nowP Linger_clear i LINGER_TIME ?st)
      (next_do (\<lambda>s. add_fd ?fd i FDW_READ (set_conn i (\<lambda>c. c\<lparr>conn_state := CNST_LINGERING\<rparr>) s))
        (if conn_state ?c \<noteq> CNST_PAUSING then del_fd ?fd s else s))"
    unfolding start_linger_def Let_def ..
  also have "\<dots> = start_timer e nowP Linger_clear i LINGER_TIME ?st ?s2"
    unfolding w(1) using assms(5) w2(1) by (simp add: next_live)
  finally have r: "start_linger e nowP i s = start_timer e nowP Linger_clear i LINGER_TIME ?st ?s2" .
  have "clock ?T = tmr_of ?s2" by (simp add: set_conn_def)
  from start_timer_cases [OF t(4) this assms(6), of nowP Linger_clear i LINGER_TIME ?st] show ?thesis
  proof (elim disjE exE)
    fix a tm assume c: "start_timer e nowP Linger_clear i LINGER_TIME ?st ?s2 = set_conn i (?st a) (set_tmr tm ?s2) \<and>
      (\<forall>T'. clock T' = tm \<longrightarrow> owns ?T (proc_id Linger_clear) i = None \<longrightarrow> conn_proc (proc_id Linger_clear) \<longrightarrow>
          owns T' = own_upd (owns ?T) (proc_id Linger_clear) i (Some a) \<longrightarrow> timers_ok D T')"
    let ?s3 = "set_conn i (?st a) (set_tmr tm ?s2)"
    let ?T' = "table_of ?s3" and ?c' = "slot_of (?c\<lparr>conn_state := CNST_LINGERING, linger_timer := Some a\<rparr>)"
    have rows: "rows ?T' = (rows ?T)[i := ?c']"
      using i by (simp add: table_of_def set_conn_def set_tmr_def map_update)
    have old: "rows ?T ! i = slot_of ?c" using i by (rule rows_at)
    have o: "owns ?T' = own_upd (owns ?T) (proc_id Linger_clear) i (Some a)"
      using owns_upd [OF rows] owns_slot [OF assms(2)] i assms(3) old
      by (intro ext) (auto simp: own_upd_def own_timer_def conn_proc_def slot_of_def)
    have "timers_ok D ?T'"
      using c o owns_slot [OF assms(2)] assms(4) old by (auto simp: slot_of_def set_tmr_def set_conn_def)
    then have "conns_ok (Some i) D ?T'"
      by (intro table_move [OF assms(1,2) rows])
        (use w2 h(2) old in \<open>auto simp: slot_of_def wanted_def set_tmr_def set_conn_def\<close>)
    moreover have "slot_fit (rows ?T' ! i)" using assms(3) i by (simp add: rows slot_fit_def slot_of_def)
    ultimately have "conns_ok None D ?T'" by (rule table_fit)
    then show ?thesis using c assms(5) by (simp add: r fine_def)
  qed (simp add: r)
qed

definition timer_fit :: "conn \<Rightarrow> bool" where
  "timer_fit c \<longleftrightarrow> (wakeup_timer c \<noteq> None \<longleftrightarrow> conn_state c = CNST_PAUSING) \<and> (linger_timer c \<noteq> None \<longleftrightarrow> conn_state c = CNST_LINGERING)"

lemma stop_wakeup_ok:
  assumes "conns_ok (Some i) D (table_of s)" "busy (table_of s) i" "s' = stop_wakeup i s"
  shows "conns_ok (Some i) D (table_of s')" "connects s' ! i = (connects s ! i)\<lparr>wakeup_timer := None\<rparr>" "ended s' = ended s"
    "length (connects s') = length (connects s)"
proof -
  let ?T = "table_of s" and ?c = "connects s ! i"
  have i: "i < length (connects s)" using assms(2) by (simp add: busy_conn)
  show "length (connects s') = length (connects s)" by (simp add: assms(3))
  have "conns_ok (Some i) D (table_of s') \<and> connects s' ! i = ?c\<lparr>wakeup_timer := None\<rparr> \<and> ended s' = ended s"
  proof (cases "wakeup_timer ?c")
    case None
    then have "?c = ?c\<lparr>wakeup_timer := None\<rparr>" by simp
    then show ?thesis using assms(1) None by (simp add: assms(3) stop_wakeup_def)
  next
    case (Some a)
    then have s': "s' = set_conn i (\<lambda>c. c\<lparr>wakeup_timer := None\<rparr>) (set_tmr (tmr_cancel a (tmr_of s)) s)"
      by (simp add: assms(3) stop_wakeup_def)
    let ?c' = "slot_of (?c\<lparr>wakeup_timer := None\<rparr>)"
    have rows: "rows (table_of s') = (rows ?T)[i := ?c']" by (simp add: s' table_of_def set_conn_def set_tmr_def map_update)
    have old: "rows ?T ! i = slot_of ?c" using i by (rule rows_at)
    have "owns (table_of s') = own_upd (owns ?T) (proc_id Wakeup) i None"
      using owns_upd [OF rows] owns_slot [OF assms(2)] i old assms(2)
      by (intro ext) (auto simp: own_upd_def own_timer_def conn_proc_def slot_of_def busy_conn)
    moreover have "owns ?T (proc_id Wakeup) i = Some a" using owns_slot [OF assms(2)] old Some by (simp add: slot_of_def)
    ultimately have "timers_ok D (table_of s')"
      using timers_drop [OF conns_okD(4) [OF assms(1)]] by (simp add: s' set_tmr_def set_conn_def)
    then have "conns_ok (Some i) D (table_of s')"
      by (intro table_stay [OF assms(1,2) rows]) (auto simp: old slot_of_def s' set_tmr_def set_conn_def)
    then show ?thesis using i by (simp add: s')
  qed
  then show "conns_ok (Some i) D (table_of s')" "connects s' ! i = ?c\<lparr>wakeup_timer := None\<rparr>" "ended s' = ended s" by auto
qed

lemma stop_linger_ok:
  assumes "conns_ok (Some i) D (table_of s)" "busy (table_of s) i" "linger_timer (connects s ! i) \<noteq> None \<longleftrightarrow> conn_state (connects s ! i) = CNST_LINGERING"
    "s' = stop_linger i s"
  shows "conns_ok (Some i) D (table_of s')" "linger_timer (connects s' ! i) = None"
    "conn_state (connects s' ! i) = conn_state (connects s ! i)" "wakeup_timer (connects s' ! i) = wakeup_timer (connects s ! i)"
    "ended s' = ended s" "length (connects s') = length (connects s)"
proof -
  let ?T = "table_of s" and ?c = "connects s ! i"
  have i: "i < length (connects s)" using assms(2) by (simp add: busy_conn)
  show "length (connects s') = length (connects s)" by (simp add: assms(4))
  have "conns_ok (Some i) D (table_of s') \<and> linger_timer (connects s' ! i) = None \<and> conn_state (connects s' ! i) = conn_state ?c \<and>
      wakeup_timer (connects s' ! i) = wakeup_timer ?c \<and> ended s' = ended s"
  proof (cases "linger_timer ?c")
    case None
    then show ?thesis using assms(1,3) by (simp add: assms(4) stop_linger_def)
  next
    case (Some a)
    let ?s1 = "set_conn i (\<lambda>c. c\<lparr>linger_timer := None\<rparr>) (set_tmr (tmr_cancel a (tmr_of s)) s)"
    have s': "s' = set_hc i ((conn_hc s i)\<lparr>should_linger := False\<rparr>) ?s1"
      using Some assms(3) by (simp add: assms(4) stop_linger_def)
    let ?c' = "slot_of (?c\<lparr>linger_timer := None\<rparr>)"
    have rows: "rows (table_of ?s1) = (rows ?T)[i := ?c']" by (simp add: table_of_def set_conn_def set_tmr_def map_update)
    have old: "rows ?T ! i = slot_of ?c" using i by (rule rows_at)
    have "owns (table_of ?s1) = own_upd (owns ?T) (proc_id Linger_clear) i None"
      using owns_upd [OF rows] owns_slot [OF assms(2)] i old assms(2)
      by (intro ext) (auto simp: own_upd_def own_timer_def conn_proc_def slot_of_def busy_conn)
    moreover have "owns ?T (proc_id Linger_clear) i = Some a" using owns_slot [OF assms(2)] old Some by (simp add: slot_of_def)
    ultimately have "timers_ok D (table_of ?s1)"
      using timers_drop [OF conns_okD(4) [OF assms(1)]] by (simp add: set_tmr_def set_conn_def)
    then have "conns_ok (Some i) D (table_of ?s1)"
      by (intro table_stay [OF assms(1,2) rows]) (auto simp: old slot_of_def set_tmr_def set_conn_def)
    moreover have "table_of s' = table_of ?s1"
      unfolding s' using i busy_hc(1) [OF assms(1,2)] by (intro table_set_hc) auto
    ultimately show ?thesis using i by (simp add: s' set_hc_def)
  qed
  then show "conns_ok (Some i) D (table_of s')" "linger_timer (connects s' ! i) = None"
    "conn_state (connects s' ! i) = conn_state ?c" "wakeup_timer (connects s' ! i) = wakeup_timer ?c" "ended s' = ended s" by auto
qed

lemma clear_connection_fine:
  assumes "conns_ok (Some i) D (table_of s)" "busy (table_of s) i" "timer_fit (connects s ! i)" "ended s = None" "fresh_memory e"
  shows "fine D (clear_connection e nowP i s)"
proof -
  let ?s1 = "stop_wakeup i s"
  let ?s2 = "stop_linger i ?s1"
  note w = stop_wakeup_ok [OF assms(1,2) refl]
  have b1: "busy (table_of ?s1) i" using assms(2) w(2,4) by (simp add: busy_conn)
  have "linger_timer (connects ?s1 ! i) \<noteq> None \<longleftrightarrow> conn_state (connects ?s1 ! i) = CNST_LINGERING"
    using assms(3) by (simp add: w(2) timer_fit_def)
  note l = stop_linger_ok [OF w(1) b1 this refl]
  have b2: "busy (table_of ?s2) i" using b1 l(3,6) by (simp add: busy_conn)
  have n: "wakeup_timer (connects ?s2 ! i) = None" "linger_timer (connects ?s2 ! i) = None" "ended ?s2 = None"
    using l(2,4,5) w(2,3) assms(4) by simp_all
  have "clear_connection e nowP i s =
      (if should_linger (conn_hc ?s2 i) then start_linger e nowP i ?s2 else really_clear_connection e nowP i ?s2)"
    using n(3) by (simp add: clear_connection_def next_live)
  then show ?thesis
    using start_linger_fine [OF l(1) b2 n assms(5)] really_clear_fine [OF l(1) b2 n(1,3)] by simp
qed

lemma write_response_fd [simp]: "conn_fd (snd (httpd_write_response h)) = conn_fd h"
  by (simp add: httpd_write_response_def)

lemma finish_connection_fine:
  assumes "conns_ok (Some i) D (table_of s)" "busy (table_of s) i" "timer_fit (connects s ! i)" "ended s = None" "fresh_memory e"
  shows "fine D (finish_connection e nowP i s)"
proof -
  obtain out h where h: "httpd_write_response (conn_hc s i) = (out, h)" by fastforce
  then have fd: "conn_fd h = conn_fd (conn_hc s i)" using write_response_fd [of "conn_hc s i"] by simp
  let ?s = "set_hc i h (s\<lparr>wire := (wire s)(i := wire s i @ out)\<rparr>)"
  have i: "i < length (connects s)" using assms(2) by (simp add: busy_conn)
  have t: "table_of ?s = table_of s"
  proof -
    have "table_of ?s = table_of (s\<lparr>wire := (wire s)(i := wire s i @ out)\<rparr>)"
      using busy_hc(1) [OF assms(1,2)] fd by (intro table_set_hc) auto
    then show ?thesis by (simp add: table_of_def)
  qed
  have "timer_fit (connects ?s ! i)" using assms(3) i by (simp add: set_hc_def set_conn_def timer_fit_def)
  then have "fine D (clear_connection e nowP i ?s)"
    using assms by (intro clear_connection_fine) (simp_all add: t)
  then show ?thesis by (simp add: finish_connection_def h)
qed

end
