(* ===== verification/Th_Handlers.thy ===== *)
theory Th_Handlers
  imports Th_Live
begin

text \<open>
  The handlers of thttpd for a ready descriptor and for new connections: each keeps the law of the table.
\<close>

section \<open>Reading and sending\<close>

subsection \<open>Reading\<close>

lemma hc_set: "i < length (connects s) \<Longrightarrow> conn_hc (set_hc i h s) i = h"
  by (simp add: conn_hc_def set_hc_def)

definition in_hand :: "nat set \<Rightarrow> nat \<Rightarrow> srv \<Rightarrow> bool" where
  \<comment> \<open>connection \<open>i\<close> is being handled and has the timers of its state\<close>
  "in_hand D i s \<longleftrightarrow> conns_ok (Some i) D (table_of s) \<and> busy (table_of s) i \<and> timer_fit (connects s ! i) \<and> ended s = None"

lemma in_handI:
  assumes "conns_ok None D (table_of s)" "busy (table_of s) i" "ended s = None"
  shows "in_hand D i s"
proof -
  have "i < length (connects s)" using assms(2) by (simp add: busy_conn)
  then have "timer_fit (connects s ! i)"
    using conns_okD(5) [OF assms(1,2)] by (simp add: rows_at slot_fit_def timer_fit_def slot_of_def)
  then show ?thesis using table_exempt [OF assms(1)] assms(2,3) by (simp add: in_hand_def)
qed

lemma in_hand_hc:
  assumes "in_hand D i s"
  shows "the_hc (connects s ! i) = Some (conn_hc s i)" "i < length (connects s)" "0 \<le> conn_fd (conn_hc s i)"
    "fd_at (table_of s) i = conn_fd (conn_hc s i)"
  using assms busy_hc [of "Some i" D s i] by (auto simp: in_hand_def busy_conn)

lemma in_hand_same:
  \<comment> \<open>an operation that the table does not see\<close>
  assumes "in_hand D i s" "table_of s' = table_of s" "ended s' = ended s"
  shows "in_hand D i s'"
proof -
  have l: "length (connects s') = length (connects s)" using arg_cong [OF assms(2), of "\<lambda>T. length (rows T)"] by simp
  have "slot_of (connects s' ! i) = slot_of (connects s ! i)"
    using arg_cong [OF assms(2), of "\<lambda>T. rows T ! i"] in_hand_hc(2) [OF assms(1)] l by (simp add: rows_at)
  then have "timer_fit (connects s' ! i) = timer_fit (connects s ! i)" by (simp add: timer_fit_def slot_of_def)
  then show ?thesis using assms by (simp add: in_hand_def)
qed

lemma in_hand_set_hc:
  assumes "in_hand D i s" "conn_fd h = conn_fd (conn_hc s i)"
  shows "in_hand D i (set_hc i h s)" "table_of (set_hc i h s) = table_of s"
proof -
  show "table_of (set_hc i h s) = table_of s" using in_hand_hc(1) [OF assms(1)] assms(2) by (rule table_set_hc)
  then show "in_hand D i (set_hc i h s)" using in_hand_same [OF assms(1)] by simp
qed

lemma in_hand_finish: "in_hand D i s \<Longrightarrow> fresh_memory e \<Longrightarrow> fine D (finish_connection e nowP i s)"
  by (simp add: in_hand_def finish_connection_fine)

lemma in_hand_clear: "in_hand D i s \<Longrightarrow> fresh_memory e \<Longrightarrow> fine D (clear_connection e nowP i s)"
  by (simp add: in_hand_def clear_connection_fine)

lemma in_hand_page: "in_hand D i s \<Longrightarrow> fresh_memory e \<Longrightarrow> fine D (send_and_finish e i st title form a s)"
  unfolding send_and_finish_def by (intro in_hand_finish in_hand_set_hc(1)) simp_all

lemma in_hand_bad: "in_hand D i s \<Longrightarrow> fresh_memory e \<Longrightarrow> fine D (bad_request_end e i s)"
  unfolding bad_request_end_def by (rule in_hand_page)

lemma set_conn_hc: "(\<And>c. the_hc (f c) = the_hc c) \<Longrightarrow> conn_hc (set_conn i f s) j = conn_hc s j"
  by (cases "i < length (connects s)"; cases "j = i") (simp_all add: conn_hc_def set_conn_def list_update_beyond)

lemma begin_send_fine:
  assumes "in_hand D i s" "conn_state (connects s ! i) = CNST_READING" "fresh_memory e"
  shows "fine D (begin_send e i s)"
proof -
  let ?h = "conn_hc s i"
  let ?f = "\<lambda>c. if got_range ?h then c\<lparr>next_byte_index := first_byte_index ?h, end_byte_index := last_byte_index ?h + 1\<rparr>
                else c\<lparr>end_byte_index := (if bytes_to_send ?h < 0 then 0 else bytes_to_send ?h)\<rparr>"
  let ?s = "set_conn i ?f s"
  note h = in_hand_hc [OF assms(1)]
  have same: "table_of ?s = table_of s" by (intro table_same_conn) (simp add: slot_of_def)
  then have k: "in_hand D i ?s" using in_hand_same [OF assms(1)] by simp
  have hc: "conn_hc ?s i = ?h" by (intro set_conn_hc) simp
  show ?thesis
  proof (cases "file_address ?h = None")
    case True
    let ?s1 = "set_conn i (\<lambda>c. c\<lparr>next_byte_index := bytes_sent ?h\<rparr>)
                (?s\<lparr>throttles := add_bytes (tnums (connects ?s ! i)) (bytes_sent ?h) (throttles ?s)\<rparr>)"
    have "table_of ?s1 = table_of (?s\<lparr>throttles := add_bytes (tnums (connects ?s ! i)) (bytes_sent ?h) (throttles ?s)\<rparr>)"
      by (intro table_same_conn) (simp add: slot_of_def)
    also have "\<dots> = table_of ?s" by (simp add: table_of_def)
    finally have "in_hand D i ?s1" using in_hand_same [OF k] by simp
    then show ?thesis using True in_hand_finish [OF _ assms(3)] by (simp add: begin_send_def Let_def)
  next
    case addr: False
    show ?thesis
    proof (cases "end_byte_index (connects ?s ! i) \<le> next_byte_index (connects ?s ! i)")
      case True
      then show ?thesis using addr in_hand_finish [OF k assms(3)] unfolding begin_send_def Let_def by (simp only: if_False if_True)
    next
      case False
      let ?T = "table_of s" and ?c = "connects s ! i" and ?fd = "conn_fd ?h"
      let ?g = "\<lambda>c. c\<lparr>conn_state := CNST_SENDING, started_at := tv_sec (tv e), wouldblock_delay := 0\<rparr>"
      let ?s1 = "set_conn i ?g ?s"
      have t: "conns_ok (Some i) D ?T" "busy ?T i" "timer_fit ?c" "ended s = None" using assms(1) by (simp_all add: in_hand_def)
      have fit: "watch_fit (fds ?s1)" using watch_okD(1) [OF conns_okD(3) [OF t(1)]] by (simp add: set_conn_def)
      obtain w where w: "del_fd ?fd ?s1 = ?s1\<lparr>fds := w\<rparr>" "watch_fit w" "nfiles w = nfiles (fds s)" "watched w = (watched (fds s))(?fd := None)"
        using del_fd_fit [OF fit, of ?fd] by (auto simp: set_conn_def)
      have rg: "0 \<le> ?fd" "?fd < nfiles (fds s)" using h(3,4) watch_okD(4) [OF conns_okD(3) [OF t(1)] t(2)] by simp_all
      obtain w2 where w2: "add_fd ?fd i FDW_WRITE (?s1\<lparr>fds := w\<rparr>) = ?s1\<lparr>fds := w2\<rparr>" "watch_fit w2" "nfiles w2 = nfiles (fds s)"
        "watched w2 = (watched (fds s))(?fd \<mapsto> (FDW_WRITE, Some i))"
        using add_fd_fit [of "?s1\<lparr>fds := w\<rparr>" FDW_WRITE ?fd i] w(2-4) rg by (auto simp: FDW_WRITE_def)
      have r: "begin_send e i s = ?s1\<lparr>fds := w2\<rparr>"
      proof -
        have "begin_send e i s = next_do (add_fd ?fd i FDW_WRITE) (del_fd ?fd ?s1)"
          using addr False unfolding begin_send_def Let_def by (simp only: if_False)
        then show ?thesis using t(4) by (simp add: w(1) w2(1) next_live)
      qed
      let ?c' = "(slot_of ?c)\<lparr>slot_state := CNST_SENDING\<rparr>"
      have rows: "rows (table_of (?s1\<lparr>fds := w2\<rparr>)) = (rows ?T)[i := ?c']"
        using h(2) by (simp add: table_of_def set_conn_def map_update slot_of_def)
      have old: "rows ?T ! i = slot_of ?c" using h(2) by (rule rows_at)
      have o: "owns (table_of (?s1\<lparr>fds := w2\<rparr>)) = owns ?T"
        using owns_upd [OF rows] owns_slot [OF t(2)] h(2) old by (intro ext) (simp add: own_timer_def)
      have "timers_ok D (table_of (?s1\<lparr>fds := w2\<rparr>))"
        using timers_same [OF conns_okD(4) [OF t(1)] o] by (simp add: set_conn_def)
      then have "conns_ok (Some i) D (table_of (?s1\<lparr>fds := w2\<rparr>))"
        by (intro table_move [OF t(1,2) rows])
          (use w2 h(4) old in \<open>auto simp: slot_of_def wanted_def set_conn_def\<close>)
      moreover have "slot_fit (rows (table_of (?s1\<lparr>fds := w2\<rparr>)) ! i)"
        using t(3) assms(2) h(2) by (simp add: rows slot_fit_def timer_fit_def slot_of_def)
      ultimately have "conns_ok None D (table_of (?s1\<lparr>fds := w2\<rparr>))" by (rule table_fit)
      then show ?thesis using t(4) by (simp add: r fine_def)
    qed
  qed
qed


lemma start_request_fine:
  assumes "in_hand D i s" "conn_state (connects s ! i) = CNST_READING" "fresh_memory e"
  shows "fine D (start_request e i s)"
proof -
  let ?v = "(sys e)\<lparr>timer_room := timer_memory e (tmr_of s), time_of_day := tv e\<rparr>"
  have t: "conns_ok (Some i) D (table_of s)" "busy (table_of s) i" using assms(1) by (simp_all add: in_hand_def)
  note h = in_hand_hc [OF assms(1)]
  have b: "began ?v (conn_key (conn_hc s i)) (tmr_of s) (httpd_start_request ?v (conn_hc s i) (the_sb (connects s ! i)) (the_world s))"
    by (rule began_request)
  show ?thesis
  proof (cases "httpd_start_request ?v (conn_hc s i) (the_sb (connects s ! i)) (the_world s)")
    case (Started r hc sb w)
    have fd: "conn_fd hc = conn_fd (conn_hc s i)" and k: "timers_kept ?v (tmr_of s) (w_tmr w)" using b Started by (simp_all add: keyed_def)
    let ?s1 = "s\<lparr>the_world := w\<rparr>"
    have T1: "table_of ?s1 = (table_of s)\<lparr>clock := w_tmr w\<rparr>" by (simp add: table_of_def)
    have o: "owns (table_of ?s1) = owns (table_of s)" unfolding T1 by (intro ext) (simp add: owns_def busy_def)
    have tm: "timers_ok D (table_of ?s1)"
    proof (cases "w_tmr w = tmr_of s")
      case True
      then show ?thesis using timers_same [OF conns_okD(4) [OF t(1)] o] by simp
    next
      case False
      then obtain a p where c: "tmr_create (timer_memory e (tmr_of s)) (tv e) (proc_id Cgi_kill) p (CGI_TIMELIMIT * 1000) False (tmr_of s) =
          Some (Some a, w_tmr w)" using k by (auto simp: timers_kept_def)
      have fresh: "\<And>L M b. repr L M (clock (table_of s)) \<Longrightarrow> timer_memory e (tmr_of s) = Some b \<Longrightarrow> b \<notin> M"
        using assms(3) by (auto simp: fresh_memory_def)
      have "\<not> conn_proc (proc_id Cgi_kill)" by (simp add: conn_proc_def)
      moreover note o
      moreover have "clock (table_of ?s1) = w_tmr w" by simp
      ultimately show ?thesis
        using timers_create [OF conns_okD(4) [OF t(1)], of "timer_memory e (tmr_of s)" "tv e" "proc_id Cgi_kill" p "CGI_TIMELIMIT * 1000" False]
          fresh c by auto
    qed
    have "rows (table_of ?s1) = (rows (table_of s))[i := rows (table_of s) ! i]" by (simp add: T1)
    then have "conns_ok (Some i) D (table_of ?s1)" by (rule table_stay [OF t]) (simp_all add: T1 tm [unfolded T1])
    then have k1: "in_hand D i ?s1" using assms(1) by (simp add: in_hand_def busy_conn)
    let ?s2 = "set_conn i (\<lambda>c. c\<lparr>the_sb := sb\<rparr>) ?s1"
    have "table_of ?s2 = table_of ?s1" by (intro table_same_conn) (simp add: slot_of_def)
    then have k2: "in_hand D i ?s2" using in_hand_same [OF k1] by simp
    have hc2: "conn_hc ?s2 i = conn_hc s i" by (subst set_conn_hc) (simp_all add: conn_hc_def)
    let ?s3 = "set_hc i hc ?s2"
    have k3: "in_hand D i ?s3" using in_hand_set_hc(1) [OF k2] fd hc2 by simp
    have "conn_state (connects ?s3 ! i) = CNST_READING" using assms(2) h(2) by (simp add: set_hc_def)
    moreover have "start_request e i s = (if r < 0 then finish_connection e (tv e) i ?s3 else begin_send e i ?s3)"
      using Started by (simp add: start_request_def Let_def)
    ultimately show ?thesis using begin_send_fine [OF k3 _ assms(3)] in_hand_finish [OF k3 assms(3)] by simp
  qed (simp_all add: start_request_def)
qed

lemma check_loop_counts:
  assumes "check_loop f ts (tab, ns, mx, mn) = (ok, tab', ns', mx', mn')" "set ts \<subseteq> {..<length tab}"
    "\<And>t. t < length tab \<Longrightarrow> 0 \<le> num_sending (tab ! t)"
  shows "length tab' = length tab \<and> (\<exists>new. ns' = ns @ new \<and> set new \<subseteq> set ts \<and>
    (\<forall>t < length tab. num_sending (tab' ! t) = num_sending (tab ! t) + int (count_list new t)))"
  using assms
proof (induction ts arbitrary: tab ns mx mn)
  case (Cons t ts)
  let ?stop = "MAXTHROTTLENUMS \<le> length ns"
  let ?x = "tab ! t"
  show ?case
  proof (cases "?stop \<or> (match (pattern ?x) f \<and> (limit_max ?x * 2 < rate ?x \<or> rate ?x < limit_min ?x))")
    case True
    then have "tab' = tab" "ns' = ns" using Cons.prems(1) by (auto split: if_splits)
    then show ?thesis by auto
  next
    case go: False
    show ?thesis
    proof (cases "match (pattern ?x) f")
      case False
      then have "check_loop f ts (tab, ns, mx, mn) = (ok, tab', ns', mx', mn')" using Cons.prems(1) go by (auto split: if_splits)
      from Cons.IH [OF this] Cons.prems(2,3) show ?thesis by fastforce
    next
      case True
      let ?n = "num_sending ?x + 1" and ?tab = "tab[t := ?x\<lparr>num_sending := num_sending ?x + 1\<rparr>]"
      have t: "t < length tab" "0 \<le> num_sending ?x" using Cons.prems(2,3) by auto
      have "check_loop f ts (?tab, ns @ [t], joined_max mx (limit_max ?x sdiv ?n), joined_min mn (limit_min ?x)) = (ok, tab', ns', mx', mn')"
        using Cons.prems(1) True go t(2) by (auto simp: Let_def split: if_splits)
      moreover have "set ts \<subseteq> {..<length ?tab}" using Cons.prems(2) by simp
      moreover have "0 \<le> num_sending (?tab ! k)" if "k < length ?tab" for k
        using that t(2) Cons.prems(3) [of k] by (cases "k = t") simp_all
      ultimately have "length tab' = length ?tab \<and> (\<exists>new. ns' = (ns @ [t]) @ new \<and> set new \<subseteq> set ts \<and>
          (\<forall>k < length ?tab. num_sending (tab' ! k) = num_sending (?tab ! k) + int (count_list new k)))" by (rule Cons.IH)
      then obtain new where new: "length tab' = length tab" "ns' = (ns @ [t]) @ new" "set new \<subseteq> set ts"
        "\<forall>k < length tab. num_sending (tab' ! k) = num_sending (?tab ! k) + int (count_list new k)"
        by auto
      then show ?thesis using t by (intro conjI exI [of _ "t # new"]) (auto simp: nth_list_update)
    qed
  qed
qed auto

lemma check_throttles_counts:
  assumes "check_throttles f tab = (ok, tab', ns, mx, mn)" "\<And>t. t < length tab \<Longrightarrow> 0 \<le> num_sending (tab ! t)"
  shows "length tab' = length tab" "set ns \<subseteq> {..<length tab}"
    "t < length tab \<Longrightarrow> num_sending (tab' ! t) = num_sending (tab ! t) + int (count_list ns t)"
  using check_loop_counts [OF assms(1) [unfolded check_throttles_def] _ assms(2)] by (auto simp: subset_iff)

lemma admit_fine:
  assumes "in_hand D i s" "conn_state (connects s ! i) = CNST_READING" "tnums (connects s ! i) = []" "fresh_memory e"
  shows "fine D (admit e i s)"
proof -
  let ?T = "table_of s" and ?c = "connects s ! i"
  have t: "conns_ok (Some i) D ?T" "busy ?T i" "timer_fit ?c" "ended s = None" using assms(1) by (simp_all add: in_hand_def)
  note k = conns_okD [OF t(1)] and h = in_hand_hc [OF assms(1)]
  obtain ok tab ns mx mn where c: "check_throttles (str (expnfilename (conn_hc s i))) (throttles s) = (ok, tab, ns, mx, mn)"
    by (cases "check_throttles (str (expnfilename (conn_hc s i))) (throttles s)") auto
  have nn: "0 \<le> num_sending (throttles s ! j)" if "j < length (throttles s)" for j
  proof -
    have "sending ?T ! j = load (rows ?T) j" using k(2) that unfolding count_ok_def by simp
    then show ?thesis using load_nonneg [of "rows ?T" j] that by simp
  qed
  note ct = check_throttles_counts [OF c nn]
  let ?s = "set_conn i (\<lambda>c. c\<lparr>tnums := ns, max_limit := mx, min_limit := mn\<rparr>) (s\<lparr>throttles := tab\<rparr>)"
  let ?T' = "table_of ?s" and ?c' = "(slot_of ?c)\<lparr>slot_nums := ns\<rparr>"
  have rows: "rows ?T' = (rows ?T)[i := ?c']" by (simp add: table_of_def set_conn_def map_update slot_of_def)
  have old: "rows ?T ! i = slot_of ?c" using h(2) by (rule rows_at)
  have nf: "slot_state ?c' \<noteq> CNST_FREE" using assms(2) by (simp add: slot_of_def)
  have b: "busy ?T' j = busy ?T j" for j using busy_upd(1) [OF rows] h(2) nf t(2) by simp
  have at: "j \<noteq> i \<Longrightarrow> rows ?T' ! j = rows ?T ! j" for j by (simp add: rows)
  have "conns_ok (Some i) D ?T'"
  proof (rule conns_okI)
    show "free_ok ?T'" by (rule free_keep [OF k(1) t(2) rows nf]) (simp_all add: set_conn_def)
    show "count_ok ?T'"
      by (rule count_nums [OF k(2) t(2) rows nf])
        (use ct assms(3) old in \<open>simp_all add: set_conn_def slot_of_def\<close>)
    have wd: "wanted ?c' i = wanted (slot_of ?c) i" by (simp add: wanted_def)
    show "watch_ok ?T'"
      by (rule watch_move [OF k(3) t(2) rows nf])
        (use watch_okD(1,5) [OF k(3)] t(2) old wd in \<open>auto simp: set_conn_def\<close>)
    have "owns ?T' = owns ?T"
      using owns_upd [OF rows] owns_slot [OF t(2)] h(2) old nf by (intro ext) (auto simp: own_timer_def)
    then show "timers_ok D ?T'" by (rule timers_same [OF k(4)]) (simp add: set_conn_def)
    show "slot_fit (rows ?T' ! j)" if "busy ?T' j" "Some i \<noteq> Some j" for j
      using that b k(5) [of j] at [of j] by auto
  qed
  moreover have "timer_fit (connects ?s ! i)" using t(3) h(2) by (simp add: timer_fit_def)
  ultimately have k1: "in_hand D i ?s" using t(2,4) b by (simp add: in_hand_def)
  have "conn_state (connects ?s ! i) = CNST_READING" using assms(2) h(2) by simp
  then show ?thesis
    using start_request_fine [OF k1 _ assms(4)] in_hand_page [OF k1 assms(4)] by (simp add: admit_def c Let_def)
qed

lemma set_hc_state: "conn_state (connects (set_hc i h s) ! j) = conn_state (connects s ! j)" "tnums (connects (set_hc i h s) ! j) = tnums (connects s ! j)"
  by (cases "i < length (connects s)"; cases "j = i"; simp add: set_hc_def set_conn_def list_update_beyond)+

lemma refusal_fd [simp]: "conn_fd (refusal_page v mt st a h) = conn_fd h"
  by (simp add: refusal_page_def)

lemma got_request_fine:
  assumes "in_hand D i s" "conn_state (connects s ! i) = CNST_READING" "tnums (connects s ! i) = []" "fresh_memory e"
  shows "fine D (got_request e i s)"
proof -
  have p: "fd_of (\<lambda>h. h) (conn_key (conn_hc s i)) (httpd_parse_request (http (sys e)) (conn_hc s i))" by (rule fd_parse) simp
  show ?thesis
  proof (cases "httpd_parse_request (http (sys e)) (conn_hc s i)")
    case (Done h)
    then have "in_hand D i (set_hc i h s)" using p by (intro in_hand_set_hc(1) [OF assms(1)]) simp
    then show ?thesis using admit_fine [of D i "set_hc i h s" e] assms(2-4) Done by (simp add: got_request_def set_hc_state)
  next
    case (Refused st a h)
    then have "in_hand D i (set_hc i (refusal_page (sys e) (st_mtime (the_sb (connects s ! i))) st a h) s)"
      using p by (intro in_hand_set_hc(1) [OF assms(1)]) simp
    from in_hand_finish [OF this assms(4)] show ?thesis using Refused by (simp add: got_request_def)
  qed (simp add: got_request_def)
qed

lemma got_bytes_fine:
  assumes "in_hand D i s" "conn_state (connects s ! i) = CNST_READING" "tnums (connects s ! i) = []" "fresh_memory e"
  shows "fine D (got_bytes e i bs s)"
proof -
  let ?h = "(conn_hc s i)\<lparr>read_buf := take (read_idx (conn_hc s i)) (read_buf (conn_hc s i)) @ bs,
      read_idx := read_idx (conn_hc s i) + length bs\<rparr>"
  obtain r k st where g: "httpd_got_request (read_buf ?h) (read_idx ?h) (checked_idx ?h) (checked_state ?h) = (r, k, st)"
    by (cases "httpd_got_request (read_buf ?h) (read_idx ?h) (checked_idx ?h) (checked_state ?h)") auto
  let ?s1 = "set_conn i (\<lambda>c. c\<lparr>active_at := tv_sec (tv e)\<rparr>) s"
  let ?s2 = "set_hc i (?h\<lparr>checked_idx := k, checked_state := st\<rparr>) ?s1"
  have i: "i < length (connects s)" using in_hand_hc(2) [OF assms(1)] .
  have "table_of ?s1 = table_of s" by (intro table_same_conn) (simp add: slot_of_def)
  then have "in_hand D i ?s1" using in_hand_same [OF assms(1)] by simp
  moreover have "conn_hc ?s1 i = conn_hc s i" by (intro set_conn_hc) simp
  ultimately have k2: "in_hand D i ?s2" by (intro in_hand_set_hc(1)) simp_all
  have st2: "conn_state (connects ?s2 ! i) = CNST_READING" "tnums (connects ?s2 ! i) = []"
    using assms(2,3) i by (simp_all add: set_hc_state)
  have "conns_ok None D (table_of ?s2)"
  proof (rule table_fit [of i])
    show "conns_ok (Some i) D (table_of ?s2)" using k2 by (simp add: in_hand_def)
    have "timer_fit (connects ?s2 ! i)" using k2 by (simp add: in_hand_def)
    then show "slot_fit (rows (table_of ?s2) ! i)"
      using st2 in_hand_hc(2) [OF k2] by (simp add: rows_at slot_fit_def slot_of_def timer_fit_def)
  qed
  then have f: "fine D ?s2" using k2 by (simp add: fine_def in_hand_def)
  show ?thesis
    using f in_hand_bad [OF k2 assms(4)] got_request_fine [OF k2 st2 assms(4)] g
    by (simp add: got_bytes_def Let_def split: got.split)
qed

lemma in_hand_fine:
  assumes "conns_ok None D (table_of s)" "ended s = None"
  shows "fine D s"
  using assms by (simp add: fine_def)

lemma handle_read_fine:
  assumes "conns_ok None D (table_of s)" "busy (table_of s) i" "ended s = None" "conn_state (connects s ! i) = CNST_READING"
    "fresh_memory e"
  shows "fine D (handle_read e i s)"
proof -
  note k = in_handI [OF assms(1,2,3)]
  have i: "i < length (connects s)" using in_hand_hc(2) [OF k] .
  have n: "tnums (connects s ! i) = []"
    using conns_okD(5) [OF assms(1,2)] i assms(4) by (simp add: rows_at slot_fit_def slot_of_def)
  have m: "fine D (read_more e i s')" if s': "in_hand D i s'" "table_of s' = table_of s" "conn_state (connects s' ! i) = CNST_READING"
      "tnums (connects s' ! i) = []" for s'
  proof -
    have "fine D s'" using assms(1) s'(1,2) by (simp add: fine_def in_hand_def)
    then show ?thesis using in_hand_bad [OF s'(1) assms(5)] got_bytes_fine [OF s'(1,3,4) assms(5)]
      by (simp add: read_more_def Let_def split: read_answer.split)
  qed
  let ?h = "(conn_hc s i)\<lparr>read_size := maxsize (httpd_realloc_str (read_size (conn_hc s i) + 1000)
      \<lparr>str = read_buf (conn_hc s i), maxsize = read_size (conn_hc s i)\<rparr>)\<rparr>"
  have "conn_fd ?h = conn_fd (conn_hc s i)" by simp
  note h = in_hand_set_hc [OF k this]
  have "fine D (read_more e i (set_hc i ?h s))"
    using h assms(4) n by (intro m) (simp_all add: set_hc_state)
  then show ?thesis
    using in_hand_bad [OF k assms(5)] m [OF k refl assms(4) n] by (simp add: handle_read_def Let_def)
qed

subsection \<open>Sending\<close>

lemma pause_fine:
  assumes "in_hand D i s" "conn_state (connects s ! i) = CNST_SENDING" "fresh_memory e"
  shows "fine D (pause e i ms s)"
proof -
  let ?T = "table_of s" and ?c = "connects s ! i" and ?fd = "conn_fd (conn_hc s i)"
  have t: "conns_ok (Some i) D ?T" "busy ?T i" "timer_fit ?c" "ended s = None" using assms(1) by (simp_all add: in_hand_def)
  note k = conns_okD [OF t(1)] and h = in_hand_hc [OF assms(1)]
  have tn: "wakeup_timer ?c = None" "linger_timer ?c = None" using t(3) assms(2) by (auto simp: timer_fit_def)
  let ?s1 = "set_conn i (\<lambda>c. c\<lparr>conn_state := CNST_PAUSING\<rparr>) s"
  have fit: "watch_fit (fds ?s1)" using watch_okD(1) [OF k(3)] by (simp add: set_conn_def)
  obtain w where w: "del_fd ?fd ?s1 = ?s1\<lparr>fds := w\<rparr>" "watch_fit w" "nfiles w = nfiles (fds s)" "watched w = (watched (fds s))(?fd := None)"
    using del_fd_fit [OF fit, of ?fd] by (auto simp: set_conn_def)
  let ?s2 = "?s1\<lparr>fds := w\<rparr>" and ?st = "\<lambda>a c. c\<lparr>wakeup_timer := Some a\<rparr>"
  have r: "pause e i ms s = start_timer e (tv e) Wakeup i ms ?st ?s2"
    using t(4) by (simp add: pause_def w(1) next_live)
  have "clock ?T = tmr_of ?s2" by (simp add: set_conn_def)
  from start_timer_cases [OF k(4) this assms(3), of "tv e" Wakeup i ms ?st] show ?thesis
  proof (elim disjE exE)
    fix a tm assume c: "start_timer e (tv e) Wakeup i ms ?st ?s2 = set_conn i (?st a) (set_tmr tm ?s2) \<and>
      (\<forall>T'. clock T' = tm \<longrightarrow> owns ?T (proc_id Wakeup) i = None \<longrightarrow> conn_proc (proc_id Wakeup) \<longrightarrow>
          owns T' = own_upd (owns ?T) (proc_id Wakeup) i (Some a) \<longrightarrow> timers_ok D T')"
    let ?s3 = "set_conn i (?st a) (set_tmr tm ?s2)"
    let ?T' = "table_of ?s3" and ?c' = "slot_of (?c\<lparr>conn_state := CNST_PAUSING, wakeup_timer := Some a\<rparr>)"
    have rows: "rows ?T' = (rows ?T)[i := ?c']"
      using h(2) by (simp add: table_of_def set_conn_def set_tmr_def map_update)
    have old: "rows ?T ! i = slot_of ?c" using h(2) by (rule rows_at)
    have o: "owns ?T' = own_upd (owns ?T) (proc_id Wakeup) i (Some a)"
      using owns_upd [OF rows] owns_slot [OF t(2)] h(2) tn old
      by (intro ext) (auto simp: own_upd_def own_timer_def conn_proc_def slot_of_def)
    have "timers_ok D ?T'"
      using c o owns_slot [OF t(2)] tn old by (auto simp: slot_of_def set_tmr_def set_conn_def)
    then have "conns_ok (Some i) D ?T'"
      by (intro table_move [OF t(1,2) rows])
        (use w h(4) old in \<open>auto simp: slot_of_def wanted_def set_tmr_def set_conn_def\<close>)
    moreover have "slot_fit (rows ?T' ! i)" using tn h(2) by (simp add: rows slot_fit_def slot_of_def)
    ultimately have "conns_ok None D ?T'" by (rule table_fit)
    then show ?thesis using c t(4) by (simp add: r fine_def)
  qed (simp add: r)
qed

lemma in_hand_fit:
  assumes "in_hand D i s" "conn_state (connects s ! i) = CNST_SENDING"
  shows "fine D s"
proof -
  have "conns_ok None D (table_of s)"
  proof (rule table_fit [of i])
    show "conns_ok (Some i) D (table_of s)" using assms(1) by (simp add: in_hand_def)
    show "slot_fit (rows (table_of s) ! i)"
      using assms in_hand_hc(2) [OF assms(1)] by (simp add: in_hand_def timer_fit_def rows_at slot_fit_def slot_of_def)
  qed
  then show ?thesis using assms(1) by (simp add: fine_def in_hand_def)
qed

lemma throttle_send_fine:
  assumes "in_hand D i s" "conn_state (connects s ! i) = CNST_SENDING" "fresh_memory e"
    "max_limit (connects s ! i) = 0 \<Longrightarrow> bytes_sent (conn_hc s i) = 0"
  shows "fine D (throttle_send e i s)"
  using assms(4) pause_fine [OF assms(1-3)] in_hand_fit [OF assms(1,2)] by (auto simp: throttle_send_def Let_def)

lemma send_blocked_fine:
  assumes "in_hand D i s" "conn_state (connects s ! i) = CNST_SENDING" "fresh_memory e"
  shows "fine D (send_blocked e i s)"
proof -
  let ?s = "set_conn i (\<lambda>c. c\<lparr>wouldblock_delay := wouldblock_delay (connects s ! i) + MIN_WOULDBLOCK_DELAY\<rparr>) s"
  have "table_of ?s = table_of s" by (intro table_same_conn) (simp add: slot_of_def)
  then have "in_hand D i ?s" using in_hand_same [OF assms(1)] by simp
  then show ?thesis using pause_fine [of D i ?s] assms in_hand_hc(2) [OF assms(1)] by (simp add: send_blocked_def Let_def)
qed

lemma advanced_hand:
  assumes "in_hand D i s"
  shows "in_hand D i (advanced e i n s)" "conn_state (connects (advanced e i n s) ! i) = conn_state (connects s ! i)"
    "max_limit (connects (advanced e i n s) ! i) = max_limit (connects s ! i)"
    "bytes_sent (conn_hc (advanced e i n s) i) = bytes_sent (conn_hc s i) + int (n - responselen (conn_hc s i))"
proof -
  let ?c = "connects s ! i" and ?h = "conn_hc s i"
  note h = in_hand_hc [OF assms]
  have ad: "conn_fd (fst (advance n ?h)) = conn_fd ?h" "snd (advance n ?h) = n - responselen ?h" by (auto simp: advance_def)
  let ?s1 = "s\<lparr>throttles := add_bytes (tnums ?c) (int (snd (advance n ?h))) (throttles s), wire := (wire s)(i := wire s i @ take n (to_write e ?c ?h))\<rparr>"
  have "table_of ?s1 = table_of s" by (simp add: table_of_def)
  then have k1: "in_hand D i ?s1" using in_hand_same [OF assms] by simp
  have "conn_hc ?s1 i = ?h" by (simp add: conn_hc_def)
  then have k2: "in_hand D i (set_hc i ((fst (advance n ?h))\<lparr>bytes_sent := bytes_sent ?h + int (snd (advance n ?h))\<rparr>) ?s1)"
    using ad by (intro in_hand_set_hc(1) [OF k1]) simp
  show "in_hand D i (advanced e i n s)"
    unfolding advanced_def Let_def by (rule in_hand_same [OF k2 table_same_conn]) (simp_all add: slot_of_def)
  show "conn_state (connects (advanced e i n s) ! i) = conn_state ?c" "max_limit (connects (advanced e i n s) ! i) = max_limit ?c"
    "bytes_sent (conn_hc (advanced e i n s) i) = bytes_sent ?h + int (n - responselen ?h)"
    using h(2) ad by (simp_all add: advanced_def Let_def set_hc_def set_conn_def conn_hc_def)
qed

lemma written_fine:
  assumes "in_hand D i s" "conn_state (connects s ! i) = CNST_SENDING" "fresh_memory e"
    "responselen (conn_hc s i) = 0 \<or> bytes_sent (conn_hc s i) = 0"
    "0 < n" "n \<le> responselen (conn_hc s i) + send_size (connects s ! i)"
  shows "fine D (written e i n s)"
proof -
  let ?s = "advanced e i n s"
  let ?t = "set_conn i (\<lambda>c. if MIN_WOULDBLOCK_DELAY < wouldblock_delay c
                then c\<lparr>wouldblock_delay := wouldblock_delay c - MIN_WOULDBLOCK_DELAY\<rparr> else c) ?s"
  note a = advanced_hand [OF assms(1), of e n]
  have "table_of ?t = table_of ?s" by (intro table_same_conn) (simp add: slot_of_def)
  then have k: "in_hand D i ?t" using in_hand_same [OF a(1)] by simp
  have i: "i < length (connects ?s)" using in_hand_hc(2) [OF a(1)] .
  have "bytes_sent (conn_hc ?t i) = 0" if z: "max_limit (connects ?t ! i) = 0"
  proof -
    have "max_limit (connects s ! i) = 0" using z i a(3) by (simp split: if_splits)
    then have "send_size (connects s ! i) = 0" by (simp add: send_size_def max_bytes_def THROTTLE_NOLIMIT_def)
    then have "responselen (conn_hc s i) \<noteq> 0" "n - responselen (conn_hc s i) = 0" using assms(5,6) by auto
    then have "bytes_sent (conn_hc ?s i) = 0" using a(4) assms(4) by simp
    moreover have "conn_hc ?t i = conn_hc ?s i" by (intro set_conn_hc) simp
    ultimately show ?thesis by simp
  qed
  moreover have "conn_state (connects ?t ! i) = CNST_SENDING" using a(2) assms(2) i by simp
  ultimately have "fine D (throttle_send e i ?t)" using throttle_send_fine [OF k _ assms(3)] by blast
  then show ?thesis using in_hand_finish [OF a(1) assms(3)] by (simp add: written_def Let_def)
qed

lemma handle_send_fine:
  assumes "conns_ok None D (table_of s)" "busy (table_of s) i" "ended s = None" "conn_state (connects s ! i) = CNST_SENDING"
    "fresh_memory e" "responselen (conn_hc s i) = 0 \<or> bytes_sent (conn_hc s i) = 0"
  shows "fine D (handle_send e i s)"
proof -
  note k = in_handI [OF assms(1,2,3)]
  have f: "fine D s" using assms(1,3) by (simp add: fine_def)
  show ?thesis
  proof (cases "writes e i")
    case (Wrote n)
    let ?n = "min n (responselen (conn_hc s i) + send_size (connects s ! i))"
    show ?thesis
    proof (cases "?n = 0")
      case True
      then show ?thesis using Wrote send_blocked_fine [OF k assms(4,5)] by (simp add: handle_send_def Let_def)
    next
      case False
      then have "fine D (written e i ?n s)" by (intro written_fine [OF k assms(4,5,6)]) simp_all
      then show ?thesis using Wrote False unfolding handle_send_def Let_def by (simp only: write_answer.case if_False)
    qed
  qed (use f send_blocked_fine [OF k assms(4,5)] in_hand_clear [OF k assms(5)] in \<open>simp_all add: handle_send_def\<close>)
qed

lemma handle_linger_fine:
  assumes "conns_ok None D (table_of s)" "busy (table_of s) i" "ended s = None" "conn_state (connects s ! i) = CNST_LINGERING"
  shows "fine D (handle_linger e i s)"
proof -
  note k = in_handI [OF assms(1,2,3)]
  have f: "fine D s" using assms(1,3) by (simp add: fine_def)
  have "wakeup_timer (connects s ! i) = None" using k assms(4) by (simp add: in_hand_def timer_fit_def)
  then have "fine D (really_clear_connection e (tv e) i s)"
    using k assms(2,3) by (intro really_clear_fine) (simp_all add: in_hand_def)
  then show ?thesis using f by (simp add: handle_linger_def split: read_answer.split)
qed

subsection \<open>Service\<close>

definition sent_fit :: "conn \<Rightarrow> bool" where
  \<comment> \<open>a file's bytes are counted only behind the headers\<close>
  "sent_fit c \<longleftrightarrow> (case the_hc c of None \<Rightarrow> True | Some h \<Rightarrow>
     (conn_state c = CNST_READING \<longrightarrow> bytes_sent h = 0 \<and> file_address h = None) \<and>
     (at_work c \<longrightarrow> responselen h = 0 \<or> bytes_sent h = 0))"

definition sent_ok :: "srv \<Rightarrow> bool" where
  "sent_ok s \<longleftrightarrow> (\<forall>i < length (connects s). sent_fit (connects s ! i))"

lemma service_fine:
  assumes "conns_ok None D (table_of s)" "busy (table_of s) i" "ended s = None" "fresh_memory e" "sent_ok s"
  shows "fine D (service e i s)"
proof -
  note k = in_handI [OF assms(1,2,3)]
  have f: "fine D s" using assms(1,3) by (simp add: fine_def)
  obtain ok where ok: "fdwatch_check_fd (conn_fd (conn_hc s i)) (fds s) = Some ok"
    using fit_check [OF watch_okD(1) [OF conns_okD(3) [OF assms(1)]]] by auto
  have "sent_fit (connects s ! i)" using assms(5) in_hand_hc(2) [OF k] by (simp add: sent_ok_def)
  then have se: "responselen (conn_hc s i) = 0 \<or> bytes_sent (conn_hc s i) = 0" if "conn_state (connects s ! i) = CNST_SENDING"
    using that in_hand_hc(1) [OF k] by (simp add: sent_fit_def at_work_def)
  show ?thesis
    using ok f in_hand_clear [OF k assms(4)] handle_read_fine [OF assms(1-3) _ assms(4)] handle_send_fine [OF assms(1-3) _ assms(4) se]
      handle_linger_fine [OF assms(1-3)]
    by (simp add: service_def split: cnst.split)
qed

subsection \<open>New connections\<close>

fun descriptor :: "accepted \<Rightarrow> int option" where
  "descriptor (Accepted fd known) = (if known then Some fd else None)"
| "descriptor x = None"

definition new_descriptors :: "accepted list \<Rightarrow> srv \<Rightarrow> bool" where
  \<comment> \<open>\<open>accept\<close> returns descriptors below the limit that are not open\<close>
  "new_descriptors as s \<longleftrightarrow> distinct (List.map_filter descriptor as) \<and>
     (\<forall>fd \<in> set (List.map_filter descriptor as). 0 \<le> fd \<and> fd < nfiles (fds s) \<and> watched (fds s) fd = None \<and>
        (\<forall>i. busy (table_of s) i \<longrightarrow> fd_at (table_of s) i \<noteq> fd))"

lemma free_chain_cong: "(\<And>n. n \<in> set ns \<Longrightarrow> slot_next (cs' ! n) = slot_next (cs ! n)) \<Longrightarrow> free_chain cs' f ns = free_chain cs f ns"
  by (induction ns arbitrary: f) auto

lemma table_free_row:
  \<comment> \<open>the descriptor in an unused slot does not matter\<close>
  assumes "conns_ok x D T" "i < length (rows T)" "slot_state (rows T ! i) = CNST_FREE" "T' = T\<lparr>rows := (rows T)[i := (rows T ! i)\<lparr>slot_fd := fd\<rparr>]\<rparr>"
  shows "conns_ok x D T'"
proof (rule conns_okI)
  note t = conns_okD [OF assms(1)]
  have r: "rows T' = (rows T)[i := (rows T ! i)\<lparr>slot_fd := fd\<rparr>]" by (simp add: assms(4))
  have st: "slot_state (rows T' ! j) = slot_state (rows T ! j)" "slot_next (rows T' ! j) = slot_next (rows T ! j)" for j
    using assms(2) by (cases "j = i"; simp add: r)+
  have b: "busy T' j = busy T j" for j unfolding busy_def st by (simp add: r)
  have ri: "busy T j \<Longrightarrow> rows T' ! j = rows T ! j" for j using assms(3) by (cases "j = i") (auto simp: r busy_def)
  have o: "owns T' = owns T" by (intro ext) (auto simp: owns_def b ri)
  show "free_ok T'"
    using t(1) free_chain_cong [of _ "rows T'" "rows T"] st unfolding free_ok_def by (simp add: assms(4))
  have "load (rows T') t = load (rows T) t" for t using assms(2,3) by (simp add: r load_upd)
  then show "count_ok T'" using t(2) b ri unfolding count_ok_def by (simp add: assms(4))
  have fd: "busy T j \<Longrightarrow> fd_at T' j = fd_at T j" for j using ri by (simp add: fd_at_def)
  have w: "watch T' = watch T" by (simp add: assms(4))
  show "watch_ok T'"
    unfolding watch_ok_def w b using watch_okD [OF t(3)] ri fd by (simp cong: conj_cong)
  show "timers_ok D T'" by (rule timers_same [OF t(4) o]) (simp add: assms(4))
  show "slot_fit (rows T' ! j)" if "busy T' j" "x \<noteq> Some j" for j using that t(5) [of j] b ri by simp
qed

lemma table_enter:
  assumes "conns_ok None D T" "used T < int (length (rows T))"
  shows "\<exists>i. first_free T = int i \<and> i < length (rows T) \<and> slot_state (rows T ! i) = CNST_FREE \<and>
    (\<forall>T' c fd. rows T' = (rows T)[i := c] \<longrightarrow> slot_state c = CNST_READING \<longrightarrow> slot_nums c = [] \<longrightarrow> slot_wakeup c = None \<longrightarrow>
       slot_linger c = None \<longrightarrow> slot_fd c = Some fd \<longrightarrow> used T' = used T + 1 \<longrightarrow> first_free T' = slot_next (rows T ! i) \<longrightarrow>
       sending T' = sending T \<longrightarrow> 0 \<le> fd \<longrightarrow> fd < nfiles (watch T) \<longrightarrow> watched (watch T) fd = None \<longrightarrow>
       (\<forall>j. busy T j \<longrightarrow> fd_at T j \<noteq> fd) \<longrightarrow> watch_fit (watch T') \<longrightarrow> nfiles (watch T') = nfiles (watch T) \<longrightarrow>
       watched (watch T') = (watched (watch T))(fd \<mapsto> (FDW_READ, Some i)) \<longrightarrow> clock T' = clock T \<longrightarrow> conns_ok None D T')"
proof -
  note t = conns_okD [OF assms(1)]
  obtain i where i: "first_free T = int i" "i < length (rows T)" "slot_state (rows T ! i) = CNST_FREE"
    "\<And>T' c. rows T' = (rows T)[i := c] \<Longrightarrow> slot_state c \<noteq> CNST_FREE \<Longrightarrow> used T' = used T + 1 \<Longrightarrow>
      first_free T' = slot_next (rows T ! i) \<Longrightarrow> free_ok T'"
    using free_enter [OF t(1) assms(2)] by blast
  have "conns_ok None D T'" if
    c: "rows T' = (rows T)[i := c]" "slot_state c = CNST_READING" "slot_nums c = []" "slot_wakeup c = None" "slot_linger c = None"
      "slot_fd c = Some fd" and u: "used T' = used T + 1" "first_free T' = slot_next (rows T ! i)" "sending T' = sending T"
    and fd: "0 \<le> fd" "fd < nfiles (watch T)" "watched (watch T) fd = None" "\<forall>j. busy T j \<longrightarrow> fd_at T j \<noteq> fd"
    and w: "watch_fit (watch T')" "nfiles (watch T') = nfiles (watch T)" "watched (watch T') = (watched (watch T))(fd \<mapsto> (FDW_READ, Some i))"
    and ck: "clock T' = clock T" for T' c fd
  proof (rule conns_okI)
    have nf: "slot_state c \<noteq> CNST_FREE" using c(2) by simp
    show "free_ok T'" using i(4) [OF c(1) nf u(1,2)] .
    show "count_ok T'" using count_enter [OF t(2) i(2,3) c(1,3) u(3)] .
    have "wanted c i = Some (FDW_READ, Some i)" using c(2) by (simp add: wanted_def)
    then show "watch_ok T'"
      using watch_enter [OF t(3) i(2,3) c(1) nf c(6) fd(1-3) _ w(1,2)] fd(4) w(3) by simp
    have "owns T' = owns T"
      using owns_upd [OF c(1) i(2)] i(3) c(4,5) by (intro ext) (auto simp: own_timer_def owns_def busy_def)
    then show "timers_ok D T'" by (rule timers_same [OF t(4)]) (simp add: ck)
    show "slot_fit (rows T' ! j)" if "busy T' j" for j
      using that t(5) [of j] busy_upd [OF c(1) i(2)] c(2-5) by (cases "j = i") (auto simp: slot_fit_def)
  qed
  then show ?thesis using i(1-3) by blast
qed


lemma free_slot_set_hc:
  assumes "conns_ok None D (table_of s)" "i < length (connects s)" "conn_state (connects s ! i) = CNST_FREE"
  shows "conns_ok None D (table_of (set_hc i h s))" "busy (table_of (set_hc i h s)) j = busy (table_of s) j"
    "busy (table_of s) j \<Longrightarrow> fd_at (table_of (set_hc i h s)) j = fd_at (table_of s) j"
proof -
  have old: "rows (table_of s) ! i = slot_of (connects s ! i)" using assms(2) by (rule rows_at)
  have T: "table_of (set_hc i h s) = (table_of s)\<lparr>rows := (rows (table_of s))[i := (rows (table_of s) ! i)\<lparr>slot_fd := Some (conn_fd h)\<rparr>]\<rparr>"
    unfolding set_hc_def table_set_conn old by (simp add: slot_of_def)
  show "conns_ok None D (table_of (set_hc i h s))"
    by (rule table_free_row [OF assms(1) _ _ T]) (use assms(2,3) old in \<open>simp_all add: slot_of_def\<close>)
  have f: "slot_state (rows (table_of s) ! i) = CNST_FREE" using assms(3) old by (simp add: slot_of_def)
  show "busy (table_of (set_hc i h s)) j = busy (table_of s) j"
    using assms(2) f unfolding T busy_def by (cases "j = i") simp_all
  show "busy (table_of s) j \<Longrightarrow> fd_at (table_of (set_hc i h s)) j = fd_at (table_of s) j"
    using f unfolding T fd_at_def busy_def by (cases "j = i") simp_all
qed

lemma accept_conn_fine:
  assumes "conns_ok None D (table_of s)" "ended s = None" "num_connects s < int (length (connects s))" "i = nat (first_free_connect s)"
    "conn_fd h = fd" "0 \<le> fd" "fd < nfiles (fds s)" "watched (fds s) fd = None" "\<And>j. busy (table_of s) j \<Longrightarrow> fd_at (table_of s) j \<noteq> fd"
    "s' = accept_conn e i h s"
  shows "conns_ok None D (table_of s')" "ended s' = None" "nfiles (fds s') = nfiles (fds s)"
    "watched (fds s') = (watched (fds s))(fd \<mapsto> (FDW_READ, Some i))" "busy (table_of s') j \<Longrightarrow> busy (table_of s) j \<or> j = i"
    "fd_at (table_of s') j = (if j = i then fd else fd_at (table_of s) j)"
    "connects s' = (connects s)[i := (connects s ! i)\<lparr>conn_state := CNST_READING, next_free_connect := -1, the_hc := Some h,
       active_at := tv_sec (tv e), wakeup_timer := None, linger_timer := None, next_byte_index := 0, tnums := []\<rparr>]"
proof -
  let ?T = "table_of s"
  let ?c = "(connects s ! i)\<lparr>conn_state := CNST_READING, next_free_connect := -1, the_hc := Some h,
       active_at := tv_sec (tv e), wakeup_timer := None, linger_timer := None, next_byte_index := 0, tnums := []\<rparr>"
  obtain j where j: "first_free ?T = int j" "j < length (rows ?T)" "slot_state (rows ?T ! j) = CNST_FREE"
    "\<forall>T' c fd. rows T' = (rows ?T)[j := c] \<longrightarrow> slot_state c = CNST_READING \<longrightarrow> slot_nums c = [] \<longrightarrow> slot_wakeup c = None \<longrightarrow>
       slot_linger c = None \<longrightarrow> slot_fd c = Some fd \<longrightarrow> used T' = used ?T + 1 \<longrightarrow> first_free T' = slot_next (rows ?T ! j) \<longrightarrow>
       sending T' = sending ?T \<longrightarrow> 0 \<le> fd \<longrightarrow> fd < nfiles (watch ?T) \<longrightarrow> watched (watch ?T) fd = None \<longrightarrow>
       (\<forall>k. busy ?T k \<longrightarrow> fd_at ?T k \<noteq> fd) \<longrightarrow> watch_fit (watch T') \<longrightarrow> nfiles (watch T') = nfiles (watch ?T) \<longrightarrow>
       watched (watch T') = (watched (watch ?T))(fd \<mapsto> (FDW_READ, Some j)) \<longrightarrow> clock T' = clock ?T \<longrightarrow> conns_ok None D T'"
    using table_enter [OF assms(1)] assms(3) by auto
  have ij: "j = i" using j(1) assms(4) by simp
  have i: "i < length (connects s)" using j(2) ij by simp
  let ?s2 = "(set_conn i (\<lambda>c. c\<lparr>conn_state := CNST_READING, next_free_connect := -1, the_hc := Some h,
       active_at := tv_sec (tv e), wakeup_timer := None, linger_timer := None, next_byte_index := 0, tnums := []\<rparr>)
     (s\<lparr>first_free_connect := next_free_connect (connects s ! i), num_connects := num_connects s + 1\<rparr>))\<lparr>wire := (wire s)(i := [])\<rparr>"
  have w0: "watch_fit (fds ?s2)" using watch_okD(1) [OF conns_okD(3) [OF assms(1)]] by (simp add: set_conn_def)
  obtain w where w: "add_fd fd i FDW_READ ?s2 = ?s2\<lparr>fds := w\<rparr>" "watch_fit w" "nfiles w = nfiles (fds s)"
    "watched w = (watched (fds s))(fd \<mapsto> (FDW_READ, Some i))"
    using add_fd_fit [OF w0, of FDW_READ fd i] assms(6-8) by (auto simp: set_conn_def FDW_READ_def)
  let ?s3 = "?s2\<lparr>fds := w\<rparr>"
  have s': "s' = ?s3\<lparr>stats_connections := stats_connections ?s3 + 1,
      stats_simultaneous := (if stats_simultaneous ?s3 < num_connects ?s3 then num_connects ?s3 else stats_simultaneous ?s3)\<rparr>"
    using assms(2,5,10) w(1) by (simp add: accept_conn_def Let_def next_live set_conn_def)
  show c: "connects s' = (connects s)[i := ?c]" by (simp add: s' set_conn_def)
  show "ended s' = None" using assms(2) by (simp add: s')
  show "nfiles (fds s') = nfiles (fds s)" "watched (fds s') = (watched (fds s))(fd \<mapsto> (FDW_READ, Some i))"
    using w by (simp_all add: s')
  have rows: "rows (table_of s') = (rows ?T)[j := slot_of ?c]" by (simp add: table_of_def c map_update ij)
  have nx: "slot_next (rows ?T ! j) = next_free_connect (connects s ! i)" using i ij by (simp add: rows_at slot_of_def)
  have u: "num_connects s' = num_connects s + 1" "first_free_connect s' = next_free_connect (connects s ! i)"
    "throttles s' = throttles s" "fds s' = w" "tmr_of s' = tmr_of s" by (simp_all add: s' set_conn_def)
  show "conns_ok None D (table_of s')"
    by (rule j(4) [rule_format, OF rows, of fd]) (use assms(5-9) w ij nx in \<open>simp_all add: slot_of_def u\<close>)
  show "busy (table_of s') j \<Longrightarrow> busy ?T j \<or> j = i" for j by (cases "j = i") (simp_all add: busy_conn c)
  show "fd_at (table_of s') j = (if j = i then fd else fd_at ?T j)" for j
    using i assms(5) ij by (cases "j = i") (simp_all add: fd_at_def rows slot_of_def)
qed

lemma get_conn_ok: "httpd_get_conn a hc = (GC_OK, h) \<Longrightarrow> descriptor a = Some (conn_fd h) \<and> bytes_sent h = 0 \<and> file_address h = None"
  by (auto simp: httpd_get_conn_def Let_def reset_conn_def split: accepted.splits if_splits)

lemma new_descriptors_cong:
  assumes "fds s' = fds s" "\<And>j. busy (table_of s') j = busy (table_of s) j" "\<And>j. busy (table_of s) j \<Longrightarrow> fd_at (table_of s') j = fd_at (table_of s) j"
  shows "new_descriptors as s' = new_descriptors as s"
  using assms unfolding new_descriptors_def by auto

lemma new_descriptors_rest:
  assumes "new_descriptors (a # as) s" "descriptor a = Some fd" "nfiles (fds s') = nfiles (fds s)"
    "watched (fds s') = (watched (fds s))(fd \<mapsto> (FDW_READ, Some i))"
    "\<And>j. busy (table_of s') j \<Longrightarrow> busy (table_of s) j \<or> j = i"
    "\<And>j. fd_at (table_of s') j = (if j = i then fd else fd_at (table_of s) j)"
  shows "new_descriptors as s'"
proof -
  have d: "distinct (fd # List.map_filter descriptor as)" using assms(1,2) by (simp add: new_descriptors_def List.map_filter_simps)
  have b: "0 \<le> x \<and> x < nfiles (fds s) \<and> watched (fds s) x = None \<and> (\<forall>j. busy (table_of s) j \<longrightarrow> fd_at (table_of s) j \<noteq> x)"
    if "x \<in> set (List.map_filter descriptor as)" for x
    using assms(1,2) that unfolding new_descriptors_def by (simp add: List.map_filter_simps)
  have "0 \<le> x \<and> x < nfiles (fds s') \<and> watched (fds s') x = None \<and> (\<forall>j. busy (table_of s') j \<longrightarrow> fd_at (table_of s') j \<noteq> x)"
    if x: "x \<in> set (List.map_filter descriptor as)" for x
  proof -
    have "x \<noteq> fd" using d x by auto
    moreover have "fd_at (table_of s') j \<noteq> x" if "busy (table_of s') j" for j
      using b [OF x] assms(5) [OF that] assms(6) [of j] \<open>x \<noteq> fd\<close> by (cases "j = i") auto
    ultimately show ?thesis using b [OF x] assms(3,4) by simp
  qed
  then show ?thesis using d unfolding new_descriptors_def by simp
qed

lemma slot_hc_fine:
  assumes "conns_ok None D (table_of s)" "ended s = None" "i < length (connects s)" "conn_state (connects s ! i) = CNST_FREE"
    "s' = slot_hc e i s"
  shows "ended s' = Some (Exited 1) \<or>
    (ended s' = None \<and> conns_ok None D (table_of s') \<and> new_descriptors as s' = new_descriptors as s \<and>
     num_connects s' = num_connects s \<and> first_free_connect s' = first_free_connect s \<and> length (connects s') = length (connects s) \<and>
     conn_state (connects s' ! i) = CNST_FREE \<and> (\<forall>j. j \<noteq> i \<longrightarrow> connects s' ! j = connects s ! j))"
proof (cases "the_hc (connects s ! i)")
  case None
  show ?thesis
  proof (cases "conn_memory e")
    case (Some h)
    let ?s = "s\<lparr>httpd_conn_count := httpd_conn_count s + 1\<rparr>"
    have T: "table_of ?s = table_of s" by (simp add: table_of_def)
    have s': "s' = set_hc i (h\<lparr>initialized := False\<rparr>) ?s" using None Some by (simp add: assms(5) slot_hc_def)
    note f = free_slot_set_hc [where s = ?s and i = i and h = "h\<lparr>initialized := False\<rparr>", unfolded T, OF assms(1)]
    have "new_descriptors as s' = new_descriptors as s"
      by (rule new_descriptors_cong) (use f assms(3,4) in \<open>simp_all add: s'\<close>, simp add: set_hc_def set_conn_def)
    then show ?thesis using f(1) assms(2-4) by (simp add: s') (simp add: set_hc_def set_conn_def)
  qed (use None in \<open>simp add: assms(5) slot_hc_def stop_def\<close>)
next
  case (Some h)
  then show ?thesis using assms by (simp add: slot_hc_def)
qed

lemma room_slot:
  assumes "conns_ok None D (table_of s)" "\<not> int (length (connects s)) \<le> num_connects s" "i = nat (first_free_connect s)"
  shows "first_free_connect s \<noteq> -1" "i < length (connects s)" "conn_state (connects s ! i) = CNST_FREE"
proof -
  obtain j where j: "first_free_connect s = int j" "j < length (connects s)" "slot_state (rows (table_of s) ! j) = CNST_FREE"
    using free_enter [OF conns_okD(1) [OF assms(1)]] assms(2) by auto
  then have "j = i" using assms(3) by simp
  then show "first_free_connect s \<noteq> -1" "i < length (connects s)" "conn_state (connects s ! i) = CNST_FREE"
    using j by (simp_all add: rows_at slot_of_def)
qed

lemma newconnect_fine:
  assumes "conns_ok None D (table_of s)" "ended s = None" "new_descriptors as s"
  shows "fine D (snd (newconnect_loop e as s))"
  using assms
proof (induction as arbitrary: s)
  case Nil
  let ?i = "nat (first_free_connect s)"
  show ?case
  proof (cases "int (length (connects s)) \<le> num_connects s")
    case True
    then show ?thesis using Nil by (simp add: newconnect_loop.simps [of e] fine_def)
  next
    case False
    note r = room_slot [OF Nil(1) False refl]
    from slot_hc_fine [OF Nil(1,2) r(2,3) refl, of e] free_slot_set_hc(1) [where s = "slot_hc e ?i s" and i = ?i] r show ?thesis
      using False by (auto simp: newconnect_loop.simps [of e] Let_def fine_def)
  qed
next
  case (Cons a as)
  let ?i = "nat (first_free_connect s)"
  show ?case
  proof (cases "int (length (connects s)) \<le> num_connects s")
    case True
    then show ?thesis using Cons.prems by (simp add: newconnect_loop.simps [of e] fine_def)
  next
    case False
    note r = room_slot [OF Cons.prems(1) False refl]
    let ?s1 = "slot_hc e ?i s"
    obtain g h where g: "httpd_get_conn a (conn_hc ?s1 ?i) = (g, h)" by fastforce
    let ?s2 = "accept_conn e ?i h ?s1"
    have step: "newconnect_loop e (a # as) s = (if ended ?s1 \<noteq> None then (True, ?s1)
        else (case g of GC_FAIL \<Rightarrow> (True, set_hc ?i h ?s1) | GC_NO_MORE \<Rightarrow> (False, set_hc ?i h ?s1)
          | GC_OK \<Rightarrow> if ended ?s2 \<noteq> None then (True, ?s2) else newconnect_loop e as ?s2))"
      using False r g by (simp add: newconnect_loop.simps [of e "a # as"] Let_def split: get_conn.split)
    from slot_hc_fine [OF Cons.prems(1,2) r(2,3) refl, of e "a # as"] show ?thesis
    proof (elim disjE conjE)
      assume s1: "ended ?s1 = None" "conns_ok None D (table_of ?s1)" "new_descriptors (a # as) ?s1 = new_descriptors (a # as) s"
        "num_connects ?s1 = num_connects s" "first_free_connect ?s1 = first_free_connect s" "length (connects ?s1) = length (connects s)"
        "conn_state (connects ?s1 ! ?i) = CNST_FREE"
      show ?thesis
      proof (cases g)
        case GC_OK
        then have d: "descriptor a = Some (conn_fd h)" using get_conn_ok g by simp
        have n: "new_descriptors (a # as) ?s1" using s1(3) Cons.prems(3) by simp
        then have fd: "0 \<le> conn_fd h" "conn_fd h < nfiles (fds ?s1)" "watched (fds ?s1) (conn_fd h) = None"
          "\<And>j. busy (table_of ?s1) j \<Longrightarrow> fd_at (table_of ?s1) j \<noteq> conn_fd h"
          using d by (auto simp: new_descriptors_def List.map_filter_simps)
        have "num_connects ?s1 < int (length (connects ?s1))" "?i = nat (first_free_connect ?s1)" using s1 False by simp_all
        note ac = accept_conn_fine [OF s1(2,1) this refl fd refl, where e = e]
        have "new_descriptors as ?s2" by (rule new_descriptors_rest [OF n d ac(3-6)])
        from Cons.IH [OF ac(1,2) this] show ?thesis using GC_OK s1(1) ac(2) by (simp add: step)
      qed (use s1 r free_slot_set_hc(1) [OF s1(2) _ s1(7)] in \<open>simp_all add: step fine_def\<close>)
    qed (simp add: step fine_def)
  qed
qed

end
