(* ===== verification/Th_Clock.thy ===== *)
theory Th_Clock
  imports Th_Handlers
begin

text \<open>
  The timer procedures of thttpd keep the law of the table. An operation on one connection leaves the others alone, which the
  loops over the table rest on.
\<close>

section \<open>Single connections\<close>

subsection \<open>The timer procedures\<close>

lemma fine_next:
  assumes "fine D s" "conns_ok None D (table_of s) \<Longrightarrow> ended s = None \<Longrightarrow> fine D (f s)"
  shows "fine D (next_do f s)"
  using assms by (cases "ended s") (simp_all add: next_do_def fine_def)

lemma wakeup_fine:
  assumes "conns_ok None {} (table_of s)" "ended s = None" "in_lists (tmr_of s) a" "timer_data (tmr_of s) a = (proc_id Wakeup, i, per)"
  shows "fine {a} (wakeup_connection i s)"
proof -
  let ?T = "table_of s" and ?c = "connects s ! i" and ?fd = "conn_fd (conn_hc s i)"
  note k = conns_okD [OF assms(1)]
  have o: "owns ?T (proc_id Wakeup) i = Some a"
    by (rule timers_field [OF k(4)]) (use assms(3,4) in \<open>simp_all add: conn_proc_def\<close>)
  then have b: "busy ?T i" and w: "slot_wakeup (rows ?T ! i) = Some a" by (auto simp: owns_def own_timer_def split: if_splits)
  note h = busy_hc [OF assms(1) b]
  have i: "i < length (connects s)" using b by (simp add: busy_conn)
  have old: "rows ?T ! i = slot_of ?c" using i by (rule rows_at)
  have p: "conn_state ?c = CNST_PAUSING" "linger_timer ?c = None"
    using k(5) [OF b] w old by (auto simp: slot_fit_def slot_of_def)
  let ?s0 = "set_conn i (\<lambda>c. c\<lparr>wakeup_timer := None\<rparr>) s"
  let ?s1 = "set_conn i (\<lambda>c. c\<lparr>conn_state := CNST_SENDING\<rparr>) ?s0"
  have hc: "conn_hc ?s0 i = conn_hc s i" by (intro set_conn_hc) simp
  have fit: "watch_fit (fds ?s1)" using watch_okD(1) [OF k(3)] by (simp add: set_conn_def)
  have wd: "watched (fds s) ?fd = None" using watch_okD(5) [OF k(3) b] h(2) old p(1) by (simp add: wanted_def slot_of_def)
  obtain v where v: "add_fd ?fd i FDW_WRITE ?s1 = ?s1\<lparr>fds := v\<rparr>" "watch_fit v" "nfiles v = nfiles (fds s)"
    "watched v = (watched (fds s))(?fd \<mapsto> (FDW_WRITE, Some i))"
    using add_fd_fit [OF fit, of FDW_WRITE ?fd i] h(2,3) watch_okD(4) [OF k(3) b] wd by (auto simp: set_conn_def FDW_WRITE_def)
  have r: "wakeup_connection i s = ?s1\<lparr>fds := v\<rparr>"
    using i p(1) hc v(1) by (simp add: wakeup_connection_def Let_def)
  let ?s' = "?s1\<lparr>fds := v\<rparr>" and ?c' = "slot_of (?c\<lparr>wakeup_timer := None, conn_state := CNST_SENDING\<rparr>)"
  have rows: "rows (table_of ?s') = (rows ?T)[i := ?c']"
    using i by (simp add: table_of_def set_conn_def map_update)
  have os: "owns (table_of ?s') = own_upd (owns ?T) (proc_id Wakeup) i None"
    using owns_upd [OF rows] owns_slot [OF b] i old p
    by (intro ext) (auto simp: own_upd_def own_timer_def conn_proc_def slot_of_def)
  have "timers_ok {a} (table_of ?s')" by (rule timers_forget [OF k(4) o os]) (simp add: set_conn_def)
  then have "conns_ok (Some i) {a} (table_of ?s')"
    by (intro table_move [OF table_exempt [OF assms(1)] b rows])
      (use v h(2) old in \<open>auto simp: slot_of_def wanted_def set_conn_def\<close>)
  moreover have "slot_fit (rows (table_of ?s') ! i)" using p(2) i by (simp add: rows slot_fit_def slot_of_def)
  ultimately have "conns_ok None {a} (table_of ?s')" by (rule table_fit)
  then show ?thesis using assms(2) by (simp add: r fine_def)
qed

lemma linger_clear_fine:
  assumes "conns_ok None {} (table_of s)" "ended s = None" "in_lists (tmr_of s) a"
    "timer_data (tmr_of s) a = (proc_id Linger_clear, i, per)"
  shows "fine {a} (linger_clear_connection e nowP i s)"
proof -
  let ?T = "table_of s" and ?c = "connects s ! i"
  note k = conns_okD [OF assms(1)]
  have o: "owns ?T (proc_id Linger_clear) i = Some a"
    by (rule timers_field [OF k(4)]) (use assms(3,4) in \<open>simp_all add: conn_proc_def\<close>)
  then have b: "busy ?T i" and w: "slot_linger (rows ?T ! i) = Some a" by (auto simp: owns_def own_timer_def split: if_splits)
  have i: "i < length (connects s)" using b by (simp add: busy_conn)
  have old: "rows ?T ! i = slot_of ?c" using i by (rule rows_at)
  have p: "conn_state ?c = CNST_LINGERING" "wakeup_timer ?c = None"
    using k(5) [OF b] w old by (auto simp: slot_fit_def slot_of_def)
  let ?s' = "set_conn i (\<lambda>c. c\<lparr>linger_timer := None\<rparr>) s" and ?c' = "slot_of (?c\<lparr>linger_timer := None\<rparr>)"
  have rows: "rows (table_of ?s') = (rows ?T)[i := ?c']" by (simp add: table_of_def set_conn_def map_update)
  have os: "owns (table_of ?s') = own_upd (owns ?T) (proc_id Linger_clear) i None"
    using owns_upd [OF rows] owns_slot [OF b] i old p
    by (intro ext) (auto simp: own_upd_def own_timer_def conn_proc_def slot_of_def)
  have "timers_ok {a} (table_of ?s')" by (rule timers_forget [OF k(4) o os]) (simp add: set_conn_def)
  then have c: "conns_ok (Some i) {a} (table_of ?s')"
    by (intro table_stay [OF table_exempt [OF assms(1)] b rows])
      (use old in \<open>auto simp: slot_of_def set_conn_def\<close>)
  have "busy (table_of ?s') i" using p(1) i by (simp add: busy_conn)
  then have "fine {a} (really_clear_connection e nowP i ?s')"
    using p(2) i assms(2) by (intro really_clear_fine [OF c]) simp_all
  then show ?thesis by (simp add: linger_clear_connection_def)
qed

lemma idle_one_fine:
  assumes "conns_ok None D (table_of s)" "ended s = None" "i < length (connects s)" "fresh_memory e"
  shows "fine D (idle_one e nowP i s)"
proof (cases "conn_state (connects s ! i) = CNST_FREE")
  case True
  then show ?thesis using in_hand_fine [OF assms(1,2)] by (simp add: idle_one_def)
next
  case False
  then have k: "in_hand D i s" using assms(3) by (intro in_handI [OF assms(1) _ assms(2)]) (simp add: busy_conn)
  let ?p = "httpd_send_err (page_site (sys e)) (st_mtime (the_sb (connects s ! i))) (conn_hc s i) 408 err408title [] err408form []"
  have "fine D (finish_connection e nowP i (set_hc i ?p s))" by (intro in_hand_finish in_hand_set_hc(1) [OF k] assms(4)) simp
  then show ?thesis
    using in_hand_fine [OF assms(1,2)] in_hand_clear [OF k assms(4)] by (simp add: idle_one_def Let_def split: cnst.split)
qed

section \<open>One connection at a time\<close>

definition only :: "nat \<Rightarrow> srv \<Rightarrow> srv \<Rightarrow> bool" where
  \<comment> \<open>no other connection has changed\<close>
  "only i s s' \<longleftrightarrow> length (connects s') = length (connects s) \<and> (\<forall>j. j \<noteq> i \<longrightarrow> connects s' ! j = connects s ! j)"

named_theorems only_intro

lemma only_refl [only_intro]: "only i s s"
  by (simp add: only_def)

lemma only_connects [only_intro]: "only i s s' \<Longrightarrow> connects s'' = connects s' \<Longrightarrow> only i s s''"
  by (simp add: only_def)

lemma only_set_conn [only_intro]: "only i s s' \<Longrightarrow> only i s (set_conn i f s')" "only i s s' \<Longrightarrow> only i s (set_hc i h s')"
  by (auto simp: only_def set_conn_def set_hc_def)

lemma only_stop [only_intro]: "only i s s' \<Longrightarrow> only i s (stop x s')" "only i s s' \<Longrightarrow> only i s (set_tmr t s')"
  "only i s s' \<Longrightarrow> only i s (add_fd fd j rw s')" "only i s s' \<Longrightarrow> only i s (del_fd fd s')"
  by (simp_all add: only_def)

lemma only_next [only_intro]: "only i s s' \<Longrightarrow> (only i s s' \<Longrightarrow> only i s (f s')) \<Longrightarrow> only i s (next_do f s')"
  by (simp add: next_do_def)

lemma only_timer [only_intro]: "only i s s' \<Longrightarrow> only i s (start_timer e nowP p i ms st s')"
  unfolding start_timer_def by (auto split: option.split intro: only_intro)

lemma only_close [only_intro]: "only i s s' \<Longrightarrow> only i s (httpd_close_conn e i nowP s')"
  unfolding httpd_close_conn_def Let_def by (auto split: option.split intro!: only_stop only_set_conn elim: only_connects)

lemma only_slot [only_intro]: "only i s s' \<Longrightarrow> only i s (free_slot i (drop_linger i (s'\<lparr>throttles := tab\<rparr>)))"
  by (auto simp: free_slot_def drop_linger_def only_def set_conn_def split: option.split)

lemma only_really_clear [only_intro]: "only i s s' \<Longrightarrow> only i s (really_clear_connection e nowP i s')"
proof -
  assume o: "only i s s'"
  then have "only i s (s'\<lparr>stats_bytes := b\<rparr>)" for b by (simp add: only_def)
  then show ?thesis unfolding really_clear_connection_def Let_def by (simp add: only_intro)
qed

lemma only_stops [only_intro]: "only i s s' \<Longrightarrow> only i s (stop_wakeup i s')" "only i s s' \<Longrightarrow> only i s (stop_linger i s')"
  by (auto simp: stop_wakeup_def stop_linger_def only_intro split: option.split)

lemma only_start_linger [only_intro]: "only i s s' \<Longrightarrow> only i s (start_linger e nowP i s')"
  by (simp add: start_linger_def Let_def only_intro)

lemma only_clear [only_intro]: "only i s s' \<Longrightarrow> only i s (clear_connection e nowP i s')"
  by (simp add: clear_connection_def only_intro)

lemma only_wire [only_intro]: "only i s s' \<Longrightarrow> only i s (s'\<lparr>wire := w\<rparr>)" "only i s s' \<Longrightarrow> only i s (s'\<lparr>throttles := tab\<rparr>)"
  "only i s s' \<Longrightarrow> only i s (s'\<lparr>throttles := tab, wire := w\<rparr>)" "only i s s' \<Longrightarrow> only i s (s'\<lparr>the_world := v\<rparr>)"
  by (simp_all add: only_def)

lemma only_finish [only_intro]: "only i s s' \<Longrightarrow> only i s (finish_connection e nowP i s')"
  by (auto simp: finish_connection_def intro: only_intro split: prod.split)

lemma only_page [only_intro]: "only i s s' \<Longrightarrow> only i s (send_and_finish e i st title form a s')" "only i s s' \<Longrightarrow> only i s (bad_request_end e i s')"
  by (simp_all add: send_and_finish_def bad_request_end_def only_finish only_set_conn)

lemma only_begin_send [only_intro]: "only i s s' \<Longrightarrow> only i s (begin_send e i s')"
  unfolding begin_send_def Let_def
  by (auto intro!: only_finish only_next only_set_conn(1) only_stop(3,4) only_wire)

lemma only_start_request [only_intro]: "only i s s' \<Longrightarrow> only i s (start_request e i s')"
  unfolding start_request_def Let_def
  by (auto intro!: only_finish only_begin_send only_set_conn only_stop(1) only_wire split: started.split)

lemma only_got_request [only_intro]: "only i s s' \<Longrightarrow> only i s (got_request e i s')"
proof -
  have "only i s s' \<Longrightarrow> only i s (admit e i s')" for s'
    unfolding admit_def Let_def by (auto intro!: only_start_request only_page only_set_conn(1) only_wire split: prod.split)
  then show "only i s s' \<Longrightarrow> only i s (got_request e i s')"
    unfolding got_request_def by (auto intro!: only_finish only_set_conn only_stop(1) split: outcome.split)
qed

lemma only_handle_read [only_intro]: "only i s s' \<Longrightarrow> only i s (handle_read e i s')"
proof -
  have "only i s s' \<Longrightarrow> only i s (got_bytes e i bs s')" for s' bs
    unfolding got_bytes_def Let_def by (auto intro!: only_got_request only_page only_set_conn split: prod.split got.split)
  then have "only i s s' \<Longrightarrow> only i s (read_more e i s')" for s'
    unfolding read_more_def Let_def by (auto intro!: only_page split: read_answer.split)
  then show "only i s s' \<Longrightarrow> only i s (handle_read e i s')"
    unfolding handle_read_def Let_def by (auto intro!: only_page only_set_conn)
qed

lemma only_pause [only_intro]: "only i s s' \<Longrightarrow> only i s (pause e i ms s')" "only i s s' \<Longrightarrow> only i s (send_blocked e i s')"
  by (simp_all add: pause_def send_blocked_def Let_def only_intro)

lemma only_throttle [only_intro]: "only i s s' \<Longrightarrow> only i s (throttle_send e i s')"
  by (simp add: throttle_send_def Let_def only_intro)

lemma only_written [only_intro]: "only i s s' \<Longrightarrow> only i s (written e i n s')"
proof -
  have "only i s s' \<Longrightarrow> only i s (advanced e i n s')"
    unfolding advanced_def Let_def by (intro only_set_conn only_wire)
  then show "only i s s' \<Longrightarrow> only i s (written e i n s')" by (simp add: written_def Let_def only_intro)
qed

lemma only_handle_send [only_intro]: "only i s s' \<Longrightarrow> only i s (handle_send e i s')"
  unfolding handle_send_def Let_def by (auto intro!: only_written only_pause(2) only_clear split: write_answer.split)

lemma only_service: "only i s (service e i s)"
  unfolding service_def
  by (auto simp: handle_linger_def intro!: only_handle_read only_handle_send only_clear only_really_clear only_stop(1) only_refl
      split: option.split cnst.split read_answer.split)

lemma only_idle_one: "only i s (idle_one e nowP i s)"
  unfolding idle_one_def Let_def by (auto intro!: only_finish only_clear only_set_conn only_refl split: cnst.split)

lemma only_share_one: "only i s (share_one i s)"
  unfolding share_one_def Let_def by (auto intro!: only_set_conn(1) only_stop(1) only_refl split: option.split)

lemma only_wakeup: "only i s (wakeup_connection i s)" "only i s (linger_clear_connection e nowP i s)"
  unfolding wakeup_connection_def linger_clear_connection_def Let_def
  by (auto intro!: only_really_clear only_set_conn(1) only_stop(3) only_refl)

lemma only_length: "only i s s' \<Longrightarrow> length (connects s') = length (connects s)"
  by (simp add: only_def)

lemma owns_clock [simp]: "owns (T\<lparr>clock := t\<rparr>) = owns T"
  by (intro ext) (simp add: owns_def busy_def)

lemma table_clock:
  \<comment> \<open>only the timers have changed\<close>
  assumes "conns_ok x D T" "T' = T\<lparr>clock := t\<rparr>" "timers_ok D' T'"
  shows "conns_ok x D' T'"
proof (rule conns_okI)
  note k = conns_okD [OF assms(1)]
  have b: "busy T' i = busy T i" "fd_at T' i = fd_at T i" for i by (simp_all add: assms(2) busy_def fd_at_def)
  show "free_ok T'" using k(1) by (simp add: assms(2) free_ok_def)
  show "count_ok T'" using k(2) b(1) by (simp add: assms(2) count_ok_def)
  show "watch_ok T'" using k(3) unfolding watch_ok_def b by (simp add: assms(2))
  show "slot_fit (rows T' ! i)" if "busy T' i" "x \<noteq> Some i" for i using that k(5) [of i] b by (simp add: assms(2))
qed (rule assms(3))

section \<open>The loops over the table\<close>

lemma fold_fine:
  \<comment> \<open>a loop over the table\<close>
  assumes "fine D s" "\<And>s i. only i s (f i s)"
    "\<And>s i. conns_ok None D (table_of s) \<Longrightarrow> ended s = None \<Longrightarrow> i < length (connects s) \<Longrightarrow> fine D (f i s)"
    "\<forall>i\<in>set is. i < length (connects s)"
  shows "fine D (fold (\<lambda>i. next_do (f i)) is s)"
  using assms(1,4)
proof (induction "is" arbitrary: s)
  case (Cons i js)
  have "fine D (next_do (f i) s)" using Cons.prems(2) assms(3) by (intro fine_next [OF Cons.prems(1)]) simp
  moreover have "length (connects (next_do (f i) s)) = length (connects s)" using only_length [OF assms(2)] by (simp add: next_do_def)
  ultimately show ?case using Cons.IH [of "next_do (f i) s"] Cons.prems(2) by simp
qed simp

lemma idle_fine:
  assumes "conns_ok None D (table_of s)" "ended s = None" "fresh_memory e"
  shows "fine D (idle e nowP s)"
  unfolding idle_def by (rule fold_fine [OF in_hand_fine [OF assms(1,2)] only_idle_one idle_one_fine]) (simp_all add: assms(3))

lemma share_some:
  assumes "\<And>t. t \<in> set ns \<Longrightarrow> num_sending (tab ! t) \<noteq> 0"
  shows "share tab ns m \<noteq> None"
  using assms by (induction ns arbitrary: m) auto

lemma share_one_fine:
  assumes "conns_ok None D (table_of s)" "ended s = None" "i < length (connects s)"
  shows "fine D (share_one i s)"
proof (cases "conn_state (connects s ! i) = CNST_SENDING \<or> conn_state (connects s ! i) = CNST_PAUSING")
  case True
  let ?T = "table_of s"
  have b: "busy ?T i" using True assms(3) by (auto simp: busy_conn)
  have old: "rows ?T ! i = slot_of (connects s ! i)" using assms(3) by (rule rows_at)
  have "num_sending (throttles s ! t) \<noteq> 0" if t: "t \<in> set (tnums (connects s ! i))" for t
  proof -
    have c: "count_ok ?T" using conns_okD(2) [OF assms(1)] .
    then have "set (slot_nums (rows ?T ! i)) \<subseteq> {..<length (sending ?T)}" using b unfolding count_ok_def by blast
    then have "t < length (throttles s)" using t old by (auto simp: slot_of_def)
    moreover from this have "sending ?T ! t = load (rows ?T) t" using c unfolding count_ok_def by simp
    moreover have "0 < load (rows ?T) t"
      using load_at [of i "rows ?T" t] b t old by (simp add: busy_def slot_of_def)
    ultimately show ?thesis by simp
  qed
  then obtain m where m: "share (throttles s) (tnums (connects s ! i)) THROTTLE_NOLIMIT = Some m"
    using share_some [of "tnums (connects s ! i)" "throttles s"] by auto
  have "table_of (set_conn i (\<lambda>c. c\<lparr>max_limit := m\<rparr>) s) = table_of s" by (intro table_same_conn) (simp add: slot_of_def)
  moreover have "share_one i s = set_conn i (\<lambda>c. c\<lparr>max_limit := m\<rparr>) s" using True m by (auto simp: share_one_def)
  ultimately show ?thesis using assms(1,2) by (simp add: fine_def)
next
  case False
  then show ?thesis using in_hand_fine [OF assms(1,2)] by (auto simp: share_one_def)
qed

lemma average_table: "table_of (s\<lparr>throttles := map new_average (throttles s)\<rparr>) = table_of s"
  by (simp add: table_of_def new_average_def comp_def)

lemma update_throttles_fine:
  assumes "conns_ok None D (table_of s)" "ended s = None"
  shows "fine D (update_throttles s)"
proof -
  have "fine D (s\<lparr>throttles := map new_average (throttles s)\<rparr>)" using assms by (simp add: fine_def average_table)
  then show ?thesis
    unfolding update_throttles_def by (rule fold_fine [OF _ only_share_one share_one_fine]) simp_all
qed

lemma occasional_fine:
  assumes "conns_ok None D (table_of s)" "ended s = None"
  shows "fine D (occasional nowP s)"
proof (cases "mmc_cleanup (tv_sec nowP) (w_mmc (the_world s))")
  case (Some m)
  have T: "table_of (s\<lparr>the_world := (the_world s)\<lparr>w_mmc := m, w_tmr := t\<rparr>, watchdog_flag := True\<rparr>) = (table_of s)\<lparr>clock := t\<rparr>" for t
    by (simp add: table_of_def)
  have o: "owns (table_of (s\<lparr>the_world := (the_world s)\<lparr>w_mmc := m, w_tmr := t\<rparr>, watchdog_flag := True\<rparr>)) = owns (table_of s)" for t
    unfolding T by simp
  obtain t where t: "tmr_cleanup (tmr_of s) = Some t"
    "timers_ok D (table_of (s\<lparr>the_world := (the_world s)\<lparr>w_mmc := m, w_tmr := t\<rparr>, watchdog_flag := True\<rparr>))"
  proof -
    obtain t where "tmr_cleanup (tmr_of s) = Some t" using timers_cleanup [OF conns_okD(4) [OF assms(1)] refl] by auto
    then show thesis using that timers_cleanup [OF conns_okD(4) [OF assms(1)] o [of t]] by auto
  qed
  let ?s = "s\<lparr>the_world := (the_world s)\<lparr>w_mmc := m, w_tmr := t\<rparr>, watchdog_flag := True\<rparr>"
  have "conns_ok None D (table_of ?s)"
    by (rule table_clock [OF assms(1) T]) (rule t(2))
  then show ?thesis using Some t(1) assms(2) by (simp add: occasional_def fine_def)
qed (simp add: occasional_def)

lemma cgi_kill_fine:
  assumes "conns_ok None D (table_of s)" "ended s = None" "fresh_memory e"
  shows "fine D (cgi_kill e nowP pid s)"
proof (cases "kill_ok e pid")
  case True
  have fresh: "\<And>L M b. repr L M (clock (table_of s)) \<Longrightarrow> timer_memory e (tmr_of s) = Some b \<Longrightarrow> b \<notin> M"
    using assms(3) by (auto simp: fresh_memory_def)
  obtain r t where c: "tmr_create (timer_memory e (tmr_of s)) nowP (proc_id Cgi_kill2) pid 5000 False (tmr_of s) = Some (r, t)"
    "\<And>a T'. r = Some a \<Longrightarrow> clock T' = t \<Longrightarrow> owns T' = owns (table_of s) \<Longrightarrow> timers_ok D T'"
    using timers_create [OF conns_okD(4) [OF assms(1)], of "timer_memory e (tmr_of s)" nowP "proc_id Cgi_kill2" pid 5000 False] fresh
    by (auto simp: conn_proc_def)
  show ?thesis
  proof (cases r)
    case None
    then show ?thesis using c(1) True by (simp add: cgi_kill_def)
  next
    case (Some a)
    have T: "table_of (set_tmr t s) = (table_of s)\<lparr>clock := t\<rparr>" by (simp add: table_of_def set_tmr_def)
    have "owns (table_of (set_tmr t s)) = owns (table_of s)" unfolding T by simp
    then have "conns_ok None D (table_of (set_tmr t s))"
      by (intro table_clock [OF assms(1) T] c(2) [OF Some]) (simp_all add: T)
    then show ?thesis using c(1) True Some assms(2) by (simp add: cgi_kill_def fine_def)
  qed
qed (simp add: cgi_kill_def in_hand_fine assms)

lemma show_stats_fine: "conns_ok None D (table_of s) \<Longrightarrow> ended s = None \<Longrightarrow> fine D (show_stats s)"
  by (simp add: show_stats_def fine_def table_of_def)

end
