(* ===== verification/Th_Sent.thy ===== *)
theory Th_Sent
  imports Th_Clock
begin

text \<open>
  No handler of thttpd counts bytes of a file before the response headers are out, so that a connection without a rate left
  never divides by its limit.
\<close>

section \<open>Bytes of a file are counted behind the headers\<close>

definition sent_kept :: "nat \<Rightarrow> srv \<Rightarrow> bool" where
  "sent_kept i s \<longleftrightarrow> (ended s = None \<longrightarrow> sent_fit (connects s ! i))"

lemma sent_gone: "gone i s \<Longrightarrow> sent_kept i s"
  by (auto simp: sent_kept_def gone_def sent_fit_def at_work_def split: option.split)

lemma sent_only:
  assumes "sent_ok s" "only i s s'" "sent_kept i s'" "ended s' = None"
  shows "sent_ok s'"
  unfolding sent_ok_def
proof (intro allI impI)
  fix j assume "j < length (connects s')"
  then have "j < length (connects s)" using only_length [OF assms(2)] by simp
  then show "sent_fit (connects s' ! j)"
    using assms by (cases "j = i") (simp_all add: sent_kept_def sent_ok_def only_def)
qed

lemma sent_same:
  assumes "sent_fit (connects s ! i)" "conn_state (connects s' ! i) = conn_state (connects s ! i) \<or>
      (at_work (connects s ! i) \<and> at_work (connects s' ! i))" "the_hc (connects s' ! i) = the_hc (connects s ! i)"
  shows "sent_kept i s'"
  using assms by (auto simp: sent_kept_def sent_fit_def at_work_def split: option.splits)

lemma sent_fit_fields [simp]: "sent_fit (c\<lparr>wouldblock_delay := x\<rparr>) = sent_fit c" "at_work (c\<lparr>wouldblock_delay := x\<rparr>) = at_work c"
proof -
  show a: "at_work (c\<lparr>wouldblock_delay := x\<rparr>) = at_work c" by (simp add: at_work_def)
  show "sent_fit (c\<lparr>wouldblock_delay := x\<rparr>) = sent_fit c" unfolding sent_fit_def a by (simp split: option.split)
qed

lemma conn_hc_some: "the_hc (connects s ! i) = Some h \<Longrightarrow> conn_hc s i = h"
  by (simp add: conn_hc_def)

lemma sent_stop [simp]: "sent_kept i (stop x s)"
  by (simp add: sent_kept_def)

lemma begin_send_sent:
  assumes "i < length (connects s)" "the_hc (connects s ! i) = Some h" "bytes_sent h = 0 \<or> file_address h = None"
  shows "sent_kept i (begin_send e i s)"
proof -
  have hc: "conn_hc s i = h" using assms(2) by (rule conn_hc_some)
  let ?f = "\<lambda>c. if got_range h then c\<lparr>next_byte_index := first_byte_index h, end_byte_index := last_byte_index h + 1\<rparr>
                else c\<lparr>end_byte_index := (if bytes_to_send h < 0 then 0 else bytes_to_send h)\<rparr>"
  let ?s = "set_conn i ?f s"
  let ?s1 = "set_conn i (\<lambda>c. c\<lparr>conn_state := CNST_SENDING, started_at := tv_sec (tv e), wouldblock_delay := 0\<rparr>) ?s"
  have "sent_fit (connects ?s1 ! i)" if "file_address h \<noteq> None"
    using assms that by (simp add: sent_fit_def at_work_def split: option.split)
  then have a: "sent_kept i (next_do (add_fd (conn_fd h) i FDW_WRITE) (del_fd (conn_fd h) ?s1))" if "file_address h \<noteq> None"
    using that by (simp add: sent_kept_def next_do_def)
  show ?thesis
    using a assms(1) sent_gone [OF finish_gone] unfolding begin_send_def Let_def hc by (simp add: set_conn_def [of i ?f] cong: if_cong)
qed

lemma start_request_sent:
  assumes "i < length (connects s)" "the_hc (connects s ! i) = Some h" "bytes_sent h = 0" "file_address h = None"
  shows "sent_kept i (start_request e i s)"
proof -
  let ?v = "(sys e)\<lparr>timer_room := timer_memory e (tmr_of s), time_of_day := tv e\<rparr>"
  have b: "began ?v (conn_key h) (tmr_of s) (httpd_start_request ?v h (the_sb (connects s ! i)) (the_world s))"
    by (rule began_request)
  have hc: "conn_hc s i = h" using assms(2) by (rule conn_hc_some)
  show ?thesis
  proof (cases "httpd_start_request ?v h (the_sb (connects s ! i)) (the_world s)")
    case (Started r h1 sb w)
    then have k: "bytes_sent h1 = 0 \<or> file_address h1 = None" using b assms(3,4) by (simp add: keyed_def)
    let ?s = "set_hc i h1 (set_conn i (\<lambda>c. c\<lparr>the_sb := sb\<rparr>) (s\<lparr>the_world := w\<rparr>))"
    have i: "i < length (connects ?s)" "the_hc (connects ?s ! i) = Some h1" using assms(1) by (simp_all add: set_hc_def)
    then show ?thesis
      using Started begin_send_sent [OF i k] sent_gone [OF finish_gone [OF i(1)]] by (simp add: start_request_def hc Let_def)
  qed (simp_all add: start_request_def hc)
qed

lemma got_request_sent:
  assumes "i < length (connects s)" "the_hc (connects s ! i) = Some h" "bytes_sent h = 0" "file_address h = None"
  shows "sent_kept i (got_request e i s)"
proof -
  have hc: "conn_hc s i = h" using assms(2) by (rule conn_hc_some)
  have p: "fd_of (\<lambda>h. h) (conn_key h) (httpd_parse_request (http (sys e)) h)" by (rule fd_parse) simp
  have a: "sent_kept i (admit e i s')" if "i < length (connects s')" "the_hc (connects s' ! i) = Some h'" "bytes_sent h' = 0"
      "file_address h' = None" for s' h'
  proof -
    obtain ok tab ns mx mn where c: "check_throttles (str (expnfilename h')) (throttles s') = (ok, tab, ns, mx, mn)"
      by (cases "check_throttles (str (expnfilename h')) (throttles s')") auto
    let ?s = "set_conn i (\<lambda>c. c\<lparr>tnums := ns, max_limit := mx, min_limit := mn\<rparr>) (s'\<lparr>throttles := tab\<rparr>)"
    have s: "i < length (connects ?s)" "the_hc (connects ?s ! i) = Some h'" using that by simp_all
    then show ?thesis
      using c that start_request_sent [OF s] sent_gone [OF finish_gone]
      by (simp add: admit_def conn_hc_some Let_def send_and_finish_def set_hc_def)
  qed
  show ?thesis
  proof (cases "httpd_parse_request (http (sys e)) h")
    case (Done h1)
    then have "sent_kept i (admit e i (set_hc i h1 s))" using p assms by (intro a [where h' = h1]) (simp_all add: set_hc_def)
    then show ?thesis using Done by (simp add: got_request_def hc)
  next
    case (Refused st a h1)
    then show ?thesis using assms(1) sent_gone [OF finish_gone] by (simp add: got_request_def hc set_hc_def)
  qed (simp add: got_request_def hc)
qed

lemma bad_request_sent: "i < length (connects s) \<Longrightarrow> sent_kept i (bad_request_end e i s)"
  unfolding bad_request_end_def send_and_finish_def by (intro sent_gone finish_gone) (simp add: set_hc_def)

lemma handle_read_sent:
  assumes "i < length (connects s)" "the_hc (connects s ! i) = Some h" "bytes_sent h = 0" "file_address h = None"
    "conn_state (connects s ! i) = CNST_READING"
  shows "sent_kept i (handle_read e i s)"
proof -
  have hc: "conn_hc s i = h" using assms(2) by (rule conn_hc_some)
  have f: "sent_kept i s'" if "conn_state (connects s' ! i) = CNST_READING" "the_hc (connects s' ! i) = Some h'" "bytes_sent h' = 0"
      "file_address h' = None" for s' h'
    using that by (simp add: sent_kept_def sent_fit_def at_work_def)
  have b: "sent_kept i (got_bytes e i bs s')" if a: "i < length (connects s')" "the_hc (connects s' ! i) = Some h'" "bytes_sent h' = 0"
      "file_address h' = None" "conn_state (connects s' ! i) = CNST_READING" for s' h' bs
  proof -
    let ?h = "h'\<lparr>read_buf := take (read_idx h') (read_buf h') @ bs, read_idx := read_idx h' + length bs\<rparr>"
    obtain r k st where g: "httpd_got_request (read_buf ?h) (read_idx ?h) (checked_idx ?h) (checked_state ?h) = (r, k, st)"
      by (cases "httpd_got_request (read_buf ?h) (read_idx ?h) (checked_idx ?h) (checked_state ?h)") auto
    let ?s = "set_hc i (?h\<lparr>checked_idx := k, checked_state := st\<rparr>) (set_conn i (\<lambda>c. c\<lparr>active_at := tv_sec (tv e)\<rparr>) s')"
    have s: "i < length (connects ?s)" "the_hc (connects ?s ! i) = Some (?h\<lparr>checked_idx := k, checked_state := st\<rparr>)"
      "conn_state (connects ?s ! i) = CNST_READING"
      using a by (simp_all add: set_hc_def)
    have "sent_kept i ?s" "sent_kept i (got_request e i ?s)"
      using s a(3,4) by (auto intro: f got_request_sent [OF s(1,2)])
    then show ?thesis
      using g bad_request_sent [OF s(1), of e] unfolding got_bytes_def Let_def conn_hc_some [OF a(2)] by (simp split: got.split)
  qed
  have m: "sent_kept i (read_more e i s')" if a: "i < length (connects s')" "the_hc (connects s' ! i) = Some h'" "bytes_sent h' = 0"
      "file_address h' = None" "conn_state (connects s' ! i) = CNST_READING" for s' h'
    using f [OF a(5,2-4)] b [OF a] bad_request_sent [OF a(1)] by (simp add: read_more_def Let_def split: read_answer.split)
  show ?thesis
    using m [OF assms] bad_request_sent [OF assms(1)] m [of "set_hc i h' s" h' for h'] assms
    by (simp add: handle_read_def Let_def hc set_hc_def)
qed

lemma pause_sent:
  assumes "sent_fit (connects s ! i)" "at_work (connects s ! i)" "i < length (connects s)"
  shows "sent_kept i (pause e i ms s)"
proof -
  have "connects (pause e i ms s) ! i = (connects s ! i)\<lparr>conn_state := CNST_PAUSING\<rparr> \<or> 
      (\<exists>a. connects (pause e i ms s) ! i = (connects s ! i)\<lparr>conn_state := CNST_PAUSING, wakeup_timer := Some a\<rparr>)"
    using assms(3) by (auto simp: pause_def next_do_def start_timer_def split: option.split)
  then show ?thesis using assms(2) by (intro sent_same [OF assms(1)]) (auto simp: at_work_def)
qed

lemma throttle_sent:
  assumes "sent_fit (connects s ! i)" "at_work (connects s ! i)" "i < length (connects s)"
  shows "sent_kept i (throttle_send e i s)" "sent_kept i (send_blocked e i s)"
proof -
  show "sent_kept i (throttle_send e i s)"
    using assms(1) pause_sent [OF assms] by (simp add: throttle_send_def Let_def sent_kept_def)
  show "sent_kept i (send_blocked e i s)"
    unfolding send_blocked_def Let_def using assms
    by (intro pause_sent) simp_all
qed

lemma handle_send_sent:
  assumes "i < length (connects s)" "sent_fit (connects s ! i)" "conn_state (connects s ! i) = CNST_SENDING"
    "the_hc (connects s ! i) = Some h"
  shows "sent_kept i (handle_send e i s)"
proof -
  have w: "at_work (connects s ! i)" using assms(3) by (simp add: at_work_def)
  have hc: "conn_hc s i = h" using assms(4) by (rule conn_hc_some)
  have h: "responselen h = 0 \<or> bytes_sent h = 0" using assms(2,4) w by (simp add: sent_fit_def)
  have "sent_kept i (written e i n s)" for n
  proof -
    let ?s = "advanced e i n s"
    have i: "i < length (connects ?s)" "conn_state (connects ?s ! i) = CNST_SENDING"
      using assms(1,3) by (simp_all add: advanced_def Let_def set_hc_def)
    have "responselen (fst (advance n h)) = 0 \<or> bytes_sent h + int (snd (advance n h)) = 0"
      using h by (auto simp: advance_def)
    then have f: "sent_fit (connects ?s ! i)"
      using assms(1,3) i(2) by (simp add: advanced_def Let_def set_hc_def hc sent_fit_def at_work_def)
    let ?t = "set_conn i (\<lambda>c. if MIN_WOULDBLOCK_DELAY < wouldblock_delay c
                then c\<lparr>wouldblock_delay := wouldblock_delay c - MIN_WOULDBLOCK_DELAY\<rparr> else c) ?s"
    have "sent_kept i (throttle_send e i ?t)"
      using f i by (intro throttle_sent(1)) (simp_all, simp add: at_work_def)
    then show ?thesis using sent_gone [OF finish_gone [OF i(1)]] by (simp add: written_def Let_def)
  qed
  then show ?thesis
    using assms(2) throttle_sent(2) [OF assms(2) w assms(1)] sent_gone [OF clear_gone [OF assms(1)]]
    by (simp add: handle_send_def Let_def sent_kept_def split: write_answer.split)
qed

lemma service_sent:
  assumes "sent_ok s" "i < length (connects s)" "the_hc (connects s ! i) \<noteq> None" "ended (service e i s) = None"
  shows "sent_ok (service e i s)"
proof (rule sent_only [OF assms(1) only_service _ assms(4)])
  obtain h where h: "the_hc (connects s ! i) = Some h" using assms(3) by auto
  have f: "sent_fit (connects s ! i)" using assms(1,2) by (simp add: sent_ok_def)
  then have k: "sent_kept i s" by (simp add: sent_kept_def)
  have l: "sent_kept i (handle_linger e i s)"
    using k sent_gone [OF really_clear_gone [OF assms(2)]] by (simp add: handle_linger_def split: read_answer.split)
  have r: "sent_kept i (handle_read e i s)" if "conn_state (connects s ! i) = CNST_READING"
    using f that h by (intro handle_read_sent [OF assms(2) h]) (simp_all add: sent_fit_def)
  show "sent_kept i (service e i s)"
    using k l r handle_send_sent [OF assms(2) f _ h] sent_gone [OF clear_gone [OF assms(2)]]
    by (simp add: service_def split: option.split cnst.split)
qed

subsection \<open>Timers\<close>

lemma idle_one_sent:
  assumes "sent_ok s" "i < length (connects s)" "ended (idle_one e nowP i s) = None"
  shows "sent_ok (idle_one e nowP i s)"
proof (rule sent_only [OF assms(1) only_idle_one _ assms(3)])
  have k: "sent_kept i s" using assms(1,2) by (simp add: sent_ok_def sent_kept_def)
  show "sent_kept i (idle_one e nowP i s)"
    using k assms(2) sent_gone [OF finish_gone] sent_gone [OF clear_gone]
    by (simp add: idle_one_def Let_def set_hc_def split: cnst.split)
qed

lemma share_one_sent:
  assumes "sent_ok s" "i < length (connects s)" "ended (share_one i s) = None"
  shows "sent_ok (share_one i s)"
proof (rule sent_only [OF assms(1) only_share_one _ assms(3)])
  have k: "sent_fit (connects s ! i)" using assms(1,2) by (simp add: sent_ok_def)
  have "sent_kept i (set_conn i (\<lambda>c. c\<lparr>max_limit := m\<rparr>) s)" for m
    by (rule sent_same [OF k]) (use assms(2) in simp_all)
  then show "sent_kept i (share_one i s)"
    using k by (simp add: share_one_def Let_def sent_kept_def split: option.split)
qed

lemma fold_sent:
  assumes "sent_ok s" "\<And>s i. only i s (f i s)" "\<And>s i. sent_ok s \<Longrightarrow> i < length (connects s) \<Longrightarrow> ended (f i s) = None \<Longrightarrow> sent_ok (f i s)"
    "\<forall>i\<in>set is. i < length (connects s)" "ended (fold (\<lambda>i. next_do (f i)) is s) = None"
  shows "sent_ok (fold (\<lambda>i. next_do (f i)) is s)"
  using assms(1,4,5)
proof (induction "is" arbitrary: s)
  case (Cons i js)
  have stuck: "fold (\<lambda>i. next_do (f i)) js s = s" if "ended s \<noteq> None" for js s
    using that by (induction js) (auto simp: next_do_def)
  have n: "ended (next_do (f i) s) = None"
    using Cons.prems(3) stuck [of "next_do (f i) s" js] by (cases "ended (next_do (f i) s)") simp_all
  have l: "length (connects (next_do (f i) s)) = length (connects s)" using only_length [OF assms(2)] by (simp add: next_do_def)
  have "sent_ok (next_do (f i) s)" using n Cons.prems(1,2) assms(3) [of s i] by (simp add: next_do_def split: if_splits)
  then show ?case using Cons.IH [of "next_do (f i) s"] Cons.prems l by simp
qed simp

lemma sent_cong: "connects s' = connects s \<Longrightarrow> sent_ok s' = sent_ok s"
  by (simp add: sent_ok_def)

lemma run_proc_sent:
  assumes "sent_ok s" "ended (run_proc e p i nowP s) = None" "p = proc_id Wakeup \<or> p = proc_id Linger_clear \<Longrightarrow> i < length (connects s)"
  shows "sent_ok (run_proc e p i nowP s)"
proof -
  have f: "sent_fit (connects s ! i)" if "i < length (connects s)" using assms(1) that by (simp add: sent_ok_def)
  have w: "sent_ok (wakeup_connection i s)" if i: "i < length (connects s)" and n: "ended (wakeup_connection i s) = None"
  proof (rule sent_only [OF assms(1) only_wakeup(1) _ n], rule sent_same [OF f [OF i]])
    show "the_hc (connects (wakeup_connection i s) ! i) = the_hc (connects s ! i)"
      using i by (simp add: wakeup_connection_def Let_def)
    show "conn_state (connects (wakeup_connection i s) ! i) = conn_state (connects s ! i) \<or>
        (at_work (connects s ! i) \<and> at_work (connects (wakeup_connection i s) ! i))"
      using i by (simp add: wakeup_connection_def Let_def at_work_def)
  qed
  have l: "sent_ok (linger_clear_connection e nowP i s)"
    if i: "i < length (connects s)" and n: "ended (linger_clear_connection e nowP i s) = None"
    using i by (intro sent_only [OF assms(1) only_wakeup(2) _ n] sent_gone)
      (simp add: linger_clear_connection_def really_clear_gone)
  have d: "sent_ok (idle e nowP s)" if "ended (idle e nowP s) = None"
    using that unfolding idle_def by (intro fold_sent [OF assms(1) only_idle_one idle_one_sent]) simp_all
  have u: "sent_ok (update_throttles s)" if "ended (update_throttles s) = None"
    using that assms(1) sent_cong [of "s\<lparr>throttles := map new_average (throttles s)\<rparr>" s] unfolding update_throttles_def
    by (intro fold_sent [OF _ only_share_one share_one_sent]) simp_all
  have o: "connects (occasional nowP s) = connects s" "connects (cgi_kill e nowP i s) = connects s" "connects (show_stats s) = connects s"
    by (simp_all add: occasional_def cgi_kill_def show_stats_def split: option.split)
  show ?thesis
    using assms w l d u sent_cong [OF o(1)] sent_cong [OF o(2)] sent_cong [OF o(3)] unfolding run_proc_def by (auto split: if_splits)
qed

subsection \<open>New connections\<close>

lemma sent_upd:
  assumes "sent_ok s" "connects s' = (connects s)[i := c]" "sent_fit c"
  shows "sent_ok s'"
  unfolding sent_ok_def
proof (intro allI impI)
  fix j assume "j < length (connects s')"
  then show "sent_fit (connects s' ! j)" using assms by (cases "j = i") (simp_all add: sent_ok_def)
qed

lemma sent_free: "sent_ok s \<Longrightarrow> conn_state (connects s ! i) = CNST_FREE \<Longrightarrow> sent_ok (set_hc i h s)"
  by (rule sent_upd [where i = i and c = "(connects s ! i)\<lparr>the_hc := Some h\<rparr>"])
    (simp_all add: set_hc_def set_conn_def sent_fit_def at_work_def)

lemma slot_hc_sent:
  assumes "sent_ok s" "conn_state (connects s ! i) = CNST_FREE"
  shows "sent_ok (slot_hc e i s) \<and> conn_state (connects (slot_hc e i s) ! i) = CNST_FREE"
proof -
  have "sent_ok (s\<lparr>httpd_conn_count := n\<rparr>)" for n using assms(1) by (simp add: sent_ok_def)
  then have "sent_ok (set_hc i h (s\<lparr>httpd_conn_count := n\<rparr>))" for h n using assms(2) by (intro sent_free) simp_all
  then show ?thesis using assms by (simp add: slot_hc_def set_hc_state sent_ok_def split: option.split)
qed

lemma accept_conn_sent:
  assumes "sent_ok s" "bytes_sent h = 0" "file_address h = None"
  shows "sent_ok (accept_conn e i h s)"
proof (rule sent_upd [OF assms(1)])
  show "connects (accept_conn e i h s) = (connects s)[i := (connects s ! i)\<lparr>conn_state := CNST_READING, next_free_connect := -1,
      the_hc := Some h, active_at := tv_sec (tv e), wakeup_timer := None, linger_timer := None, next_byte_index := 0, tnums := []\<rparr>]"
    by (simp add: accept_conn_def Let_def next_do_def set_conn_def)
qed (use assms(2,3) in \<open>simp add: sent_fit_def at_work_def\<close>)

lemma newconnect_sent:
  assumes "sent_ok s"
  shows "sent_ok (snd (newconnect_loop e as s))"
  using assms
proof (induction "as" arbitrary: s)
  case Nil
  let ?s1 = "slot_hc e (nat (first_free_connect s)) s"
  have "sent_ok (stop x s)" for x using Nil by (simp add: sent_cong [of "stop x s" s])
  moreover have "sent_ok ?s1 \<and> conn_state (connects ?s1 ! nat (first_free_connect s)) = CNST_FREE"
    if "conn_state (connects s ! nat (first_free_connect s)) = CNST_FREE" using slot_hc_sent [OF Nil that] .
  ultimately show ?case using Nil sent_free [of ?s1 "nat (first_free_connect s)"] by (simp add: newconnect_loop.simps [of e] Let_def)
next
  case (Cons a "as")
  let ?i = "nat (first_free_connect s)"
  let ?s1 = "slot_hc e ?i s"
  have st: "sent_ok (stop x s)" for x using Cons.prems by (simp add: sent_cong [of "stop x s" s])
  show ?case
  proof (cases "conn_state (connects s ! ?i) = CNST_FREE")
    case True
    have s1: "sent_ok ?s1" "conn_state (connects ?s1 ! ?i) = CNST_FREE" using slot_hc_sent [OF Cons.prems True] by auto
    obtain g h where g: "httpd_get_conn a (conn_hc ?s1 ?i) = (g, h)" by fastforce
    have "sent_ok (accept_conn e ?i h ?s1)" if "g = GC_OK"
      using get_conn_ok [of a "conn_hc ?s1 ?i" h] g that by (intro accept_conn_sent [OF s1(1)]) simp_all
    then show ?thesis
      using Cons st s1 g sent_free [OF s1] by (simp add: newconnect_loop.simps [of e "a # as"] Let_def split: get_conn.split)
  qed (use Cons.prems st in \<open>simp add: newconnect_loop.simps [of e "a # as"]\<close>)
qed

end
