(* ===== verification/Th_Server.thy ===== *)
theory Th_Server
  imports Th_Sent
begin

text \<open>
  thttpd as a transition system: its start, and the handlers, timers and signals as steps in any order. The law of the table
  holds in every reachable state; what it says of connections, counters and the ways the program can end.
\<close>

section \<open>A timer that fires\<close>

definition fire_one :: "env \<Rightarrow> nat \<Rightarrow> srv \<Rightarrow> srv" where
  \<comment> \<open>what \<open>tmr_run\<close> does with a timer whose time has come\<close>
  "fire_one e a s =
     (let r = heap (tmr_of s) a; s1 = run_proc e (timer_proc r) (client_data r) (tv e) s
      in next_do (\<lambda>s. if periodic (heap (tmr_of s) a)
           then (case l_resort a (upd a (\<lambda>r. r\<lparr>tm_time := add_msecs (tm_time r) (msecs r)\<rparr>) (tmr_of s)) of
                   None \<Rightarrow> stop Bad_timers s
                 | Some t \<Rightarrow> set_tmr t s)
           else set_tmr (tmr_cancel a (tmr_of s)) s) s1)"

lemma run_proc_fine:
  assumes "fine {} s" "ended s = None" "in_lists (tmr_of s) a" "timer_data (tmr_of s) a = (p, i, per)" "fresh_memory e"
  shows "fine {a} (run_proc e p i nowP s)"
proof -
  have c: "conns_ok None {} (table_of s)" using assms(1,2) by (simp add: fine_def)
  show ?thesis
  proof (cases "conn_proc p")
    case True
    then show ?thesis
      using wakeup_fine [OF c assms(2,3)] linger_clear_fine [OF c assms(2,3)] assms(4)
      by (auto simp: run_proc_def conn_proc_def)
  next
    case False
    have T: "table_of s = (table_of s)\<lparr>clock := tmr_of s\<rparr>" by (simp add: table_of_def)
    have "timers_ok {a} (table_of s)"
      using assms(3,4) False by (intro timers_begin [OF conns_okD(4) [OF c], of a p i per]) simp_all
    then have "conns_ok None {a} (table_of s)" by (rule table_clock [OF c T])
    then show ?thesis
      using assms(2,5) False idle_fine occasional_fine update_throttles_fine cgi_kill_fine show_stats_fine in_hand_fine
      by (auto simp: run_proc_def conn_proc_def)
  qed
qed

lemma fire_fine:
  assumes "fine {} s" "ended s = None" "in_lists (tmr_of s) a" "fresh_memory e"
  shows "fine {} (fire_one e a s)"
proof -
  obtain p i per where d: "timer_data (tmr_of s) a = (p, i, per)" by (cases "timer_data (tmr_of s) a")
  then have r: "timer_proc (heap (tmr_of s) a) = p" "client_data (heap (tmr_of s) a) = i" by (simp_all add: timer_data_def)
  let ?s1 = "run_proc e p i (tv e) s"
  have f: "fine {a} ?s1" by (rule run_proc_fine [OF assms(1-3) d assms(4)])
  show ?thesis
  proof (cases "ended ?s1")
    case (Some x)
    then show ?thesis using f by (simp add: fire_one_def r Let_def next_do_def fine_def)
  next
    case None
    let ?T = "table_of ?s1"
    have c: "conns_ok None {a} ?T" using f None by (simp add: fine_def)
    have T: "table_of (set_tmr t ?s1) = ?T\<lparr>clock := t\<rparr>" for t by (simp add: table_of_def set_tmr_def)
    show ?thesis
    proof (cases "periodic (heap (tmr_of ?s1) a)")
      case True
      let ?x = "add_msecs (tm_time (heap (tmr_of ?s1) a)) (msecs (heap (tmr_of ?s1) a))"
      have u: "upd a (\<lambda>r. r\<lparr>tm_time := add_msecs (tm_time r) (msecs r)\<rparr>) (tmr_of ?s1) = upd a (\<lambda>r. r\<lparr>tm_time := ?x\<rparr>) (tmr_of ?s1)"
        by (simp add: upd_def)
      obtain t where t: "l_resort a (upd a (\<lambda>r. r\<lparr>tm_time := ?x\<rparr>) (tmr_of ?s1)) = Some t"
        "timers_ok {} (?T\<lparr>clock := t\<rparr>)"
      proof -
        have o: "owns (?T\<lparr>clock := t\<rparr>) = owns ?T" for t by simp
        obtain t where "l_resort a (upd a (\<lambda>r. r\<lparr>tm_time := ?x\<rparr>) (tmr_of ?s1)) = Some t"
          using timers_again [OF conns_okD(4) [OF c] refl, of ?x] True by auto
        then show thesis using that timers_again [OF conns_okD(4) [OF c] o [of t], of ?x] True by auto
      qed
      have "conns_ok None {} (table_of (set_tmr t ?s1))" by (rule table_clock [OF c T]) (simp add: T t(2))
      then show ?thesis using True None t(1) by (simp add: fire_one_def r Let_def next_live u fine_def)
    next
      case False
      have "timers_ok {} (?T\<lparr>clock := tmr_cancel a (tmr_of ?s1)\<rparr>)"
        by (rule timers_end [OF conns_okD(4) [OF c]]) simp_all
      then have "conns_ok None {} (table_of (set_tmr (tmr_cancel a (tmr_of ?s1)) ?s1))"
        by (intro table_clock [OF c T]) (simp add: T)
      then show ?thesis using False None by (simp add: fire_one_def r Let_def next_live fine_def)
    qed
  qed
qed

lemma fire_sent:
  assumes "sent_ok s" "fine {} s" "ended s = None" "in_lists (tmr_of s) a" "ended (fire_one e a s) = None"
  shows "sent_ok (fire_one e a s)"
proof -
  obtain p i per where d: "timer_data (tmr_of s) a = (p, i, per)" by (cases "timer_data (tmr_of s) a")
  then have r: "timer_proc (heap (tmr_of s) a) = p" "client_data (heap (tmr_of s) a) = i" by (simp_all add: timer_data_def)
  let ?s1 = "run_proc e p i (tv e) s"
  have n: "ended ?s1 = None" using assms(5) by (auto simp: fire_one_def r Let_def next_do_def split: if_splits)
  have "conns_ok None {} (table_of s)" using assms(2,3) by (simp add: fine_def)
  note c = conns_okD(4) [OF this]
  have "i < length (connects s)" if "p = proc_id Wakeup \<or> p = proc_id Linger_clear"
  proof -
    have "owns (table_of s) p i = Some a"
    proof (rule timers_field [OF c])
      show "in_lists (clock (table_of s)) a" "timer_data (clock (table_of s)) a = (p, i, per)" using assms(4) d by simp_all
      show "conn_proc p" using that by (simp add: conn_proc_def)
    qed
    then have "busy (table_of s) i" by (simp add: owns_def split: if_splits)
    then show ?thesis by (simp add: busy_conn)
  qed
  then have s1: "sent_ok ?s1" by (rule run_proc_sent [OF assms(1) n])
  have "connects (fire_one e a s) = connects ?s1"
    using n by (simp add: fire_one_def r Let_def next_do_def split: option.split)
  from sent_cong [OF this] s1 show ?thesis by simp
qed

section \<open>The start\<close>

definition OCCASIONAL_TIME :: int where "OCCASIONAL_TIME = 120"
definition STATS_TIME :: int where "STATS_TIME = 3600"
definition SPARE_FDS :: int where "SPARE_FDS = 10"

definition periodic_timer :: "env \<Rightarrow> proc_kind \<Rightarrow> int \<Rightarrow> srv \<Rightarrow> srv" where
  \<comment> \<open>with \<open>JunkClientData\<close>, a variable that is never set\<close>
  "periodic_timer e k ms s =
     (case tmr_create (timer_memory e (tmr_of s)) (tv e) (proc_id k) 0 ms True (tmr_of s) of
        None \<Rightarrow> stop Bad_timers s
      | Some (None, t) \<Rightarrow> stop (Exited 1) (set_tmr t s)
      | Some (Some a, t) \<Rightarrow> set_tmr t s)"

definition start_timers :: "env \<Rightarrow> srv \<Rightarrow> srv" where
  "start_timers e s =
     (let s = set_tmr (tmr_init (tmr_of s)) s;
          s = periodic_timer e Occasional (OCCASIONAL_TIME * 1000) s;
          s = next_do (periodic_timer e Idle (5 * 1000)) s;
          s = next_do (\<lambda>s. if throttles s \<noteq> [] then periodic_timer e Update_throttles (THROTTLE_TIME * 1000) s else s) s;
          s = next_do (periodic_timer e Show_stats (STATS_TIME * 1000)) s
      in next_do (\<lambda>s. s\<lparr>stats_connections := 0, stats_bytes := 0, stats_simultaneous := 0\<rparr>) s)"

definition start_server :: "env \<Rightarrow> (nat \<Rightarrow> conn) \<Rightarrow> int \<Rightarrow> srv \<Rightarrow> srv" where
  \<comment> \<open>from \<open>tmr_init\<close> to the main loop; the number is what \<open>fdwatch_get_nfiles\<close> has answered\<close>
  "start_server e mem nf s = next_do (start_table mem (nat (nf - SPARE_FDS))) (start_timers e s)"

subsection \<open>The law at the start\<close>

definition quiet_timers :: "tmr \<Rightarrow> bool" where
  \<comment> \<open>no timer of a connection\<close>
  "quiet_timers t \<longleftrightarrow> (\<exists>L M. repr L M t \<and> live_ok {} L t (\<lambda>p i. None))"

lemma quiet_init: "quiet_timers (tmr_init t)"
proof -
  have "repr {} {} (tmr_init t)" using init_ok [of t] unfolding repr_def by (fastforce simp: addresses_def)
  then show ?thesis unfolding quiet_timers_def live_ok_def by blast
qed

lemma quiet_timers_ok: "owns T = (\<lambda>p i. None) \<Longrightarrow> timers_ok {} T = quiet_timers (clock T)"
  by (simp add: timers_ok_def quiet_timers_def)

definition empty_table :: "tmr \<Rightarrow> table" where
  "empty_table t = \<lparr>rows = [], used = 0, first_free = -1, sending = [], watch = blank_watch, clock = t\<rparr>"

lemma empty_owns: "owns (empty_table t) = (\<lambda>p i. None)"
  by (intro ext) (simp add: owns_def busy_def empty_table_def)

lemma empty_clock [simp]: "clock (empty_table t) = t"
  by (simp add: empty_table_def)

lemma periodic_quiet:
  assumes "quiet_timers (tmr_of s)" "fresh_memory e" "\<not> conn_proc (proc_id k)"
  shows "(\<exists>t. periodic_timer e k ms s = stop (Exited 1) (set_tmr t s)) \<or> (\<exists>t. periodic_timer e k ms s = set_tmr t s \<and> quiet_timers t)"
proof -
  let ?T = "empty_table (tmr_of s)"
  have k: "timers_ok {} ?T" using assms(1) by (simp add: quiet_timers_ok [OF empty_owns])
  have f: "\<And>L M b. repr L M (clock ?T) \<Longrightarrow> timer_memory e (tmr_of s) = Some b \<Longrightarrow> b \<notin> M"
    using assms(2) by (auto simp: fresh_memory_def)
  obtain r t where c: "tmr_create (timer_memory e (tmr_of s)) (tv e) (proc_id k) 0 ms True (clock ?T) = Some (r, t)"
    "\<And>a T'. r = Some a \<Longrightarrow> clock T' = t \<Longrightarrow> owns T' = owns ?T \<Longrightarrow> timers_ok {} T'"
    using timers_create [OF k, of "timer_memory e (tmr_of s)" "tv e" "proc_id k" 0 ms True] f assms(3) by auto
  have "quiet_timers t" if "r = Some a" for a
    using c(2) [OF that, of "empty_table t"] quiet_timers_ok [OF empty_owns, of t] by (simp add: empty_owns)
  then show ?thesis using c(1) by (cases r) (auto simp: periodic_timer_def)
qed

definition timers_started :: "srv \<Rightarrow> srv \<Rightarrow> bool" where
  "timers_started s0 s \<longleftrightarrow> ended s = Some (Exited 1) \<or>
     (ended s = None \<and> quiet_timers (tmr_of s) \<and> throttles s = throttles s0 \<and> fds s = fds s0)"

lemma periodic_started:
  assumes "timers_started s0 s" "fresh_memory e" "\<not> conn_proc (proc_id k)"
  shows "timers_started s0 (next_do (periodic_timer e k ms) s)"
  using assms(1) periodic_quiet [of s e k ms] assms(2,3)
  by (auto simp: timers_started_def next_do_def set_tmr_def)

lemma start_timers_started:
  assumes "ended s = None" "fresh_memory e"
  shows "timers_started s (start_timers e s)"
proof -
  let ?s0 = "set_tmr (tmr_init (tmr_of s)) s"
  have 0: "timers_started s ?s0" using assms(1) by (simp add: timers_started_def set_tmr_def quiet_init)
  have p: "\<not> conn_proc (proc_id Occasional)" "\<not> conn_proc (proc_id Idle)" "\<not> conn_proc (proc_id Update_throttles)"
    "\<not> conn_proc (proc_id Show_stats)" by (simp_all add: conn_proc_def)
  let ?s1 = "next_do (periodic_timer e Occasional (OCCASIONAL_TIME * 1000)) ?s0"
  let ?s2 = "next_do (periodic_timer e Idle (5 * 1000)) ?s1"
  let ?s3 = "next_do (\<lambda>s. if throttles s \<noteq> [] then periodic_timer e Update_throttles (THROTTLE_TIME * 1000) s else s) ?s2"
  have 2: "timers_started s ?s2" by (intro periodic_started p assms(2) 0)
  have 3: "timers_started s ?s3"
    using 2 periodic_started [OF 2 assms(2) p(3), of "THROTTLE_TIME * 1000"]
    by (cases "throttles ?s2 = []"; cases "ended ?s2") (simp_all only: next_do_def if_True if_False option.distinct not_True_eq_False not_False_eq_True refl)
  have 4: "timers_started s (next_do (periodic_timer e Show_stats (STATS_TIME * 1000)) ?s3)" by (intro periodic_started p assms(2) 3)
  have 1: "periodic_timer e Occasional (OCCASIONAL_TIME * 1000) ?s0 = ?s1" using assms(1) by (simp add: next_do_def)
  have s: "start_timers e s = next_do (\<lambda>s. s\<lparr>stats_connections := 0, stats_bytes := 0, stats_simultaneous := 0\<rparr>)
      (next_do (periodic_timer e Show_stats (STATS_TIME * 1000)) ?s3)"
    unfolding start_timers_def Let_def 1 ..
  have "timers_started s (next_do (\<lambda>s. s\<lparr>stats_connections := 0, stats_bytes := 0, stats_simultaneous := 0\<rparr>) s')"
    if "timers_started s s'" for s' using that by (auto simp: timers_started_def next_do_def)
  from this [OF 4] show ?thesis unfolding s .
qed

lemma free_chain_start:
  "\<forall>j. k \<le> j \<and> j < n \<longrightarrow> slot_next (cs ! j) = (if j = n - 1 then -1 else int j + 1) \<Longrightarrow> k < n \<Longrightarrow> free_chain cs (int k) [k..<n]"
proof (induction "n - k" arbitrary: k)
  case (Suc m)
  show ?case
  proof (cases "Suc k = n")
    case True
    then have "[k..<n] = [k]" by (simp add: upt_rec)
    then show ?thesis using Suc.prems True by simp
  next
    case False
    then have "Suc k < n" using Suc.prems(2) by simp
    then have "free_chain cs (int (Suc k)) [Suc k..<n]" using Suc by (intro Suc.hyps(1)) auto
    moreover have "[k..<n] = k # [Suc k..<n]" using Suc.prems(2) by (simp add: upt_rec)
    moreover have "slot_next (cs ! k) = int (Suc k)" using Suc.prems False by simp
    ultimately show ?thesis by simp
  qed
qed simp

definition blank_start :: "int \<Rightarrow> srv \<Rightarrow> bool" where
  \<comment> \<open>before \<open>tmr_init\<close>: nothing is watched, no throttle is in use\<close>
  "blank_start nf s \<longleftrightarrow> ended s = None \<and> SPARE_FDS < nf \<and> (\<forall>x\<in>set (throttles s). num_sending x = 0) \<and>
     (\<exists>lim rl ok w. fdwatch_get_nfiles lim rl ok True w = (nf, fds s))"

definition unwatched :: "nat fdwatch \<Rightarrow> bool" where
  \<comment> \<open>nothing but listening sockets\<close>
  "unwatched w \<longleftrightarrow> watch_fit w \<and> (\<forall>fd rw i. watched w fd \<noteq> Some (rw, Some i))"

lemma init_unwatched:
  assumes "fdwatch_get_nfiles n rl ok True w = (nf, w0)" "0 \<le> nf"
  shows "unwatched w0"
proof -
  have "data_ok w0"
    using assms by (auto simp: fdwatch_get_nfiles_def Let_def poll_init_def data_ok_def get_at_def split: if_splits)
  then show ?thesis using init_fdw_ok [OF assms] by (simp add: unwatched_def watch_fit_def)
qed

lemma listen_unwatched:
  assumes "unwatched (fds s)"
  shows "\<exists>w. listen_fd fd s = s\<lparr>fds := w\<rparr> \<and> unwatched w"
proof (cases "fd = -1")
  case True
  then show ?thesis using assms by (intro exI [of _ "fds s"]) (simp add: listen_fd_def)
next
  case False
  have "FDW_READ \<noteq> -1" "watch_fit (fds s)" using assms by (simp_all add: FDW_READ_def unwatched_def)
  from fit_add [OF this(2,1), of fd None] obtain w where w: "fdwatch_add_fd fd None FDW_READ (fds s) = Some w" "watch_fit w"
    "watched w = (if 0 \<le> fd \<and> fd < nfiles (fds s) \<and> watched (fds s) fd = None then (watched (fds s))(fd \<mapsto> (FDW_READ, None)) else watched (fds s))"
    by blast
  then have "unwatched w" using assms by (auto simp: unwatched_def)
  then show ?thesis using w(1) False by (intro exI [of _ w]) (simp add: listen_fd_def)
qed

lemma start_fine:
  assumes "blank_start nf s" "fresh_memory e" "s' = start_server e mem nf s"
  shows "fine {} s' \<and> (ended s' = None \<longrightarrow> sent_ok s')"
proof -
  let ?n = "nat (nf - SPARE_FDS)"
  have n: "0 < ?n" "0 \<le> nf" using assms(1) by (auto simp: blank_start_def SPARE_FDS_def)
  have st: "timers_started s (start_timers e s)" using assms(1,2) by (intro start_timers_started) (auto simp: blank_start_def)
  show ?thesis
  proof (cases "ended (start_timers e s)")
    case (Some x)
    then show ?thesis using st by (simp add: assms(3) start_server_def next_do_def timers_started_def fine_def)
  next
    case None
    let ?s1 = "start_timers e s"
    let ?s2 = "?s1\<lparr>connects := start_connects mem ?n, first_free_connect := 0, num_connects := 0, httpd_conn_count := 0\<rparr>"
    have t: "quiet_timers (tmr_of ?s1)" "throttles ?s1 = throttles s" "fds ?s1 = fds s" using st None by (auto simp: timers_started_def)
    have "unwatched (fds ?s2)" using assms(1) n(2) init_unwatched t(3) by (auto simp: blank_start_def)
    from listen_unwatched [OF this] obtain w1 where w1: "listen_fd (listen4_fd ?s2) ?s2 = ?s2\<lparr>fds := w1\<rparr>" "unwatched w1" by blast
    then have "unwatched (fds (?s2\<lparr>fds := w1\<rparr>))" by simp
    from listen_unwatched [OF this] obtain w2 where w2: "listen_fd (listen6_fd ?s2) (?s2\<lparr>fds := w1\<rparr>) = ?s2\<lparr>fds := w2\<rparr>" "unwatched w2"
      by fastforce
    have s': "s' = ?s2\<lparr>fds := w2\<rparr>"
    proof -
      have "s' = next_do (listen_fd (listen6_fd ?s2)) (listen_fd (listen4_fd ?s2) ?s2)"
        using None by (simp add: assms(3) start_server_def next_live start_table_def Let_def)
      then show ?thesis unfolding w1(1) using None w2(1) by (simp add: next_live)
    qed
    let ?T = "table_of s'"
    have rows: "rows ?T = map slot_of (start_connects mem ?n)" by (simp add: s' table_of_def)
    have len: "length (rows ?T) = ?n" by (simp add: rows start_connects_def)
    have row: "slot_state (rows ?T ! j) = CNST_FREE" "slot_next (rows ?T ! j) = (if j = ?n - 1 then -1 else int j + 1)" if "j < ?n" for j
      using that by (simp_all add: rows start_connects_def slot_of_def)
    have nb: "\<not> busy ?T j" for j using row(1) [of j] len by (auto simp: busy_def)
    have "conns_ok None {} ?T"
    proof (rule conns_okI)
      have "free_chain (rows ?T) (int 0) [0..<?n]" by (rule free_chain_start) (use row(2) n(1) in auto)
      moreover have "first_free ?T = int 0" "used ?T = 0" by (simp_all add: s')
      ultimately show "free_ok ?T" unfolding free_ok_def len using row(1) by (intro exI [of _ "[0..<?n]"]) auto
      have "load (rows ?T) t = 0" for t
      proof -
        have "map (\<lambda>c. if slot_state c = CNST_FREE then 0 else int (count_list (slot_nums c) t)) (rows ?T) = map (\<lambda>c. 0) (rows ?T)"
          using row(1) len by (intro map_cong) (auto simp: in_set_conv_nth)
        then show ?thesis unfolding load_def by (simp del: map_eq_conv)
      qed
      moreover have "sending ?T = map num_sending (throttles s)" by (simp add: s' t(2))
      ultimately show "count_ok ?T" using assms(1) nb by (auto simp: count_ok_def blank_start_def)
      show "watch_ok ?T" using w2(2) nb by (simp add: watch_ok_def unwatched_def s')
      have "owns ?T = (\<lambda>p i. None)" using nb by (intro ext) (simp add: owns_def)
      then show "timers_ok {} ?T" using t(1) by (simp add: quiet_timers_ok s')
    qed (use nb in simp)
    moreover have "sent_ok s'" by (simp add: s' sent_ok_def start_connects_def sent_fit_def)
    ultimately show ?thesis using None by (simp add: fine_def s')
  qed
qed

section \<open>The server's steps\<close>

lemma table_watch:
  \<comment> \<open>the watch has changed, but not what is watched\<close>
  assumes "conns_ok x D T" "T' = T\<lparr>watch := w\<rparr>" "watch_fit w" "nfiles w = nfiles (watch T)" "watched w = watched (watch T)"
  shows "conns_ok x D T'"
proof (rule conns_okI)
  note k = conns_okD [OF assms(1)]
  have b: "busy T' i = busy T i" "fd_at T' i = fd_at T i" for i by (simp_all add: assms(2) busy_def fd_at_def)
  show "free_ok T'" using k(1) by (simp add: assms(2) free_ok_def)
  show "count_ok T'" using k(2) b(1) by (simp add: assms(2) count_ok_def)
  show "watch_ok T'" using k(3) assms(3-5) unfolding watch_ok_def b by (simp add: assms(2))
  have "owns T' = owns T" using b by (intro ext) (simp add: owns_def assms(2))
  then show "timers_ok D T'" using k(4) by (intro timers_same [OF k(4)]) (simp_all add: assms(2))
  show "slot_fit (rows T' ! i)" if "busy T' i" "x \<noteq> Some i" for i using that k(5) [of i] b by (simp add: assms(2))
qed

lemma table_fds: "table_of (s\<lparr>fds := w\<rparr>) = (table_of s)\<lparr>watch := w\<rparr>"
  by (simp add: table_of_def)

definition server_ok :: "srv \<Rightarrow> bool" where
  "server_ok s \<longleftrightarrow> fine {} s \<and> (ended s = None \<longrightarrow> sent_ok s)"

lemma server_okD:
  assumes "server_ok s" "ended s = None"
  shows "conns_ok None {} (table_of s)" "sent_ok s"
  using assms by (auto simp: server_ok_def fine_def)

lemma server_okI: "ended s = None \<Longrightarrow> conns_ok None {} (table_of s) \<Longrightarrow> sent_ok s \<Longrightarrow> server_ok s"
  by (simp add: server_ok_def fine_def)

lemma watch_step:
  assumes "server_ok s" "ended s = None" "watch_fit w" "nfiles w = nfiles (fds s)" "watched w = watched (fds s)"
  shows "server_ok (s\<lparr>fds := w\<rparr>)"
  using table_watch [OF server_okD(1) [OF assms(1,2)] table_fds assms(3)] assms server_okD(2) [OF assms(1,2)]
  by (intro server_okI) (simp_all add: sent_ok_def)

lemma poll_step:
  assumes "server_ok s" "ended s = None"
  shows "server_ok (s\<lparr>fds := snd (fdwatch r ev (fds s))\<rparr>)"
proof -
  have "watch_fit (fds s)" using watch_okD(1) [OF conns_okD(3) [OF server_okD(1) [OF assms]]] by simp
  from fit_poll [OF this] show ?thesis by (intro watch_step [OF assms]) (metis prod.collapse)+
qed

lemma service_step:
  assumes "server_ok s" "ended s = None" "fresh_memory e" "busy (table_of s) i"
  shows "server_ok (service e i s)"
proof -
  note k = server_okD [OF assms(1,2)]
  have "the_hc (connects s ! i) \<noteq> None" "i < length (connects s)"
    using busy_hc(1) [OF k(1) assms(4)] assms(4) by (simp_all add: busy_conn)
  then show ?thesis
    using service_fine [OF k(1) assms(4,2,3) k(2)] service_sent [OF k(2)] by (simp add: server_ok_def)
qed

lemma service_loop_step:
  assumes "server_ok s" "fresh_memory e"
  shows "server_ok (service_loop n e s)"
  using assms(1)
proof (induction n arbitrary: s)
  case (Suc n)
  show ?case
  proof (cases "ended s")
    case None
    note k = server_okD [OF Suc.prems None]
    have w: "watch_fit (fds s)" using watch_okD(1) [OF conns_okD(3) [OF k(1)]] by simp
    obtain c v where v: "fdwatch_get_next_client_data (fds s) = Some (c, v)" "v = fds s \<or> v = (fds s)\<lparr>next_ridx := next_ridx (fds s) + 1\<rparr>"
      "\<And>i. c = Client (Some i) \<Longrightarrow> \<exists>fd rw. watched (fds s) fd = Some (rw, Some i)" using fit_next [OF w] by blast
    have "server_ok (s\<lparr>fds := v\<rparr>)" using v(2) w by (intro watch_step [OF Suc.prems None]) auto
    moreover have "server_ok (service e i (s\<lparr>fds := v\<rparr>))" if "c = Client (Some i)" for i
    proof -
      have "busy (table_of s) i" using v(3) [OF that] watch_okD(7) [OF conns_okD(3) [OF k(1)]] by auto
      then have "busy (table_of (s\<lparr>fds := v\<rparr>)) i" by (simp add: busy_conn)
      then show ?thesis using None by (intro service_step [OF calculation _ assms(2)]) simp_all
    qed
    ultimately show ?thesis using v(1) None Suc.IH by (auto split: client.split option.split)
  qed (use Suc.prems in simp)
qed simp

lemma connect_step:
  assumes "server_ok s" "ended s = None" "new_descriptors as s"
  shows "server_ok (snd (newconnect_loop e as s))"
  using newconnect_fine [OF server_okD(1) [OF assms(1,2)] assms(2,3)] newconnect_sent [OF server_okD(2) [OF assms(1,2)]]
  by (simp add: server_ok_def)

lemma fire_step:
  assumes "server_ok s" "ended s = None" "in_lists (tmr_of s) a" "fresh_memory e"
  shows "server_ok (fire_one e a s)"
proof -
  have f: "fine {} s" using assms(1) by (simp add: server_ok_def)
  show ?thesis using fire_fine [OF f assms(2-4)] fire_sent [OF server_okD(2) [OF assms(1,2)] f assms(2,3)] by (simp add: server_ok_def)
qed

lemma chld_step:
  assumes "server_ok s" "ended s = None"
  shows "server_ok (handle_chld n s)"
proof -
  have "\<exists>c. handle_chld n s = s\<lparr>the_world := (the_world s)\<lparr>cgi_count := c\<rparr>\<rparr>"
  proof (induction n)
    case 0
    show ?case by (intro exI [of _ "cgi_count (the_world s)"]) (simp add: handle_chld_def)
  next
    case (Suc n)
    then show ?case by (auto simp: handle_chld_def)
  qed
  then obtain c where c: "handle_chld n s = s\<lparr>the_world := (the_world s)\<lparr>cgi_count := c\<rparr>\<rparr>" ..
  then have "table_of (handle_chld n s) = table_of s" by (simp add: table_of_def)
  then show ?thesis using server_okD [OF assms] assms(2) c by (intro server_okI) (simp_all add: sent_ok_def)
qed

lemma usr1_step:
  assumes "server_ok s" "ended s = None" "num_connects s \<noteq> 0"
  shows "server_ok (handle_usr1 e s)"
proof -
  have "table_of (s\<lparr>got_usr1 := True\<rparr>) = table_of s" by (simp add: table_of_def)
  then show ?thesis using server_okD [OF assms(1,2)] assms(2,3) by (intro server_okI) (simp_all add: handle_usr1_def sent_ok_def)
qed

inductive reached :: "srv \<Rightarrow> bool" where
  \<comment> \<open>from the start by the handlers of the main loop, the timers and the signals, in any order; \<open>malloc\<close> and \<open>accept\<close> return
      what is not in use\<close>
  start: "blank_start nf s \<Longrightarrow> fresh_memory e \<Longrightarrow> reached (start_server e mem nf s)"
| connect: "reached s \<Longrightarrow> ended s = None \<Longrightarrow> new_descriptors as s \<Longrightarrow> reached (snd (newconnect_loop e as s))"
| poll: "reached s \<Longrightarrow> ended s = None \<Longrightarrow> reached (s\<lparr>fds := snd (fdwatch r ev (fds s))\<rparr>)"
| serve: "reached s \<Longrightarrow> fresh_memory e \<Longrightarrow> reached (service_loop n e s)"
| fire: "reached s \<Longrightarrow> ended s = None \<Longrightarrow> fresh_memory e \<Longrightarrow> in_lists (tmr_of s) a \<Longrightarrow> reached (fire_one e a s)"
| chld: "reached s \<Longrightarrow> ended s = None \<Longrightarrow> reached (handle_chld n s)"
| usr1: "reached s \<Longrightarrow> ended s = None \<Longrightarrow> num_connects s \<noteq> 0 \<Longrightarrow> reached (handle_usr1 e s)"

lemma reached_ok: "reached s \<Longrightarrow> server_ok s"
proof (induction rule: reached.induct)
  case (start nf s e mem)
  then show ?case using start_fine [OF start refl] by (simp add: server_ok_def)
qed (simp_all add: connect_step poll_step service_loop_step fire_step chld_step usr1_step)

section \<open>What the law means\<close>

lemma links_reach: "links m p (xs @ b # ys) n \<Longrightarrow> xs \<noteq> [] \<Longrightarrow> tm_next (m (last xs)) = Some b"
proof (induction xs arbitrary: p)
  case (Cons x xs)
  then show ?case by (cases xs) auto
qed simp

lemma live_in_lists:
  assumes "repr L M t" "a \<in> L"
  shows "in_lists t a"
proof -
  obtain B F where B: "tmr_ok B F t" "L = addresses B" using assms(1) by (auto simp: repr_def)
  then obtain h where h: "a \<in> set (B h)" using assms(2) by (auto simp: addresses_def)
  have l: "lists_ok B F t" using B(1) by (simp add: tmr_ok_def)
  then have hs: "h < HASH_SIZE" using lists_okD(3) [OF l, of h] h by (cases "h < HASH_SIZE") auto
  then have b: "bucket_ok t h (B h)" using lists_okD(1) [OF l] by blast
  have "in_lists t x" if "B h = xs @ x # ys" for xs x ys
    using that
  proof (induction xs arbitrary: x ys rule: rev_induct)
    case Nil
    then show ?case using bucket_okD(1) [OF b] hs by (intro in_lists.head [of h]) simp_all
  next
    case (snoc y xs)
    then have "in_lists t y" by simp
    moreover have "tm_next (heap t y) = Some x"
      using links_reach [of "heap t" None "xs @ [y]" x ys None] bucket_okD(2) [OF b] snoc.prems by simp
    ultimately show ?case by (rule in_lists.tail)
  qed
  then show ?thesis using split_list [OF h] by blast
qed

definition has_timer :: "tmr \<Rightarrow> nat option \<Rightarrow> proc_kind \<Rightarrow> nat \<Rightarrow> bool" where
  \<comment> \<open>a timer that \<open>tmr_run\<close> will come to, for the procedure and the connection\<close>
  "has_timer t x k i \<longleftrightarrow> (\<exists>a. x = Some a \<and> in_lists t a \<and> timer_data t a = (proc_id k, i, False))"

lemma owned_timer:
  assumes "timers_ok {} T" "owns T (proc_id k) i = Some a"
  shows "has_timer (clock T) (Some a) k i"
proof -
  obtain L M where r: "repr L M (clock T)" and v: "live_ok {} L (clock T) (owns T)" using assms(1) by (auto simp: timers_ok_def)
  show ?thesis
    using live_in_lists [OF r] live_okD(3,4) [OF v assms(2)] by (simp add: has_timer_def)
qed

lemma load_sum:
  "load cs t = (\<Sum>i \<in> {i. i < length cs \<and> slot_state (cs ! i) \<noteq> CNST_FREE}. int (count_list (slot_nums (cs ! i)) t))"
proof -
  let ?f = "\<lambda>i. if slot_state (cs ! i) = CNST_FREE then 0 else int (count_list (slot_nums (cs ! i)) t)"
  have "load cs t = (\<Sum>i \<in> {0..<length cs}. ?f i)"
    by (simp add: load_def sum_list_sum_nth atLeast0LessThan)
  also have "\<dots> = (\<Sum>i \<in> {i. i < length cs \<and> slot_state (cs ! i) \<noteq> CNST_FREE}. ?f i)"
    by (rule sum.mono_neutral_right) auto
  also have "\<dots> = (\<Sum>i \<in> {i. i < length cs \<and> slot_state (cs ! i) \<noteq> CNST_FREE}. int (count_list (slot_nums (cs ! i)) t))"
    by (rule sum.cong) auto
  finally show ?thesis .
qed

lemma used_card:
  assumes "free_ok T"
  shows "used T = int (card {i. i < length (rows T) \<and> slot_state (rows T ! i) \<noteq> CNST_FREE})"
proof -
  let ?F = "{i. i < length (rows T) \<and> slot_state (rows T ! i) = CNST_FREE}"
  obtain ns where ns: "distinct ns" "set ns = ?F" "used T = int (length (rows T)) - int (length ns)"
    using assms by (auto simp: free_ok_def)
  have "{i. i < length (rows T) \<and> slot_state (rows T ! i) \<noteq> CNST_FREE} = {..<length (rows T)} - ?F" by auto
  moreover have "card ({..<length (rows T)} - ?F) = length (rows T) - card ?F" by (subst card_Diff_subset) auto
  moreover have "card ?F = length ns" using ns(1,2) distinct_card [OF ns(1)] by simp
  moreover have "card ?F \<le> length (rows T)" using card_mono [of "{..<length (rows T)}" ?F] by auto
  ultimately show ?thesis using ns(3) by simp
qed

section \<open>Properties\<close>

definition in_use :: "srv \<Rightarrow> nat \<Rightarrow> bool" where
  "in_use s i \<longleftrightarrow> i < length (connects s) \<and> conn_state (connects s ! i) \<noteq> CNST_FREE"

lemma in_use_busy: "in_use s i = busy (table_of s) i"
  by (simp add: in_use_def busy_conn)

lemma in_use_rows: "{i. i < length (rows (table_of s)) \<and> slot_state (rows (table_of s) ! i) \<noteq> CNST_FREE} = {i. in_use s i}"
  by (auto simp: in_use_def rows_at slot_of_def)




section \<open>An example\<close>

fun follow :: "(nat \<Rightarrow> timer) \<Rightarrow> nat \<Rightarrow> nat option \<Rightarrow> nat list" where
  "follow m 0 x = []"
| "follow m (Suc n) x = (case x of None \<Rightarrow> [] | Some a \<Rightarrow> a # follow m n (tm_next (m a)))"

definition used_timers :: "tmr \<Rightarrow> nat list" where
  "used_timers t = concat (map (\<lambda>h. follow (heap t) (nat (alloc_count t)) (timers t h)) [0..<HASH_SIZE]) @
     follow (heap t) (nat (alloc_count t)) (free_timers t)"

definition next_memory :: "tmr \<Rightarrow> nat option" where
  \<comment> \<open>a \<open>malloc\<close> that returns the address behind all those in use\<close>
  "next_memory t = Some (Suc (fold max (used_timers t) 0))"

lemma follow_chain: "chain m q xs \<Longrightarrow> length xs \<le> n \<Longrightarrow> set xs \<subseteq> set (follow m n q)"
proof (induction xs arbitrary: q n)
  case (Cons x xs)
  then obtain k where "n = Suc k" by (cases n) auto
  with Cons show ?case by auto
qed simp

lemma links_chain: "links m p xs None \<Longrightarrow> chain m (hd_or None xs) xs"
proof (induction xs arbitrary: p)
  case (Cons x xs)
  then show ?case by (cases xs) auto
qed simp

lemma used_timers_all:
  assumes "repr L M t"
  shows "M \<subseteq> set (used_timers t)"
proof -
  obtain B F where B: "tmr_ok B F t" "M = addresses B \<union> set F" using assms by (auto simp: repr_def)
  have l: "lists_ok B F t" and n: "nat (alloc_count t) = active B + length F" using B(1) by (auto simp: tmr_ok_def)
  have "set (B h) \<subseteq> set (used_timers t)" for h
  proof (cases "h < HASH_SIZE")
    case True
    note b = bucket_okD(1,2) [OF lists_okD(1) [OF l True]]
    have "length (B h) \<le> active B" unfolding active_def using True by (intro member_le_sum) auto
    then have "set (B h) \<subseteq> set (follow (heap t) (nat (alloc_count t)) (timers t h))"
      using links_chain [OF b(2)] b(1) n by (intro follow_chain) simp_all
    then show ?thesis using True by (auto simp: used_timers_def)
  qed (simp add: lists_okD(3) [OF l])
  moreover have "set F \<subseteq> set (used_timers t)"
    using follow_chain [OF lists_okD(4) [OF l], of "nat (alloc_count t)"] n by (auto simp: used_timers_def)
  ultimately show ?thesis using B(2) by (auto simp: addresses_def)
qed

lemma fold_max: "a \<in> set xs \<Longrightarrow> a \<le> fold max xs (m :: nat)" "m \<le> fold max xs m"
proof (induction xs arbitrary: m)
  case (Cons x xs)
  { case 1
    then show ?case using Cons.IH(1) Cons.IH(2) [of "max x m"] by (auto intro: order.trans) }
  { case 2
    show ?case using Cons.IH(2) [of "max x m"] by simp }
qed auto

definition tidy_env :: env where
  "tidy_env = quiet_env\<lparr>timer_memory := next_memory\<rparr>"

lemma tidy_memory: "fresh_memory tidy_env"
proof -
  have "a \<notin> M" if "repr L M t" "next_memory t = Some a" for L M t a
  proof
    assume "a \<in> M"
    then have "a \<le> fold max (used_timers t) 0" using used_timers_all [OF that(1)] by (intro fold_max(1)) auto
    then show False using that(2) by (simp add: next_memory_def)
  qed
  then show ?thesis by (simp add: fresh_memory_def tidy_env_def)
qed


definition blank_srv :: srv where
  "blank_srv = new_srv\<lparr>fds := snd (fdwatch_get_nfiles 12 None True True blank_watch)\<rparr>"

definition started_srv :: srv where
  "started_srv = start_server tidy_env (\<lambda>i. new_conn) 12 blank_srv"

definition connected_srv :: srv where
  "connected_srv = snd (newconnect_loop tidy_env [Accepted 5 True] started_srv)"

lemma started_facts:
  "ended started_srv = None \<and> nfiles (fds started_srv) = 12 \<and> watched (fds started_srv) 5 = None \<and>
   list_all (\<lambda>c. conn_state c = CNST_FREE) (connects started_srv)"
  by code_simp

lemma connected_facts:
  "ended connected_srv = None \<and> num_connects connected_srv = 1 \<and> in_use connected_srv 0 \<and>
   conn_state (connects connected_srv ! 0) = CNST_READING \<and> conn_fd (conn_hc connected_srv 0) = 5"
  by code_simp

lemma failed_facts: "ended (start_server quiet_env (\<lambda>i. new_conn) 12 blank_srv) = Some (Exited 1)"
  by code_simp

lemma tmr_run_fires_one:
  \<comment> \<open>the inner loop of \<open>tmr_run\<close> goes on behind a timer as \<open>fire_one\<close> has left the server\<close>
  assumes "\<not> tv e < tm_time (heap t a)" "ended s = None" "ended (fire_one e a (set_tmr t s)) = None"
  shows "\<exists>st. run_bucket (procs e) (tv e) (Some a) (t, s) = run_bucket (procs e) (tv e) (tm_next (heap t a)) st \<and>
    set_tmr (fst st) (snd st) = fire_one e a (set_tmr t s)"
proof -
  let ?r = "heap t a" and ?s0 = "set_tmr t s"
  let ?s1 = "run_proc e (timer_proc ?r) (client_data ?r) (tv e) ?s0"
  have w: "tmr_of (set_tmr x s) = x" "set_tmr x (set_tmr y s) = set_tmr x s" for x y s by (simp_all add: set_tmr_def)
  have p: "procs e (timer_proc ?r) (client_data ?r) (tv e) (t, s) = (tmr_of ?s1, ?s1)"
    using assms(2) by (simp add: procs_def Let_def next_do_def)
  have n: "ended ?s1 = None" using assms(3) by (auto simp: fire_one_def w Let_def next_do_def split: if_splits)
  show ?thesis
  proof (cases "periodic (heap (tmr_of ?s1) a)")
    case True
    then obtain t2 where t2: "l_resort a (upd a (\<lambda>r. r\<lparr>tm_time := add_msecs (tm_time r) (msecs r)\<rparr>) (tmr_of ?s1)) = Some t2"
      using assms(3) n by (auto simp: fire_one_def w Let_def next_do_def split: option.splits)
    then have "fire_one e a ?s0 = set_tmr t2 ?s1" using True n by (simp add: fire_one_def w Let_def next_do_def)
    moreover have "run_bucket (procs e) (tv e) (Some a) (t, s) = run_bucket (procs e) (tv e) (tm_next ?r) (t2, ?s1)"
      using True t2 assms(1) p by (simp add: run_bucket.simps [of _ _ "Some a"] Let_def)
    ultimately show ?thesis by (intro exI [of _ "(t2, ?s1)"]) simp
  next
    case False
    then have "fire_one e a ?s0 = set_tmr (tmr_cancel a (tmr_of ?s1)) ?s1" using n by (simp add: fire_one_def w Let_def next_do_def)
    moreover have "run_bucket (procs e) (tv e) (Some a) (t, s) = run_bucket (procs e) (tv e) (tm_next ?r) (tmr_cancel a (tmr_of ?s1), ?s1)"
      using False assms(1) p by (simp add: run_bucket.simps [of _ _ "Some a"] Let_def)
    ultimately show ?thesis by (intro exI [of _ "(tmr_cancel a (tmr_of ?s1), ?s1)"]) simp
  qed
qed

lemma blank_example: "blank_start 12 blank_srv"
proof -
  have "fdwatch_get_nfiles 12 None True True blank_watch = (12, fds blank_srv)"
    by (simp add: blank_srv_def fdwatch_get_nfiles_def fd_limit_def Let_def)
  then have "\<exists>lim rl ok w. fdwatch_get_nfiles lim rl ok True w = (12, fds blank_srv)" by blast
  then show ?thesis by (simp add: blank_start_def blank_srv_def new_srv_def SPARE_FDS_def)
qed

lemma quiet_memory: "fresh_memory quiet_env"
  by (simp add: fresh_memory_def quiet_env_def)


lemma reached_started: "reached started_srv"
  unfolding started_srv_def by (rule reached.start [OF blank_example tidy_memory])

lemma reached_connected: "reached connected_srv"
  unfolding connected_srv_def
proof (rule reached.connect [OF reached_started])
  have "\<not> in_use started_srv i" for i
    using started_facts by (auto simp: in_use_def list_all_length)
  then show "new_descriptors [Accepted 5 True] started_srv"
    using started_facts by (simp add: new_descriptors_def in_use_busy List.map_filter_simps)
qed (use started_facts in simp)



end
