(* ===== verification/Th_Twice.thy ===== *)
theory Th_Twice
  imports Th_Conn Th_Send
begin

text \<open>
  What happens in \<open>tmr_run\<close> of thttpd when a timer procedure cancels the timer that the loop has saved as the next one.
\<close>

section \<open>A timer cancelled twice\<close>

lemma resort_frame:
  assumes "tmr_ok B F s" "t \<in> set (B h)" "\<And>k. b \<notin> set (B k)" "l_resort t (upd t (\<lambda>r. r\<lparr>tm_time := x\<rparr>) s) = Some s'"
  shows "heap s' b = heap s b"
proof -
  have l: "lists_ok B F s" using assms(1) by (simp add: tmr_ok_def)
  let ?B = "B(h := remove1 t (B h))"
  let ?s2 = "upd t (\<lambda>r. r\<lparr>tm_hash := hash (tm_time r)\<rparr>) (upd t (\<lambda>r. r\<lparr>tm_time := x\<rparr>) (l_remove t s))"
  have ne: "b \<noteq> t" using assms(2,3) by auto
  note r = lists_remove [OF l assms(2)] and n = remove_not_in [OF l assms(2)]
  have "lists_ok ?B F ?s2" using r n by (intro lists_upd) blast+
  from lists_add [OF this n(1,2)] obtain s1 where s1: "l_add t ?s2 = Some s1"
    "relinked ?s2 s1 (hash x) (insert t (set (?B (hash x)))) (insert_timer (heap ?s2) t (?B (hash x)))" by auto
  have "l_add t ?s2 = Some s'" using assms(4) by (simp add: l_resort_def remove_retime)
  then have "s' = s1" using s1(1) by simp
  moreover have "b \<notin> insert t (set (?B (hash x)))"
    using ne assms(3) set_remove1_subset [of t "B h"] by (auto split: if_splits)
  ultimately have "heap s' b = heap ?s2 b" using s1(2) by (simp add: relinked_def)
  also have "\<dots> = heap (l_remove t s) b" using ne by simp
  also have "\<dots> = heap s b" using r assms(3) by (simp add: relinked_def)
  finally show ?thesis .
qed

lemma cleanup_cyclic:
  assumes "free_timers t = Some b" "tm_next (heap t b) = Some b"
  shows "tmr_cleanup t = None"
proof -
  have "\<not> (free_timers t = Some b \<and> tm_next (heap t b) = Some b)" if "tmr_cleanup t = Some y" for y
  proof (rule tmr_cleanup.raw_induct [OF _ that, where P = "\<lambda>s y. \<not> (free_timers s = Some b \<and> tm_next (heap s b) = Some b)"])
    fix f :: "tmr \<Rightarrow> tmr option" and s :: tmr and y
    assume ih: "\<And>x y. f x = Some y \<Longrightarrow> \<not> (free_timers x = Some b \<and> tm_next (heap x b) = Some b)"
      and f: "(case free_timers s of None \<Rightarrow> Some s | Some t \<Rightarrow> f (s\<lparr>free_timers := tm_next (heap s t), free_count := free_count s - 1,
          alloc_count := alloc_count s - 1\<rparr>)) = Some y"
    show "\<not> (free_timers s = Some b \<and> tm_next (heap s b) = Some b)"
    proof
      assume c: "free_timers s = Some b \<and> tm_next (heap s b) = Some b"
      then have "f (s\<lparr>free_timers := tm_next (heap s b), free_count := free_count s - 1, alloc_count := alloc_count s - 1\<rparr>) = Some y"
        using f by simp
      from ih [OF this] c show False by simp
    qed
  qed
  then show ?thesis using assms by (cases "tmr_cleanup t") auto
qed

lemma cancel_free:
  \<comment> \<open>cancelling the only free timer\<close>
  assumes "free_timers s = Some b" "tm_prev (heap s b) = None" "tm_next (heap s b) = None" "tm_hash (heap s b) = h"
  shows "free_timers (tmr_cancel b s) = Some b" "tm_next (heap (tmr_cancel b s) b) = Some b" "timers (tmr_cancel b s) h = None"
  using assms by (simp_all add: tmr_cancel_def l_remove_def Let_def)

text \<open>C31: \<open>tmr_run\<close> saves the next timer before it runs a procedure. If the procedure of a periodic timer cancels just that timer, as
  \<open>idle\<close> does when it gives up a paused connection whose time to wake up has come, the timer runs and is cancelled a second
  time: the rest of its list is lost, so that the timers in it never fire, and the free list points to itself, so that
  \<open>tmr_cleanup\<close> frees the same timer again and again without end.\<close>

theorem saved_timer_cancelled_twice:
  assumes "tmr_ok B [] s" "h < HASH_SIZE" "B h = a # b # r" "tm_time (heap s a) \<le> nowP" "tm_time (heap s b) \<le> nowP"
    "periodic (heap s a)" "\<not> periodic (heap s b)"
    "pr (timer_proc (heap s a)) (client_data (heap s a)) nowP (s, w) = (tmr_cancel b s, w1)"
    "\<And>t. fst (pr (timer_proc (heap s b)) (client_data (heap s b)) nowP (t, w1)) = t"
  shows "\<exists>t w2. run_bucket pr nowP (timers s h) (s, w) = Some (t, w2) \<and> timers t h = None \<and>
    free_timers t = Some b \<and> tm_next (heap t b) = Some b \<and> tmr_cleanup t = None"
proof -
  have l: "lists_ok B [] s" using assms(1) by (simp add: tmr_ok_def)
  note k = bucket_okD [OF lists_okD(1) [OF l assms(2)], unfolded assms(3)]
  have hd: "timers s h = Some a" and nx: "tm_next (heap s a) = Some b" and ne: "a \<noteq> b" "b \<notin> set r"
    using k(1,2,3) by auto
  have hb: "tm_hash (heap s b) = h" using k(5) [of b] by simp
  let ?s1 = "tmr_cancel b s" and ?B = "B(h := a # r)"
  have b: "b \<in> set (B h)" using assms(3) by simp
  have "remove1 b (B h) = a # r" using assms(3) ne by simp
  then have s1: "tmr_ok ?B [b] ?s1" using cancel_ok [OF assms(1) b] by simp
  have same: "same_data (heap s) (heap ?s1)" by (rule cancel_same [OF assms(1) b])
  have a1: "a \<in> set (?B h)" by simp
  let ?x = "add_msecs (tm_time (heap ?s1 a)) (msecs (heap ?s1 a))"
  have u: "upd a (\<lambda>r. r\<lparr>tm_time := add_msecs (tm_time r) (msecs r)\<rparr>) ?s1 = upd a (\<lambda>r. r\<lparr>tm_time := ?x\<rparr>) ?s1" by (simp add: upd_def)
  obtain s2 B2 where s2: "l_resort a (upd a (\<lambda>r. r\<lparr>tm_time := ?x\<rparr>) ?s1) = Some s2" "tmr_ok B2 [b] s2"
    using resort_ok [OF s1 a1, of ?x] by blast
  have nb: "b \<notin> set (?B i)" for i using ne lists_okD(2) [of ?B "[b]" ?s1 i] s1 by (auto simp: tmr_ok_def)
  have h2: "heap s2 b = heap ?s1 b" by (rule resort_frame [OF s1 a1 nb s2(1)])
  have c2: "chain (heap s2) (free_timers s2) [b]" using s2(2) lists_okD(4) [of B2 "[b]" s2] unfolding tmr_ok_def by blast
  then have f2: "free_timers s2 = Some b" "tm_next (heap s2 b) = None" by simp_all
  have p2: "tm_prev (heap s2 b) = None" by (simp add: h2 tmr_cancel_def Let_def)
  note d = same_dataD [OF same, of b]
  have hash2: "tm_hash (heap s2 b) = h" "tm_time (heap s2 b) = tm_time (heap s b)" "periodic (heap s2 b) = periodic (heap s b)"
    "timer_proc (heap s2 b) = timer_proc (heap s b)" "client_data (heap s2 b) = client_data (heap s b)"
    using d hb by (simp_all add: h2)
  let ?t = "tmr_cancel b s2"
  note c = cancel_free [OF f2(1) p2 f2(2) hash2(1)]
  have pa: "periodic (heap ?s1 a)" using same_dataD [OF same, of a] assms(6) by simp
  have due: "\<not> nowP < tm_time (heap s a)" "\<not> nowP < tm_time (heap s b)" using assms(4,5) by simp_all
  have one: "run_bucket pr nowP (timers s h) (s, w) = run_bucket pr nowP (Some b) (s2, w1)"
    using assms(8) due(1) hd nx pa s2(1) by (simp add: run_bucket.simps [of _ _ "Some a"] Let_def u)
  have two: "run_bucket pr nowP (Some b) (s2, w1) = Some (?t, w2)"
    if "pr (timer_proc (heap s b)) (client_data (heap s b)) nowP (s2, w1) = (s2, w2)" for w2
    using that assms(7,9) due(2) f2(2) hash2
    by (simp add: run_bucket.simps [of _ _ "Some b"] run_bucket.simps [of _ _ None] Let_def)
  obtain w2 where "pr (timer_proc (heap s b)) (client_data (heap s b)) nowP (s2, w1) = (s2, w2)"
    using assms(9) [of s2] by (cases "pr (timer_proc (heap s b)) (client_data (heap s b)) nowP (s2, w1)") auto
  from two [OF this] show ?thesis using one c cleanup_cyclic [OF c(1,2)] by auto
qed

definition timer_three :: tmr where
  \<comment> \<open>the idle timer at 1, the one that wakes up connection 0 at 2, due at the same time, and a later one at 3\<close>
  "timer_three = \<lparr>heap = (\<lambda>a. if a = 1 then \<lparr>timer_proc = proc_id Idle, client_data = 0, msecs = 5000, periodic = True,
       tm_time = Timeval 5 0, tm_prev = None, tm_next = Some 2, tm_hash = 5\<rparr>
     else if a = 2 then \<lparr>timer_proc = proc_id Wakeup, client_data = 0, msecs = 5000, periodic = False,
       tm_time = Timeval 5 0, tm_prev = Some 1, tm_next = Some 3, tm_hash = 5\<rparr>
     else \<lparr>timer_proc = proc_id Wakeup, client_data = 1, msecs = 400000, periodic = False,
       tm_time = Timeval 474 0, tm_prev = Some 2, tm_next = None, tm_hash = 5\<rparr>),
     timers = (\<lambda>h. if h = 5 then Some 1 else None), free_timers = None, alloc_count = 3, active_count = 3, free_count = 0\<rparr>"

definition some_data :: stat_data where
  "some_data = \<lparr>st_ino = 7, st_dev = 2, st_size = 100, st_ctime = 9\<rparr>"

definition paused_srv :: srv where
  \<comment> \<open>a connection that sends a mapped file, without activity for 400 seconds\<close>
  "paused_srv = new_srv\<lparr>num_connects := 1,
     connects := [new_conn\<lparr>conn_state := CNST_PAUSING, wakeup_timer := Some 2, the_sb := old_stat\<lparr>st_data := some_data\<rparr>,
       the_hc := Some ((get_conn_for ''a.html'')\<lparr>file_address := Some 4096, conn_fd := 5\<rparr>)\<rparr>],
     the_world := (the_world new_srv)\<lparr>w_tmr := timer_three,
       w_mmc := snd (the (mmc_map (five_bytes\<lparr>stat_result := Some some_data, map_now := 100\<rparr>) mmc_start))\<rparr>\<rparr>"

lemma three_ok: "tmr_ok ((\<lambda>h. [])(5 := [1, 2, 3])) [] timer_three"
  by (simp add: tmr_ok_def lists_ok_def bucket_ok_def timer_three_def active_def by_time_def hash_def HASH_SIZE_def less_eq_timeval_def
      if_distrib [of length] cong: if_cong)

lemma paused_unmap: "\<exists>m. mmc_unmap 4096 (Some some_data) 400 (w_mmc (the_world paused_srv)) = Some m"
proof -
  have "\<not> Option.is_none (mmc_unmap 4096 (Some some_data) 400 (w_mmc (the_world paused_srv)))" by code_simp
  then show ?thesis by (simp add: Option.is_none_def)
qed

lemma idle_cancels: "tmr_of (idle quiet_env (Timeval 400 0) paused_srv) = tmr_cancel 2 timer_three"
proof -
  let ?m = "w_mmc (the_world paused_srv)"
  obtain m where m: "mmc_unmap 4096 (Some some_data) 400 ?m = Some m" using paused_unmap by blast
  have s: "ended paused_srv = None" "length (connects paused_srv) = 1" "conn_state (connects paused_srv ! 0) = CNST_PAUSING"
    "active_at (connects paused_srv ! 0) = 0" "wakeup_timer (connects paused_srv ! 0) = Some 2" "tmr_of paused_srv = timer_three"
    "linger_timer (connects paused_srv ! 0) = None"
    "file_address (conn_hc paused_srv 0) = Some 4096" "st_data (the_sb (connects paused_srv ! 0)) = some_data"
    by (simp_all add: paused_srv_def new_srv_def new_conn_def conn_hc_def get_conn_for_def with_request_def)
  have l: "\<not> should_linger (conn_hc paused_srv 0)" by code_simp
  have "idle quiet_env (Timeval 400 0) paused_srv = clear_connection quiet_env (Timeval 400 0) 0 paused_srv"
    using s(1-4) by (simp add: idle_def next_do_def idle_one_def IDLE_SEND_TIMELIMIT_def)
  moreover have "tmr_of (clear_connection quiet_env (Timeval 400 0) 0 paused_srv) = tmr_cancel 2 timer_three"
    using s l m by (simp add: clear_connection_def stop_wakeup_def stop_linger_def next_do_def really_clear_connection_def Let_def
      httpd_close_conn_def free_slot_def drop_linger_def set_hc_def set_conn_def set_tmr_def conn_hc_def)
  ultimately show ?thesis by simp
qed

theorem saved_timer_cancelled_twice_witness:
  "\<exists>t w. run_bucket (procs quiet_env) (Timeval 400 0) (Some 1) (timer_three, paused_srv) = Some (t, w) \<and> timers t 5 = None \<and>
    free_timers t = Some 2 \<and> tm_next (heap t 2) = Some 2 \<and> tmr_cleanup t = None"
proof -
  let ?w = "idle quiet_env (Timeval 400 0) paused_srv"
  have live: "ended paused_srv = None" "set_tmr timer_three paused_srv = paused_srv"
    by (simp_all add: paused_srv_def new_srv_def set_tmr_def)
  have "timers timer_three 5 = Some 1" by (simp add: timer_three_def)
  moreover have "\<exists>t w. run_bucket (procs quiet_env) (Timeval 400 0) (timers timer_three 5) (timer_three, paused_srv) = Some (t, w) \<and>
      timers t 5 = None \<and> free_timers t = Some 2 \<and> tm_next (heap t 2) = Some 2 \<and> tmr_cleanup t = None"
  proof (rule saved_timer_cancelled_twice [OF three_ok])
    show "procs quiet_env (timer_proc (heap timer_three 1)) (client_data (heap timer_three 1)) (Timeval 400 0) (timer_three, paused_srv) =
        (tmr_cancel 2 timer_three, ?w)"
      using live idle_cancels by (simp add: procs_def next_do_def run_proc_def timer_three_def Let_def)
    show "fst (procs quiet_env (timer_proc (heap timer_three 2)) (client_data (heap timer_three 2)) (Timeval 400 0) (t, ?w)) = t" for t
      by (simp add: procs_def next_do_def run_proc_def timer_three_def Let_def wakeup_connection_def set_conn_def set_tmr_def add_fd_def stop_def split: option.split)
  qed (simp_all add: timer_three_def HASH_SIZE_def less_eq_timeval_def)
  ultimately show ?thesis by simp
qed

end
