(* ===== verification/Th_Interpose.thy ===== *)
theory Th_Interpose
  imports Th_Start
begin

text \<open>
  The processes between a CGI program and its client, \<open>src/others/thttpd-2.29/libhttpd.c\<close>:
  \<open>cgi_interpose_input\<close> passes the body of a POST request on, \<open>cgi_interpose_output\<close> reads the headers that a
  program prints, makes a status line of them and forwards everything. A descriptor that is read is the bytes that
  will come, with a list of answers that cut them; behind the list every call takes all it can, so every loop
  ends with its bytes. A buffer is a byte list with its allocated size; bytes behind what was read are not looked at,
  except where \<open>Unset\<close> says so.
\<close>

section \<open>Reading and writing whole buffers\<close>

datatype io =
    Again  \<comment> \<open>\<open>EINTR\<close> or \<open>EAGAIN\<close>\<close>
  | Upto nat  \<comment> \<open>so many bytes at most\<close>
  | Broken  \<comment> \<open>another error\<close>

fun next_read :: "nat \<Rightarrow> io list \<Rightarrow> string \<Rightarrow> string \<times> io list \<times> string" where
  \<comment> \<open>\<open>read\<close> of a buffer's size with the \<open>sleep(1); continue;\<close> around it: what was read, where an
      error counts as the end of the file as it does in the loops below, and the answers and bytes left.
      Behind the answers every call takes all it can.\<close>
  "next_read n [] bs = (take n bs, [], drop n bs)"
| "next_read n (Again # rs) bs = next_read n rs bs"
| "next_read n (Upto k # rs) bs = (take (min n k) bs, rs, drop (min n k) bs)"
| "next_read n (Broken # rs) bs = ([], rs, bs)"

fun read_once :: "nat \<Rightarrow> io list \<Rightarrow> string \<Rightarrow> io list \<times> string" where
  \<comment> \<open>a single \<open>read\<close>, whose bytes are dropped\<close>
  "read_once n [] bs = ([], drop n bs)"
| "read_once n (Upto k # rs) bs = (rs, drop (min n k) bs)"
| "read_once n (_ # rs) bs = (rs, bs)"

function write_loop :: "nat \<Rightarrow> io list \<Rightarrow> string \<Rightarrow> int \<times> string \<times> io list" where
  \<comment> \<open>\<open>nwritten\<close>, the answers and the bytes left; what is returned, the bytes written, the answers left\<close>
  "write_loop n [] s = (int (n + length s), s, [])"
| "write_loop n (a # os) [] = (int n, [], a # os)"
| "write_loop n (Again # os) (c # s) = write_loop n os (c # s)"
| "write_loop n (Broken # os) (c # s) = (- 1, [], os)"
| "write_loop n (Upto 0 # os) (c # s) = (int n, [], os)"
| "write_loop n (Upto (Suc k) # os) (c # s) =
     (let m = min (Suc k) (length (c # s))
      in case write_loop (n + m) os (drop m (c # s)) of (r, t, os1) \<Rightarrow> (r, take m (c # s) @ t, os1))"
  by pat_completeness auto
termination by (relation "measure (\<lambda>(n, os, s). length os)") auto

definition httpd_write_fully :: "io list \<Rightarrow> string \<Rightarrow> int \<times> string \<times> io list" where
  "httpd_write_fully os s = write_loop 0 os s"

lemma next_read_split: "next_read n rs bs = (ch, rs1, bs1) \<Longrightarrow> bs = ch @ bs1 \<and> length ch \<le> n"
  by (induction n rs bs rule: next_read.induct) auto

lemma next_read_less: "(ch, rs1, bs1) = next_read n rs bs \<Longrightarrow> ch \<noteq> [] \<Longrightarrow> length bs1 < length bs"
  using next_read_split [of n rs bs ch rs1 bs1] by auto

function echo :: "io list \<Rightarrow> string \<Rightarrow> io list \<Rightarrow> string" where
  \<comment> \<open>the last loop of \<open>cgi_interpose_output\<close>: the bytes that reach the client\<close>
  "echo rs bs os =
     (case next_read 1024 rs bs of
        (ch, rs1, bs1) \<Rightarrow>
          if ch = [] then []
          else (case httpd_write_fully os ch of
                  (r, t, os1) \<Rightarrow> t @ (if r \<noteq> int (length ch) then [] else echo rs1 bs1 os1)))"
  by pat_completeness auto
termination by (relation "measure (\<lambda>(rs, bs, os). length bs)") (auto dest!: next_read_less)

declare echo.simps [simp del]

section \<open>A program's input\<close>

function input_loop :: "nat \<Rightarrow> nat \<Rightarrow> io list \<Rightarrow> string \<Rightarrow> io list \<Rightarrow> string \<times> (io list \<times> string) option" where
  \<comment> \<open>\<open>c\<close>, \<open>contentlength\<close>, the answers and bytes of the connection, the answers of the pipe; the bytes
      written, and what is left of the connection if the loop came to its end\<close>
  "input_loop c cl rs bs os =
     (if c < cl
      then (case next_read (min 1024 (cl - c)) rs bs of
              (ch, rs1, bs1) \<Rightarrow>
                if ch = [] then ([], None)
                else (case httpd_write_fully os ch of
                        (r, t, os1) \<Rightarrow>
                          if r \<noteq> int (length ch) then (t, None)
                          else (case input_loop (c + length ch) cl rs1 bs1 os1 of (u, e) \<Rightarrow> (t @ u, e))))
      else ([], Some (rs, bs)))"
  by pat_completeness auto
termination by (relation "measure (\<lambda>(c, cl, rs, bs, os). length bs)") (auto dest!: next_read_less)

declare input_loop.simps [simp del]

definition post_post_garbage_hack :: "io list \<Rightarrow> string \<Rightarrow> string" where
  \<comment> \<open>the bytes left in the connection\<close>
  "post_post_garbage_hack rs bs = snd (read_once 2 rs bs)"

definition cgi_interpose_input :: "http_conn \<Rightarrow> io list \<Rightarrow> string \<Rightarrow> io list \<Rightarrow> string \<times> string option" where
  \<comment> \<open>the bytes that reach the program, and those left in the connection when the loop came to its end\<close>
  "cgi_interpose_input hc rs bs os =
     (let c = read_idx hc - checked_idx hc;
          (r, t, os1) = httpd_write_fully os (take c (drop (checked_idx hc) (read_buf hc)))
      in if 0 < c \<and> r \<noteq> int c then (t, None)
         else (case input_loop c (unat (contentlength hc)) rs bs os1 of
                 (u, e) \<Rightarrow> (t @ u, map_option (\<lambda>(rs, bs). post_post_garbage_hack rs bs) e)))"

section \<open>A program's output\<close>

definition head_end :: "string \<Rightarrow> nat option" where
  \<comment> \<open>\<open>br\<close> as an index of \<open>headers\<close>\<close>
  "head_end h =
     (case find_sub (CRLF @ CRLF) (cstr h) of
        Some k \<Rightarrow> Some k
      | None \<Rightarrow> find_sub [LF, LF] (cstr h))"

function slurp :: "strbuf \<Rightarrow> io list \<Rightarrow> string \<Rightarrow> (strbuf \<times> nat \<times> io list \<times> string) option" where
  \<comment> \<open>\<open>None\<close> when the bytes and their NUL do not fit the buffer\<close>
  "slurp b rs bs =
     (case next_read 1024 rs bs of
        (ch, rs1, bs1) \<Rightarrow>
          if ch = [] then Some (b, length (str b), rs1, bs1)
          else (case strcpy (httpd_realloc_str (length (str b) + length ch) b) (str b @ ch) of
                  None \<Rightarrow> None
                | Some b1 \<Rightarrow>
                    (case head_end (str b1) of
                       Some br \<Rightarrow> Some (b1, br, rs1, bs1)
                     | None \<Rightarrow> slurp b1 rs1 bs1)))"
  by pat_completeness auto
termination by (relation "measure (\<lambda>(b, rs, bs). length bs)") (auto dest!: next_read_less)

declare slurp.simps [simp del]

definition header_at :: "string \<Rightarrow> string \<Rightarrow> nat \<Rightarrow> nat option" where
  \<comment> \<open>the first occurrence of the name, if it lies before \<open>br\<close> and at the start of a line\<close>
  "header_at n h br =
     (case find_sub n h of
        None \<Rightarrow> None
      | Some k \<Rightarrow> if k < br \<and> (k = 0 \<or> h ! (k - 1) = LF) then Some k else None)"

definition blank_or_tab :: "char \<Rightarrow> bool" where
  "blank_or_tab c \<longleftrightarrow> c = CHR '' '' \<or> c = CHR 0x09"

definition cgi_status :: "string \<Rightarrow> nat \<Rightarrow> int" where
  \<comment> \<open>of the C string \<open>headers\<close> and \<open>br\<close>\<close>
  "cgi_status h br =
     (case header_at ''Status:'' h br of
        Some k \<Rightarrow> atoi (dropWhile blank_or_tab (drop (k + 7) h))
      | None \<Rightarrow>
          if header_at ''Location:'' h br \<noteq> None then 302
          else if strneq h ''HTTP/'' 5 then atoi (dropWhile (\<lambda>c. \<not> blank_or_tab c) h)
          else 200)"

definition err451title :: string where "err451title = ''Unavailable For Legal Reasons''"

definition cgi_title :: "int \<Rightarrow> string" where
  "cgi_title st =
     (if st = 200 then ok200title else if st = 302 then err302title else if st = 304 then err304title
      else if st = 400 then err400title else if st = 401 then err401title else if st = 403 then err403title
      else if st = 404 then err404title else if st = 408 then err408title else if st = 451 then err451title
      else if st = 500 then err500title else if st = 501 then err501title else if st = 503 then err503title
      else ''Something'')"

definition status_line :: "int \<Rightarrow> string" where
  "status_line st = snprintf 1024 (''HTTP/1.0 '' @ dec_int st @ '' '' @ cgi_title st @ CRLF)"

datatype interposed =
    To_client string
  | Unset  \<comment> \<open>the contents of fresh memory decide\<close>
  | Overrun

definition cgi_interpose_output :: "io list \<Rightarrow> string \<Rightarrow> io list \<Rightarrow> interposed" where
  \<comment> \<open>the answers for the pipe, what the program writes, the answers of the connection\<close>
  "cgi_interpose_output rs bs os =
     (case slurp (httpd_realloc_str 500 \<lparr>str = [], maxsize = 0\<rparr>) rs bs of
        None \<Rightarrow> Overrun
      | Some (b, br, rs1, bs1) \<Rightarrow>
          if str b = [] then Unset
          else if hd (str b) = NUL then To_client []
          else (case httpd_write_fully os (status_line (cgi_status (cstr (str b)) br)) of
                  (r, t, os1) \<Rightarrow>
                    (case httpd_write_fully os1 (str b) of
                       (r2, t2, os2) \<Rightarrow> To_client (t @ t2 @ echo rs1 bs1 os2))))"

section \<open>Steady answers\<close>

definition steady :: "io list \<Rightarrow> bool" where
  \<comment> \<open>no call fails or returns 0 before the end\<close>
  "steady rs \<longleftrightarrow> Broken \<notin> set rs \<and> Upto 0 \<notin> set rs"

lemma steady_simps [simp]:
  "steady []" "steady (a # rs) \<longleftrightarrow> a \<noteq> Broken \<and> a \<noteq> Upto 0 \<and> steady rs"
  by (auto simp: steady_def)

lemma read_steady:
  "next_read n rs bs = (ch, rs1, bs1) \<Longrightarrow> steady rs \<Longrightarrow> 0 < n \<Longrightarrow> steady rs1 \<and> (ch = [] \<longleftrightarrow> bs = [])"
  by (induction n rs bs rule: next_read.induct) auto

lemma write_steady: "steady os \<Longrightarrow> \<exists>os1. write_loop n os s = (int (n + length s), s, os1) \<and> steady os1"
proof (induction n os s rule: write_loop.induct)
  case (6 n k os c s)
  let ?m = "min (Suc k) (length (c # s))"
  obtain os1 where "write_loop (n + ?m) os (drop ?m (c # s)) = (int (n + ?m + length (drop ?m (c # s))), drop ?m (c # s), os1)" "steady os1"
    using 6(1) [OF refl] 6(2) by auto
  moreover have "n + ?m + length (drop ?m (c # s)) = n + length (c # s)" by simp
  ultimately show ?case by (simp add: Let_def append_take_drop_id del: drop_Suc_Cons take_Suc_Cons)
qed auto

lemma write_all:
  assumes "steady os"
  obtains os1 where "httpd_write_fully os s = (int (length s), s, os1)" "steady os1"
  using write_steady [OF assms, of 0 s] by (auto simp: httpd_write_fully_def)

lemma echo_steady: "steady rs \<Longrightarrow> steady os \<Longrightarrow> echo rs bs os = bs"
proof (induction rs bs os rule: echo.induct)
  case (1 rs bs os)
  obtain ch rs1 bs1 where r: "next_read 1024 rs bs = (ch, rs1, bs1)" using prod_cases3 by blast
  obtain os1 where w: "httpd_write_fully os ch = (int (length ch), ch, os1)" "steady os1" using write_all [OF 1(3)] .
  from read_steady [OF r 1(2)] have s: "steady rs1" "ch = [] \<longleftrightarrow> bs = []" by simp_all
  show ?case
  proof (cases "ch = []")
    case False
    from 1(1) [OF r [symmetric] refl False w(1) [symmetric] refl _ s(1) w(2)]
    have "echo rs bs os = ch @ bs1" by (subst echo.simps) (simp add: r w False)
    then show ?thesis using next_read_split [OF r] by simp
  next
    case True
    have "echo rs bs os = []" by (subst echo.simps) (simp add: r True)
    then show ?thesis using s True by simp
  qed
qed

lemma input_steady:
  "steady rs \<Longrightarrow> steady os \<Longrightarrow> fst (input_loop c cl rs bs os) = take (cl - c) bs"
proof (induction c cl rs bs os rule: input_loop.induct)
  case (1 c cl rs bs os)
  show ?case
  proof (cases "c < cl")
    case True
    obtain ch rs1 bs1 where r: "next_read (min 1024 (cl - c)) rs bs = (ch, rs1, bs1)" using prod_cases3 by blast
    obtain os1 where w: "httpd_write_fully os ch = (int (length ch), ch, os1)" "steady os1" using write_all [OF 1(3)] .
    from read_steady [OF r 1(2)] True have s: "steady rs1" "ch = [] \<longleftrightarrow> bs = []" by simp_all
    show ?thesis
    proof (cases "ch = []")
      case False
      from 1(1) [OF True r [symmetric] refl False w(1) [symmetric] refl _ s(1) w(2)]
      have "fst (input_loop c cl rs bs os) = ch @ take (cl - (c + length ch)) bs1"
        using True by (subst input_loop.simps) (simp add: r w False case_prod_beta)
      then show ?thesis using next_read_split [OF r] by simp
    next
      case nil: True
      have "fst (input_loop c cl rs bs os) = []" using True by (subst input_loop.simps) (simp add: r nil)
      then show ?thesis using s nil by simp
    qed
  qed (subst input_loop.simps, simp)
qed

definition early :: "http_conn \<Rightarrow> string" where
  \<comment> \<open>what was read with the headers\<close>
  "early hc = take (read_idx hc - checked_idx hc) (drop (checked_idx hc) (read_buf hc))"

text \<open>C34: A program reads, however its pipe and the connection cut them, exactly the bytes of the request
  behind the headers up to its Content-Length, or all that came with the headers when that is more.\<close>

theorem cgi_input_exact:
  assumes "steady rs" "steady os" "read_idx hc \<le> length (read_buf hc)"
  shows "fst (cgi_interpose_input hc rs bs os) =
    take (max (unat (contentlength hc)) (length (early hc))) (early hc @ bs)"
proof -
  let ?n = "unat (contentlength hc)"
  have l: "read_idx hc - checked_idx hc = length (early hc)" using assms(3) by (simp add: early_def)
  have t: "take (read_idx hc - checked_idx hc) (drop (checked_idx hc) (read_buf hc)) = early hc" by (simp add: early_def)
  obtain os1 where w: "httpd_write_fully os (early hc) = (int (length (early hc)), early hc, os1)" "steady os1"
    using write_all [OF assms(2)] .
  have "fst (cgi_interpose_input hc rs bs os) = early hc @ take (?n - length (early hc)) bs"
    using input_steady [OF assms(1) w(2), of "length (early hc)" ?n bs] w(1)
    unfolding cgi_interpose_input_def Let_def t unfolding l by (simp add: Let_def case_prod_beta)
  then show ?thesis by (simp add: max_def)
qed

section \<open>What the client sees\<close>

lemma head_end_Some: "head_end h = Some k \<Longrightarrow> h \<noteq> []"
  by (auto simp: head_end_def CRLF_def)

lemma slurp_whole:
  assumes "steady rs"
  shows "\<exists>b1 br rs1 bs1. slurp b rs bs = Some (b1, br, rs1, bs1) \<and> str b @ bs = str b1 @ bs1 \<and> steady rs1 \<and>
    (str b1 = [] \<longleftrightarrow> str b = [] \<and> bs = [])"
  using assms
proof (induction b rs bs rule: slurp.induct)
  case (1 b rs bs)
  obtain ch rs1 bs1 where r: "next_read 1024 rs bs = (ch, rs1, bs1)" using prod_cases3 by blast
  from read_steady [OF r 1(2)] have s: "steady rs1" "ch = [] \<longleftrightarrow> bs = []" by simp_all
  show ?case
  proof (cases "ch = []")
    case True
    then have "slurp b rs bs = Some (b, length (str b), rs1, bs1)" by (subst slurp.simps) (simp add: r)
    then show ?thesis using s True next_read_split [OF r] by simp
  next
    case False
    let ?b = "httpd_realloc_str (length (str b) + length ch) b"
    obtain b1 where b1: "strcpy ?b (str b @ ch) = Some b1" "str b1 = str b @ ch"
      using realloc_size [of "length (str b) + length ch" b] by (simp add: strcpy_def)
    have eq: "str b @ bs = str b1 @ bs1" "str b1 \<noteq> []" "bs \<noteq> []" "bs1 = [] \<longrightarrow> str b1 \<noteq> []"
      using b1(2) False next_read_split [OF r] by auto
    show ?thesis
    proof (cases "head_end (str b1)")
      case None
      have "slurp b rs bs = slurp b1 rs1 bs1" by (subst slurp.simps) (simp add: r False b1(1) None)
      with 1(1) [OF r [symmetric] refl False b1(1) None s(1)] eq show ?thesis by metis
    next
      case (Some br)
      have "slurp b rs bs = Some (b1, br, rs1, bs1)" by (subst slurp.simps) (simp add: r False b1(1) Some)
      with eq s(1) show ?thesis by blast
    qed
  qed
qed

lemma forwarded:
  assumes "slurp (httpd_realloc_str 500 \<lparr>str = [], maxsize = 0\<rparr>) rs bs = Some (b, br, rs1, bs1)" "str b \<noteq> []"
    "steady rs1" "steady os"
  shows "cgi_interpose_output rs bs os =
    (if hd (str b) = NUL then To_client []
     else To_client (status_line (cgi_status (cstr (str b)) br) @ str b @ bs1))"
proof -
  let ?l = "status_line (cgi_status (cstr (str b)) br)"
  obtain os1 where w1: "httpd_write_fully os ?l = (int (length ?l), ?l, os1)" "steady os1" using write_all [OF assms(4)] .
  obtain os2 where w2: "httpd_write_fully os1 (str b) = (int (length (str b)), str b, os2)" "steady os2"
    using write_all [OF w1(2)] .
  show ?thesis
    using assms(2) by (simp add: cgi_interpose_output_def assms(1) w1(1) w2(1) echo_steady [OF assms(3) w2(2)])
qed

text \<open>C33: What a program writes reaches the client unchanged behind one status line, however it is cut; nothing
  is sent when the first byte is a NUL, and a program that writes nothing makes the server look at memory it never set.\<close>

theorem cgi_output_forwarded:
  assumes "steady rs" "steady os"
  shows "case bs of
      [] \<Rightarrow> cgi_interpose_output rs bs os = Unset
    | c # _ \<Rightarrow>
        if c = NUL then cgi_interpose_output rs bs os = To_client []
        else \<exists>st. cgi_interpose_output rs bs os = To_client (status_line st @ bs)"
proof -
  let ?b = "httpd_realloc_str 500 \<lparr>str = [], maxsize = 0\<rparr>"
  have e: "str ?b = []" by (simp add: realloc_str)
  from slurp_whole [OF assms(1), of ?b bs] obtain b br rs1 bs1
    where s: "slurp ?b rs bs = Some (b, br, rs1, bs1)" "bs = str b @ bs1" "steady rs1" "str b = [] \<longleftrightarrow> bs = []"
    unfolding e by auto
  show ?thesis
  proof (cases "bs")
    case Nil
    with s(4) have "str b = []" by blast
    then have "cgi_interpose_output rs bs os = Unset" unfolding cgi_interpose_output_def s(1) by simp
    then show ?thesis unfolding Nil list.case .
  next
    case (Cons c t)
    then have "str b \<noteq> []" using s(4) by (metis list.distinct(1))
    then have h: "str b \<noteq> []" "hd (str b) = c" using arg_cong [OF s(2), of hd] by (simp_all add: Cons)
    let ?l = "status_line (cgi_status (cstr (str b)) br)"
    have "cgi_interpose_output rs bs os = (if c = NUL then To_client [] else To_client (?l @ bs))"
      using forwarded [OF s(1) h(1) s(3) assms(2)] unfolding h(2) s(2) [symmetric] .
    then show ?thesis unfolding Cons list.case by (cases "c = NUL") auto
  qed
qed

section \<open>The status\<close>

lemma find_sub_at: "\<not> occurs n (a @ butlast n) \<Longrightarrow> n \<noteq> [] \<Longrightarrow> find_sub n (a @ n @ x) = Some (length a)"
proof (induction a)
  case Nil
  then show ?case by (cases n) auto
next
  case (Cons c a)
  have "take (length n) (c # a @ n @ x) = take (length n) (c # a @ butlast n)"
    using Cons.prems(2) by (cases n rule: rev_cases) auto
  moreover have "take (length n) (c # a @ butlast n) \<noteq> n"
    using Cons.prems(1) by (auto simp: starts_def)
  ultimately show ?case using Cons by auto
qed

lemma find_sub_prefix: "find_sub n a = Some k \<Longrightarrow> n \<noteq> [] \<Longrightarrow> find_sub n (a @ x) = Some k"
proof (induction a arbitrary: k)
  case (Cons c a)
  show ?case
  proof (cases "take (length n) (c # a) = n")
    case True
    then have "take (length n) (c # a @ x) = n" using starts_prefix [of n "c # a" x] by (simp add: starts_def)
    then show ?thesis using True Cons.prems by simp
  next
    case False
    with Cons.prems obtain j where j: "find_sub n a = Some j" "k = Suc j" by auto
    have "take (length n) (c # a @ x) \<noteq> n"
    proof
      assume "take (length n) (c # a @ x) = n"
      moreover have "take (length n) ((c # a) @ x) = take (length n) (c # a)"
        unfolding take_append using find_sub_length [OF j(1)] by simp
      ultimately show False using False by simp
    qed
    then show ?thesis using Cons.IH [OF j(1)] Cons.prems(2) j(2) by simp
  qed
qed simp

lemma find_sub_beyond:
  assumes "find_sub n a = None" "find_sub n (a @ c # x) = Some k" "c \<notin> set n"
  shows "length a \<le> k"
proof (rule ccontr)
  assume k: "\<not> length a \<le> k"
  from find_sub_split [OF assms(2)] obtain p q where s: "a @ c # x = p @ n @ q" "length p = k" .
  with k obtain r where r: "a = p @ r" "r @ c # x = n @ q" by (auto simp: append_eq_append_conv2)
  have "length r < length n"
  proof (rule ccontr)
    assume "\<not> length r < length n"
    then have "r = n @ drop (length n) r" using arg_cong [OF r(2), of "take (length n)"] append_take_drop_id [of "length n" r] by simp
    then have "occurs n a" unfolding occurs_def r(1) by blast
    with assms(1) show False by (simp add: find_sub_None)
  qed
  moreover have "(r @ c # x) ! length r = c" by simp
  ultimately have "n ! length r = c" unfolding r(2) by (simp add: nth_append)
  with \<open>length r < length n\<close> assms(3) show False by (metis nth_mem)
qed

lemma header_at_head:
  assumes "n \<noteq> []" "c \<notin> set n"
  shows "header_at n (h @ c # x) (length h) = header_at n h (length h)"
proof (cases "find_sub n h")
  case None
  then show ?thesis using find_sub_beyond [OF None _ assms(2)] 
    by (fastforce simp: header_at_def split: option.split)
next
  case (Some k)
  then have "k < length h" using find_sub_length [OF Some] assms(1) by (cases n) auto
  then show ?thesis using find_sub_prefix [OF Some assms(1), of "c # x"] by (auto simp: header_at_def Some nth_append)
qed

definition valued :: "string \<Rightarrow> bool" where
  "valued s \<longleftrightarrow> (\<exists>c\<in>set s. \<not> isspace c)"

definition header_block :: "string \<Rightarrow> bool" where
  \<comment> \<open>header lines that end before the first blank line, in which a status is not empty\<close>
  "header_block h \<longleftrightarrow>
     NUL \<notin> set h \<and> \<not> occurs [LF, LF] h \<and> \<not> occurs (CRLF @ CRLF) (h @ [CR, LF, CR]) \<and>
     (case header_at ''Status:'' h (length h) of None \<Rightarrow> True | Some k \<Rightarrow> valued (drop (k + 7) h)) \<and>
     (take 5 h = ''HTTP/'' \<longrightarrow> valued (dropWhile (\<lambda>c. \<not> blank_or_tab c) h))"

lemma digits_val_CR: "digits_val 10 n (t @ CR # x) = digits_val 10 n t"
  by (induction "10 :: nat" n t rule: digits_val.induct) (simp_all add: char_eval)

lemma atoi_CR: "valued s \<Longrightarrow> atoi (s @ CR # x) = atoi s"
proof -
  assume "valued s"
  then obtain c where c: "c \<in> set s" "\<not> isspace c" by (auto simp: valued_def)
  then have d: "dropWhile isspace (s @ CR # x) = dropWhile isspace s @ CR # x" by (rule dropWhile_append1)
  from c obtain a t where t: "dropWhile isspace s = a # t" by (cases "dropWhile isspace s") auto
  have "digits_val 10 0 ((a # t) @ CR # x) = digits_val 10 0 (a # t)" by (rule digits_val_CR)
  then show ?thesis by (simp add: atoi_def strtol_raw_def d t digits_val_CR del: digits_val.simps)
qed

lemma valued_skip: "valued s \<Longrightarrow> valued (dropWhile blank_or_tab s) \<and> dropWhile blank_or_tab (s @ x) = dropWhile blank_or_tab s @ x"
proof -
  assume "valued s"
  then obtain c where c: "c \<in> set s" "\<not> isspace c" by (auto simp: valued_def)
  have "\<not> blank_or_tab c" using c(2) by (auto simp: blank_or_tab_def isspace_def char_eval)
  moreover have "c \<in> set (dropWhile blank_or_tab s)"
    using c(1) \<open>\<not> blank_or_tab c\<close> by (metis Un_iff set_append set_takeWhileD takeWhile_dropWhile_id)
  ultimately show ?thesis using c dropWhile_append1 [OF c(1)] by (auto simp: valued_def)
qed

lemma http_head: "take 5 (h @ CR # x) = ''HTTP/'' \<longleftrightarrow> take 5 h = ''HTTP/''"
proof (cases "5 \<le> length h")
  case False
  then have "CR \<in> set (take 5 (h @ CR # x))" by (simp add: take_Cons')
  moreover have "length (take 5 h) < 5" using False by simp
  moreover have "CR \<notin> set ''HTTP/''" "length ''HTTP/'' = 5" by simp_all
  ultimately show ?thesis by (metis less_irrefl)
qed simp

lemma cgi_status_head:
  assumes "header_block h" "NUL \<notin> set x"
  shows "cgi_status (h @ CR # x) (length h) = cgi_status h (length h)"
proof -
  have hd: "header_at ''Status:'' (h @ CR # x) (length h) = header_at ''Status:'' h (length h)"
    "header_at ''Location:'' (h @ CR # x) (length h) = header_at ''Location:'' h (length h)"
    by (rule header_at_head; simp)+
  have z: "NUL \<notin> set (h @ CR # x)" "NUL \<notin> set h" using assms by (auto simp: header_block_def)
  have "take 5 (cstr ''HTTP/'') = ''HTTP/''" by simp
  then have hh: "strneq (h @ CR # x) ''HTTP/'' 5 \<longleftrightarrow> take 5 h = ''HTTP/''" "strneq h ''HTTP/'' 5 \<longleftrightarrow> take 5 h = ''HTTP/''"
    unfolding strneq_def cstr_id [OF z(1)] cstr_id [OF z(2)] by (simp_all only: http_head)
  show ?thesis
  proof (cases "header_at ''Status:'' h (length h)")
    case (Some k)
    then have v: "valued (drop (k + 7) h)" using assms(1) by (simp add: header_block_def)
    then have "k + 7 \<le> length h" by (cases "k + 7 \<le> length h") (auto simp: valued_def)
    then have "drop (k + 7) (h @ CR # x) = drop (k + 7) h @ CR # x" by simp
    with valued_skip [OF v] show ?thesis by (simp add: cgi_status_def hd Some atoi_CR)
  next
    case None
    show ?thesis
    proof (cases "take 5 h = ''HTTP/''")
      case True
      then have v: "valued (dropWhile (\<lambda>c. \<not> blank_or_tab c) h)" using assms(1) by (simp add: header_block_def)
      then have "dropWhile (\<lambda>c. \<not> blank_or_tab c) h \<noteq> []" by (metis valued_def empty_iff list.set(1))
      then obtain c where "c \<in> set h" "blank_or_tab c" by (auto simp: dropWhile_eq_Nil_conv)
      then have "dropWhile (\<lambda>c. \<not> blank_or_tab c) (h @ CR # x) = dropWhile (\<lambda>c. \<not> blank_or_tab c) h @ CR # x"
        by (intro dropWhile_append1) auto
      with v show ?thesis by (simp add: cgi_status_def hd None hh atoi_CR)
    next
      case False
      then show ?thesis by (simp add: cgi_status_def hd None hh)
    qed
  qed
qed

lemma no_lines: "occurs [LF, LF] (h @ [CR, LF, CR]) = occurs [LF, LF] h"
proof (induction h)
  case (Cons c h)
  then show ?case by (cases h) auto
qed simp

lemma block_prefix:
  assumes "h @ CRLF @ CRLF @ body = p @ q" "length h + 4 \<le> length p"
  obtains r where "p = h @ CRLF @ CRLF @ r"
proof -
  from assms(2) obtain m where "length p = length h + 4 + m" using le_Suc_ex by blast
  then have n: "length p - length h = Suc (Suc (Suc (Suc m)))" by simp
  have "p = take (length p) (h @ CRLF @ CRLF @ body)" using assms(1) by simp
  also have "\<dots> = h @ CRLF @ CRLF @ take m body" using assms(2) by (simp add: n CRLF_def)
  finally show thesis by (rule that)
qed

lemma head_end_block:
  assumes "header_block h" "h @ CRLF @ CRLF @ body = p @ q"
  shows "head_end p = (if length h + 4 \<le> length p then Some (length h) else None)"
proof (cases "length h + 4 \<le> length p")
  case True
  with assms(2) obtain r where p: "p = h @ CRLF @ CRLF @ r" by (rule block_prefix)
  have "cstr p = h @ (CRLF @ CRLF) @ cstr r"
    using assms(1) by (simp add: p header_block_def cstr_append CRLF_def)
  moreover have "find_sub (CRLF @ CRLF) (h @ (CRLF @ CRLF) @ cstr r) = Some (length h)"
    using assms(1) by (intro find_sub_at) (simp_all add: header_block_def CRLF_def)
  ultimately show ?thesis using True by (simp add: head_end_def)
next
  case False
  let ?w = "h @ [CR, LF, CR]"
  have "p = take (length p) (h @ CRLF @ CRLF @ body)" using assms(2) by simp
  also have "\<dots> = take (length p) (?w @ LF # body)" by (simp add: CRLF_def)
  also have "\<dots> = take (length p) ?w" using False by (subst take_append) simp
  finally obtain r where w: "?w = p @ r" by (metis append_take_drop_id)
  have n: "NUL \<notin> set p" using assms(1) arg_cong [OF w, of set] by (auto simp: header_block_def)
  have "\<not> occurs (CRLF @ CRLF) p" using assms(1) occurs_prefix [of _ p r] by (auto simp: header_block_def w)
  moreover have "\<not> occurs [LF, LF] p"
  proof
    assume "occurs [LF, LF] p"
    then have "occurs [LF, LF] (h @ [CR, LF, CR])" unfolding w by (rule occurs_prefix)
    then show False using assms(1) by (simp add: header_block_def no_lines)
  qed
  ultimately show ?thesis using False by (simp add: head_end_def cstr_id [OF n] find_sub_None [symmetric])
qed

lemma slurp_block:
  assumes "header_block h" "steady rs" "str b @ bs = h @ CRLF @ CRLF @ body" "head_end (str b) = None"
  shows "\<exists>b1 rs1 bs1 r. slurp b rs bs = Some (b1, length h, rs1, bs1) \<and> str b1 = h @ CRLF @ CRLF @ r \<and>
    str b1 @ bs1 = h @ CRLF @ CRLF @ body \<and> steady rs1"
  using assms(2,3,4)
proof (induction b rs bs rule: slurp.induct)
  case (1 b rs bs)
  obtain ch rs1 bs1 where r: "next_read 1024 rs bs = (ch, rs1, bs1)" using prod_cases3 by blast
  from read_steady [OF r 1(2)] have s: "steady rs1" "ch = [] \<longleftrightarrow> bs = []" by simp_all
  note blk = head_end_block [OF assms(1)]
  have "\<not> length h + 4 \<le> length (str b)" using blk [OF 1(3) [symmetric]] 1(4) by (auto split: if_splits)
  moreover have "length (str b) + length bs = length h + 4 + length body"
    using arg_cong [OF 1(3), of length] by (simp add: CRLF_def)
  ultimately have "bs \<noteq> []" by auto
  with s have ne: "ch \<noteq> []" by simp
  let ?b = "httpd_realloc_str (length (str b) + length ch) b"
  obtain b1 where b1: "strcpy ?b (str b @ ch) = Some b1" "str b1 = str b @ ch"
    using realloc_size [of "length (str b) + length ch" b] by (simp add: strcpy_def)
  have eq: "str b1 @ bs1 = h @ CRLF @ CRLF @ body" using 1(3) next_read_split [OF r] by (simp add: b1(2))
  show ?case
  proof (cases "head_end (str b1)")
    case None
    have "slurp b rs bs = slurp b1 rs1 bs1" by (subst slurp.simps) (simp add: r ne b1(1) None)
    with 1(1) [OF r [symmetric] refl ne b1(1) None s(1) eq None] show ?thesis by simp
  next
    case (Some br)
    have "slurp b rs bs = Some (b1, br, rs1, bs1)" by (subst slurp.simps) (simp add: r ne b1(1) Some)
    moreover have "br = length h" "length h + 4 \<le> length (str b1)"
      using blk [OF eq [symmetric]] Some by (auto split: if_splits)
    moreover obtain t where "str b1 = h @ CRLF @ CRLF @ t"
      using block_prefix [OF eq [symmetric] \<open>length h + 4 \<le> length (str b1)\<close>] .
    ultimately show ?thesis using eq s(1) by blast
  qed
qed

text \<open>C32: When the headers of a program end with an empty line in the network form, the status is that of these
  headers alone, however the output is cut and whatever the rest of it says.\<close>

theorem cgi_status_from_head:
  assumes "header_block h" "steady rs" "steady os"
  shows "cgi_interpose_output rs (h @ CRLF @ CRLF @ body) os =
    To_client (status_line (cgi_status h (length h)) @ h @ CRLF @ CRLF @ body)"
proof -
  let ?b = "httpd_realloc_str 500 \<lparr>str = [], maxsize = 0\<rparr>" and ?o = "h @ CRLF @ CRLF @ body"
  have e: "str ?b = []" by (simp add: realloc_str)
  have "head_end (str ?b) = None" by (simp add: e head_end_def CRLF_def)
  with slurp_block [OF assms(1,2), of ?b ?o body] e obtain b rs1 bs1 r
    where s: "slurp ?b rs ?o = Some (b, length h, rs1, bs1)" "str b = h @ CRLF @ CRLF @ r" "str b @ bs1 = ?o" "steady rs1" by auto
  have "cstr (str b) = h @ CR # LF # CRLF @ cstr r"
    using assms(1) by (simp add: s(2) cstr_append header_block_def CRLF_def)
  then have st: "cgi_status (cstr (str b)) (length h) = cgi_status h (length h)"
    using cgi_status_head [OF assms(1), of "LF # CRLF @ cstr r"] by (simp add: cstr_no_NUL CRLF_def)
  have "str b \<noteq> []" "hd (str b) \<noteq> NUL" using assms(1) by (cases h; auto simp: s(2) CRLF_def header_block_def)+
  then show ?thesis using forwarded [OF s(1) _ s(4) assms(3)] by (simp add: st s(3))
qed

lemma block_404: "header_block ''Status: 404''"
  by (simp add: header_block_def CRLF_def header_at_def valued_def isspace_def char_eval)

lemma status_404: "status_line (cgi_status ''Status: 404'' (length ''Status: 404'')) = ''HTTP/1.0 404 Not Found'' @ CRLF"
  by code_simp

theorem cgi_status_from_head_witness:
  "cgi_interpose_output [Upto 3, Again, Upto 12] (''Status: 404'' @ CRLF @ CRLF @ ''x'') [Again, Upto 5] =
    To_client ((''HTTP/1.0 404 Not Found'' @ CRLF) @ ''Status: 404'' @ CRLF @ CRLF @ ''x'')"
  unfolding status_404 [symmetric] by (rule cgi_status_from_head [OF block_404]) simp_all

theorem cgi_output_forwarded_witness:
  "cgi_interpose_output [Again] [] [] = Unset \<and> (\<exists>st. cgi_interpose_output [Upto 1] ''hello'' [Upto 2] = To_client (status_line st @ ''hello''))"
  using cgi_output_forwarded [of "[Again]" "[]" "[]"] cgi_output_forwarded [of "[Upto 1]" "[Upto 2]" "''hello''"] by simp

lemma early_example: "early (idle_conn\<lparr>read_buf := ''POST.ab'', read_idx := 7, checked_idx := 5, contentlength := 4\<rparr>) = ''ab''"
  by (simp add: early_def)

theorem cgi_input_exact_witness:
  "fst (cgi_interpose_input (idle_conn\<lparr>read_buf := ''POST.ab'', read_idx := 7, checked_idx := 5, contentlength := 4\<rparr>)
     [Upto 1, Again] ''cdef'' [Upto 1]) = ''abcd''"
  using cgi_input_exact [of "[Upto 1, Again]" "[Upto 1]"
      "idle_conn\<lparr>read_buf := ''POST.ab'', read_idx := 7, checked_idx := 5, contentlength := 4\<rparr>" "''cdef''"]
  by (simp add: early_example)

text \<open>A program that ends its lines with LF alone has no such promise: the end of its headers is looked for as CR LF CR LF
  first, so text in the first piece read of its page can set the status, and the answer depends on the pieces.\<close>

definition lf_output :: string where
  "lf_output = ''T: x'' @ [LF, LF] @ ''Status: 404'' @ CRLF @ CRLF"

lemma status_depends_on_cut:
  "cgi_interpose_output [] lf_output [] = To_client (status_line 404 @ lf_output)"
  "cgi_interpose_output [Upto 6] lf_output [] = To_client (status_line 200 @ lf_output)"
  by code_simp+


end
