(* ===== verification/Th_Cgi.thy ===== *)
theory Th_Cgi
  imports Th_Served
begin

text \<open>
  The child process that becomes a CGI program, \<open>src/others/thttpd-2.29/libhttpd.c\<close>: \<open>make_envp\<close> and
  \<open>make_argp\<close> with their arrays of fixed size, and \<open>cgi_child\<close>, which moves descriptors until the program's
  standard input, output and error are the connection or pipes to the processes of \<open>Th_Interpose\<close>. The table of
  open files is a list; \<open>pipe\<close> takes the lowest free places of it. Priorities, signals, \<open>closelog\<close> and the
  close-on-exec flag are not modelled.
\<close>

section \<open>Environment\<close>

definition CGI_PATH :: string where "CGI_PATH = ''/usr/local/bin:/usr/ucb:/bin:/usr/bin''"

record host =
  port :: "16 word"
  client_addr :: string  \<comment> \<open>\<open>httpd_ntoa(&hc->client_addr)\<close>\<close>
  tz :: "string option"  \<comment> \<open>\<open>getenv("TZ")\<close>\<close>

datatype var =
    Fixed string  \<comment> \<open>a literal\<close>
  | Built string string  \<comment> \<open>\<open>build_env\<close> of a format and an argument\<close>

definition build_env :: "string \<Rightarrow> string \<Rightarrow> nat \<Rightarrow> string \<times> nat" where
  \<comment> \<open>with \<open>maxbuf\<close>, which is static; a buffer that is not grown keeps its size\<close>
  "build_env fmt a maxbuf =
     (let sz = length fmt + length a;
          m = (if maxbuf < sz then maxsize (httpd_realloc_str sz \<lparr>str = [], maxsize = maxbuf\<rparr>) else maxbuf)
      in (snprintf m (subst_first ''%s'' a fmt), m))"

fun build_vars :: "var list \<Rightarrow> nat \<Rightarrow> string list" where
  "build_vars [] m = []"
| "build_vars (Fixed s # vs) m = s # build_vars vs m"
| "build_vars (Built fmt a # vs) m = (case build_env fmt a m of (s, m1) \<Rightarrow> s # build_vars vs m1)"

definition server_name :: "web \<Rightarrow> http_conn \<Rightarrow> string option" where
  "server_name v hc =
     (if vhost (http v) \<and> hostname hc \<noteq> None \<and> hostname hc \<noteq> Some [] then hostname hc
      else if hdrhost hc \<noteq> [] then Some (hdrhost hc)
      else if str (reqhost hc) \<noteq> [] then Some (str (reqhost hc))
      else server_hostname v)"

definition unless_empty :: "string \<Rightarrow> string \<Rightarrow> var list" where
  "unless_empty fmt a = (if a = [] then [] else [Built fmt a])"

definition env_vars :: "web \<Rightarrow> host \<Rightarrow> string \<Rightarrow> http_conn \<Rightarrow> var list" where
  \<comment> \<open>the string is \<open>hs->cgi_pattern\<close>\<close>
  "env_vars v e pat hc =
     [Built ''PATH=%s'' CGI_PATH, Built ''SERVER_SOFTWARE=%s'' SERVER_SOFTWARE] @
     (case server_name v hc of None \<Rightarrow> [] | Some cp \<Rightarrow> [Built ''SERVER_NAME=%s'' cp]) @
     [Fixed ''GATEWAY_INTERFACE=CGI/1.1'',
      Built ''SERVER_PROTOCOL=%s'' (protocol hc),
      Built ''SERVER_PORT=%s'' (snprintf 256 (dec_nat (unat (port e)))),
      Built ''REQUEST_METHOD=%s'' (httpd_method_str (hc_method hc))] @
     (if str (pathinfo hc) = [] then []
      else [Built ''PATH_INFO=/%s'' (str (pathinfo hc)),
            Built ''PATH_TRANSLATED=%s''
              (snprintf (length (cwd (http v)) + length (str (pathinfo hc)) + 1)
                (cwd (http v) @ str (pathinfo hc)))]) @
     [Built ''SCRIPT_NAME=/%s'' (if str (origfilename hc) = ''.'' then [] else str (origfilename hc))] @
     unless_empty ''QUERY_STRING=%s'' (str (query hc)) @
     [Built ''REMOTE_ADDR=%s'' (client_addr e)] @
     unless_empty ''HTTP_REFERER=%s'' (referrer hc) @
     unless_empty ''HTTP_REFERRER=%s'' (referrer hc) @
     unless_empty ''HTTP_USER_AGENT=%s'' (useragent hc) @
     unless_empty ''HTTP_ACCEPT=%s'' (str (accept hc)) @
     unless_empty ''HTTP_ACCEPT_ENCODING=%s'' (str (accepte hc)) @
     unless_empty ''HTTP_ACCEPT_LANGUAGE=%s'' (acceptl hc) @
     unless_empty ''HTTP_COOKIE=%s'' (cookie hc) @
     unless_empty ''CONTENT_TYPE=%s'' (contenttype hc) @
     unless_empty ''HTTP_HOST=%s'' (hdrhost hc) @
     (if contentlength hc = - 1 then []
      else [Built ''CONTENT_LENGTH=%s'' (snprintf 256 (dec_nat (unat (contentlength hc))))]) @
     unless_empty ''REMOTE_USER=%s'' (str (remoteuser hc)) @
     (if authorization hc = [] then [] else [Built ''AUTH_TYPE=%s'' ''Basic'']) @
     (case tz e of None \<Rightarrow> [] | Some s \<Rightarrow> [Built ''TZ=%s'' s]) @
     [Built ''CGI_PATTERN=%s'' pat]"

definition make_envp :: "web \<Rightarrow> host \<Rightarrow> http_conn \<Rightarrow> string list option" where
  \<comment> \<open>without the \<open>NULL\<close> at the end; \<open>None\<close> for a \<open>NULL\<close> argument or more entries than the
      fifty slots of \<open>envp\<close> take\<close>
  "make_envp v e hc =
     (case cgi_pattern v of
        None \<Rightarrow> None
      | Some pat \<Rightarrow>
          (let vs = build_vars (env_vars v e pat hc) 0 in if length vs < 50 then Some vs else None))"

section \<open>Arguments\<close>

definition slot :: "nat \<Rightarrow> string list \<Rightarrow> string \<Rightarrow> string list option" where
  \<comment> \<open>\<open>strdecode(cp1, cp1); argp[argn++] = cp1;\<close> the program sees the word up to its first NUL\<close>
  "slot cap argp w = (if length argp < cap then Some (argp @ [cstr (strdecode w)]) else None)"

fun arg_loop :: "nat \<Rightarrow> string list \<Rightarrow> string \<Rightarrow> string \<Rightarrow> string list option" where
  \<comment> \<open>slots, \<open>argp\<close> so far, the text from \<open>cp1\<close> to \<open>cp2\<close>, the text from \<open>cp2\<close> on\<close>
  "arg_loop cap argp w [] = (if w = [] then Some argp else slot cap argp w)"
| "arg_loop cap argp w (c # s) =
     (if c = CHR ''+''
      then (case slot cap argp w of None \<Rightarrow> None | Some a \<Rightarrow> arg_loop cap a [] s)
      else arg_loop cap argp (w @ [c]) s)"

definition file_part :: "string \<Rightarrow> string" where
  \<comment> \<open>what follows the last slash\<close>
  "file_part s = (case strrchr (CHR ''/'') s of Some t \<Rightarrow> tl t | None \<Rightarrow> s)"

definition make_argp :: "http_conn \<Rightarrow> string list option" where
  \<comment> \<open>without the \<open>NULL\<close> at the end; \<open>None\<close> when the slots do not suffice\<close>
  "make_argp hc =
     (let cap = length (str (query hc)) + 2;
          argp = [file_part (str (expnfilename hc))]
      in case (if CHR ''='' \<in> set (str (query hc)) then Some argp else arg_loop cap argp [] (str (query hc))) of
           None \<Rightarrow> None
         | Some a \<Rightarrow> if length a < cap then Some a else None)"

section \<open>What the program is given\<close>

fun getenv :: "string \<Rightarrow> string list \<Rightarrow> string option" where
  \<comment> \<open>\<open>getenv\<close> of the program\<close>
  "getenv n [] = None"
| "getenv n (s # env) = (if starts (n @ ''='') s then Some (drop (length n + 1) s) else getenv n env)"

definition given :: "string \<Rightarrow> string option" where
  "given a = (if a = [] then None else Some a)"

definition cgi_table :: "web \<Rightarrow> host \<Rightarrow> string \<Rightarrow> http_conn \<Rightarrow> (string \<times> string option) list" where
  \<comment> \<open>every variable that a program can see, with its value for this request\<close>
  "cgi_table v e pat hc =
     [(''PATH'', Some CGI_PATH),
      (''SERVER_SOFTWARE'', Some SERVER_SOFTWARE),
      (''SERVER_NAME'', server_name v hc),
      (''GATEWAY_INTERFACE'', Some ''CGI/1.1''),
      (''SERVER_PROTOCOL'', Some (protocol hc)),
      (''SERVER_PORT'', Some (dec_nat (unat (port e)))),
      (''REQUEST_METHOD'', Some (httpd_method_str (hc_method hc))),
      (''PATH_INFO'', map_option (\<lambda>p. CHR ''/'' # p) (given (str (pathinfo hc)))),
      (''PATH_TRANSLATED'', map_option (\<lambda>p. cwd (http v) @ p) (given (str (pathinfo hc)))),
      (''SCRIPT_NAME'', Some (CHR ''/'' # (if str (origfilename hc) = ''.'' then [] else str (origfilename hc)))),
      (''QUERY_STRING'', given (str (query hc))),
      (''REMOTE_ADDR'', Some (client_addr e)),
      (''HTTP_REFERER'', given (referrer hc)),
      (''HTTP_REFERRER'', given (referrer hc)),
      (''HTTP_USER_AGENT'', given (useragent hc)),
      (''HTTP_ACCEPT'', given (str (accept hc))),
      (''HTTP_ACCEPT_ENCODING'', given (str (accepte hc))),
      (''HTTP_ACCEPT_LANGUAGE'', given (acceptl hc)),
      (''HTTP_COOKIE'', given (cookie hc)),
      (''CONTENT_TYPE'', given (contenttype hc)),
      (''HTTP_HOST'', given (hdrhost hc)),
      (''CONTENT_LENGTH'', if contentlength hc = - 1 then None else Some (dec_nat (unat (contentlength hc)))),
      (''REMOTE_USER'', given (str (remoteuser hc))),
      (''AUTH_TYPE'', if authorization hc = [] then None else Some ''Basic''),
      (''TZ'', tz e),
      (''CGI_PATTERN'', Some pat)]"

fun entry :: "string \<times> string option \<Rightarrow> string list" where
  "entry (n, None) = []"
| "entry (n, Some a) = [n @ CHR ''='' # a]"

section \<open>Environment entries\<close>

lemma subst_last: "CHR ''%'' \<notin> set n \<Longrightarrow> subst_first ''%s'' a (n @ ''%s'') = n @ a"
  by (induction n) auto

lemma build_env_text: "CHR ''%'' \<notin> set n \<Longrightarrow> fst (build_env (n @ ''%s'') a m) = n @ a"
  using realloc_size [of "length (n @ ''%s'') + length a" "\<lparr>str = [], maxsize = m\<rparr>"]
  by (auto simp: build_env_def Let_def subst_last snprintf_def)

fun var_text :: "var \<Rightarrow> string" where
  "var_text (Fixed s) = s"
| "var_text (Built fmt a) = subst_first ''%s'' a fmt"

definition plain_format :: "var \<Rightarrow> bool" where
  "plain_format x = (case x of Fixed s \<Rightarrow> True | Built fmt a \<Rightarrow> drop (length fmt - 2) fmt = ''%s'' \<and> CHR ''%'' \<notin> set (take (length fmt - 2) fmt))"

lemma build_env_plain: "plain_format (Built fmt a) \<Longrightarrow> fst (build_env fmt a m) = var_text (Built fmt a)"
proof -
  assume p: "plain_format (Built fmt a)"
  define n where "n = take (length fmt - 2) fmt"
  have f: "fmt = n @ ''%s''" using p append_take_drop_id [of "length fmt - 2" fmt] by (simp add: n_def plain_format_def)
  have "CHR ''%'' \<notin> set n" using p by (simp add: n_def plain_format_def)
  then show ?thesis using build_env_text [of n a m] by (simp add: f subst_last)
qed

lemma build_vars_text: "\<forall>x\<in>set vs. plain_format x \<Longrightarrow> build_vars vs m = map var_text vs"
proof (induction vs m rule: build_vars.induct)
  case (3 fmt a vs m)
  then show ?case using build_env_plain [of fmt a m] by (simp split: prod.split) (metis fst_conv)
qed simp_all

lemma unless_empty_simps:
  "map var_text (unless_empty fmt a) = (if a = [] then [] else [subst_first ''%s'' a fmt])"
  "(\<forall>x\<in>set (unless_empty fmt a). plain_format x) \<longleftrightarrow> a = [] \<or> plain_format (Built fmt a)"
  by (simp_all add: unless_empty_def)

lemma snprintf_dec: "snprintf 256 (dec_nat (unat (x :: 16 word))) = dec_nat (unat x)" 
    "snprintf 256 (dec_nat (unat (y :: 64 word))) = dec_nat (unat y)"
proof -
  have "length (dec_nat (unat x)) \<le> 5" using unsigned_less [of x, where ?'a = nat] by (intro length_dec_nat) simp_all
  then show "snprintf 256 (dec_nat (unat x)) = dec_nat (unat x)" by (simp add: snprintf_def)
  have "length (dec_nat (unat y)) \<le> 20" using unsigned_less [of y, where ?'a = nat] by (intro length_dec_nat) simp_all
  then show "snprintf 256 (dec_nat (unat y)) = dec_nat (unat y)" by (simp add: snprintf_def)
qed

lemma entry_if: "entry (n, if b then None else Some a) = (if b then [] else [n @ CHR ''='' # a])"
  "entry (n, map_option f (given a)) = (if a = [] then [] else [n @ CHR ''='' # f a])"
  "entry (n, given a) = (if a = [] then [] else [n @ CHR ''='' # a])"
  "entry (n, x) = (case x of None \<Rightarrow> [] | Some a \<Rightarrow> [n @ CHR ''='' # a])"
  by (simp_all add: given_def split: option.split)

lemma env_vars_plain: "\<forall>x\<in>set (env_vars v e pat hc). plain_format x"
  unfolding env_vars_def set_append ball_Un unless_empty_simps
  by (auto simp: plain_format_def split: option.split)

lemma env_vars_text: "map var_text (env_vars v e pat hc) = concat (map entry (cgi_table v e pat hc))"
  unfolding env_vars_def cgi_table_def map_append unless_empty_simps
  by (simp add: entry_if(1,2,3) entry_if(4) [of _ "server_name v hc"] entry_if(4) [of _ "tz e"] snprintf_dec
      if_distrib [of "map var_text"] option.case_distrib [of "map var_text"] snprintf_def [of "Suc _"]
      split del: if_split cong: if_cong option.case_cong) simp

lemma starts_name:
  assumes "CHR ''='' \<notin> set n" "CHR ''='' \<notin> set k"
  shows "starts (n @ ''='') (k @ CHR ''='' # a) \<longleftrightarrow> n = k"
  using assms
proof (induction n arbitrary: k)
  case Nil
  then show ?case by (cases k) auto
next
  case (Cons c n)
  then show ?case by (cases k) auto
qed

lemma getenv_append: "getenv n (xs @ ys) = (case getenv n xs of None \<Rightarrow> getenv n ys | Some a \<Rightarrow> Some a)"
  by (induction xs) auto

lemma getenv_entry:
  "CHR ''='' \<notin> set n \<Longrightarrow> CHR ''='' \<notin> set k \<Longrightarrow> getenv n (entry (k, x)) = (if n = k then x else None)"
  by (cases x) (auto simp: starts_name)

lemma getenv_entries:
  assumes "CHR ''='' \<notin> set n" "\<forall>k\<in>fst ` set tab. CHR ''='' \<notin> set k" "distinct (map fst tab)"
  shows "getenv n (concat (map entry tab)) = (case map_of tab n of None \<Rightarrow> None | Some x \<Rightarrow> x)"
  using assms(2,3)
proof (induction tab)
  case (Cons p tab)
  obtain k x where p: "p = (k, x)" by (cases p)
  have "n = k \<Longrightarrow> map_of tab n = None" using Cons.prems(2) by (simp add: p map_of_eq_None_iff)
  then show ?case using Cons assms(1) by (auto simp: p getenv_append getenv_entry simp del: entry.simps split: option.split)
qed simp

lemma table_names:
  "\<forall>k\<in>fst ` set (cgi_table v e pat hc). CHR ''='' \<notin> set k" "distinct (map fst (cgi_table v e pat hc))"
  "length (cgi_table v e pat hc) = 26"
  by (simp_all add: cgi_table_def)

lemma entries_length: "length (concat (map entry tab)) \<le> length tab"
  by (induction tab rule: list.induct, simp, rename_tac p t, case_tac p, case_tac "snd p") auto

lemma make_envp_is:
  assumes "cgi_pattern v = Some pat"
  shows "make_envp v e hc = Some (concat (map entry (cgi_table v e pat hc)))"
  using entries_length [of "cgi_table v e pat hc"] 
  by (simp add: make_envp_def assms build_vars_text env_vars_plain env_vars_text table_names(3) Let_def)

definition env_name :: "string \<Rightarrow> string" where
  "env_name s = takeWhile (\<lambda>c. c \<noteq> CHR ''='') s"

lemma entries_names:
  "\<forall>k\<in>fst ` set tab. CHR ''='' \<notin> set k \<Longrightarrow>
   map env_name (concat (map entry tab)) = map fst (filter (\<lambda>p. snd p \<noteq> None) tab)"
proof (induction tab)
  case (Cons p tab)
  then show ?case by (cases p; cases "snd p") (auto simp: env_name_def takeWhile_tail)
qed simp

text \<open>C35: The environment of a program fits the fifty slots of its array, names no variable twice, and gives every
  variable exactly the value of the table: no header of a request adds another variable.\<close>

theorem cgi_environment:
  assumes "cgi_pattern v = Some pat"
  shows "\<exists>env. make_envp v e hc = Some env \<and> length env \<le> 26 \<and> distinct (map env_name env) \<and>
    (\<forall>n. CHR ''='' \<notin> set n \<longrightarrow>
      getenv n env = (case map_of (cgi_table v e pat hc) n of None \<Rightarrow> None | Some x \<Rightarrow> x))"
proof (intro exI conjI allI impI)
  show "make_envp v e hc = Some (concat (map entry (cgi_table v e pat hc)))" by (rule make_envp_is [OF assms])
  show "length (concat (map entry (cgi_table v e pat hc))) \<le> 26"
    using entries_length [of "cgi_table v e pat hc"] by (simp add: table_names(3))
  show "distinct (map env_name (concat (map entry (cgi_table v e pat hc))))"
    using distinct_map_filter [OF table_names(2)] by (simp add: entries_names [OF table_names(1)])
  fix n assume "CHR ''='' \<notin> set n"
  then show "getenv n (concat (map entry (cgi_table v e pat hc))) =
      (case map_of (cgi_table v e pat hc) n of None \<Rightarrow> None | Some x \<Rightarrow> x)"
    by (rule getenv_entries [OF _ table_names(1,2)])
qed

section \<open>Argument vector\<close>

fun plus_words :: "string \<Rightarrow> string \<Rightarrow> string list" where
  \<comment> \<open>the words between pluses; an empty one at the end does not count\<close>
  "plus_words w [] = (if w = [] then [] else [w])"
| "plus_words w (c # s) = (if c = CHR ''+'' then w # plus_words [] s else plus_words (w @ [c]) s)"

lemma plus_words_length: "length (plus_words w s) \<le> (if w = [] then 0 else 1) + length s"
  by (induction w s rule: plus_words.induct) auto

lemma arg_loop_words:
  "length argp + length (plus_words w s) \<le> cap \<Longrightarrow>
   arg_loop cap argp w s = Some (argp @ map (\<lambda>w. cstr (strdecode w)) (plus_words w s))"
  by (induction cap argp w s rule: arg_loop.induct) (auto simp: slot_def split: if_splits)

definition arg_words :: "string \<Rightarrow> string list" where
  "arg_words q = (if CHR ''='' \<in> set q then [] else map (\<lambda>w. cstr (strdecode w)) (plus_words [] q))"

lemma make_argp_is: "make_argp hc = Some (file_part (str (expnfilename hc)) # arg_words (str (query hc)))"
  using plus_words_length [of "[]" "str (query hc)"]
  by (simp add: make_argp_def Let_def arg_words_def arg_loop_words)

definition encoded_words :: "string list \<Rightarrow> string" where
  "encoded_words vs = concat (map (\<lambda>w. strencode 0 (3 * int (length w) + 2) w @ ''+'') vs)"

lemma plus_words_word:
  "CHR ''+'' \<notin> set v \<Longrightarrow> plus_words w (v @ ''+'' @ s) = (w @ v) # plus_words [] s"
  by (induction v arbitrary: w) auto

lemma isalnum_hex: "d < 16 \<Longrightarrow> isalnum (if d < 10 then chr (48 + d) else chr (87 + d))"
  by (auto simp: isalnum_def isdigit_def ord_chr)

lemma strencode_chars:
  assumes "\<And>c. isalnum c \<Longrightarrow> P c" "\<And>c. c \<in> set ''/_.-~'' \<Longrightarrow> P c" "P (CHR ''%'')"
  shows "list_all P (strencode n sz s)"
proof (induction s arbitrary: n)
  case (Cons c s)
  have "ord c div 16 < 16" "ord c mod 16 < 16" using ord_less [of c] by linarith+
  then have h: "list_all P (hex2 (ord c))" unfolding hex2_def list.map list.pred_inject
    by (intro conjI TrueI assms(1) isalnum_hex) simp_all
  show ?case
  proof (cases "isalnum c \<or> c \<in> set ''/_.-~''")
    case True
    then have "P c" using assms(1,2) by blast
    then show ?thesis unfolding strencode.simps if_P [OF True] using Cons.IH by simp
  next
    case False
    show ?thesis unfolding strencode.simps if_not_P [OF False] using Cons.IH assms(3) h by simp
  qed
qed simp

lemma strencode_plain: "CHR ''+'' \<notin> set (strencode n sz s)" "CHR ''='' \<notin> set (strencode n sz s)"
proof -
  have "list_all (\<lambda>c. c \<noteq> CHR ''+'') (strencode n sz s)"
    by (rule strencode_chars) (auto simp: isalnum_def isdigit_def char_eval)
  then show "CHR ''+'' \<notin> set (strencode n sz s)" by (auto simp: list_all_iff)
  have "list_all (\<lambda>c. c \<noteq> CHR ''='') (strencode n sz s)"
    by (rule strencode_chars) (auto simp: isalnum_def isdigit_def char_eval)
  then show "CHR ''='' \<notin> set (strencode n sz s)" by (auto simp: list_all_iff)
qed

lemma plus_query_fills_argp:
  "str (query hc) = replicate n (CHR ''+'') \<Longrightarrow>
   make_argp hc = Some (file_part (str (expnfilename hc)) # replicate n [])"
proof -
  have "plus_words [] (replicate n (CHR ''+'')) = replicate n []" by (induction n) simp_all
  then show "make_argp hc = Some (file_part (str (expnfilename hc)) # replicate n [])"
    if "str (query hc) = replicate n (CHR ''+'')"
    by (simp add: make_argp_is that arg_words_def)
qed

text \<open>C36: A query that lists percent-encoded words, each ended by a plus sign, gives a program exactly these words
  as its arguments.\<close>

theorem cgi_arguments_roundtrip:
  assumes q: "str (query hc) = encoded_words vs" and z: "\<forall>w\<in>set vs. NUL \<notin> set w"
  shows "make_argp hc = Some (file_part (str (expnfilename hc)) # vs)"
proof -
  have "CHR ''='' \<notin> set (encoded_words vs)" by (auto simp: encoded_words_def strencode_plain)
  moreover have "map (\<lambda>w. cstr (strdecode w)) (plus_words [] (encoded_words vs)) = vs" using z
  proof (induction vs)
    case (Cons w vs)
    have "plus_words [] (encoded_words (w # vs)) =
        strencode 0 (3 * int (length w) + 2) w # plus_words [] (encoded_words vs)"
      using plus_words_word [OF strencode_plain(1), of "[]" 0 "3 * int (length w) + 2" w "encoded_words vs"]
      by (simp add: encoded_words_def)
    then show ?case using Cons by (simp add: strdecode_strencode cstr_id)
  qed (simp add: encoded_words_def)
  ultimately show ?thesis by (simp add: make_argp_is q arg_words_def)
qed

section \<open>Descriptors\<close>

datatype open_file = Socket | In_read | In_write | Out_read | Out_write | Other

type_synonym fds = "open_file option list"  \<comment> \<open>as many places as the process may have descriptors\<close>

definition new_fd :: "open_file \<Rightarrow> fds \<Rightarrow> (nat \<times> fds) option" where
  \<comment> \<open>the lowest free one\<close>
  "new_fd f t =
     (let i = length (takeWhile (\<lambda>x. x \<noteq> None) t) in if i < length t then Some (i, t[i := Some f]) else None)"

definition pipe :: "open_file \<Rightarrow> open_file \<Rightarrow> fds \<Rightarrow> (nat \<times> nat \<times> fds) option" where
  "pipe r w t =
     (case new_fd r t of
        None \<Rightarrow> None
      | Some (p, t1) \<Rightarrow> (case new_fd w t1 of None \<Rightarrow> None | Some (q, t2) \<Rightarrow> Some (p, q, t2)))"

definition dup2 :: "nat \<Rightarrow> nat \<Rightarrow> fds \<Rightarrow> fds option" where
  "dup2 a b t = (if a < length t \<and> b < length t \<and> t ! a \<noteq> None then Some (t[b := t ! a]) else None)"

definition dup_to :: "nat \<Rightarrow> nat \<Rightarrow> fds \<Rightarrow> fds" where
  \<comment> \<open>\<open>if (a != b) (void) dup2(a, b);\<close>\<close>
  "dup_to a b t = (if a = b then t else case dup2 a b t of None \<Rightarrow> t | Some t1 \<Rightarrow> t1)"

definition close_fd :: "nat \<Rightarrow> fds \<Rightarrow> fds" where
  "close_fd a t = t[a := None]"

section \<open>The child\<close>

record child_env =
  fd_table :: fds  \<comment> \<open>when \<open>cgi_child\<close> is called\<close>
  pipes_ok :: "bool \<times> bool"  \<comment> \<open>nothing but a full table keeps \<open>pipe\<close> from working: input, output\<close>
  forks_ok :: "bool \<times> bool"
  strdup_ok :: bool
  execve_ok :: bool

datatype child =
    Exec "string option" string "string list" "string list" fds
      \<comment> \<open>the argument of \<open>chdir\<close>, those of \<open>execve\<close>, the descriptors of the program\<close>
  | Child_error string  \<comment> \<open>what was written to the client before \<open>exit(1)\<close>\<close>
  | Child_crash

definition child_error :: "web \<Rightarrow> int \<Rightarrow> http_conn \<Rightarrow> child" where
  \<comment> \<open>the number is \<open>sb.st_mtime\<close>\<close>
  "child_error v mt hc =
     Child_error (fst (httpd_write_response
       (httpd_send_err (page_site v) mt hc 500 err500title [] err500form (encodedurl hc))))"

definition move_conn :: "nat \<Rightarrow> fds \<Rightarrow> nat \<times> fds" where
  \<comment> \<open>\<open>conn_fd\<close> is moved away from the standard descriptors\<close>
  "move_conn k t = (if k \<le> 2 then (case dup2 k 3 t of None \<Rightarrow> (k, t) | Some t1 \<Rightarrow> (3, t1)) else (k, t))"

definition early_data :: "http_conn \<Rightarrow> bool" where
  "early_data hc \<longleftrightarrow> hc_method hc = METHOD_POST \<and> checked_idx hc < read_idx hc"

definition child_stdin :: "child_env \<Rightarrow> http_conn \<Rightarrow> nat \<Rightarrow> fds \<Rightarrow> fds option" where
  \<comment> \<open>\<open>None\<close> after an error\<close>
  "child_stdin ce hc k t =
     (if early_data hc
      then (if \<not> fst (pipes_ok ce) then None
            else case pipe In_read In_write t of
                   None \<Rightarrow> None
                 | Some (p0, p1, t1) \<Rightarrow>
                     if \<not> fst (forks_ok ce) then None
                     else (let t2 = close_fd p1 t1
                           in Some (if p0 \<noteq> 0 then close_fd p0 (dup_to p0 0 t2) else t2)))
      else Some (dup_to k 0 t))"

definition parsed_headers :: "http_conn \<Rightarrow> string list \<Rightarrow> bool" where
  "parsed_headers hc argp \<longleftrightarrow> \<not> strneq (hd argp) ''nph-'' 4 \<and> mime_flag hc"

definition child_stdout :: "child_env \<Rightarrow> bool \<Rightarrow> nat \<Rightarrow> fds \<Rightarrow> fds option" where
  "child_stdout ce parsed k t =
     (if parsed
      then (if \<not> snd (pipes_ok ce) then None
            else case pipe Out_read Out_write t of
                   None \<Rightarrow> None
                 | Some (p0, p1, t1) \<Rightarrow>
                     if \<not> snd (forks_ok ce) then None
                     else (let t2 = dup_to p1 2 (dup_to p1 1 (close_fd p0 t1))
                           in Some (if p1 \<noteq> 1 \<and> p1 \<noteq> 2 then close_fd p1 t2 else t2)))
      else Some (dup_to k 2 (dup_to k 1 t)))"

definition split_program :: "bool \<Rightarrow> string \<Rightarrow> string option \<times> string" where
  \<comment> \<open>directory and binary; without memory the whole name is run\<close>
  "split_program memory s =
     (case (if memory then strrchr (CHR ''/'') s else None) of
        None \<Rightarrow> (None, s)
      | Some t \<Rightarrow> (Some (take (length s - length t) s), tl t))"

definition cgi_child :: "web \<Rightarrow> host \<Rightarrow> child_env \<Rightarrow> int \<Rightarrow> http_conn \<Rightarrow> child" where
  "cgi_child v e ce mt hc =
     (case move_conn (nat (conn_fd hc)) (fd_table ce) of
        (k, t) \<Rightarrow>
          (case make_envp v e hc of
             None \<Rightarrow> Child_crash
           | Some envp \<Rightarrow>
               (case make_argp hc of
                  None \<Rightarrow> Child_crash
                | Some argp \<Rightarrow>
                    (case child_stdin ce hc k t of
                       None \<Rightarrow> child_error v mt hc
                     | Some t1 \<Rightarrow>
                         (case child_stdout ce (parsed_headers hc argp) k t1 of
                            None \<Rightarrow> child_error v mt hc
                          | Some t2 \<Rightarrow>
                              (case split_program (strdup_ok ce) (str (expnfilename hc)) of
                                 (dir, binary) \<Rightarrow>
                                   if execve_ok ce then Exec dir binary argp envp t2
                                   else child_error v mt hc))))))"

section \<open>The program's descriptors\<close>

lemma new_fdD:
  assumes "new_fd f t = Some (i, u)"
  shows "i < length t" "t ! i = None" "u = t[i := Some f]" "\<forall>j<i. t ! j \<noteq> None"
proof -
  from assms have i: "i = length (takeWhile (\<lambda>x. x \<noteq> None) t)" "i < length t" "u = t[i := Some f]"
    by (auto simp: new_fd_def Let_def split: if_splits)
  then show "i < length t" "u = t[i := Some f]" by simp_all
  show "t ! i = None" using i nth_length_takeWhile [of "\<lambda>x. x \<noteq> None" t] by simp
  show "\<forall>j<i. t ! j \<noteq> None"
  proof (intro allI impI)
    fix j assume "j < i"
    then have "takeWhile (\<lambda>x. x \<noteq> None) t ! j \<in> set (takeWhile (\<lambda>x. x \<noteq> None) t)" unfolding i(1) by (rule nth_mem)
    then have "takeWhile (\<lambda>x. x \<noteq> None) t ! j \<noteq> None" using set_takeWhileD by fastforce
    with \<open>j < i\<close> show "t ! j \<noteq> None" by (simp add: i(1) takeWhile_nth)
  qed
qed

lemma pipeD:
  assumes "pipe r w t = Some (p, q, u)"
  shows "p < q" "q < length t" "t ! p = None" "t ! q = None" "u = t[p := Some r, q := Some w]"
proof -
  from assms obtain t1 where n: "new_fd r t = Some (p, t1)" "new_fd w t1 = Some (q, u)"
    by (auto simp: pipe_def split: option.splits prod.splits)
  note a = new_fdD [OF n(1)] and b = new_fdD [OF n(2)]
  have "p \<noteq> q" using a(1,3) b(2) by (metis nth_list_update_eq option.distinct(1))
  moreover have "\<not> q < p" using a(3,4) b(2) by (metis nth_list_update_neq nat_neq_iff)
  ultimately show "p < q" by simp
  show "q < length t" using b(1) a(3) by simp
  show "t ! p = None" by (rule a(2))
  show "t ! q = None" using b(2) a(3) \<open>p \<noteq> q\<close> by simp
  show "u = t[p := Some r, q := Some w]" using b(3) a(3) by simp
qed

lemma dup_to_upd: "t ! a \<noteq> None \<Longrightarrow> a < length t \<Longrightarrow> b < length t \<Longrightarrow> dup_to a b t = t[b := t ! a]"
  by (auto simp: dup_to_def dup2_def)

definition std_from :: "nat \<Rightarrow> fds \<Rightarrow> bool" where
  \<comment> \<open>no pipe from here on\<close>
  "std_from n t \<longleftrightarrow> (\<forall>i<length t. n \<le> i \<longrightarrow> t ! i \<in> {None, Some Socket, Some Other})"

definition conn_at :: "nat \<Rightarrow> fds \<Rightarrow> bool" where
  "conn_at k t \<longleftrightarrow> 3 \<le> k \<and> k < length t \<and> t ! k = Some Socket"

lemma std_upd: "std_from n t \<Longrightarrow> x \<in> {None, Some Socket, Some Other} \<Longrightarrow> std_from n (t[i := x])"
  by (cases "i < length t") (auto simp: std_from_def nth_list_update)

lemma std_below: "std_from n t \<Longrightarrow> i < m \<Longrightarrow> n \<le> m \<Longrightarrow> std_from m (t[i := x])"
  by (auto simp: std_from_def nth_list_update)

lemma move_conn_ok:
  assumes "3 < length t" "k < length t" "t ! k = Some Socket" "std_from 0 t" "move_conn k t = (k1, t1)"
  shows "conn_at k1 t1 \<and> std_from 0 t1 \<and> length t1 = length t"
  using assms std_upd [OF assms(4), of "Some Socket" 3]
  by (auto simp: move_conn_def dup2_def conn_at_def split: if_splits)

lemma child_stdin_ok:
  assumes "conn_at k t" "std_from 0 t" "child_stdin ce hc k t = Some t1"
  shows "t1 ! 0 = Some (if early_data hc then In_read else Socket) \<and> conn_at k t1 \<and> std_from 1 t1 \<and> length t1 = length t"
proof (cases "early_data hc")
  case False
  then have "t1 = t[0 := Some Socket]" 
    using assms dup_to_upd [of t k 0] by (cases t) (auto simp: child_stdin_def conn_at_def)
  moreover have "0 < length t" "k \<noteq> 0" using assms(1) by (auto simp: conn_at_def)
  ultimately show ?thesis using assms(1) False std_below [OF assms(2), of 0 1] by (simp add: conn_at_def)
next
  case True
  with assms(3) obtain p q u where p: "pipe In_read In_write t = Some (p, q, u)"
    and t1: "t1 = (if p \<noteq> 0 then close_fd p (dup_to p 0 (close_fd q u)) else close_fd q u)"
    by (auto simp: child_stdin_def Let_def split: if_splits option.splits prod.splits)
  note u = pipeD [OF p]
  have k: "p \<noteq> k" "q \<noteq> k" using u(3,4) assms(1) by (auto simp: conn_at_def)
  have c: "close_fd q u = t[p := Some In_read, q := None]" by (simp add: close_fd_def u(5))
  show ?thesis
  proof (cases "p = 0")
    case True
    have "std_from 1 (t[0 := Some In_read, q := None])" using std_upd [OF std_below [OF assms(2), of 0 1]] by simp
    moreover have "t1 = t[0 := Some In_read, q := None]" using True unfolding t1 c by simp
    moreover have "t \<noteq> []" using u(2) by auto
    ultimately show ?thesis using True u(1,2) k assms(1) \<open>early_data hc\<close> by (auto simp: conn_at_def)
  next
    case False
    have ne: "t \<noteq> []" using u(2) by auto
    have "dup_to p 0 (t[p := Some In_read, q := None]) = t[p := Some In_read, q := None, 0 := Some In_read]"
      using dup_to_upd [of "t[p := Some In_read, q := None]" p 0] u(1,2) ne by auto
    then have t: "t1 = t[p := Some In_read, q := None, 0 := Some In_read, p := None]"
      using False unfolding t1 c by (simp add: close_fd_def)
    have "t1 = t[q := None, 0 := Some In_read, p := None]" unfolding t using u(1,2) ne False
      by (intro nth_equalityI) (auto simp: nth_list_update)
    moreover have "std_from 1 (t[q := None, 0 := Some In_read, p := None])"
      using std_upd [OF std_below [OF std_upd [OF assms(2)], of _ 0 1]] by simp
    ultimately show ?thesis using u(1,2) k ne assms(1) \<open>early_data hc\<close> False by (auto simp: conn_at_def)
  qed
qed

lemma child_stdout_ok:
  assumes "conn_at k t" "std_from 1 t" "t ! 0 \<noteq> None" "child_stdout ce parsed k t = Some t1"
  shows "t1 ! 0 = t ! 0 \<and> t1 ! 1 = Some (if parsed then Out_write else Socket) \<and> t1 ! 2 = t1 ! 1 \<and>
    std_from 3 t1 \<and> length t1 = length t"
proof (cases parsed)
  case False
  have "dup_to k 1 t = t[1 := Some Socket]" using assms(1) dup_to_upd [of t k 1] by (auto simp: conn_at_def)
  moreover have "dup_to k 2 (t[1 := Some Socket]) = t[1 := Some Socket, 2 := Some Socket]"
    using assms(1) dup_to_upd [of "t[1 := Some Socket]" k 2] by (auto simp: conn_at_def)
  ultimately have t1: "t1 = t[1 := Some Socket, 2 := Some Socket]" using assms(4) False by (simp add: child_stdout_def)
  have "std_from 3 t1" unfolding t1 using assms(2) by (auto simp: std_from_def nth_list_update)
  with t1 False assms(1) show ?thesis by (auto simp: conn_at_def)
next
  case True
  with assms(4) obtain p q u where p: "pipe Out_read Out_write t = Some (p, q, u)"
    and t1: "t1 = (if q \<noteq> 1 \<and> q \<noteq> 2 then close_fd q (dup_to q 2 (dup_to q 1 (close_fd p u)))
      else dup_to q 2 (dup_to q 1 (close_fd p u)))"
    by (auto simp: child_stdout_def Let_def split: if_splits option.splits prod.splits)
  note u = pipeD [OF p]
  have l: "3 < length t" using assms(1) by (simp add: conn_at_def)
  have c: "close_fd p u = t[p := None, q := Some Out_write]" using u(1) by (simp add: close_fd_def u(5) list_update_swap)
  have p0: "p \<noteq> 0" using u(3) assms(3) by (cases p) auto
  have d1: "dup_to q 1 (t[p := None, q := Some Out_write]) = t[p := None, q := Some Out_write, 1 := Some Out_write]"
    using dup_to_upd [of "t[p := None, q := Some Out_write]" q 1] u(1,2) l by (auto simp: list_update_swap)
  have d2: "dup_to q 2 (t[p := None, q := Some Out_write, 1 := Some Out_write]) =
      t[p := None, q := Some Out_write, 1 := Some Out_write, 2 := Some Out_write]"
    using dup_to_upd [of "t[p := None, q := Some Out_write, 1 := Some Out_write]" q 2] u(1,2) l
    by (cases "q = 1") auto
  have n: "t1 ! i = (if i = 1 \<or> i = 2 then Some Out_write else if i = p \<or> i = q then None else t ! i)" if "i < length t" for i
    using that u(1,2) l unfolding t1 unfolding c unfolding d1 d2 unfolding close_fd_def by (auto simp: nth_list_update)
  have len: "length t1 = length t" unfolding t1 unfolding c unfolding d1 d2 unfolding close_fd_def by simp
  have "std_from 3 t1" using assms(2) by (auto simp: std_from_def n len)
  moreover have "t \<noteq> []" using l by auto
  ultimately show ?thesis using n [of 0] n [of 1] n [of 2] len l True p0 u(1) by simp
qed

definition only_at :: "nat set \<Rightarrow> open_file \<Rightarrow> fds \<Rightarrow> bool" where
  "only_at A f t \<longleftrightarrow> (\<forall>i<length t. t ! i = Some f \<longrightarrow> i \<in> A)"

text \<open>C37: Whatever descriptors are open, a program starts with the connection or the right end of a pipe as its
  standard input, output and error, and with no other end of the pipes, so that its input ends when the sender ends.\<close>

theorem cgi_child_descriptors:
  assumes "3 < length (fd_table ce)" "nat (conn_fd hc) < length (fd_table ce)"
    "fd_table ce ! nat (conn_fd hc) = Some Socket"
    "set (fd_table ce) \<subseteq> {None, Some Socket, Some Other}"
    "cgi_child v e ce mt hc = Exec dir binary argp envp t"
  shows "t ! 0 = Some (if early_data hc then In_read else Socket) \<and>
    t ! 1 = Some (if parsed_headers hc argp then Out_write else Socket) \<and> t ! 2 = t ! 1 \<and>
    only_at {0} In_read t \<and> only_at {1, 2} Out_write t \<and> only_at {} In_write t \<and> only_at {} Out_read t"
proof -
  obtain k t0 where m: "move_conn (nat (conn_fd hc)) (fd_table ce) = (k, t0)" by (cases "move_conn (nat (conn_fd hc)) (fd_table ce)")
  from assms(5) obtain t1 where i: "child_stdin ce hc k t0 = Some t1" and o: "child_stdout ce (parsed_headers hc argp) k t1 = Some t"
    by (auto simp: cgi_child_def m child_error_def split: option.splits prod.splits if_splits)
  have "std_from 0 (fd_table ce)" using assms(4) nth_mem by (fastforce simp: std_from_def)
  from move_conn_ok [OF assms(1,2,3) this m] have a: "conn_at k t0" "std_from 0 t0" "length t0 = length (fd_table ce)" by simp_all
  from child_stdin_ok [OF a(1,2) i] have b: "t1 ! 0 = Some (if early_data hc then In_read else Socket)" "conn_at k t1"
    "std_from 1 t1" "length t1 = length t0" by simp_all
  from child_stdout_ok [OF b(2,3) _ o] b(1) have c: "t ! 0 = t1 ! 0" "t ! 1 = Some (if parsed_headers hc argp then Out_write else Socket)"
    "t ! 2 = t ! 1" "std_from 3 t" by simp_all
  have "t ! i \<in> {None, Some Socket, Some Other}" if "i < length t" "i \<noteq> 0" "i \<noteq> 1" "i \<noteq> 2" for i
    using c(4) that by (simp add: std_from_def)
  then show ?thesis using c(1,2,3) b(1) by (fastforce simp: only_at_def split: if_splits)
qed

section \<open>Examples\<close>

definition cgi_web :: web where "cgi_web = plain_web\<lparr>cgi_pattern := Some ''**.cgi''\<rparr>"
definition cgi_host :: host where "cgi_host = \<lparr>port = 80, client_addr = ''10.0.0.1'', tz = None\<rparr>"

theorem cgi_environment_witness:
  "\<exists>env. make_envp cgi_web cgi_host (get_conn_for ''a.cgi'') = Some env \<and> getenv ''SCRIPT_NAME'' env = Some ''/a.cgi'' \<and>
    getenv ''HTTP_PROXY'' env = None"
proof -
  have "cgi_pattern cgi_web = Some ''**.cgi''" by (simp add: cgi_web_def)
  from cgi_environment [OF this, of cgi_host "get_conn_for ''a.cgi''"] obtain env
    where e: "make_envp cgi_web cgi_host (get_conn_for ''a.cgi'') = Some env"
      "CHR ''='' \<notin> set n \<Longrightarrow> getenv n env =
        (case map_of (cgi_table cgi_web cgi_host ''**.cgi'' (get_conn_for ''a.cgi'')) n of None \<Rightarrow> None | Some x \<Rightarrow> x)" for n
    by blast
  show ?thesis using e(1) e(2) [of "''SCRIPT_NAME''"] e(2) [of "''HTTP_PROXY''"]
    by (simp add: cgi_table_def get_conn_for_def)
qed

theorem cgi_arguments_roundtrip_witness:
  "make_argp (idle_conn\<lparr>query := \<lparr>str = encoded_words [''a+b'', ''x=1''], maxsize = 200\<rparr>, expnfilename := \<lparr>str = ''bin/run'', maxsize = 200\<rparr>\<rparr>) =
    Some [''run'', ''a+b'', ''x=1'']"
  using cgi_arguments_roundtrip [of "idle_conn\<lparr>query := \<lparr>str = encoded_words [''a+b'', ''x=1''], maxsize = 200\<rparr>,
      expnfilename := \<lparr>str = ''bin/run'', maxsize = 200\<rparr>\<rparr>" "[''a+b'', ''x=1'']"]
  by (simp add: file_part_def)

definition post_conn :: http_conn where
  "post_conn = (get_conn_for ''a.cgi'')\<lparr>hc_method := METHOD_POST, checked_idx := 0, read_idx := 1, conn_fd := 1\<rparr>"

definition bare_child :: child_env where
  \<comment> \<open>the server has closed its standard descriptors and the connection is the second of them\<close>
  "bare_child = \<lparr>fd_table = [Some Other, Some Socket, None, Some Other, None, None], pipes_ok = (True, True),
     forks_ok = (True, True), strdup_ok = True, execve_ok = True\<rparr>"

theorem cgi_child_descriptors_witness:
  "\<exists>dir binary argp envp t. cgi_child cgi_web cgi_host bare_child 0 post_conn = Exec dir binary argp envp t \<and>
    t ! 0 = Some In_read \<and> t ! 1 = Some Out_write \<and> t ! 2 = Some Out_write \<and> only_at {} In_write t"
proof -
  have c: "cgi_pattern cgi_web = Some ''**.cgi''" by (simp add: cgi_web_def)
  have p: "early_data post_conn" "nat (conn_fd post_conn) = 1" "mime_flag post_conn" "str (expnfilename post_conn) = ''a.cgi''"
    by (simp_all add: post_conn_def early_data_def get_conn_for_def)
  have a: "parsed_headers post_conn (''a.cgi'' # r)" for r by (simp add: parsed_headers_def p strneq_def)
  have f: "file_part ''a.cgi'' = ''a.cgi''" by (simp add: file_part_def)
  have m: "move_conn (nat (conn_fd post_conn)) (fd_table bare_child) = (3, [Some Other, Some Socket, None, Some Socket, None, None])"
    unfolding p(2) by code_simp
  have i: "child_stdin bare_child post_conn 3 [Some Other, Some Socket, None, Some Socket, None, None] =
      Some [Some In_read, Some Socket, None, Some Socket, None, None]"
    unfolding child_stdin_def if_P [OF p(1)] by code_simp
  have o: "child_stdout bare_child True 3 [Some In_read, Some Socket, None, Some Socket, None, None] =
      Some [Some In_read, Some Out_write, Some Out_write, Some Socket, None, None]" by code_simp
  obtain dir binary argp envp t where
    e: "cgi_child cgi_web cgi_host bare_child 0 post_conn = Exec dir binary argp envp t" and h: "parsed_headers post_conn argp"
    using make_envp_is [OF c, of cgi_host post_conn] make_argp_is [of post_conn] a
    by (simp add: cgi_child_def p(4) m i f o split_program_def bare_child_def [THEN arg_cong [of _ _ execve_ok]])
  have "3 < length (fd_table bare_child)" "nat (conn_fd post_conn) < length (fd_table bare_child)"
    "fd_table bare_child ! nat (conn_fd post_conn) = Some Socket" "set (fd_table bare_child) \<subseteq> {None, Some Socket, Some Other}"
    by (simp_all add: bare_child_def p(2))
  from cgi_child_descriptors [OF this e] p(1) h e show ?thesis by auto
qed


end
