(* ===== verification/Th_List.thy ===== *)
theory Th_List
  imports Th_Cgi Th_Search
begin

text \<open>
  The child process that lists a directory, \<open>ls\<close> of \<open>src/others/thttpd-2.29/libhttpd.c\<close>: the names are
  sorted with \<open>name_compare\<close>, looked up, and printed one row each, with buffers that keep their sizes from row to row.
  What \<open>stat\<close>, \<open>lstat\<close>, \<open>readlink\<close>, \<open>ctime\<close> and \<open>time\<close> answer are parameters, as are the names that
  \<open>readdir\<close> gave.
\<close>

section \<open>An entry\<close>

record lstat_data =
  l_mode :: "32 word"
  l_nlink :: int
  l_size :: int
  l_mtime :: int

record ls_env =
  ls_stat :: "string \<Rightarrow> 32 word option"  \<comment> \<open>the mode\<close>
  ls_lstat :: "string \<Rightarrow> lstat_data option"
  ls_readlink :: "string \<Rightarrow> string option"
  ls_ctime :: "int \<Rightarrow> string"  \<comment> \<open>\<open>ctime\<close>, 25 characters\<close>
  ls_time :: int
  fdopen_ok :: bool

definition file_type :: "32 word \<Rightarrow> 32 word" where "file_type m = and m 0xF000"
definition S_IWOTH :: "32 word" where "S_IWOTH = 2"

definition type_char :: "32 word \<Rightarrow> char" where
  "type_char m =
     (let t = file_type m
      in if t = 0x1000 then CHR ''p'' else if t = 0x2000 then CHR ''c'' else if t = 0x4000 then CHR ''d''
         else if t = 0x6000 then CHR ''b'' else if t = 0x8000 then CHR ''-'' else if t = 0xC000 then CHR ''s''
         else if t = 0xA000 then CHR ''l'' else CHR ''?'')"

definition mode_word :: "32 word \<Rightarrow> string" where
  "mode_word m =
     [type_char m, if has_bits m S_IROTH then CHR ''r'' else CHR ''-'',
      if has_bits m S_IWOTH then CHR ''w'' else CHR ''-'', if has_bits m S_IXOTH then CHR ''x'' else CHR ''-'']"

definition time_word :: "int \<Rightarrow> int \<Rightarrow> string \<Rightarrow> string" where
  \<comment> \<open>\<open>now\<close>, \<open>st_mtime\<close> and the array of \<open>ctime\<close>, rearranged in place\<close>
  "time_word nw mt t =
     (let t = t[0 := t ! 4]; t = t[1 := t ! 5]; t = t[2 := t ! 6]; t = t[3 := CHR '' ''];
          t = t[4 := t ! 8]; t = t[5 := t ! 9]; t = t[6 := CHR '' ''];
          t = (if 60 * 60 * 24 * 182 < nw - mt
               then (let t = t[7 := CHR '' '']; t = t[8 := t ! 20]; t = t[9 := t ! 21]; t = t[10 := t ! 22]
                     in t[11 := t ! 23])
               else (let t = t[7 := t ! 11]; t = t[8 := t ! 12]; t = t[9 := CHR '':'']; t = t[10 := t ! 14]
                     in t[11 := t ! 15]))
      in take 12 t)"

definition file_class :: "32 word \<Rightarrow> string" where
  "file_class m =
     (let t = file_type m
      in if t = 0x4000 then ''/'' else if t = 0xC000 then ''='' else if t = 0xA000 then ''@''
         else if has_bits m S_IXOTH then ''*'' else [])"

definition padded :: "nat \<Rightarrow> string \<Rightarrow> string" where
  "padded n s = replicate (n - length s) (CHR '' '') @ s"

definition link_text :: "ls_env \<Rightarrow> string \<Rightarrow> 32 word \<Rightarrow> string" where
  \<comment> \<open>\<open>linkprefix\<close> and \<open>lnk\<close>\<close>
  "link_text le path m =
     (if file_type m = 0xA000
      then (case ls_readlink le path of None \<Rightarrow> [] | Some l \<Rightarrow> '' -&gt; '' @ cstr (take 4096 l))
      else [])"

definition ls_line :: "ls_env \<Rightarrow> string \<Rightarrow> string \<Rightarrow> string \<Rightarrow> 32 word \<Rightarrow> lstat_data \<Rightarrow> string" where
  \<comment> \<open>path, \<open>encrname\<close>, name, the mode of the file, what \<open>lstat\<close> says\<close>
  "ls_line le path enc nm m l =
     mode_word (l_mode l) @ '' '' @ padded 3 (dec_int (l_nlink l)) @ ''  '' @ padded 10 (dec_int (l_size l)) @ ''  '' @
     time_word (ls_time le) (l_mtime l) (ls_ctime le (l_mtime l)) @ ''  <a href=\"/'' @ take 500 enc @
     (if file_type m = 0x4000 then ''/'' else []) @ ''\">'' @ take 80 nm @ ''</a>'' @ link_text le path (l_mode l) @
     file_class m @ [LF]"

section \<open>The listing\<close>

definition grow :: "nat \<Rightarrow> nat \<Rightarrow> nat" where
  \<comment> \<open>what \<open>httpd_realloc_str\<close> makes of a buffer's size\<close>
  "grow sz m = maxsize (httpd_realloc_str sz \<lparr>str = [], maxsize = m\<rparr>)"

fun name_compare :: "string \<Rightarrow> string \<Rightarrow> int" where
  "name_compare a b = strcmp a b"

definition top_level :: "http_conn \<Rightarrow> bool" where
  "top_level hc \<longleftrightarrow> str (expnfilename hc) = [] \<or> str (expnfilename hc) = ''.''"

fun ls_rows :: "ls_env \<Rightarrow> http_conn \<Rightarrow> nat \<Rightarrow> nat \<Rightarrow> nat \<Rightarrow> string list \<Rightarrow> string list" where
  \<comment> \<open>\<open>maxname\<close>, \<open>maxrname\<close>, \<open>maxencrname\<close>, the sorted names\<close>
  "ls_rows le hc mn mr me [] = []"
| "ls_rows le hc mn mr me (d # ds) =
     (let mn = grow (length (str (expnfilename hc)) + 1 + length d) mn;
          mr = grow (length (str (origfilename hc)) + 1 + length d) mr;
          path = (if top_level hc then d else snprintf mn (str (expnfilename hc) @ ''/'' @ d));
          rname = (if top_level hc then d
                   else if str (origfilename hc) = ''.'' then snprintf mr d
                   else snprintf mr (str (origfilename hc) @ d));
          me = grow (3 * length rname + 1) me;
          enc = strencode 0 (int me) rname;
          rest = ls_rows le hc mn mr me ds
      in case ls_stat le path of
           None \<Rightarrow> rest
         | Some m \<Rightarrow>
             (case ls_lstat le path of
                None \<Rightarrow> rest
              | Some l \<Rightarrow> ls_line le path enc d m l # rest))"

definition ls_head :: "string \<Rightarrow> string" where
  \<comment> \<open>of \<open>encodedurl\<close>\<close>
  "ls_head url =
     ''<!DOCTYPE html PUBLIC \"-//W3C//DTD HTML 4.01 Transitional//EN\" \"http://www.w3.org/TR/html4/loose.dtd\">'' @ [LF, LF] @
     ''<html>'' @ [LF, LF] @ ''  <head>'' @ [LF] @
     ''    <meta http-equiv=\"Content-type\" content=\"text/html;charset=UTF-8\">'' @ [LF] @
     ''    <title>Index of '' @ take 80 url @ ''</title>'' @ [LF] @ ''  </head>'' @ [LF, LF] @
     ''  <body bgcolor=\"#99cc99\" text=\"#000000\" link=\"#2020ff\" vlink=\"#4040cc\">'' @ [LF, LF] @
     ''    <h2>Index of '' @ take 80 url @ ''</h2>'' @ [LF, LF] @ ''    <pre>'' @ [LF] @
     ''mode  links    bytes  last-changed  name'' @ [LF] @ ''    <hr>''"

definition ls_tail :: string where
  "ls_tail = ''    </pre>'' @ [LF] @ ''  </body>'' @ [LF] @ ''</html>'' @ [LF]"

definition ls_child :: "web \<Rightarrow> ls_env \<Rightarrow> int \<Rightarrow> http_conn \<Rightarrow> string list \<Rightarrow> string" where
  \<comment> \<open>\<open>st_mtime\<close> of the directory and the names in it; all that is written to the client\<close>
  "ls_child v le mt hc names =
     (case httpd_write_response
             (send_mime (page_site v) mt hc 200 ok200title [] [] ''text/html; charset=%s'' (-1) mt) of
        (out, hc1) \<Rightarrow>
          if \<not> fdopen_ok le
          then out @ fst (httpd_write_response
                 (httpd_send_err (page_site v) mt hc1 500 err500title [] err500form (encodedurl hc1)))
          else out @ ls_head (encodedurl hc1) @ concat (ls_rows le hc1 0 0 0 (qsort name_compare names)) @ ls_tail)"

section \<open>Every name, in order\<close>

definition entry_path :: "http_conn \<Rightarrow> string \<Rightarrow> string" where
  "entry_path hc d = (if top_level hc then d else str (expnfilename hc) @ ''/'' @ d)"

definition entry_url :: "http_conn \<Rightarrow> string \<Rightarrow> string" where
  "entry_url hc d = (if top_level hc \<or> str (origfilename hc) = ''.'' then d else str (origfilename hc) @ d)"

definition entry_row :: "ls_env \<Rightarrow> http_conn \<Rightarrow> (string \<Rightarrow> string) \<Rightarrow> string \<Rightarrow> string list" where
  \<comment> \<open>with the text of the link as a function of the name\<close>
  "entry_row le hc enc d =
     (case (ls_stat le (entry_path hc d), ls_lstat le (entry_path hc d)) of
        (Some m, Some l) \<Rightarrow> [ls_line le (entry_path hc d) (enc d) d m l]
      | _ \<Rightarrow> [])"

fun never_filled :: "http_conn \<Rightarrow> nat \<Rightarrow> nat \<Rightarrow> nat \<Rightarrow> string list \<Rightarrow> bool" where
  \<comment> \<open>no path is just as long as the buffer it comes into, nor the room for an encoded link just what was asked for\<close>
  "never_filled hc mn mr me [] = True"
| "never_filled hc mn mr me (d # ds) =
     (let sn = length (str (expnfilename hc)) + 1 + length d; se = 3 * length (entry_url hc d) + 1
      in grow sn mn \<noteq> sn \<and> grow se me \<noteq> se \<and>
         never_filled hc (grow sn mn) (grow (length (str (origfilename hc)) + 1 + length d) mr) (grow se me) ds)"

definition encoded :: "string \<Rightarrow> string" where
  \<comment> \<open>with room enough\<close>
  "encoded s = strencode 0 (3 * int (length s) + 2) s"

lemma grow_0: "grow sz 0 = max 200 (sz + 100)"
  by (simp add: grow_def httpd_realloc_str_def)

lemma grow_enough: "sz \<le> grow sz m"
  using realloc_size [of sz "\<lparr>str = [], maxsize = m\<rparr>"] by (simp add: grow_def)

lemma grow_room: "grow sz m \<noteq> sz \<Longrightarrow> sz < grow sz m"
  using grow_enough [of sz m] by simp

lemma snprintf_whole: "length s < m \<Longrightarrow> snprintf m s = s"
  by (simp add: snprintf_def)

lemma strencode_room:
  "int (n + 3 * length s + 1) < sz \<Longrightarrow> int (n + 3 * length s + 1) < sz' \<Longrightarrow> strencode n sz s = strencode n sz' s"
  by (induction s arbitrary: n) auto

lemma length_strencode: "length (strencode n sz s) \<le> 3 * length s"
proof (induction s arbitrary: n)
  case (Cons c s)
  show ?case using Cons.IH [of "n + 1"] Cons.IH [of "n + 3"] by (auto simp: hex2_def)
qed simp

lemma ls_rows_whole:
  assumes "never_filled hc mn mr me ds"
  shows "ls_rows le hc mn mr me ds = concat (map (entry_row le hc (\<lambda>d. encoded (entry_url hc d))) ds)"
  using assms
proof (induction ds arbitrary: mn mr me)
  case (Cons d ds)
  let ?mn = "grow (length (str (expnfilename hc)) + 1 + length d) mn"
    and ?mr = "grow (length (str (origfilename hc)) + 1 + length d) mr"
    and ?me = "grow (3 * length (entry_url hc d) + 1) me"
  have n: "length (str (expnfilename hc)) + 1 + length d < ?mn" "3 * length (entry_url hc d) + 1 < ?me"
    "never_filled hc ?mn ?mr ?me ds"
    using Cons.prems grow_room by (simp_all add: Let_def)
  have r: "length (str (origfilename hc)) + length d < ?mr"
    using grow_enough [of "length (str (origfilename hc)) + 1 + length d" mr] by simp
  have p: "(if top_level hc then d else snprintf ?mn (str (expnfilename hc) @ ''/'' @ d)) = entry_path hc d"
    using n(1) by (auto simp: entry_path_def intro!: snprintf_whole)
  have q: "(if top_level hc then d else if str (origfilename hc) = ''.'' then snprintf ?mr d
      else snprintf ?mr (str (origfilename hc) @ d)) = entry_url hc d"
    using r by (auto simp: entry_url_def intro!: snprintf_whole)
  have e: "strencode 0 (int ?me) (entry_url hc d) = encoded (entry_url hc d)"
    unfolding encoded_def using n(2) by (intro strencode_room) auto
  have "ls_rows le hc ?mn ?mr ?me ds = concat (map (entry_row le hc (\<lambda>d. encoded (entry_url hc d))) ds)"
    by (rule Cons.IH [OF n(3)])
  then show ?case unfolding ls_rows.simps Let_def p q e
    by (simp add: entry_row_def [of _ _ _ d] split: option.split)
qed simp

text \<open>C38: While no buffer is exactly filled, every name has at most 80 characters and every encoded link at most 500, a
  listing has one row for each name that can be looked up, in the order of strcmp, and the link in it, which is printed
  whole, decodes to the URL of its entry.\<close>

theorem ls_lists_directory:
  assumes "never_filled hc 0 0 0 (qsort name_compare names)" "distinct names"
    "\<forall>d\<in>set names. length d \<le> 80 \<and> length (encoded (entry_url hc d)) \<le> 500"
  shows "\<exists>ds enc. set ds = set names \<and> sorted_wrt (\<lambda>a b. strcmp a b < 0) ds \<and>
    ls_rows le hc 0 0 0 (qsort name_compare names) = concat (map (entry_row le hc enc) ds) \<and>
    (\<forall>d\<in>set names. strdecode (enc d) = entry_url hc d \<and> take 500 (enc d) = enc d \<and> take 80 d = d)"
proof -
  let ?enc = "\<lambda>d. encoded (entry_url hc d)"
  have c: "name_compare = by_key (\<lambda>x. x)" by (simp add: fun_eq_iff by_key_def)
  have "sorted_wrt (\<lambda>a b. strcmp a b < 0) (qsort name_compare names)"
    using sorted_qsort [of "\<lambda>x. x" names] assms(2) unfolding c by simp
  moreover have "ls_rows le hc 0 0 0 (qsort name_compare names) = concat (map (entry_row le hc ?enc) (qsort name_compare names))"
    using assms(1) by (rule ls_rows_whole)
  moreover have "strdecode (?enc d) = entry_url hc d \<and> take 500 (?enc d) = ?enc d \<and> take 80 d = d" if "d \<in> set names" for d
    using assms(3) that by (auto simp: encoded_def intro!: strdecode_strencode)
  ultimately show ?thesis by (intro exI [of _ "qsort name_compare names"] exI [of _ ?enc]) simp
qed

lemma ls_name_cut:
  assumes "\<not> top_level hc" "length (str (expnfilename hc)) + length a < 100"
    "length (str (expnfilename hc)) + 1 + length b = 200" "ls_stat le (butlast (entry_path hc b)) = None"
  shows "ls_rows le hc 0 mr me [a, b] = ls_rows le hc 0 mr me [a]"
proof -
  have "grow (length (str (expnfilename hc)) + 1 + length a) 0 = 200" using assms(2) by (simp add: grow_0)
  moreover have "grow (length (str (expnfilename hc)) + 1 + length b) 200 = 200"
    using assms(3) by (simp add: grow_def httpd_realloc_str_def)
  moreover have "snprintf 200 (str (expnfilename hc) @ ''/'' @ b) = butlast (entry_path hc b)"
    using assms(1,3) by (simp add: snprintf_def entry_path_def butlast_conv_take)
  ultimately show ?thesis using assms(1,4) by (simp only: ls_rows.simps Let_def if_False) (simp split: option.split)
qed

definition plain_ls :: ls_env where
  "plain_ls = \<lparr>ls_stat = (\<lambda>p. Some 0x81A4), ls_lstat = (\<lambda>p. Some \<lparr>l_mode = 0x81A4, l_nlink = 1, l_size = 5, l_mtime = 0\<rparr>),
     ls_readlink = (\<lambda>p. None), ls_ctime = (\<lambda>t. ''Thu Jan  1 00:00:00 1970'' @ [LF]), ls_time = 100, fdopen_ok = True\<rparr>"

lemma plain_listing:
  "never_filled (get_conn_for ''pub/'') 0 0 0 (qsort name_compare [''b b'', ''a''])"
  "\<forall>d\<in>set [''b b'', ''a'']. length d \<le> 80 \<and> length (encoded (entry_url (get_conn_for ''pub/'') d)) \<le> 500"
  by code_simp+

theorem ls_lists_directory_witness:
  "\<exists>ds enc. set ds = {''b b'', ''a''} \<and> sorted_wrt (\<lambda>a b. strcmp a b < 0) ds \<and>
    ls_rows plain_ls (get_conn_for ''pub/'') 0 0 0 (qsort name_compare [''b b'', ''a'']) = concat (map (entry_row plain_ls (get_conn_for ''pub/'') enc) ds) \<and>
    strdecode (enc ''b b'') = ''pub/b b''"
proof -
  have "distinct [''b b'', ''a'']" by simp
  from ls_lists_directory [OF plain_listing(1) this plain_listing(2), of plain_ls] obtain ds enc where e: "set ds = set [''b b'', ''a'']" "sorted_wrt (\<lambda>a b. strcmp a b < 0) ds"
    "ls_rows plain_ls (get_conn_for ''pub/'') 0 0 0 (qsort name_compare [''b b'', ''a'']) = concat (map (entry_row plain_ls (get_conn_for ''pub/'') enc) ds)"
    "strdecode (enc ''b b'') = entry_url (get_conn_for ''pub/'') ''b b''" by auto
  moreover have "entry_url (get_conn_for ''pub/'') ''b b'' = ''pub/b b''" by (simp add: entry_url_def top_level_def get_conn_for_def)
  ultimately show ?thesis by (intro exI [of _ ds] exI [of _ enc]) simp
qed

end
