(* ===== verification/Th_Options.thy ===== *)
theory Th_Options
  imports Th_Auth
begin

text \<open>
  The options of the server, \<open>parse_args\<close> and \<open>read_config\<close> of \<open>src/others/thttpd-2.29/thttpd.c\<close>. The
  global variables they set are a record; each chain of comparisons is a table of its names, in its order, with what
  the case does. The build is the default one of \<open>config.h\<close>. Without memory \<open>e_strdup\<close> ends the process.
\<close>

section \<open>Settings\<close>

record settings =
  c_debug :: bool
  c_port :: "16 word"
  c_dir :: "string option"
  c_data_dir :: "string option"
  c_chroot :: bool
  c_no_log :: bool
  c_no_symlink_check :: bool
  c_vhost :: bool
  c_global_passwd :: bool
  c_cgi_pattern :: "string option"
  c_cgi_limit :: int
  c_url_pattern :: "string option"
  c_no_empty_referrers :: bool
  c_local_pattern :: "string option"
  c_throttlefile :: "string option"
  c_hostname :: "string option"
  c_logfile :: "string option"
  c_pidfile :: "string option"
  c_user :: string
  c_charset :: string
  c_p3p :: string
  c_max_age :: int

definition DEFAULT_PORT :: int where "DEFAULT_PORT = 80"
definition DEFAULT_USER :: string where "DEFAULT_USER = ''nobody''"
definition DEFAULT_CHARSET :: string where "DEFAULT_CHARSET = ''UTF-8''"
definition CGI_LIMIT :: int where "CGI_LIMIT = 50"

definition default_settings :: settings where
  "default_settings =
     \<lparr>c_debug = False, c_port = word_of_int DEFAULT_PORT, c_dir = None, c_data_dir = None, c_chroot = False,
      c_no_log = False, c_no_symlink_check = False, c_vhost = False, c_global_passwd = False,
      c_cgi_pattern = None, c_cgi_limit = CGI_LIMIT, c_url_pattern = None, c_no_empty_referrers = False,
      c_local_pattern = None, c_throttlefile = None, c_hostname = None, c_logfile = None, c_pidfile = None,
      c_user = DEFAULT_USER, c_charset = DEFAULT_CHARSET, c_p3p = [], c_max_age = - 1\<rparr>"

datatype parsed =
    Settings settings
  | Version  \<comment> \<open>\<open>exit(0)\<close> after the version was printed\<close>
  | Refused_options  \<comment> \<open>\<open>exit(1)\<close> after a message\<close>

definition set_port :: "string \<Rightarrow> settings \<Rightarrow> settings" where
  "set_port v s = s\<lparr>c_port := word_of_int (atoi v)\<rparr>"

definition set_chroot :: "bool \<Rightarrow> settings \<Rightarrow> settings" where
  "set_chroot b s = s\<lparr>c_chroot := b, c_no_symlink_check := b\<rparr>"

section \<open>The configuration file\<close>

definition config_flags :: "(string \<times> (settings \<Rightarrow> settings)) list" where
  \<comment> \<open>the cases that take no value, in the order of the tests\<close>
  "config_flags =
     [(''debug'', \<lambda>s. s\<lparr>c_debug := True\<rparr>),
      (''chroot'', set_chroot True),
      (''nochroot'', set_chroot False),
      (''nosymlinkcheck'', \<lambda>s. s\<lparr>c_no_symlink_check := True\<rparr>),
      (''symlinkcheck'', \<lambda>s. s\<lparr>c_no_symlink_check := False\<rparr>),
      (''noemptyreferers'', \<lambda>s. s\<lparr>c_no_empty_referrers := True\<rparr>),
      (''noemptyreferrers'', \<lambda>s. s\<lparr>c_no_empty_referrers := True\<rparr>),
      (''vhost'', \<lambda>s. s\<lparr>c_vhost := True\<rparr>),
      (''novhost'', \<lambda>s. s\<lparr>c_vhost := False\<rparr>),
      (''globalpasswd'', \<lambda>s. s\<lparr>c_global_passwd := True\<rparr>),
      (''noglobalpasswd'', \<lambda>s. s\<lparr>c_global_passwd := False\<rparr>)]"

definition config_values :: "(string \<times> (string \<Rightarrow> settings \<Rightarrow> settings)) list" where
  \<comment> \<open>the cases that need one\<close>
  "config_values =
     [(''port'', set_port),
      (''dir'', \<lambda>v s. s\<lparr>c_dir := Some v\<rparr>),
      (''data_dir'', \<lambda>v s. s\<lparr>c_data_dir := Some v\<rparr>),
      (''user'', \<lambda>v s. s\<lparr>c_user := v\<rparr>),
      (''cgipat'', \<lambda>v s. s\<lparr>c_cgi_pattern := Some v\<rparr>),
      (''cgilimit'', \<lambda>v s. s\<lparr>c_cgi_limit := atoi v\<rparr>),
      (''urlpat'', \<lambda>v s. s\<lparr>c_url_pattern := Some v\<rparr>),
      (''localpat'', \<lambda>v s. s\<lparr>c_local_pattern := Some v\<rparr>),
      (''throttles'', \<lambda>v s. s\<lparr>c_throttlefile := Some v\<rparr>),
      (''host'', \<lambda>v s. s\<lparr>c_hostname := Some v\<rparr>),
      (''logfile'', \<lambda>v s. s\<lparr>c_logfile := Some v\<rparr>),
      (''pidfile'', \<lambda>v s. s\<lparr>c_pidfile := Some v\<rparr>),
      (''charset'', \<lambda>v s. s\<lparr>c_charset := v\<rparr>),
      (''p3p'', \<lambda>v s. s\<lparr>c_p3p := v\<rparr>),
      (''max_age'', \<lambda>v s. s\<lparr>c_max_age := atoi v\<rparr>)]"

fun look_up :: "string \<Rightarrow> (string \<times> 'a) list \<Rightarrow> 'a option" where
  \<comment> \<open>the first case whose name \<open>strcasecmp\<close> accepts\<close>
  "look_up n [] = None"
| "look_up n ((k, x) # t) = (if strcaseeq n k then Some x else look_up n t)"

definition interpret_word :: "string \<Rightarrow> settings \<Rightarrow> parsed" where
  "interpret_word w s =
     (let nm = takeWhile (\<lambda>c. c \<noteq> CHR ''='') w;
          vl = (case dropWhile (\<lambda>c. c \<noteq> CHR ''='') w of [] \<Rightarrow> None | _ # v \<Rightarrow> Some v)
      in case look_up nm config_flags of
           Some f \<Rightarrow> if vl \<noteq> None then Refused_options else Settings (f s)
         | None \<Rightarrow>
             (case look_up nm config_values of
                None \<Rightarrow> Refused_options
              | Some f \<Rightarrow> (case vl of None \<Rightarrow> Refused_options | Some v \<Rightarrow> Settings (f v s))))"

definition blank :: "char \<Rightarrow> bool" where
  "blank c \<longleftrightarrow> c = CHR '' '' \<or> c = CHR 0x09 \<or> c = LF \<or> c = CR"

lemma word_shorter: "cp \<noteq> [] \<Longrightarrow> length (dropWhile blank (dropWhile blank (drop (length (takeWhile (\<lambda>c. \<not> blank c) cp)) cp))) < length cp"
proof (cases cp)
  case (Cons c t)
  have l: "length (dropWhile P x) \<le> length x" for P :: "char \<Rightarrow> bool" and x by (rule length_dropWhile_le)
  show ?thesis
  proof (cases "blank c")
    case True
    then show ?thesis using l [of blank "dropWhile blank t"] l [of blank t] Cons by (auto simp: less_Suc_eq_le intro: le_trans)
  next
    case False
    let ?r = "drop (length (takeWhile (\<lambda>c. \<not> blank c) t)) t"
    have "length (dropWhile blank (dropWhile blank ?r)) \<le> length t"
      using l [of blank "dropWhile blank ?r"] l [of blank ?r] by simp
    then show ?thesis using False Cons by simp
  qed
qed simp

function word_loop :: "string \<Rightarrow> settings \<Rightarrow> parsed" where
  \<comment> \<open>the text from \<open>cp\<close> on\<close>
  "word_loop cp s =
     (if cp = [] then Settings s
      else (let w = takeWhile (\<lambda>c. \<not> blank c) cp; cp2 = dropWhile blank (drop (length w) cp)
            in case interpret_word w s of
                 Settings s1 \<Rightarrow> word_loop (dropWhile blank cp2) s1
               | e \<Rightarrow> e))"
  by pat_completeness auto
termination
  by (relation "measure (\<lambda>(cp, s). length cp)") (auto simp: word_shorter simp del: dropWhile_idem)

declare word_loop.simps [simp del]

definition config_line :: "string \<Rightarrow> settings \<Rightarrow> parsed" where
  \<comment> \<open>of the array that \<open>fgets\<close> filled\<close>
  "config_line ln s = word_loop (dropWhile blank (takeWhile (\<lambda>c. c \<noteq> CHR ''#'') (cstr ln))) s"

function config_lines :: "string \<Rightarrow> settings \<Rightarrow> parsed" where
  "config_lines file s =
     (if file = [] then Settings s
      else (case fgets 10000 file of
              (ln, r) \<Rightarrow> (case config_line ln s of Settings s1 \<Rightarrow> config_lines r s1 | e \<Rightarrow> e)))"
  by pat_completeness auto
termination
  by (relation "measure (\<lambda>(file, s). length file)") (auto dest!: fgets_shorter [OF _ _ sym, rotated])

declare config_lines.simps [simp del]

definition read_config :: "string option \<Rightarrow> settings \<Rightarrow> parsed" where
  \<comment> \<open>the contents of the file, if it can be opened\<close>
  "read_config file s = (case file of None \<Rightarrow> Refused_options | Some t \<Rightarrow> config_lines t s)"

section \<open>The command line\<close>

definition arg_flags :: "(string \<times> (settings \<Rightarrow> settings)) list" where
  "arg_flags =
     [(''-r'', set_chroot True),
      (''-nor'', set_chroot False),
      (''-s'', \<lambda>s. s\<lparr>c_no_symlink_check := False\<rparr>),
      (''-nos'', \<lambda>s. s\<lparr>c_no_symlink_check := True\<rparr>),
      (''-v'', \<lambda>s. s\<lparr>c_vhost := True\<rparr>),
      (''-nov'', \<lambda>s. s\<lparr>c_vhost := False\<rparr>),
      (''-g'', \<lambda>s. s\<lparr>c_global_passwd := True\<rparr>),
      (''-nog'', \<lambda>s. s\<lparr>c_global_passwd := False\<rparr>),
      (''-D'', \<lambda>s. s\<lparr>c_debug := True\<rparr>)]"

definition arg_values :: "(string \<times> (string \<Rightarrow> settings \<Rightarrow> settings)) list" where
  "arg_values =
     [(''-p'', set_port),
      (''-d'', \<lambda>v s. s\<lparr>c_dir := Some v\<rparr>),
      (''-dd'', \<lambda>v s. s\<lparr>c_data_dir := Some v\<rparr>),
      (''-u'', \<lambda>v s. s\<lparr>c_user := v\<rparr>),
      (''-c'', \<lambda>v s. s\<lparr>c_cgi_pattern := Some v\<rparr>),
      (''-t'', \<lambda>v s. s\<lparr>c_throttlefile := Some v\<rparr>),
      (''-h'', \<lambda>v s. s\<lparr>c_hostname := Some v\<rparr>),
      (''-l'', \<lambda>v s. s\<lparr>c_logfile := Some v\<rparr>),
      (''-i'', \<lambda>v s. s\<lparr>c_pidfile := Some v\<rparr>),
      (''-T'', \<lambda>v s. s\<lparr>c_charset := v\<rparr>),
      (''-P'', \<lambda>v s. s\<lparr>c_p3p := v\<rparr>),
      (''-M'', \<lambda>v s. s\<lparr>c_max_age := atoi v\<rparr>)]"

function args_loop :: "(string \<Rightarrow> string option) \<Rightarrow> string list \<Rightarrow> settings \<Rightarrow> parsed" where
  \<comment> \<open>the files, the arguments from \<open>argv[argn]\<close> on\<close>
  "args_loop files [] s = Settings s"
| "args_loop files (a # r) s =
     (if a = [] \<or> hd a \<noteq> CHR ''-'' then Refused_options
      else if a = ''-V'' then Version
      else if a = ''-C'' \<and> r \<noteq> []
      then (case read_config (files (hd r)) s of Settings s1 \<Rightarrow> args_loop files (tl r) s1 | e \<Rightarrow> e)
      else (case map_of arg_flags a of
              Some f \<Rightarrow> args_loop files r (f s)
            | None \<Rightarrow>
                (case map_of arg_values a of
                   None \<Rightarrow> Refused_options
                 | Some f \<Rightarrow> if r = [] then Refused_options else args_loop files (tl r) (f (hd r) s))))"
  by pat_completeness auto
termination
  by (relation "measure (\<lambda>(files, as, s). length as)") auto

definition parse_args :: "(string \<Rightarrow> string option) \<Rightarrow> string list \<Rightarrow> parsed" where
  \<comment> \<open>without \<open>argv[0]\<close>\<close>
  "parse_args files args = args_loop files args default_settings"

section \<open>The same settings either way\<close>

datatype opt = Plain string string | Valued string string string  \<comment> \<open>flag, name in the file, value\<close>

definition both_flags :: "(string \<times> string) list" where
  "both_flags =
     [(''-r'', ''chroot''), (''-nor'', ''nochroot''), (''-s'', ''symlinkcheck''), (''-nos'', ''nosymlinkcheck''),
      (''-v'', ''vhost''), (''-nov'', ''novhost''), (''-g'', ''globalpasswd''), (''-nog'', ''noglobalpasswd''),
      (''-D'', ''debug'')]"

definition both_values :: "(string \<times> string) list" where
  "both_values =
     [(''-p'', ''port''), (''-d'', ''dir''), (''-dd'', ''data_dir''), (''-u'', ''user''), (''-c'', ''cgipat''),
      (''-t'', ''throttles''), (''-h'', ''host''), (''-l'', ''logfile''), (''-i'', ''pidfile''), (''-T'', ''charset''),
      (''-P'', ''p3p''), (''-M'', ''max_age'')]"

definition config_text :: "string \<Rightarrow> bool" where
  \<comment> \<open>can stand in the file\<close>
  "config_text v \<longleftrightarrow> (\<forall>c\<in>set v. \<not> blank c \<and> c \<noteq> CHR ''#'' \<and> c \<noteq> NUL) \<and> length v < 9900"

fun opt_ok :: "opt \<Rightarrow> bool" where
  "opt_ok (Plain a w) = ((a, w) \<in> set both_flags)"
| "opt_ok (Valued a w v) = ((a, w) \<in> set both_values \<and> config_text v)"

fun opt_known :: "opt \<Rightarrow> bool" where
  "opt_known (Plain a w) = ((a, w) \<in> set both_flags)"
| "opt_known (Valued a w v) = ((a, w) \<in> set both_values)"

fun opt_value :: "opt \<Rightarrow> string option" where
  "opt_value (Plain a w) = None"
| "opt_value (Valued a w v) = Some v"

lemma opt_ok_iff: "opt_ok x \<longleftrightarrow> opt_known x \<and> (\<forall>v. opt_value x = Some v \<longrightarrow> config_text v)"
  by (cases x) auto

fun opt_args :: "opt \<Rightarrow> string list" where
  "opt_args (Plain a w) = [a]"
| "opt_args (Valued a w v) = [a, v]"

fun opt_word :: "opt \<Rightarrow> string" where
  "opt_word (Plain a w) = w"
| "opt_word (Valued a w v) = w @ CHR ''='' # v"

fun opt_effect :: "opt \<Rightarrow> settings \<Rightarrow> settings" where
  "opt_effect (Plain a w) s = (case map_of arg_flags a of Some f \<Rightarrow> f s | None \<Rightarrow> s)"
| "opt_effect (Valued a w v) s = (case map_of arg_values a of Some f \<Rightarrow> f v s | None \<Rightarrow> s)"

lemma both_flags_args:
  "\<forall>(a, w)\<in>set both_flags. a \<noteq> [] \<and> hd a = CHR ''-'' \<and> a \<noteq> ''-V'' \<and> a \<noteq> ''-C'' \<and> map_of arg_flags a \<noteq> None"
  by (simp add: both_flags_def arg_flags_def)

lemma both_values_args:
  "\<forall>(a, w)\<in>set both_values. a \<noteq> [] \<and> hd a = CHR ''-'' \<and> a \<noteq> ''-V'' \<and> a \<noteq> ''-C'' \<and>
     map_of arg_flags a = None \<and> map_of arg_values a \<noteq> None"
  by (simp add: both_values_def arg_flags_def arg_values_def)

lemma args_step: "opt_ok x \<Longrightarrow> args_loop files (opt_args x @ r) s = args_loop files r (opt_effect x s)"
  using both_flags_args both_values_args by (cases x) fastforce+

lemma args_steps: "\<forall>x\<in>set xs. opt_ok x \<Longrightarrow> args_loop files (concat (map opt_args xs)) s = Settings (fold opt_effect xs s)"
  by (induction xs arbitrary: s) (simp_all add: args_step)

definition lower :: "string \<Rightarrow> bool" where
  "lower w \<longleftrightarrow> list_all (\<lambda>c. c \<noteq> NUL \<and> tolower c = c) w"

lemma lower_tolower: "lower w \<Longrightarrow> map tolower (cstr w) = w"
  by (induction w) (auto simp: lower_def)

lemma look_up_lower: "lower n \<Longrightarrow> list_all (\<lambda>p. lower (fst p)) tab \<Longrightarrow> look_up n tab = map_of tab n"
  by (induction n tab rule: look_up.induct) (auto simp: strcaseeq_def lower_tolower)

lemma config_lower: "list_all (\<lambda>p. lower (fst p)) config_flags" "list_all (\<lambda>p. lower (fst p)) config_values"
  by code_simp+

lemma both_lower: "\<forall>(a, w)\<in>set both_flags. lower w" "\<forall>(a, w)\<in>set both_values. lower w"
  by code_simp+

lemma both_flags_config:
  "\<forall>(a, w)\<in>set both_flags. CHR ''='' \<notin> set w \<and> map_of config_flags w = map_of arg_flags a"
  by (simp add: both_flags_def arg_flags_def config_flags_def)

lemma both_values_config:
  "\<forall>(a, w)\<in>set both_values. CHR ''='' \<notin> set w \<and> map_of config_flags w = None \<and> map_of config_values w = map_of arg_values a"
  by (simp add: both_values_def arg_values_def config_flags_def config_values_def)

lemma split_name:
  "CHR ''='' \<notin> set w \<Longrightarrow> takeWhile (\<lambda>c. c \<noteq> CHR ''='') (w @ CHR ''='' # v) = w \<and>
    dropWhile (\<lambda>c. c \<noteq> CHR ''='') (w @ CHR ''='' # v) = CHR ''='' # v"
  by (induction w) auto

lemma interpret_opt: "opt_ok x \<Longrightarrow> interpret_word (opt_word x) s = Settings (opt_effect x s)"
proof (cases x)
  case (Plain a w)
  assume "opt_ok x"
  then have m: "(a, w) \<in> set both_flags" by (simp add: Plain)
  then obtain f where f: "map_of arg_flags a = Some f" using both_flags_args by fastforce
  have "lower w" using both_lower(1) m by fastforce
  then have l: "look_up w config_flags = Some f" "CHR ''='' \<notin> set w"
    using look_up_lower [OF _ config_lower(1)] both_flags_config m f by fastforce+
  then have t: "takeWhile (\<lambda>c. c \<noteq> CHR ''='') w = w" "dropWhile (\<lambda>c. c \<noteq> CHR ''='') w = []"
    by (auto simp: takeWhile_eq_all_conv dropWhile_eq_Nil_conv)
  show ?thesis by (simp add: Plain interpret_word_def Let_def l(1) f t)
next
  case (Valued a w v)
  assume "opt_ok x"
  then have m: "(a, w) \<in> set both_values" by (simp add: Valued)
  then obtain f where f: "map_of arg_values a = Some f" using both_values_args by fastforce
  have "lower w" using both_lower(2) m by fastforce
  then have l: "look_up w config_flags = None" "look_up w config_values = Some f" "CHR ''='' \<notin> set w"
    using look_up_lower [OF _ config_lower(1)] look_up_lower [OF _ config_lower(2)] both_values_config m f by fastforce+
  then show ?thesis using split_name [OF l(3), of v] by (simp add: Valued interpret_word_def l f)
qed

definition word_ok :: "string \<Rightarrow> bool" where
  "word_ok w \<longleftrightarrow> w \<noteq> [] \<and> length w < 9999 \<and> list_all (\<lambda>c. \<not> blank c \<and> c \<noteq> CHR ''#'' \<and> c \<noteq> NUL) w"

lemma both_words:
  "\<forall>(a, w)\<in>set both_flags. word_ok w" "\<forall>(a, w)\<in>set both_values. word_ok w \<and> length w < 20"
  by (simp_all add: both_flags_def both_values_def word_ok_def blank_def)

lemma opt_word_ok: "opt_ok x \<Longrightarrow> word_ok (opt_word x)"
proof (cases x)
  case (Valued a w v)
  assume "opt_ok x"
  with both_words(2) have "word_ok w" "length w < 20" "config_text v" by (fastforce simp: Valued)+
  then show ?thesis by (auto simp: Valued word_ok_def config_text_def list_all_iff blank_def)
qed (use both_words(1) in fastforce)

lemma fgets_word: 
  assumes "word_ok w"
  shows "fgets 10000 (w @ LF # r) = (w @ [LF], r)"
proof -
  have "LF \<notin> set w" using assms by (auto simp: word_ok_def list_all_iff blank_def)
  then have t: "takeWhile (\<lambda>c. c \<noteq> LF) (w @ LF # u) = w" for u by (induction w) auto
  have l: "length w < 9999" using assms by (simp add: word_ok_def)
  then have "take 9999 (w @ LF # r) = w @ LF # take (9998 - length w) r" by (simp add: take_Cons' Suc_diff_le)
  then show ?thesis using l by (simp add: fgets_def Let_def t min_def)
qed

lemma config_word: "word_ok w \<Longrightarrow> config_line (w @ [LF]) s = interpret_word w s"
proof -
  assume w: "word_ok w"
  have "NUL \<notin> set (w @ [LF])" using w by (auto simp: word_ok_def list_all_iff)
  moreover have "takeWhile (\<lambda>c. c \<noteq> CHR ''#'') (w @ [LF]) = w @ [LF]"
    using w by (auto simp: word_ok_def list_all_iff takeWhile_eq_all_conv)
  moreover have "dropWhile blank (w @ [LF]) = w @ [LF]" using w by (cases w) (auto simp: word_ok_def)
  moreover have "takeWhile (\<lambda>c. \<not> blank c) (w @ [LF]) = w"
    using w by (subst takeWhile_append2) (auto simp: word_ok_def list_all_iff blank_def)
  ultimately show ?thesis
    by (simp add: config_line_def cstr_id word_loop.simps [of "w @ [LF]"] word_loop.simps [of "[]"] Let_def blank_def [of LF] split: parsed.split)
qed

text \<open>C39: Options that exist both ways, with values that have no blank, no number sign and no NUL in them and fewer than
  9900 characters, have the same effect on the command line and, one to a line in the same order, in a configuration
  file: each in turn sets its variable, none is refused. Values with a blank are outside this, see \<open>p3p_only_by_flag\<close>.\<close>

theorem options_either_way:
  assumes "\<forall>x\<in>set xs. opt_known x" "\<forall>x\<in>set xs. \<forall>v. opt_value x = Some v \<longrightarrow> config_text v"
  shows "parse_args files (concat (map opt_args xs)) = Settings (fold opt_effect xs default_settings) \<and>
    read_config (Some (concat (map (\<lambda>x. opt_word x @ [LF]) xs))) default_settings = Settings (fold opt_effect xs default_settings)"
proof -
  have ok: "\<forall>x\<in>set xs. opt_ok x" using assms by (simp add: opt_ok_iff)
  have "config_lines (concat (map (\<lambda>x. opt_word x @ [LF]) xs)) s = Settings (fold opt_effect xs s)" for s
    using ok
  proof (induction xs arbitrary: s)
    case Nil
    show ?case by (simp add: config_lines.simps)
  next
    case (Cons x xs)
    then have x: "opt_ok x" by simp
    note w = opt_word_ok [OF x]
    show ?case using Cons
      by (simp add: config_lines.simps [of "opt_word x @ _"] fgets_word [OF w] config_word [OF w] interpret_opt [OF x])
  qed
  then show ?thesis by (simp add: parse_args_def args_steps [OF ok] read_config_def)
qed

lemma port_value: "config_text ''65616''"
  by code_simp

theorem options_either_way_witness:
  "parse_args (\<lambda>f. None) [''-p'', ''65616'', ''-r''] =
    read_config (Some (''port=65616'' @ [LF] @ ''chroot'' @ [LF])) default_settings"
  using options_either_way [of "[Valued ''-p'' ''port'' ''65616'', Plain ''-r'' ''chroot'']" "\<lambda>f. None"] port_value
  by (simp add: both_flags_def both_values_def)

text \<open>A value with a blank in it, such as a P3P policy, can be given only on the command line.\<close>

lemma p3p_only_by_flag:
  "parse_args (\<lambda>f. None) [''-P'', ''CP=NOI DSP''] = Settings (default_settings\<lparr>c_p3p := ''CP=NOI DSP''\<rparr>)"
  "config_line (''p3p=CP=NOI DSP'' @ [LF]) default_settings = Refused_options"
proof -
  show "parse_args (\<lambda>f. None) [''-P'', ''CP=NOI DSP''] = Settings (default_settings\<lparr>c_p3p := ''CP=NOI DSP''\<rparr>)"
    by (simp add: parse_args_def arg_flags_def arg_values_def)
  show "config_line (''p3p=CP=NOI DSP'' @ [LF]) default_settings = Refused_options" by code_simp
qed


end
