(* ===== verification/Th_Boot.thy ===== *)
theory Th_Boot
  imports Th_Options Th_Server
begin

text \<open>
  The start of the server: \<open>main\<close> of \<open>src/others/thttpd-2.29/thttpd.c\<close> up to its timers and its table of
  connections, for which see \<open>Th_Server\<close>, with \<open>lookup_hostname\<close>, and \<open>httpd_initialize\<close> and
  \<open>initialize_listen_socket\<close> of \<open>libhttpd.c\<close>. A process is its user, its groups, its root and its working
  directory; what the system answers is a parameter. \<open>boot_confined\<close> says what is true when
  the main loop begins, whichever calls failed before; \<open>log_name_in_jail\<close> is about the name under which
  \<open>re_open_logfile\<close> opens the log again. The build is that for a system with IPv6 and
  \<open>daemon\<close>; allocations succeed; messages are left out, and so are signal handlers, the name of the login, the
  owner of the log file, the standard streams that are closed and the close-on-exec flag.
\<close>

section \<open>Processes\<close>

record proc =
  p_uid :: int
  p_gid :: int
  p_groups :: "int list"
  p_root :: string  \<comment> \<open>the root directory, as it was named when it was entered\<close>
  p_dir :: string  \<comment> \<open>the working directory, as the process sees it\<close>

datatype family = Inet | Inet6 | Other_family

datatype log_to = No_fp | Stdout | Log_file string

record socket_env =
  socket_fd :: int
  bind_ok :: "int \<Rightarrow> bool"  \<comment> \<open>of the user\<close>
  getfl_ok :: bool
  setfl_ok :: bool
  listen_ok :: bool

record os =
  contents :: "string \<Rightarrow> string option"  \<comment> \<open>the files of options and throttles\<close>
  table_room :: "nat \<Rightarrow> bool"
  addrinfo :: "string option \<Rightarrow> (family \<times> nat) list option"  \<comment> \<open>\<open>getaddrinfo\<close>: families and lengths\<close>
  passwd :: "string \<Rightarrow> (int \<times> int) option"  \<comment> \<open>\<open>getpwnam\<close>: user and group\<close>
  user_groups :: "string \<Rightarrow> int \<Rightarrow> int list option"  \<comment> \<open>what \<open>initgroups\<close> sets, if it works\<close>
  can_append :: "string \<Rightarrow> bool"
  can_write :: "string \<Rightarrow> bool"
  chdir :: "string \<Rightarrow> string \<Rightarrow> string \<Rightarrow> string option"  \<comment> \<open>root, working directory and path: the new directory\<close>
  getcwd_ok :: bool
  daemon_ok :: bool
  chroot_ok :: bool
  fd_room :: "int \<times> (int \<times> int) option \<times> bool \<times> bool"  \<comment> \<open>for \<open>fdwatch_get_nfiles\<close>\<close>
  host_name :: "string option"  \<comment> \<open>\<open>gethostname\<close>\<close>
  socket4 :: socket_env
  socket6 :: socket_env
  setgroups_ok :: bool
  setgid_ok :: bool
  setuid_ok :: bool

datatype boot_end = Exit_0 | Exit_1 | Unset_cwd  \<comment> \<open>\<open>getcwd\<close> left its array as it was\<close>

datatype 'a boot = Go 'a | Ends boot_end

fun go :: "'a boot \<Rightarrow> ('a \<Rightarrow> 'b boot) \<Rightarrow> 'b boot" where
  "go (Go x) f = f x"
| "go (Ends e) f = Ends e"

definition need :: "bool \<Rightarrow> unit boot" where
  \<comment> \<open>or \<open>exit(1)\<close>\<close>
  "need b = (if b then Go () else Ends Exit_1)"

fun or_exit :: "'a option \<Rightarrow> 'a boot" where
  "or_exit None = Ends Exit_1"
| "or_exit (Some x) = Go x"

definition change_dir :: "os \<Rightarrow> string \<Rightarrow> proc \<Rightarrow> proc boot" where
  "change_dir y path p = go (or_exit (chdir y (p_root p) (p_dir p) path)) (\<lambda>d. Go (p\<lparr>p_dir := d\<rparr>))"

section \<open>Addresses\<close>

definition SOCKADDR_SIZE :: nat where
  \<comment> \<open>\<open>sizeof(httpd_sockaddr)\<close>\<close>
  "SOCKADDR_SIZE = 128"

definition first_address :: "family \<Rightarrow> (family \<times> nat) list \<Rightarrow> bool boot" where
  \<comment> \<open>whether there is one of this family; it is copied into an array\<close>
  "first_address f xs =
     (case find (\<lambda>a. fst a = f) xs of
        None \<Rightarrow> Go False
      | Some a \<Rightarrow> if SOCKADDR_SIZE < snd a then Ends Exit_1 else Go True)"

definition lookup_hostname :: "os \<Rightarrow> settings \<Rightarrow> (bool \<times> bool) boot" where
  \<comment> \<open>\<open>gotv4\<close> and \<open>gotv6\<close>\<close>
  "lookup_hostname y s =
     go (or_exit (addrinfo y (c_hostname s))) (\<lambda>xs.
     go (first_address Inet6 xs) (\<lambda>v6.
     go (first_address Inet xs) (\<lambda>v4. Go (v4, v6))))"

section \<open>The HTTP layer\<close>

record hserver =
  binding_hostname :: "string option"
  h_server_hostname :: "string option"
  h_port :: "16 word"
  h_cgi_pattern :: "string option"
  h_cgi_limit :: int
  h_cgi_count :: int
  h_charset :: string
  h_p3p :: string
  h_max_age :: int
  h_cwd :: string
  h_url_pattern :: "string option"
  h_local_pattern :: "string option"
  h_no_log :: bool
  h_logfp :: log_to
  h_no_symlink_check :: bool
  h_vhost :: bool
  h_global_passwd :: bool
  h_no_empty_referrers :: bool
  h_listen4_fd :: int
  h_listen6_fd :: int

fun sockaddr_check :: "family \<Rightarrow> bool" where
  "sockaddr_check Inet = True"
| "sockaddr_check Inet6 = True"
| "sockaddr_check Other_family = False"

definition initialize_listen_socket :: "family \<Rightarrow> socket_env \<Rightarrow> proc \<Rightarrow> int" where
  "initialize_listen_socket f e p =
     (if \<not> sockaddr_check f \<or> socket_fd e < 0 \<or> \<not> bind_ok e (p_uid p) \<or> \<not> getfl_ok e \<or> \<not> setfl_ok e \<or> \<not> listen_ok e
      then -1 else socket_fd e)"

definition stripped_pattern :: "string \<Rightarrow> string" where
  "stripped_pattern p = nuke_slashes (if p \<noteq> [] \<and> hd p = CHR ''/'' then tl p else p)"

definition httpd_initialize :: "os \<Rightarrow> settings \<Rightarrow> bool \<times> bool \<Rightarrow> string \<Rightarrow> log_to \<Rightarrow> proc \<Rightarrow> hserver option" where
  "httpd_initialize y s got46 cw logfp p =
     (let fd6 = (if snd got46 then initialize_listen_socket Inet6 (socket6 y) p else -1);
          fd4 = (if fst got46 then initialize_listen_socket Inet (socket4 y) p else -1)
      in if fd4 = -1 \<and> fd6 = -1 then None
         else Some
           \<lparr>binding_hostname = c_hostname s,
            h_server_hostname =
              (case c_hostname s of
                 Some h \<Rightarrow> Some h
               | None \<Rightarrow> (case host_name y of None \<Rightarrow> None | Some h \<Rightarrow> if h = [] then None else Some h)),
            h_port = c_port s,
            h_cgi_pattern = map_option stripped_pattern (c_cgi_pattern s),
            h_cgi_limit = c_cgi_limit s, h_cgi_count = 0, h_charset = c_charset s, h_p3p = c_p3p s, h_max_age = c_max_age s,
            h_cwd = cw, h_url_pattern = c_url_pattern s, h_local_pattern = c_local_pattern s,
            h_no_log = c_no_log s, h_logfp = logfp, h_no_symlink_check = c_no_symlink_check s, h_vhost = c_vhost s,
            h_global_passwd = c_global_passwd s, h_no_empty_referrers = c_no_empty_referrers s,
            h_listen4_fd = fd4, h_listen6_fd = fd6\<rparr>)"

section \<open>The start\<close>

definition open_log :: "os \<Rightarrow> settings \<Rightarrow> (settings \<times> log_to) boot" where
  "open_log y s =
     (case c_logfile s of
        None \<Rightarrow> Go (s, No_fp)
      | Some f \<Rightarrow>
          if f = ''/dev/null'' then Go (s\<lparr>c_no_log := True\<rparr>, No_fp)
          else if f = ''-'' then Go (s, Stdout)
          else go (need (can_append y f)) (\<lambda>_. Go (s, Log_file f)))"

definition with_slash :: "string \<Rightarrow> string" where
  "with_slash d = (if d \<noteq> [] \<and> last d = CHR ''/'' then d else d @ ''/'')"

definition enter_jail :: "os \<Rightarrow> settings \<Rightarrow> string \<Rightarrow> proc \<Rightarrow> (settings \<times> string \<times> proc) boot" where
  \<comment> \<open>with \<open>cwd\<close>\<close>
  "enter_jail y s cw p =
     (if \<not> c_chroot s then Go (s, cw, p)
      else go (need (chroot_ok y)) (\<lambda>_.
           let s = (case c_logfile s of
                      None \<Rightarrow> s
                    | Some f \<Rightarrow>
                        if f \<noteq> ''-'' \<and> strneq f cw (length cw) then s\<lparr>c_logfile := Some (drop (length cw - 1) f)\<rparr> else s)
           in go (change_dir y ''/'' (p\<lparr>p_root := cw\<rparr>)) (\<lambda>p. Go (s, ''/'', p))))"

definition give_up_root :: "os \<Rightarrow> settings \<Rightarrow> int \<times> int \<Rightarrow> proc \<Rightarrow> proc boot" where
  \<comment> \<open>the user and the group to become\<close>
  "give_up_root y s ug p =
     (if p_uid p \<noteq> 0 then Go p
      else go (need (setgroups_ok y)) (\<lambda>_.
           go (need (setgid_ok y)) (\<lambda>_.
           let gs = (case user_groups y (c_user s) (snd ug) of None \<Rightarrow> [] | Some gs \<Rightarrow> gs)
           in go (need (setuid_ok y)) (\<lambda>_. Go (p\<lparr>p_groups := gs, p_gid := snd ug, p_uid := fst ug\<rparr>)))))"

definition workdir :: "os \<Rightarrow> string option \<Rightarrow> proc \<Rightarrow> proc boot" where
  \<comment> \<open>an optional change of the working directory\<close>
  "workdir y d p = (case d of None \<Rightarrow> Go p | Some x \<Rightarrow> change_dir y x p)"

definition fd_count :: "os \<Rightarrow> int" where
  \<comment> \<open>what \<open>fdwatch_get_nfiles\<close> answers\<close>
  "fd_count y = (case fd_room y of (n, rl, set_ok, room) \<Rightarrow> if room then fd_limit n rl set_ok else -1)"

definition new_ids :: "os \<Rightarrow> settings \<Rightarrow> proc \<Rightarrow> (int \<times> int) boot" where
  \<comment> \<open>the user and the group to become, looked up as root\<close>
  "new_ids y s p = (if p_uid p = 0 then or_exit (passwd y (c_user s)) else Go (32767, 32767))"

definition server_dir :: "os \<Rightarrow> proc \<Rightarrow> string boot" where
  \<comment> \<open>\<open>cwd\<close>\<close>
  "server_dir y p = (if getcwd_ok y then Go (with_slash (p_dir p)) else Ends Unset_cwd)"

record booted =
  b_settings :: settings
  b_throttles :: "throttle list"
  b_proc :: proc
  b_hs :: hserver
  b_max_connects :: int

definition options_of :: "parsed \<Rightarrow> settings boot" where
  "options_of r = (case r of Settings s \<Rightarrow> Go s | Version \<Rightarrow> Ends Exit_0 | Refused_options \<Rightarrow> Ends Exit_1)"

definition boot_server :: "os \<Rightarrow> string list \<Rightarrow> proc \<Rightarrow> booted boot" where
  "boot_server y args p =
     go (options_of (parse_args (contents y) args)) (\<lambda>s.
     go (lookup_hostname y s) (\<lambda>got46.
     go (need (fst got46 \<or> snd got46)) (\<lambda>_.
     go (case c_throttlefile s of None \<Rightarrow> Go [] | Some f \<Rightarrow> or_exit (read_throttlefile (table_room y) (contents y f))) (\<lambda>tab.
     go (new_ids y s p) (\<lambda>ug.
     go (open_log y s) (\<lambda>(s, logfp).
     go (workdir y (c_dir s) p) (\<lambda>p.
     go (server_dir y p) (\<lambda>cw.
     go (need (c_debug s \<or> daemon_ok y)) (\<lambda>_.
     go (need (case c_pidfile s of None \<Rightarrow> True | Some f \<Rightarrow> can_write y f)) (\<lambda>_.
     go (need (0 \<le> fd_count y)) (\<lambda>_.
     go (enter_jail y s cw p) (\<lambda>(s, cw, p).
     go (workdir y (c_data_dir s) p) (\<lambda>p.
     go (or_exit (httpd_initialize y s got46 cw logfp p)) (\<lambda>hs.
     go (give_up_root y s ug p) (\<lambda>p.
       Go \<lparr>b_settings = s, b_throttles = tab, b_proc = p, b_hs = hs, b_max_connects = fd_count y - SPARE_FDS\<rparr>)))))))))))))))"

section \<open>What has happened when the main loop is entered\<close>

lemma go_Go: "go m f = Go r \<longleftrightarrow> (\<exists>x. m = Go x \<and> f x = Go r)"
  by (cases m) auto

lemma need_Go: "need b = Go u \<longleftrightarrow> b"
  by (simp add: need_def)

lemma or_exit_Go: "or_exit m = Go x \<longleftrightarrow> m = Some x"
  by (cases m) auto

lemma change_dir_Go:
  "change_dir y d p = Go q \<longleftrightarrow> (\<exists>x. chdir y (p_root p) (p_dir p) d = Some x \<and> q = p\<lparr>p_dir := x\<rparr>)"
  by (auto simp: change_dir_def go_Go or_exit_Go)

lemmas boot_simps = go_Go need_Go or_exit_Go change_dir_Go

definition same_options :: "settings \<Rightarrow> settings \<Rightarrow> bool" where
  "same_options s t \<longleftrightarrow> c_user s = c_user t \<and> c_chroot s = c_chroot t \<and> c_dir s = c_dir t \<and> c_data_dir s = c_data_dir t"

definition goes_to :: "os \<Rightarrow> string option \<Rightarrow> string \<Rightarrow> string \<Rightarrow> string \<Rightarrow> bool" where
  \<comment> \<open>from root and working directory, an optional \<open>chdir\<close> leads to this directory\<close>
  "goes_to y x root d d' \<longleftrightarrow> (case x of None \<Rightarrow> d' = d | Some path \<Rightarrow> chdir y root d path = Some d')"

lemma open_log_same: "open_log y s = Go (t, l) \<Longrightarrow> same_options s t"
  by (auto simp: open_log_def boot_simps same_options_def split: option.splits if_splits)

lemma enter_jail_Go:
  assumes "enter_jail y s cw p = Go (t, cw1, q)"
  shows "same_options s t \<and> p_uid q = p_uid p \<and>
    (if c_chroot s then cw1 = ''/'' \<and> p_root q = cw \<and> (\<exists>d. chdir y cw (p_dir p) ''/'' = Some (p_dir q))
     else cw1 = cw \<and> q = p)"
  using assms by (auto simp: enter_jail_def boot_simps same_options_def Let_def split: if_splits option.splits)

lemma give_up_root_Go:
  assumes "give_up_root y s ug p = Go q"
  shows "p_dir q = p_dir p \<and> p_root q = p_root p \<and>
    (if p_uid p = 0 then p_uid q = fst ug \<and> p_gid q = snd ug \<and> (p_groups q = [] \<or> user_groups y (c_user s) (snd ug) = Some (p_groups q))
     else q = p)"
  using assms by (auto simp: give_up_root_def boot_simps Let_def split: if_splits option.splits)

lemma httpd_initialize_Some:
  assumes "httpd_initialize y s g cw l p = Some h"
  shows "h_cwd h = cw \<and> (0 \<le> h_listen4_fd h \<or> 0 \<le> h_listen6_fd h) \<and>
    (0 \<le> h_listen4_fd h \<longrightarrow> bind_ok (socket4 y) (p_uid p)) \<and> (0 \<le> h_listen6_fd h \<longrightarrow> bind_ok (socket6 y) (p_uid p))"
  using assms by (auto simp: httpd_initialize_def initialize_listen_socket_def Let_def split: if_splits)

lemma workdir_Go:
  "workdir y d p = Go q \<Longrightarrow> p_uid q = p_uid p \<and> p_root q = p_root p \<and> goes_to y d (p_root p) (p_dir p) (p_dir q)"
  by (auto simp: workdir_def goes_to_def boot_simps split: option.splits)

lemma new_ids_Go: "new_ids y s p = Go ug \<Longrightarrow> p_uid p = 0 \<longrightarrow> passwd y (c_user s) = Some ug"
  by (auto simp: new_ids_def or_exit_Go)

lemma server_dir_Go: "server_dir y p = Go cw \<longleftrightarrow> getcwd_ok y \<and> cw = with_slash (p_dir p)"
  by (auto simp: server_dir_def)

lemma last_with_slash: "with_slash d \<noteq> [] \<and> last (with_slash d) = CHR ''/''"
  by (simp add: with_slash_def)

lemma boot_server_Go:
  assumes "boot_server y args p = Go b"
  obtains s t l ug p1 p2 p3 g cw where
    "new_ids y s p = Go ug" "open_log y s = Go (t, l)" "workdir y (c_dir t) p = Go p1"
    "enter_jail y t (with_slash (p_dir p1)) p1 = Go (b_settings b, cw, p2)"
    "workdir y (c_data_dir (b_settings b)) p2 = Go p3"
    "httpd_initialize y (b_settings b) g cw l p3 = Some (b_hs b)"
    "give_up_root y (b_settings b) ug p3 = Go (b_proc b)"
  using assms
  unfolding boot_server_def by (clarsimp simp: go_Go need_Go or_exit_Go server_dir_Go)


text \<open>C40: when the server has started, it is the user it was told to become, if it was root, with that user's group
  and at most that user's other groups. The directory it serves is that of its \<open>dir\<close> option, or the one it was started
  in; with chroot just this directory is its root, its working directory begins at the new root and its paths are seen
  from there, and without chroot its root is as before; a data directory changes only the working directory. It listens on
  a socket, and each socket was bound while it was still the user that started it.\<close>

theorem boot_confined:
  assumes "boot_server y args p = Go b"
    "\<And>r d x. chdir y r d ''/'' = Some x \<Longrightarrow> x = ''/''"
  shows "(if p_uid p = 0
     then passwd y (c_user (b_settings b)) = Some (p_uid (b_proc b), p_gid (b_proc b)) \<and>
       (p_groups (b_proc b) = [] \<or> user_groups y (c_user (b_settings b)) (p_gid (b_proc b)) = Some (p_groups (b_proc b)))
     else p_uid (b_proc b) = p_uid p) \<and>
    (\<exists>d. goes_to y (c_dir (b_settings b)) (p_root p) (p_dir p) d \<and>
      (if c_chroot (b_settings b)
       then p_root (b_proc b) = with_slash d \<and> h_cwd (b_hs b) = ''/'' \<and>
         goes_to y (c_data_dir (b_settings b)) (with_slash d) ''/'' (p_dir (b_proc b))
       else p_root (b_proc b) = p_root p \<and> h_cwd (b_hs b) = with_slash d \<and>
         goes_to y (c_data_dir (b_settings b)) (p_root p) d (p_dir (b_proc b)))) \<and>
    (0 \<le> h_listen4_fd (b_hs b) \<or> 0 \<le> h_listen6_fd (b_hs b)) \<and>
    (0 \<le> h_listen4_fd (b_hs b) \<longrightarrow> bind_ok (socket4 y) (p_uid p)) \<and>
    (0 \<le> h_listen6_fd (b_hs b) \<longrightarrow> bind_ok (socket6 y) (p_uid p))"
proof -
  obtain s t l ug p1 p2 p3 g cw where b:
    "new_ids y s p = Go ug" "open_log y s = Go (t, l)" "workdir y (c_dir t) p = Go p1"
    "enter_jail y t (with_slash (p_dir p1)) p1 = Go (b_settings b, cw, p2)"
    "workdir y (c_data_dir (b_settings b)) p2 = Go p3"
    "httpd_initialize y (b_settings b) g cw l p3 = Some (b_hs b)"
    "give_up_root y (b_settings b) ug p3 = Go (b_proc b)"
    by (rule boot_server_Go [OF assms(1)])
  note i = new_ids_Go [OF b(1)] and w1 = workdir_Go [OF b(3)] and j = enter_jail_Go [OF b(4)] and w2 = workdir_Go [OF b(5)]
    and h = httpd_initialize_Some [OF b(6)] and r = give_up_root_Go [OF b(7)]
  have "same_options s t" "same_options t (b_settings b)" using open_log_same [OF b(2)] j by blast+
  then have u: "c_user s = c_user (b_settings b)" "c_chroot t = c_chroot (b_settings b)" "c_dir t = c_dir (b_settings b)"
    by (simp_all add: same_options_def)
  have uid: "p_uid p3 = p_uid p" using w1 j w2 by metis
  have user: "if p_uid p = 0
     then passwd y (c_user (b_settings b)) = Some (p_uid (b_proc b), p_gid (b_proc b)) \<and>
       (p_groups (b_proc b) = [] \<or> user_groups y (c_user (b_settings b)) (p_gid (b_proc b)) = Some (p_groups (b_proc b)))
     else p_uid (b_proc b) = p_uid p"
    using i r u(1) uid by (cases "p_uid p = 0") (simp_all split: prod.splits)
  have d: "goes_to y (c_dir (b_settings b)) (p_root p) (p_dir p) (p_dir p1)" using w1 u(3) by simp
  have jail: "if c_chroot (b_settings b)
       then p_root (b_proc b) = with_slash (p_dir p1) \<and> h_cwd (b_hs b) = ''/'' \<and>
         goes_to y (c_data_dir (b_settings b)) (with_slash (p_dir p1)) ''/'' (p_dir (b_proc b))
       else p_root (b_proc b) = p_root p \<and> h_cwd (b_hs b) = with_slash (p_dir p1) \<and>
         goes_to y (c_data_dir (b_settings b)) (p_root p) (p_dir p1) (p_dir (b_proc b))"
  proof (cases "c_chroot (b_settings b)")
    case True
    then have "cw = ''/''" "p_root p2 = with_slash (p_dir p1)" "p_dir p2 = ''/''"
      using j assms(2) u(2) by (simp_all) blast
    then show ?thesis using True w2 h r by metis
  next
    case False
    then have "cw = with_slash (p_dir p1)" "p2 = p1" using j u(2) by simp_all
    then show ?thesis using False w1 w2 h r by metis
  qed
  have "(0 \<le> h_listen4_fd (b_hs b) \<longrightarrow> bind_ok (socket4 y) (p_uid p)) \<and>
    (0 \<le> h_listen6_fd (b_hs b) \<longrightarrow> bind_ok (socket6 y) (p_uid p))"
    using h unfolding uid by blast
  then show ?thesis using user d jail h by blast
qed

lemma data_dir_not_in_cwd:
  assumes "boot_server y args p = Go b" "\<not> c_chroot (b_settings b)" "c_data_dir (b_settings b) = Some d"
  shows "\<exists>w r. h_cwd (b_hs b) = with_slash w \<and> chdir y r w d = Some (p_dir (b_proc b))"
proof -
  obtain s t l ug p1 p2 p3 g cw where b:
    "enter_jail y t (with_slash (p_dir p1)) p1 = Go (b_settings b, cw, p2)"
    "workdir y (c_data_dir (b_settings b)) p2 = Go p3"
    "httpd_initialize y (b_settings b) g cw l p3 = Some (b_hs b)"
    "give_up_root y (b_settings b) ug p3 = Go (b_proc b)"
    by (rule boot_server_Go [OF assms(1)])
  have "cw = with_slash (p_dir p1)" "p2 = p1" using enter_jail_Go [OF b(1)] assms(2) by (auto simp: same_options_def)
  moreover have "chdir y (p_root p2) (p_dir p2) d = Some (p_dir p3)"
    using b(2) assms(3) by (auto simp: workdir_def change_dir_Go)
  moreover have "p_dir (b_proc b) = p_dir p3" using give_up_root_Go [OF b(4)] by blast
  ultimately show ?thesis using httpd_initialize_Some [OF b(3)] by metis
qed

section \<open>The log file after \<open>chroot\<close>\<close>

definition re_open_logfile :: "os \<Rightarrow> settings \<Rightarrow> hserver \<Rightarrow> hserver" where
  \<comment> \<open>on SIGHUP\<close>
  "re_open_logfile y s h =
     (if c_no_log s then h
      else case c_logfile s of
             None \<Rightarrow> h
           | Some f \<Rightarrow> if f \<noteq> ''-'' \<and> can_append y f then h\<lparr>h_logfp := Log_file f\<rparr> else h)"

lemma strneq_self_prefix: "strneq (w @ r) w (length w)"
  unfolding strneq_def cstr_def takeWhile_append
  by (auto simp: takeWhile_eq_all_conv [THEN iffD2])

lemma log_name_in_jail:
  assumes "enter_jail y s (with_slash d) p = Go (t, cw, q)" "c_chroot s" "c_logfile s = Some (with_slash d @ r)"
  shows "c_logfile t = Some (''/'' @ r)"
proof -
  let ?w = "with_slash d"
  have w: "?w = butlast ?w @ ''/''" using last_with_slash [of d] by (metis append_butlast_last_id)
  then have d: "drop (length ?w - 1) (?w @ r) = ''/'' @ r"
    by (metis append.assoc append_eq_conv_conj length_butlast)
  have "?w @ r \<noteq> ''-''" using last_with_slash [of d] by (cases ?w; cases r) auto
  then show ?thesis using assms d by (auto simp: enter_jail_def go_Go need_Go change_dir_Go Let_def strneq_self_prefix)
qed

section \<open>An example\<close>

definition open_socket :: socket_env where
  "open_socket = \<lparr>socket_fd = 4, bind_ok = (\<lambda>u. u = 0), getfl_ok = True, setfl_ok = True, listen_ok = True\<rparr>"

definition plain_sys :: os where
  "plain_sys = \<lparr>contents = (\<lambda>f. None), table_room = (\<lambda>n. True), addrinfo = (\<lambda>h. Some [(Inet, 16)]),
     passwd = (\<lambda>u. if u = ''www'' then Some (33, 33) else None), user_groups = (\<lambda>u g. Some [g]), can_append = (\<lambda>f. True),
     can_write = (\<lambda>f. True), chdir = (\<lambda>r w d. if d = ''/srv'' \<or> d = ''/'' then Some d else None), getcwd_ok = True, daemon_ok = True,
     chroot_ok = True, fd_room = (1024, None, True, True), host_name = None, socket4 = open_socket, socket6 = open_socket,
     setgroups_ok = True, setgid_ok = True, setuid_ok = True\<rparr>"

definition root_proc :: proc where
  "root_proc = \<lparr>p_uid = 0, p_gid = 0, p_groups = [0], p_root = ''/'', p_dir = ''/root''\<rparr>"

lemma plain_boot:
  "case boot_server plain_sys [''-d'', ''/srv'', ''-r'', ''-u'', ''www''] root_proc of
     Go b \<Rightarrow> c_chroot (b_settings b) \<and> c_dir (b_settings b) = Some ''/srv'' \<and> c_data_dir (b_settings b) = None \<and>
       c_user (b_settings b) = ''www'' | _ \<Rightarrow> False"
  by code_simp

theorem boot_confined_witness:
  "\<exists>b. boot_server plain_sys [''-d'', ''/srv'', ''-r'', ''-u'', ''www''] root_proc = Go b \<and> p_uid (b_proc b) = 33 \<and>
    p_root (b_proc b) = ''/srv/'' \<and> h_cwd (b_hs b) = ''/'' \<and> p_dir (b_proc b) = ''/'' \<and>
    (0 \<le> h_listen4_fd (b_hs b) \<or> 0 \<le> h_listen6_fd (b_hs b))"
proof -
  obtain b where b: "boot_server plain_sys [''-d'', ''/srv'', ''-r'', ''-u'', ''www''] root_proc = Go b"
    "c_chroot (b_settings b)" "c_dir (b_settings b) = Some ''/srv''" "c_data_dir (b_settings b) = None"
    "c_user (b_settings b) = ''www''"
    using plain_boot by (auto split: boot.splits)
  have c: "chdir plain_sys r d ''/'' = Some x \<Longrightarrow> x = ''/''" "chdir plain_sys r d ''/srv'' = Some x \<Longrightarrow> x = ''/srv''" for r d x
    by (simp_all add: plain_sys_def split: if_splits)
  have p: "p_uid root_proc = 0" "passwd plain_sys ''www'' = Some (33, 33)" "with_slash ''/srv'' = ''/srv/''"
    by (simp_all add: root_proc_def plain_sys_def with_slash_def)
  have "(if p_uid root_proc = 0
     then passwd plain_sys (c_user (b_settings b)) = Some (p_uid (b_proc b), p_gid (b_proc b)) \<and>
       (p_groups (b_proc b) = [] \<or> user_groups plain_sys (c_user (b_settings b)) (p_gid (b_proc b)) = Some (p_groups (b_proc b)))
     else p_uid (b_proc b) = p_uid root_proc) \<and>
    (\<exists>d. goes_to plain_sys (c_dir (b_settings b)) (p_root root_proc) (p_dir root_proc) d \<and>
      (if c_chroot (b_settings b)
       then p_root (b_proc b) = with_slash d \<and> h_cwd (b_hs b) = ''/'' \<and>
         goes_to plain_sys (c_data_dir (b_settings b)) (with_slash d) ''/'' (p_dir (b_proc b))
       else p_root (b_proc b) = p_root root_proc \<and> h_cwd (b_hs b) = with_slash d \<and>
         goes_to plain_sys (c_data_dir (b_settings b)) (p_root root_proc) d (p_dir (b_proc b)))) \<and>
    (0 \<le> h_listen4_fd (b_hs b) \<or> 0 \<le> h_listen6_fd (b_hs b)) \<and>
    (0 \<le> h_listen4_fd (b_hs b) \<longrightarrow> bind_ok (socket4 plain_sys) (p_uid root_proc)) \<and>
    (0 \<le> h_listen6_fd (b_hs b) \<longrightarrow> bind_ok (socket6 plain_sys) (p_uid root_proc))"
    by (rule boot_confined [OF b(1)]) (rule c(1))
  then show ?thesis using b p by (auto simp: goes_to_def dest!: c(2))
qed

end
