(* ===== verification/Spec2Isabelle.thy ===== *)
theory Spec2Isabelle
  imports Server Multipart_Message Backup Th_Server Th_Twice Th_Interpose Th_List Th_Boot
begin

text \<open>
  A model of the programs of the tinyhttpd repository. Three of them are modelled.

  \<^bold>\<open>tinyhttpd\<close> (\<open>src/src/httpd.c\<close>, \<open>mimetypes.h\<close>, \<open>statuscode.h\<close>), the repository's own
  server. \<open>main\<close> starts a socket and accepts connections one after the other; each is handled by
  \<open>httpd_accept_request\<close>, which reads the request line with \<open>httpd_get_line\<close>, cuts method, URL and
  query out of it, and sends an error page, a file, or the output of a CGI program.
    \<^item> \<open>Tables\<close>: the MIME, status and alias tables entry by entry and the loops that scan them. What
      a scan finds, suffixes, the CGI entries.
    \<^item> \<open>Socket\<close>: a connection is a list of events (a byte, a failed read) and the bytes sent;
      \<open>httpd_get_line\<close> on its array, and the abstract reader of lines that it refines.
    \<^item> \<open>Serve\<close>: the response headers and error pages with the sizes of their buffers, and sending
      a file; each fits its buffer, the copy loop ends on a readable file.
    \<^item> \<open>Cgi\<close>: the parent and the child process of \<open>httpd_execute_cgi\<close>; the program that is run is a
      parameter that maps its environment and input to its output.
    \<^item> \<open>Request\<close>: the whole handler. What its scanning loops compute, how a request ends, and a
      complete GET of a file.
    \<^item> \<open>Server\<close>: start-up and the accept loop of the single-threaded build.

  \<^bold>\<open>cgi-io\<close> (\<open>src/cgi/cgi-io/src/main.c\<close>, \<open>multipart_parser.c\<close>), the CGI helper for uploads and
  backups.
    \<^item> \<open>Multipart\<close>: the parser's state machine, byte by byte, with its heap block and marks; a step
      is \<open>Next\<close> (the next byte), \<open>Again\<close> (the same byte in a new state) or \<open>Stop\<close>; it stays in its
      block for any input and any client of its callbacks.
    \<^item> \<open>Multipart_Data\<close>, \<open>Multipart_Message\<close>: the bytes of a part are delivered exactly however the
      input is cut into buffers; a printed message is parsed back; the two ways in which a cut changes
      a header.
    \<^item> \<open>Urlform\<close>: form decoding in place in a static buffer, against a pure decoder.
    \<^item> \<open>Upload\<close>: the callbacks, the temporary file and the final copy; a file changes only with a
      granted session.
    \<^item> \<open>Backup\<close>: the backup helper and the choice of the helper by name.

  \<^bold>\<open>thttpd\<close> (\<open>src/others/thttpd-2.29\<close>), a bundled server, in part.
    \<^item> \<open>Th_Timers\<close>: the timer lists of \<open>timers.c\<close> in a store of linked records. The invariant of
      lists and counts over any sequence of calls; what \<open>tmr_run\<close> fires.
    \<^item> \<open>Th_Mmc\<close>: the cache of mapped files of \<open>mmc.c\<close> with its hash table. The table holds exactly
      the active maps; files in use stay mapped; what a failed allocation leads to.
    \<^item> \<open>Th_Match\<close>: the wildcard matcher of \<open>match.c\<close>, equal to the meaning of patterns.
    \<^item> \<open>Th_Auth\<close>: basic authentication against password files; base 64, and the cached entry that changes
      no answer.
    \<^item> \<open>Th_Request\<close>, \<open>Th_Path\<close>, \<open>Th_Expand\<close>, \<open>Th_Parse\<close>: the request half of \<open>libhttpd.c\<close>. The
      machine that waits for a whole request, percent codes, dot-dot removal, symbolic links, and
      \<open>httpd_parse_request\<close> with every header. A request that is let through stays inside the web tree
      as far as path components and links go; no string overflows; three ways in which it fails.
    \<^item> \<open>Th_Search\<close>, \<open>Th_Date\<close>: binary search in a sorted table, and the date parser of \<open>tdate_parse.c\<close>, which
      reads back what the server prints.
    \<^item> \<open>Th_Mime\<close>, \<open>Th_Response\<close>: types and encodings by suffix; headers, error pages and redirects. Headers are
      well framed, pages hold no tags of the client; a redirect that loses its slash.
    \<^item> \<open>Th_Start\<close>, \<open>Th_Served\<close>: \<open>httpd_start_request\<close>, from the permissions of a file to its map and headers. When a
      file is sent, and two gaps.
    \<^item> \<open>Th_Fdwatch\<close>, \<open>Th_Throttle\<close>, \<open>Th_Conn\<close>: the arrays of \<open>fdwatch.c\<close>, which are a finite map from descriptors;
      throttles; and \<open>thttpd.c\<close>: the table of connections, every handler and timer procedure, a round of the main loop.
    \<^item> \<open>Th_Send\<close>: \<open>handle_send\<close> delivers a file exactly, however writes are cut and throttles pause it.
    \<^item> \<open>Th_Frame\<close>, \<open>Th_Table\<close>, \<open>Th_Live\<close>: what a request and a timer call leave alone, and the laws of the table of
      connections: free list, throttle counts, watch and timers, which the end of a connection keeps.
    \<^item> \<open>Th_Handlers\<close>, \<open>Th_Clock\<close>, \<open>Th_Sent\<close>: every handler and timer procedure keeps them, one connection at a time.
    \<^item> \<open>Th_Server\<close>: the start, and all of these as steps in any order. In every reachable state the counters are true and
      no connection is forgotten; the program never ends through a fault of its own bookkeeping.
    \<^item> \<open>Th_Interpose\<close>, \<open>Th_Cgi\<close>: the child processes of a program: its environment and arguments, its descriptors, and
      the two processes that pass its input and output on. Input and output are exact however they are cut, and the
      status is that of the headers when these end in the network form.
    \<^item> \<open>Th_List\<close>: the child that lists a directory: every name, in order, with links that decode to it.
    \<^item> \<open>Th_Options\<close>: the command line and the configuration file, which agree on the options they share.
    \<^item> \<open>Th_Boot\<close>: \<open>main\<close> up to its tables: addresses, log, \<open>chroot\<close>, listening sockets and the change of user.
    \<^item> \<open>Th_Twice\<close>: the one order of timers that the steps leave out, in which \<open>tmr_run\<close> cancels a timer twice.

  \<open>Prelude\<close> holds bytes and C strings, the functions of the C library that the sources use, and the
  outcomes of an operation. Conventions: a C array is the list of all its bytes and a write outside it is
  a branch of the model (\<open>Fault\<close>, \<open>None\<close> or \<open>Crash\<close>, as the component has it); what lies behind an
  array that is read is a parameter; a loop that may not end is a partial function whose value is then
  \<open>None\<close>, or the outcome \<open>Hang\<close>, and no fuel is used. What the operating system answers (\<open>recv\<close>,
  \<open>stat\<close>, \<open>malloc\<close>, \<open>mmap\<close>, \<open>readlink\<close> and so on) is a parameter without assumptions, except where a
  theorem states one. Machine integers are words where they wrap in the code (hash values, modes, the
  content length); counters and times are integers, and \<open>Th_Mmc\<close> assumes fewer than \<open>2 ^ 27\<close> maps,
  under which the doubling of its table cannot overflow.

  Not modelled: output to logs; the multi-threaded variant of tinyhttpd, which is not compiled; and the other bundled
  servers, mini_httpd, shttpd and lighttpd, which are copies of other projects. Options that the default
  build leaves out (tilde maps, directory levels of virtual hosts) are left out.
\<close>

end
